(* ===== verification/Prelude.thy ===== *)
theory Prelude
  imports Main
    "HOL-Library.AList"
    "HOL-Library.Sublist"
    "HOL-Library.Multiset"
    "HOL-Library.Char_ord"
    "HOL-Library.List_Lexorder"
begin

text \<open>
  Shared vocabulary of the development: the parts of Go and of its standard library that every
  component uses (error values and \<open>errors.Is\<close>, byte strings, 64-bit integers, instants and
  durations, contexts), generic lemmas on lists and association lists, and the generic notion of a
  reachable state of a step relation with the locale of its inductive invariants.
\<close>

declare Let_def [simp]

named_theorems alist_simps \<open>rewriting of association lists used as Go maps\<close>
named_theorems go_defs \<open>definitions of Go library functions\<close>

section \<open>Errors\<close>

text \<open>
  Error values. The sentinels the sources compare with \<open>errors.Is\<close> are constructors; every other
  error is its message. \<open>errors.Wrap\<close> and \<open>fmt.Errorf\<close> with \<open>%w\<close> keep the wrapped error
  reachable, and \<open>errors.Join\<close> keeps both.
\<close>

datatype err =
    ErrNotFound
  | Canceled
  | DeadlineExceeded
  | ErrEOF
  | ErrUnexpectedEOF
  | ErrShortWrite
  | ErrMsg string
  | ErrWrap string err
  | ErrJoin err err

fun errors_is :: "err \<Rightarrow> err \<Rightarrow> bool" where
  "errors_is (ErrWrap m e) t = (ErrWrap m e = t \<or> errors_is e t)"
| "errors_is (ErrJoin a b) t = (ErrJoin a b = t \<or> errors_is a t \<or> errors_is b t)"
| "errors_is e t = (e = t)"

type_synonym 'a res = "err + 'a"

text \<open>A context that is still alive is \<open>None\<close>; one that ended carries \<open>ctx.Err()\<close>.\<close>

type_synonym ctx = "err option"

abbreviation (input) alive :: ctx where
  "alive \<equiv> None"

section \<open>Integers, instants and durations\<close>

text \<open>
  \<open>int64\<close> values are mathematical integers kept inside the range by \<open>wrap64\<close> where an operation
  can leave it. Go's \<open>/\<close> and \<open>%\<close> truncate towards zero.
\<close>

definition int64_ok :: "int \<Rightarrow> bool" where
  "int64_ok x \<longleftrightarrow> - (2 ^ 63) \<le> x \<and> x < 2 ^ 63"

definition wrap64 :: "int \<Rightarrow> int" where
  "wrap64 x = (x + 2 ^ 63) mod 2 ^ 64 - 2 ^ 63"

definition go_div :: "int \<Rightarrow> int \<Rightarrow> int" where
  "go_div a b = sgn a * sgn b * (\<bar>a\<bar> div \<bar>b\<bar>)"

definition go_mod :: "int \<Rightarrow> int \<Rightarrow> int" where
  "go_mod a b = a - go_div a b * b"

lemma wrap64_id [simp]: "int64_ok x \<Longrightarrow> wrap64 x = x"
  by (simp add: int64_ok_def wrap64_def)

lemma wrap64_ok [simp]: "int64_ok (wrap64 x)"
proof -
  have "0 \<le> (x + 2 ^ 63) mod 2 ^ 64" "(x + 2 ^ 63) mod 2 ^ 64 < 2 ^ 64"
    by simp_all
  then show ?thesis
    by (simp add: int64_ok_def wrap64_def)
qed

lemma go_div_nonneg [simp]: "0 \<le> a \<Longrightarrow> 0 < b \<Longrightarrow> go_div a b = a div b"
  by (cases "a = 0") (auto simp: go_div_def)

lemma go_mod_nonneg [simp]: "0 \<le> a \<Longrightarrow> 0 < b \<Longrightarrow> go_mod a b = a mod b"
  by (simp add: go_mod_def minus_div_mult_eq_mod)

text \<open>
  An instant (\<open>time.Time\<close>) is its distance in nanoseconds from Go's zero instant, so \<open>IsZero\<close> is
  equality with 0; a \<open>time.Duration\<close> is a number of nanoseconds. \<open>Sub\<close> saturates at the ends
  of the 64-bit range; \<open>Add\<close> does not.
\<close>

type_synonym instant = int
type_synonym duration = int

abbreviation (input) second :: duration where "second \<equiv> 1000000000"
abbreviation (input) millisecond :: duration where "millisecond \<equiv> 1000000"
abbreviation (input) minute :: duration where "minute \<equiv> 60 * second"
abbreviation (input) hour :: duration where "hour \<equiv> 60 * minute"

abbreviation (input) is_zero :: "instant \<Rightarrow> bool" where
  "is_zero t \<equiv> t = 0"

definition time_sub :: "instant \<Rightarrow> instant \<Rightarrow> duration" where
  "time_sub a b = max (- (2 ^ 63)) (min (2 ^ 63 - 1) (a - b))"

lemma time_sub_less_iff:
  "int64_ok d \<Longrightarrow> - (2 ^ 63) < d \<Longrightarrow> time_sub a b < d \<longleftrightarrow> a - b < d"
  by (auto simp: time_sub_def int64_ok_def)

lemma time_sub_greater_iff:
  "int64_ok d \<Longrightarrow> d < 2 ^ 63 - 1 \<Longrightarrow> d < time_sub a b \<longleftrightarrow> d < a - b"
  by (auto simp: time_sub_def int64_ok_def)

section \<open>Strings\<close>

text \<open>
  Go strings are byte strings. White space is the ASCII white space of \<open>strings.TrimSpace\<close>;
  the Unicode spaces beyond ASCII are ordinary bytes here.
\<close>

definition is_space :: "char \<Rightarrow> bool" where
  "is_space c \<longleftrightarrow> c \<in> {CHR '' '', CHR 0x09, CHR 0x0A, CHR 0x0B, CHR 0x0C, CHR 0x0D}"

definition trim_left :: "(char \<Rightarrow> bool) \<Rightarrow> string \<Rightarrow> string" where
  "trim_left p s = dropWhile p s"

definition trim_right :: "(char \<Rightarrow> bool) \<Rightarrow> string \<Rightarrow> string" where
  "trim_right p s = rev (dropWhile p (rev s))"

definition trim :: "(char \<Rightarrow> bool) \<Rightarrow> string \<Rightarrow> string" where
  "trim p s = trim_right p (trim_left p s)"

abbreviation trim_space :: "string \<Rightarrow> string" where
  "trim_space \<equiv> trim is_space"

abbreviation has_prefix :: "string \<Rightarrow> string \<Rightarrow> bool" where
  "has_prefix s p \<equiv> prefix p s"

definition trim_prefix :: "string \<Rightarrow> string \<Rightarrow> string" where
  "trim_prefix s p = (if has_prefix s p then drop (length p) s else s)"

definition lower :: "char \<Rightarrow> char" where
  "lower c = (if CHR ''A'' \<le> c \<and> c \<le> CHR ''Z'' then char_of (of_char c + 32 :: nat) else c)"

definition to_lower :: "string \<Rightarrow> string" where
  "to_lower s = map lower s"

text \<open>\<open>strings.Cut\<close> and \<open>strings.Split\<close> with a one-byte separator.\<close>

definition cut :: "char \<Rightarrow> string \<Rightarrow> (string \<times> string) option" where
  "cut c s = (if c \<in> set s
     then Some (takeWhile (\<lambda>x. x \<noteq> c) s, tl (dropWhile (\<lambda>x. x \<noteq> c) s)) else None)"

fun split_on :: "char \<Rightarrow> string \<Rightarrow> string list" where
  "split_on c [] = [[]]"
| "split_on c (x # xs) =
     (if x = c then [] # split_on c xs
      else (case split_on c xs of [] \<Rightarrow> [[x]] | w # ws \<Rightarrow> (x # w) # ws))"

text \<open>\<open>strings.Join\<close>.\<close>

fun join :: "string \<Rightarrow> string list \<Rightarrow> string" where
  "join sep [] = []"
| "join sep [w] = w"
| "join sep (w # ws) = w @ sep @ join sep ws"

subsection \<open>Decimal numbers\<close>

definition digit_char :: "nat \<Rightarrow> char" where
  "digit_char d = char_of (48 + d)"

definition is_digit :: "char \<Rightarrow> bool" where
  "is_digit c \<longleftrightarrow> 48 \<le> (of_char c :: nat) \<and> (of_char c :: nat) \<le> 57"

definition digit_val :: "char \<Rightarrow> nat" where
  "digit_val c = of_char c - 48"

fun fmt_nat :: "nat \<Rightarrow> string" where
  "fmt_nat n = (if n < 10 then [digit_char n] else fmt_nat (n div 10) @ [digit_char (n mod 10)])"

declare fmt_nat.simps [simp del]

definition fmt_int :: "int \<Rightarrow> string" where
  "fmt_int i = (if i < 0 then CHR ''-'' # fmt_nat (nat (- i)) else fmt_nat (nat i))"

definition digits_val :: "string \<Rightarrow> nat" where
  "digits_val s = foldl (\<lambda>a c. a * 10 + digit_val c) 0 s"

text \<open>\<open>strconv.ParseInt(s, 10, 64)\<close>: an optional sign, digits, and the range check.\<close>

definition parse_int64 :: "string \<Rightarrow> int option" where
  "parse_int64 s =
     (let neg = (s \<noteq> [] \<and> hd s = CHR ''-'');
          ds = (if s \<noteq> [] \<and> hd s \<in> {CHR ''-'', CHR ''+''} then tl s else s);
          v = (if neg then - int (digits_val ds) else int (digits_val ds))
      in if ds \<noteq> [] \<and> list_all is_digit ds \<and> int64_ok v then Some v else None)"

lemma digit_char_props [simp]:
  assumes "d < 10"
  shows "is_digit (digit_char d)" and "digit_val (digit_char d) = d"
  using assms by (auto simp: is_digit_def digit_val_def digit_char_def)

lemma fmt_nat_ne [simp]: "fmt_nat n \<noteq> []"
  by (subst fmt_nat.simps) simp

lemma fmt_nat_digits: "list_all is_digit (fmt_nat n)"
  by (induction n rule: fmt_nat.induct) (subst fmt_nat.simps, simp)

lemma digits_val_fmt_nat [simp]: "digits_val (fmt_nat n) = n"
proof (induction n rule: fmt_nat.induct)
  case (1 n)
  show ?case
  proof (cases "n < 10")
    case True
    then show ?thesis by (subst fmt_nat.simps) (simp add: digits_val_def)
  next
    case False
    with 1 have IH: "digits_val (fmt_nat (n div 10)) = n div 10" by simp
    from False show ?thesis
      by (subst fmt_nat.simps) (use IH in \<open>simp add: digits_val_def\<close>)
  qed
qed

lemma is_digit_not_special:
  "is_digit c \<Longrightarrow> c \<noteq> CHR ''-'' \<and> c \<noteq> CHR ''+'' \<and> c \<noteq> CHR '','' \<and> c \<noteq> CHR ''='' \<and> \<not> is_space c"
  by (auto simp: is_digit_def is_space_def)

lemma fmt_nat_not_special: "c \<in> set (fmt_nat n) \<Longrightarrow> is_digit c"
  using fmt_nat_digits [of n] by (simp add: list_all_iff)

lemma parse_fmt_int [simp]: "0 \<le> i \<Longrightarrow> int64_ok i \<Longrightarrow> parse_int64 (fmt_int i) = Some i"
proof -
  assume i: "0 \<le> i" "int64_ok i"
  have "hd (fmt_nat (nat i)) \<in> set (fmt_nat (nat i))" by simp
  then have "is_digit (hd (fmt_nat (nat i)))" by (rule fmt_nat_not_special)
  then have "hd (fmt_nat (nat i)) \<notin> {CHR ''-'', CHR ''+''}"
    using is_digit_not_special by blast
  with i show ?thesis
    by (simp add: parse_int64_def fmt_int_def fmt_nat_digits)
qed

lemma trim_id: "s \<noteq> [] \<Longrightarrow> \<not> p (hd s) \<Longrightarrow> \<not> p (last s) \<Longrightarrow> trim p s = s"
proof -
  assume a: "s \<noteq> []" "\<not> p (hd s)" "\<not> p (last s)"
  then have "dropWhile p s = s" by (cases s) auto
  moreover have "dropWhile p (rev s) = rev s"
    using a by (cases "rev s") (auto simp: hd_rev [symmetric])
  ultimately show ?thesis by (simp add: trim_def trim_left_def trim_right_def)
qed

lemma trim_Nil [simp]: "trim p [] = []"
  by (simp add: trim_def trim_left_def trim_right_def)

lemma set_trim: "set (trim p s) \<subseteq> set s"
  by (auto simp: trim_def trim_left_def trim_right_def dest!: set_dropWhileD)

section \<open>Go maps as association lists\<close>

text \<open>
  A Go map that is iterated is an association list with distinct keys; the order of the list is one
  of the iteration orders Go may choose. Lookup is \<open>map_of\<close>, assignment \<open>AList.update\<close>, and
  \<open>delete\<close> is \<open>AList.delete\<close>.
\<close>

abbreviation keys :: "('k \<times> 'v) list \<Rightarrow> 'k list" where
  "keys al \<equiv> map fst al"

lemmas alist_update_conv [alist_simps] = AList.update_conv'
lemmas alist_delete_conv [alist_simps] = AList.delete_conv'

lemma distinct_keys_update [simp, intro]:
  "distinct (keys al) \<Longrightarrow> distinct (keys (AList.update k v al))"
  by (rule AList.distinct_update)

lemma distinct_keys_delete [simp, intro]:
  "distinct (keys al) \<Longrightarrow> distinct (keys (AList.delete k al))"
  by (simp add: AList.distinct_delete)

lemma fst_set_update [alist_simps]: "fst ` set (AList.update k v al) = insert k (fst ` set al)"
  by (simp add: AList.dom_update)

lemma fst_set_delete [alist_simps]: "fst ` set (AList.delete k al) = fst ` set al - {k}"
  by (auto simp: AList.delete_eq image_iff)

lemma map_of_key: "map_of al k = Some v \<Longrightarrow> k \<in> fst ` set al"
  by (force dest: map_of_SomeD)

section \<open>Lists as histories\<close>

text \<open>Every element of a history stands in the relation to the part before it.\<close>

definition each_after :: "('a list \<Rightarrow> 'a \<Rightarrow> bool) \<Rightarrow> 'a list \<Rightarrow> bool" where
  "each_after P xs \<longleftrightarrow> (\<forall>pre x post. xs = pre @ x # post \<longrightarrow> P pre x)"

lemma each_after_Nil [simp]: "each_after P []"
  by (simp add: each_after_def)

lemma each_after_split: "each_after P (pre @ x # post) \<Longrightarrow> P pre x"
  by (simp add: each_after_def)

lemma each_after_snoc: "each_after P (xs @ [x]) \<longleftrightarrow> each_after P xs \<and> P xs x"
proof
  assume e: "each_after P (xs @ [x])"
  have "P pre y" if "xs = pre @ y # post" for pre y post
    using e that unfolding each_after_def by (metis append.assoc append_Cons)
  with e show "each_after P xs \<and> P xs x" unfolding each_after_def by blast
next
  assume e: "each_after P xs \<and> P xs x"
  have "P pre y" if "xs @ [x] = pre @ y # post" for pre y post
  proof (cases post rule: rev_cases)
    case Nil
    with that e show ?thesis by auto
  next
    case (snoc p z)
    with that have "xs = pre @ y # p" by auto
    with e show ?thesis unfolding each_after_def by blast
  qed
  then show "each_after P (xs @ [x])" unfolding each_after_def by blast
qed

section \<open>Reachable states and inductive invariants\<close>

text \<open>
  Concurrent components are step relations: one rule per critical section or blocking point of the
  source, taken in any order. A state is reachable when a finite sequence of steps leads to it from
  an initial state.
\<close>

inductive reach :: "('s \<Rightarrow> bool) \<Rightarrow> ('s \<Rightarrow> 's \<Rightarrow> bool) \<Rightarrow> 's \<Rightarrow> bool"
  for init :: "'s \<Rightarrow> bool" and step :: "'s \<Rightarrow> 's \<Rightarrow> bool" where
  reach_init: "init s \<Longrightarrow> reach init step s"
| reach_step: "reach init step s \<Longrightarrow> step s t \<Longrightarrow> reach init step t"

locale invariant_proof =
  fixes init :: "'s \<Rightarrow> bool"
    and step :: "'s \<Rightarrow> 's \<Rightarrow> bool"
    and inv :: "'s \<Rightarrow> bool"
  assumes inv_init: "init s \<Longrightarrow> inv s"
    and inv_step: "inv s \<Longrightarrow> step s t \<Longrightarrow> inv t"
begin

lemma reach_inv: "reach init step s \<Longrightarrow> inv s"
  by (induction rule: reach.induct) (auto intro: inv_init inv_step)

lemma reach_next_inv: "reach init step s \<Longrightarrow> step s t \<Longrightarrow> inv s \<and> inv t"
  using reach_inv inv_step by blast

end

end
