(* ===== verification/Range_Proxy.thy ===== *)
theory Range_Proxy
  imports Prelude
begin

text \<open>
  The HTTP range proxy (src/application/proxy.range/handler.go): parsing of the \<open>Range\<close> header,
  the whole request handler \<open>serveHTTP\<close> with every early return, multipart responses and their
  announced length, and the report of delivered ranges. Byte transport is the port
  \<open>ports.RangeTransfer\<close>; its calls are answered by the record \<open>transport\<close>. Log lines are not
  modelled; calls on the port are recorded in a trace.
\<close>

section \<open>Ranges\<close>

record downloadRange =
  dr_start :: int
  dr_end :: int

definition range_length :: "downloadRange \<Rightarrow> int" where
  "range_length r = (if dr_end r < dr_start r then 0 else dr_end r - dr_start r + 1)"

abbreviation mk_range :: "int \<Rightarrow> int \<Rightarrow> downloadRange" where
  "mk_range s e \<equiv> \<lparr>dr_start = s, dr_end = e\<rparr>"

definition errRangeNoOverlap :: err where
  "errRangeNoOverlap = ErrMsg ''requested range does not overlap content''"

text \<open>\<open>textproto.TrimString\<close> removes only blanks, tabs and line ends.\<close>

definition trim_string :: "string \<Rightarrow> string" where
  "trim_string = trim (\<lambda>c. c \<in> {CHR '' '', CHR 0x09, CHR 0x0A, CHR 0x0D})"

definition parse_suffix :: "string \<Rightarrow> int \<Rightarrow> downloadRange option res" where
  "parse_suffix lst sz =
     (case parse_int64 lst of
        None \<Rightarrow> Inl (ErrMsg ''invalid suffix range'')
      | Some sfx \<Rightarrow>
          if sfx \<le> 0 then Inl (ErrMsg ''invalid suffix range'')
          else let sfx = (if sfx > sz then sz else sfx)
               in if sfx = 0 then Inr None
                  else Inr (Some (mk_range (sz - sfx) (sz - 1))))"

definition parse_bounds :: "string \<Rightarrow> string \<Rightarrow> int \<Rightarrow> downloadRange option res" where
  "parse_bounds first lst sz =
     (case parse_int64 first of
        None \<Rightarrow> Inl (ErrMsg ''invalid range start'')
      | Some start \<Rightarrow>
          if start < 0 then Inl (ErrMsg ''invalid range start'')
          else if start \<ge> sz then Inr None
          else if lst = [] then Inr (Some (mk_range start (sz - 1)))
          else (case parse_int64 lst of
                  None \<Rightarrow> Inl (ErrMsg ''invalid range bounds'')
                | Some end \<Rightarrow>
                    if end < start then Inl (ErrMsg ''invalid range bounds'')
                    else Inr (Some (mk_range start (if end \<ge> sz then sz - 1 else end)))))"

text \<open>One element of the comma-separated list; \<open>None\<close> is a range outside the content.\<close>

definition parse_spec :: "string \<Rightarrow> int \<Rightarrow> downloadRange option res" where
  "parse_spec raw sz =
     (let raw = trim_string raw
      in if raw = [] then Inl (ErrMsg ''invalid empty range'')
         else (case cut (CHR ''-'') raw of
                 None \<Rightarrow> Inl (ErrMsg ''invalid range format'')
               | Some (first, lst) \<Rightarrow>
                   let first = trim_string first; lst = trim_string lst
                   in if first = [] then parse_suffix lst sz
                      else parse_bounds first lst sz))"

fun parse_specs :: "string list \<Rightarrow> int \<Rightarrow> downloadRange list \<Rightarrow> bool \<Rightarrow> (downloadRange list \<times> bool) res"
  where
  "parse_specs [] sz ranges noOverlap = Inr (ranges, noOverlap)"
| "parse_specs (raw # rest) sz ranges noOverlap =
     (case parse_spec raw sz of
        Inl e \<Rightarrow> Inl e
      | Inr None \<Rightarrow> parse_specs rest sz ranges True
      | Inr (Some r) \<Rightarrow> parse_specs rest sz (ranges @ [r]) noOverlap)"

definition parseDownloadRanges :: "string \<Rightarrow> int \<Rightarrow> downloadRange list res" where
  "parseDownloadRanges header sz =
     (if sz < 0 then Inl (ErrMsg ''invalid content length'')
      else if trim_space header = [] then Inr []
      else (case cut (CHR ''='') header of
              None \<Rightarrow> Inl (ErrMsg ''invalid range unit'')
            | Some (unit, spec) \<Rightarrow>
                if to_lower (trim_space unit) \<noteq> ''bytes'' then Inl (ErrMsg ''invalid range unit'')
                else (case parse_specs (split_on (CHR '','') spec) sz [] False of
                        Inl e \<Rightarrow> Inl e
                      | Inr (ranges, noOverlap) \<Rightarrow>
                          if noOverlap \<and> ranges = [] then Inl errRangeNoOverlap
                          else Inr ranges)))"

fun size_exceeds :: "downloadRange list \<Rightarrow> int \<Rightarrow> int \<Rightarrow> bool" where
  "size_exceeds [] sz acc = False"
| "size_exceeds (r # rs) sz acc =
     (if range_length r > sz - acc then True
      else size_exceeds rs sz (acc + range_length r))"

definition downloadRangesSizeExceeds :: "downloadRange list \<Rightarrow> int \<Rightarrow> bool" where
  "downloadRangesSizeExceeds ranges sz = size_exceeds ranges sz 0"

definition contentRange :: "downloadRange \<Rightarrow> int \<Rightarrow> string" where
  "contentRange r sz =
     ''bytes '' @ fmt_int (dr_start r) @ ''-'' @ fmt_int (dr_end r) @ ''/'' @ fmt_int sz"

section \<open>Multipart bodies\<close>

abbreviation crlf :: string where
  "crlf \<equiv> [CHR 0x0D, CHR 0x0A]"

text \<open>
  \<open>mimeHeader\<close> and what \<open>multipart.Writer.CreatePart\<close> writes for it: the delimiter line (the
  first part has no line break before it), the header fields in key order, and the empty line.
\<close>

definition mimeHeader :: "downloadRange \<Rightarrow> string \<Rightarrow> int \<Rightarrow> (string \<times> string) list" where
  "mimeHeader r contentType sz =
     [(''Content-Range'', contentRange r sz), (''Content-Type'', contentType)]"

definition create_part :: "string \<Rightarrow> bool \<Rightarrow> (string \<times> string) list \<Rightarrow> string" where
  "create_part boundary isFirst hdr =
     (if isFirst then [] else crlf) @ ''--'' @ boundary @ crlf
     @ concat (map (\<lambda>(k, v). k @ '': '' @ v @ crlf) hdr) @ crlf"

definition close_multipart :: "string \<Rightarrow> string" where
  "close_multipart boundary = crlf @ ''--'' @ boundary @ ''--'' @ crlf"

text \<open>The counting writer of \<open>multipartDownloadRangesSize\<close>: only lengths are added.\<close>

fun count_parts :: "downloadRange list \<Rightarrow> string \<Rightarrow> int \<Rightarrow> string \<Rightarrow> bool \<Rightarrow> int \<Rightarrow> int" where
  "count_parts [] contentType sz boundary isFirst encoded =
     encoded + int (length (close_multipart boundary))"
| "count_parts (r # rs) contentType sz boundary isFirst encoded =
     count_parts rs contentType sz boundary False
       (encoded + int (length (create_part boundary isFirst (mimeHeader r contentType sz)))
        + range_length r)"

definition multipartDownloadRangesSize :: "downloadRange list \<Rightarrow> string \<Rightarrow> int \<Rightarrow> string \<Rightarrow> int" where
  "multipartDownloadRangesSize ranges contentType sz boundary =
     count_parts ranges contentType sz boundary True 0"

section \<open>The request handler\<close>

record rangeResource =
  rr_id :: string
  rr_file_name :: string
  rr_size :: int
  rr_available :: bool

text \<open>
  The answers of one \<open>ports.RangeTransfer\<close>. \<open>tr_stream k s e\<close> is the \<open>k\<close>-th call of
  \<open>Stream\<close>, for the bytes \<open>s\<close> to \<open>e\<close>: the bytes it wrote and its error.
\<close>

record transport =
  tr_closer :: bool
  tr_ready :: "duration \<Rightarrow> err option"
  tr_acquire :: "err option"
  tr_stream :: "nat \<Rightarrow> int \<Rightarrow> int \<Rightarrow> string \<times> err option"
  tr_report :: "downloadRange list \<Rightarrow> err option"

record request =
  rq_method :: string
  rq_path :: string
  rq_range :: string
  rq_if_range :: string

text \<open>
  What surrounds a request: the source of resources, the wait timeout of the configuration, whether
  the client has gone when the handler asks, the write errors of part headers (bytes written before
  the error, and the error), the boundary chosen by \<open>multipart.NewWriter\<close>, the digest of
  \<open>ETag\<close> and the two MIME functions whose tables belong to the host.
\<close>

record environment =
  en_open :: "string \<Rightarrow> (rangeResource \<times> transport \<times> bool) res"
  en_wait :: duration
  en_gone :: bool
  en_part_err :: "nat \<Rightarrow> (nat \<times> err) option"
  en_close_err :: "(nat \<times> err) option"
  en_boundary :: string
  en_digest :: "string \<Rightarrow> string"
  en_type_by_extension :: "string \<Rightarrow> string"
  en_disposition :: "string \<Rightarrow> string"

datatype call =
    Opened string
  | Ready duration
  | Acquired
  | Stream int int
  | Report "downloadRange list"
  | Released
  | Closed

text \<open>\<open>rs_status = None\<close>: the handler returned without writing a response header.\<close>

record response =
  rs_status :: "nat option"
  rs_headers :: "(string \<times> string) list"
  rs_body :: string

type_synonym served = "response \<times> call list"

definition set_header :: "string \<Rightarrow> string \<Rightarrow> (string \<times> string) list \<Rightarrow> (string \<times> string) list" where
  "set_header k v h = AList.update k v h"

definition http_error :: "(string \<times> string) list \<Rightarrow> string \<Rightarrow> nat \<Rightarrow> response" where
  "http_error h msg code =
     \<lparr>rs_status = Some code,
      rs_headers = set_header ''X-Content-Type-Options'' ''nosniff''
        (set_header ''Content-Type'' ''text/plain; charset=utf-8'' (AList.delete ''Content-Length'' h)),
      rs_body = msg @ [CHR 0x0A]\<rparr>"

definition no_response :: "(string \<times> string) list \<Rightarrow> response" where
  "no_response h = \<lparr>rs_status = None, rs_headers = h, rs_body = []\<rparr>"

definition eTag :: "(string \<Rightarrow> string) \<Rightarrow> rangeResource \<Rightarrow> string" where
  "eTag digest task = [CHR 0x22] @ digest (rr_id task @ '':'' @ fmt_int (rr_size task)) @ [CHR 0x22]"

text \<open>\<open>filepath.Ext\<close>: from the last dot of the last path element.\<close>

definition file_ext :: "string \<Rightarrow> string" where
  "file_ext name =
     (let base = rev (takeWhile (\<lambda>c. c \<noteq> CHR ''/'') (rev name))
      in if CHR ''.'' \<in> set base
         then CHR ''.'' # rev (takeWhile (\<lambda>c. c \<noteq> CHR ''.'') (rev base)) else [])"

definition content_type :: "environment \<Rightarrow> rangeResource \<Rightarrow> string" where
  "content_type en task =
     (let t = en_type_by_extension en (file_ext (rr_file_name task))
      in if t = [] then ''application/octet-stream'' else t)"

text \<open>\<open>streamDownloadRanges\<close>: the bytes written, the calls made and the error.\<close>

fun streamDownloadRanges ::
  "environment \<Rightarrow> rangeResource \<Rightarrow> transport \<Rightarrow> string \<Rightarrow> bool \<Rightarrow> nat \<Rightarrow> downloadRange list
     \<Rightarrow> string \<times> call list \<times> err option" where
  "streamDownloadRanges en task tr ct mw k [] =
     (if mw then (case en_close_err en of
          Some (n, e) \<Rightarrow> (take n (close_multipart (en_boundary en)), [],
                          Some (ErrWrap ''close multipart download ranges'' e))
        | None \<Rightarrow> (close_multipart (en_boundary en), [], None))
      else ([], [], None))"
| "streamDownloadRanges en task tr ct mw k (r # rs) =
     (let hdr = (if mw then create_part (en_boundary en) (k = 0) (mimeHeader r ct (rr_size task)) else [])
      in case (if mw then en_part_err en k else None) of
           Some (n, e) \<Rightarrow> (take n hdr, [], Some (ErrWrap ''create multipart download range'' e))
         | None \<Rightarrow>
             (case tr_stream tr k (dr_start r) (dr_end r) of
                (w, Some e) \<Rightarrow> (hdr @ w, [Stream (dr_start r) (dr_end r)], Some e)
              | (w, None) \<Rightarrow>
                  (case streamDownloadRanges en task tr ct mw (Suc k) rs of
                     (w', cs, e) \<Rightarrow> (hdr @ w @ w', Stream (dr_start r) (dr_end r) # cs, e))))"

text \<open>\<open>recordHTTPDelivery\<close>: the spans are reported; a failure is only logged.\<close>

definition recordHTTPDelivery :: "transport \<Rightarrow> downloadRange list \<Rightarrow> call list" where
  "recordHTTPDelivery tr ranges = [Report ranges]"

definition selected_header :: "request \<Rightarrow> string \<Rightarrow> string" where
  "selected_header rq etag =
     (let ifRange = trim_space (rq_if_range rq)
      in if rq_method rq = ''HEAD'' \<or> (ifRange \<noteq> [] \<and> ifRange \<noteq> etag) then [] else rq_range rq)"

definition response_headers ::
  "environment \<Rightarrow> rangeResource \<Rightarrow> downloadRange list \<Rightarrow> (string \<times> string) list \<Rightarrow> nat \<times> (string \<times> string) list"
  where
  "response_headers en task ranges h =
     (let ct = content_type en task;
          h = set_header ''Content-Type'' ct h;
          h = set_header ''Content-Disposition'' (en_disposition en (rr_file_name task)) h
      in case ranges of
           [] \<Rightarrow> (200, set_header ''Content-Length'' (fmt_int (rr_size task)) h)
         | [r] \<Rightarrow> (206, set_header ''Content-Range'' (contentRange r (rr_size task))
                    (set_header ''Content-Length'' (fmt_int (range_length r)) h))
         | _ \<Rightarrow> (206, set_header ''Content-Length''
                    (fmt_int (multipartDownloadRangesSize ranges ct (rr_size task) (en_boundary en)))
                    (set_header ''Content-Type'' (''multipart/byteranges; boundary='' @ en_boundary en) h)))"

text \<open>From the chosen ranges to the end of the handler; \<open>Released\<close> is the deferred release.\<close>

definition serve_ranges ::
  "environment \<Rightarrow> request \<Rightarrow> rangeResource \<Rightarrow> transport \<Rightarrow> downloadRange list \<Rightarrow> (string \<times> string) list \<Rightarrow> served"
  where
  "serve_ranges en rq task tr ranges h =
     (let isHead = (rq_method rq = ''HEAD'');
          body = (\<not> isHead \<and> rr_size task > 0);
          responseRanges = (if ranges = [] then [mk_range 0 (rr_size task - 1)] else ranges);
          wait = (if en_wait en \<le> 0 then 30 * second else en_wait en)
      in if body \<and> \<not> rr_available task
         then (http_error h ''download media is unavailable'' 500, [])
         else case (if body then tr_ready tr wait else None) of
           Some e \<Rightarrow>
             (if en_gone en then (no_response h, [Ready wait])
              else (http_error (set_header ''Retry-After'' ''3'' h)
                      ''telegram download backend is not ready'' 503, [Ready wait]))
         | None \<Rightarrow>
             (let waited = (if body then [Ready wait] else [])
              in case (if body then tr_acquire tr else None) of
                Some e \<Rightarrow>
                  (if errors_is e Canceled then (no_response h, waited)
                   else (http_error h ''failed to acquire download slot'' 500, waited))
              | None \<Rightarrow>
                  (let (status, h) = response_headers en task ranges h;
                       answer = (\<lambda>b. \<lparr>rs_status = Some status, rs_headers = h, rs_body = b\<rparr>)
                   in if isHead then (answer [], [])
                      else if rr_size task = 0 then (answer [], recordHTTPDelivery tr [])
                      else (case streamDownloadRanges en task tr (content_type en task)
                                   (length ranges > 1) 0 responseRanges of
                              (b, cs, Some e) \<Rightarrow> (answer b, waited @ [Acquired] @ cs @ [Released])
                            | (b, cs, None) \<Rightarrow>
                                (answer b, waited @ [Acquired] @ cs
                                   @ recordHTTPDelivery tr responseRanges @ [Released])))))"

definition serve_task :: "environment \<Rightarrow> request \<Rightarrow> rangeResource \<Rightarrow> transport \<Rightarrow> served" where
  "serve_task en rq task tr =
     (if rr_size task < 0 then (http_error [] ''invalid download size'' 500, [])
      else
        let etag = eTag (en_digest en) task;
            h = set_header ''ETag'' etag (set_header ''Accept-Ranges'' ''bytes'' []);
            exceed = (\<lambda>rs. if downloadRangesSizeExceeds rs (rr_size task) then [] else rs)
        in case parseDownloadRanges (selected_header rq etag) (rr_size task) of
             Inr ranges \<Rightarrow> serve_ranges en rq task tr (exceed ranges) h
           | Inl e \<Rightarrow>
               (if errors_is e errRangeNoOverlap \<and> rr_size task = 0
                then serve_ranges en rq task tr [] h
                else (http_error (set_header ''Content-Range'' (''bytes */'' @ fmt_int (rr_size task)) h)
                        (case e of ErrMsg m \<Rightarrow> m | _ \<Rightarrow> []) 416, [])))"

definition serveHTTP :: "environment \<Rightarrow> request \<Rightarrow> served" where
  "serveHTTP en rq =
     (if rq_method rq \<noteq> ''GET'' \<and> rq_method rq \<noteq> ''HEAD''
      then (http_error (set_header ''Allow'' ''GET, HEAD'' []) ''method not allowed'' 405, [])
      else
        let taskID = trim_prefix (rq_path rq) ''/download/''
        in if taskID = [] \<or> CHR ''/'' \<in> set taskID
           then (http_error [] ''404 page not found'' 404, [])
           else case en_open en taskID of
             Inl e \<Rightarrow> (http_error [] ''failed to load download task'' 500, [Opened taskID])
           | Inr (task, tr, False) \<Rightarrow> (http_error [] ''404 page not found'' 404, [Opened taskID])
           | Inr (task, tr, True) \<Rightarrow>
               (let (rs, cs) = serve_task en rq task tr
                in (rs, Opened taskID # cs @ (if tr_closer tr then [Closed] else []))))"

section \<open>Ranges accepted by the parser\<close>

text \<open>A range inside a content of the given size.\<close>

definition range_ok :: "int \<Rightarrow> downloadRange \<Rightarrow> bool" where
  "range_ok sz r \<longleftrightarrow> 0 \<le> dr_start r \<and> dr_start r \<le> dr_end r \<and> dr_end r < sz"

lemma range_ok_length: "range_ok sz r \<Longrightarrow> range_length r = dr_end r - dr_start r + 1"
  by (simp add: range_ok_def range_length_def)

lemma range_length_nonneg [simp]: "0 \<le> range_length r"
  by (simp add: range_length_def)

lemma parse_spec_ok:
  assumes "0 \<le> sz" "parse_spec raw sz = Inr (Some r)"
  shows "range_ok sz r"
  using assms
  by (auto simp: parse_spec_def parse_suffix_def parse_bounds_def range_ok_def Let_def
           split: if_splits option.splits prod.splits)

lemma parse_specs_ok:
  assumes "0 \<le> sz" "parse_specs raws sz ranges no = Inr (rs, no')" "list_all (range_ok sz) ranges"
  shows "list_all (range_ok sz) rs"
  using assms
  by (induction raws sz ranges no rule: parse_specs.induct)
     (auto split: sum.splits option.splits dest: parse_spec_ok)

lemma parse_ranges_ok:
  assumes "parseDownloadRanges header sz = Inr rs"
  shows "list_all (range_ok sz) rs"
  using assms parse_specs_ok [of sz _ "[]"]
  by (auto simp: parseDownloadRanges_def split: if_splits option.splits sum.splits prod.splits)

lemma size_exceeds_iff:
  "acc \<le> sz \<Longrightarrow> size_exceeds rs sz acc \<longleftrightarrow> sz < acc + sum_list (map range_length rs)"
proof (induction rs sz acc rule: size_exceeds.induct)
  case (2 r rs sz acc)
  have "0 \<le> sum_list (map range_length rs)"
    by (rule sum_list_nonneg) auto
  with 2 show ?case by (auto simp: algebra_simps)
qed simp

subsection \<open>Headers written by a client are read back\<close>

definition fmt_range :: "downloadRange \<Rightarrow> string" where
  "fmt_range r = fmt_int (dr_start r) @ ''-'' @ fmt_int (dr_end r)"

lemma fmt_int_chars: "0 \<le> i \<Longrightarrow> c \<in> set (fmt_int i) \<Longrightarrow> is_digit c"
  by (auto simp: fmt_int_def dest: fmt_nat_not_special)

lemma fmt_int_ne [simp]: "fmt_int i \<noteq> []"
  by (simp add: fmt_int_def)

lemma trim_string_id:
  assumes "s \<noteq> []" "\<And>c. c \<in> set s \<Longrightarrow> \<not> is_space c"
  shows "trim_string s = s"
  unfolding trim_string_def
proof (rule trim_id)
  have "hd s \<in> set s" "last s \<in> set s" using assms(1) by auto
  with assms(2) have "\<not> is_space (hd s)" "\<not> is_space (last s)" by auto
  then show "hd s \<notin> {CHR '' '', CHR 0x09, CHR 0x0A, CHR 0x0D}"
    and "last s \<notin> {CHR '' '', CHR 0x09, CHR 0x0A, CHR 0x0D}"
    by (auto simp: is_space_def)
qed (use assms in simp)

lemma cut_append:
  assumes "c \<notin> set a"
  shows "cut c (a @ c # b) = Some (a, b)"
  using assms by (induction a) (auto simp: cut_def)

lemma fmt_range_chars:
  assumes "range_ok sz r" "c \<in> set (fmt_range r)"
  shows "is_digit c \<or> c = CHR ''-''"
proof -
  have "c \<in> set (fmt_int (dr_start r)) \<or> c = CHR ''-'' \<or> c \<in> set (fmt_int (dr_end r))"
    using assms(2) by (auto simp: fmt_range_def)
  with assms(1) show ?thesis
    by (auto simp: range_ok_def dest!: fmt_int_chars [rotated])
qed

lemma parse_spec_fmt:
  assumes r: "range_ok sz r" and sz: "sz < 2 ^ 63"
  shows "parse_spec (fmt_range r) sz = Inr (Some r)"
proof -
  have pos: "0 \<le> dr_start r" "0 \<le> dr_end r" and ok: "int64_ok (dr_start r)" "int64_ok (dr_end r)"
    using r sz by (auto simp: range_ok_def int64_ok_def)
  have nsp: "trim_string (fmt_int i) = fmt_int i" if "0 \<le> i" for i
    using fmt_int_chars [OF that] is_digit_not_special by (intro trim_string_id) auto
  have nsp': "trim_string (fmt_range r) = fmt_range r"
  proof (rule trim_string_id)
    show "fmt_range r \<noteq> []" by (simp add: fmt_range_def)
    show "\<not> is_space c" if "c \<in> set (fmt_range r)" for c
      using fmt_range_chars [OF r that] is_digit_not_special by (auto simp: is_space_def)
  qed
  have "CHR ''-'' \<notin> set (fmt_int (dr_start r))"
    using fmt_int_chars [OF pos(1)] is_digit_not_special by blast
  then have "cut (CHR ''-'') (fmt_range r) = Some (fmt_int (dr_start r), fmt_int (dr_end r))"
    using cut_append by (simp add: fmt_range_def)
  moreover have "fmt_range r \<noteq> []" by (simp add: fmt_range_def)
  ultimately show ?thesis
    using r pos ok by (simp add: parse_spec_def nsp nsp' parse_bounds_def range_ok_def)
qed

lemma split_on_no_sep: "c \<notin> set w \<Longrightarrow> split_on c w = [w]"
  by (induction w) auto

lemma split_on_append: "c \<notin> set w \<Longrightarrow> split_on c (w @ c # s) = w # split_on c s"
  by (induction w) auto

lemma split_on_join:
  "ws \<noteq> [] \<Longrightarrow> \<forall>w \<in> set ws. c \<notin> set w \<Longrightarrow> split_on c (join [c] ws) = ws"
  by (induction "[c]" ws rule: join.induct) (auto simp: split_on_no_sep split_on_append)

lemma parse_specs_fmt:
  assumes "list_all (range_ok sz) rs" "sz < 2 ^ 63"
  shows "parse_specs (map fmt_range rs) sz acc no = Inr (acc @ rs, no)"
  using assms by (induction rs arbitrary: acc) (auto simp: parse_spec_fmt)

section \<open>Bodies\<close>

text \<open>The bytes of a content selected by a range, and the response body of RFC 7233.\<close>

definition slice :: "string \<Rightarrow> int \<Rightarrow> int \<Rightarrow> string" where
  "slice content s e = take (nat (e - s + 1)) (drop (nat s) content)"

lemma slice_length:
  "0 \<le> s \<Longrightarrow> s \<le> e \<Longrightarrow> e < int (length content) \<Longrightarrow> int (length (slice content s e)) = e - s + 1"
  by (auto simp: slice_def)

lemma slice_all: "slice content 0 (int (length content) - 1) = content"
  by (simp add: slice_def)

fun multipart_body :: "string \<Rightarrow> string \<Rightarrow> string \<Rightarrow> bool \<Rightarrow> downloadRange list \<Rightarrow> string" where
  "multipart_body content boundary ct isFirst [] = close_multipart boundary"
| "multipart_body content boundary ct isFirst (r # rs) =
     create_part boundary isFirst (mimeHeader r ct (int (length content)))
     @ slice content (dr_start r) (dr_end r) @ multipart_body content boundary ct False rs"

definition range_body :: "environment \<Rightarrow> rangeResource \<Rightarrow> string \<Rightarrow> downloadRange list \<Rightarrow> string" where
  "range_body en task content ranges =
     (case ranges of [] \<Rightarrow> content | [r] \<Rightarrow> slice content (dr_start r) (dr_end r)
      | _ \<Rightarrow> multipart_body content (en_boundary en) (content_type en task) True ranges)"

lemma count_parts_length:
  assumes "list_all (range_ok (int (length content))) rs"
  shows "count_parts rs ct (int (length content)) boundary isFirst acc
     = acc + int (length (multipart_body content boundary ct isFirst rs))"
  using assms
proof (induction rs arbitrary: isFirst acc)
  case (Cons r rs)
  then have "int (length (slice content (dr_start r) (dr_end r))) = range_length r"
    by (simp add: range_ok_def slice_length range_length_def)
  with Cons show ?case by simp
qed simp

text \<open>
  The port of byte transport, as the handler relies on it: a call of \<open>Stream\<close> that succeeds has
  written exactly the bytes it was asked for.
\<close>

locale range_transfer =
  fixes tr :: transport and content :: string
  assumes stream_exact:
    "\<lbrakk>0 \<le> s; s \<le> e; e < int (length content); tr_stream tr k s e = (w, None)\<rbrakk> \<Longrightarrow> w = slice content s e"
begin

lemma streamed_multipart:
  assumes "streamDownloadRanges en task tr ct True k rs = (b, cs, None)"
    "list_all (range_ok (int (length content))) rs" "rr_size task = int (length content)"
  shows "b = multipart_body content (en_boundary en) ct (k = 0) rs"
  using assms
proof (induction rs arbitrary: k b cs)
  case (Cons r rs)
  obtain w e where w: "tr_stream tr k (dr_start r) (dr_end r) = (w, e)" by fastforce
  obtain b' cs' e' where b': "streamDownloadRanges en task tr ct True (Suc k) rs = (b', cs', e')"
    using prod_cases3 by blast
  from Cons.prems w b' have ok: "e = None" "e' = None"
    and b: "b = create_part (en_boundary en) (k = 0) (mimeHeader r ct (rr_size task)) @ w @ b'"
    by (auto split: option.splits)
  with Cons.prems w have "w = slice content (dr_start r) (dr_end r)"
    by (intro stream_exact) (auto simp: range_ok_def)
  moreover from Cons.IH [of "Suc k"] b' ok Cons.prems
  have "b' = multipart_body content (en_boundary en) ct False rs" by simp
  ultimately show ?case using b Cons.prems(3) by simp
qed (auto split: option.splits)

lemma streamed_body:
  assumes "streamDownloadRanges en task tr (content_type en task) (length ranges > 1) 0
             (if ranges = [] then [mk_range 0 (rr_size task - 1)] else ranges) = (b, cs, None)"
    "list_all (range_ok (int (length content))) ranges"
    "rr_size task = int (length content)" "content \<noteq> []"
  shows "b = range_body en task content ranges"
proof -
  consider "ranges = []" | r where "ranges = [r]" | r r' rs where "ranges = r # r' # rs"
    by (cases ranges) (auto, metis list.exhaust)
  then show ?thesis
  proof cases
    case 1
    with assms(1,3) obtain w where "tr_stream tr 0 0 (int (length content) - 1) = (w, None)" "b = w"
      by (auto split: prod.splits option.splits)
    moreover have "0 \<le> int (length content) - 1" using assms(4) by (cases content) auto
    ultimately have "b = content"
      using stream_exact [of 0 "int (length content) - 1" 0 w] by (simp add: slice_all)
    with 1 show ?thesis by (simp add: range_body_def)
  next
    case (2 r)
    with assms(1) obtain w where "tr_stream tr 0 (dr_start r) (dr_end r) = (w, None)" "b = w"
      by (auto split: prod.splits option.splits)
    with 2 assms(2) show ?thesis
      using stream_exact [of "dr_start r" "dr_end r" 0 w]
      by (auto simp: range_body_def range_ok_def)
  next
    case 3
    with assms show ?thesis
      using streamed_multipart [of en task "content_type en task" 0 ranges b cs]
      by (simp add: range_body_def)
  qed
qed

end

section \<open>The calls of a request\<close>

abbreviation stream_call :: "downloadRange \<Rightarrow> call" where
  "stream_call r \<equiv> Stream (dr_start r) (dr_end r)"

lemma stream_calls_prefix:
  assumes "streamDownloadRanges en task tr ct mw k rs = (b, cs, e)"
  shows "prefix cs (map stream_call rs) \<and> (e = None \<longrightarrow> cs = map stream_call rs)"
  using assms
proof (induction rs arbitrary: k b cs e)
  case (Cons r rs)
  obtain w er where w: "tr_stream tr k (dr_start r) (dr_end r) = (w, er)" by fastforce
  obtain b' cs' e' where b': "streamDownloadRanges en task tr ct mw (Suc k) rs = (b', cs', e')"
    using prod_cases3 by blast
  from Cons.IH [OF b'] Cons.prems w b' show ?case
    by (auto split: option.splits prod.splits if_splits)
qed (auto split: option.splits if_splits)

lemma stream_calls_only:
  assumes "streamDownloadRanges en task tr ct mw k rs = (b, cs, e)"
  shows "Acquired \<notin> set cs \<and> Released \<notin> set cs \<and> Closed \<notin> set cs
    \<and> (\<forall>rr. Report rr \<notin> set cs) \<and> (\<forall>w. Ready w \<notin> set cs)"
  using stream_calls_prefix [OF assms] set_mono_prefix by fastforce

lemma response_headers_status: "fst (response_headers en task ranges h) \<in> {200, 206}"
  by (auto simp: response_headers_def split: list.split)

lemma response_headers_length:
  "map_of (snd (response_headers en task ranges h)) ''Content-Length'' = Some (fmt_int
     (case ranges of [] \<Rightarrow> rr_size task | [r] \<Rightarrow> range_length r
      | _ \<Rightarrow> multipartDownloadRangesSize ranges (content_type en task) (rr_size task) (en_boundary en)))"
  by (auto simp: response_headers_def set_header_def alist_simps split: list.split)

lemma range_body_length:
  assumes "list_all (range_ok (int (length content))) ranges" "rr_size task = int (length content)"
  shows "int (length (range_body en task content ranges)) =
     (case ranges of [] \<Rightarrow> rr_size task | [r] \<Rightarrow> range_length r
      | _ \<Rightarrow> multipartDownloadRangesSize ranges (content_type en task) (rr_size task) (en_boundary en))"
  using assms count_parts_length [OF assms(1), of "content_type en task" "en_boundary en" True 0]
  by (auto simp: range_body_def multipartDownloadRangesSize_def range_ok_def slice_length range_length_def
           split: list.split)

text \<open>What \<open>serve_ranges\<close> can do, as a list of cases: the calls it makes and its status.\<close>

lemma serve_ranges_cases:
  assumes "serve_ranges en rq task tr ranges h = (rs, cs)" "0 \<le> rr_size task"
  obtains (early) "cs \<in> {[], [Ready (if en_wait en \<le> 0 then 30 * second else en_wait en)]}"
  | (empty) "cs = [Report []]" "rr_size task = 0" "rs_body rs = []"
      "rs_status rs = Some (fst (response_headers en task ranges h))"
      "rs_headers rs = snd (response_headers en task ranges h)"
  | (failed) w ss b e where "cs = [Ready w, Acquired] @ ss @ [Released]"
      "streamDownloadRanges en task tr (content_type en task) (length ranges > 1) 0
         (if ranges = [] then [mk_range 0 (rr_size task - 1)] else ranges) = (b, ss, Some e)"
  | (complete) w ss where
      "cs = [Ready w, Acquired] @ ss
         @ [Report (if ranges = [] then [mk_range 0 (rr_size task - 1)] else ranges), Released]"
      "streamDownloadRanges en task tr (content_type en task) (length ranges > 1) 0
         (if ranges = [] then [mk_range 0 (rr_size task - 1)] else ranges) = (rs_body rs, ss, None)"
      "rs_status rs = Some (fst (response_headers en task ranges h))"
      "rs_headers rs = snd (response_headers en task ranges h)"
      "rq_method rq \<noteq> ''HEAD''" "0 < rr_size task"
proof -
  obtain status h' where rh: "response_headers en task ranges h = (status, h')" by fastforce
  obtain b ss e where sd: "streamDownloadRanges en task tr (content_type en task) (length ranges > 1) 0
       (if ranges = [] then [mk_range 0 (rr_size task - 1)] else ranges) = (b, ss, e)"
    using prod_cases3 by blast
  note unf = assms(1) [unfolded serve_ranges_def Let_def rh prod.case sd]
  consider "rq_method rq = ''HEAD''" | "rq_method rq \<noteq> ''HEAD''" "rr_size task = 0"
    | "rq_method rq \<noteq> ''HEAD''" "0 < rr_size task" using assms(2) by linarith
  then show ?thesis
  proof cases
    case 1
    with unf have "cs = []" by (simp split: if_splits option.splits)
    then show ?thesis by (intro early) simp
  next
    case 2
    with unf rh show ?thesis
      by (intro empty) (auto simp: recordHTTPDelivery_def)
  next
    case 3
    show ?thesis
    proof (cases "rr_available task \<and> tr_ready tr (if en_wait en \<le> 0 then 30 * second else en_wait en) = None
        \<and> tr_acquire tr = None")
      case False
      with 3 unf show ?thesis
        by (intro early) (auto split: if_splits option.splits)
    next
      case True
      show ?thesis
      proof (cases e)
        case None
        with True 3 unf sd rh show ?thesis
          by (intro complete) (auto simp: recordHTTPDelivery_def)
      next
        case (Some er)
        with True 3 unf sd show ?thesis
          by (intro failed) auto
      qed
    qed
  qed
qed

text \<open>The same for a whole request: apart from \<open>Open\<close> and \<open>Close\<close>, a request makes no call of the
  port, only \<open>Ready\<close>, or acquires and releases one lease.\<close>

lemma serve_task_cases:
  assumes "serve_task en rq task tr = (rs, cs)"
  obtains (refused) "cs = []"
  | (served) ranges h where "serve_ranges en rq task tr ranges h = (rs, cs)" "0 \<le> rr_size task"
      "list_all (range_ok (rr_size task)) ranges"
      "ranges = [] \<or>
       parseDownloadRanges (selected_header rq (eTag (en_digest en) task)) (rr_size task) = Inr ranges"
proof -
  show ?thesis
  proof (cases "rr_size task < 0")
    case True
    with assms show ?thesis by (intro refused) (simp add: serve_task_def)
  next
    case False
    show ?thesis
    proof (cases "parseDownloadRanges (selected_header rq (eTag (en_digest en) task)) (rr_size task)")
      case (Inl e)
      with False assms show ?thesis
        by (auto simp: serve_task_def split: if_splits intro: refused served)
    next
      case (Inr ranges)
      then have "list_all (range_ok (rr_size task)) ranges" by (rule parse_ranges_ok)
      with False Inr assms show ?thesis
        by (auto simp: serve_task_def intro!: served split: if_splits)
    qed
  qed
qed

lemma serveHTTP_cases:
  assumes "serveHTTP en rq = (rs, cs)"
  obtains (refused) "cs = []"
  | (unopened) t where "cs = [Opened t]"
  | (opened) t task tr cs' where "en_open en t = Inr (task, tr, True)"
      "serve_task en rq task tr = (rs, cs')" "cs = Opened t # cs' @ (if tr_closer tr then [Closed] else [])"
      "rq_method rq = ''GET'' \<or> rq_method rq = ''HEAD''"
  using assms
  by (auto simp: serveHTTP_def split: if_splits sum.splits prod.splits bool.splits)

text \<open>A completed answer of a transport that streams exactly.\<close>

context range_transfer
begin

lemma served_body:
  assumes "serve_task en rq task tr = (rs, cs)" "Report rr \<in> set cs" "rr_size task = int (length content)"
  shows "\<exists>ranges. (ranges = [] \<or>
        parseDownloadRanges (selected_header rq (eTag (en_digest en) task)) (rr_size task) = Inr ranges)
    \<and> rs_status rs = Some (if ranges = [] then 200 else 206)
    \<and> rs_body rs = range_body en task content ranges
    \<and> map_of (rs_headers rs) ''Content-Length'' = Some (fmt_int (int (length (rs_body rs))))"
  using assms(1)
proof (cases rule: serve_task_cases)
  case refused
  with assms(2) show ?thesis by simp
next
  case (served ranges h)
  from served(1,2) show ?thesis
  proof (cases rule: serve_ranges_cases)
    case early
    with assms(2) have False by auto
    then show ?thesis ..
  next
    case empty
    then have "content = []" using assms(3) by simp
    moreover have "ranges = []" using served(3) empty(2) by (cases ranges) (auto simp: range_ok_def)
    ultimately have none: "content = []" "ranges = []" .
    have "rs_status rs = Some 200" using empty(4) none by (simp add: response_headers_def)
    then show ?thesis
      using none empty response_headers_length [of en task "[]" h]
      by (intro exI [of _ "[]"]) (simp add: range_body_def)
  next
    case (failed w ss b e)
    with assms(2) stream_calls_only [OF failed(2)] have False by auto
    then show ?thesis ..
  next
    case (complete w ss)
    have ok: "list_all (range_ok (int (length content))) ranges" using served(3) assms(3) by simp
    have "rs_body rs = range_body en task content ranges"
      using complete(2,6) ok assms(3) by (intro streamed_body) auto
    moreover have "rs_status rs = Some (if ranges = [] then 200 else 206)"
      using complete(3) by (auto simp: response_headers_def split: list.split)
    moreover have "map_of (rs_headers rs) ''Content-Length'' = Some (fmt_int (int (length (rs_body rs))))"
      using complete(4) calculation(1) response_headers_length [of en task ranges h]
        range_body_length [OF ok assms(3), of en] by simp
    ultimately show ?thesis using served(4) by blast
  qed
qed

end

section \<open>Properties\<close>

text \<open>C33: every range that \<open>parseDownloadRanges\<close> accepts lies inside the content, whatever the
  header says: its first byte is at most its last byte and both are below the file size.\<close>

theorem parsed_ranges_in_bounds:
  assumes "parseDownloadRanges header sz = Inr rs" and "r \<in> set rs"
  shows "0 \<le> dr_start r \<and> dr_start r \<le> dr_end r \<and> dr_end r < sz"
  using parse_ranges_ok [OF assms(1)] assms(2) by (auto simp: list_all_iff range_ok_def)

theorem parsed_ranges_in_bounds_witness:
  "0 \<le> dr_start (mk_range 2 4) \<and> dr_start (mk_range 2 4) \<le> dr_end (mk_range 2 4) \<and> dr_end (mk_range 2 4) < (5::int)"
proof -
  have "parseDownloadRanges ''bytes=2-9'' 5 = Inr [mk_range 2 4]" by code_simp
  then show ?thesis by (rule parsed_ranges_in_bounds) simp
qed

text \<open>C34: a \<open>Range\<close> header that lists any non-empty sequence of ranges inside the content, in the
  syntax of RFC 7233, is read back by \<open>parseDownloadRanges\<close> as exactly that sequence.\<close>

theorem range_header_roundtrip:
  assumes "rs \<noteq> []" and "\<forall>r \<in> set rs. 0 \<le> dr_start r \<and> dr_start r \<le> dr_end r \<and> dr_end r < sz"
    and "sz < 2 ^ 63"
  shows "parseDownloadRanges (''bytes='' @ join '','' (map fmt_range rs)) sz = Inr rs"
proof -
  have ok: "list_all (range_ok sz) rs" using assms(2) by (simp add: list_all_iff range_ok_def)
  have comma: "CHR '','' \<notin> set (fmt_range r)" if "r \<in> set rs" for r
    using fmt_range_chars [of sz r "CHR '',''"] ok that is_digit_not_special
    by (auto simp: list_all_iff)
  from assms(1,2) have "0 \<le> sz" by (cases rs) auto
  have "cut (CHR ''='') (''bytes'' @ CHR ''='' # join '','' (map fmt_range rs))
      = Some (''bytes'', join '','' (map fmt_range rs))"
    by (rule cut_append) simp
  moreover have "split_on (CHR '','') (join '','' (map fmt_range rs)) = map fmt_range rs"
    using assms(1) comma by (intro split_on_join) auto
  moreover have "to_lower (trim_space ''bytes'') = ''bytes''" by code_simp
  moreover have "trim_space (''bytes='' @ t) \<noteq> []" for t
    by (simp add: trim_def trim_left_def trim_right_def is_space_def dropWhile_eq_Nil_conv)
  ultimately show ?thesis
    using \<open>0 \<le> sz\<close> parse_specs_fmt [OF ok assms(3), of "[]" False] assms(1)
    by (simp add: parseDownloadRanges_def)
qed

theorem range_header_roundtrip_witness:
  "parseDownloadRanges (''bytes='' @ join '','' (map fmt_range [mk_range 0 1, mk_range 3 4])) 5
     = Inr [mk_range 0 1, mk_range 3 4]"
  by (rule range_header_roundtrip) simp_all

lemma one_lease_trace:
  assumes "cs = pre @ [Released] @ post" "set post \<subseteq> {Closed}"
    "count_list pre Acquired = 1" "count_list pre Released = 0"
  shows "count_list cs Released = count_list cs Acquired \<and> count_list cs Acquired \<le> 1
    \<and> (Acquired \<in> set cs \<longrightarrow> (\<exists>pre post. cs = pre @ [Released] @ post \<and> set post \<subseteq> {Closed}))"
proof -
  have "count_list post Released = 0" "count_list post Acquired = 0"
    using assms(2) by (auto simp: count_list_0_iff)
  with assms show ?thesis by auto
qed

text \<open>C4: a request acquires at most one download lease and releases every lease it acquired exactly
  once, after all streaming and reporting, on every path of the handler (refusals, failed waits,
  stream errors, success).\<close>

theorem lease_released_exactly_once:
  "count_list (snd (serveHTTP en rq)) Released = count_list (snd (serveHTTP en rq)) Acquired
   \<and> count_list (snd (serveHTTP en rq)) Acquired \<le> 1
   \<and> (Acquired \<in> set (snd (serveHTTP en rq)) \<longrightarrow>
        (\<exists>pre post. snd (serveHTTP en rq) = pre @ [Released] @ post \<and> set post \<subseteq> {Closed}))"
proof -
  obtain rs cs where sv: "serveHTTP en rq = (rs, cs)" by fastforce
  show ?thesis
  proof (cases rule: serveHTTP_cases [OF sv])
    case (3 t task tr cs')
    have closed: "set (if tr_closer tr then [Closed] else []) \<subseteq> {Closed}" by auto
    from 3(2) show ?thesis
    proof (cases rule: serve_task_cases)
      case refused
      with 3 sv show ?thesis by auto
    next
      case (served ranges h)
      from served(1,2) show ?thesis
      proof (cases rule: serve_ranges_cases)
        case early
        with 3 sv show ?thesis by auto
      next
        case empty
        with 3 sv show ?thesis by auto
      next
        case (failed w ss b e)
        note only = stream_calls_only [OF failed(2)]
        have "cs = (Opened t # [Ready w, Acquired] @ ss) @ [Released] @ (if tr_closer tr then [Closed] else [])"
          using 3(3) failed(1) by simp
        from one_lease_trace [OF this closed] only sv show ?thesis by (simp add: count_list_0_iff)
      next
        case (complete w ss)
        note only = stream_calls_only [OF complete(2)]
        have "cs = (Opened t # [Ready w, Acquired] @ ss
            @ [Report (if ranges = [] then [mk_range 0 (rr_size task - 1)] else ranges)])
            @ [Released] @ (if tr_closer tr then [Closed] else [])"
          using 3(3) complete(1) by simp
        from one_lease_trace [OF this closed] only sv show ?thesis by (simp add: count_list_0_iff)
      qed
    qed
  qed (use sv in auto)
qed

text \<open>The delivery of a set of ranges is reported only after the response was answered 200 or 206
  and every one of those ranges, in order, was streamed to the end by the lease of the request (or the
  file is empty and nothing was to be sent); the reported ranges lie inside the file.\<close>

theorem report_only_after_streaming:
  assumes "Report rr \<in> set (snd (serveHTTP en rq))"
  shows "rs_status (fst (serveHTTP en rq)) \<in> {Some 200, Some 206} \<and>
    (\<exists>t task tr. en_open en t = Inr (task, tr, True) \<and>
       (rr = [] \<and> rr_size task = 0
        \<or> list_all (range_ok (rr_size task)) rr \<and>
          (\<exists>w post. snd (serveHTTP en rq)
             = [Opened t, Ready w, Acquired] @ map stream_call rr @ [Report rr, Released] @ post)))"
proof -
  obtain rs cs where sv: "serveHTTP en rq = (rs, cs)" by fastforce
  from assms sv have rep: "Report rr \<in> set cs" by simp
  from sv show ?thesis
  proof (cases rule: serveHTTP_cases)
    case (opened t task tr cs')
    from rep opened(3) have rep': "Report rr \<in> set cs'" by (auto split: if_splits)
    from opened(2) show ?thesis
    proof (cases rule: serve_task_cases)
      case refused
      with rep' show ?thesis by simp
    next
      case (served ranges h)
      from served(1,2) show ?thesis
      proof (cases rule: serve_ranges_cases)
        case early
        with rep' show ?thesis by auto
      next
        case empty
        with rep' opened sv response_headers_status [of en task ranges h] show ?thesis by auto
      next
        case (failed w ss b e)
        with rep' stream_calls_only [OF failed(2)] show ?thesis by auto
      next
        case (complete w ss)
        let ?rr = "if ranges = [] then [mk_range 0 (rr_size task - 1)] else ranges"
        from stream_calls_only [OF complete(2)] stream_calls_prefix [OF complete(2)] rep' complete(1)
        have rr: "rr = ?rr" and ss: "ss = map stream_call ?rr" by auto
        have "list_all (range_ok (rr_size task)) rr"
          using served(3) complete(6) rr by (auto simp: range_ok_def)
        moreover have "cs = [Opened t, Ready w, Acquired] @ map stream_call rr
            @ [Report rr, Released] @ (if tr_closer tr then [Closed] else [])"
          using opened(3) complete(1) ss rr by simp
        moreover have "rs_status rs \<in> {Some 200, Some 206}"
          using complete(3) response_headers_status [of en task ranges h] by auto
        ultimately show ?thesis using opened(1) sv by auto
      qed
    qed
  qed (use rep in auto)
qed

definition sample_env :: environment where
  "sample_env =
     \<lparr>en_open = (\<lambda>t. Inr (\<lparr>rr_id = t, rr_file_name = ''f'', rr_size = 5, rr_available = True\<rparr>,
        \<lparr>tr_closer = True, tr_ready = (\<lambda>_. None), tr_acquire = None,
         tr_stream = (\<lambda>k s e. (slice ''hello'' s e, None)), tr_report = (\<lambda>_. None)\<rparr>, True)),
      en_wait = 0, en_gone = False, en_part_err = (\<lambda>_. None), en_close_err = None,
      en_boundary = ''b'', en_digest = (\<lambda>s. s), en_type_by_extension = (\<lambda>_. []),
      en_disposition = (\<lambda>s. s)\<rparr>"

definition sample_get :: "string \<Rightarrow> request" where
  "sample_get h = \<lparr>rq_method = ''GET'', rq_path = ''/download/x'', rq_range = h, rq_if_range = []\<rparr>"

theorem report_only_after_streaming_witness:
  "rs_status (fst (serveHTTP sample_env (sample_get ''bytes=1-2''))) \<in> {Some 200, Some 206}"
proof -
  have "Report [mk_range 1 2] \<in> set (snd (serveHTTP sample_env (sample_get ''bytes=1-2'')))"
    by code_simp
  from report_only_after_streaming [OF this] show ?thesis by blast
qed

theorem lease_released_exactly_once_witness:
  "Acquired \<in> set (snd (serveHTTP sample_env (sample_get ''bytes=1-2'')))
   \<and> (\<exists>pre post. snd (serveHTTP sample_env (sample_get ''bytes=1-2'')) = pre @ [Released] @ post
        \<and> set post \<subseteq> {Closed})"
proof -
  have "Acquired \<in> set (snd (serveHTTP sample_env (sample_get ''bytes=1-2'')))"
    by code_simp
  with lease_released_exactly_once [of sample_env "sample_get ''bytes=1-2''"] show ?thesis by blast
qed

end
