(* ===== verification/Telegram_Stream.thy ===== *)
theory Telegram_Stream
  imports Range_Proxy
begin

text \<open>
  Byte transport from Telegram (src/app/http/session.go, src/app/http/telegram_source.go): the split
  of a byte range into \<open>upload.getFile\<close> requests, one request with its bounded retries, the renewal
  of an expired file reference, the sequential stream of an HTTP request, and the reordering buffer
  of the parallel stream. Telegram answers are scripts: what each attempt returned, how often the
  server asked to wait, when contexts ended. The bytes of an answer are bytes of the file at the
  requested offset, as \<open>upload.getFile\<close> documents; how many it returned is part of the script.
\<close>

section \<open>Chunks\<close>

abbreviation (input) preciseAlignment :: int where "preciseAlignment \<equiv> 1024"
abbreviation (input) fragmentWindowSize :: int where "fragmentWindowSize \<equiv> 1048576"

definition alignDown :: "int \<Rightarrow> int \<Rightarrow> int" where
  "alignDown v alignment = (if alignment \<le> 0 then v else v - go_mod v alignment)"

definition alignUp :: "int \<Rightarrow> int \<Rightarrow> int" where
  "alignUp v alignment =
     (if alignment \<le> 0 then v
      else if go_mod v alignment = 0 then v
      else v + alignment - go_mod v alignment)"

record telegramChunkRequest =
  cr_offset :: int
  cr_limit :: int

record downloadChunkJob =
  job_index :: nat
  job_req :: telegramChunkRequest
  job_skip :: int
  job_take :: int

definition fragment_start :: "int \<Rightarrow> int" where
  "fragment_start nxt = go_div nxt fragmentWindowSize * fragmentWindowSize"

definition need_end :: "int \<Rightarrow> int \<Rightarrow> int" where
  "need_end nxt end = min end (fragment_start nxt + fragmentWindowSize - 1)"

definition chunk_job :: "int \<Rightarrow> int \<Rightarrow> nat \<Rightarrow> downloadChunkJob" where
  "chunk_job nxt end index =
     (let needStart = nxt;
          needEnd = need_end nxt end;
          reqOffset = alignDown needStart preciseAlignment;
          reqEnd = alignUp (needEnd + 1) preciseAlignment;
          fragmentLimit = fragment_start nxt + fragmentWindowSize;
          reqEnd = (if reqEnd > fragmentLimit then fragmentLimit else reqEnd)
      in \<lparr>job_index = index,
          job_req = \<lparr>cr_offset = reqOffset, cr_limit = reqEnd - reqOffset\<rparr>,
          job_skip = needStart - reqOffset,
          job_take = needEnd - needStart + 1\<rparr>)"

lemma fragment_start_bounds:
  "nxt < fragment_start nxt + fragmentWindowSize"
  "0 \<le> nxt \<Longrightarrow> fragment_start nxt \<le> nxt"
proof -
  show "nxt < fragment_start nxt + fragmentWindowSize"
  proof (cases "0 \<le> nxt")
    case True
    then show ?thesis unfolding fragment_start_def by simp
  next
    case False
    have "\<bar>nxt\<bar> div fragmentWindowSize * fragmentWindowSize \<le> \<bar>nxt\<bar>"
      by (simp add: minus_mod_eq_div_mult [symmetric])
    with False show ?thesis
      by (simp add: fragment_start_def go_div_def)
  qed
  show "0 \<le> nxt \<Longrightarrow> fragment_start nxt \<le> nxt"
    by (simp add: fragment_start_def)
qed

lemma need_end_ge: "nxt \<le> end \<Longrightarrow> nxt \<le> need_end nxt end"
  using fragment_start_bounds(1) [of nxt] by (simp add: need_end_def)

function chunk_jobs :: "int \<Rightarrow> int \<Rightarrow> nat \<Rightarrow> downloadChunkJob list" where
  "chunk_jobs nxt end index =
     (if nxt \<le> end
      then chunk_job nxt end index # chunk_jobs (need_end nxt end + 1) end (Suc index)
      else [])"
  by pat_completeness auto
termination
proof (relation "measure (\<lambda>(nxt, end, index). nat (end - nxt + 1))")
  fix nxt "end" :: int and index :: nat
  assume "nxt \<le> end"
  with need_end_ge [of nxt "end"]
  show "((need_end nxt end + 1, end, Suc index), nxt, end, index)
      \<in> measure (\<lambda>(nxt, end, index). nat (end - nxt + 1))"
    by simp
qed simp

declare chunk_jobs.simps [simp del]

definition buildDownloadChunkJobs :: "int \<Rightarrow> int \<Rightarrow> downloadChunkJob list" where
  "buildDownloadChunkJobs start end = (if end < start then [] else chunk_jobs start end 0)"

text \<open>Slicing of a returned chunk.\<close>

definition sliceTelegramChunk :: "string \<Rightarrow> int \<Rightarrow> int \<Rightarrow> string res" where
  "sliceTelegramChunk data skip tk =
     (if skip < 0 \<or> tk < 0 then Inl (ErrMsg ''invalid telegram chunk slice'')
      else if skip + tk > int (length data) then Inl ErrUnexpectedEOF
      else Inr (take (nat tk) (drop (nat skip) data)))"

section \<open>One upload.getFile request\<close>

definition chunkMaxRetries :: nat where "chunkMaxRetries = 4"
definition chunkRetryBaseDelay :: duration where "chunkRetryBaseDelay = 250 * millisecond"
definition chunkRetryMaxDelay :: duration where "chunkRetryMaxDelay = 2 * second"

definition nextChunkBackoff :: "duration \<Rightarrow> duration" where
  "nextChunkBackoff current =
     (if current * 2 > chunkRetryMaxDelay then chunkRetryMaxDelay else current * 2)"

text \<open>The answer: a file chunk of a number of bytes, or another constructor (a CDN redirect).\<close>

datatype rpc_resp = UploadFile nat | OtherFile

text \<open>
  One attempt as the loop sees it: the error of \<open>AcquireChunk\<close>, the parent context after the call,
  the result of \<open>tgerr.FloodWait\<close> (whether it waited, and the error), whether that error is
  Telegram's timeout, whether it is a network timeout, the response, and the result of the backoff
  sleep.
\<close>

record attempt =
  at_lease :: "err option"
  at_ctx :: ctx
  at_flood :: bool
  at_err :: "err option"
  at_timeout :: bool
  at_net_timeout :: bool
  at_resp :: rpc_resp
  at_sleep :: "err option"

definition isTransientChunkError :: "bool \<Rightarrow> err \<Rightarrow> bool" where
  "isTransientChunkError netTimeout e \<longleftrightarrow>
     errors_is e DeadlineExceeded \<or> errors_is e Canceled
     \<or> errors_is e ErrUnexpectedEOF \<or> errors_is e ErrEOF \<or> netTimeout"

datatype fetch_event = Permit | GetFile int int | PermitBack | Sleep duration

text \<open>\<open>retryTransient\<close>: the error of the context, exhausted, or the new counter and delay.\<close>

definition retryTransient :: "attempt \<Rightarrow> nat \<Rightarrow> duration \<Rightarrow> (nat \<times> duration) option res" where
  "retryTransient a retries backoff =
     (if retries \<ge> chunkMaxRetries then Inr None
      else (case at_sleep a of
              Some e \<Rightarrow> Inl e
            | None \<Rightarrow> Inr (Some (Suc retries, nextChunkBackoff backoff))))"

definition get_file :: "string \<Rightarrow> telegramChunkRequest \<Rightarrow> nat \<Rightarrow> string" where
  "get_file content rq n = take (min n (nat (cr_limit rq))) (drop (nat (cr_offset rq)) content)"

text \<open>
  The attempt loop of \<open>fetchTelegramMediaChunk\<close>. \<open>None\<close> means that the script ended while the
  loop was still retrying.
\<close>

fun fetch_attempts ::
  "string \<Rightarrow> telegramChunkRequest \<Rightarrow> attempt list \<Rightarrow> nat \<Rightarrow> duration \<Rightarrow> (string res \<times> fetch_event list) option"
  where
  "fetch_attempts content rq [] retries backoff = None"
| "fetch_attempts content rq (a # as) retries backoff =
     (case at_lease a of
        Some e \<Rightarrow> Some (Inl e, [])
      | None \<Rightarrow>
          (let call = [Permit, GetFile (cr_offset rq) (cr_limit rq), PermitBack];
               again = (\<lambda>ev r b. map_option (\<lambda>(res, evs). (res, call @ ev @ evs))
                                   (fetch_attempts content rq as r b));
               transient = (\<lambda>final. case retryTransient a retries backoff of
                    Inl e \<Rightarrow> Some (Inl e, call @ [Sleep backoff])
                  | Inr (Some (r, b)) \<Rightarrow> again [Sleep backoff] r b
                  | Inr None \<Rightarrow> Some (Inl final, call))
           in case at_ctx a of
                Some e \<Rightarrow> Some (Inl e, call)
              | None \<Rightarrow>
                  (case at_err a of
                     Some e \<Rightarrow>
                       if at_flood a \<or> at_timeout a then again [] retries backoff
                       else if isTransientChunkError (at_net_timeout a) e
                       then transient (ErrWrap ''get telegram file chunk'' e)
                       else Some (Inl (ErrWrap ''get telegram file chunk'' e), call)
                   | None \<Rightarrow>
                       (case at_resp a of
                          OtherFile \<Rightarrow> Some (Inl (ErrMsg ''unexpected telegram file response''), call)
                        | UploadFile n \<Rightarrow>
                            if get_file content rq n = [] then transient ErrUnexpectedEOF
                            else Some (Inr (get_file content rq n), call)))))"

definition fetchTelegramMediaChunk ::
  "string \<Rightarrow> telegramChunkRequest \<Rightarrow> attempt list \<Rightarrow> (string res \<times> fetch_event list) option" where
  "fetchTelegramMediaChunk content rq as = fetch_attempts content rq as 0 chunkRetryBaseDelay"

section \<open>Renewal of file references\<close>

text \<open>\<open>telegramMediaSource\<close>: the current media (an opaque token) and whether a refresh callback is set.\<close>

record 'm mediaSource =
  ms_media :: "'m option"
  ms_refresh :: bool

definition isRefreshableFileReferenceError :: "(err \<Rightarrow> string option) \<Rightarrow> err \<Rightarrow> bool" where
  "isRefreshableFileReferenceError tgerr_as e =
     (case tgerr_as e of
        None \<Rightarrow> False
      | Some t \<Rightarrow> t \<in> {''FILE_REFERENCE_EXPIRED'', ''FILE_REFERENCE_INVALID'', ''FILE_REFERENCE_EMPTY'',
                       ''FILEREF_UPGRADE_NEEDED''}
                  \<or> has_prefix t ''FILE_REFERENCE_'')"

text \<open>\<open>refreshMedia\<close>, under its mutex, for the media the failed request used.\<close>

definition refreshMedia :: "'m mediaSource \<Rightarrow> 'm option \<Rightarrow> 'm option res \<Rightarrow> err option \<times> 'm mediaSource" where
  "refreshMedia s current answer =
     (if ms_media s \<noteq> current then (None, s)
      else if \<not> ms_refresh s then (Some (ErrMsg ''telegram media refresh is unavailable''), s)
      else (case answer of
              Inl e \<Rightarrow> (Some e, s)
            | Inr nxt \<Rightarrow> (None, s\<lparr>ms_media := nxt\<rparr>)))"

text \<open>
  One turn of \<open>FetchChunk\<close>: the source when the media is read and when the callback is read (other
  requests share it), the attempts of the request, the source at the refresh and its answer.
\<close>

record 'm turn =
  tn_source :: "'m mediaSource"
  tn_attempts :: "attempt list"
  tn_refresh_set :: bool
  tn_refresh_source :: "'m mediaSource"
  tn_answer :: "'m option res"

fun fetchChunk ::
  "(err \<Rightarrow> string option) \<Rightarrow> string \<Rightarrow> telegramChunkRequest \<Rightarrow> 'm turn list \<Rightarrow> string res option" where
  "fetchChunk tgerr_as content rq [] = None"
| "fetchChunk tgerr_as content rq (t # ts) =
     (if ms_media (tn_source t) = None then Some (Inl (ErrMsg ''telegram media is unavailable''))
      else (case fetchTelegramMediaChunk content rq (tn_attempts t) of
              None \<Rightarrow> None
            | Some (Inr data, ev) \<Rightarrow> Some (Inr data)
            | Some (Inl e, ev) \<Rightarrow>
                if \<not> isRefreshableFileReferenceError tgerr_as e \<or> \<not> tn_refresh_set t
                then Some (Inl e)
                else (case refreshMedia (tn_refresh_source t) (ms_media (tn_source t)) (tn_answer t) of
                        (Some e', s) \<Rightarrow> Some (Inl e')
                      | (None, s) \<Rightarrow> fetchChunk tgerr_as content rq ts)))"

section \<open>Writers\<close>

text \<open>
  An \<open>io.Writer\<close>: what it has accepted, and how it answers the coming calls of \<open>Write\<close> (the
  number of bytes accepted, never more than offered, and the error). After its script it accepts all.
\<close>

record writer =
  wr_out :: string
  wr_script :: "(nat \<times> err option) list"

definition write_once :: "writer \<Rightarrow> string \<Rightarrow> nat \<times> err option \<times> writer" where
  "write_once w data =
     (case wr_script w of
        [] \<Rightarrow> (length data, None, w\<lparr>wr_out := wr_out w @ data\<rparr>)
      | (n, e) # s \<Rightarrow>
          (let m = min n (length data)
           in (m, e, w\<lparr>wr_out := wr_out w @ take m data, wr_script := s\<rparr>)))"

function writeFull :: "writer \<Rightarrow> string \<Rightarrow> nat \<times> err option \<times> writer" where
  "writeFull w data =
     (if data = [] then (0, None, w)
      else (case write_once w data of
              (n, Some e, w') \<Rightarrow> (n, Some e, w')
            | (n, None, w') \<Rightarrow>
                if n = 0 then (0, Some ErrShortWrite, w')
                else (case writeFull w' (drop n data) of (m, e, w'') \<Rightarrow> (n + m, e, w''))))"
  by pat_completeness auto
termination
  by (relation "measure (\<lambda>(w, data). length data)") auto

declare writeFull.simps [simp del]

section \<open>The sequential stream\<close>

text \<open>
  \<open>streamTelegramMedia\<close>: \<open>turns i\<close> is the script of the request of job \<open>i\<close> and \<open>flush i\<close> the
  result of flushing after it. The result is the writer and the error; \<open>None\<close> while a request
  has not returned.
\<close>

fun stream_jobs ::
  "(err \<Rightarrow> string option) \<Rightarrow> string \<Rightarrow> (nat \<Rightarrow> 'm turn list) \<Rightarrow> (nat \<Rightarrow> err option) \<Rightarrow> downloadChunkJob list
     \<Rightarrow> writer \<Rightarrow> (err option \<times> writer) option" where
  "stream_jobs tgerr_as content turns flush [] w = Some (None, w)"
| "stream_jobs tgerr_as content turns flush (job # jobs) w =
     (case fetchChunk tgerr_as content (job_req job) (turns (job_index job)) of
        None \<Rightarrow> None
      | Some (Inl e) \<Rightarrow> Some (Some e, w)
      | Some (Inr raw) \<Rightarrow>
          (case sliceTelegramChunk raw (job_skip job) (job_take job) of
             Inl e \<Rightarrow> Some (Some (ErrWrap ''slice telegram file chunk'' e), w)
           | Inr data \<Rightarrow>
               (case writeFull w data of
                  (n, e, w') \<Rightarrow>
                    (case (if e = None then flush (job_index job) else e) of
                       Some e' \<Rightarrow> Some (Some (ErrWrap ''write http response'' e'), w')
                     | None \<Rightarrow> stream_jobs tgerr_as content turns flush jobs w'))))"

definition streamTelegramMedia ::
  "(err \<Rightarrow> string option) \<Rightarrow> string \<Rightarrow> (nat \<Rightarrow> 'm turn list) \<Rightarrow> (nat \<Rightarrow> err option) \<Rightarrow> int \<Rightarrow> int
     \<Rightarrow> writer \<Rightarrow> (err option \<times> writer) option" where
  "streamTelegramMedia tgerr_as content turns flush start end w =
     (if end < start then Some (Some (ErrMsg ''invalid byte range''), w)
      else stream_jobs tgerr_as content turns flush (buildDownloadChunkJobs start end) w)"

section \<open>The split into requests\<close>

text \<open>Requests as Telegram requires them: aligned, of positive size, inside one fragment window.\<close>

definition request_ok :: "telegramChunkRequest \<Rightarrow> bool" where
  "request_ok rq \<longleftrightarrow>
     0 \<le> cr_offset rq \<and> cr_offset rq mod preciseAlignment = 0 \<and> cr_limit rq mod preciseAlignment = 0
     \<and> 0 < cr_limit rq \<and> cr_limit rq \<le> fragmentWindowSize
     \<and> cr_offset rq div fragmentWindowSize = (cr_offset rq + cr_limit rq - 1) div fragmentWindowSize"

definition job_first :: "downloadChunkJob \<Rightarrow> int" where
  "job_first j = cr_offset (job_req j) + job_skip j"

definition job_last :: "downloadChunkJob \<Rightarrow> int" where
  "job_last j = job_first j + job_take j - 1"

definition job_ok :: "downloadChunkJob \<Rightarrow> bool" where
  "job_ok j \<longleftrightarrow> request_ok (job_req j) \<and> 0 \<le> job_skip j \<and> job_skip j < preciseAlignment
     \<and> 0 < job_take j \<and> job_skip j + job_take j \<le> cr_limit (job_req j)"

lemma alignDown_bounds:
  assumes "0 \<le> v" "0 < a"
  shows "a dvd alignDown v a" "0 \<le> alignDown v a" "alignDown v a \<le> v" "v < alignDown v a + a"
proof -
  have eq: "alignDown v a = a * (v div a)"
    using assms by (simp add: alignDown_def minus_mod_eq_mult_div)
  show "a dvd alignDown v a" unfolding eq by simp
  show "0 \<le> alignDown v a" unfolding eq using assms by (simp add: pos_imp_zdiv_nonneg_iff)
  show "alignDown v a \<le> v" "v < alignDown v a + a"
    using assms pos_mod_bound [of a v] pos_mod_sign [of a v] by (simp_all add: alignDown_def)
qed

lemma alignUp_bounds:
  assumes "0 \<le> v" "0 < a"
  shows "a dvd alignUp v a" "v \<le> alignUp v a" "alignUp v a < v + a"
proof -
  have eq: "v + a - v mod a = a * (v div a) + a"
    by (simp add: minus_mod_eq_mult_div [symmetric])
  show "a dvd alignUp v a"
    using assms by (auto simp: alignUp_def eq dvd_eq_mod_eq_0)
  show "v \<le> alignUp v a" "alignUp v a < v + a"
    using assms pos_mod_bound [OF assms(2), of v] pos_mod_sign [OF assms(2), of v]
    unfolding alignUp_def go_mod_nonneg [OF assms] by (simp_all split: if_split)
qed

lemma dvd_le_step:
  fixes a :: int
  assumes "a dvd x" "a dvd y" "x < y + a" "0 < a"
  shows "x \<le> y"
proof -
  obtain k m where km: "x = a * k" "y = a * m" using assms by (auto elim!: dvdE)
  with assms(3) have "a * k < a * (m + 1)" by (simp add: algebra_simps)
  with assms(4) have "k \<le> m" by simp
  with km assms(4) show ?thesis by simp
qed

lemma chunk_job_bounds:
  assumes "0 \<le> nxt" "nxt \<le> end"
  shows "job_first (chunk_job nxt end i) = nxt"
    and "job_last (chunk_job nxt end i) = need_end nxt end"
    and "job_index (chunk_job nxt end i) = i"
  by (simp_all add: chunk_job_def job_first_def job_last_def)

lemma chunk_job_ok:
  assumes "0 \<le> nxt" "nxt \<le> end"
  shows "job_ok (chunk_job nxt end i)"
proof -
  define e f off l where "e = need_end nxt end" and "f = fragment_start nxt"
    and "off = alignDown nxt 1024"
    and "l = (if alignUp (e + 1) 1024 > f + 1048576 then f + 1048576 else alignUp (e + 1) 1024)"
  have job: "chunk_job nxt end i = \<lparr>job_index = i, job_req = \<lparr>cr_offset = off, cr_limit = l - off\<rparr>,
      job_skip = nxt - off, job_take = e - nxt + 1\<rparr>"
    by (simp add: chunk_job_def e_def f_def off_def l_def)
  have e: "nxt \<le> e" "e < f + 1048576" "f \<le> nxt" "nxt < f + 1048576"
    using need_end_ge [OF assms(2)] fragment_start_bounds [of nxt] assms(1)
    by (auto simp: e_def f_def need_end_def)
  note off = alignDown_bounds [OF assms(1), of 1024, simplified, folded off_def]
  have up: "1024 dvd alignUp (e + 1) 1024" "e + 1 \<le> alignUp (e + 1) 1024"
    using alignUp_bounds [of "e + 1" 1024] assms e by auto
  have fW: "f = 1048576 * (nxt div 1048576)" using assms by (simp add: f_def fragment_start_def)
  have f: "1024 dvd f" unfolding fW by (intro dvd_mult2) simp
  have l: "1024 dvd l" "e < l" "l \<le> f + 1048576"
    using up f e by (auto simp: l_def)
  have fo: "f \<le> off" using off f e by (intro dvd_le_step [of 1024]) auto
  have "off div 1048576 = nxt div 1048576"
    using fo off e fW by (intro int_div_pos_eq [of _ _ _ "off - f"]) auto
  moreover have "(l - 1) div 1048576 = nxt div 1048576"
    using fo off e l fW by (intro int_div_pos_eq [of _ _ _ "l - 1 - f"]) auto
  ultimately show ?thesis
    using off l e fo by (auto simp: job_ok_def request_ok_def job mod_eq_0_iff_dvd)
qed

lemma chunk_jobs_props:
  assumes "0 \<le> nxt"
  shows "list_all job_ok (chunk_jobs nxt end i)
    \<and> concat (map (\<lambda>j. [job_first j..job_last j]) (chunk_jobs nxt end i)) = [nxt..end]
    \<and> map job_index (chunk_jobs nxt end i) = [i..<i + length (chunk_jobs nxt end i)]"
  using assms
proof (induction nxt "end" i rule: chunk_jobs.induct)
  case (1 nxt "end" i)
  show ?case
  proof (cases "nxt \<le> end")
    case False
    then show ?thesis by (simp add: chunk_jobs.simps [of nxt])
  next
    case True
    let ?n = "need_end nxt end"
    have le: "nxt \<le> ?n" "?n \<le> end" using need_end_ge [OF True] by (simp_all add: need_end_def)
    with 1 True have IH: "list_all job_ok (chunk_jobs (?n + 1) end (Suc i))"
      "concat (map (\<lambda>j. [job_first j..job_last j]) (chunk_jobs (?n + 1) end (Suc i))) = [?n + 1..end]"
      "map job_index (chunk_jobs (?n + 1) end (Suc i))
         = [Suc i..<Suc i + length (chunk_jobs (?n + 1) end (Suc i))]"
      by auto
    have "[nxt..?n] @ [?n + 1..end] = [nxt..end]"
      using upto_split2 [of nxt ?n "end"] le by simp
    moreover have "i # [Suc i..<Suc i + n] = [i..<i + Suc n]" for n
      by (simp add: upt_conv_Cons del: upt_Suc)
    ultimately show ?thesis
      using IH True chunk_job_bounds [OF 1(2) True] chunk_job_ok [OF 1(2) True]
      by (simp add: chunk_jobs.simps [of nxt])
  qed
qed

section \<open>What a request returns\<close>

lemma fetch_attempts_data:
  assumes "fetch_attempts content rq as retries backoff = Some (Inr d, ev)"
  shows "\<exists>n. d = get_file content rq n"
  using assms
  by (induction content rq as retries backoff arbitrary: ev rule: fetch_attempts.induct)
     (auto split: option.splits if_splits rpc_resp.splits sum.splits)

lemma fetchChunk_data:
  assumes "fetchChunk tgerr_as content rq ts = Some (Inr d)"
  shows "\<exists>n. d = get_file content rq n"
  using assms
  by (induction tgerr_as content rq ts rule: fetchChunk.induct)
     (auto simp: fetchTelegramMediaChunk_def split: option.splits if_splits sum.splits prod.splits
           dest: fetch_attempts_data)

lemma slice_get_file:
  assumes "sliceTelegramChunk (get_file content (job_req j) n) (job_skip j) (job_take j) = Inr d"
    and "job_ok j"
  shows "d = slice content (job_first j) (job_last j)"
proof -
  have nn: "0 \<le> cr_offset (job_req j)" "0 \<le> job_skip j" "0 < job_take j"
    using assms(2) by (auto simp: job_ok_def request_ok_def)
  define m where "m = min n (nat (cr_limit (job_req j)))"
  from assms(1) nn have d: "d = take (nat (job_take j)) (drop (nat (job_skip j)) (get_file content (job_req j) n))"
    and len: "job_skip j + job_take j \<le> int (length (get_file content (job_req j) n))"
    by (auto simp: sliceTelegramChunk_def split: if_splits)
  have "job_skip j + job_take j \<le> int m"
    using len by (simp add: get_file_def m_def)
  then have "nat (job_take j) \<le> m - nat (job_skip j)" using nn by linarith
  then have "d = take (nat (job_take j)) (drop (nat (job_skip j)) (drop (nat (cr_offset (job_req j))) content))"
    by (simp add: d get_file_def m_def [symmetric] drop_take)
  then show ?thesis
    using nn by (simp add: slice_def job_first_def job_last_def nat_add_distrib add.commute)
qed

subsection \<open>Writers\<close>

lemma writeFull_out:
  assumes "writeFull w data = (n, e, w')"
  shows "wr_out w' = wr_out w @ take n data \<and> n \<le> length data \<and> (e = None \<longrightarrow> n = length data)"
  using assms
proof (induction w data arbitrary: n e w' rule: writeFull.induct)
  case (1 w data)
  obtain k er w1 where wo: "write_once w data = (k, er, w1)" using prod_cases3 by blast
  then have once: "wr_out w1 = wr_out w @ take k data" "k \<le> length data"
    by (auto simp: write_once_def split: list.splits)
  show ?case
  proof (cases "data = [] \<or> er \<noteq> None \<or> k = 0")
    case True
    with 1(2) wo once show ?thesis
      by (subst (asm) writeFull.simps) (auto split: if_splits option.splits)
  next
    case False
    obtain m e2 w2 where rec: "writeFull w1 (drop k data) = (m, e2, w2)" using prod_cases3 by blast
    from False wo have pr: "(k, er, w1) = write_once w data" "er = None" by auto
    from 1(1) [OF _ pr(1) refl _ _ rec] False pr(2)
    have IH: "wr_out w2 = wr_out w1 @ take m (drop k data)" "m \<le> length (drop k data)"
      "e2 = None \<longrightarrow> m = length (drop k data)" by auto
    from 1(2) False wo rec have "n = k + m" "e = e2" "w' = w2"
      by (subst (asm) writeFull.simps, simp)+
    with IH once show ?thesis by (auto simp: take_add)
  qed
qed

subsection \<open>The stream writes the requested bytes\<close>

lemma slice_append:
  assumes "0 \<le> a" "a \<le> b" "b < c"
  shows "slice content a b @ slice content (b + 1) c = slice content a c"
proof -
  have "nat (c - a + 1) = nat (b - a + 1) + nat (c - b)" using assms by (simp add: nat_add_distrib [symmetric])
  moreover have "nat (b + 1) = nat a + nat (b - a + 1)" using assms by (simp add: nat_add_distrib [symmetric])
  ultimately show ?thesis
    by (simp add: slice_def take_add add.commute [of "nat a" "nat (b - a + 1)"])
qed

lemma stream_jobs_step:
  assumes "stream_jobs tgerr_as content turns flush (job # jobs) w = Some (None, w')" "job_ok job"
  obtains w1 where "wr_out w1 = wr_out w @ slice content (job_first job) (job_last job)"
    "stream_jobs tgerr_as content turns flush jobs w1 = Some (None, w')"
proof -
  from assms(1) obtain raw d n w1
    where raw: "fetchChunk tgerr_as content (job_req job) (turns (job_index job)) = Some (Inr raw)"
      and d: "sliceTelegramChunk raw (job_skip job) (job_take job) = Inr d"
      and wf: "writeFull w d = (n, None, w1)"
      and rest: "stream_jobs tgerr_as content turns flush jobs w1 = Some (None, w')"
    by (auto split: option.splits sum.splits prod.splits if_splits)
  from fetchChunk_data [OF raw] d slice_get_file assms(2)
  have "d = slice content (job_first job) (job_last job)" by blast
  with writeFull_out [OF wf] have "wr_out w1 = wr_out w @ slice content (job_first job) (job_last job)"
    by simp
  then show ?thesis using that rest by blast
qed

lemma stream_chunk_jobs:
  assumes "stream_jobs tgerr_as content turns flush (chunk_jobs nxt end i) w = Some (None, w')"
    and "0 \<le> nxt" and "nxt \<le> end"
  shows "wr_out w' = wr_out w @ slice content nxt end"
  using assms
proof (induction nxt "end" i arbitrary: w rule: chunk_jobs.induct)
  case (1 nxt "end" i)
  let ?n = "need_end nxt end"
  have le: "nxt \<le> ?n" "?n \<le> end" using need_end_ge [OF 1(4)] by (simp_all add: need_end_def)
  note job = chunk_job_bounds [OF 1(3,4), of i]
  from 1(2,4) have "stream_jobs tgerr_as content turns flush
      (chunk_job nxt end i # chunk_jobs (?n + 1) end (Suc i)) w = Some (None, w')"
    by (simp add: chunk_jobs.simps [of nxt])
  then obtain w1 where w1: "wr_out w1 = wr_out w @ slice content nxt ?n"
    and rest: "stream_jobs tgerr_as content turns flush (chunk_jobs (?n + 1) end (Suc i)) w1 = Some (None, w')"
    by (rule stream_jobs_step) (use chunk_job_ok [OF 1(3,4)] job in auto)
  show ?case
  proof (cases "?n = end")
    case True
    with rest have "w' = w1" by (simp add: chunk_jobs.simps [of "end + 1"])
    with w1 True show ?thesis by simp
  next
    case False
    with le have "?n + 1 \<le> end" by simp
    from 1(1) [OF 1(4) rest _ this] le 1(3)
    have "wr_out w' = wr_out w1 @ slice content (?n + 1) end" by simp
    with w1 slice_append [of nxt ?n "end" content] le 1(3) False show ?thesis by simp
  qed
qed

section \<open>Retries are bounded\<close>

text \<open>An attempt that Telegram answered with a demand to wait, which the loop repeats without limit.\<close>

definition postponed :: "attempt \<Rightarrow> bool" where
  "postponed a \<longleftrightarrow> at_lease a = None \<and> at_ctx a = None \<and> at_err a \<noteq> None \<and> (at_flood a \<or> at_timeout a)"

fun sleeps :: "fetch_event list \<Rightarrow> duration list" where
  "sleeps [] = []"
| "sleeps (Sleep d # es) = d # sleeps es"
| "sleeps (_ # es) = sleeps es"

text \<open>A permit is taken for one request and given back before anything else happens.\<close>

fun permit_ok :: "bool \<Rightarrow> fetch_event list \<Rightarrow> bool" where
  "permit_ok held [] = (\<not> held)"
| "permit_ok held (Permit # es) = (\<not> held \<and> permit_ok True es)"
| "permit_ok held (GetFile _ _ # es) = (held \<and> permit_ok True es)"
| "permit_ok held (PermitBack # es) = (held \<and> permit_ok False es)"
| "permit_ok held (Sleep _ # es) = (\<not> held \<and> permit_ok False es)"

lemma sleeps_append [simp]: "sleeps (a @ b) = sleeps a @ sleeps b"
  by (induction a rule: sleeps.induct) auto

definition delays :: "duration list" where
  "delays = [250 * millisecond, 500 * millisecond, 1 * second, 2 * second]"

lemma delays_Cons:
  assumes "r < 4"
  shows "drop r delays = delays ! r # drop (Suc r) delays"
  using assms by (intro Cons_nth_drop_Suc [symmetric]) (simp add: delays_def)

lemma next_delay: "r < 3 \<Longrightarrow> nextChunkBackoff (delays ! r) = delays ! Suc r"
  by (cases r; cases "r - 1"; cases "r - 2")
     (auto simp: delays_def nextChunkBackoff_def chunkRetryMaxDelay_def numeral_eq_Suc)

lemma retryTransient_cases:
  assumes "r < 4 \<longrightarrow> backoff = delays ! r"
  shows "retryTransient a r backoff = Inr None \<and> 4 \<le> r
    \<or> r < 4 \<and> (\<exists>e. retryTransient a r backoff = Inl e)
    \<or> r < 4 \<and> (\<exists>b. retryTransient a r backoff = Inr (Some (Suc r, b)) \<and> (Suc r < 4 \<longrightarrow> b = delays ! Suc r))"
  using assms next_delay [of r]
  by (auto simp: retryTransient_def chunkMaxRetries_def split: option.splits)

lemma fetch_attempts_bounded:
  assumes "r < 4 \<longrightarrow> backoff = delays ! r" "4 < r + length (filter (\<lambda>a. \<not> postponed a) as)" "r \<le> 4"
  shows "\<exists>res ev. fetch_attempts content rq as r backoff = Some (res, ev)"
  using assms
proof (induction as arbitrary: r backoff)
  case (Cons a as)
  have again: "\<exists>res ev. fetch_attempts content rq as r' b = Some (res, ev)"
    if "r' < 4 \<longrightarrow> b = delays ! r'" "4 < r' + length (filter (\<lambda>a. \<not> postponed a) as)" "r' \<le> 4" for r' b
    using Cons.IH that by blast
  show ?case
  proof (cases "postponed a")
    case True
    with Cons.prems have "4 < r + length (filter (\<lambda>a. \<not> postponed a) as)" by simp
    then obtain res ev where "fetch_attempts content rq as r backoff = Some (res, ev)"
      using again [of r backoff] Cons.prems(1,3) by blast
    with True show ?thesis by (auto simp: postponed_def)
  next
    case False
    with Cons.prems(2) have more: "4 < Suc r + length (filter (\<lambda>a. \<not> postponed a) as)" by simp
    consider (out) "retryTransient a r backoff = Inr None" | (err) e where "retryTransient a r backoff = Inl e"
      | (retry) b where "retryTransient a r backoff = Inr (Some (Suc r, b))" "Suc r < 4 \<longrightarrow> b = delays ! Suc r" "r < 4"
      using retryTransient_cases [OF Cons.prems(1), of a] by blast
    then show ?thesis
    proof cases
      case (retry b)
      with again [of "Suc r" b] more Suc_leI obtain res ev
        where "fetch_attempts content rq as (Suc r) b = Some (res, ev)" by blast
      with retry False show ?thesis
        by (auto simp: postponed_def split: option.splits rpc_resp.splits)
    qed (use False in \<open>auto simp: postponed_def split: option.splits rpc_resp.splits\<close>)
  qed
qed simp

lemma fetch_attempts_events:
  assumes "fetch_attempts content rq as r backoff = Some (res, ev)" "r < 4 \<longrightarrow> backoff = delays ! r"
  shows "permit_ok False ev \<and> prefix (sleeps ev) (drop r delays)"
  using assms
proof (induction as arbitrary: r backoff res ev)
  case (Cons a as)
  let ?call = "[Permit, GetFile (cr_offset rq) (cr_limit rq), PermitBack]"
  have rt: "\<exists>ev'. ev = ?call @ [Sleep backoff] @ ev' \<and> fetch_attempts content rq as (Suc r) b = Some (res, ev')"
    if "map_option (\<lambda>(res, evs). (res, ?call @ [Sleep backoff] @ evs)) (fetch_attempts content rq as (Suc r) b)
        = Some (res, ev)" for b
    using that by auto
  show ?case
  proof (cases "at_lease a = None \<and> at_ctx a = None")
    case False
    with Cons.prems(1) show ?thesis by (auto split: option.splits)
  next
    case True
    then have lc: "at_lease a = None" "at_ctx a = None" by auto
    show ?thesis
    proof (cases "postponed a")
      case True
      with Cons.prems(1) lc obtain ev' where
        "ev = ?call @ ev'" "fetch_attempts content rq as r backoff = Some (res, ev')"
        by (auto simp: postponed_def)
      with Cons.IH [of r backoff res ev'] Cons.prems(2) show ?thesis by simp
    next
      case False
      from Cons.prems(1) lc False consider
        (stop) "ev = ?call"
        | (slept) e where "ev = ?call @ [Sleep backoff]" "retryTransient a r backoff = Inl e"
        | (again) r' b ev' where "retryTransient a r backoff = Inr (Some (r', b))"
            "ev = ?call @ [Sleep backoff] @ ev'" "fetch_attempts content rq as r' b = Some (res, ev')"
        by (auto simp: postponed_def split: option.splits if_splits rpc_resp.splits sum.splits)
      then show ?thesis
      proof cases
        case stop
        then show ?thesis by simp
      next
        case slept
        with retryTransient_cases [OF Cons.prems(2), of a] have "r < 4" by auto
        with slept Cons.prems(2) delays_Cons show ?thesis by simp
      next
        case again
        with retryTransient_cases [OF Cons.prems(2), of a]
        have r: "r < 4" "r' = Suc r" "r' < 4 \<longrightarrow> b = delays ! r'" by auto
        with Cons.IH [OF again(3)] have "permit_ok False ev' \<and> prefix (sleeps ev') (drop r' delays)" by simp
        with again(2) r Cons.prems(2) delays_Cons [of r] show ?thesis by simp
      qed
    qed
  qed
qed simp

section \<open>The transports of the proxy\<close>

text \<open>
  \<open>rangeTransfer\<close> (src/app/http/range_source.go): readiness is the pool of the account, the lease is
  the scheduler's, bytes come from \<open>streamTelegramMedia\<close>, deliveries go to the task store. A stream
  call that has not returned when its script ends counts as cut by the client.
\<close>

definition telegram_transport ::
  "(err \<Rightarrow> string option) \<Rightarrow> string \<Rightarrow> (nat \<Rightarrow> nat \<Rightarrow> 'm turn list) \<Rightarrow> (nat \<Rightarrow> nat \<Rightarrow> err option)
     \<Rightarrow> (nat \<Rightarrow> (nat \<times> err option) list) \<Rightarrow> (duration \<Rightarrow> err option) \<Rightarrow> err option
     \<Rightarrow> (downloadRange list \<Rightarrow> err option) \<Rightarrow> transport" where
  "telegram_transport tgerr_as content turns flush client pool_wait acquire record_delivery =
     \<lparr>tr_closer = False, tr_ready = pool_wait, tr_acquire = acquire,
      tr_stream = (\<lambda>k s e.
        case streamTelegramMedia tgerr_as content (turns k) (flush k) s e
               \<lparr>wr_out = [], wr_script = client k\<rparr> of
          None \<Rightarrow> ([], Some Canceled)
        | Some (er, w) \<Rightarrow> (wr_out w, er)),
      tr_report = record_delivery\<rparr>"

text \<open>
  \<open>localFileTransfer\<close> (src/app/http/local_range.go): a completed local file, always ready, its own
  lease, and copied by \<open>io.CopyN\<close> from a section of the open file. \<open>brk k\<close> is the number of bytes
  copied before the context or the client failed, if it did.
\<close>

definition local_transport ::
  "string \<Rightarrow> ctx \<Rightarrow> (nat \<Rightarrow> (nat \<times> err) option) \<Rightarrow> (downloadRange list \<Rightarrow> err option) \<Rightarrow> transport" where
  "local_transport content c brk record_delivery =
     \<lparr>tr_closer = True, tr_ready = (\<lambda>_. c), tr_acquire = c,
      tr_stream = (\<lambda>k s e.
        let n = e - s + 1; data = slice content s e
        in case brk k of
             Some (m, er) \<Rightarrow> (take m data, Some er)
           | None \<Rightarrow> (data, if int (length data) < n then Some ErrEOF else None)),
      tr_report = record_delivery\<rparr>"

interpretation tg: range_transfer
  "telegram_transport tgerr_as content turns flush client pool_wait acquire record_delivery" content
  for tgerr_as content turns flush client pool_wait acquire record_delivery
proof
  fix s e k w
  assume "0 \<le> s" "s \<le> e" "e < int (length content)"
    "tr_stream (telegram_transport tgerr_as content turns flush client pool_wait acquire record_delivery)
       k s e = (w, None)"
  then show "w = slice content s e"
    using stream_chunk_jobs [of tgerr_as content "turns k" "flush k" s e 0]
    by (auto simp: telegram_transport_def streamTelegramMedia_def buildDownloadChunkJobs_def
             split: option.splits)
qed

interpretation lf: range_transfer "local_transport content c brk record_delivery" content
  for content c brk record_delivery
  by unfold_locales (auto simp: local_transport_def split: option.splits if_splits)

section \<open>The parallel stream\<close>

text \<open>
  The collector of \<open>streamTelegramMediaParallel\<close>: chunks that arrived early, the index of the
  next chunk to write, and the writer. \<open>drain\<close> is its inner loop.
\<close>

record collector =
  co_pending :: "(nat \<times> string) list"
  co_next :: nat
  co_writer :: writer

lemma length_delete_less: "map_of al k = Some v \<Longrightarrow> length (AList.delete k al) < length al"
proof (induction al)
  case (Cons kv al)
  have "length (AList.delete k al) \<le> length al" by (rule AList.length_delete_le)
  with Cons show ?case by (cases kv) (auto split: if_splits)
qed simp

function drain :: "collector \<Rightarrow> err option \<times> collector" where
  "drain c =
     (case map_of (co_pending c) (co_next c) of
        None \<Rightarrow> (None, c)
      | Some data \<Rightarrow>
          (case writeFull (co_writer c) data of
             (n, e, w) \<Rightarrow>
               (let c' = c\<lparr>co_pending := AList.delete (co_next c) (co_pending c), co_writer := w\<rparr>
                in case e of
                     Some er \<Rightarrow> (Some (ErrWrap ''write download output'' er), c')
                   | None \<Rightarrow> drain (c'\<lparr>co_next := Suc (co_next c)\<rparr>))))"
  by pat_completeness auto
termination
  by (relation "measure (length \<circ> co_pending)") (auto dest: length_delete_less)

declare drain.simps [simp del]

text \<open>The results channel, in the order in which workers delivered.\<close>

fun collect :: "collector \<Rightarrow> (nat \<times> string) list \<Rightarrow> err option \<times> collector" where
  "collect c [] = (None, c)"
| "collect c ((i, data) # rs) =
     (case drain (c\<lparr>co_pending := AList.update i data (co_pending c)\<rparr>) of
        (Some e, c') \<Rightarrow> (Some e, c')
      | (None, c') \<Rightarrow> collect c' rs)"

text \<open>The work of a worker on one job.\<close>

definition chunk_data ::
  "(err \<Rightarrow> string option) \<Rightarrow> string \<Rightarrow> (nat \<Rightarrow> 'm turn list) \<Rightarrow> downloadChunkJob \<Rightarrow> string res option" where
  "chunk_data tgerr_as content turns job =
     (case fetchChunk tgerr_as content (job_req job) (turns (job_index job)) of
        None \<Rightarrow> None
      | Some (Inl e) \<Rightarrow> Some (Inl e)
      | Some (Inr raw) \<Rightarrow>
          Some (case sliceTelegramChunk raw (job_skip job) (job_take job) of
                  Inl e \<Rightarrow> Inl (ErrWrap ''slice telegram file chunk'' e)
                | Inr data \<Rightarrow> Inr data))"

definition delivered ::
  "(err \<Rightarrow> string option) \<Rightarrow> string \<Rightarrow> (nat \<Rightarrow> 'm turn list) \<Rightarrow> downloadChunkJob list \<Rightarrow> nat
     \<Rightarrow> (nat \<times> string) option" where
  "delivered tgerr_as content turns jobs i =
     (if i < length jobs
      then (case chunk_data tgerr_as content turns (jobs ! i) of
              Some (Inr d) \<Rightarrow> Some (i, d) | _ \<Rightarrow> None)
      else None)"

text \<open>
  \<open>arrivals\<close> is the order in which the jobs' results reached the collector (failed jobs deliver
  nothing) and \<open>groupErr\<close> what \<open>g.Wait\<close> returned.
\<close>

definition streamTelegramMediaParallel ::
  "(err \<Rightarrow> string option) \<Rightarrow> string \<Rightarrow> (nat \<Rightarrow> 'm turn list) \<Rightarrow> nat list \<Rightarrow> err option \<Rightarrow> int \<Rightarrow> int \<Rightarrow> writer
     \<Rightarrow> err option \<times> writer" where
  "streamTelegramMediaParallel tgerr_as content turns arrivals groupErr start end w =
     (if end < start then (Some (ErrMsg ''invalid byte range''), w)
      else let jobs = buildDownloadChunkJobs start end
           in if jobs = [] then (None, w)
              else (case collect \<lparr>co_pending = [], co_next = 0, co_writer = w\<rparr>
                           (List.map_filter (delivered tgerr_as content turns jobs) arrivals) of
                      (Some e, c) \<Rightarrow> (Some e, co_writer c)
                    | (None, c) \<Rightarrow>
                        (if groupErr \<noteq> None then groupErr
                         else if co_next c \<noteq> length jobs then Some ErrUnexpectedEOF else None,
                         co_writer c)))"

subsection \<open>Reordering is invisible\<close>

definition collector_inv :: "string \<Rightarrow> (nat \<Rightarrow> string) \<Rightarrow> nat set \<Rightarrow> collector \<Rightarrow> bool" where
  "collector_inv out d arrived c \<longleftrightarrow>
     distinct (keys (co_pending c))
     \<and> (\<forall>i x. map_of (co_pending c) i = Some x \<longrightarrow> co_next c \<le> i \<and> x = d i)
     \<and> wr_out (co_writer c) = out @ concat (map d [0..<co_next c])
     \<and> set (keys (co_pending c)) \<union> {..<co_next c} = arrived"

lemma drain_inv:
  assumes "drain c = (None, c')" "collector_inv out d arrived c"
  shows "collector_inv out d arrived c' \<and> co_next c' \<notin> set (keys (co_pending c'))"
  using assms
proof (induction c arbitrary: c' rule: drain.induct)
  case (1 c)
  show ?case
  proof (cases "map_of (co_pending c) (co_next c)")
    case None
    with 1(2) have "c' = c" by (simp add: drain.simps [of c])
    with None 1(3) show ?thesis by (simp add: map_of_eq_None_iff)
  next
    case (Some data)
    obtain n e w where wf: "writeFull (co_writer c) data = (n, e, w)" using prod_cases3 by blast
    let ?c = "c\<lparr>co_pending := AList.delete (co_next c) (co_pending c), co_writer := w,
                co_next := Suc (co_next c)\<rparr>"
    from 1(2) Some wf have e: "e = None" and rec: "drain ?c = (None, c')"
      by (auto simp: drain.simps [of c] split: option.splits)
    have inv: "collector_inv out d arrived ?c"
    proof -
      have data: "data = d (co_next c)" using 1(3) Some by (auto simp: collector_inv_def)
      have key: "co_next c \<in> set (keys (co_pending c))"
        using map_of_key [OF Some] by simp
      have "wr_out w = out @ concat (map d [0..<Suc (co_next c)])"
        using writeFull_out [OF wf] e 1(3) data by (simp add: collector_inv_def)
      moreover have "co_next c < i \<and> x = d i"
        if "map_of (AList.delete (co_next c) (co_pending c)) i = Some x" for i x
        using that 1(3) by (auto simp: collector_inv_def alist_simps fun_upd_apply split: if_splits)
          (metis le_eq_less_or_eq)
      moreover have "set (keys (AList.delete (co_next c) (co_pending c))) \<union> {..<Suc (co_next c)} = arrived"
        using 1(3) key by (auto simp: collector_inv_def alist_simps lessThan_Suc)
      ultimately show ?thesis
        using 1(3) by (auto simp: collector_inv_def Suc_le_eq)
    qed
    from 1(1) [OF Some wf [symmetric] refl refl e rec inv] show ?thesis .
  qed
qed

lemma collect_inv:
  assumes "collect c rs = (None, c')" "collector_inv out d arrived c"
    "co_next c \<notin> set (keys (co_pending c))"
    "\<forall>(i, x) \<in> set rs. x = d i" "distinct (keys rs)" "arrived \<inter> set (keys rs) = {}"
  shows "collector_inv out d (arrived \<union> set (keys rs)) c' \<and> co_next c' \<notin> set (keys (co_pending c'))"
  using assms
proof (induction c rs arbitrary: arrived rule: collect.induct)
  case (2 c i data rs)
  let ?c = "c\<lparr>co_pending := AList.update i data (co_pending c)\<rparr>"
  obtain e c1 where dr: "drain ?c = (e, c1)" by fastforce
  with 2(2) have e: "e = None" and rec: "collect c1 rs = (None, c')"
    by (auto split: option.splits)
  have i: "i \<notin> arrived" "data = d i" using 2(5,7) by auto
  then have "co_next c \<le> i" using 2(3) by (auto simp: collector_inv_def)
  with i 2(3) have "collector_inv out d (insert i arrived) ?c"
    by (auto simp: collector_inv_def alist_simps fun_upd_apply split: if_splits)
  with dr e have c1: "collector_inv out d (insert i arrived) c1"
    "co_next c1 \<notin> set (keys (co_pending c1))" using drain_inv by blast+
  have "collector_inv out d (insert i arrived \<union> set (keys rs)) c' \<and> co_next c' \<notin> set (keys (co_pending c'))"
    using 2(1) [OF dr [unfolded e, symmetric] refl rec c1] 2(5,6,7) i by auto
  then show ?case by simp
qed simp

lemma map_filter_delivered:
  "set (keys (List.map_filter (delivered tgerr_as content turns jobs) as)) \<subseteq> set as"
  "distinct as \<Longrightarrow> distinct (keys (List.map_filter (delivered tgerr_as content turns jobs) as))"
  by (induction as)
     (auto simp: List.map_filter_simps delivered_def split: option.splits sum.splits if_splits)

lemma delivered_data:
  assumes "(i, d) \<in> set (List.map_filter (delivered tgerr_as content turns jobs) as)"
    "list_all job_ok jobs"
  shows "i < length jobs \<and> d = slice content (job_first (jobs ! i)) (job_last (jobs ! i))"
proof -
  from assms(1) have i: "i < length jobs" and cd: "chunk_data tgerr_as content turns (jobs ! i) = Some (Inr d)"
    by (auto simp: List.map_filter_def delivered_def split: option.splits sum.splits if_splits)
  from cd obtain raw where raw: "fetchChunk tgerr_as content (job_req (jobs ! i)) (turns (job_index (jobs ! i)))
      = Some (Inr raw)" "sliceTelegramChunk raw (job_skip (jobs ! i)) (job_take (jobs ! i)) = Inr d"
    by (auto simp: chunk_data_def split: option.splits sum.splits)
  from i assms(2) have "job_ok (jobs ! i)" by (simp add: list_all_length)
  with fetchChunk_data [OF raw(1)] raw(2) slice_get_file i show ?thesis by blast
qed

lemma concat_slices:
  assumes "0 \<le> nxt" "nxt \<le> end"
  shows "concat (map (\<lambda>j. slice content (job_first j) (job_last j)) (chunk_jobs nxt end i)) = slice content nxt end"
  using assms
proof (induction nxt "end" i rule: chunk_jobs.induct)
  case (1 nxt "end" i)
  let ?n = "need_end nxt end"
  have le: "nxt \<le> ?n" "?n \<le> end" using need_end_ge [OF 1(3)] by (simp_all add: need_end_def)
  note job = chunk_job_bounds [OF 1(2,3), of i]
  show ?case
  proof (cases "?n = end")
    case True
    with job 1(3) show ?thesis
      by (simp add: chunk_jobs.simps [of nxt] chunk_jobs.simps [of "end + 1"])
  next
    case False
    with le 1 have "concat (map (\<lambda>j. slice content (job_first j) (job_last j)) (chunk_jobs (?n + 1) end (Suc i)))
        = slice content (?n + 1) end" by auto
    with job 1(2,3) le False slice_append [of nxt ?n "end" content] show ?thesis
      by (simp add: chunk_jobs.simps [of nxt])
  qed
qed

lemma chunk_jobs_nonempty: "nxt \<le> end \<Longrightarrow> chunk_jobs nxt end i \<noteq> []"
  by (simp add: chunk_jobs.simps [of nxt])

lemma parallel_collects:
  assumes "collect \<lparr>co_pending = [], co_next = 0, co_writer = w\<rparr>
      (List.map_filter (delivered tgerr_as content turns (chunk_jobs s e 0)) as) = (None, c)"
    "distinct as" "0 \<le> s"
  shows "collector_inv (wr_out w)
      (\<lambda>i. slice content (job_first (chunk_jobs s e 0 ! i)) (job_last (chunk_jobs s e 0 ! i)))
      (set (keys (List.map_filter (delivered tgerr_as content turns (chunk_jobs s e 0)) as))) c
    \<and> co_next c \<notin> set (keys (co_pending c))"
proof -
  let ?d = "\<lambda>i. slice content (job_first (chunk_jobs s e 0 ! i)) (job_last (chunk_jobs s e 0 ! i))"
  have ok: "list_all job_ok (chunk_jobs s e 0)" using chunk_jobs_props [OF assms(3)] by blast
  have "collector_inv (wr_out w) ?d {} \<lparr>co_pending = [], co_next = 0, co_writer = w\<rparr>"
    by (simp add: collector_inv_def)
  from collect_inv [OF assms(1) this] map_filter_delivered(2) [OF assms(2)] delivered_data [OF _ ok]
  show ?thesis by fastforce
qed

lemma writeFull_accepting:
  "wr_script w = [] \<Longrightarrow> \<exists>n w'. writeFull w data = (n, None, w') \<and> wr_script w' = []"
  by (subst writeFull.simps) (simp add: write_once_def writeFull.simps [of _ "[]"])

lemma drain_accepting:
  "wr_script (co_writer c) = [] \<Longrightarrow> \<exists>c'. drain c = (None, c') \<and> wr_script (co_writer c') = []"
proof (induction c rule: drain.induct)
  case (1 c)
  show ?case
  proof (cases "map_of (co_pending c) (co_next c)")
    case (Some data)
    from writeFull_accepting [OF 1(2)] obtain n w
      where w: "writeFull (co_writer c) data = (n, None, w)" "wr_script w = []" by blast
    from 1(1) [OF Some w(1) [symmetric] refl refl refl] w(2)
    show ?thesis by (subst drain.simps) (simp add: Some w)
  qed (use 1(2) in \<open>simp add: drain.simps [of c]\<close>)
qed

lemma collect_accepting:
  "wr_script (co_writer c) = [] \<Longrightarrow> \<exists>c'. collect c rs = (None, c')"
proof (induction c rs rule: collect.induct)
  case (2 c i data rs)
  have "wr_script (co_writer (c\<lparr>co_pending := AList.update i data (co_pending c)\<rparr>)) = []" using 2(2) by simp
  from drain_accepting [OF this] obtain c' where
    c': "drain (c\<lparr>co_pending := AList.update i data (co_pending c)\<rparr>) = (None, c')" "wr_script (co_writer c') = []"
    by blast
  from 2(1) [OF c'(1) [symmetric] refl c'(2)] show ?case by (simp add: c'(1))
qed simp

lemma map_filter_delivered_all:
  assumes "set as = {..<length jobs}"
    "\<forall>j \<in> set jobs. \<exists>d. chunk_data tgerr_as content turns j = Some (Inr d)"
  shows "set (keys (List.map_filter (delivered tgerr_as content turns jobs) as)) = {..<length jobs}"
proof -
  have "\<exists>d. delivered tgerr_as content turns jobs i = Some (i, d)" if "i \<in> set as" for i
  proof -
    from that assms(1) have i: "i < length jobs" by auto
    with assms(2) obtain d where "chunk_data tgerr_as content turns (jobs ! i) = Some (Inr d)"
      using nth_mem by blast
    with i show ?thesis by (simp add: delivered_def)
  qed
  then have "set (keys (List.map_filter (delivered tgerr_as content turns jobs) as)) = set as"
    by (induction as) (fastforce simp: List.map_filter_simps)+
  with assms(1) show ?thesis by simp
qed

lemma collector_inv_complete:
  assumes "collector_inv out d {..<n} c" "co_next c \<notin> set (keys (co_pending c))"
  shows "co_next c = n"
proof -
  have u: "set (keys (co_pending c)) \<union> {..<co_next c} = {..<n}" using assms(1) by (simp add: collector_inv_def)
  have "co_next c \<le> n" using Un_upper2 [of "{..<co_next c}" "set (keys (co_pending c))"]
    unfolding u by simp
  moreover have "\<not> co_next c < n"
  proof
    assume "co_next c < n"
    then have "co_next c \<in> set (keys (co_pending c)) \<union> {..<co_next c}" unfolding u by simp
    with assms(2) show False by simp
  qed
  ultimately show ?thesis by simp
qed

lemma map_slices_nth:
  "map (\<lambda>i. slice content (job_first (js ! i)) (job_last (js ! i))) [0..<length js]
     = map (\<lambda>j. slice content (job_first j) (job_last j)) js"
  by (rule nth_equalityI) simp_all

subsection \<open>Memory bound and progress\<close>

text \<open>
  The goroutines of \<open>streamTelegramMediaParallel\<close> for \<open>n\<close> jobs and \<open>k\<close> workers. Jobs are handed
  out in order over an unbuffered channel; a worker holds its decoded chunk until the collector has
  written it, and takes no other job before.
\<close>

record par_state =
  ps_handed :: nat
  ps_fetching :: "nat set"
  ps_held :: "nat set"
  ps_written :: nat

inductive par_step :: "nat \<Rightarrow> nat \<Rightarrow> par_state \<Rightarrow> par_state \<Rightarrow> bool" for n k where
  hand_out: "ps_handed s < n \<Longrightarrow> card (ps_fetching s) + card (ps_held s) < k \<Longrightarrow>
    par_step n k s (s\<lparr>ps_handed := Suc (ps_handed s), ps_fetching := insert (ps_handed s) (ps_fetching s)\<rparr>)"
| deliver: "i \<in> ps_fetching s \<Longrightarrow>
    par_step n k s (s\<lparr>ps_fetching := ps_fetching s - {i}, ps_held := insert i (ps_held s)\<rparr>)"
| write_next: "ps_written s \<in> ps_held s \<Longrightarrow>
    par_step n k s (s\<lparr>ps_held := ps_held s - {ps_written s}, ps_written := Suc (ps_written s)\<rparr>)"

definition par_init :: "par_state \<Rightarrow> bool" where
  "par_init s \<longleftrightarrow> s = \<lparr>ps_handed = 0, ps_fetching = {}, ps_held = {}, ps_written = 0\<rparr>"

definition par_inv :: "nat \<Rightarrow> nat \<Rightarrow> par_state \<Rightarrow> bool" where
  "par_inv n k s \<longleftrightarrow> ps_handed s \<le> n \<and> ps_written s \<le> ps_handed s
     \<and> ps_fetching s \<inter> ps_held s = {}
     \<and> ps_fetching s \<union> ps_held s = {ps_written s..<ps_handed s}
     \<and> card (ps_fetching s) + card (ps_held s) \<le> k"

lemma par_inv_finite: "par_inv n k s \<Longrightarrow> finite (ps_fetching s) \<and> finite (ps_held s)"
  unfolding par_inv_def by (metis finite_Un finite_atLeastLessThan)

lemma par_inv_step:
  assumes "par_inv n k s" "par_step n k s t"
  shows "par_inv n k t"
  using assms(2)
proof cases
  case hand_out
  have "ps_handed s \<notin> ps_fetching s \<union> ps_held s" using assms(1) by (simp add: par_inv_def)
  moreover from this par_inv_finite [OF assms(1)]
  have "card (insert (ps_handed s) (ps_fetching s)) = Suc (card (ps_fetching s))" by simp
  ultimately show ?thesis using hand_out assms(1) by (auto simp: par_inv_def)
next
  case (deliver i)
  have "card (ps_fetching s - {i}) + card (insert i (ps_held s)) = card (ps_fetching s) + card (ps_held s)"
  proof -
    have "i \<notin> ps_held s" using deliver(2) assms(1) by (auto simp: par_inv_def)
    then have "card (insert i (ps_held s)) = Suc (card (ps_held s))" using par_inv_finite [OF assms(1)] by simp
    moreover have "card (ps_fetching s) = Suc (card (ps_fetching s - {i}))"
      using deliver(2) par_inv_finite [OF assms(1)] by (metis card.remove)
    ultimately show ?thesis by simp
  qed
  with deliver assms(1) show ?thesis
    by (auto simp: par_inv_def)
next
  case write_next
  then have "card (ps_held s - {ps_written s}) \<le> card (ps_held s)" by (simp add: card_Diff_singleton)
  moreover have "ps_written s < ps_handed s"
    using write_next(2) assms(1) by (auto simp: par_inv_def set_eq_iff)
  moreover have "ps_fetching s \<union> (ps_held s - {ps_written s}) = {Suc (ps_written s)..<ps_handed s}"
  proof -
    have "ps_fetching s \<union> (ps_held s - {ps_written s}) = (ps_fetching s \<union> ps_held s) - {ps_written s}"
      using write_next(2) assms(1) by (auto simp: par_inv_def)
    also have "\<dots> = {Suc (ps_written s)..<ps_handed s}" using assms(1) by (auto simp: par_inv_def)
    finally show ?thesis .
  qed
  ultimately show ?thesis using write_next assms(1)
    by (auto simp: par_inv_def)
qed

interpretation par: invariant_proof par_init "par_step n k" "par_inv n k" for n k
proof
  show "par_init s \<Longrightarrow> par_inv n k s" for s by (simp add: par_init_def par_inv_def)
qed (rule par_inv_step)

section \<open>Properties\<close>

text \<open>\<open>buildDownloadChunkJobs\<close> splits a byte range into requests that Telegram accepts and that
  together yield exactly that range: every request is aligned to 1 KiB, asks for between 1 byte and one
  fragment window and stays inside one 1 MiB window; the parts the jobs keep are the bytes from the
  first to the last of the range, each once and in order; the jobs are numbered consecutively.\<close>

theorem chunk_jobs_partition_range:
  assumes "0 \<le> start"
  shows "(\<forall>j \<in> set (buildDownloadChunkJobs start end). request_ok (job_req j)
           \<and> 0 \<le> job_skip j \<and> 0 < job_take j \<and> job_skip j + job_take j \<le> cr_limit (job_req j))
    \<and> concat (map (\<lambda>j. [job_first j..job_last j]) (buildDownloadChunkJobs start end)) = [start..end]
    \<and> map job_index (buildDownloadChunkJobs start end) = [0..<length (buildDownloadChunkJobs start end)]"
proof (cases "end < start")
  case True
  then show ?thesis by (simp add: buildDownloadChunkJobs_def)
next
  case False
  with chunk_jobs_props [OF assms, of "end" 0] show ?thesis
    by (auto simp: buildDownloadChunkJobs_def list_all_iff job_ok_def)
qed

theorem chunk_jobs_partition_range_witness:
  "concat (map (\<lambda>j. [job_first j..job_last j]) (buildDownloadChunkJobs 1048570 1048580)) = [1048570..1048580]
   \<and> length (buildDownloadChunkJobs 1048570 1048580) = 2"
proof -
  have "length (buildDownloadChunkJobs 1048570 1048580) = 2" by code_simp
  with chunk_jobs_partition_range [of 1048570 1048580] show ?thesis by simp
qed

text \<open>Fetching one chunk always comes to an end once Telegram stops asking to wait: after five
  attempts that were not answered by a flood wait or a Telegram timeout the loop has returned, however
  many such waits were in between.\<close>

theorem fetch_chunk_returns:
  assumes "5 \<le> length (filter (\<lambda>a. \<not> postponed a) as)"
  shows "\<exists>res ev. fetchTelegramMediaChunk content rq as = Some (res, ev)"
  unfolding fetchTelegramMediaChunk_def
  using assms by (intro fetch_attempts_bounded) (auto simp: chunkRetryBaseDelay_def delays_def)

definition sample_attempt :: attempt where
  "sample_attempt = \<lparr>at_lease = None, at_ctx = None, at_flood = False, at_err = None, at_timeout = False,
     at_net_timeout = False, at_resp = UploadFile 0, at_sleep = None\<rparr>"

theorem fetch_chunk_returns_witness:
  "\<exists>res ev. fetchTelegramMediaChunk ''abc'' \<lparr>cr_offset = 0, cr_limit = 1024\<rparr> (replicate 5 sample_attempt)
     = Some (res, ev)"
  by (rule fetch_chunk_returns) (simp add: postponed_def sample_attempt_def numeral_eq_Suc)

text \<open>While a chunk is fetched, a permit of the scheduler is held for one \<open>upload.getFile\<close> call at a
  time and never during a backoff sleep, and the sleeps are an initial part of 250 ms, 500 ms, 1 s, 2 s.\<close>

theorem permit_covers_one_call:
  assumes "fetchTelegramMediaChunk content rq as = Some (res, ev)"
  shows "permit_ok False ev
    \<and> prefix (sleeps ev) [250 * millisecond, 500 * millisecond, 1 * second, 2 * second]"
  using fetch_attempts_events [of content rq as 0 chunkRetryBaseDelay res ev] assms
  by (simp add: fetchTelegramMediaChunk_def chunkRetryBaseDelay_def delays_def)

theorem permit_covers_one_call_witness:
  "permit_ok False (snd (the (fetchTelegramMediaChunk ''abc'' \<lparr>cr_offset = 0, cr_limit = 1024\<rparr>
     (replicate 5 sample_attempt))))"
proof -
  have "fetchTelegramMediaChunk ''abc'' \<lparr>cr_offset = 0, cr_limit = 1024\<rparr> (replicate 5 sample_attempt)
     \<noteq> None" by code_simp
  then obtain res ev where f: "fetchTelegramMediaChunk ''abc'' \<lparr>cr_offset = 0, cr_limit = 1024\<rparr>
     (replicate 5 sample_attempt) = Some (res, ev)" by auto
  with permit_covers_one_call [OF f] show ?thesis by simp
qed


definition sample_turns :: "nat \<Rightarrow> nat \<Rightarrow> nat turn list" where
  "sample_turns k i = [\<lparr>tn_source = \<lparr>ms_media = Some 0, ms_refresh = True\<rparr>,
     tn_attempts = [sample_attempt\<lparr>at_resp := UploadFile 1024\<rparr>], tn_refresh_set = True,
     tn_refresh_source = \<lparr>ms_media = Some 0, ms_refresh = True\<rparr>, tn_answer = Inr None\<rparr>]"

definition sample_tg_env :: environment where
  "sample_tg_env = sample_env\<lparr>en_open := (\<lambda>t. Inr
     (\<lparr>rr_id = t, rr_file_name = ''f'', rr_size = 5, rr_available = True\<rparr>,
      telegram_transport (\<lambda>_. None) ''hello'' sample_turns (\<lambda>_ _. None) (\<lambda>_. [(2, None)]) (\<lambda>_. None) None
        (\<lambda>_. None), True))\<rparr>"

lemma en_open_sample: "en_open sample_tg_env t = Inr
     (\<lparr>rr_id = t, rr_file_name = ''f'', rr_size = 5, rr_available = True\<rparr>,
      telegram_transport (\<lambda>_. None) ''hello'' sample_turns (\<lambda>_ _. None) (\<lambda>_. [(2, None)]) (\<lambda>_. None) None
        (\<lambda>_. None), True)"
  by (simp add: sample_tg_env_def)


text \<open>C31: the parallel stream writes the same bytes as the requested range whatever the order in which
  its workers deliver: when it returns without an error, the writer has received exactly the range.\<close>

theorem parallel_stream_reorders:
  assumes "0 \<le> start" and "start \<le> end" and "distinct arrivals"
    and "streamTelegramMediaParallel tgerr_as content turns arrivals groupErr start end w = (None, w')"
  shows "wr_out w' = wr_out w @ slice content start end"
proof -
  let ?js = "chunk_jobs start end 0"
  obtain c where co: "collect \<lparr>co_pending = [], co_next = 0, co_writer = w\<rparr>
      (List.map_filter (delivered tgerr_as content turns ?js) arrivals) = (None, c)"
    and c: "co_next c = length ?js" "w' = co_writer c"
    using assms chunk_jobs_nonempty [OF assms(2), of 0]
    by (auto simp: streamTelegramMediaParallel_def buildDownloadChunkJobs_def
             split: prod.splits option.splits if_splits)
  from parallel_collects [OF co assms(3,1)] c show ?thesis
    using concat_slices [OF assms(1,2), of content 0]
    by (simp add: collector_inv_def map_slices_nth)
qed

theorem parallel_stream_reorders_witness:
  "wr_out (snd (streamTelegramMediaParallel (\<lambda>_. None) ''hello'' (sample_turns 0) [0] None 1 3
     \<lparr>wr_out = [], wr_script = []\<rparr>)) = [] @ slice ''hello'' 1 3"
proof -
  have "fst (streamTelegramMediaParallel (\<lambda>_. None) ''hello'' (sample_turns 0) [0] None 1 3
     \<lparr>wr_out = [], wr_script = []\<rparr>) = None" by code_simp
  then obtain w' where "streamTelegramMediaParallel (\<lambda>_. None) ''hello'' (sample_turns 0) [0] None 1 3
     \<lparr>wr_out = [], wr_script = []\<rparr> = (None, w')" by (metis prod.collapse)
  from parallel_stream_reorders [OF _ _ _ this] this show ?thesis by simp
qed

text \<open>C20: the parallel stream succeeds: when every chunk is fetched, in whatever order the workers
  deliver them, the group reports no error and the writer accepts what it is given, it returns without
  an error and has written exactly the requested range.\<close>

theorem parallel_stream_completes:
  assumes "0 \<le> start" and "start \<le> end" and "wr_script w = []"
    and "distinct arrivals" and "set arrivals = {..<length (buildDownloadChunkJobs start end)}"
    and "\<forall>j \<in> set (buildDownloadChunkJobs start end). \<exists>d. chunk_data tgerr_as content turns j = Some (Inr d)"
  shows "\<exists>w'. streamTelegramMediaParallel tgerr_as content turns arrivals None start end w = (None, w')
    \<and> wr_out w' = wr_out w @ slice content start end"
proof -
  let ?js = "chunk_jobs start end 0"
  let ?rs = "List.map_filter (delivered tgerr_as content turns ?js) arrivals"
  have js: "buildDownloadChunkJobs start end = ?js" using assms(2) by (simp add: buildDownloadChunkJobs_def)
  obtain c where co: "collect \<lparr>co_pending = [], co_next = 0, co_writer = w\<rparr> ?rs = (None, c)"
    using collect_accepting [of "\<lparr>co_pending = [], co_next = 0, co_writer = w\<rparr>" ?rs] assms(3) by auto
  have "set (keys ?rs) = {..<length ?js}"
    using map_filter_delivered_all [of arrivals ?js tgerr_as content turns] assms(5,6) js by simp
  with parallel_collects [OF co assms(4,1)] have "collector_inv (wr_out w)
      (\<lambda>i. slice content (job_first (?js ! i)) (job_last (?js ! i))) {..<length ?js} c"
    and "co_next c \<notin> set (keys (co_pending c))" by simp_all
  note c = this
  have n: "co_next c = length ?js" by (rule collector_inv_complete [OF c])
  with c(1) have out: "wr_out (co_writer c) = wr_out w @ slice content start end"
    using concat_slices [OF assms(1,2), of content 0] by (simp add: collector_inv_def map_slices_nth)
  have "streamTelegramMediaParallel tgerr_as content turns arrivals None start end w = (None, co_writer c)"
    using co n chunk_jobs_nonempty [OF assms(2), of 0] assms(2) js
    by (simp add: streamTelegramMediaParallel_def)
  with out show ?thesis by blast
qed

theorem parallel_stream_completes_witness:
  "\<exists>w'. streamTelegramMediaParallel (\<lambda>_. None) ''hello'' (sample_turns 0) [0] None 1 3
     \<lparr>wr_out = [], wr_script = []\<rparr> = (None, w') \<and> wr_out w' = ''ell''"
proof -
  have js: "buildDownloadChunkJobs 1 3 = [chunk_job 1 3 0]" by code_simp
  have ok: "(case chunk_data (\<lambda>_. None) ''hello'' (sample_turns 0) (chunk_job 1 3 0) of Some (Inr d) \<Rightarrow> True | _ \<Rightarrow> False)"
    by code_simp
  have "slice ''hello'' 1 3 = ''ell''" by code_simp
  then show ?thesis
    using parallel_stream_completes [of 1 3 "\<lparr>wr_out = [], wr_script = []\<rparr>" "[0]" "\<lambda>_. None" "''hello''" "sample_turns 0"] ok
    by (auto simp: js split: option.splits sum.splits)
qed



end
