(* ===== verification/Scheduler.thy ===== *)
theory Scheduler
  imports Prelude "HOL-Library.Monad_Syntax"
begin

text \<open>
  The download scheduler of \<open>bsw/ecual/comif\<close> (\<open>scheduler.go\<close>, \<open>file_limiter.go\<close>): a global limit on
  active files and, per Telegram DC, a fixed number of chunk lanes handed out by file in FIFO order.
  Every critical section of the source is a function on the scheduler's store (\<open>None\<close> is a panic: a
  channel closed twice or an over-release). Goroutines inside \<open>Acquire\<close>, \<open>AcquireChunk\<close> and
  \<open>Release\<close> are values of \<open>call\<close>, each at one of its blocking points, and interleave freely.
\<close>

section \<open>State\<close>

text \<open>
  Pointers to \<open>taskState\<close> and \<open>chunkWaiter\<close> are addresses; \<open>sc_alloc\<close>, \<open>sc_walloc\<close> and \<open>sc_calloc\<close>
  are the next free ones. A channel that is only ever closed is whether it has been closed.
\<close>

record taskState =
  ts_taskID :: string
  ts_dc :: int
  ts_refs :: nat
  ts_active :: bool
  ts_activating :: "nat option"
  ts_inFlight :: nat
  ts_waiters :: "nat list"

record dcState =
  dc_tasks :: "nat list"
  dc_inFlight :: nat

record chunkWaiter =
  cw_ready :: bool
  cw_granted :: bool
  cw_canceled :: bool

text \<open>The limiter's \<open>changed\<close> channel is replaced at every signal: its generation.\<close>

record fileLimiter =
  fl_limit :: nat
  fl_used :: nat
  fl_changed :: nat

record scheduler =
  sc_tokens :: fileLimiter
  sc_capacity :: nat
  sc_files :: "string \<rightharpoonup> nat"
  sc_dcs :: "int \<rightharpoonup> dcState"
  sc_state :: "nat \<Rightarrow> taskState"
  sc_alloc :: nat
  sc_waiter :: "nat \<Rightarrow> chunkWaiter"
  sc_walloc :: nat
  sc_chan :: "nat \<Rightarrow> bool"
  sc_calloc :: nat

definition normalizeLimit :: "int \<Rightarrow> nat" where
  "normalizeLimit v = (if v < 1 then 1 else nat v)"

definition newFileLimiter :: "nat \<Rightarrow> fileLimiter" where
  "newFileLimiter l = \<lparr>fl_limit = l, fl_used = 0, fl_changed = 0\<rparr>"

definition newTaskState :: "string \<Rightarrow> int \<Rightarrow> taskState" where
  "newTaskState tid dc = \<lparr>ts_taskID = tid, ts_dc = dc, ts_refs = 0, ts_active = False,
     ts_activating = None, ts_inFlight = 0, ts_waiters = []\<rparr>"

definition newScheduler :: "int \<Rightarrow> int \<Rightarrow> scheduler" where
  "newScheduler maxFiles perDCCapacity =
     \<lparr>sc_tokens = newFileLimiter (normalizeLimit maxFiles), sc_capacity = normalizeLimit perDCCapacity,
      sc_files = Map.empty, sc_dcs = Map.empty,
      sc_state = (\<lambda>_. newTaskState [] 0), sc_alloc = 0,
      sc_waiter = (\<lambda>_. \<lparr>cw_ready = False, cw_granted = False, cw_canceled = False\<rparr>), sc_walloc = 0,
      sc_chan = (\<lambda>_. False), sc_calloc = 0\<rparr>"

definition upd_state :: "nat \<Rightarrow> (taskState \<Rightarrow> taskState) \<Rightarrow> scheduler \<Rightarrow> scheduler" where
  "upd_state a f s = s\<lparr>sc_state := (sc_state s)(a := f (sc_state s a))\<rparr>"

definition upd_waiter :: "nat \<Rightarrow> (chunkWaiter \<Rightarrow> chunkWaiter) \<Rightarrow> scheduler \<Rightarrow> scheduler" where
  "upd_waiter w f s = s\<lparr>sc_waiter := (sc_waiter s)(w := f (sc_waiter s w))\<rparr>"

lemma upd_state_simps [simp]:
  "sc_tokens (upd_state a f s) = sc_tokens s"
  "sc_capacity (upd_state a f s) = sc_capacity s"
  "sc_files (upd_state a f s) = sc_files s"
  "sc_dcs (upd_state a f s) = sc_dcs s"
  "sc_alloc (upd_state a f s) = sc_alloc s"
  "sc_walloc (upd_state a f s) = sc_walloc s"
  "sc_chan (upd_state a f s) = sc_chan s"
  "sc_calloc (upd_state a f s) = sc_calloc s"
  "sc_waiter (upd_state a f s) = sc_waiter s"
  "sc_state (upd_state a f s) = (sc_state s)(a := f (sc_state s a))"
  by (simp_all add: upd_state_def)

lemma upd_waiter_simps [simp]:
  "sc_tokens (upd_waiter w f s) = sc_tokens s"
  "sc_capacity (upd_waiter w f s) = sc_capacity s"
  "sc_files (upd_waiter w f s) = sc_files s"
  "sc_dcs (upd_waiter w f s) = sc_dcs s"
  "sc_alloc (upd_waiter w f s) = sc_alloc s"
  "sc_walloc (upd_waiter w f s) = sc_walloc s"
  "sc_chan (upd_waiter w f s) = sc_chan s"
  "sc_calloc (upd_waiter w f s) = sc_calloc s"
  "sc_state (upd_waiter w f s) = sc_state s"
  "sc_waiter (upd_waiter w f s) = (sc_waiter s)(w := f (sc_waiter s w))"
  by (simp_all add: upd_waiter_def)

section \<open>The file limiter\<close>

definition signal_limiter :: "fileLimiter \<Rightarrow> fileLimiter" where
  "signal_limiter l = l\<lparr>fl_changed := Suc (fl_changed l)\<rparr>"

text \<open>One turn of the loop of \<open>acquire\<close> with a live context: a token, or the channel to wait on.\<close>

definition limiter_acquire :: "fileLimiter \<Rightarrow> nat + fileLimiter" where
  "limiter_acquire l = (if fl_used l < fl_limit l then Inr (l\<lparr>fl_used := Suc (fl_used l)\<rparr>) else Inl (fl_changed l))"

definition limiter_release :: "fileLimiter \<Rightarrow> fileLimiter option" where
  "limiter_release l = (if fl_used l = 0 then None else Some (signal_limiter (l\<lparr>fl_used := fl_used l - 1\<rparr>)))"

definition limiter_resize :: "nat \<Rightarrow> fileLimiter \<Rightarrow> fileLimiter" where
  "limiter_resize n l = signal_limiter (l\<lparr>fl_limit := n\<rparr>)"

definition release_token :: "scheduler \<Rightarrow> scheduler option" where
  "release_token s = map_option (\<lambda>l. s\<lparr>sc_tokens := l\<rparr>) (limiter_release (sc_tokens s))"

section \<open>Dispatch\<close>

definition pruneCanceledWaiters :: "nat \<Rightarrow> scheduler \<Rightarrow> scheduler" where
  "pruneCanceledWaiters a s =
     upd_state a (\<lambda>t. t\<lparr>ts_waiters := dropWhile (\<lambda>w. cw_canceled (sc_waiter s w)) (ts_waiters t)\<rparr>) s"

fun pop_live :: "(nat \<Rightarrow> bool) \<Rightarrow> nat list \<Rightarrow> nat option \<times> nat list" where
  "pop_live canceled [] = (None, [])"
| "pop_live canceled (w # ws) = (if canceled w then pop_live canceled ws else (Some w, ws))"

definition popWaiter :: "nat \<Rightarrow> scheduler \<Rightarrow> nat option \<times> scheduler" where
  "popWaiter a s =
     (case pop_live (\<lambda>w. cw_canceled (sc_waiter s w)) (ts_waiters (sc_state s a)) of
        (w, ws) \<Rightarrow> (w, upd_state a (\<lambda>t. t\<lparr>ts_waiters := ws\<rparr>) s))"

fun first_waiter :: "nat list \<Rightarrow> scheduler \<Rightarrow> (nat \<times> nat option) option \<times> scheduler" where
  "first_waiter [] s = (None, s)"
| "first_waiter (a # as) s =
     (let s1 = pruneCanceledWaiters a s
      in if ts_waiters (sc_state s1 a) \<noteq> []
         then (case popWaiter a s1 of (w, s2) \<Rightarrow> (Some (a, w), s2))
         else first_waiter as s1)"

definition firstFileWaiter :: "dcState \<Rightarrow> scheduler \<Rightarrow> (nat \<times> nat option) option \<times> scheduler" where
  "firstFileWaiter dc s = first_waiter (dc_tasks dc) s"

definition close_ready :: "nat \<Rightarrow> scheduler \<Rightarrow> scheduler option" where
  "close_ready w s = (if cw_ready (sc_waiter s w) then None else Some (upd_waiter w (\<lambda>c. c\<lparr>cw_ready := True\<rparr>) s))"

definition grant :: "int \<Rightarrow> dcState \<Rightarrow> nat \<Rightarrow> nat \<Rightarrow> scheduler \<Rightarrow> scheduler option" where
  "grant d dc a w s =
     close_ready w
       (upd_state a (\<lambda>t. t\<lparr>ts_inFlight := Suc (ts_inFlight t)\<rparr>)
         (upd_waiter w (\<lambda>c. c\<lparr>cw_granted := True\<rparr>)
           (s\<lparr>sc_dcs := (sc_dcs s)(d \<mapsto> dc\<lparr>dc_inFlight := Suc (dc_inFlight dc)\<rparr>)\<rparr>)))"

lemma popWaiter_frame [simp]:
  "sc_dcs (snd (popWaiter a s)) = sc_dcs s" "sc_capacity (snd (popWaiter a s)) = sc_capacity s"
  by (simp_all add: popWaiter_def split: prod.split)

lemma pruneCanceledWaiters_frame [simp]:
  "sc_dcs (pruneCanceledWaiters a s) = sc_dcs s" "sc_capacity (pruneCanceledWaiters a s) = sc_capacity s"
  by (simp_all add: pruneCanceledWaiters_def)

lemma first_waiter_frame:
  "sc_dcs (snd (first_waiter as s)) = sc_dcs s \<and> sc_capacity (snd (first_waiter as s)) = sc_capacity s"
proof (induction as arbitrary: s)
  case (Cons a as)
  obtain w s2 where p: "popWaiter a (pruneCanceledWaiters a s) = (w, s2)" by fastforce
  have "sc_dcs s2 = sc_dcs s" "sc_capacity s2 = sc_capacity s"
    using popWaiter_frame [of a "pruneCanceledWaiters a s"] p by simp_all
  with Cons [of "pruneCanceledWaiters a s"] p show ?case by simp
qed simp

text \<open>The loop of \<open>dispatchLocked\<close> over the lanes of DC \<open>d\<close>.\<close>

function dispatch_loop :: "int \<Rightarrow> scheduler \<Rightarrow> scheduler option" where
  "dispatch_loop d s =
     (case sc_dcs s d of
        None \<Rightarrow> Some s
      | Some dc \<Rightarrow>
          if dc_inFlight dc < sc_capacity s
          then (case firstFileWaiter dc s of
                  (Some (a, Some w), s1) \<Rightarrow>
                    (case grant d dc a w s1 of
                       None \<Rightarrow> None
                     | Some s2 \<Rightarrow> dispatch_loop d s2)
                | (_, s1) \<Rightarrow> Some s1)
          else Some s)"
  by pat_completeness auto
termination
proof (relation "measure (\<lambda>(d, s). sc_capacity s - (case sc_dcs s d of None \<Rightarrow> 0 | Some dc \<Rightarrow> dc_inFlight dc))",
    goal_cases)
  case (2 d s dc x s1 p a y w s2)
  then have "sc_dcs s2 d = Some (dc\<lparr>dc_inFlight := Suc (dc_inFlight dc)\<rparr>)" "sc_capacity s2 = sc_capacity s1"
    by (auto simp: grant_def close_ready_def split: if_splits)
  moreover have "sc_capacity s1 = sc_capacity s"
    using 2 first_waiter_frame [of "dc_tasks dc" s] by (metis firstFileWaiter_def snd_conv)
  ultimately show ?case using 2 by simp
qed simp

declare dispatch_loop.simps [simp del]

definition dispatchLocked :: "int \<Rightarrow> scheduler \<Rightarrow> scheduler option" where
  "dispatchLocked d s =
     (case sc_dcs s d of
        None \<Rightarrow> Some s
      | Some dc \<Rightarrow> if dc_tasks dc = [] then Some s else dispatch_loop d s)"

definition dcLocked :: "int \<Rightarrow> scheduler \<Rightarrow> dcState \<times> scheduler" where
  "dcLocked d s =
     (case sc_dcs s d of
        Some dc \<Rightarrow> (dc, s)
      | None \<Rightarrow> (let dc = \<lparr>dc_tasks = [], dc_inFlight = 0\<rparr> in (dc, s\<lparr>sc_dcs := (sc_dcs s)(d \<mapsto> dc)\<rparr>)))"

definition removeActiveTaskLocked :: "nat \<Rightarrow> scheduler \<Rightarrow> scheduler option" where
  "removeActiveTaskLocked a s =
     (let t = sc_state s a;
          s1 = (case sc_dcs s (ts_dc t) of
                  None \<Rightarrow> s
                | Some dc \<Rightarrow> s\<lparr>sc_dcs := (sc_dcs s)(ts_dc t \<mapsto> dc\<lparr>dc_tasks := remove1 a (dc_tasks dc)\<rparr>)\<rparr>);
          s2 = upd_state a (\<lambda>t. t\<lparr>ts_active := False\<rparr>) s1
      in dispatchLocked (ts_dc t) (s2\<lparr>sc_files := (sc_files s2)(ts_taskID t := None)\<rparr>))"

definition releaseChunkLocked :: "nat \<Rightarrow> scheduler \<Rightarrow> scheduler option" where
  "releaseChunkLocked a s =
     (let t = sc_state s a
      in case sc_dcs s (ts_dc t) of
           None \<Rightarrow> None
         | Some dc \<Rightarrow>
             if ts_inFlight t < 1 \<or> dc_inFlight dc < 1 then None
             else (let s1 = upd_state a (\<lambda>t. t\<lparr>ts_inFlight := ts_inFlight t - 1\<rparr>)
                              (s\<lparr>sc_dcs := (sc_dcs s)(ts_dc t \<mapsto> dc\<lparr>dc_inFlight := dc_inFlight dc - 1\<rparr>)\<rparr>)
                   in if ts_refs (sc_state s1 a) = 0 \<and> ts_inFlight (sc_state s1 a) = 0
                      then removeActiveTaskLocked a s1 \<bind> release_token
                      else dispatchLocked (ts_dc t) s1))"

text \<open>The loop of \<open>releaseTask\<close> over the waiters of a task whose last lease is released.\<close>

fun cancel_waiters :: "nat list \<Rightarrow> scheduler \<Rightarrow> scheduler option" where
  "cancel_waiters [] s = Some s"
| "cancel_waiters (w # ws) s =
     (if cw_canceled (sc_waiter s w) then cancel_waiters ws s
      else close_ready w (upd_waiter w (\<lambda>c. c\<lparr>cw_canceled := True\<rparr>) s) \<bind> cancel_waiters ws)"

section \<open>Calls in progress\<close>

text \<open>
  A goroutine between two critical sections. \<open>Looping\<close> is the head of the loop of \<open>acquireTask\<close>
  with the registered state, \<open>WaitReady\<close> waits for another activation, \<open>GetToken\<close> and \<open>TokenWait\<close>
  are inside the file limiter, \<open>GotToken\<close> and \<open>FailToken\<close> are about to complete the activation,
  \<open>Releasing\<close> is about to run \<open>releaseTask\<close>, \<open>FreeToken\<close> to return a file token. \<open>Leased\<close> and
  \<open>ChunkLeased\<close> are leases that were returned and not yet released.
\<close>

datatype call =
    Looping string int "nat option"
  | WaitReady string int nat nat
  | GetToken string int nat nat
  | TokenWait string int nat nat nat
  | GotToken string int nat nat
  | FailToken nat nat
  | Releasing nat
  | FreeToken
  | Leased nat
  | ChunkWaiting nat nat
  | ChunkLeased nat

text \<open>The critical section of \<open>acquireTask\<close>, with \<open>registered\<close> the state this call holds a reference on.\<close>

definition acquire_locked :: "string \<Rightarrow> int \<Rightarrow> nat option \<Rightarrow> scheduler \<Rightarrow> scheduler \<times> call list" where
  "acquire_locked tid dc registered s =
     (let (a, s1) = (case sc_files s tid of
                       Some a \<Rightarrow> (a, s)
                     | None \<Rightarrow> (sc_alloc s,
                         upd_state (sc_alloc s) (\<lambda>_. newTaskState tid dc)
                           (s\<lparr>sc_alloc := Suc (sc_alloc s), sc_files := (sc_files s)(tid \<mapsto> sc_alloc s)\<rparr>)))
      in if ts_dc (sc_state s1 a) \<noteq> dc then (s1, if registered \<noteq> None then [Releasing a] else [])
         else (let s2 = (if registered = None then upd_state a (\<lambda>t. t\<lparr>ts_refs := Suc (ts_refs t)\<rparr>) s1 else s1);
                   t = sc_state s2 a
               in if ts_active t then (s2, [Leased a])
                  else case ts_activating t of
                         Some ready \<Rightarrow> (s2, [WaitReady tid dc a ready])
                       | None \<Rightarrow>
                           (upd_state a (\<lambda>t. t\<lparr>ts_activating := Some (sc_calloc s2)\<rparr>)
                              (s2\<lparr>sc_calloc := Suc (sc_calloc s2)\<rparr>),
                            [GetToken tid dc a (sc_calloc s2)])))"

definition close_chan :: "nat \<Rightarrow> scheduler \<Rightarrow> scheduler option" where
  "close_chan ch s = (if sc_chan s ch then None else Some (s\<lparr>sc_chan := (sc_chan s)(ch := True)\<rparr>))"

definition append_task :: "int \<Rightarrow> nat \<Rightarrow> scheduler \<Rightarrow> scheduler" where
  "append_task d a s =
     (case dcLocked d s of
        (dc, s1) \<Rightarrow> s1\<lparr>sc_dcs := (sc_dcs s1)(d \<mapsto> dc\<lparr>dc_tasks := dc_tasks dc @ [a]\<rparr>)\<rparr>)"

definition completeActivation :: "nat \<Rightarrow> nat \<Rightarrow> bool \<Rightarrow> scheduler \<Rightarrow> (scheduler \<times> call list) option" where
  "completeActivation a ready success s =
     (let t = sc_state s a
      in if sc_files s (ts_taskID t) \<noteq> Some a \<or> ts_activating t \<noteq> Some ready
         then Some (s, if success then [FreeToken] else [])
         else (let s1 = upd_state a (\<lambda>t. t\<lparr>ts_activating := None\<rparr>) s
               in (if success
                   then dispatchLocked (ts_dc t)
                          (append_task (ts_dc t) a (upd_state a (\<lambda>t. t\<lparr>ts_active := True\<rparr>) s1))
                   else Some s1)
                  \<bind> close_chan ready \<bind> (\<lambda>s. Some (s, []))))"

definition releaseTask :: "nat \<Rightarrow> scheduler \<Rightarrow> (scheduler \<times> call list) option" where
  "releaseTask a s =
     (let t = sc_state s a
      in if sc_files s (ts_taskID t) = Some a \<and> 0 < ts_refs t
         then (let s1 = upd_state a (\<lambda>t. t\<lparr>ts_refs := ts_refs t - 1\<rparr>) s
               in if ts_refs (sc_state s1 a) = 0
                  then cancel_waiters (ts_waiters t) s1 \<bind> (\<lambda>s2.
                         (let s3 = upd_state a (\<lambda>t. t\<lparr>ts_waiters := []\<rparr>) s2
                          in if ts_active t \<and> ts_inFlight t = 0
                             then removeActiveTaskLocked a s3 \<bind> (\<lambda>s4. Some (s4, [FreeToken]))
                             else if \<not> ts_active t \<and> ts_activating t = None
                             then Some (s3\<lparr>sc_files := (sc_files s3)(ts_taskID t := None)\<rparr>, [])
                             else Some (s3, [])))
                  else Some (s1, []))
         else Some (s, []))"

text \<open>The first critical section of \<open>AcquireChunk\<close> (the context's error is \<open>ctx\<close>).\<close>

definition acquireChunk :: "ctx \<Rightarrow> nat \<Rightarrow> scheduler \<Rightarrow> (scheduler \<times> call list) option" where
  "acquireChunk ctx a s =
     (if ctx \<noteq> None then Some (s, [])
      else if \<not> ts_active (sc_state s a) \<or> ts_refs (sc_state s a) < 1 then Some (s, [])
      else (let w = sc_walloc s;
                s1 = upd_waiter w (\<lambda>_. \<lparr>cw_ready = False, cw_granted = False, cw_canceled = False\<rparr>)
                       (s\<lparr>sc_walloc := Suc w\<rparr>);
                s2 = upd_state a (\<lambda>t. t\<lparr>ts_waiters := ts_waiters t @ [w]\<rparr>) s1
            in dispatchLocked (ts_dc (sc_state s a)) s2 \<bind> (\<lambda>s3. Some (s3, [ChunkWaiting a w]))))"

text \<open>Its two branches after the \<open>select\<close>: the waiter is ready, or the context is done.\<close>

definition chunk_ready :: "ctx \<Rightarrow> nat \<Rightarrow> nat \<Rightarrow> scheduler \<Rightarrow> (scheduler \<times> call list) option" where
  "chunk_ready ctx a w s =
     (let granted = cw_granted (sc_waiter s w)
      in (if granted \<and> ctx \<noteq> None then releaseChunkLocked a s else Some s) \<bind> (\<lambda>s1.
           Some (s1, if ctx \<noteq> None \<or> \<not> granted then [] else [ChunkLeased a])))"

definition chunk_canceled :: "nat \<Rightarrow> nat \<Rightarrow> scheduler \<Rightarrow> (scheduler \<times> call list) option" where
  "chunk_canceled a w s =
     (if cw_granted (sc_waiter s w) then releaseChunkLocked a s
      else dispatchLocked (ts_dc (sc_state s a)) (upd_waiter w (\<lambda>c. c\<lparr>cw_canceled := True\<rparr>) s))
     \<bind> (\<lambda>s1. Some (s1, []))"

fun dispatch_all :: "int list \<Rightarrow> scheduler \<Rightarrow> scheduler option" where
  "dispatch_all [] s = Some s"
| "dispatch_all (d # ds) s = dispatchLocked d s \<bind> dispatch_all ds"

text \<open>\<open>Reconfigure\<close>; \<open>ids\<close> is the order in which Go ranges over the map of DCs.\<close>

definition reconfigure :: "int \<Rightarrow> int \<Rightarrow> int list \<Rightarrow> scheduler \<Rightarrow> scheduler option" where
  "reconfigure maxFiles perDCCapacity ids s =
     dispatch_all ids (s\<lparr>sc_capacity := normalizeLimit perDCCapacity,
                        sc_tokens := limiter_resize (normalizeLimit maxFiles) (sc_tokens s)\<rparr>)"

text \<open>
  What a goroutine does next: the outcomes of its next critical section or \<open>select\<close>, each with the
  calls it leaves behind. At every point where the source looks at the context, both a live and a
  finished context are possible.
\<close>

fun call_next :: "scheduler \<Rightarrow> call \<Rightarrow> (scheduler \<times> call list) option list" where
  "call_next s (Looping tid dc registered) =
     [Some (s, case registered of None \<Rightarrow> [] | Some a \<Rightarrow> [Releasing a]),
      Some (acquire_locked tid dc registered s)]"
| "call_next s (WaitReady tid dc a ready) =
     Some (s, [Releasing a]) # (if sc_chan s ready then [Some (s, [Looping tid dc (Some a)])] else [])"
| "call_next s (GetToken tid dc a ready) =
     [Some (s, [FailToken a ready]),
      Some (case limiter_acquire (sc_tokens s) of
              Inr l \<Rightarrow> (s\<lparr>sc_tokens := l\<rparr>, [GotToken tid dc a ready])
            | Inl changed \<Rightarrow> (s, [TokenWait tid dc a ready changed]))]"
| "call_next s (TokenWait tid dc a ready changed) =
     Some (s, [FailToken a ready])
     # (if changed \<noteq> fl_changed (sc_tokens s) then [Some (s, [GetToken tid dc a ready])] else [])"
| "call_next s (GotToken tid dc a ready) =
     [completeActivation a ready True s \<bind> (\<lambda>(s1, cs). Some (s1, Looping tid dc (Some a) # cs))]"
| "call_next s (FailToken a ready) =
     [completeActivation a ready False s \<bind> (\<lambda>(s1, cs). Some (s1, Releasing a # cs))]"
| "call_next s (Releasing a) = [releaseTask a s]"
| "call_next s FreeToken = [release_token s \<bind> (\<lambda>s1. Some (s1, []))]"
| "call_next s (Leased a) = [Some (s, [Releasing a])]"
| "call_next s (ChunkWaiting a w) =
     chunk_canceled a w s
     # (if cw_ready (sc_waiter s w) then [chunk_ready None a w s, chunk_ready (Some Canceled) a w s] else [])"
| "call_next s (ChunkLeased a) = [releaseChunkLocked a s \<bind> (\<lambda>s1. Some (s1, []))]"

text \<open>
  The whole program: \<open>None\<close> after a panic, otherwise the scheduler and the calls in progress. New
  calls of \<open>Acquire\<close>, of \<open>AcquireChunk\<close> on any lease ever returned, and of \<open>Reconfigure\<close> within
  \<open>M\<close> files and \<open>C\<close> lanes, may come at any time.
\<close>

type_synonym sched_conf = "(scheduler \<times> call multiset) option"

inductive sched_step :: "nat \<Rightarrow> nat \<Rightarrow> sched_conf \<Rightarrow> sched_conf \<Rightarrow> bool" for M C where
  acquire: "tid \<noteq> [] \<Longrightarrow> sched_step M C (Some (s, m)) (Some (s, add_mset (Looping tid dc None) m))"
| acquire_chunk: "a < sc_alloc s \<Longrightarrow>
    sched_step M C (Some (s, m)) (acquireChunk ctx a s \<bind> (\<lambda>(s', cs). Some (s', m + mset cs)))"
| run: "r \<in> set (call_next s c) \<Longrightarrow>
    sched_step M C (Some (s, add_mset c m)) (r \<bind> (\<lambda>(s', cs). Some (s', m + mset cs)))"
| reconf: "normalizeLimit maxFiles \<le> M \<Longrightarrow> normalizeLimit perDC \<le> C \<Longrightarrow> set ids = dom (sc_dcs s) \<Longrightarrow>
    sched_step M C (Some (s, m)) (reconfigure maxFiles perDC ids s \<bind> (\<lambda>s'. Some (s', m)))"

definition sched_init :: "nat \<Rightarrow> nat \<Rightarrow> sched_conf \<Rightarrow> bool" where
  "sched_init M C c \<longleftrightarrow> (\<exists>maxFiles perDC. normalizeLimit maxFiles \<le> M \<and> normalizeLimit perDC \<le> C
     \<and> c = Some (newScheduler maxFiles perDC, {#}))"

section \<open>What dispatching does\<close>

text \<open>The lane is free and its first pending waiter is granted: one turn of the dispatch loop.\<close>

definition granted_state :: "int \<Rightarrow> dcState \<Rightarrow> nat \<Rightarrow> nat \<Rightarrow> nat list \<Rightarrow> scheduler \<Rightarrow> scheduler" where
  "granted_state d dc a w ws s =
     s\<lparr>sc_dcs := (sc_dcs s)(d \<mapsto> dc\<lparr>dc_inFlight := Suc (dc_inFlight dc)\<rparr>),
       sc_state := (sc_state s)(a := (sc_state s a)\<lparr>ts_waiters := ws, ts_inFlight := Suc (ts_inFlight (sc_state s a))\<rparr>),
       sc_waiter := (sc_waiter s)(w := (sc_waiter s w)\<lparr>cw_granted := True, cw_ready := True\<rparr>)\<rparr>"

lemma pop_live_head: "\<not> f (hd ws) \<Longrightarrow> ws \<noteq> [] \<Longrightarrow> pop_live f ws = (Some (hd ws), tl ws)"
  by (cases ws) auto

lemma first_waiter_run:
  assumes "P s" "set as \<subseteq> A"
    and prune: "\<And>s a. P s \<Longrightarrow> a \<in> A \<Longrightarrow> P (pruneCanceledWaiters a s)"
    and "first_waiter as s = (r, s1)"
  shows "(r = None \<and> P s1 \<and> (\<forall>a \<in> set as. ts_waiters (sc_state s1 a) = [])
            \<and> (\<forall>a. ts_waiters (sc_state s a) = [] \<longrightarrow> ts_waiters (sc_state s1 a) = []))
    \<or> (\<exists>a w ws s0. r = Some (a, Some w) \<and> a \<in> A \<and> a \<in> set as \<and> P s0 \<and> ts_waiters (sc_state s0 a) = w # ws
          \<and> \<not> cw_canceled (sc_waiter s0 w) \<and> s1 = upd_state a (\<lambda>t. t\<lparr>ts_waiters := ws\<rparr>) s0)"
  using assms(1,2,4)
proof (induction as arbitrary: s)
  case (Cons a as)
  let ?s = "pruneCanceledWaiters a s"
  have P: "P ?s" using prune Cons.prems by simp
  have ws: "ts_waiters (sc_state ?s a) = dropWhile (\<lambda>w. cw_canceled (sc_waiter ?s w)) (ts_waiters (sc_state s a))"
    by (simp add: pruneCanceledWaiters_def)
  show ?case
  proof (cases "ts_waiters (sc_state ?s a)")
    case Nil
    have keep: "ts_waiters (sc_state s b) = [] \<Longrightarrow> ts_waiters (sc_state ?s b) = []" for b
      by (auto simp: pruneCanceledWaiters_def)
    from Nil Cons.prems(3) have fw: "first_waiter as ?s = (r, s1)" by simp
    from Cons.prems(2) have sub: "set as \<subseteq> A" by simp
    from Cons.IH [OF P sub fw] show ?thesis
    proof (elim disjE)
      assume *: "r = None \<and> P s1 \<and> (\<forall>a\<in>set as. ts_waiters (sc_state s1 a) = []) \<and>
        (\<forall>a. ts_waiters (sc_state ?s a) = [] \<longrightarrow> ts_waiters (sc_state s1 a) = [])"
      then have "ts_waiters (sc_state s1 a) = []" using Nil by blast
      with * keep show ?thesis by auto
    qed auto
  next
    case (Cons w ws')
    with ws have "\<not> cw_canceled (sc_waiter ?s w)"
      by (metis dropWhile_eq_Cons_conv)
    moreover from Cons \<open>first_waiter (a # as) s = (r, s1)\<close> this
    have "r = Some (a, Some w)" "s1 = upd_state a (\<lambda>t. t\<lparr>ts_waiters := ws'\<rparr>) ?s"
      by (auto simp: popWaiter_def pop_live_head)
    ultimately show ?thesis using P Cons \<open>set (a # as) \<subseteq> A\<close> by (intro disjI2) auto
  qed
qed simp

definition dc_load :: "scheduler \<Rightarrow> int \<Rightarrow> nat" where
  "dc_load s d = (case sc_dcs s d of None \<Rightarrow> 0 | Some dc \<Rightarrow> dc_inFlight dc)"

definition tasks_of :: "scheduler \<Rightarrow> int \<Rightarrow> nat list" where
  "tasks_of s d = (case sc_dcs s d of None \<Rightarrow> [] | Some dc \<Rightarrow> dc_tasks dc)"

definition conserving :: "scheduler \<Rightarrow> int \<Rightarrow> bool" where
  "conserving s d \<longleftrightarrow> (dc_load s d < sc_capacity s \<longrightarrow>
     (\<forall>a \<in> set (tasks_of s d). \<forall>w \<in> set (ts_waiters (sc_state s a)). cw_canceled (sc_waiter s w)))"

lemmas conserving_defs = conserving_def dc_load_def tasks_of_def

text \<open>
  The rule of the dispatcher: what pruning and granting keep, dispatching keeps; it does not panic when
  no queued waiter's channel is closed; and afterwards the DC is work-conserving.
\<close>

lemma dispatch_loop_rule:
  assumes "P s" "sc_dcs s d = Some dc" "dc_tasks dc = as"
    and prune: "\<And>s a. P s \<Longrightarrow> a \<in> set as \<Longrightarrow> P (pruneCanceledWaiters a s)"
    and grant: "\<And>s a w ws dc. \<lbrakk>P s; a \<in> set as; sc_dcs s d = Some dc; dc_tasks dc = as; ts_waiters (sc_state s a) = w # ws;
        \<not> cw_canceled (sc_waiter s w); dc_inFlight dc < sc_capacity s\<rbrakk>
      \<Longrightarrow> \<not> cw_ready (sc_waiter s w) \<and> P (granted_state d dc a w ws s)"
  shows "\<exists>s'. dispatch_loop d s = Some s' \<and> P s' \<and> conserving s' d"
  using assms
proof (induction d s arbitrary: dc rule: dispatch_loop.induct)
  case (1 d s)
  note prune = 1(5) and grant = 1(6)
  show ?case
  proof (cases "dc_inFlight dc < sc_capacity s")
    case False
    with 1(2-4) show ?thesis by (simp add: dispatch_loop.simps [of d s] conserving_defs)
  next
    case True
    obtain r s1 where fw: "first_waiter as s = (r, s1)" by fastforce
    have fr: "sc_dcs s1 = sc_dcs s" "sc_capacity s1 = sc_capacity s"
      using first_waiter_frame [of as s] fw by simp_all
    from first_waiter_run [where P = "\<lambda>t. P t \<and> sc_dcs t = sc_dcs s \<and> sc_capacity t = sc_capacity s", OF _ subset_refl _ fw]
      1(2) prune
    consider (none) "r = None" "P s1" "\<forall>a \<in> set as. ts_waiters (sc_state s1 a) = []"
      | (some) a w ws s0 where "r = Some (a, Some w)" "a \<in> set as" "P s0" "ts_waiters (sc_state s0 a) = w # ws"
          "\<not> cw_canceled (sc_waiter s0 w)" "s1 = upd_state a (\<lambda>t. t\<lparr>ts_waiters := ws\<rparr>) s0"
          "sc_dcs s0 = sc_dcs s" "sc_capacity s0 = sc_capacity s"
      by (auto simp del: fun_upd_apply)
    then show ?thesis
    proof cases
      case none
      with fw True 1(3,4) fr show ?thesis
        by (simp add: dispatch_loop.simps [of d s] firstFileWaiter_def conserving_defs)
    next
      case some
      let ?s2 = "granted_state d dc a w ws s0"
      from grant [OF some(3,2) _ _ some(4,5)] some 1(3,4) True
      have g: "\<not> cw_ready (sc_waiter s0 w)" "P ?s2" by auto
      then have gr: "grant d dc a w s1 = Some ?s2"
        by (simp add: grant_def close_ready_def granted_state_def some(6) upd_state_def upd_waiter_def)
      have ff: "firstFileWaiter dc s = (Some (a, Some w), s1)"
        using fw some(1) 1(4) by (simp add: firstFileWaiter_def)
      have dcs: "sc_dcs ?s2 d = Some (dc\<lparr>dc_inFlight := Suc (dc_inFlight dc)\<rparr>)"
        "dc_tasks (dc\<lparr>dc_inFlight := Suc (dc_inFlight dc)\<rparr>) = as"
        using 1(4) by (simp_all add: granted_state_def)
      have "\<exists>s'. dispatch_loop d ?s2 = Some s' \<and> P s' \<and> conserving s' d"
        by (rule 1(1) [OF 1(3) True ff [symmetric] refl refl refl gr g(2) dcs prune grant])
      with gr ff True 1(3) show ?thesis by (simp add: dispatch_loop.simps [of d s])
    qed
  qed
qed

lemma dispatchLocked_rule:
  assumes "P s"
    and "\<And>s a dc. P s \<Longrightarrow> sc_dcs s d = Some dc \<Longrightarrow> a \<in> set (dc_tasks dc) \<Longrightarrow> P (pruneCanceledWaiters a s)"
    and "\<And>s a w ws dc. \<lbrakk>P s; sc_dcs s d = Some dc; a \<in> set (dc_tasks dc); ts_waiters (sc_state s a) = w # ws;
        \<not> cw_canceled (sc_waiter s w); dc_inFlight dc < sc_capacity s\<rbrakk>
      \<Longrightarrow> \<not> cw_ready (sc_waiter s w) \<and> P (granted_state d dc a w ws s)"
  shows "\<exists>s'. dispatchLocked d s = Some s' \<and> P s' \<and> conserving s' d"
proof (cases "sc_dcs s d")
  case None
  with assms(1) show ?thesis by (simp add: dispatchLocked_def conserving_defs)
next
  case (Some dc)
  let ?P = "\<lambda>s. P s \<and> (\<exists>dc'. sc_dcs s d = Some dc' \<and> dc_tasks dc' = dc_tasks dc)"
  have "\<exists>s'. dispatch_loop d s = Some s' \<and> ?P s' \<and> conserving s' d"
  proof (rule dispatch_loop_rule [where P = ?P, OF _ Some refl])
    show "?P (pruneCanceledWaiters a s)" if "?P s" "a \<in> set (dc_tasks dc)" for s a
      using that assms(2) by auto
    show "\<not> cw_ready (sc_waiter s w) \<and> ?P (granted_state d dc' a w ws s)"
      if "?P s" "a \<in> set (dc_tasks dc)" "sc_dcs s d = Some dc'" "dc_tasks dc' = dc_tasks dc"
        "ts_waiters (sc_state s a) = w # ws" "\<not> cw_canceled (sc_waiter s w)" "dc_inFlight dc' < sc_capacity s"
      for s a w ws dc'
      using that assms(3) [of s dc' a w ws] by (auto simp: granted_state_def)
  qed (use assms(1) Some in simp)
  with Some assms(1) show ?thesis
    by (cases "dc_tasks dc = []") (auto simp: dispatchLocked_def conserving_defs)
qed

section \<open>The invariant\<close>

text \<open>The task a call holds a reference on, the activation it performs, its waiter, its lane.\<close>

fun ref_of :: "call \<Rightarrow> nat option" where
  "ref_of (Looping tid dc r) = r"
| "ref_of (WaitReady tid dc a ch) = Some a"
| "ref_of (GetToken tid dc a ch) = Some a"
| "ref_of (TokenWait tid dc a ch g) = Some a"
| "ref_of (GotToken tid dc a ch) = Some a"
| "ref_of (FailToken a ch) = Some a"
| "ref_of (Releasing a) = Some a"
| "ref_of (Leased a) = Some a"
| "ref_of _ = None"

fun act_of :: "call \<Rightarrow> (nat \<times> nat) option" where
  "act_of (GetToken tid dc a ch) = Some (a, ch)"
| "act_of (TokenWait tid dc a ch g) = Some (a, ch)"
| "act_of (GotToken tid dc a ch) = Some (a, ch)"
| "act_of (FailToken a ch) = Some (a, ch)"
| "act_of _ = None"

fun waiter_of :: "call \<Rightarrow> nat option" where
  "waiter_of (ChunkWaiting a w) = Some w"
| "waiter_of _ = None"

fun lane_of :: "(nat \<Rightarrow> chunkWaiter) \<Rightarrow> call \<Rightarrow> nat option" where
  "lane_of wt (ChunkLeased a) = Some a"
| "lane_of wt (ChunkWaiting a w) = (if cw_granted (wt w) then Some a else None)"
| "lane_of wt _ = None"

fun has_token :: "call \<Rightarrow> bool" where
  "has_token (GotToken tid dc a ch) = True"
| "has_token FreeToken = True"
| "has_token _ = False"

definition holders :: "call multiset \<Rightarrow> nat \<Rightarrow> nat" where
  "holders m a = size {#c \<in># m. ref_of c = Some a#}"

definition lanes :: "(nat \<Rightarrow> chunkWaiter) \<Rightarrow> call multiset \<Rightarrow> nat \<Rightarrow> nat" where
  "lanes wt m a = size {#c \<in># m. lane_of wt c = Some a#}"

definition activators :: "call multiset \<Rightarrow> nat \<Rightarrow> nat" where
  "activators m a = size {#c \<in># m. map_option fst (act_of c) = Some a#}"

definition tokens_held :: "call multiset \<Rightarrow> nat" where
  "tokens_held m = size {#c \<in># m. has_token c#}"

definition task_load :: "(nat \<Rightarrow> taskState) \<Rightarrow> nat \<Rightarrow> int \<Rightarrow> nat" where
  "task_load st n d = (\<Sum>a<n. if ts_dc (st a) = d then ts_inFlight (st a) else 0)"

definition active_tasks :: "(nat \<Rightarrow> taskState) \<Rightarrow> nat \<Rightarrow> nat" where
  "active_tasks st n = (\<Sum>a<n. if ts_active (st a) then 1 else 0)"

definition refs_inv :: "scheduler \<Rightarrow> call multiset \<Rightarrow> bool" where
  "refs_inv s m \<longleftrightarrow> (\<forall>a. ts_refs (sc_state s a) = holders m a)"

definition lane_inv :: "scheduler \<Rightarrow> call multiset \<Rightarrow> bool" where
  "lane_inv s m \<longleftrightarrow> (\<forall>a. ts_inFlight (sc_state s a) = lanes (sc_waiter s) m a)
     \<and> (\<forall>d. dc_load s d = task_load (sc_state s) (sc_alloc s) d)"

definition file_inv :: "scheduler \<Rightarrow> bool" where
  "file_inv s \<longleftrightarrow> (\<forall>a \<ge> sc_alloc s. sc_state s a = newTaskState [] 0)
     \<and> (\<forall>tid a. sc_files s tid = Some a \<longrightarrow> a < sc_alloc s \<and> ts_taskID (sc_state s a) = tid)
     \<and> (\<forall>a. 0 < ts_refs (sc_state s a) \<or> ts_active (sc_state s a) \<or> ts_activating (sc_state s a) \<noteq> None
            \<longrightarrow> sc_files s (ts_taskID (sc_state s a)) = Some a)"

definition task_ok :: "taskState \<Rightarrow> bool" where
  "task_ok t \<longleftrightarrow> (0 < ts_inFlight t \<longrightarrow> ts_active t) \<and> (ts_waiters t \<noteq> [] \<longrightarrow> ts_active t \<and> 0 < ts_refs t)
     \<and> (ts_active t \<longrightarrow> ts_activating t = None \<and> (0 < ts_refs t \<or> 0 < ts_inFlight t))"

definition queue_inv :: "scheduler \<Rightarrow> bool" where
  "queue_inv s \<longleftrightarrow> (\<forall>d. distinct (tasks_of s d)
     \<and> (\<forall>a. a \<in> set (tasks_of s d) \<longleftrightarrow> ts_active (sc_state s a) \<and> ts_dc (sc_state s a) = d))"

definition act_inv :: "(nat \<Rightarrow> bool) \<Rightarrow> scheduler \<Rightarrow> call multiset \<Rightarrow> bool" where
  "act_inv closed s m \<longleftrightarrow>
     (\<forall>a ch. ts_activating (sc_state s a) = Some ch \<longrightarrow> ch < sc_calloc s \<and> \<not> closed ch)
     \<and> (\<forall>a b ch. ts_activating (sc_state s a) = Some ch \<and> ts_activating (sc_state s b) = Some ch \<longrightarrow> a = b)
     \<and> (\<forall>a. activators m a = (if ts_activating (sc_state s a) = None then 0 else 1))
     \<and> (\<forall>c a ch. c \<in># m \<and> act_of c = Some (a, ch) \<longrightarrow> ts_activating (sc_state s a) = Some ch)
     \<and> (\<forall>tid dc a ch. WaitReady tid dc a ch \<in># m \<longrightarrow>
          ch < sc_calloc s \<and> (closed ch \<or> ts_activating (sc_state s a) = Some ch))
     \<and> (\<forall>ch \<ge> sc_calloc s. \<not> closed ch)"

definition token_inv :: "scheduler \<Rightarrow> call multiset \<Rightarrow> bool" where
  "token_inv s m \<longleftrightarrow>
     fl_used (sc_tokens s) = active_tasks (sc_state s) (sc_alloc s) + tokens_held m
     \<and> (\<forall>tid dc a ch g. TokenWait tid dc a ch g \<in># m \<longrightarrow> g \<le> fl_changed (sc_tokens s)
          \<and> (g = fl_changed (sc_tokens s) \<longrightarrow> fl_limit (sc_tokens s) \<le> fl_used (sc_tokens s)))"

fun call_ok :: "(nat \<Rightarrow> taskState) \<Rightarrow> call \<Rightarrow> bool" where
  "call_ok st (Looping tid dc (Some a)) \<longleftrightarrow> ts_taskID (st a) = tid \<and> ts_dc (st a) = dc"
| "call_ok st (WaitReady tid dc a ch) \<longleftrightarrow> ts_taskID (st a) = tid \<and> ts_dc (st a) = dc"
| "call_ok st (GetToken tid dc a ch) \<longleftrightarrow> ts_taskID (st a) = tid \<and> ts_dc (st a) = dc"
| "call_ok st (TokenWait tid dc a ch g) \<longleftrightarrow> ts_taskID (st a) = tid \<and> ts_dc (st a) = dc"
| "call_ok st (GotToken tid dc a ch) \<longleftrightarrow> ts_taskID (st a) = tid \<and> ts_dc (st a) = dc"
| "call_ok st _ \<longleftrightarrow> True"

definition call_inv :: "scheduler \<Rightarrow> call multiset \<Rightarrow> bool" where
  "call_inv s m \<longleftrightarrow> (\<forall>c. c \<in># m \<longrightarrow> call_ok (sc_state s) c)"

lemma call_ok_cong:
  assumes "\<And>b. ref_of c = Some b \<Longrightarrow> ts_taskID (st' b) = ts_taskID (st b) \<and> ts_dc (st' b) = ts_dc (st b)"
  shows "call_ok st' c = call_ok st c"
  using assms by (cases "(st, c)" rule: call_ok.cases) auto

definition sole_waiter :: "call multiset \<Rightarrow> nat \<Rightarrow> nat \<Rightarrow> bool" where
  "sole_waiter m a w \<longleftrightarrow> {#c \<in># m. waiter_of c = Some w#} = {#ChunkWaiting a w#}"

definition wait_inv :: "scheduler \<Rightarrow> call multiset \<Rightarrow> bool" where
  "wait_inv s m \<longleftrightarrow>
     (\<forall>a w. w \<in> set (ts_waiters (sc_state s a)) \<longrightarrow> w < sc_walloc s
        \<and> \<not> cw_ready (sc_waiter s w) \<and> \<not> cw_granted (sc_waiter s w)
        \<and> (\<not> cw_canceled (sc_waiter s w) \<longrightarrow> sole_waiter m a w))
     \<and> (\<forall>a. distinct (ts_waiters (sc_state s a)))
     \<and> (\<forall>a b w. w \<in> set (ts_waiters (sc_state s a)) \<and> w \<in> set (ts_waiters (sc_state s b)) \<longrightarrow> a = b)
     \<and> (\<forall>a w. ChunkWaiting a w \<in># m \<longrightarrow> w < sc_walloc s \<and> sole_waiter m a w
        \<and> (cw_ready (sc_waiter s w)
           \<or> w \<in> set (ts_waiters (sc_state s a)) \<and> \<not> cw_canceled (sc_waiter s w) \<and> \<not> cw_granted (sc_waiter s w)))"

lemma wait_invI:
  assumes "\<And>a w. w \<in> set (ts_waiters (sc_state s a)) \<Longrightarrow> w < sc_walloc s \<and> \<not> cw_ready (sc_waiter s w)
      \<and> \<not> cw_granted (sc_waiter s w) \<and> (\<not> cw_canceled (sc_waiter s w) \<longrightarrow> sole_waiter m a w)"
    and "\<And>a. distinct (ts_waiters (sc_state s a))"
    and "\<And>a b w. w \<in> set (ts_waiters (sc_state s a)) \<Longrightarrow> w \<in> set (ts_waiters (sc_state s b)) \<Longrightarrow> a = b"
    and "\<And>a w. ChunkWaiting a w \<in># m \<Longrightarrow> w < sc_walloc s \<and> sole_waiter m a w \<and> (cw_ready (sc_waiter s w)
      \<or> w \<in> set (ts_waiters (sc_state s a)) \<and> \<not> cw_canceled (sc_waiter s w) \<and> \<not> cw_granted (sc_waiter s w))"
  shows "wait_inv s m"
  using assms unfolding wait_inv_def by blast

lemma wait_invD:
  assumes "wait_inv s m"
  shows "w \<in> set (ts_waiters (sc_state s a)) \<Longrightarrow> w < sc_walloc s \<and> \<not> cw_ready (sc_waiter s w)
      \<and> \<not> cw_granted (sc_waiter s w) \<and> (\<not> cw_canceled (sc_waiter s w) \<longrightarrow> sole_waiter m a w)"
    and "distinct (ts_waiters (sc_state s a))"
    and "w \<in> set (ts_waiters (sc_state s a)) \<Longrightarrow> w \<in> set (ts_waiters (sc_state s b)) \<Longrightarrow> a = b"
    and "ChunkWaiting a w \<in># m \<Longrightarrow> w < sc_walloc s \<and> sole_waiter m a w \<and> (cw_ready (sc_waiter s w)
      \<or> w \<in> set (ts_waiters (sc_state s a)) \<and> \<not> cw_canceled (sc_waiter s w) \<and> \<not> cw_granted (sc_waiter s w))"
  using assms unfolding wait_inv_def by blast+

definition bounds_inv :: "nat \<Rightarrow> nat \<Rightarrow> scheduler \<Rightarrow> bool" where
  "bounds_inv M C s \<longleftrightarrow> fl_used (sc_tokens s) \<le> M \<and> fl_limit (sc_tokens s) \<le> M \<and> 0 < fl_limit (sc_tokens s)
     \<and> sc_capacity s \<le> C \<and> 0 < sc_capacity s \<and> (\<forall>d. dc_load s d \<le> C)"

lemmas inv_defs = refs_inv_def lane_inv_def file_inv_def queue_inv_def act_inv_def token_inv_def wait_inv_def
  bounds_inv_def

definition core_inv :: "nat \<Rightarrow> nat \<Rightarrow> (nat \<Rightarrow> bool) \<Rightarrow> scheduler \<Rightarrow> call multiset \<Rightarrow> bool" where
  "core_inv M C closed s m \<longleftrightarrow> refs_inv s m \<and> lane_inv s m \<and> file_inv s \<and> (\<forall>a. task_ok (sc_state s a))
     \<and> queue_inv s \<and> act_inv closed s m \<and> token_inv s m \<and> wait_inv s m \<and> bounds_inv M C s \<and> call_inv s m"

subsection \<open>Granting keeps the invariant\<close>

lemma sum_upd:
  fixes f g :: "nat \<Rightarrow> nat"
  assumes "a < n" "\<And>i. i \<noteq> a \<Longrightarrow> g i = f i"
  shows "(\<Sum>i<n. g i) + f a = (\<Sum>i<n. f i) + g a"
proof -
  have "(\<Sum>i<n. g i) = g a + (\<Sum>i \<in> {..<n} - {a}. g i)" "(\<Sum>i<n. f i) = f a + (\<Sum>i \<in> {..<n} - {a}. f i)"
    using assms(1) by (simp_all add: sum.remove)
  moreover have "(\<Sum>i \<in> {..<n} - {a}. g i) = (\<Sum>i \<in> {..<n} - {a}. f i)"
    using assms(2) by (intro sum.cong) auto
  ultimately show ?thesis by simp
qed

lemma task_load_upd:
  assumes "a < n" "ts_dc t = ts_dc (st a)"
  shows "task_load (st(a := t)) n d + (if ts_dc (st a) = d then ts_inFlight (st a) else 0)
    = task_load st n d + (if ts_dc (st a) = d then ts_inFlight t else 0)"
  using sum_upd [OF assms(1), of "\<lambda>b. if ts_dc ((st(a := t)) b) = d then ts_inFlight ((st(a := t)) b) else 0"
      "\<lambda>b. if ts_dc (st b) = d then ts_inFlight (st b) else 0"] assms(2)
  unfolding task_load_def by simp

lemma active_tasks_upd:
  assumes "a < n"
  shows "active_tasks (st(a := t)) n + (if ts_active (st a) then 1 else 0)
    = active_tasks st n + (if ts_active t then 1 else 0)"
  using sum_upd [OF assms, of "\<lambda>b. if ts_active ((st(a := t)) b) then 1 else 0"
      "\<lambda>b. if ts_active (st b) then 1 else 0"]
  unfolding active_tasks_def by simp

lemma task_load_cong:
  "(\<And>b. ts_dc (st' b) = ts_dc (st b)) \<Longrightarrow> (\<And>b. ts_inFlight (st' b) = ts_inFlight (st b)) \<Longrightarrow>
    task_load st' n d = task_load st n d"
  by (simp add: task_load_def cong: if_cong)

lemma active_tasks_cong:
  "(\<And>b. ts_active (st' b) = ts_active (st b)) \<Longrightarrow> active_tasks st' n = active_tasks st n"
  by (simp add: active_tasks_def)

lemma task_allocated: "file_inv s \<Longrightarrow> sc_state s a \<noteq> newTaskState [] 0 \<Longrightarrow> a < sc_alloc s"
  by (metis file_inv_def not_le)

lemma active_allocated: "file_inv s \<Longrightarrow> ts_active (sc_state s a) \<Longrightarrow> a < sc_alloc s"
  by (rule task_allocated) (auto simp: newTaskState_def)

lemma lanes_grant:
  assumes "sole_waiter m a w" "\<not> cw_granted (wt w)" "cw_granted c"
  shows "lanes (wt(w := c)) m b = lanes wt m b + (if b = a then 1 else 0)"
proof -
  have split: "lanes f m b = size {#c \<in># {#ChunkWaiting a w#}. lane_of f c = Some b#}
      + size {#c \<in># {#c \<in># m. waiter_of c \<noteq> Some w#}. lane_of f c = Some b#}" for f
    using assms(1) unfolding lanes_def sole_waiter_def
    by (subst multiset_partition [of m "\<lambda>c. waiter_of c = Some w"]) simp
  have "{#c \<in># {#c \<in># m. waiter_of c \<noteq> Some w#}. lane_of (wt(w := c')) c = Some b#}
      = {#c \<in># {#c \<in># m. waiter_of c \<noteq> Some w#}. lane_of wt c = Some b#}" for c'
    by (rule filter_mset_cong0) (auto elim!: lane_of.elims split: if_splits)
  then show ?thesis using assms(2,3) by (simp add: split)
qed

lemma prune_state:
  "sc_state (pruneCanceledWaiters a s) = (sc_state s)(a := (sc_state s a)\<lparr>ts_waiters :=
     dropWhile (\<lambda>w. cw_canceled (sc_waiter s w)) (ts_waiters (sc_state s a))\<rparr>)"
  "sc_tokens (pruneCanceledWaiters a s) = sc_tokens s" "sc_files (pruneCanceledWaiters a s) = sc_files s"
  "sc_alloc (pruneCanceledWaiters a s) = sc_alloc s" "sc_waiter (pruneCanceledWaiters a s) = sc_waiter s"
  "sc_walloc (pruneCanceledWaiters a s) = sc_walloc s" "sc_chan (pruneCanceledWaiters a s) = sc_chan s"
  "sc_calloc (pruneCanceledWaiters a s) = sc_calloc s"
  by (simp_all add: pruneCanceledWaiters_def)

lemma in_dropWhile: "w \<in> set ws \<Longrightarrow> \<not> f w \<Longrightarrow> w \<in> set (dropWhile f ws)"
  by (induction ws) auto

lemma dc_load_prune: "dc_load (pruneCanceledWaiters a s) d = dc_load s d"
  by (simp add: dc_load_def)

lemma core_prune:
  assumes "core_inv M C closed s m"
  shows "core_inv M C closed (pruneCanceledWaiters a s) m"
proof -
  let ?s = "pruneCanceledWaiters a s"
  have nil: "ts_waiters (sc_state s b) \<noteq> []" if "ts_waiters (sc_state ?s b) \<noteq> []" for b
    using that by (auto simp: prune_state split: if_splits)
  have sub: "w \<in> set (ts_waiters (sc_state s b))" if "w \<in> set (ts_waiters (sc_state ?s b))" for b w
    using that by (auto simp: prune_state split: if_splits dest: set_dropWhileD)
  have same: "sc_state ?s b = (sc_state s b)\<lparr>ts_waiters := ts_waiters (sc_state ?s b)\<rparr>" for b
    by (simp add: prune_state)
  have eq: "ts_refs (sc_state ?s b) = ts_refs (sc_state s b)" "ts_active (sc_state ?s b) = ts_active (sc_state s b)"
    "ts_activating (sc_state ?s b) = ts_activating (sc_state s b)" "ts_dc (sc_state ?s b) = ts_dc (sc_state s b)"
    "ts_inFlight (sc_state ?s b) = ts_inFlight (sc_state s b)" "ts_taskID (sc_state ?s b) = ts_taskID (sc_state s b)" for b
    by (simp_all add: prune_state)
  from assms have c: "refs_inv s m" "lane_inv s m" "file_inv s" "task_ok (sc_state s b)" "queue_inv s"
    "act_inv closed s m" "token_inv s m" "wait_inv s m" "bounds_inv M C s" "call_inv s m" for b by (simp_all add: core_inv_def)
  have "refs_inv ?s m" using c(1) by (simp add: refs_inv_def eq)
  moreover have "lane_inv ?s m" using c(2) by (simp add: lane_inv_def eq dc_load_prune prune_state(4,5) task_load_cong [of "sc_state ?s", OF eq(4,5)])
  moreover have "file_inv ?s"
  proof -
    have "sc_state ?s b = newTaskState [] 0" if "sc_alloc s \<le> b" for b
      using c(3) that by (simp add: file_inv_def prune_state(1)) (auto simp: newTaskState_def)
    then show ?thesis using c(3) by (simp add: file_inv_def eq prune_state(3,4))
  qed
  moreover have "task_ok (sc_state ?s b)" for b
    using c(4) [of b] nil [of b] by (auto simp: task_ok_def eq)
  moreover have "queue_inv ?s" using c(5) by (simp add: queue_inv_def eq tasks_of_def)
  moreover have "act_inv closed ?s m" using c(6) by (simp add: act_inv_def eq prune_state(8))
  moreover have "token_inv ?s m" using c(7) by (auto simp: token_inv_def prune_state(2,4) active_tasks_cong [of "sc_state ?s", OF eq(2)])
  moreover have "wait_inv ?s m"
  proof -
    have "distinct (ts_waiters (sc_state ?s b))" for b
      using c(8) by (simp add: wait_inv_def prune_state(1) distinct_dropWhile)
    moreover have "w \<in> set (ts_waiters (sc_state ?s b))"
      if "w \<in> set (ts_waiters (sc_state s b))" "\<not> cw_canceled (sc_waiter s w)" for b w
      using that by (auto simp: prune_state(1) in_dropWhile)
    ultimately show ?thesis using c(8) sub unfolding wait_inv_def prune_state(5,6) by blast
  qed
  moreover have "bounds_inv M C ?s" using c(9) by (simp add: bounds_inv_def dc_load_prune prune_state(2))
  moreover have "call_inv ?s m" using c(10) call_ok_cong [of _ "sc_state ?s" "sc_state s"] eq(4,6) by (simp add: call_inv_def)
  ultimately show ?thesis by (simp add: core_inv_def)
qed

lemma core_grant:
  assumes "core_inv M C closed s m" "sc_dcs s d = Some dc" "a \<in> set (dc_tasks dc)"
    "ts_waiters (sc_state s a) = w # ws" "\<not> cw_canceled (sc_waiter s w)" "dc_inFlight dc < sc_capacity s"
  shows "\<not> cw_ready (sc_waiter s w) \<and> core_inv M C closed (granted_state d dc a w ws s) m"
proof -
  let ?s = "granted_state d dc a w ws s"
  from assms(1) have c: "refs_inv s m" "lane_inv s m" "file_inv s" "\<And>b. task_ok (sc_state s b)" "queue_inv s"
    "act_inv closed s m" "token_inv s m" "wait_inv s m" "bounds_inv M C s" "call_inv s m" by (simp_all add: core_inv_def)
  have st: "sc_state ?s b = (sc_state s b)\<lparr>ts_waiters := (if b = a then ws else ts_waiters (sc_state s b)),
      ts_inFlight := ts_inFlight (sc_state s b) + (if b = a then 1 else 0)\<rparr>" for b
    by (simp add: granted_state_def)
  have eq: "ts_refs (sc_state ?s b) = ts_refs (sc_state s b)" "ts_active (sc_state ?s b) = ts_active (sc_state s b)"
    "ts_activating (sc_state ?s b) = ts_activating (sc_state s b)" "ts_dc (sc_state ?s b) = ts_dc (sc_state s b)"
    "ts_taskID (sc_state ?s b) = ts_taskID (sc_state s b)" for b
    by (simp_all add: st)
  have fr: "sc_alloc ?s = sc_alloc s" "sc_files ?s = sc_files s" "sc_tokens ?s = sc_tokens s" "sc_walloc ?s = sc_walloc s"
    "sc_calloc ?s = sc_calloc s" "sc_capacity ?s = sc_capacity s"
    "sc_dcs ?s = (sc_dcs s)(d \<mapsto> dc\<lparr>dc_inFlight := Suc (dc_inFlight dc)\<rparr>)"
    "sc_waiter ?s = (sc_waiter s)(w := (sc_waiter s w)\<lparr>cw_granted := True, cw_ready := True\<rparr>)"
    by (simp_all add: granted_state_def)
  have load: "dc_load ?s e = dc_load s e + (if e = d then 1 else 0)" for e
    using assms(2) by (simp add: dc_load_def fr)
  have a: "ts_active (sc_state s a)" "ts_dc (sc_state s a) = d" using c(5) assms(2,3) unfolding queue_inv_def by (metis option.simps(5) tasks_of_def)+
  have al: "a < sc_alloc s" using active_allocated [OF c(3) a(1)] .
  have w: "w \<in> set (ts_waiters (sc_state s a))" using assms(4) by simp
  then have w': "\<not> cw_ready (sc_waiter s w)" "\<not> cw_granted (sc_waiter s w)" "sole_waiter m a w" "w < sc_walloc s"
    using c(8) assms(5) unfolding wait_inv_def by blast+
  have "refs_inv ?s m" using c(1) by (simp add: refs_inv_def eq)
  moreover have "lane_inv ?s m"
  proof -
    have "lanes (sc_waiter ?s) m b = lanes (sc_waiter s) m b + (if b = a then 1 else 0)" for b
      using lanes_grant [where wt = "sc_waiter s", OF w'(3,2)] by (simp add: fr)
    moreover have "dc_load ?s e = task_load (sc_state ?s) (sc_alloc s) e" for e
    proof -
      have upd: "sc_state ?s = (sc_state s)(a := sc_state ?s a)" by (simp add: granted_state_def)
      from task_load_upd [OF al, of "sc_state ?s a" "sc_state s" e] a(2)
      moreover have "ts_inFlight (sc_state ?s a) = Suc (ts_inFlight (sc_state s a))" by (simp add: st)
      ultimately have "task_load (sc_state ?s) (sc_alloc s) e = task_load (sc_state s) (sc_alloc s) e + (if e = d then 1 else 0)"
        unfolding upd [symmetric] by (auto simp: eq split: if_splits)
      with c(2) load show ?thesis by (simp add: lane_inv_def)
    qed
    ultimately show ?thesis using c(2) by (simp add: lane_inv_def st fr)
  qed
  moreover have "file_inv ?s"
  proof -
    have "sc_state ?s b = newTaskState [] 0" if "sc_alloc s \<le> b" for b
      using c(3) that al by (simp add: file_inv_def granted_state_def)
    then show ?thesis using c(3) by (simp add: file_inv_def eq fr)
  qed
  moreover have "task_ok (sc_state ?s b)" for b
    using c(4) [of b] a assms(4) by (auto simp: task_ok_def st)
  moreover have "queue_inv ?s"
  proof -
    have "tasks_of ?s e = tasks_of s e" for e using assms(2) by (simp add: tasks_of_def fr)
    with c(5) show ?thesis by (simp add: queue_inv_def eq)
  qed
  moreover have "act_inv closed ?s m" using c(6) by (simp add: act_inv_def eq fr)
  moreover have "token_inv ?s m" using c(7) by (auto simp: token_inv_def fr active_tasks_cong [of "sc_state ?s", OF eq(2)])
  moreover have "wait_inv ?s m"
  proof -
    have ws: "set (ts_waiters (sc_state ?s b)) = set (ts_waiters (sc_state s b)) - {w}" for b
    proof (cases "b = a")
      case True
      moreover have "distinct (w # ws)" using c(8) assms(4) by (metis wait_inv_def)
      ultimately show ?thesis using assms(4) by (auto simp: st)
    next
      case False
      moreover have "w \<notin> set (ts_waiters (sc_state s b))" using False w c(8) unfolding wait_inv_def by blast
      ultimately show ?thesis by (simp add: st)
    qed
    have "distinct (ts_waiters (sc_state ?s b))" for b
      using c(8) assms(4) wait_inv_def [of s m] by (simp add: st) (metis distinct.simps(2))
    note dist = this
    show ?thesis
    proof (rule wait_invI, goal_cases)
      case (1 b v)
      with wait_invD(1) [OF c(8), of v b] show ?case by (simp add: ws fr)
    next
      case (2 b)
      show ?case by (rule dist)
    next
      case (3 b b' v)
      with wait_invD(3) [OF c(8), of v b b'] show ?case by (simp add: ws)
    next
      case (4 b v)
      with wait_invD(4) [OF c(8), of b v] show ?case by (auto simp: ws fr)
    qed
  qed
  moreover have "bounds_inv M C ?s"
  proof -
    have "dc_load s d < C" using assms(2,6) c(9) by (simp add: dc_load_def bounds_inv_def)
    then show ?thesis using c(9) by (simp add: bounds_inv_def load fr)
  qed
  moreover have "call_inv ?s m" using c(10) call_ok_cong [of _ "sc_state ?s" "sc_state s"] eq(4,5) by (simp add: call_inv_def)
  ultimately show ?thesis using w'(1) by (simp add: core_inv_def)
qed

text \<open>
  The fields that dispatching leaves alone. \<open>disp_frame\<close> is what the critical sections use after it.
\<close>

definition disp_frame :: "scheduler \<Rightarrow> scheduler \<Rightarrow> bool" where
  "disp_frame s t \<longleftrightarrow> sc_tokens t = sc_tokens s \<and> sc_capacity t = sc_capacity s \<and> sc_files t = sc_files s
     \<and> sc_alloc t = sc_alloc s \<and> sc_walloc t = sc_walloc s \<and> sc_chan t = sc_chan s \<and> sc_calloc t = sc_calloc s
     \<and> dom (sc_dcs t) = dom (sc_dcs s)"

lemma conserving_prune: "conserving s e \<Longrightarrow> conserving (pruneCanceledWaiters a s) e"
  unfolding conserving_defs by (auto simp: prune_state dest: set_dropWhileD split: if_splits)

lemma conserving_grant:
  assumes "conserving s e" "e \<noteq> d" "ts_waiters (sc_state s a) = w # ws"
  shows "conserving (granted_state d dc a w ws s) e"
  using assms unfolding conserving_defs by (auto simp: granted_state_def split: option.splits)

lemma dispatch_keeps:
  assumes "core_inv M C closed s m" "\<And>e. e \<noteq> d \<Longrightarrow> conserving s e"
  shows "\<exists>s'. dispatchLocked d s = Some s' \<and> core_inv M C closed s' m \<and> (\<forall>e. conserving s' e) \<and> disp_frame s s'"
proof -
  let ?P = "\<lambda>t. core_inv M C closed t m \<and> (\<forall>e. e \<noteq> d \<longrightarrow> conserving t e) \<and> disp_frame s t"
  have "\<exists>s'. dispatchLocked d s = Some s' \<and> ?P s' \<and> conserving s' d"
  proof (rule dispatchLocked_rule [where P = ?P])
    show "?P s" using assms by (simp add: disp_frame_def)
    show "?P (pruneCanceledWaiters a t)" if "?P t" for t a
      using that by (simp add: core_prune conserving_prune) (simp add: disp_frame_def prune_state)
    show "\<not> cw_ready (sc_waiter t w) \<and> ?P (granted_state d dc a w ws t)"
      if "?P t" "sc_dcs t d = Some dc" "a \<in> set (dc_tasks dc)" "ts_waiters (sc_state t a) = w # ws"
        "\<not> cw_canceled (sc_waiter t w)" "dc_inFlight dc < sc_capacity t" for t a w ws dc
      using core_grant [OF _ that(2-6)] conserving_grant [OF _ _ that(4), of _ d dc] that(1,2)
      by (auto simp: disp_frame_def granted_state_def)
  qed
  then show ?thesis by metis
qed

subsection \<open>Calls that move on\<close>

lemma views_add:
  "holders (add_mset c m) a = holders m a + (if ref_of c = Some a then 1 else 0)"
  "lanes wt (add_mset c m) a = lanes wt m a + (if lane_of wt c = Some a then 1 else 0)"
  "activators (add_mset c m) a = activators m a + (if map_option fst (act_of c) = Some a then 1 else 0)"
  "tokens_held (add_mset c m) = tokens_held m + (if has_token c then 1 else 0)"
  by (simp_all add: holders_def lanes_def activators_def tokens_held_def)

lemma sole_waiter_add: "waiter_of c \<noteq> Some w \<Longrightarrow> sole_waiter (add_mset c m) a w = sole_waiter m a w"
  by (simp add: sole_waiter_def)

lemma core_invD:
  assumes "core_inv M C closed s m"
  shows "refs_inv s m" "lane_inv s m" "file_inv s" "task_ok (sc_state s b)" "queue_inv s"
    "act_inv closed s m" "token_inv s m" "wait_inv s m" "bounds_inv M C s" "call_inv s m"
  using assms by (simp_all add: core_inv_def)

lemma core_invI:
  assumes "refs_inv s m" "lane_inv s m" "file_inv s" "\<And>b. task_ok (sc_state s b)" "queue_inv s"
    "act_inv closed s m" "token_inv s m" "wait_inv s m" "bounds_inv M C s" "call_inv s m"
  shows "core_inv M C closed s m"
  using assms by (simp add: core_inv_def)

lemma act_invI:
  assumes "\<And>a ch. ts_activating (sc_state s a) = Some ch \<Longrightarrow> ch < sc_calloc s \<and> \<not> closed ch"
    and "\<And>a b ch. ts_activating (sc_state s a) = Some ch \<Longrightarrow> ts_activating (sc_state s b) = Some ch \<Longrightarrow> a = b"
    and "\<And>a. activators m a = (if ts_activating (sc_state s a) = None then 0 else 1)"
    and "\<And>c a ch. c \<in># m \<Longrightarrow> act_of c = Some (a, ch) \<Longrightarrow> ts_activating (sc_state s a) = Some ch"
    and "\<And>tid dc a ch. WaitReady tid dc a ch \<in># m \<Longrightarrow>
      ch < sc_calloc s \<and> (closed ch \<or> ts_activating (sc_state s a) = Some ch)"
    and "\<And>ch. sc_calloc s \<le> ch \<Longrightarrow> \<not> closed ch"
  shows "act_inv closed s m"
  using assms unfolding act_inv_def by blast

lemma act_invD:
  assumes "act_inv closed s m"
  shows "ts_activating (sc_state s a) = Some ch \<Longrightarrow> ch < sc_calloc s \<and> \<not> closed ch"
    and "ts_activating (sc_state s a) = Some ch \<Longrightarrow> ts_activating (sc_state s b) = Some ch \<Longrightarrow> a = b"
    and "activators m a = (if ts_activating (sc_state s a) = None then 0 else 1)"
    and "c \<in># m \<Longrightarrow> act_of c = Some (a, ch) \<Longrightarrow> ts_activating (sc_state s a) = Some ch"
    and "WaitReady tid dc a ch \<in># m \<Longrightarrow> ch < sc_calloc s \<and> (closed ch \<or> ts_activating (sc_state s a) = Some ch)"
    and "sc_calloc s \<le> ch \<Longrightarrow> \<not> closed ch"
  using assms unfolding act_inv_def by blast+

lemma token_invI:
  assumes "fl_used (sc_tokens s) = active_tasks (sc_state s) (sc_alloc s) + tokens_held m"
    and "\<And>tid dc a ch g. TokenWait tid dc a ch g \<in># m \<Longrightarrow> g \<le> fl_changed (sc_tokens s)
          \<and> (g = fl_changed (sc_tokens s) \<longrightarrow> fl_limit (sc_tokens s) \<le> fl_used (sc_tokens s))"
  shows "token_inv s m"
  using assms unfolding token_inv_def by blast

lemma token_invD:
  assumes "token_inv s m"
  shows "fl_used (sc_tokens s) = active_tasks (sc_state s) (sc_alloc s) + tokens_held m"
    and "TokenWait tid dc a ch g \<in># m \<Longrightarrow> g \<le> fl_changed (sc_tokens s)
          \<and> (g = fl_changed (sc_tokens s) \<longrightarrow> fl_limit (sc_tokens s) \<le> fl_used (sc_tokens s))"
  using assms unfolding token_inv_def by blast+

lemma token_inv_frame:
  assumes "token_inv s m" "\<And>b. ts_active (sc_state s' b) = ts_active (sc_state s b)"
    "sc_tokens s' = sc_tokens s" "sc_alloc s' = sc_alloc s"
  shows "token_inv s' m"
  unfolding token_inv_def assms(3,4) active_tasks_cong [of "sc_state s'" "sc_state s", OF assms(2)]
  using assms(1) [unfolded token_inv_def] .

lemma task_load_upto: "(\<And>b. b < n \<Longrightarrow> st' b = st b) \<Longrightarrow> task_load st' n d = task_load st n d"
  by (simp add: task_load_def cong: if_cong)

lemma file_invI:
  assumes "\<And>a. sc_alloc s \<le> a \<Longrightarrow> sc_state s a = newTaskState [] 0"
    and "\<And>tid a. sc_files s tid = Some a \<Longrightarrow> a < sc_alloc s \<and> ts_taskID (sc_state s a) = tid"
    and "\<And>a. 0 < ts_refs (sc_state s a) \<or> ts_active (sc_state s a) \<or> ts_activating (sc_state s a) \<noteq> None
      \<Longrightarrow> sc_files s (ts_taskID (sc_state s a)) = Some a"
  shows "file_inv s"
  using assms unfolding file_inv_def by blast

lemma file_invD:
  assumes "file_inv s"
  shows "sc_alloc s \<le> a \<Longrightarrow> sc_state s a = newTaskState [] 0"
    and "sc_files s tid = Some a \<Longrightarrow> a < sc_alloc s \<and> ts_taskID (sc_state s a) = tid"
    and "0 < ts_refs (sc_state s a) \<or> ts_active (sc_state s a) \<or> ts_activating (sc_state s a) \<noteq> None
      \<Longrightarrow> sc_files s (ts_taskID (sc_state s a)) = Some a"
  using assms unfolding file_inv_def by blast+

text \<open>The part of the invariant about calls only depends on the views of the calls.\<close>

lemma act_inv_calls:
  assumes "act_inv closed s m" "\<And>a. activators m' a = activators m a"
    and "\<And>c a ch. c \<in># m' \<Longrightarrow> act_of c = Some (a, ch) \<Longrightarrow> \<exists>c' \<in># m. act_of c' = Some (a, ch)"
    and "\<And>tid dc a ch. WaitReady tid dc a ch \<in># m' \<Longrightarrow>
      WaitReady tid dc a ch \<in># m \<or> ts_activating (sc_state s a) = Some ch"
  shows "act_inv closed s m'"
proof (rule act_invI, goal_cases)
  case (3 a)
  show ?case using act_invD(3) [OF assms(1)] assms(2) by simp
next
  case (4 c a ch)
  with assms(3) act_invD(4) [OF assms(1)] show ?case by blast
next
  case (5 tid dc a ch)
  with assms(4) act_invD(1,5) [OF assms(1)] show ?case by blast
qed (use act_invD [OF assms(1)] in blast)+

lemma wait_inv_calls:
  assumes "wait_inv s m" "\<And>w. {#c \<in># m'. waiter_of c = Some w#} = {#c \<in># m. waiter_of c = Some w#}"
  shows "wait_inv s m'"
proof -
  have sole: "sole_waiter m' a w = sole_waiter m a w" for a w using assms(2) by (simp add: sole_waiter_def)
  have "c \<in># m" if "c \<in># m'" "waiter_of c = Some w" for c w
  proof -
    from that have "c \<in># {#c \<in># m'. waiter_of c = Some w#}" by simp
    then show ?thesis unfolding assms(2) by simp
  qed
  then have "ChunkWaiting a w \<in># m" if "ChunkWaiting a w \<in># m'" for a w using that by auto
  note here = this
  show ?thesis
  proof (rule wait_invI, goal_cases)
    case (1 a w)
    then show ?case using wait_invD(1) [OF assms(1)] by (simp add: sole)
  next
    case (4 a w)
    show ?case using wait_invD(4) [OF assms(1) here [OF 4]] by (simp add: sole)
  qed (use wait_invD(2,3) [OF assms(1)] in blast)+
qed

lemma token_inv_calls:
  assumes "token_inv s m" "tokens_held m' = tokens_held m"
    and "\<And>tid dc a ch g. TokenWait tid dc a ch g \<in># m' \<Longrightarrow> TokenWait tid dc a ch g \<in># m
      \<or> g = fl_changed (sc_tokens s) \<and> fl_limit (sc_tokens s) \<le> fl_used (sc_tokens s)"
  shows "token_inv s m'"
proof (rule token_invI, goal_cases)
  case (2 tid dc a ch g)
  from assms(3) [OF this] token_invD(2) [OF assms(1)] show ?case by blast
qed (use token_invD(1) [OF assms(1)] assms(2) in simp)

lemma waiter_none: "waiter_of c = None \<Longrightarrow> c \<noteq> ChunkWaiting a w"
  by auto

text \<open>A call that reaches another point without touching the scheduler.\<close>

lemma core_swap:
  assumes "core_inv M C closed s (add_mset c m)"
    and "ref_of c' = ref_of c" "act_of c' = act_of c" "has_token c' = has_token c"
    and "waiter_of c = None" "waiter_of c' = None" "lane_of (sc_waiter s) c = None" "lane_of (sc_waiter s) c' = None"
    and "call_ok (sc_state s) c'"
    and "\<And>tid dc a ch. c' = WaitReady tid dc a ch \<Longrightarrow> ts_activating (sc_state s a) = Some ch"
    and "\<And>tid dc a ch g. c' = TokenWait tid dc a ch g \<Longrightarrow> g = fl_changed (sc_tokens s)
        \<and> fl_limit (sc_tokens s) \<le> fl_used (sc_tokens s)"
  shows "core_inv M C closed s (add_mset c' m)"
proof (rule core_invI)
  note c = core_invD [OF assms(1)]
  show "refs_inv s (add_mset c' m)" using c(1) assms(2) by (simp add: refs_inv_def views_add)
  show "lane_inv s (add_mset c' m)" using c(2) assms(7,8) by (simp add: lane_inv_def views_add)
  show "act_inv closed s (add_mset c' m)"
    by (rule act_inv_calls [OF c(6)]) (use assms(3,10) in \<open>auto simp: views_add\<close>)
  show "token_inv s (add_mset c' m)"
    by (rule token_inv_calls [OF c(7)]) (use assms(4,11) in \<open>auto simp: views_add\<close>)
  show "wait_inv s (add_mset c' m)"
    by (rule wait_inv_calls [OF c(8)]) (use assms(5,6) in simp)
  show "call_inv s (add_mset c' m)" using c(10) assms(9) by (simp add: call_inv_def)
qed (use core_invD [OF assms(1)] in blast)+

definition inert :: "call \<Rightarrow> bool" where
  "inert c \<longleftrightarrow> ref_of c = None \<and> act_of c = None \<and> \<not> has_token c \<and> waiter_of c = None
     \<and> (\<forall>wt. lane_of wt c = None)"

lemma inert_Looping [simp]: "inert (Looping tid dc None)"
  by (simp add: inert_def)

lemma core_inert:
  assumes "inert c"
  shows "core_inv M C closed s (add_mset c m) \<longleftrightarrow> core_inv M C closed s m"
proof -
  have c: "c \<noteq> WaitReady tid dc a ch" "c \<noteq> TokenWait tid dc a ch g" "c \<noteq> ChunkWaiting a w" "call_ok (sc_state s) c"
    for tid dc a ch g w
    using assms by (cases c; auto simp: inert_def)+
  have "act_inv closed s (add_mset c m) \<longleftrightarrow> act_inv closed s m"
    by (rule iffI; erule act_inv_calls) (use assms c(1) in \<open>auto simp: views_add inert_def\<close>)
  moreover have "token_inv s (add_mset c m) \<longleftrightarrow> token_inv s m"
    by (rule iffI; erule token_inv_calls) (use assms c(2) in \<open>auto simp: views_add inert_def\<close>)
  moreover have "wait_inv s (add_mset c m) \<longleftrightarrow> wait_inv s m"
    by (rule iffI; erule wait_inv_calls) (use assms in \<open>simp_all add: inert_def\<close>)
  ultimately show ?thesis using assms c
    by (simp add: core_inv_def refs_inv_def lane_inv_def call_inv_def views_add inert_def)
qed

subsection \<open>Tokens\<close>

lemma core_got_token:
  assumes "core_inv M C closed s (add_mset (GetToken tid dc a ch) m)" "fl_used (sc_tokens s) < fl_limit (sc_tokens s)"
  shows "core_inv M C closed (s\<lparr>sc_tokens := (sc_tokens s)\<lparr>fl_used := Suc (fl_used (sc_tokens s))\<rparr>\<rparr>)
    (add_mset (GotToken tid dc a ch) m)"
proof -
  let ?s = "s\<lparr>sc_tokens := (sc_tokens s)\<lparr>fl_used := Suc (fl_used (sc_tokens s))\<rparr>\<rparr>"
  note c = core_invD [OF assms(1)]
  have "token_inv ?s (add_mset (GotToken tid dc a ch) m)"
    by (rule token_invI; use token_invD [OF c(7)] in \<open>fastforce simp: views_add\<close>)
  moreover have "act_inv closed s (add_mset (GotToken tid dc a ch) m)"
    by (rule act_inv_calls [OF c(6)]) (auto simp: views_add)
  then have "act_inv closed ?s (add_mset (GotToken tid dc a ch) m)" by (simp add: act_inv_def)
  moreover have "wait_inv s (add_mset (GotToken tid dc a ch) m)"
    by (rule wait_inv_calls [OF c(8)]) simp
  then have "wait_inv ?s (add_mset (GotToken tid dc a ch) m)" by (simp add: wait_inv_def)
  moreover have "file_inv ?s" using c(3) by (simp add: file_inv_def)
  moreover have "queue_inv ?s" using c(5) by (simp add: queue_inv_def tasks_of_def)
  ultimately show ?thesis using c(1,2,4,9,10) assms(2)
    by (simp add: core_inv_def refs_inv_def lane_inv_def bounds_inv_def call_inv_def views_add dc_load_def)
qed

lemma core_release_token:
  assumes "core_inv M C closed s (add_mset FreeToken m)"
  shows "\<exists>l. release_token s = Some (s\<lparr>sc_tokens := l\<rparr>) \<and> core_inv M C closed (s\<lparr>sc_tokens := l\<rparr>) m"
proof -
  note c = core_invD [OF assms(1)]
  let ?l = "signal_limiter ((sc_tokens s)\<lparr>fl_used := fl_used (sc_tokens s) - 1\<rparr>)"
  have used: "fl_used (sc_tokens s) = active_tasks (sc_state s) (sc_alloc s) + tokens_held m + 1"
    using c(7) by (simp add: token_inv_def views_add)
  then have "release_token s = Some (s\<lparr>sc_tokens := ?l\<rparr>)"
    by (simp add: release_token_def limiter_release_def)
  moreover have "core_inv M C closed (s\<lparr>sc_tokens := ?l\<rparr>) m"
  proof (rule core_invI)
    show "token_inv (s\<lparr>sc_tokens := ?l\<rparr>) m"
      by (rule token_invI; use token_invD [OF c(7)] used in \<open>fastforce simp: signal_limiter_def views_add\<close>)
    have "act_inv closed s m"
      by (rule act_inv_calls [OF c(6)]) (auto simp: views_add)
    then show "act_inv closed (s\<lparr>sc_tokens := ?l\<rparr>) m" by (simp add: act_inv_def)
    have "wait_inv s m" by (rule wait_inv_calls [OF c(8)]) simp
    then show "wait_inv (s\<lparr>sc_tokens := ?l\<rparr>) m" by (simp add: wait_inv_def)
    show "file_inv (s\<lparr>sc_tokens := ?l\<rparr>)" using c(3) by (simp add: file_inv_def)
    show "queue_inv (s\<lparr>sc_tokens := ?l\<rparr>)" using c(5) by (simp add: queue_inv_def tasks_of_def)
    show "bounds_inv M C (s\<lparr>sc_tokens := ?l\<rparr>)" using c(9) by (auto simp: bounds_inv_def signal_limiter_def dc_load_def)
  qed (use c in \<open>simp_all add: refs_inv_def lane_inv_def call_inv_def views_add dc_load_def\<close>)
  ultimately show ?thesis by blast
qed

subsection \<open>Registering and activating a task\<close>

lemma holder_ref:
  assumes "refs_inv s m" "c \<in># m" "ref_of c = Some a"
  shows "0 < ts_refs (sc_state s a)"
proof -
  have "c \<in># {#c \<in># m. ref_of c = Some a#}" using assms(2,3) by simp
  then have "0 < holders m a" unfolding holders_def by (auto simp: nonempty_has_size [symmetric])
  with assms(1) show ?thesis by (simp add: refs_inv_def)
qed

lemma core_alloc:
  assumes "core_inv M C closed s m" "sc_files s tid = None"
  shows "core_inv M C closed (upd_state (sc_alloc s) (\<lambda>_. newTaskState tid dc)
    (s\<lparr>sc_alloc := Suc (sc_alloc s), sc_files := (sc_files s)(tid \<mapsto> sc_alloc s)\<rparr>)) m"
    (is "core_inv M C closed ?s m")
proof -
  let ?al = "sc_alloc s"
  note c = core_invD [OF assms(1)]
  have old: "sc_state s ?al = newTaskState [] 0" using c(3) by (simp add: file_inv_def)
  have eq: "ts_refs (sc_state ?s b) = ts_refs (sc_state s b)" "ts_active (sc_state ?s b) = ts_active (sc_state s b)"
    "ts_activating (sc_state ?s b) = ts_activating (sc_state s b)" "ts_waiters (sc_state ?s b) = ts_waiters (sc_state s b)"
    "ts_inFlight (sc_state ?s b) = ts_inFlight (sc_state s b)" for b
    by (simp_all add: old) (simp_all add: newTaskState_def)
  have other: "b \<noteq> ?al \<Longrightarrow> sc_state ?s b = sc_state s b" for b by simp
  have new: "\<not> ts_active (sc_state s ?al)" "ts_inFlight (sc_state s ?al) = 0" "ts_refs (sc_state s ?al) = 0"
    "ts_activating (sc_state s ?al) = None"
    by (simp_all add: old newTaskState_def)
  show ?thesis
  proof (rule core_invI)
    have "task_load (sc_state ?s) (Suc ?al) d = task_load (sc_state s) ?al d" for d
    proof -
      have "task_load (sc_state ?s) (Suc ?al) d = task_load (sc_state ?s) ?al d + (if dc = d then ts_inFlight (sc_state ?s ?al) else 0)"
        by (simp add: task_load_def newTaskState_def)
      also have "ts_inFlight (sc_state ?s ?al) = 0" by (simp add: newTaskState_def)
      also have "task_load (sc_state ?s) ?al d = task_load (sc_state s) ?al d"
        by (rule task_load_upto) simp
      finally show ?thesis by (simp only: if_cancel add_0_right)
    qed
    then show "lane_inv ?s m" using c(2) unfolding lane_inv_def eq by (simp add: dc_load_def)
    have "active_tasks (sc_state ?s) (Suc ?al) = active_tasks (sc_state s) ?al"
      unfolding active_tasks_def eq sum.lessThan_Suc using new(1) by simp
    then show "token_inv ?s m" using c(7) unfolding token_inv_def by auto
    show "file_inv ?s"
    proof (rule file_invI, goal_cases)
      case (1 b)
      then show ?case using file_invD(1) [OF c(3), of b] by simp
    next
      case (2 t b)
      then show ?case using file_invD(2) [OF c(3), of t b] by (auto simp: newTaskState_def split: if_splits)
    next
      case (3 b)
      then have "0 < ts_refs (sc_state s b) \<or> ts_active (sc_state s b) \<or> ts_activating (sc_state s b) \<noteq> None"
        unfolding eq .
      moreover from this have "b \<noteq> ?al" using new by auto
      ultimately show ?case using file_invD(3) [OF c(3), of b] assms(2) by auto
    qed
    show "queue_inv ?s"
    proof -
      have "tasks_of ?s d = tasks_of s d" for d by (simp add: tasks_of_def)
      moreover have "ts_active (sc_state s b) \<Longrightarrow> ts_dc (sc_state ?s b) = ts_dc (sc_state s b)" for b
        using new(1) other by metis
      ultimately show ?thesis using c(5) unfolding queue_inv_def eq by metis
    qed
    show "task_ok (sc_state ?s b)" for b using c(4) [of b] unfolding task_ok_def eq .
    show "wait_inv ?s m" using c(8) unfolding wait_inv_def eq by simp
    show "act_inv closed ?s m" using c(6) unfolding act_inv_def eq by simp
    show "refs_inv ?s m" using c(1) unfolding refs_inv_def eq .
    show "bounds_inv M C ?s" using c(9) by (simp add: bounds_inv_def dc_load_def)
    show "call_inv ?s m" unfolding call_inv_def
    proof (intro allI impI)
      fix x assume x: "x \<in># m"
      have "call_ok (sc_state ?s) x = call_ok (sc_state s) x"
      proof (rule call_ok_cong)
        fix b assume "ref_of x = Some b"
        then have "b \<noteq> ?al" using holder_ref [OF c(1) x] new(3) by force
        then show "ts_taskID (sc_state ?s b) = ts_taskID (sc_state s b) \<and> ts_dc (sc_state ?s b) = ts_dc (sc_state s b)"
          using other by simp
      qed
      with c(10) x show "call_ok (sc_state ?s) x" by (simp add: call_inv_def)
    qed
  qed
qed

lemma core_ref:
  assumes "core_inv M C closed s m" "sc_files s (ts_taskID (sc_state s a)) = Some a"
  shows "core_inv M C closed (upd_state a (\<lambda>t. t\<lparr>ts_refs := Suc (ts_refs t)\<rparr>) s)
    (add_mset (Looping (ts_taskID (sc_state s a)) (ts_dc (sc_state s a)) (Some a)) m)"
    (is "core_inv M C closed ?s (add_mset ?c m)")
proof -
  note c = core_invD [OF assms(1)]
  have eq: "ts_active (sc_state ?s b) = ts_active (sc_state s b)" "ts_dc (sc_state ?s b) = ts_dc (sc_state s b)"
    "ts_activating (sc_state ?s b) = ts_activating (sc_state s b)" "ts_waiters (sc_state ?s b) = ts_waiters (sc_state s b)"
    "ts_inFlight (sc_state ?s b) = ts_inFlight (sc_state s b)" "ts_taskID (sc_state ?s b) = ts_taskID (sc_state s b)" for b
    by simp_all
  have al: "a < sc_alloc s" using c(3) assms(2) by (auto simp: file_inv_def)
  show ?thesis
  proof (rule core_invI)
    show "refs_inv ?s (add_mset ?c m)" using c(1) by (simp add: refs_inv_def views_add)
    show "lane_inv ?s (add_mset ?c m)"
      using c(2) task_load_cong [of "sc_state ?s" "sc_state s", OF eq(2,5)] unfolding lane_inv_def eq
      by (simp add: views_add dc_load_def)
    have "sc_state ?s b = newTaskState [] 0" if "sc_alloc s \<le> b" for b
      using c(3) that al by (simp add: file_inv_def)
    then show "file_inv ?s"
    proof (rule file_invI, goal_cases)
      case (2 t b)
      then show ?case using file_invD(2) [OF c(3), of t b] unfolding eq by simp
    next
      case (3 b)
      then show ?case using file_invD(3) [OF c(3), of b] assms(2) unfolding eq by (cases "b = a") simp_all
    qed simp
    show "task_ok (sc_state ?s b)" for b using c(4) [of b] by (auto simp: task_ok_def)
    show "queue_inv ?s" using c(5) unfolding queue_inv_def eq by (simp add: tasks_of_def)
    have "act_inv closed s (add_mset ?c m)" by (rule act_inv_calls [OF c(6)]) (auto simp: views_add)
    then show "act_inv closed ?s (add_mset ?c m)" unfolding act_inv_def eq by simp
    have "token_inv s (add_mset ?c m)" by (rule token_inv_calls [OF c(7)]) (auto simp: views_add)
    then show "token_inv ?s (add_mset ?c m)"
      by (rule token_inv_frame, unfold eq) simp_all
    have "wait_inv s (add_mset ?c m)" by (rule wait_inv_calls [OF c(8)]) simp
    then show "wait_inv ?s (add_mset ?c m)" unfolding wait_inv_def eq by simp
    show "bounds_inv M C ?s" using c(9) by (simp add: bounds_inv_def dc_load_def)
    show "call_inv ?s (add_mset ?c m)"
      using c(10) call_ok_cong [of _ "sc_state ?s" "sc_state s"] eq by (simp add: call_inv_def)
  qed
qed

lemma core_begin:
  assumes "core_inv M C closed s (add_mset (Looping tid dc (Some a)) m)"
    "\<not> ts_active (sc_state s a)" "ts_activating (sc_state s a) = None"
  shows "core_inv M C closed (upd_state a (\<lambda>t. t\<lparr>ts_activating := Some (sc_calloc s)\<rparr>) (s\<lparr>sc_calloc := Suc (sc_calloc s)\<rparr>))
    (add_mset (GetToken tid dc a (sc_calloc s)) m)"
    (is "core_inv M C closed ?s (add_mset ?c m)")
proof -
  note c = core_invD [OF assms(1)]
  have eq: "ts_active (sc_state ?s b) = ts_active (sc_state s b)" "ts_dc (sc_state ?s b) = ts_dc (sc_state s b)"
    "ts_refs (sc_state ?s b) = ts_refs (sc_state s b)" "ts_waiters (sc_state ?s b) = ts_waiters (sc_state s b)"
    "ts_inFlight (sc_state ?s b) = ts_inFlight (sc_state s b)" "ts_taskID (sc_state ?s b) = ts_taskID (sc_state s b)" for b
    by simp_all
  have refs: "0 < ts_refs (sc_state s a)" using holder_ref [OF c(1), of "Looping tid dc (Some a)"] by simp
  then have fa: "sc_files s (ts_taskID (sc_state s a)) = Some a" using c(3) by (simp add: file_inv_def)
  then have al: "a < sc_alloc s" using c(3) by (auto simp: file_inv_def)
  show ?thesis
  proof (rule core_invI)
    show "refs_inv ?s (add_mset ?c m)" using c(1) unfolding refs_inv_def eq by (simp add: views_add)
    show "lane_inv ?s (add_mset ?c m)"
      using c(2) task_load_cong [of "sc_state ?s" "sc_state s", OF eq(2,5)] unfolding lane_inv_def eq
      by (simp add: views_add dc_load_def)
    have "sc_state ?s b = newTaskState [] 0" if "sc_alloc s \<le> b" for b
      using c(3) that al by (simp add: file_inv_def)
    then show "file_inv ?s"
    proof (rule file_invI, goal_cases)
      case (2 t b)
      then show ?case using file_invD(2) [OF c(3), of t b] unfolding eq by simp
    next
      case (3 b)
      then show ?case using file_invD(3) [OF c(3), of b] fa unfolding eq by (cases "b = a") simp_all
    qed simp
    show "task_ok (sc_state ?s b)" for b using c(4) [of b] assms(2) by (auto simp: task_ok_def)
    show "queue_inv ?s" using c(5) unfolding queue_inv_def eq by (simp add: tasks_of_def)
    show "act_inv closed ?s (add_mset ?c m)"
    proof (rule act_invI, goal_cases)
      case (1 b ch)
      then show ?case using act_invD(1,6) [OF c(6)] by (auto split: if_splits intro: less_SucI)
    next
      case (2 b b' ch)
      then show ?case using act_invD(1) [OF c(6), of b ch] act_invD(1) [OF c(6), of b' ch] act_invD(2) [OF c(6), of b ch b']
        by (simp split: if_splits)
    next
      case (3 b)
      then show ?case using act_invD(3) [OF c(6), of b] assms(3) by (auto simp: views_add)
    next
      case (4 x b ch)
      then show ?case using act_invD(4) [OF c(6), of x b ch] assms(3) by (auto split: if_splits)
    next
      case (5 tid' dc' b ch)
      then show ?case using act_invD(5) [OF c(6), of tid' dc' b ch] assms(3) by (auto split: if_splits)
    next
      case (6 ch)
      then show ?case using act_invD(6) [OF c(6), of ch] by simp
    qed
    have "token_inv s (add_mset ?c m)" by (rule token_inv_calls [OF c(7)]) (auto simp: views_add)
    then show "token_inv ?s (add_mset ?c m)"
      by (rule token_inv_frame, unfold eq) simp_all
    have "wait_inv s (add_mset ?c m)" by (rule wait_inv_calls [OF c(8)]) simp
    then show "wait_inv ?s (add_mset ?c m)" unfolding wait_inv_def eq by simp
    show "bounds_inv M C ?s" using c(9) by (simp add: bounds_inv_def dc_load_def)
    show "call_inv ?s (add_mset ?c m)"
      using c(10) call_ok_cong [of _ "sc_state ?s" "sc_state s"] eq by (simp add: call_inv_def)
  qed
qed

lemma conserving_frame:
  assumes "conserving s e" "sc_dcs s' e = sc_dcs s e" "sc_capacity s' = sc_capacity s"
    "\<And>w. cw_canceled (sc_waiter s w) \<Longrightarrow> cw_canceled (sc_waiter s' w)"
    "\<And>a. a \<in> set (tasks_of s e) \<Longrightarrow> set (ts_waiters (sc_state s' a)) \<subseteq> set (ts_waiters (sc_state s a))"
  shows "conserving s' e"
proof -
  have "dc_load s' e = dc_load s e" "tasks_of s' e = tasks_of s e"
    using assms(2) by (simp_all add: dc_load_def tasks_of_def)
  then show ?thesis using assms(1,3,4,5) unfolding conserving_def by (metis subsetD)
qed

definition same_queues :: "scheduler \<Rightarrow> scheduler \<Rightarrow> bool" where
  "same_queues s t \<longleftrightarrow> sc_dcs t = sc_dcs s \<and> sc_capacity t = sc_capacity s \<and> sc_waiter t = sc_waiter s
     \<and> (\<forall>a. ts_waiters (sc_state t a) = ts_waiters (sc_state s a))"

lemma same_queues_conserving: "same_queues s t \<Longrightarrow> conserving s e \<Longrightarrow> conserving t e"
  by (erule conserving_frame) (simp_all add: same_queues_def)

lemma same_queues_simps [simp]:
  "same_queues s s"
  "same_queues s (s\<lparr>sc_tokens := l\<rparr>)"
  by (simp_all add: same_queues_def)

lemma same_queues_trans: "same_queues s t \<Longrightarrow> same_queues t u \<Longrightarrow> same_queues s u"
  by (simp add: same_queues_def)

lemma acquire_registered:
  assumes "core_inv M C closed s (add_mset (Looping tid dc (Some a)) m)" "sc_files s tid = Some b"
  shows "b = a \<and> ts_dc (sc_state s a) = dc \<and> ts_taskID (sc_state s a) = tid"
proof -
  note c = core_invD [OF assms(1)]
  have "ts_taskID (sc_state s a) = tid" "ts_dc (sc_state s a) = dc" using c(10) by (auto simp: call_inv_def)
  moreover have "0 < ts_refs (sc_state s a)" using holder_ref [OF c(1), of "Looping tid dc (Some a)"] by simp
  ultimately show ?thesis using file_invD(3) [OF c(3), of a] assms(2) by simp
qed

text \<open>The second half of \<open>acquire_locked\<close>: a registered call on a state that is there.\<close>

definition acquire_switch :: "string \<Rightarrow> int \<Rightarrow> nat \<Rightarrow> scheduler \<Rightarrow> scheduler \<times> call list" where
  "acquire_switch tid dc a s =
     (if ts_active (sc_state s a) then (s, [Leased a])
      else case ts_activating (sc_state s a) of
             Some ready \<Rightarrow> (s, [WaitReady tid dc a ready])
           | None \<Rightarrow> (upd_state a (\<lambda>t. t\<lparr>ts_activating := Some (sc_calloc s)\<rparr>) (s\<lparr>sc_calloc := Suc (sc_calloc s)\<rparr>),
                      [GetToken tid dc a (sc_calloc s)]))"

lemma core_switch:
  assumes "core_inv M C closed s (add_mset (Looping tid dc (Some a)) m)" "acquire_switch tid dc a s = (s', cs)"
  shows "core_inv M C closed s' (m + mset cs) \<and> same_queues s s' \<and> sc_chan s' = sc_chan s"
proof (cases "ts_active (sc_state s a)")
  case True
  have "core_inv M C closed s (add_mset (Leased a) m)" by (rule core_swap [OF assms(1)]) auto
  with True assms(2) show ?thesis by (auto simp: acquire_switch_def)
next
  case False
  have ok: "call_ok (sc_state s) (Looping tid dc (Some a))"
    using core_invD(10) [OF assms(1)] by (simp add: call_inv_def)
  show ?thesis
  proof (cases "ts_activating (sc_state s a)")
    case None
    with core_begin [OF assms(1) False None] assms(2) False show ?thesis
      by (auto simp: acquire_switch_def same_queues_def)
  next
    case (Some ready)
    have "core_inv M C closed s (add_mset (WaitReady tid dc a ready) m)"
      by (rule core_swap [OF assms(1)]) (use ok Some in auto)
    with Some assms(2) False show ?thesis by (auto simp: acquire_switch_def)
  qed
qed

lemma core_acquire_locked:
  assumes "core_inv M C closed s (add_mset (Looping tid dc reg) m)" "acquire_locked tid dc reg s = (s', cs)"
  shows "core_inv M C closed s' (m + mset cs) \<and> same_queues s s' \<and> sc_chan s' = sc_chan s"
proof (cases reg)
  case (Some a)
  with assms(1) have core: "core_inv M C closed s (add_mset (Looping tid dc (Some a)) m)" by simp
  note c = core_invD [OF core]
  have "ts_taskID (sc_state s a) = tid" using c(10) by (auto simp: call_inv_def)
  then have fa: "sc_files s tid = Some a"
    using file_invD(3) [OF c(3), of a] holder_ref [OF c(1), of "Looping tid dc (Some a)"] by simp
  with acquire_registered [OF core fa] assms(2) Some have "acquire_switch tid dc a s = (s', cs)"
    by (simp add: acquire_locked_def acquire_switch_def)
  with core_switch [OF core] show ?thesis by blast
next
  case None
  with assms(1) have core: "core_inv M C closed s m" by (simp add: core_inert)
  define p where "p = (case sc_files s tid of
        Some a \<Rightarrow> (a, s)
      | None \<Rightarrow> (sc_alloc s, upd_state (sc_alloc s) (\<lambda>_. newTaskState tid dc)
                  (s\<lparr>sc_alloc := Suc (sc_alloc s), sc_files := (sc_files s)(tid \<mapsto> sc_alloc s)\<rparr>)))"
  obtain a s1 where p: "p = (a, s1)" by fastforce
  have s1: "core_inv M C closed s1 m" "same_queues s s1" "sc_chan s1 = sc_chan s"
    "sc_files s1 tid = Some a" "ts_taskID (sc_state s1 a) = tid"
    using core core_alloc [OF core, of tid dc] p file_invD [OF core_invD(3) [OF core]]
    by (auto simp: p_def same_queues_def newTaskState_def split: option.splits)
  show ?thesis
  proof (cases "ts_dc (sc_state s1 a) = dc")
    case False
    with assms(2) None p s1 show ?thesis by (auto simp: acquire_locked_def p_def)
  next
    case True
    let ?s2 = "upd_state a (\<lambda>t. t\<lparr>ts_refs := Suc (ts_refs t)\<rparr>) s1"
    have core2: "core_inv M C closed ?s2 (add_mset (Looping tid dc (Some a)) m)"
      using core_ref [OF s1(1), of a] s1(4,5) True by simp
    have sw: "acquire_switch tid dc a ?s2 = (s', cs)"
      using assms(2) None p True by (simp add: acquire_locked_def acquire_switch_def p_def del: upd_state_simps)
    have "same_queues s1 ?s2" "sc_chan ?s2 = sc_chan s1" by (simp_all add: same_queues_def)
    with core_switch [OF core2 sw] s1(2,3) show ?thesis by (auto intro: same_queues_trans)
  qed
qed

subsection \<open>Completing an activation\<close>

text \<open>Inside a section the task it works on may be in between; \<open>core_but a\<close> says nothing about its \<open>task_ok\<close>.\<close>

definition core_but :: "nat \<Rightarrow> nat \<Rightarrow> nat \<Rightarrow> (nat \<Rightarrow> bool) \<Rightarrow> scheduler \<Rightarrow> call multiset \<Rightarrow> bool" where
  "core_but a M C closed s m \<longleftrightarrow> refs_inv s m \<and> lane_inv s m \<and> file_inv s \<and> (\<forall>b. b \<noteq> a \<longrightarrow> task_ok (sc_state s b))
     \<and> queue_inv s \<and> act_inv closed s m \<and> token_inv s m \<and> wait_inv s m \<and> bounds_inv M C s \<and> call_inv s m"

lemma core_butI:
  assumes "refs_inv s m" "lane_inv s m" "file_inv s" "\<And>b. b \<noteq> a \<Longrightarrow> task_ok (sc_state s b)" "queue_inv s"
    "act_inv closed s m" "token_inv s m" "wait_inv s m" "bounds_inv M C s" "call_inv s m"
  shows "core_but a M C closed s m"
  using assms by (simp add: core_but_def)

lemma core_but_iff: "core_inv M C closed s m \<longleftrightarrow> core_but a M C closed s m \<and> task_ok (sc_state s a)"
  unfolding core_inv_def core_but_def by metis

lemma core_butD:
  assumes "core_but a M C closed s m"
  shows "refs_inv s m" "lane_inv s m" "file_inv s" "b \<noteq> a \<Longrightarrow> task_ok (sc_state s b)" "queue_inv s"
    "act_inv closed s m" "token_inv s m" "wait_inv s m" "bounds_inv M C s" "call_inv s m"
  using assms by (simp_all add: core_but_def)

lemma call_inv_calls:
  assumes "call_inv s m" "\<And>b. ts_taskID (sc_state s' b) = ts_taskID (sc_state s b)"
    "\<And>b. ts_dc (sc_state s' b) = ts_dc (sc_state s b)" "\<And>c. c \<in># m' \<Longrightarrow> c \<in># m \<or> call_ok (sc_state s) c"
  shows "call_inv s' m'"
  using assms call_ok_cong [of _ "sc_state s'" "sc_state s"] unfolding call_inv_def by blast

text \<open>
  The state in which the activation of task \<open>a\<close> is over; \<open>active\<close> is whether it has the token.
\<close>

definition completed :: "nat \<Rightarrow> bool \<Rightarrow> scheduler \<Rightarrow> scheduler" where
  "completed a success s =
     (let s1 = upd_state a (\<lambda>t. t\<lparr>ts_activating := None\<rparr>) s
      in if success then append_task (ts_dc (sc_state s a)) a (upd_state a (\<lambda>t. t\<lparr>ts_active := True\<rparr>) s1) else s1)"

lemma append_task_simps:
  "sc_dcs (append_task d a s) = (sc_dcs s)(d \<mapsto> \<lparr>dc_tasks = tasks_of s d @ [a], dc_inFlight = dc_load s d\<rparr>)"
  "sc_tokens (append_task d a s) = sc_tokens s" "sc_files (append_task d a s) = sc_files s"
  "sc_alloc (append_task d a s) = sc_alloc s" "sc_waiter (append_task d a s) = sc_waiter s"
  "sc_walloc (append_task d a s) = sc_walloc s" "sc_chan (append_task d a s) = sc_chan s"
  "sc_calloc (append_task d a s) = sc_calloc s" "sc_state (append_task d a s) = sc_state s"
  "sc_capacity (append_task d a s) = sc_capacity s"
  by (auto simp: append_task_def dcLocked_def tasks_of_def dc_load_def split: option.splits)

lemma completed_simps:
  "sc_tokens (completed a b s) = sc_tokens s" "sc_files (completed a b s) = sc_files s"
  "sc_alloc (completed a b s) = sc_alloc s" "sc_waiter (completed a b s) = sc_waiter s"
  "sc_walloc (completed a b s) = sc_walloc s" "sc_chan (completed a b s) = sc_chan s"
  "sc_calloc (completed a b s) = sc_calloc s" "sc_capacity (completed a b s) = sc_capacity s"
  "dc_load (completed a b s) d = dc_load s d"
  "tasks_of (completed a b s) d = (if b \<and> d = ts_dc (sc_state s a) then tasks_of s d @ [a] else tasks_of s d)"
  "sc_state (completed a b s) = (sc_state s)(a := (sc_state s a)\<lparr>ts_activating := None,
     ts_active := (b \<or> ts_active (sc_state s a))\<rparr>)"
  by (auto simp: completed_def append_task_simps dc_load_def tasks_of_def fun_eq_iff)

lemma core_completed:
  assumes "core_inv M C closed s (add_mset c m)" "act_of c = Some (a, ready)" "has_token c = success"
    "ref_of c = Some a" "ref_of c' = Some a" "act_of c' = None" "\<not> has_token c'" "waiter_of c = None" "waiter_of c' = None"
    "\<And>wt. lane_of wt c = None" "\<And>wt. lane_of wt c' = None" "call_ok (sc_state s) c'"
    "\<And>tid dc a ch. c' \<noteq> WaitReady tid dc a ch"
  shows "core_inv M C (closed(ready := True)) (completed a success s) (add_mset c' m)"
    (is "core_inv M C ?closed ?s ?m")
proof -
  note c = core_invD [OF assms(1)]
  have ready: "ts_activating (sc_state s a) = Some ready" using act_invD(4) [OF c(6) _ assms(2)] by simp
  then have inactive: "\<not> ts_active (sc_state s a)" using c(4) [of a] by (auto simp: task_ok_def)
  then have rest: "ts_inFlight (sc_state s a) = 0" "ts_waiters (sc_state s a) = []"
    using c(4) [of a] by (auto simp: task_ok_def)
  have refs: "0 < ts_refs (sc_state s a)" using holder_ref [OF c(1) _ assms(4)] by simp
  have fa: "sc_files s (ts_taskID (sc_state s a)) = Some a" using file_invD(3) [OF c(3)] refs by blast
  then have al: "a < sc_alloc s" using file_invD(2) [OF c(3)] by blast
  have act: "ts_activating (sc_state ?s b) = (if b = a then None else ts_activating (sc_state s b))"
    "ts_active (sc_state ?s b) = (if b = a then success else ts_active (sc_state s b))" for b
    using inactive by (simp_all add: completed_simps)
  have eq: "ts_refs (sc_state ?s b) = ts_refs (sc_state s b)" "ts_dc (sc_state ?s b) = ts_dc (sc_state s b)"
    "ts_waiters (sc_state ?s b) = ts_waiters (sc_state s b)" "ts_inFlight (sc_state ?s b) = ts_inFlight (sc_state s b)"
    "ts_taskID (sc_state ?s b) = ts_taskID (sc_state s b)" for b
    by (simp_all add: completed_simps)
  show ?thesis
  proof (rule core_invI)
    show "refs_inv ?s ?m" using c(1) assms(4,5) unfolding refs_inv_def eq by (simp add: views_add)
    show "lane_inv ?s ?m" using c(2) assms(10,11) task_load_cong [of "sc_state ?s" "sc_state s", OF eq(2,4)]
      unfolding lane_inv_def eq by (simp add: views_add completed_simps)
    show "file_inv ?s"
    proof (rule file_invI, goal_cases)
      case (1 b)
      then show ?case using file_invD(1) [OF c(3), of b] al by (simp add: completed_simps)
    next
      case (2 t b)
      then show ?case using file_invD(2) [OF c(3), of t b] unfolding eq by (simp add: completed_simps)
    next
      case (3 b)
      then show ?case using file_invD(3) [OF c(3), of b] fa unfolding eq act by (cases "b = a") (simp_all add: completed_simps)
    qed
    show "task_ok (sc_state ?s b)" for b
      using c(4) [of b] refs rest unfolding task_ok_def eq act by (cases "b = a") auto
    show "queue_inv ?s"
      unfolding queue_inv_def
    proof (intro allI conjI)
      fix d
      have "a \<notin> set (tasks_of s d)" using c(5) inactive by (auto simp: queue_inv_def)
      then show "distinct (tasks_of ?s d)" using c(5) inactive by (simp add: queue_inv_def completed_simps)
      fix b
      have "b \<in> set (tasks_of s d) \<longleftrightarrow> ts_active (sc_state s b) \<and> ts_dc (sc_state s b) = d"
        using c(5) by (simp add: queue_inv_def)
      then show "b \<in> set (tasks_of ?s d) \<longleftrightarrow> ts_active (sc_state ?s b) \<and> ts_dc (sc_state ?s b) = d"
        using inactive unfolding eq act by (auto simp: completed_simps)
    qed
    show "act_inv ?closed ?s ?m"
    proof (rule act_invI, goal_cases)
      case (1 b ch)
      then have "ts_activating (sc_state s b) = Some ch" "b \<noteq> a" by (simp_all add: act split: if_splits)
      then show ?case using act_invD(1,2) [OF c(6)] ready by (auto simp: completed_simps)
    next
      case (2 b b' ch)
      then show ?case using act_invD(2) [OF c(6), of b ch b'] by (simp add: act split: if_splits)
    next
      case (3 b)
      then show ?case using act_invD(3) [OF c(6), of b] assms(2,6) ready by (auto simp: act views_add)
    next
      case (4 x b ch)
      with assms(6) have x: "x \<in># m" by auto
      have "activators m a = 0" using act_invD(3) [OF c(6), of a] assms(2) ready by (simp add: views_add)
      then have "b \<noteq> a" using x 4(2) by (auto simp: activators_def filter_mset_eq_mempty_iff)
      then show ?case using act_invD(4) [OF c(6), of x b ch] x 4(2) by (simp add: act)
    next
      case (5 tid dc b ch)
      with assms(13) have "WaitReady tid dc b ch \<in># add_mset c m" by (auto simp del: not_None_eq)
      then show ?case using act_invD(5) [OF c(6), of tid dc b ch] ready by (auto simp: act completed_simps)
    next
      case (6 ch)
      then show ?case using act_invD(1) [OF c(6) ready] act_invD(6) [OF c(6), of ch] by (auto simp: completed_simps)
    qed
    show "token_inv ?s ?m"
    proof -
      have "active_tasks (sc_state ?s) (sc_alloc s) = active_tasks (sc_state s) (sc_alloc s) + (if success then 1 else 0)"
        using active_tasks_upd [OF al, of "sc_state s" "sc_state ?s a"] inactive by (simp add: completed_simps)
      moreover have "TokenWait tid dc b ch g \<in># add_mset c m" if "TokenWait tid dc b ch g \<in># ?m" for tid dc b ch g
        using that assms(6) by auto
      note waits = this
      show ?thesis
      proof (rule token_invI, goal_cases)
        case 1
        then show ?case using token_invD(1) [OF c(7)] calculation assms(3,7)
          by (simp add: views_add completed_simps split: if_splits)
      next
        case (2 tid dc b ch g)
        from token_invD(2) [OF c(7) waits [OF this]] show ?case by (simp add: completed_simps)
      qed
    qed
    have "wait_inv s ?m" by (rule wait_inv_calls [OF c(8)]) (use assms(8,9) in simp)
    then show "wait_inv ?s ?m" unfolding wait_inv_def eq by (simp add: completed_simps)
    show "bounds_inv M C ?s" using c(9) by (simp add: bounds_inv_def completed_simps)
    show "call_inv ?s ?m" by (rule call_inv_calls [OF c(10)]) (use eq assms(12) in auto)
  qed
qed

subsection \<open>Waiters\<close>

lemma wait_inv_drop:
  assumes "wait_inv s (add_mset (ChunkWaiting a w) m)"
    and "\<And>b. w \<in> set (ts_waiters (sc_state s b)) \<Longrightarrow> cw_canceled (sc_waiter s w)"
  shows "wait_inv s m"
proof -
  have "sole_waiter (add_mset (ChunkWaiting a w) m) a w" using wait_invD(4) [OF assms(1)] by simp
  then have none: "{#c \<in># m. waiter_of c = Some w#} = {#}" by (simp add: sole_waiter_def)
  then have gone: "ChunkWaiting b w \<notin># m" for b by (auto simp: filter_mset_eq_mempty_iff)
  show ?thesis
  proof (rule wait_invI, goal_cases)
    case (1 b v)
    then show ?case using wait_invD(1) [OF assms(1), of v b] assms(2) [of b] by (cases "v = w") (auto simp: sole_waiter_def)
  next
    case (4 b v)
    with gone have "v \<noteq> w" by auto
    then show ?case using wait_invD(4) [OF assms(1), of b v] 4 by (auto simp: sole_waiter_def)
  qed (use wait_invD(2,3) [OF assms(1)] in blast)+
qed

lemma core_drop_waiting:
  assumes "core_inv M C closed s (add_mset (ChunkWaiting a w) m)" "\<not> cw_granted (sc_waiter s w)"
    "\<And>b. w \<in> set (ts_waiters (sc_state s b)) \<Longrightarrow> cw_canceled (sc_waiter s w)"
  shows "core_inv M C closed s m"
proof (rule core_invI)
  note c = core_invD [OF assms(1)]
  show "act_inv closed s m" by (rule act_inv_calls [OF c(6)]) (auto simp: views_add)
  show "token_inv s m" by (rule token_inv_calls [OF c(7)]) (auto simp: views_add)
  show "wait_inv s m" by (rule wait_inv_drop [OF c(8) assms(3)])
qed (use core_invD [OF assms(1)] assms(2) in
    \<open>simp_all add: refs_inv_def lane_inv_def call_inv_def views_add\<close>)

lemma core_grant_taken:
  assumes "core_inv M C closed s (add_mset (ChunkWaiting a w) m)" "cw_granted (sc_waiter s w)"
  shows "core_inv M C closed s (add_mset (ChunkLeased a) m)"
proof (rule core_invI)
  note c = core_invD [OF assms(1)]
  show "act_inv closed s (add_mset (ChunkLeased a) m)" by (rule act_inv_calls [OF c(6)]) (auto simp: views_add)
  show "token_inv s (add_mset (ChunkLeased a) m)" by (rule token_inv_calls [OF c(7)]) (auto simp: views_add)
  have "wait_inv s m" by (rule wait_inv_drop [OF c(8)]) (use assms(2) wait_invD(1) [OF c(8)] in blast)
  then show "wait_inv s (add_mset (ChunkLeased a) m)" by (rule wait_inv_calls) simp
qed (use core_invD [OF assms(1)] assms(2) in
    \<open>simp_all add: refs_inv_def lane_inv_def call_inv_def views_add\<close>)

lemma inv_of_waiters [simp]:
  "file_inv (s\<lparr>sc_waiter := wt\<rparr>) = file_inv s" "queue_inv (s\<lparr>sc_waiter := wt\<rparr>) = queue_inv s"
  "act_inv closed (s\<lparr>sc_waiter := wt\<rparr>) m = act_inv closed s m" "token_inv (s\<lparr>sc_waiter := wt\<rparr>) m = token_inv s m"
  "bounds_inv M C (s\<lparr>sc_waiter := wt\<rparr>) = bounds_inv M C s" "refs_inv (s\<lparr>sc_waiter := wt\<rparr>) m = refs_inv s m"
  "call_inv (s\<lparr>sc_waiter := wt\<rparr>) m = call_inv s m"
  by (simp_all add: inv_defs call_inv_def dc_load_def tasks_of_def)

lemma lane_inv_waiters:
  assumes "\<And>v. cw_granted (wt v) = cw_granted (sc_waiter s v)"
  shows "lane_inv (s\<lparr>sc_waiter := wt\<rparr>) m = lane_inv s m"
proof -
  have "lane_of wt x = lane_of (sc_waiter s) x" for x by (cases x) (simp_all add: assms)
  then have "lanes wt m a = lanes (sc_waiter s) m a" for a by (simp add: lanes_def)
  then show ?thesis by (simp add: lane_inv_def dc_load_def)
qed

text \<open>A set of waiters is marked as canceled; whether a waiter has been granted does not change.\<close>

lemma core_waiters:
  assumes "core_inv M C closed s m"
    and "\<And>v. cw_granted (wt v) = cw_granted (sc_waiter s v)"
    and "wait_inv (s\<lparr>sc_waiter := wt\<rparr>) m"
  shows "core_inv M C closed (s\<lparr>sc_waiter := wt\<rparr>) m"
proof -
  show ?thesis using assms by (simp add: core_inv_def lane_inv_waiters)
qed

lemma core_cancel_one:
  assumes "core_inv M C closed s (add_mset (ChunkWaiting a w) m)" "\<not> cw_granted (sc_waiter s w)"
  shows "core_inv M C closed (upd_waiter w (\<lambda>c. c\<lparr>cw_canceled := True\<rparr>) s) m"
proof -
  note c = core_invD [OF assms(1)]
  have sole: "sole_waiter (add_mset (ChunkWaiting a w) m) a w" using wait_invD(4) [OF c(8)] by simp
  then have gone: "ChunkWaiting b w \<notin># m" for b by (auto simp: sole_waiter_def filter_mset_eq_mempty_iff)
  let ?s = "upd_waiter w (\<lambda>c. c\<lparr>cw_canceled := True\<rparr>) s"
  have "wait_inv ?s m"
  proof (rule wait_invI, goal_cases)
    case (1 b v)
    then show ?case using wait_invD(1) [OF c(8), of v b] by (auto simp: sole_waiter_def)
  next
    case (4 b v)
    with gone have "v \<noteq> w" by auto
    then show ?case using wait_invD(4) [OF c(8), of b v] 4 by (auto simp: sole_waiter_def)
  next
    case (3 b b' v)
    then show ?case using wait_invD(3) [OF c(8), of v b b'] by simp
  qed (use wait_invD(2) [OF c(8)] in simp)
  moreover have "refs_inv s m" "call_inv s m" "lane_inv s m" "act_inv closed s m" "token_inv s m"
    using c(1,2,10) assms(2) act_inv_calls [OF c(6), of m] token_inv_calls [OF c(7), of m]
    by (simp_all add: refs_inv_def call_inv_def lane_inv_def views_add) auto
  ultimately show ?thesis using c(3,4,5,9)
    by (simp add: core_inv_def upd_waiter_def lane_inv_waiters)
qed

text \<open>The loop of \<open>releaseTask\<close> that cancels the waiters, in closed form.\<close>

definition canceled_all :: "nat list \<Rightarrow> (nat \<Rightarrow> chunkWaiter) \<Rightarrow> nat \<Rightarrow> chunkWaiter" where
  "canceled_all ws wt w = (if w \<in> set ws \<and> \<not> cw_canceled (wt w) then (wt w)\<lparr>cw_canceled := True, cw_ready := True\<rparr> else wt w)"

lemma cancel_waiters_eq:
  "distinct ws \<Longrightarrow> \<forall>w \<in> set ws. \<not> cw_ready (sc_waiter s w) \<Longrightarrow>
    cancel_waiters ws s = Some (s\<lparr>sc_waiter := canceled_all ws (sc_waiter s)\<rparr>)"
proof (induction ws arbitrary: s)
  case Nil
  have "canceled_all [] (sc_waiter s) = sc_waiter s" by (simp add: fun_eq_iff canceled_all_def)
  then show ?case by simp
next
  case (Cons w ws)
  show ?case
  proof (cases "cw_canceled (sc_waiter s w)")
    case True
    then have "canceled_all (w # ws) (sc_waiter s) = canceled_all ws (sc_waiter s)"
      by (auto simp: fun_eq_iff canceled_all_def)
    with True Cons show ?thesis by simp
  next
    case False
    let ?s = "s\<lparr>sc_waiter := (sc_waiter s)(w := (sc_waiter s w)\<lparr>cw_canceled := True, cw_ready := True\<rparr>)\<rparr>"
    have "close_ready w (upd_waiter w (\<lambda>c. c\<lparr>cw_canceled := True\<rparr>) s) = Some ?s"
      using Cons.prems by (simp add: close_ready_def upd_waiter_def)
    moreover have "canceled_all ws (sc_waiter ?s) = canceled_all (w # ws) (sc_waiter s)"
      using Cons.prems False by (auto simp: fun_eq_iff canceled_all_def)
    moreover have "cancel_waiters ws ?s = Some (?s\<lparr>sc_waiter := canceled_all ws (sc_waiter ?s)\<rparr>)"
      by (rule Cons.IH) (use Cons.prems in auto)
    ultimately show ?thesis using False by simp
  qed
qed

lemma core_cancel_all:
  assumes "core_inv M C closed s m"
  shows "core_inv M C closed (upd_state a (\<lambda>t. t\<lparr>ts_waiters := []\<rparr>)
    (s\<lparr>sc_waiter := canceled_all (ts_waiters (sc_state s a)) (sc_waiter s)\<rparr>)) m"
    (is "core_inv M C closed ?s m")
proof -
  note c = core_invD [OF assms(1)]
  let ?wt = "canceled_all (ts_waiters (sc_state s a)) (sc_waiter s)"
  have wt: "cw_granted (?wt v) = cw_granted (sc_waiter s v)" for v by (simp add: canceled_all_def)
  have eq: "ts_refs (sc_state ?s b) = ts_refs (sc_state s b)" "ts_active (sc_state ?s b) = ts_active (sc_state s b)"
    "ts_activating (sc_state ?s b) = ts_activating (sc_state s b)" "ts_dc (sc_state ?s b) = ts_dc (sc_state s b)"
    "ts_inFlight (sc_state ?s b) = ts_inFlight (sc_state s b)" "ts_taskID (sc_state ?s b) = ts_taskID (sc_state s b)" for b
    by simp_all
  show ?thesis
  proof (rule core_invI)
    show "refs_inv ?s m" using c(1) unfolding refs_inv_def eq .
    have "lane_inv (s\<lparr>sc_waiter := ?wt\<rparr>) m" using c(2) lane_inv_waiters [of ?wt s, OF wt] by simp
    then show "lane_inv ?s m" using task_load_cong [of "sc_state ?s" "sc_state s", OF eq(4,5)]
      unfolding lane_inv_def eq by (simp add: dc_load_def)
    show "file_inv ?s"
    proof (rule file_invI, goal_cases)
      case (1 b)
      then show ?case using file_invD(1) [OF c(3), of b] by (auto simp: newTaskState_def)
    next
      case (2 t b)
      then show ?case using file_invD(2) [OF c(3), of t b] unfolding eq by simp
    next
      case (3 b)
      then show ?case using file_invD(3) [OF c(3), of b] unfolding eq by simp
    qed
    show "task_ok (sc_state ?s b)" for b using c(4) [of b] by (auto simp: task_ok_def)
    show "queue_inv ?s" using c(5) unfolding queue_inv_def eq by (simp add: tasks_of_def)
    show "act_inv closed ?s m" using c(6) unfolding act_inv_def eq by simp
    show "token_inv ?s m" by (rule token_inv_frame [OF c(7)], unfold eq) simp_all
    show "wait_inv ?s m"
    proof (rule wait_invI, goal_cases)
      case (1 b v)
      then have v: "v \<in> set (ts_waiters (sc_state s b))" "b \<noteq> a" by (auto split: if_splits)
      then have "v \<notin> set (ts_waiters (sc_state s a))" using wait_invD(3) [OF c(8)] by blast
      then show ?case using wait_invD(1) [OF c(8) v(1)] by (simp add: canceled_all_def)
    next
      case (2 b)
      then show ?case using wait_invD(2) [OF c(8)] by simp
    next
      case (3 b b' v)
      then show ?case using wait_invD(3) [OF c(8), of v b b'] by (simp split: if_splits)
    next
      case (4 b v)
      show ?case
      proof (cases "v \<in> set (ts_waiters (sc_state s a))")
        case True
        then have "b = a \<or> cw_ready (sc_waiter s v)" using wait_invD(3,4) [OF c(8)] 4 by blast
        then show ?thesis using wait_invD(4) [OF c(8) 4] True wait_invD(1) [OF c(8) True] by (auto simp: canceled_all_def)
      next
        case False
        then show ?thesis using wait_invD(4) [OF c(8) 4] by (auto simp: canceled_all_def)
      qed
    qed
    show "bounds_inv M C ?s" using c(9) by (simp add: bounds_inv_def dc_load_def)
    show "call_inv ?s m" by (rule call_inv_calls [OF c(10)]) (use eq in auto)
  qed
qed

lemma core_enqueue:
  assumes "core_inv M C closed s m" "ts_active (sc_state s a)" "0 < ts_refs (sc_state s a)"
  shows "core_inv M C closed
    (upd_state a (\<lambda>t. t\<lparr>ts_waiters := ts_waiters t @ [sc_walloc s]\<rparr>)
      (upd_waiter (sc_walloc s) (\<lambda>_. \<lparr>cw_ready = False, cw_granted = False, cw_canceled = False\<rparr>)
        (s\<lparr>sc_walloc := Suc (sc_walloc s)\<rparr>)))
    (add_mset (ChunkWaiting a (sc_walloc s)) m)"
    (is "core_inv M C closed ?s (add_mset ?c m)")
proof -
  note c = core_invD [OF assms(1)]
  let ?w = "sc_walloc s"
  have eq: "ts_refs (sc_state ?s b) = ts_refs (sc_state s b)" "ts_active (sc_state ?s b) = ts_active (sc_state s b)"
    "ts_activating (sc_state ?s b) = ts_activating (sc_state s b)" "ts_dc (sc_state ?s b) = ts_dc (sc_state s b)"
    "ts_inFlight (sc_state ?s b) = ts_inFlight (sc_state s b)" "ts_taskID (sc_state ?s b) = ts_taskID (sc_state s b)" for b
    by simp_all
  have fresh: "waiter_of x \<noteq> Some ?w" if "x \<in># m" for x
    using that wait_invD(4) [OF c(8)] by (cases x) auto
  have queued: "v < ?w" if "v \<in> set (ts_waiters (sc_state s b))" for v b using wait_invD(1) [OF c(8) that] by simp
  have sole: "sole_waiter (add_mset ?c m) b v \<longleftrightarrow> (if v = ?w then b = a else sole_waiter m b v)" for b v
    
  proof -
    have "{#x \<in># m. waiter_of x = Some ?w#} = {#}" using fresh by simp
    then show ?thesis by (auto simp: sole_waiter_def)
  qed
  show ?thesis
  proof (rule core_invI)
    show "refs_inv ?s (add_mset ?c m)" using c(1) unfolding refs_inv_def eq by (simp add: views_add)
    have "lane_of (sc_waiter ?s) x = lane_of (sc_waiter s) x" if "x \<in># m" for x
      using fresh [OF that] by (cases x) auto
    then have "lanes (sc_waiter ?s) m b = lanes (sc_waiter s) m b" for b
      unfolding lanes_def by (intro arg_cong [where f = size] filter_mset_cong0) simp
    then show "lane_inv ?s (add_mset ?c m)"
      using c(2) task_load_cong [of "sc_state ?s" "sc_state s", OF eq(4,5)] unfolding lane_inv_def eq
      by (simp add: views_add dc_load_def)
    show "file_inv ?s"
    proof (rule file_invI, goal_cases)
      case (1 b)
      then show ?case using file_invD(1) [OF c(3), of b] assms(2) by (auto simp: newTaskState_def)
    next
      case (2 t b)
      then show ?case using file_invD(2) [OF c(3), of t b] unfolding eq by simp
    next
      case (3 b)
      then show ?case using file_invD(3) [OF c(3), of b] unfolding eq by simp
    qed
    show "task_ok (sc_state ?s b)" for b using c(4) [of b] assms(2,3) by (auto simp: task_ok_def)
    show "queue_inv ?s" using c(5) unfolding queue_inv_def eq by (simp add: tasks_of_def)
    have "act_inv closed s (add_mset ?c m)" by (rule act_inv_calls [OF c(6)]) (auto simp: views_add)
    then show "act_inv closed ?s (add_mset ?c m)" unfolding act_inv_def eq by simp
    have "token_inv s (add_mset ?c m)" by (rule token_inv_calls [OF c(7)]) (auto simp: views_add)
    then show "token_inv ?s (add_mset ?c m)" by (rule token_inv_frame, unfold eq) simp_all
    show "wait_inv ?s (add_mset ?c m)"
    proof (rule wait_invI, goal_cases)
      case (1 b v)
      then show ?case using wait_invD(1) [OF c(8), of v b] by (auto simp: sole split: if_splits)
    next
      case (2 b)
      then show ?case using wait_invD(2) [OF c(8), of b] queued by (auto simp: less_irrefl)
    next
      case (3 b b' v)
      then show ?case using wait_invD(3) [OF c(8), of v b b'] queued by (auto split: if_splits)
    next
      case (4 b v)
      show ?case
      proof (cases "ChunkWaiting b v = ?c")
        case True
        then show ?thesis by (simp add: sole)
      next
        case False
        with 4 have in_m: "ChunkWaiting b v \<in># m" by auto
        then have "v \<noteq> ?w" using fresh by force
        then show ?thesis using wait_invD(4) [OF c(8) in_m] by (auto simp: sole)
      qed
    qed
    show "bounds_inv M C ?s" using c(9) by (simp add: bounds_inv_def dc_load_def)
    show "call_inv ?s (add_mset ?c m)" by (rule call_inv_calls [OF c(10)]) (use eq in auto)
  qed
qed

subsection \<open>Giving back\<close>

lemma core_unref:
  assumes "core_inv M C closed s (add_mset (Releasing a) m)"
  shows "core_but a M C closed (upd_state a (\<lambda>t. t\<lparr>ts_refs := ts_refs t - 1\<rparr>) s) m"
    (is "core_but a M C closed ?s m")
proof -
  note c = core_invD [OF assms(1)]
  have eq: "ts_active (sc_state ?s b) = ts_active (sc_state s b)" "ts_activating (sc_state ?s b) = ts_activating (sc_state s b)"
    "ts_dc (sc_state ?s b) = ts_dc (sc_state s b)" "ts_waiters (sc_state ?s b) = ts_waiters (sc_state s b)"
    "ts_inFlight (sc_state ?s b) = ts_inFlight (sc_state s b)" "ts_taskID (sc_state ?s b) = ts_taskID (sc_state s b)" for b
    by simp_all
  show ?thesis
  proof (rule core_butI)
    show "refs_inv ?s m" using c(1) by (auto simp: refs_inv_def views_add)
    show "lane_inv ?s m"
      using c(2) task_load_cong [of "sc_state ?s" "sc_state s", OF eq(3,5)] unfolding lane_inv_def eq
      by (simp add: views_add dc_load_def)
    show "file_inv ?s"
    proof (rule file_invI, goal_cases)
      case (1 b)
      then show ?case using file_invD(1) [OF c(3), of b] by (auto simp: newTaskState_def)
    next
      case (2 t b)
      then show ?case using file_invD(2) [OF c(3), of t b] unfolding eq by simp
    next
      case (3 b)
      then show ?case using file_invD(3) [OF c(3), of b] unfolding eq by (auto split: if_splits)
    qed
    show "task_ok (sc_state ?s b)" if "b \<noteq> a" for b using c(4) [of b] that by (simp add: task_ok_def)
    show "queue_inv ?s" using c(5) unfolding queue_inv_def eq by (simp add: tasks_of_def)
    have "act_inv closed s m" by (rule act_inv_calls [OF c(6)]) (auto simp: views_add)
    then show "act_inv closed ?s m" unfolding act_inv_def eq by simp
    have "token_inv s m" by (rule token_inv_calls [OF c(7)]) (auto simp: views_add)
    then show "token_inv ?s m" by (rule token_inv_frame, unfold eq) simp_all
    have "wait_inv s m" by (rule wait_inv_calls [OF c(8)]) simp
    then show "wait_inv ?s m" unfolding wait_inv_def eq by simp
    show "bounds_inv M C ?s" using c(9) by (simp add: bounds_inv_def dc_load_def)
    show "call_inv ?s m" by (rule call_inv_calls [OF c(10)]) (use eq in auto)
  qed
qed

lemma core_forget:
  assumes "core_inv M C closed s m" "ts_refs (sc_state s a) = 0" "\<not> ts_active (sc_state s a)"
    "ts_activating (sc_state s a) = None" "sc_files s tid = Some a"
  shows "core_inv M C closed (s\<lparr>sc_files := (sc_files s)(tid := None)\<rparr>) m"
    (is "core_inv M C closed ?s m")
proof -
  note c = core_invD [OF assms(1)]
  have "file_inv ?s"
  proof (rule file_invI, goal_cases)
    case (3 b)
    then have "sc_files s (ts_taskID (sc_state s b)) = Some b" "b \<noteq> a"
      using file_invD(3) [OF c(3), of b] assms(2,3,4) by auto
    with assms(5) show ?case by auto
  qed (use file_invD(1,2) [OF c(3)] in \<open>auto split: if_splits\<close>)
  moreover have "token_inv ?s m" by (rule token_inv_frame [OF c(7)]) simp_all
  ultimately show ?thesis using c(1,2,4,5,6,8,9,10)
    by (simp add: core_inv_def refs_inv_def lane_inv_def queue_inv_def act_inv_def wait_inv_def
        bounds_inv_def call_inv_def dc_load_def tasks_of_def)
qed

lemma task_load_ge: "a < n \<Longrightarrow> ts_inFlight (st a) \<le> task_load st n (ts_dc (st a))"
  unfolding task_load_def
  by (rule order_trans [OF _ member_le_sum [where i = a]]) simp_all

lemma core_unlane:
  assumes "core_inv M C closed s (add_mset c m)" "c = ChunkLeased a \<or> (\<exists>w. c = ChunkWaiting a w \<and> cw_granted (sc_waiter s w))"
  obtains dc where "sc_dcs s (ts_dc (sc_state s a)) = Some dc" "0 < ts_inFlight (sc_state s a)" "0 < dc_inFlight dc"
    "core_but a M C closed (upd_state a (\<lambda>t. t\<lparr>ts_inFlight := ts_inFlight t - 1\<rparr>)
      (s\<lparr>sc_dcs := (sc_dcs s)(ts_dc (sc_state s a) \<mapsto> dc\<lparr>dc_inFlight := dc_inFlight dc - 1\<rparr>)\<rparr>)) m"
proof -
  note c = core_invD [OF assms(1)]
  let ?d = "ts_dc (sc_state s a)"
  have views: "ref_of c = None" "act_of c = None" "\<not> has_token c" "lane_of (sc_waiter s) c = Some a"
    using assms(2) by auto
  have lane: "ts_inFlight (sc_state s a) = Suc (lanes (sc_waiter s) m a)"
    using c(2) views(4) by (simp add: lane_inv_def views_add)
  then have act: "ts_active (sc_state s a)" using c(4) [of a] by (simp add: task_ok_def)
  then have al: "a < sc_alloc s" by (rule active_allocated [OF c(3)])
  have load: "ts_inFlight (sc_state s a) \<le> dc_load s ?d"
    using task_load_ge [OF al, of "sc_state s"] c(2) by (simp add: lane_inv_def)
  with lane obtain dc where dc: "sc_dcs s ?d = Some dc" "0 < dc_inFlight dc"
    by (auto simp: dc_load_def split: option.splits)
  let ?s = "upd_state a (\<lambda>t. t\<lparr>ts_inFlight := ts_inFlight t - 1\<rparr>)
      (s\<lparr>sc_dcs := (sc_dcs s)(?d \<mapsto> dc\<lparr>dc_inFlight := dc_inFlight dc - 1\<rparr>)\<rparr>)"
  have eq: "ts_active (sc_state ?s b) = ts_active (sc_state s b)" "ts_activating (sc_state ?s b) = ts_activating (sc_state s b)"
    "ts_dc (sc_state ?s b) = ts_dc (sc_state s b)" "ts_waiters (sc_state ?s b) = ts_waiters (sc_state s b)"
    "ts_refs (sc_state ?s b) = ts_refs (sc_state s b)" "ts_taskID (sc_state ?s b) = ts_taskID (sc_state s b)" for b
    by simp_all
  have dcl: "dc_load ?s e = dc_load s e - (if e = ?d then 1 else 0)" for e
    using dc by (simp add: dc_load_def)
  have tsk: "tasks_of ?s e = tasks_of s e" for e using dc by (simp add: tasks_of_def)
  have "core_but a M C closed ?s m"
  proof (rule core_butI)
    show "refs_inv ?s m" using c(1) views unfolding refs_inv_def eq by (simp add: views_add)
    have "task_load (sc_state ?s) (sc_alloc s) e = task_load (sc_state s) (sc_alloc s) e - (if e = ?d then 1 else 0)" for e
      using task_load_upd [OF al, of "sc_state ?s a" "sc_state s" e] lane by (auto split: if_splits)
    moreover have "ts_inFlight (sc_state ?s b) = lanes (sc_waiter s) m b" for b
      using c(2) views lane by (simp add: lane_inv_def views_add)
    ultimately show "lane_inv ?s m"
      using c(2) unfolding lane_inv_def dcl by simp
    show "file_inv ?s"
    proof (rule file_invI, goal_cases)
      case (1 b)
      then show ?case using file_invD(1) [OF c(3), of b] al by simp
    next
      case (2 t b)
      then show ?case using file_invD(2) [OF c(3), of t b] unfolding eq by simp
    next
      case (3 b)
      then show ?case using file_invD(3) [OF c(3), of b] unfolding eq by simp
    qed
    show "task_ok (sc_state ?s b)" if "b \<noteq> a" for b using c(4) [of b] that by simp
    show "queue_inv ?s" using c(5) unfolding queue_inv_def eq tsk .
    have "act_inv closed s m" by (rule act_inv_calls [OF c(6)]) (use views in \<open>auto simp: views_add\<close>)
    then show "act_inv closed ?s m" unfolding act_inv_def eq by simp
    have "token_inv s m" by (rule token_inv_calls [OF c(7)]) (use views in \<open>auto simp: views_add\<close>)
    then show "token_inv ?s m" by (rule token_inv_frame, unfold eq) simp_all
    have "wait_inv s m"
      using assms(2) wait_inv_calls [OF c(8), of m] wait_inv_drop [of s a _ m] c(8) wait_invD(1) [OF c(8)] by fastforce
    then show "wait_inv ?s m" unfolding wait_inv_def eq by simp
    show "bounds_inv M C ?s" using c(9) unfolding bounds_inv_def dcl by (auto intro: order_trans [OF diff_le_self])
    show "call_inv ?s m" by (rule call_inv_calls [OF c(10)]) (use eq in auto)
  qed
  with that dc lane show ?thesis by simp
qed

definition removed :: "nat \<Rightarrow> scheduler \<Rightarrow> scheduler" where
  "removed a s =
     (let t = sc_state s a;
          s1 = (case sc_dcs s (ts_dc t) of
                  None \<Rightarrow> s
                | Some dc \<Rightarrow> s\<lparr>sc_dcs := (sc_dcs s)(ts_dc t \<mapsto> dc\<lparr>dc_tasks := remove1 a (dc_tasks dc)\<rparr>)\<rparr>);
          s2 = upd_state a (\<lambda>t. t\<lparr>ts_active := False\<rparr>) s1
      in s2\<lparr>sc_files := (sc_files s2)(ts_taskID t := None)\<rparr>)"

lemma removeActiveTaskLocked_eq: "removeActiveTaskLocked a s = dispatchLocked (ts_dc (sc_state s a)) (removed a s)"
  by (simp add: removeActiveTaskLocked_def removed_def)

lemma removed_simps:
  "sc_tokens (removed a s) = sc_tokens s" "sc_alloc (removed a s) = sc_alloc s" "sc_waiter (removed a s) = sc_waiter s"
  "sc_walloc (removed a s) = sc_walloc s" "sc_chan (removed a s) = sc_chan s" "sc_calloc (removed a s) = sc_calloc s"
  "sc_capacity (removed a s) = sc_capacity s" "dc_load (removed a s) d = dc_load s d"
  "tasks_of (removed a s) d = (if d = ts_dc (sc_state s a) then remove1 a (tasks_of s d) else tasks_of s d)"
  "sc_state (removed a s) = (sc_state s)(a := (sc_state s a)\<lparr>ts_active := False\<rparr>)"
  "sc_files (removed a s) = (sc_files s)(ts_taskID (sc_state s a) := None)"
  by (auto simp: removed_def dc_load_def tasks_of_def split: option.splits)

lemma core_removed:
  assumes "core_but a M C closed s m" "ts_active (sc_state s a)" "ts_refs (sc_state s a) = 0"
    "ts_inFlight (sc_state s a) = 0" "ts_waiters (sc_state s a) = []" "ts_activating (sc_state s a) = None"
  shows "core_inv M C closed (removed a s) (add_mset FreeToken m)"
    (is "core_inv M C closed ?s ?m")
proof -
  note c = core_butD [OF assms(1)]
  have al: "a < sc_alloc s" by (rule active_allocated [OF c(3) assms(2)])
  have fa: "sc_files s (ts_taskID (sc_state s a)) = Some a" using file_invD(3) [OF c(3)] assms(2) by blast
  have act: "ts_active (sc_state ?s b) = (b \<noteq> a \<and> ts_active (sc_state s b))" for b by (simp add: removed_simps)
  have eq: "ts_activating (sc_state ?s b) = ts_activating (sc_state s b)" "ts_inFlight (sc_state ?s b) = ts_inFlight (sc_state s b)"
    "ts_dc (sc_state ?s b) = ts_dc (sc_state s b)" "ts_waiters (sc_state ?s b) = ts_waiters (sc_state s b)"
    "ts_refs (sc_state ?s b) = ts_refs (sc_state s b)" "ts_taskID (sc_state ?s b) = ts_taskID (sc_state s b)" for b
    by (simp_all add: removed_simps)
  show ?thesis
  proof (rule core_invI)
    show "refs_inv ?s ?m" using c(1) unfolding refs_inv_def eq by (simp add: views_add)
    show "lane_inv ?s ?m" using c(2) task_load_cong [of "sc_state ?s" "sc_state s", OF eq(3,2)]
      unfolding lane_inv_def eq by (simp add: views_add removed_simps)
    show "file_inv ?s"
    proof (rule file_invI, goal_cases)
      case (1 b)
      then show ?case using file_invD(1) [OF c(3), of b] al by (simp add: removed_simps)
    next
      case (2 t b)
      then show ?case using file_invD(2) [OF c(3), of t b] unfolding eq by (simp add: removed_simps split: if_splits)
    next
      case (3 b)
      then have "sc_files s (ts_taskID (sc_state s b)) = Some b" "b \<noteq> a"
        using file_invD(3) [OF c(3), of b] assms(3,6) unfolding eq act by auto
      with fa show ?case unfolding eq by (auto simp: removed_simps)
    qed
    show "task_ok (sc_state ?s b)" for b
      using c(4) [of b] assms(3-6) by (cases "b = a") (auto simp: task_ok_def removed_simps)
    show "queue_inv ?s"
      unfolding queue_inv_def
    proof (intro allI conjI)
      fix d b
      have q: "distinct (tasks_of s d)" "b \<in> set (tasks_of s d) \<longleftrightarrow> ts_active (sc_state s b) \<and> ts_dc (sc_state s b) = d"
        using c(5) by (auto simp: queue_inv_def)
      show "distinct (tasks_of ?s d)" using q(1) by (auto simp: removed_simps)
      show "b \<in> set (tasks_of ?s d) \<longleftrightarrow> ts_active (sc_state ?s b) \<and> ts_dc (sc_state ?s b) = d"
        using q unfolding eq act by (auto simp: removed_simps)
    qed
    have "act_inv closed s ?m" by (rule act_inv_calls [OF c(6)]) (auto simp: views_add)
    then show "act_inv closed ?s ?m" unfolding act_inv_def eq by (simp add: removed_simps)
    show "token_inv ?s ?m"
    proof (rule token_invI, goal_cases)
      case 1
      then show ?case using token_invD(1) [OF c(7)] active_tasks_upd [OF al, of "sc_state s" "sc_state ?s a"] assms(2)
        by (simp add: views_add removed_simps)
    next
      case (2 tid dc b ch g)
      then show ?case using token_invD(2) [OF c(7), of tid dc b ch g] by (simp add: removed_simps)
    qed
    have "wait_inv s ?m" by (rule wait_inv_calls [OF c(8)]) simp
    then show "wait_inv ?s ?m" unfolding wait_inv_def eq by (simp add: removed_simps)
    show "bounds_inv M C ?s" using c(9) by (simp add: bounds_inv_def removed_simps)
    show "call_inv ?s ?m" by (rule call_inv_calls [OF c(10)]) (use eq in auto)
  qed
qed

lemma conserving_removed: "conserving s e \<Longrightarrow> e \<noteq> ts_dc (sc_state s a) \<Longrightarrow> conserving (removed a s) e"
  unfolding conserving_def by (simp add: removed_simps)

subsection \<open>Every section keeps the invariant and does not panic\<close>

definition sched_inv :: "nat \<Rightarrow> nat \<Rightarrow> scheduler \<Rightarrow> call multiset \<Rightarrow> bool" where
  "sched_inv M C s m \<longleftrightarrow> core_inv M C (sc_chan s) s m \<and> (\<forall>d. conserving s d)"

lemma sched_invD:
  assumes "sched_inv M C s m"
  shows "core_inv M C (sc_chan s) s m" "conserving s d"
  using assms by (simp_all add: sched_inv_def)

lemma dispatch_inv:
  assumes "core_inv M C (sc_chan s) s m" "\<And>e. e \<noteq> d \<Longrightarrow> conserving s e"
  shows "\<exists>s'. dispatchLocked d s = Some s' \<and> sched_inv M C s' m"
proof -
  from dispatch_keeps [OF assms] obtain s' where "dispatchLocked d s = Some s'" "core_inv M C (sc_chan s) s' m"
    "\<forall>e. conserving s' e" "disp_frame s s'" by blast
  then show ?thesis by (auto simp: sched_inv_def disp_frame_def)
qed

lemma complete_section:
  assumes "sched_inv M C s (add_mset c m)" "act_of c = Some (a, ready)" "has_token c = success"
    "ref_of c = Some a" "ref_of c' = Some a" "act_of c' = None" "\<not> has_token c'" "waiter_of c = None" "waiter_of c' = None"
    "\<And>wt. lane_of wt c = None" "\<And>wt. lane_of wt c' = None" "call_ok (sc_state s) c'"
    "\<And>tid dc a ch. c' \<noteq> WaitReady tid dc a ch"
  shows "\<exists>s'. completeActivation a ready success s = Some (s', []) \<and> sched_inv M C s' (add_mset c' m)"
proof -
  note core = sched_invD(1) [OF assms(1)]
  note c = core_invD [OF core]
  let ?s = "completed a success s" and ?closed = "(sc_chan s)(ready := True)"
  have ready: "ts_activating (sc_state s a) = Some ready" using act_invD(4) [OF c(6) _ assms(2)] by simp
  have open_chan: "\<not> sc_chan s ready" using act_invD(1) [OF c(6) ready] by simp
  have fa: "sc_files s (ts_taskID (sc_state s a)) = Some a" using file_invD(3) [OF c(3), of a] ready by simp
  have core': "core_inv M C ?closed ?s (add_mset c' m)" by (rule core_completed [OF core assms(2-13)])
  have cons: "conserving ?s e" if "success \<longrightarrow> e \<noteq> ts_dc (sc_state s a)" for e
    using sched_invD(2) [OF assms(1), of e] that unfolding conserving_def by (auto simp: completed_simps)
  have "\<exists>s1. (if success then dispatchLocked (ts_dc (sc_state s a)) ?s else Some ?s) = Some s1
      \<and> core_inv M C ?closed s1 (add_mset c' m) \<and> (\<forall>e. conserving s1 e) \<and> sc_chan s1 = sc_chan s"
  proof (cases success)
    case True
    have "conserving ?s e" if "e \<noteq> ts_dc (sc_state s a)" for e using cons that by blast
    from dispatch_keeps [where d = "ts_dc (sc_state s a)", OF core' this] True show ?thesis by (auto simp: disp_frame_def completed_simps)
  next
    case False
    with core' cons show ?thesis by (auto simp: completed_simps)
  qed
  then obtain s1 where s1: "(if success then dispatchLocked (ts_dc (sc_state s a)) ?s else Some ?s) = Some s1"
    "core_inv M C ?closed s1 (add_mset c' m)" "\<forall>e. conserving s1 e" "sc_chan s1 = sc_chan s" by blast
  let ?s2 = "s1\<lparr>sc_chan := ?closed\<rparr>"
  have "completeActivation a ready success s = Some (?s2, [])"
    using s1(1,4) ready fa open_chan
    by (auto simp: completeActivation_def completed_def close_chan_def split: if_splits)
  moreover have "sched_inv M C ?s2 (add_mset c' m)"
  proof -
    have "core_inv M C ?closed ?s2 (add_mset c' m)"
      using core_invD [OF s1(2)] token_inv_frame [of s1 "add_mset c' m" ?s2]
      by (simp add: core_inv_def refs_inv_def lane_inv_def file_inv_def queue_inv_def act_inv_def wait_inv_def
          bounds_inv_def call_inv_def dc_load_def tasks_of_def)
    moreover have "conserving ?s2 e" for e using s1(3) by (simp add: conserving_defs)
    ultimately show ?thesis by (simp add: sched_inv_def)
  qed
  ultimately show ?thesis by blast
qed

lemma remove_section:
  assumes "core_but a M C (sc_chan s) s m" "ts_active (sc_state s a)" "ts_refs (sc_state s a) = 0"
    "ts_inFlight (sc_state s a) = 0" "ts_waiters (sc_state s a) = []" "ts_activating (sc_state s a) = None"
    "\<And>e. e \<noteq> ts_dc (sc_state s a) \<Longrightarrow> conserving s e"
  shows "\<exists>s'. removeActiveTaskLocked a s = Some s' \<and> sched_inv M C s' (add_mset FreeToken m)"
  unfolding removeActiveTaskLocked_eq
  by (rule dispatch_inv)
     (use core_removed [OF assms(1-6)] conserving_removed assms(7) in \<open>auto simp: removed_simps\<close>)

lemma releaseChunk_section:
  assumes "sched_inv M C s (add_mset c m)"
    "c = ChunkLeased a \<or> (\<exists>w. c = ChunkWaiting a w \<and> cw_granted (sc_waiter s w))"
  shows "\<exists>s'. releaseChunkLocked a s = Some s' \<and> sched_inv M C s' m"
proof -
  let ?d = "ts_dc (sc_state s a)"
  obtain dc where dc: "sc_dcs s ?d = Some dc" "0 < ts_inFlight (sc_state s a)" "0 < dc_inFlight dc"
    "core_but a M C (sc_chan s) (upd_state a (\<lambda>t. t\<lparr>ts_inFlight := ts_inFlight t - 1\<rparr>)
      (s\<lparr>sc_dcs := (sc_dcs s)(?d \<mapsto> dc\<lparr>dc_inFlight := dc_inFlight dc - 1\<rparr>)\<rparr>)) m"
    using core_unlane [OF sched_invD(1) [OF assms(1)] assms(2)] by blast
  define s1 where "s1 = upd_state a (\<lambda>t. t\<lparr>ts_inFlight := ts_inFlight t - 1\<rparr>)
      (s\<lparr>sc_dcs := (sc_dcs s)(?d \<mapsto> dc\<lparr>dc_inFlight := dc_inFlight dc - 1\<rparr>)\<rparr>)"
  have but: "core_but a M C (sc_chan s1) s1 m" using dc(4) by (simp add: s1_def)
  have t: "sc_state s1 a = (sc_state s a)\<lparr>ts_inFlight := ts_inFlight (sc_state s a) - 1\<rparr>" by (simp add: s1_def)
  have ok: "task_ok (sc_state s a)" using core_invD(4) [OF sched_invD(1) [OF assms(1)]] .
  have cons: "conserving s1 e" if "e \<noteq> ?d" for e
    by (rule conserving_frame [OF sched_invD(2) [OF assms(1)]]) (use that in \<open>simp_all add: s1_def\<close>)
  have run: "releaseChunkLocked a s = (if ts_refs (sc_state s1 a) = 0 \<and> ts_inFlight (sc_state s1 a) = 0
      then removeActiveTaskLocked a s1 \<bind> release_token else dispatchLocked ?d s1)"
    using dc(1,2,3) by (simp add: releaseChunkLocked_def s1_def)
  show ?thesis
  proof (cases "ts_refs (sc_state s1 a) = 0 \<and> ts_inFlight (sc_state s1 a) = 0")
    case True
    have "\<exists>s'. removeActiveTaskLocked a s1 = Some s' \<and> sched_inv M C s' (add_mset FreeToken m)"
    proof (rule remove_section [OF but])
      show "conserving s1 e" if "e \<noteq> ts_dc (sc_state s1 a)" for e using cons that t by simp
    qed (use True ok dc(2) t in \<open>auto simp: task_ok_def\<close>)
    then obtain s2 where s2: "removeActiveTaskLocked a s1 = Some s2" "sched_inv M C s2 (add_mset FreeToken m)" by blast
    from core_release_token [OF sched_invD(1) [OF s2(2)]] obtain l where
      "release_token s2 = Some (s2\<lparr>sc_tokens := l\<rparr>)" "core_inv M C (sc_chan s2) (s2\<lparr>sc_tokens := l\<rparr>) m" by blast
    moreover have "conserving (s2\<lparr>sc_tokens := l\<rparr>) e" for e
      using sched_invD(2) [OF s2(2)] same_queues_conserving [of s2 "s2\<lparr>sc_tokens := l\<rparr>"] by simp
    ultimately show ?thesis using run True s2(1) by (auto simp: sched_inv_def)
  next
    case False
    have "task_ok (sc_state s1 a)" using ok False dc(2) t by (auto simp: task_ok_def)
    with but have "core_inv M C (sc_chan s1) s1 m" by (simp add: core_but_iff [of _ _ _ _ _ a])
    from dispatch_inv [OF this cons] run False show ?thesis by auto
  qed
qed

lemma releaseTask_section:
  assumes "sched_inv M C s (add_mset (Releasing a) m)"
  shows "\<exists>s' cs. releaseTask a s = Some (s', cs) \<and> sched_inv M C s' (m + mset cs)"
proof -
  note core = sched_invD(1) [OF assms]
  note c = core_invD [OF core]
  let ?t = "sc_state s a"
  have refs: "0 < ts_refs ?t" using holder_ref [OF c(1), of "Releasing a"] by simp
  have fa: "sc_files s (ts_taskID ?t) = Some a" using file_invD(3) [OF c(3)] refs by blast
  let ?s1 = "upd_state a (\<lambda>t. t\<lparr>ts_refs := ts_refs t - 1\<rparr>) s"
  show ?thesis
  proof (cases "ts_refs ?t = 1")
    case False
    have "task_ok (sc_state ?s1 a)" using c(4) [of a] refs False by (auto simp: task_ok_def)
    with core_unref [OF core] have "core_inv M C (sc_chan ?s1) ?s1 m" by (simp add: core_but_iff [of _ _ _ _ _ a])
    moreover have "conserving ?s1 e" for e
      using sched_invD(2) [OF assms] same_queues_conserving [of s ?s1] by (simp add: same_queues_def)
    moreover have "releaseTask a s = Some (?s1, [])" using refs fa False by (simp add: releaseTask_def)
    ultimately show ?thesis by (auto simp: sched_inv_def)
  next
    case True
    let ?wt = "canceled_all (ts_waiters ?t) (sc_waiter s)"
    let ?sc = "upd_state a (\<lambda>t. t\<lparr>ts_waiters := []\<rparr>) (s\<lparr>sc_waiter := ?wt\<rparr>)"
    define s3 where "s3 = upd_state a (\<lambda>t. t\<lparr>ts_refs := ts_refs t - 1\<rparr>) ?sc"
    have but: "core_but a M C (sc_chan s3) s3 m"
      using core_unref [OF core_cancel_all [OF core, of a]] by (simp add: s3_def)
    have t: "sc_state s3 a = ?t\<lparr>ts_refs := 0, ts_waiters := []\<rparr>" using True by (simp add: s3_def)
    have fr: "sc_dcs s3 = sc_dcs s" "sc_capacity s3 = sc_capacity s" "sc_files s3 = sc_files s"
      "sc_waiter s3 = ?wt" by (simp_all add: s3_def)
    have cons: "conserving s3 e" for e
      using sched_invD(2) [OF assms, of e]
      by (rule conserving_frame) (auto simp: fr canceled_all_def s3_def)
    have cw: "cancel_waiters (ts_waiters ?t) ?s1 = Some (?s1\<lparr>sc_waiter := ?wt\<rparr>)"
      using cancel_waiters_eq [of "ts_waiters ?t" ?s1] wait_invD(1,2) [OF c(8)] by simp
    have s3: "upd_state a (\<lambda>t. t\<lparr>ts_waiters := []\<rparr>) (?s1\<lparr>sc_waiter := ?wt\<rparr>) = s3"
      unfolding s3_def by (rule scheduler.equality) (auto simp: fun_eq_iff intro!: taskState.equality)
    have run: "releaseTask a s = (if ts_active ?t \<and> ts_inFlight ?t = 0
        then removeActiveTaskLocked a s3 \<bind> (\<lambda>s4. Some (s4, [FreeToken]))
        else if \<not> ts_active ?t \<and> ts_activating ?t = None
        then Some (s3\<lparr>sc_files := (sc_files s3)(ts_taskID ?t := None)\<rparr>, [])
        else Some (s3, []))"
      using refs fa True cw s3 by (simp add: releaseTask_def)
    show ?thesis
    proof (cases "ts_active ?t \<and> ts_inFlight ?t = 0")
      case active: True
      have "\<exists>s'. removeActiveTaskLocked a s3 = Some s' \<and> sched_inv M C s' (add_mset FreeToken m)"
        by (rule remove_section [OF but]) (use active c(4) [of a] t cons in \<open>auto simp: task_ok_def\<close>)
      with run active show ?thesis by auto
    next
      case False
      have "task_ok (sc_state s3 a)" using c(4) [of a] False t by (auto simp: task_ok_def)
      with but have core3: "core_inv M C (sc_chan s3) s3 m" by (simp add: core_but_iff [of _ _ _ _ _ a])
      have "core_inv M C (sc_chan s3) (s3\<lparr>sc_files := (sc_files s3)(ts_taskID ?t := None)\<rparr>) m"
        if "\<not> ts_active ?t" "ts_activating ?t = None"
        by (rule core_forget [OF core3, of a]) (use that t fa fr in auto)
      moreover have "conserving (s3\<lparr>sc_files := f\<rparr>) e" for e f using cons by (simp add: conserving_defs)
      ultimately show ?thesis using run False core3 cons by (auto simp: sched_inv_def)
    qed
  qed
qed

lemma acquireChunk_section:
  assumes "sched_inv M C s m"
  shows "\<exists>s' cs. acquireChunk ctx a s = Some (s', cs) \<and> sched_inv M C s' (m + mset cs)"
proof (cases "ctx = None \<and> ts_active (sc_state s a) \<and> 1 \<le> ts_refs (sc_state s a)")
  case False
  with assms show ?thesis by (auto simp: acquireChunk_def)
next
  case True
  let ?w = "sc_walloc s"
  let ?s = "upd_state a (\<lambda>t. t\<lparr>ts_waiters := ts_waiters t @ [?w]\<rparr>)
      (upd_waiter ?w (\<lambda>_. \<lparr>cw_ready = False, cw_granted = False, cw_canceled = False\<rparr>) (s\<lparr>sc_walloc := Suc ?w\<rparr>))"
  note core = sched_invD(1) [OF assms]
  note c = core_invD [OF core]
  have "core_inv M C (sc_chan ?s) ?s (add_mset (ChunkWaiting a ?w) m)"
    using core_enqueue [OF core] True by simp
  moreover have "conserving ?s e" if "e \<noteq> ts_dc (sc_state s a)" for e
  proof -
    have "a \<notin> set (tasks_of s e)" using that c(5) by (auto simp: queue_inv_def)
    moreover have "w \<noteq> ?w" if "w \<in> set (ts_waiters (sc_state s b))" for w b
      using wait_invD(1) [OF c(8) that] by auto
    ultimately show ?thesis using sched_invD(2) [OF assms, of e] unfolding conserving_def
      by (auto simp: dc_load_def tasks_of_def split: if_splits)
  qed
  ultimately obtain s' where "dispatchLocked (ts_dc (sc_state s a)) ?s = Some s'"
    "sched_inv M C s' (add_mset (ChunkWaiting a ?w) m)" using dispatch_inv by blast
  with True show ?thesis by (simp add: acquireChunk_def)
qed

lemma chunk_canceled_section:
  assumes "sched_inv M C s (add_mset (ChunkWaiting a w) m)"
  shows "\<exists>s'. chunk_canceled a w s = Some (s', []) \<and> sched_inv M C s' m"
proof (cases "cw_granted (sc_waiter s w)")
  case True
  with releaseChunk_section [OF assms, of a] show ?thesis by (auto simp: chunk_canceled_def)
next
  case False
  let ?s = "upd_waiter w (\<lambda>c. c\<lparr>cw_canceled := True\<rparr>) s"
  have "core_inv M C (sc_chan ?s) ?s m" using core_cancel_one [OF sched_invD(1) [OF assms] False] by simp
  moreover have "conserving ?s e" for e
    by (rule conserving_frame [OF sched_invD(2) [OF assms]]) auto
  ultimately show ?thesis using dispatch_inv [of M C ?s m "ts_dc (sc_state s a)"] False
    by (auto simp: chunk_canceled_def)
qed

lemma chunk_ready_section:
  assumes "sched_inv M C s (add_mset (ChunkWaiting a w) m)" "cw_ready (sc_waiter s w)"
  shows "\<exists>s' cs. chunk_ready ctx a w s = Some (s', cs) \<and> sched_inv M C s' (m + mset cs)"
proof -
  note core = sched_invD(1) [OF assms(1)]
  consider "\<not> cw_granted (sc_waiter s w)" | "cw_granted (sc_waiter s w)" "ctx = None" | "cw_granted (sc_waiter s w)" "ctx \<noteq> None"
    by blast
  then show ?thesis
  proof cases
    case 1
    have "core_inv M C (sc_chan s) s m"
      by (rule core_drop_waiting [OF core 1]) (use assms(2) wait_invD(1) [OF core_invD(8) [OF core]] in blast)
    with 1 assms(1) show ?thesis by (auto simp: chunk_ready_def sched_inv_def)
  next
    case 2
    with core_grant_taken [OF core] assms(1) show ?thesis by (auto simp: chunk_ready_def sched_inv_def)
  next
    case 3
    with releaseChunk_section [OF assms(1), of a] show ?thesis by (auto simp: chunk_ready_def)
  qed
qed

lemma dispatch_all_inv:
  assumes "core_inv M C (sc_chan s) s m" "\<And>e. e \<notin> set ids \<Longrightarrow> conserving s e"
  shows "\<exists>s'. dispatch_all ids s = Some s' \<and> sched_inv M C s' m"
  using assms
proof (induction ids arbitrary: s)
  case Nil
  then show ?case by (auto simp: sched_inv_def)
next
  case (Cons d ids)
  let ?P = "\<lambda>t. core_inv M C (sc_chan s) t m \<and> (\<forall>e. e \<notin> set (d # ids) \<longrightarrow> conserving t e) \<and> disp_frame s t"
  have "\<exists>s'. dispatchLocked d s = Some s' \<and> ?P s' \<and> conserving s' d"
  proof (rule dispatchLocked_rule [where P = ?P])
    show "?P s" using Cons.prems by (simp add: disp_frame_def)
    show "?P (pruneCanceledWaiters a t)" if "?P t" for t a
      using that by (simp add: core_prune conserving_prune) (simp add: disp_frame_def prune_state)
    show "\<not> cw_ready (sc_waiter t w) \<and> ?P (granted_state d dc a w ws t)"
      if "?P t" "sc_dcs t d = Some dc" "a \<in> set (dc_tasks dc)" "ts_waiters (sc_state t a) = w # ws"
        "\<not> cw_canceled (sc_waiter t w)" "dc_inFlight dc < sc_capacity t" for t a w ws dc
      using core_grant [OF _ that(2-6)] conserving_grant [OF _ _ that(4), of _ d dc] that(1,2)
      by (auto simp: disp_frame_def granted_state_def)
  qed
  then obtain s' where s': "dispatchLocked d s = Some s'" "?P s'" "conserving s' d" by blast
  then have "core_inv M C (sc_chan s') s' m" "e \<notin> set ids \<Longrightarrow> conserving s' e" for e
    by (auto simp: disp_frame_def)
  from Cons.IH [OF this] s'(1) show ?case by simp
qed

lemma reconfigure_section:
  assumes "sched_inv M C s m" "normalizeLimit maxFiles \<le> M" "normalizeLimit perDC \<le> C" "set ids = dom (sc_dcs s)"
  shows "\<exists>s'. reconfigure maxFiles perDC ids s = Some s' \<and> sched_inv M C s' m"
proof -
  note c = core_invD [OF sched_invD(1) [OF assms(1)]]
  let ?s = "s\<lparr>sc_capacity := normalizeLimit perDC, sc_tokens := limiter_resize (normalizeLimit maxFiles) (sc_tokens s)\<rparr>"
  have pos: "0 < normalizeLimit v" for v by (simp add: normalizeLimit_def)
  have "core_inv M C (sc_chan s) ?s m"
  proof (rule core_invI)
    show "token_inv ?s m"
    proof (rule token_invI, goal_cases)
      case (2 tid dc a ch g)
      from token_invD(2) [OF c(7) this] show ?case by (simp add: limiter_resize_def signal_limiter_def)
    qed (use token_invD(1) [OF c(7)] in \<open>simp add: limiter_resize_def signal_limiter_def\<close>)
    show "bounds_inv M C ?s" using c(9) assms(2,3) pos
      by (simp add: bounds_inv_def dc_load_def limiter_resize_def signal_limiter_def)
    show "wait_inv ?s m" using c(8) unfolding wait_inv_def by simp
    show "act_inv (sc_chan s) ?s m" using c(6) unfolding act_inv_def by simp
    show "file_inv ?s" using c(3) unfolding file_inv_def by simp
  qed (use c in \<open>simp_all add: refs_inv_def lane_inv_def queue_inv_def call_inv_def dc_load_def tasks_of_def\<close>)
  moreover have "conserving ?s e" if "e \<notin> set ids" for e
    using that assms(4) by (auto simp: conserving_defs domIff)
  ultimately show ?thesis using dispatch_all_inv [of M C ?s m ids] by (simp add: reconfigure_def)
qed

text \<open>What one step of any goroutine does.\<close>

lemma call_section:
  assumes "sched_inv M C s (add_mset c m)" "r \<in> set (call_next s c)"
  shows "\<exists>s' cs. r = Some (s', cs) \<and> sched_inv M C s' (m + mset cs)"
proof -
  note core = sched_invD(1) [OF assms(1)] and cons = sched_invD(2) [OF assms(1)]
  have ok: "call_ok (sc_state s) c" using core_invD(10) [OF core] by (simp add: call_inv_def)
  have keep: "sched_inv M C s (add_mset c' m)" if "core_inv M C (sc_chan s) s (add_mset c' m)" for c'
    using that cons by (simp add: sched_inv_def)
  show ?thesis
  proof (cases c)
    case (Looping tid dc reg)
    consider "r = Some (s, case reg of None \<Rightarrow> [] | Some a \<Rightarrow> [Releasing a])" | "r = Some (acquire_locked tid dc reg s)"
      using assms(2) Looping by auto
    then show ?thesis
    proof cases
      case 1
      show ?thesis
      proof (cases reg)
        case None
        with 1 core cons Looping show ?thesis by (auto simp: sched_inv_def core_inert)
      next
        case (Some a)
        have "core_inv M C (sc_chan s) s (add_mset (Releasing a) m)"
          by (rule core_swap [OF core]) (auto simp: Looping Some)
        with 1 Some keep show ?thesis by simp
      qed
    next
      case 2
      obtain s' cs where al: "acquire_locked tid dc reg s = (s', cs)" by fastforce
      from core_acquire_locked [OF _ this] core Looping
      have "core_inv M C (sc_chan s) s' (m + mset cs)" "same_queues s s'" "sc_chan s' = sc_chan s" by blast+
      with same_queues_conserving [of s s'] cons 2 al show ?thesis by (auto simp: sched_inv_def)
    qed
  next
    case (WaitReady tid dc a ready)
    have "core_inv M C (sc_chan s) s (add_mset (Releasing a) m)" "core_inv M C (sc_chan s) s (add_mset (Looping tid dc (Some a)) m)"
      by (rule core_swap [OF core]; use ok in \<open>auto simp: WaitReady\<close>)+
    with assms(2) keep show ?thesis by (auto simp: WaitReady split: if_splits)
  next
    case (GetToken tid dc a ready)
    have "core_inv M C (sc_chan s) s (add_mset (FailToken a ready) m)"
      by (rule core_swap [OF core]) (auto simp: GetToken)
    moreover have "core_inv M C (sc_chan s) s (add_mset (TokenWait tid dc a ready (fl_changed (sc_tokens s))) m)"
      if "fl_limit (sc_tokens s) \<le> fl_used (sc_tokens s)"
      by (rule core_swap [OF core]) (use ok that in \<open>auto simp: GetToken\<close>)
    moreover have "conserving (s\<lparr>sc_tokens := l\<rparr>) e" for e l
      using cons same_queues_conserving [of s "s\<lparr>sc_tokens := l\<rparr>"] by simp
    ultimately show ?thesis using assms(2) keep core_got_token [OF core [unfolded GetToken]]
      by (auto simp: GetToken limiter_acquire_def sched_inv_def split: if_splits)
  next
    case (TokenWait tid dc a ready g)
    have "core_inv M C (sc_chan s) s (add_mset (FailToken a ready) m)" "core_inv M C (sc_chan s) s (add_mset (GetToken tid dc a ready) m)"
      by (rule core_swap [OF core]; use ok in \<open>auto simp: TokenWait\<close>)+
    with assms(2) keep show ?thesis by (auto simp: TokenWait split: if_splits)
  next
    case (GotToken tid dc a ready)
    have "\<exists>s'. completeActivation a ready True s = Some (s', []) \<and> sched_inv M C s' (add_mset (Looping tid dc (Some a)) m)"
      by (rule complete_section [OF assms(1)]) (use ok in \<open>auto simp: GotToken\<close>)
    with assms(2) show ?thesis by (auto simp: GotToken)
  next
    case (FailToken a ready)
    have "\<exists>s'. completeActivation a ready False s = Some (s', []) \<and> sched_inv M C s' (add_mset (Releasing a) m)"
      by (rule complete_section [OF assms(1)]) (auto simp: FailToken)
    with assms(2) show ?thesis by (auto simp: FailToken)
  next
    case (Releasing a)
    with releaseTask_section [of M C s a m] assms show ?thesis by auto
  next
    case FreeToken
    from core_release_token [OF core [unfolded FreeToken]] obtain l where
      "release_token s = Some (s\<lparr>sc_tokens := l\<rparr>)" "core_inv M C (sc_chan s) (s\<lparr>sc_tokens := l\<rparr>) m" by blast
    moreover have "conserving (s\<lparr>sc_tokens := l\<rparr>) e" for e
      using cons same_queues_conserving [of s "s\<lparr>sc_tokens := l\<rparr>"] by simp
    ultimately show ?thesis using assms(2) by (auto simp: FreeToken sched_inv_def)
  next
    case (Leased a)
    have "core_inv M C (sc_chan s) s (add_mset (Releasing a) m)" by (rule core_swap [OF core]) (auto simp: Leased)
    with assms(2) keep show ?thesis by (auto simp: Leased)
  next
    case (ChunkWaiting a w)
    from assms(2) consider "r = chunk_canceled a w s" | ctx where "cw_ready (sc_waiter s w)" "r = chunk_ready ctx a w s"
      by (auto simp: ChunkWaiting split: if_splits)
    then show ?thesis
    proof cases
      case 1
      with chunk_canceled_section assms(1) ChunkWaiting show ?thesis by fastforce
    next
      case 2
      with chunk_ready_section assms(1) ChunkWaiting show ?thesis by blast
    qed
  next
    case (ChunkLeased a)
    with releaseChunk_section [OF assms(1), of a] assms(2) show ?thesis by auto
  qed
qed

definition conf_inv :: "nat \<Rightarrow> nat \<Rightarrow> sched_conf \<Rightarrow> bool" where
  "conf_inv M C c \<longleftrightarrow> (\<exists>s m. c = Some (s, m) \<and> sched_inv M C s m)"

lemma conf_inv_init: "sched_init M C c \<Longrightarrow> conf_inv M C c"
proof -
  assume "sched_init M C c"
  then obtain f p where fp: "normalizeLimit f \<le> M" "normalizeLimit p \<le> C" "c = Some (newScheduler f p, {#})"
    by (auto simp: sched_init_def)
  have pos: "0 < normalizeLimit v" for v by (simp add: normalizeLimit_def)
  have "sched_inv M C (newScheduler f p) {#}"
    unfolding sched_inv_def core_inv_def
    by (intro conjI allI)
       (use fp pos in \<open>simp_all add: inv_defs call_inv_def conserving_defs newScheduler_def newTaskState_def
          newFileLimiter_def task_ok_def holders_def lanes_def activators_def tokens_held_def task_load_def active_tasks_def\<close>)
  with fp(3) show ?thesis by (simp add: conf_inv_def)
qed

lemma conf_inv_step:
  assumes "conf_inv M C c" "sched_step M C c c'"
  shows "conf_inv M C c'"
  using assms(2,1)
proof cases
  case (acquire tid s m dc)
  then show ?thesis using assms(1) by (auto simp: conf_inv_def sched_inv_def core_inert)
next
  case (acquire_chunk a s m ctx)
  then show ?thesis using assms(1) acquireChunk_section [of M C s m ctx a] by (auto simp: conf_inv_def)
next
  case (run r s x m)
  then show ?thesis using assms(1) call_section [of M C s x m r] by (auto simp: conf_inv_def)
next
  case (reconf f p ids s m)
  then show ?thesis using assms(1) reconfigure_section [of M C s m f p ids] by (auto simp: conf_inv_def)
qed

interpretation sched: invariant_proof "sched_init M C" "sched_step M C" "conf_inv M C" for M C
  by unfold_locales (auto intro: conf_inv_init conf_inv_step)

section \<open>First come, first served by file\<close>

definition pending :: "scheduler \<Rightarrow> nat list \<Rightarrow> nat list" where
  "pending s as = concat (map (\<lambda>a. filter (\<lambda>w. \<not> cw_canceled (sc_waiter s w)) (ts_waiters (sc_state s a))) as)"

lemma filter_dropWhile: "filter (\<lambda>x. \<not> P x) (dropWhile P xs) = filter (\<lambda>x. \<not> P x) xs"
  by (induction xs) auto

lemma pending_prune: "pending (pruneCanceledWaiters a s) as = pending s as"
  unfolding pending_def by (intro arg_cong [where f = concat] map_cong) (auto simp: prune_state filter_dropWhile)

lemma pending_frame:
  "sc_waiter t = sc_waiter s \<Longrightarrow> (\<And>b. b \<in> set as \<Longrightarrow> ts_waiters (sc_state t b) = ts_waiters (sc_state s b)) \<Longrightarrow>
    pending t as = pending s as"
  by (simp add: pending_def cong: map_cong)

lemma first_waiter_pending:
  assumes "distinct as" "first_waiter as s = (r, s1)"
  shows "sc_waiter s1 = sc_waiter s
    \<and> (case pending s as of
         [] \<Rightarrow> r = None \<and> pending s1 as = []
       | w # ws \<Rightarrow> \<exists>a. r = Some (a, Some w) \<and> pending s1 as = ws)
    \<and> (\<forall>b. b \<notin> set as \<longrightarrow> sc_state s1 b = sc_state s b)"
  using assms
proof (induction as arbitrary: s)
  case Nil
  then show ?case by (simp add: pending_def)
next
  case (Cons a as)
  let ?s = "pruneCanceledWaiters a s"
  have split: "pending t (a # as) = filter (\<lambda>w. \<not> cw_canceled (sc_waiter t w)) (ts_waiters (sc_state t a)) @ pending t as" for t
    by (simp add: pending_def)
  show ?case
  proof (cases "ts_waiters (sc_state ?s a)")
    case Nil
    with Cons.prems have fw: "first_waiter as ?s = (r, s1)" by simp
    have IH: "sc_waiter s1 = sc_waiter ?s
      \<and> (case pending ?s as of [] \<Rightarrow> r = None \<and> pending s1 as = [] | w # ws \<Rightarrow> \<exists>a. r = Some (a, Some w) \<and> pending s1 as = ws)
      \<and> (\<forall>b. b \<notin> set as \<longrightarrow> sc_state s1 b = sc_state ?s b)"
      by (rule Cons.IH) (use Cons.prems fw in simp_all)
    then have "ts_waiters (sc_state s1 a) = []" using Nil Cons.prems by simp
    then have "pending s1 (a # as) = pending s1 as" by (simp add: split)
    moreover have "pending s (a # as) = pending ?s as"
      using Nil split [of ?s] unfolding pending_prune [of a s, symmetric] by simp
    ultimately show ?thesis using IH by (auto simp: prune_state split: list.splits)
  next
    case (Cons w ws)
    have "dropWhile (\<lambda>w. cw_canceled (sc_waiter s w)) (ts_waiters (sc_state s a)) = w # ws"
      using Cons by (simp add: prune_state)
    then have live: "\<not> cw_canceled (sc_waiter ?s w)" by (simp add: dropWhile_eq_Cons_conv prune_state)
    with Cons Cons.prems(2) have r: "r = Some (a, Some w)" "s1 = upd_state a (\<lambda>t. t\<lparr>ts_waiters := ws\<rparr>) ?s"
      by (auto simp: popWaiter_def)
    have "pending s1 as = pending ?s as"
      by (rule pending_frame) (use r Cons.prems(1) in auto)
    moreover have "pending s (a # as) = pending ?s (a # as)" by (simp add: pending_prune)
    ultimately show ?thesis using r live Cons by (simp add: split prune_state)
  qed
qed

lemma grant_pending:
  assumes "grant d dc a w s = Some s'"
  shows "pending s' as = pending s as" "cw_granted (sc_waiter s' v) = (cw_granted (sc_waiter s v) \<or> v = w)"
    "sc_dcs s' = (sc_dcs s)(d \<mapsto> dc\<lparr>dc_inFlight := Suc (dc_inFlight dc)\<rparr>)" "sc_capacity s' = sc_capacity s"
proof -
  have "cw_canceled (sc_waiter s' x) = cw_canceled (sc_waiter s x)" for x
    using assms by (auto simp: grant_def close_ready_def split: if_splits)
  moreover have "ts_waiters (sc_state s' b) = ts_waiters (sc_state s b)" for b
    using assms by (auto simp: grant_def close_ready_def split: if_splits)
  ultimately show "pending s' as = pending s as" by (simp add: pending_def)
qed (use assms in \<open>auto simp: grant_def close_ready_def split: if_splits\<close>)

lemma dispatch_loop_fifo:
  assumes "dispatch_loop d s = Some s'" "sc_dcs s d = Some dc" "dc_tasks dc = as" "distinct as"
  shows "let k = sc_capacity s - dc_inFlight dc in
    pending s' as = drop k (pending s as)
    \<and> (\<forall>v. cw_granted (sc_waiter s' v) \<longleftrightarrow> cw_granted (sc_waiter s v) \<or> v \<in> set (take k (pending s as)))
    \<and> dc_load s' d = dc_inFlight dc + length (take k (pending s as))"
  using assms
proof (induction d s arbitrary: dc rule: dispatch_loop.induct)
  case (1 d s)
  show ?case
  proof (cases "dc_inFlight dc < sc_capacity s")
    case False
    with 1(2,3) have "s' = s" by (simp add: dispatch_loop.simps [of d s])
    with False 1(3) show ?thesis by (simp add: dc_load_def)
  next
    case True
    obtain r s1 where fw: "first_waiter as s = (r, s1)" by fastforce
    note q = first_waiter_pending [OF 1(5) fw]
    have fr: "sc_dcs s1 = sc_dcs s" "sc_capacity s1 = sc_capacity s"
      using first_waiter_frame [of as s] fw by simp_all
    show ?thesis
    proof (cases "pending s as")
      case Nil
      with q 1(2,3,4) True fw have "s' = s1"
        by (auto simp: dispatch_loop.simps [of d s] firstFileWaiter_def)
      with Nil q fr 1(3) show ?thesis by (simp add: dc_load_def)
    next
      case (Cons w ws)
      with q obtain a where r: "r = Some (a, Some w)" "pending s1 as = ws" "sc_waiter s1 = sc_waiter s" by auto
      have ff: "firstFileWaiter dc s = (Some (a, Some w), s1)" using fw r 1(4) by (simp add: firstFileWaiter_def)
      with 1(2,3) True obtain s2 where g: "grant d dc a w s1 = Some s2" and rec: "dispatch_loop d s2 = Some s'"
        by (auto simp: dispatch_loop.simps [of d s] split: option.splits)
      note gp = grant_pending [OF g]
      let ?dc = "dc\<lparr>dc_inFlight := Suc (dc_inFlight dc)\<rparr>" and ?k = "sc_capacity s - Suc (dc_inFlight dc)"
      have dcs: "sc_dcs s2 d = Some ?dc" "dc_tasks ?dc = as" using gp(3) 1(4) by simp_all
      have IH: "pending s' as = drop ?k ws"
        "cw_granted (sc_waiter s' v) \<longleftrightarrow> (cw_granted (sc_waiter s v) \<or> v = w) \<or> v \<in> set (take ?k ws)"
        "dc_load s' d = Suc (dc_inFlight dc) + length (take ?k ws)" for v
        using 1(1) [OF 1(3) True ff [symmetric] refl refl refl g rec dcs 1(5)] gp(1,2,4) r fr by simp_all
      have "sc_capacity s - dc_inFlight dc = Suc ?k" using True by simp
      with IH Cons show ?thesis by auto
    qed
  qed
qed
section \<open>Properties\<close>

lemma granted_ready:
  "wait_inv s m \<Longrightarrow> ChunkWaiting a w \<in># m \<Longrightarrow> cw_granted (sc_waiter s w) \<Longrightarrow> cw_ready (sc_waiter s w)"
  using wait_invD(4) [of s m a w] by blast

definition blocked :: "scheduler \<Rightarrow> call \<Rightarrow> bool" where
  "blocked s c =
     (case c of
        WaitReady tid dc a ready \<Rightarrow> \<not> sc_chan s ready
      | TokenWait tid dc a ready changed \<Rightarrow> changed = fl_changed (sc_tokens s)
      | ChunkWaiting a w \<Rightarrow> \<not> cw_ready (sc_waiter s w)
      | _ \<Rightarrow> False)"

lemma filter_size_ex: "0 < size {#c \<in># m. P c#} \<Longrightarrow> \<exists>c \<in># m. P c"
  by (metis (mono_tags, lifting) filter_mset_eq_mempty_iff less_irrefl size_empty)

lemma lane_runs:
  assumes "core_inv M C (sc_chan s) s m" "0 < ts_inFlight (sc_state s a)"
  shows "\<exists>c \<in># m. \<not> blocked s c"
proof -
  note c = core_invD [OF assms(1)]
  from assms(2) c(2) have "0 < lanes (sc_waiter s) m a" by (simp add: lane_inv_def)
  then obtain x where x: "x \<in># m" "lane_of (sc_waiter s) x = Some a"
    unfolding lanes_def using filter_size_ex by blast
  then have "\<not> blocked s x" using granted_ready [OF c(8)]
    by (cases x) (auto simp: blocked_def split: if_splits)
  with x(1) show ?thesis by blast
qed

lemma token_runs:
  assumes "core_inv M C (sc_chan s) s m" "fl_limit (sc_tokens s) \<le> fl_used (sc_tokens s)"
  shows "\<exists>c \<in># m. \<not> blocked s c"
proof -
  note c = core_invD [OF assms(1)]
  have "0 < active_tasks (sc_state s) (sc_alloc s) \<or> 0 < tokens_held m"
    using assms(2) c(9) token_invD(1) [OF c(7)] by (auto simp: bounds_inv_def)
  then consider a where "ts_active (sc_state s a)" | x where "x \<in># m" "has_token x"
    using filter_size_ex [of has_token m] unfolding tokens_held_def active_tasks_def
    by (metis (mono_tags, lifting) less_irrefl sum.neutral)
  then show ?thesis
  proof cases
    case 1
    then have ok: "ts_activating (sc_state s a) = None" "0 < ts_refs (sc_state s a) \<or> 0 < ts_inFlight (sc_state s a)"
      using c(4) [of a] by (auto simp: task_ok_def)
    from ok(2) show ?thesis
    proof
      assume "0 < ts_refs (sc_state s a)"
      with c(1) have "0 < holders m a" by (simp add: refs_inv_def)
      then obtain x where x: "x \<in># m" "ref_of x = Some a" unfolding holders_def using filter_size_ex by blast
      have "\<not> blocked s x" using x ok(1) act_invD(4,5) [OF c(6)] act_invD(4) [OF c(6) x(1)]
        by (cases x) (fastforce simp: blocked_def)+
      with x(1) show ?thesis by blast
    qed (rule lane_runs [OF assms(1)])
  next
    case 2
    then have "\<not> blocked s x" by (cases x) (auto simp: blocked_def)
    with 2 show ?thesis by blast
  qed
qed

lemma task_load_pos:
  assumes "0 < task_load st n d"
  shows "\<exists>b. 0 < ts_inFlight (st b)"
proof (rule ccontr)
  assume "\<not> ?thesis"
  then have "task_load st n d = 0" by (simp add: task_load_def)
  with assms show False by simp
qed

lemma waiter_lane_full:
  assumes "sched_inv M C s m" "ChunkWaiting a w \<in># m" "\<not> cw_ready (sc_waiter s w)"
  shows "sc_capacity s \<le> dc_load s (ts_dc (sc_state s a))"
proof -
  note c = core_invD [OF sched_invD(1) [OF assms(1)]]
  have w: "w \<in> set (ts_waiters (sc_state s a))" "\<not> cw_canceled (sc_waiter s w)"
    using wait_invD(4) [OF c(8) assms(2)] assms(3) by blast+
  then have "ts_active (sc_state s a)" using c(4) [of a] by (auto simp: task_ok_def)
  then have "a \<in> set (tasks_of s (ts_dc (sc_state s a)))" using c(5) by (simp add: queue_inv_def)
  with w sched_invD(2) [OF assms(1), of "ts_dc (sc_state s a)"] show ?thesis
    by (auto simp: conserving_def not_le)
qed

text \<open>However calls of \<open>Acquire\<close>, \<open>AcquireChunk\<close>, \<open>Release\<close> and \<open>Reconfigure\<close> interleave and
  whenever their contexts end, the download scheduler never panics: no channel is closed twice and
  neither a chunk lane nor a file token is released more often than it was taken.\<close>

theorem scheduler_never_panics:
  assumes "reach (sched_init M C) (sched_step M C) c"
  shows "c \<noteq> None"
  using sched.reach_inv [OF assms] by (auto simp: conf_inv_def)

text \<open>Runs of the model, for concrete inputs.\<close>

datatype sched_event = Ev_Acquire string int | Ev_Chunk nat | Ev_Run nat nat

fun sched_exec :: "scheduler \<times> call list \<Rightarrow> sched_event \<Rightarrow> (scheduler \<times> call list) option" where
  "sched_exec (s, cs) (Ev_Acquire tid dc) = (if tid = [] then None else Some (s, Looping tid dc None # cs))"
| "sched_exec (s, cs) (Ev_Chunk a) =
     (if a < sc_alloc s then acquireChunk None a s \<bind> (\<lambda>(s', xs). Some (s', xs @ cs)) else None)"
| "sched_exec (s, cs) (Ev_Run i j) =
     (if i < length cs \<and> j < length (call_next s (cs ! i))
      then call_next s (cs ! i) ! j \<bind> (\<lambda>(s', xs). Some (s', xs @ take i cs @ drop (Suc i) cs)) else None)"

fun sched_run :: "scheduler \<times> call list \<Rightarrow> sched_event list \<Rightarrow> (scheduler \<times> call list) option" where
  "sched_run p [] = Some p"
| "sched_run p (e # es) = sched_exec p e \<bind> (\<lambda>q. sched_run q es)"

lemma mset_nth_split: "i < length cs \<Longrightarrow> mset cs = add_mset (cs ! i) (mset (take i cs @ drop (Suc i) cs))"
  by (subst id_take_nth_drop) auto

lemma sched_exec_step:
  assumes "sched_exec (s, cs) e = Some (s', cs')"
  shows "sched_step M C (Some (s, mset cs)) (Some (s', mset cs'))"
proof (cases e)
  case (Ev_Acquire tid dc)
  with assms show ?thesis by (auto split: if_splits intro: sched_step.acquire)
next
  case (Ev_Chunk a)
  with assms obtain xs where "a < sc_alloc s" "acquireChunk None a s = Some (s', xs)" "cs' = xs @ cs"
    by (auto split: if_splits bind_splits)
  with sched_step.acquire_chunk [of a s M C "mset cs" None] show ?thesis by (simp add: ac_simps)
next
  case (Ev_Run i j)
  with assms have ij: "i < length cs" "j < length (call_next s (cs ! i))" by (auto split: if_splits)
  with assms Ev_Run obtain xs where r: "call_next s (cs ! i) ! j = Some (s', xs)" "cs' = xs @ take i cs @ drop (Suc i) cs"
    by (auto split: bind_splits)
  note r = ij(1) nth_mem [OF ij(2)] r
  from sched_step.run [OF r(2), of M C "mset (take i cs @ drop (Suc i) cs)"] r(3,4) show ?thesis
    by (simp add: mset_nth_split [OF r(1)] ac_simps)
qed

lemma sched_run_reach:
  assumes "reach init (sched_step M C) (Some (s, mset cs))" "sched_run (s, cs) es = Some (s', cs')"
  shows "reach init (sched_step M C) (Some (s', mset cs'))"
  using assms
proof (induction es arbitrary: s cs)
  case (Cons e es)
  then obtain t ct where "sched_exec (s, cs) e = Some (t, ct)" "sched_run (t, ct) es = Some (s', cs')"
    by (auto split: bind_splits)
  with Cons show ?case by (blast intro: reach_step sched_exec_step)
qed simp

text \<open>Two requests for chunks of one file, with a single lane.\<close>

definition sample_run :: "(scheduler \<times> call list) option" where
  "sample_run = sched_run (newScheduler 2 1, [])
     [Ev_Acquire ''a'' 4, Ev_Run 0 1, Ev_Run 0 1, Ev_Run 0 0, Ev_Run 0 1, Ev_Chunk 0, Ev_Chunk 0]"

lemma sample_run_calls: "map_option snd sample_run = Some [ChunkWaiting 0 1, ChunkWaiting 0 0, Leased 0]"
  by code_simp

lemma sample_run_waits: "map_option (\<lambda>(s, cs). cw_ready (sc_waiter s 1)) sample_run = Some False"
  by code_simp

lemma sample_run_ex: obtains s where "sample_run = Some (s, [ChunkWaiting 0 1, ChunkWaiting 0 0, Leased 0])"
  using sample_run_calls by auto

lemma sample_run_reach:
  assumes "sample_run = Some (s, cs)"
  shows "reach (sched_init 2 1) (sched_step 2 1) (Some (s, mset cs))"
proof (rule sched_run_reach [OF _ assms [unfolded sample_run_def]])
  have "sched_init 2 1 (Some (newScheduler 2 1, {#}))"
    unfolding sched_init_def by (rule exI [of _ 2], rule exI [of _ 1]) (simp add: normalizeLimit_def)
  then show "reach (sched_init 2 1) (sched_step 2 1) (Some (newScheduler 2 1, mset []))"
    by (simp add: reach_init)
qed

theorem scheduler_never_panics_witness:
  "\<exists>s cs. sample_run = Some (s, cs) \<and> (Some (s, mset cs) :: sched_conf) \<noteq> None"
proof -
  obtain s where s: "sample_run = Some (s, [ChunkWaiting 0 1, ChunkWaiting 0 0, Leased 0])" by (rule sample_run_ex)
  from scheduler_never_panics [OF sample_run_reach [OF s]] s show ?thesis by blast
qed

text \<open>C1: the limits hold at every moment: when neither the initial configuration nor a \<open>Reconfigure\<close>
  allows more than \<open>M\<close> files and \<open>C\<close> chunk lanes per DC, at most \<open>M\<close> files are active and in each DC at
  most \<open>C\<close> lanes are taken, where a lane is taken by every chunk lease and every granted waiter.\<close>

theorem scheduler_respects_limits:
  assumes "reach (sched_init M C) (sched_step M C) (Some (s, m))"
  shows "active_tasks (sc_state s) (sc_alloc s) + tokens_held m \<le> M
    \<and> (\<Sum>a<sc_alloc s. if ts_dc (sc_state s a) = d then lanes (sc_waiter s) m a else 0) \<le> C"
proof -
  have "sched_inv M C s m" using sched.reach_inv [OF assms] by (auto simp: conf_inv_def)
  note c = core_invD [OF sched_invD(1) [OF this]]
  have "(\<Sum>a<sc_alloc s. if ts_dc (sc_state s a) = d then lanes (sc_waiter s) m a else 0) = dc_load s d"
    using c(2) by (simp add: task_load_def lane_inv_def cong: if_cong)
  with c(2,9) token_invD(1) [OF c(7)] show ?thesis by (auto simp: bounds_inv_def)
qed

theorem scheduler_respects_limits_witness:
  "\<exists>s cs. sample_run = Some (s, cs) \<and> active_tasks (sc_state s) (sc_alloc s) + tokens_held (mset cs) \<le> 2"
proof -
  obtain s where s: "sample_run = Some (s, [ChunkWaiting 0 1, ChunkWaiting 0 0, Leased 0])" by (rule sample_run_ex)
  from scheduler_respects_limits [OF sample_run_reach [OF s]] s show ?thesis by blast
qed

text \<open>C19: the scheduler is work-conserving: a caller of \<open>AcquireChunk\<close> only waits while all lanes of its
  DC are taken, so no free lane is ever left beside a waiting request.\<close>

theorem scheduler_work_conserving:
  assumes "reach (sched_init M C) (sched_step M C) (Some (s, m))"
    and "ChunkWaiting a w \<in># m" and "\<not> cw_ready (sc_waiter s w)"
  shows "sc_capacity s \<le> (\<Sum>b<sc_alloc s. if ts_dc (sc_state s b) = ts_dc (sc_state s a) then lanes (sc_waiter s) m b else 0)"
proof -
  have inv: "sched_inv M C s m" using sched.reach_inv [OF assms(1)] by (auto simp: conf_inv_def)
  note c = core_invD [OF sched_invD(1) [OF inv]]
  from waiter_lane_full [OF inv assms(2,3)] c(2) show ?thesis
    by (simp add: lane_inv_def task_load_def cong: if_cong)
qed

theorem scheduler_work_conserving_witness:
  "\<exists>s cs. sample_run = Some (s, cs) \<and> sc_capacity s \<le>
     (\<Sum>b<sc_alloc s. if ts_dc (sc_state s b) = ts_dc (sc_state s 0) then lanes (sc_waiter s) (mset cs) b else 0)"
proof -
  obtain s where s: "sample_run = Some (s, [ChunkWaiting 0 1, ChunkWaiting 0 0, Leased 0])" by (rule sample_run_ex)
  have "\<not> cw_ready (sc_waiter s 1)" using sample_run_waits unfolding s by simp
  from scheduler_work_conserving [OF sample_run_reach [OF s] _ this] s show ?thesis by fastforce
qed

text \<open>C2: the scheduler cannot deadlock: as long as a call is in progress or a lease is held, some goroutine
  can proceed on its own, even if no context ever ends. No wake-up of a caller waiting for a file token,
  for an activation or for a chunk lane is lost.\<close>

theorem scheduler_deadlock_free:
  assumes "reach (sched_init M C) (sched_step M C) (Some (s, m))" and "m \<noteq> {#}"
  shows "\<exists>c \<in># m. \<not> blocked s c"
proof -
  have inv: "sched_inv M C s m" using sched.reach_inv [OF assms(1)] by (auto simp: conf_inv_def)
  note core = sched_invD(1) [OF inv]
  note c = core_invD [OF core]
  from assms(2) obtain x where x: "x \<in># m" by auto
  have tk: "\<exists>c \<in># m. \<not> blocked s c" if t: "TokenWait tid dc a ch g \<in># m" for tid dc a ch g
  proof (cases "blocked s (TokenWait tid dc a ch g)")
    case True
    then show ?thesis using token_runs [OF core] token_invD(2) [OF c(7) t] by (simp add: blocked_def)
  qed (use t in blast)
  show ?thesis
  proof (cases "blocked s x")
    case True
    then consider (wait) tid dc a ch where "x = WaitReady tid dc a ch" "\<not> sc_chan s ch"
      | (token) tid dc a ch g where "x = TokenWait tid dc a ch g"
      | (chunk) a w where "x = ChunkWaiting a w" "\<not> cw_ready (sc_waiter s w)"
      by (cases x) (auto simp: blocked_def)
    then show ?thesis
    proof cases
      case wait
      with act_invD(5) [OF c(6)] x have "ts_activating (sc_state s a) = Some ch" by blast
      with act_invD(3) [OF c(6), of a] have "0 < activators m a" by simp
      then obtain y where y: "y \<in># m" "map_option fst (act_of y) = Some a"
        unfolding activators_def using filter_size_ex by blast
      then show ?thesis using tk by (cases y) (auto simp: blocked_def intro!: bexI [OF _ y(1)])
    next
      case token
      with x tk show ?thesis by blast
    next
      case chunk
      have "0 < dc_load s (ts_dc (sc_state s a))"
        using waiter_lane_full [OF inv, of a w] chunk x c(9) by (auto simp: bounds_inv_def)
      then have "0 < task_load (sc_state s) (sc_alloc s) (ts_dc (sc_state s a))" using c(2) by (simp add: lane_inv_def)
      then have "\<exists>b. 0 < ts_inFlight (sc_state s b)" by (rule task_load_pos)
      with lane_runs [OF core] show ?thesis by blast
    qed
  qed (use x in blast)
qed

theorem scheduler_deadlock_free_witness:
  "\<exists>s cs. sample_run = Some (s, cs) \<and> (\<exists>c \<in> set cs. \<not> blocked s c)"
proof -
  obtain s where s: "sample_run = Some (s, [ChunkWaiting 0 1, ChunkWaiting 0 0, Leased 0])" by (rule sample_run_ex)
  from scheduler_deadlock_free [OF sample_run_reach [OF s]] s show ?thesis by fastforce
qed

text \<open>\<open>dispatchLocked\<close> grants free lanes by file in the order of activation and within a file in the
  order of request: with \<open>k\<close> free lanes it grants exactly the first \<open>k\<close> pending waiters of the DC's files
  taken one file after the other, and leaves the rest queued in that order.\<close>

theorem dispatch_is_fifo_by_file:
  assumes "dispatchLocked d s = Some s'" and "sc_dcs s d = Some dc" and "distinct (dc_tasks dc)"
  shows "let k = sc_capacity s - dc_inFlight dc; queue = pending s (dc_tasks dc) in
    (\<forall>w. cw_granted (sc_waiter s' w) \<longleftrightarrow> cw_granted (sc_waiter s w) \<or> w \<in> set (take k queue))
    \<and> pending s' (dc_tasks dc) = drop k queue
    \<and> dc_load s' d = dc_inFlight dc + length (take k queue)"
proof (cases "dc_tasks dc = []")
  case True
  with assms(1,2) show ?thesis by (auto simp: dispatchLocked_def pending_def dc_load_def)
next
  case False
  with assms(1,2) have "dispatch_loop d s = Some s'" by (simp add: dispatchLocked_def)
  from dispatch_loop_fifo [OF this assms(2) refl assms(3)] show ?thesis by simp
qed

theorem dispatch_is_fifo_by_file_witness:
  "\<exists>s s' dc. sample_run = Some (s, [ChunkWaiting 0 1, ChunkWaiting 0 0, Leased 0])
     \<and> dispatchLocked 4 (s\<lparr>sc_capacity := 2\<rparr>) = Some s' \<and> sc_dcs s 4 = Some dc
     \<and> pending s' (dc_tasks dc) = drop (2 - dc_inFlight dc) (pending (s\<lparr>sc_capacity := 2\<rparr>) (dc_tasks dc))"
proof -
  obtain s where s: "sample_run = Some (s, [ChunkWaiting 0 1, ChunkWaiting 0 0, Leased 0])" by (rule sample_run_ex)
  have "map_option (\<lambda>(s, cs). dispatchLocked 4 (s\<lparr>sc_capacity := 2\<rparr>) \<noteq> None \<and> map_option dc_tasks (sc_dcs s 4) = Some [0]) sample_run
      = Some True" by code_simp
  then have "dispatchLocked 4 (s\<lparr>sc_capacity := 2\<rparr>) \<noteq> None" "map_option dc_tasks (sc_dcs s 4) = Some [0]"
    unfolding s by simp_all
  then obtain s' dc where d: "dispatchLocked 4 (s\<lparr>sc_capacity := 2\<rparr>) = Some s'" "sc_dcs s 4 = Some dc" "dc_tasks dc = [0]"
    by auto
  from dispatch_is_fifo_by_file [OF d(1), of dc] d s show ?thesis by auto
qed

end
