(* ===== verification/Kv_Store.thy ===== *)
theory Kv_Store
  imports Prelude
begin

text \<open>
  Persistent storage: JSON documents as \<open>encoding/json\<close> reads and writes them, the key-value stores of
  \<open>internal/core/storage\<close> and \<open>pkg/kv\<close> with their atomic \<open>Update\<close>, and the dataset registry of
  \<open>bsw/services/nvm\<close> that grants a component access to its own keys only. The interface
  \<open>storage.Storage\<close> with \<open>Transactional\<close> is the locale \<open>transactional_store\<close>.
\<close>

section \<open>JSON documents\<close>

text \<open>
  A \<open>time.Time\<close> is marshalled as its RFC 3339 string; it has a constructor of its own, so that a string
  that is no time is not one. Numbers are the integers the records use. Objects keep the order of
  their fields; the documents the sources write have distinct field names.
\<close>

datatype json =
    JNull
  | JBool bool
  | JNum int
  | JStr string
  | JTime instant
  | JArr "json list"
  | JObj "(string \<times> json) list"

text \<open>The bytes of a stored value: a JSON document, or bytes that are none.\<close>

datatype blob = Doc json | Raw string

definition json_valid :: "blob \<Rightarrow> bool" where
  "json_valid b = (case b of Doc j \<Rightarrow> True | Raw s \<Rightarrow> False)"

definition errSyntax :: err where
  "errSyntax = ErrMsg ''invalid JSON''"

definition errType :: err where
  "errType = ErrMsg ''cannot unmarshal JSON value''"

text \<open>
  Decoding into a struct or a \<open>map[string]json.RawMessage\<close>; \<open>null\<close> leaves the zero value and the
  last of several fields with one name counts.
\<close>

definition object_map :: "(string \<times> json) list \<Rightarrow> (string \<times> json) list" where
  "object_map fields = fold (\<lambda>(k, v). AList.update k v) fields []"

definition unmarshal_object :: "blob \<Rightarrow> (string \<times> json) list res" where
  "unmarshal_object b =
     (case b of
        Raw s \<Rightarrow> Inl errSyntax
      | Doc (JObj fields) \<Rightarrow> Inr (object_map fields)
      | Doc JNull \<Rightarrow> Inr []
      | Doc _ \<Rightarrow> Inl errType)"

definition field_string :: "(string \<times> json) list \<Rightarrow> string \<Rightarrow> string res" where
  "field_string fs k = (case map_of fs k of None \<Rightarrow> Inr [] | Some JNull \<Rightarrow> Inr [] | Some (JStr s) \<Rightarrow> Inr s | Some _ \<Rightarrow> Inl errType)"

definition field_bool :: "(string \<times> json) list \<Rightarrow> string \<Rightarrow> bool res" where
  "field_bool fs k = (case map_of fs k of None \<Rightarrow> Inr False | Some JNull \<Rightarrow> Inr False | Some (JBool b) \<Rightarrow> Inr b | Some _ \<Rightarrow> Inl errType)"

definition field_int64 :: "(string \<times> json) list \<Rightarrow> string \<Rightarrow> int res" where
  "field_int64 fs k =
     (case map_of fs k of
        None \<Rightarrow> Inr 0 | Some JNull \<Rightarrow> Inr 0
      | Some (JNum n) \<Rightarrow> if int64_ok n then Inr n else Inl errType
      | Some _ \<Rightarrow> Inl errType)"

definition field_uint64 :: "(string \<times> json) list \<Rightarrow> string \<Rightarrow> nat res" where
  "field_uint64 fs k =
     (case map_of fs k of
        None \<Rightarrow> Inr 0 | Some JNull \<Rightarrow> Inr 0
      | Some (JNum n) \<Rightarrow> if 0 \<le> n \<and> n < 2 ^ 64 then Inr (nat n) else Inl errType
      | Some _ \<Rightarrow> Inl errType)"

definition field_time :: "(string \<times> json) list \<Rightarrow> string \<Rightarrow> instant res" where
  "field_time fs k = (case map_of fs k of None \<Rightarrow> Inr 0 | Some JNull \<Rightarrow> Inr 0 | Some (JTime t) \<Rightarrow> Inr t | Some _ \<Rightarrow> Inl errType)"

lemma fold_update_app:
  "distinct (keys (acc @ xs)) \<Longrightarrow> fold (\<lambda>(k, v). AList.update k v) xs acc = acc @ xs"
proof (induction xs arbitrary: acc)
  case (Cons x xs)
  obtain k v where x: "x = (k, v)" by fastforce
  with Cons.prems have "AList.update k v acc = acc @ [(k, v)]"
    by (induction acc) auto
  with Cons.IH [of "acc @ [(k, v)]"] Cons.prems x show ?case by simp
qed simp

lemma object_map_id [simp]: "distinct (keys fields) \<Longrightarrow> object_map fields = fields"
  using fold_update_app [of "[]" fields] by (simp add: object_map_def)

lemma distinct_fold_update:
  "distinct (keys acc) \<Longrightarrow> distinct (keys (fold (\<lambda>(k, v). AList.update k v) xs acc))"
  by (induction xs arbitrary: acc) (auto simp: distinct_update)

lemma distinct_object_map [simp]: "distinct (keys (object_map fields))"
  by (simp add: object_map_def distinct_fold_update)

lemma distinct_unmarshal: "unmarshal_object b = Inr fields \<Longrightarrow> distinct (keys fields)"
  by (auto simp: unmarshal_object_def split: blob.splits json.splits)

text \<open>The value of a fallible expression that a caller goes on with, and the value when errors are ignored.\<close>

fun and_then :: "'a res \<Rightarrow> ('a \<Rightarrow> 'b res) \<Rightarrow> 'b res" where
  "and_then (Inl e) f = Inl e"
| "and_then (Inr x) f = f x"

fun or_zero :: "'a \<Rightarrow> 'a res \<Rightarrow> 'a" where
  "or_zero z (Inl e) = z"
| "or_zero z (Inr x) = x"

lemma and_then_Inr: "and_then r f = Inr y \<longleftrightarrow> (\<exists>x. r = Inr x \<and> f x = Inr y)"
  by (cases r) auto

lemma and_then_Inl: "and_then r f = Inl e \<longleftrightarrow> r = Inl e \<or> (\<exists>x. r = Inr x \<and> f x = Inl e)"
  by (cases r) auto

section \<open>Stores\<close>

type_synonym kv = "string \<rightharpoonup> blob"

text \<open>
  The operations of a transaction (\<open>memoryTransaction\<close>, \<open>mapStorage\<close> and \<open>bucketStorage\<close> have the
  same code): every operation first looks at the context.
\<close>

definition kv_get :: "ctx \<Rightarrow> string \<Rightarrow> kv \<Rightarrow> blob res" where
  "kv_get ctx key s =
     (case ctx of
        Some e \<Rightarrow> Inl e
      | None \<Rightarrow> (case s key of None \<Rightarrow> Inl ErrNotFound | Some v \<Rightarrow> Inr v))"

definition kv_set :: "ctx \<Rightarrow> string \<Rightarrow> blob \<Rightarrow> kv \<Rightarrow> kv res" where
  "kv_set ctx key v s = (case ctx of Some e \<Rightarrow> Inl e | None \<Rightarrow> Inr (s(key \<mapsto> v)))"

definition kv_delete :: "ctx \<Rightarrow> string \<Rightarrow> kv \<Rightarrow> kv res" where
  "kv_delete ctx key s = (case ctx of Some e \<Rightarrow> Inl e | None \<Rightarrow> Inr (s(key := None)))"

text \<open>
  \<open>Update\<close>: \<open>ctx\<close> is the context when the update starts and \<open>ctx'\<close> when it commits. A transaction
  is a function from the content to an error, or to its result and the new content.
\<close>

type_synonym 'a txn = "kv \<Rightarrow> ('a \<times> kv) res"

definition memory_update :: "ctx \<Rightarrow> ctx \<Rightarrow> 'a txn \<Rightarrow> kv \<Rightarrow> 'a res \<times> kv" where
  "memory_update ctx ctx' fn s =
     (case ctx of
        Some e \<Rightarrow> (Inl e, s)
      | None \<Rightarrow>
          (case fn s of
             Inl e \<Rightarrow> (Inl e, s)
           | Inr (x, s') \<Rightarrow> (case ctx' of Some e \<Rightarrow> (Inl e, s) | None \<Rightarrow> (Inr x, s'))))"

text \<open>\<open>storage.Update\<close> on a store that supports transactions.\<close>

definition storage_update :: "ctx \<Rightarrow> (ctx \<Rightarrow> 'a txn \<Rightarrow> 's \<Rightarrow> 'a res \<times> 's) \<Rightarrow> 'a txn \<Rightarrow> 's \<Rightarrow> 'a res \<times> 's" where
  "storage_update ctx upd fn s = (case ctx of Some e \<Rightarrow> (Inl e, s) | None \<Rightarrow> upd ctx fn s)"

subsection \<open>The file engine\<close>

text \<open>
  \<open>pkg/kv/file.go\<close>: one file holds all namespaces. \<open>fe_content\<close> is what reading and decoding the
  file gives; \<open>werr\<close> is the result of writing it back.
\<close>

record fileEngine =
  fe_content :: "(string \<rightharpoonup> kv) res"

definition file_mutate :: "err option \<Rightarrow> ((string \<rightharpoonup> kv) \<Rightarrow> ('a \<times> (string \<rightharpoonup> kv)) res) \<Rightarrow> fileEngine
    \<Rightarrow> 'a res \<times> fileEngine" where
  "file_mutate werr fn f =
     (case fe_content f of
        Inl e \<Rightarrow> (Inl e, f)
      | Inr m \<Rightarrow>
          (case fn m of
             Inl e \<Rightarrow> (Inl e, f)
           | Inr (x, m') \<Rightarrow>
               (case werr of Some e \<Rightarrow> (Inl e, f) | None \<Rightarrow> (Inr x, f\<lparr>fe_content := Inr m'\<rparr>))))"

definition ns_view :: "string \<Rightarrow> (string \<rightharpoonup> kv) \<Rightarrow> kv" where
  "ns_view ns m = (case m ns of None \<Rightarrow> Map.empty | Some s \<Rightarrow> s)"

definition file_open :: "err option \<Rightarrow> string \<Rightarrow> fileEngine \<Rightarrow> unit res \<times> fileEngine" where
  "file_open werr ns f =
     (if ns = [] then (Inl (ErrMsg ''namespace is required''), f)
      else (case file_mutate werr (\<lambda>m. Inr ((), if m ns = None then m(ns \<mapsto> Map.empty) else m)) f of
              (Inl e, f') \<Rightarrow> (Inl (ErrWrap ''ensure namespace'' e), f')
            | (Inr _, f') \<Rightarrow> (Inr (), f')))"

definition fileKV_get :: "string \<Rightarrow> string \<Rightarrow> fileEngine \<Rightarrow> blob res" where
  "fileKV_get ns key f =
     (case fe_content f of
        Inl e \<Rightarrow> Inl (ErrWrap ''read'' e)
      | Inr m \<Rightarrow> (case ns_view ns m key of Some v \<Rightarrow> Inr v | None \<Rightarrow> Inl ErrNotFound))"

definition fileKV_set :: "err option \<Rightarrow> string \<Rightarrow> string \<Rightarrow> blob \<Rightarrow> fileEngine \<Rightarrow> unit res \<times> fileEngine" where
  "fileKV_set werr ns key v f =
     (case file_mutate werr (\<lambda>m. Inr ((), m(ns \<mapsto> (ns_view ns m)(key \<mapsto> v)))) f of
        (Inl e, f') \<Rightarrow> (Inl (ErrWrap ''mutate'' e), f')
      | (Inr _, f') \<Rightarrow> (Inr (), f'))"

definition fileKV_delete :: "err option \<Rightarrow> string \<Rightarrow> string \<Rightarrow> fileEngine \<Rightarrow> unit res \<times> fileEngine" where
  "fileKV_delete werr ns key f =
     (case file_mutate werr (\<lambda>m. Inr ((), case m ns of None \<Rightarrow> m | Some s \<Rightarrow> m(ns \<mapsto> s(key := None)))) f of
        (Inl e, f') \<Rightarrow> (Inl (ErrWrap ''mutate'' e), f')
      | (Inr _, f') \<Rightarrow> (Inr (), f'))"

definition fileKV_update :: "ctx \<Rightarrow> ctx \<Rightarrow> err option \<Rightarrow> string \<Rightarrow> 'a txn \<Rightarrow> fileEngine \<Rightarrow> 'a res \<times> fileEngine" where
  "fileKV_update ctx ctx' werr ns fn f =
     (case ctx of
        Some e \<Rightarrow> (Inl e, f)
      | None \<Rightarrow>
          file_mutate werr
            (\<lambda>m. case fn (ns_view ns m) of
                   Inl e \<Rightarrow> Inl e
                 | Inr (x, s) \<Rightarrow> (case ctx' of Some e \<Rightarrow> Inl e | None \<Rightarrow> Inr (x, m(ns \<mapsto> s)))) f)"

definition file_snapshot :: "ctx \<Rightarrow> ctx \<Rightarrow> string \<Rightarrow> fileEngine \<Rightarrow> kv res" where
  "file_snapshot ctx ctx' ns f =
     (case ctx of
        Some e \<Rightarrow> Inl e
      | None \<Rightarrow>
          (case fe_content f of
             Inl e \<Rightarrow> Inl e
           | Inr m \<Rightarrow> (case ctx' of Some e \<Rightarrow> Inl e | None \<Rightarrow> Inr (ns_view ns m))))"

subsection \<open>The contract of a transactional store\<close>

text \<open>
  What the rest of the program relies on: \<open>upd\<close> shows the callback the content \<open>view\<close> and either
  fails and changes nothing, or succeeds exactly with the callback's result and new content.
\<close>

locale transactional_store =
  fixes view :: "'s \<Rightarrow> kv option"
    and upd :: "'a txn \<Rightarrow> 's \<Rightarrow> 'a res \<times> 's"
  assumes upd_fails: "upd fn s = (Inl e, s') \<Longrightarrow> s' = s"
    and upd_succeeds: "upd fn s = (Inr x, s') \<Longrightarrow> \<exists>c c'. view s = Some c \<and> fn c = Inr (x, c') \<and> view s' = Some c'"
begin

lemma upd_atomic:
  "case upd fn s of
     (Inl e, s') \<Rightarrow> view s' = view s
   | (Inr x, s') \<Rightarrow> \<exists>c c'. view s = Some c \<and> fn c = Inr (x, c') \<and> view s' = Some c'"
  using upd_fails [of fn s] upd_succeeds [of fn s] by (auto split: prod.split sum.split)

text \<open>An invariant of the content that the callback keeps is an invariant of the store.\<close>

lemma upd_invariant:
  assumes "upd fn s = (r, s')" "\<And>c x c'. I c \<Longrightarrow> fn c = Inr (x, c') \<Longrightarrow> I c'" "view s = Some c" "I c"
  shows "\<exists>c'. view s' = Some c' \<and> I c'"
proof (cases r)
  case (Inl e)
  with assms(1) upd_fails [of fn s e s'] assms(3,4) show ?thesis by auto
next
  case (Inr x)
  with assms(1) upd_succeeds [of fn s x s'] assms(2,3,4) show ?thesis by auto
qed

end

interpretation mem: transactional_store Some "memory_update ctx ctx'" for ctx ctx'
  by unfold_locales (auto simp: memory_update_def split: option.splits sum.splits prod.splits)

definition file_view :: "string \<Rightarrow> fileEngine \<Rightarrow> kv option" where
  "file_view ns f = (case fe_content f of Inl e \<Rightarrow> None | Inr m \<Rightarrow> Some (ns_view ns m))"

interpretation fkv: transactional_store "file_view ns" "fileKV_update ctx ctx' werr ns" for ns ctx ctx' werr
  by unfold_locales
     (auto simp: fileKV_update_def file_mutate_def file_view_def ns_view_def split: option.splits sum.splits prod.splits)

section \<open>Dataset ownership\<close>

text \<open>\<open>bsw/services/nvm/registry.go\<close>: the registered datasets, by name.\<close>

record dataset =
  ds_name :: string
  ds_writer :: string
  ds_prefix :: string
  ds_keys :: "string list"

type_synonym registry = "(string \<times> dataset) list"

definition ds_contains :: "dataset \<Rightarrow> string \<Rightarrow> bool" where
  "ds_contains d key \<longleftrightarrow> (ds_prefix d \<noteq> [] \<and> has_prefix key (ds_prefix d)) \<or> key \<in> set (ds_keys d)"

definition overlaps :: "dataset \<Rightarrow> dataset \<Rightarrow> bool" where
  "overlaps a b =
     (if ds_prefix a \<noteq> [] \<and> ds_prefix b \<noteq> []
      then has_prefix (ds_prefix a) (ds_prefix b) \<or> has_prefix (ds_prefix b) (ds_prefix a)
      else list_ex (ds_contains b) (ds_keys a) \<or> list_ex (ds_contains a) (ds_keys b))"

definition register :: "dataset \<Rightarrow> registry \<Rightarrow> registry res" where
  "register d r =
     (if ds_name d = [] \<or> ds_writer d = [] \<or> (ds_prefix d = []) = (ds_keys d = [])
      then Inl (ErrMsg ''dataset name, writer and either prefix or exact keys are required'')
      else if [] \<in> set (ds_keys d) \<or> \<not> distinct (ds_keys d) then Inl (ErrMsg ''empty or duplicate dataset key'')
      else if map_of r (ds_name d) \<noteq> None then Inl (ErrMsg ''duplicate dataset'')
      else if list_ex (\<lambda>(n, e). overlaps d e) r then Inl (ErrMsg ''datasets overlap'')
      else Inr ((ds_name d, d) # r))"

fun writer_scopes :: "registry \<Rightarrow> string \<Rightarrow> string list \<Rightarrow> dataset list res" where
  "writer_scopes r owner [] = Inr []"
| "writer_scopes r owner (n # ns) =
     (case map_of r n of
        None \<Rightarrow> Inl (ErrMsg ''unknown dataset'')
      | Some d \<Rightarrow>
          if owner \<noteq> ds_writer d then Inl (ErrMsg ''owner does not own dataset'')
          else and_then (writer_scopes r owner ns) (\<lambda>ds. Inr (d # ds)))"

text \<open>A capability (\<open>reader\<close>, \<open>writer\<close>) is the list of datasets it grants.\<close>

definition writerSet :: "registry \<Rightarrow> string \<Rightarrow> string list \<Rightarrow> dataset list res" where
  "writerSet r owner names =
     (if names = [] then Inl (ErrMsg ''at least one dataset is required'') else writer_scopes r owner names)"

definition nvm_reader :: "registry \<Rightarrow> string \<Rightarrow> dataset list res" where
  "nvm_reader r name = (case map_of r name of None \<Rightarrow> Inl (ErrMsg ''unknown dataset'') | Some d \<Rightarrow> Inr [d])"

definition nvm_writer :: "registry \<Rightarrow> string \<Rightarrow> string \<Rightarrow> dataset list res" where
  "nvm_writer r name owner = writerSet r owner [name]"

definition in_scope :: "dataset list \<Rightarrow> string \<Rightarrow> bool" where
  "in_scope scopes key = list_ex (\<lambda>d. ds_contains d key) scopes"

definition scope_check :: "dataset list \<Rightarrow> string \<Rightarrow> unit res" where
  "scope_check scopes key = (if in_scope scopes key then Inr () else Inl (ErrMsg ''key is outside dataset scope''))"

definition scoped_get :: "dataset list \<Rightarrow> ctx \<Rightarrow> string \<Rightarrow> kv \<Rightarrow> blob res" where
  "scoped_get scopes ctx key s = and_then (scope_check scopes key) (\<lambda>_. kv_get ctx key s)"

definition scoped_set :: "dataset list \<Rightarrow> ctx \<Rightarrow> string \<Rightarrow> blob \<Rightarrow> kv \<Rightarrow> kv res" where
  "scoped_set scopes ctx key v s = and_then (scope_check scopes key) (\<lambda>_. kv_set ctx key v s)"

definition scoped_delete :: "dataset list \<Rightarrow> ctx \<Rightarrow> string \<Rightarrow> kv \<Rightarrow> kv res" where
  "scoped_delete scopes ctx key s = and_then (scope_check scopes key) (\<lambda>_. kv_delete ctx key s)"

text \<open>
  What a callback of \<open>writer.Update\<close> can do with the store it is given: a sequence of writes through
  the capability (what it reads decides which), up to the first error.
\<close>

datatype write_op = Op_Set string blob | Op_Delete string

fun scoped_ops :: "dataset list \<Rightarrow> ctx \<Rightarrow> write_op list \<Rightarrow> kv \<Rightarrow> kv res" where
  "scoped_ops scopes ctx [] s = Inr s"
| "scoped_ops scopes ctx (Op_Set k v # ops) s = and_then (scoped_set scopes ctx k v s) (scoped_ops scopes ctx ops)"
| "scoped_ops scopes ctx (Op_Delete k # ops) s = and_then (scoped_delete scopes ctx k s) (scoped_ops scopes ctx ops)"

subsection \<open>Overlap is having a common key\<close>

definition ds_ok :: "dataset \<Rightarrow> bool" where
  "ds_ok d \<longleftrightarrow> ds_name d \<noteq> [] \<and> ds_writer d \<noteq> [] \<and> (ds_prefix d = []) \<noteq> (ds_keys d = [])"

lemma overlaps_iff:
  assumes "ds_ok a" "ds_ok b"
  shows "overlaps a b \<longleftrightarrow> (\<exists>key. ds_contains a key \<and> ds_contains b key)"
proof (cases "ds_prefix a \<noteq> [] \<and> ds_prefix b \<noteq> []")
  case True
  with assms have "ds_keys a = []" "ds_keys b = []" by (auto simp: ds_ok_def)
  with True show ?thesis
    by (auto simp: overlaps_def ds_contains_def dest: prefix_same_cases)
next
  case False
  then show ?thesis using assms
    by (fastforce simp: overlaps_def ds_contains_def list_ex_iff ds_ok_def)
qed

definition registry_ok :: "registry \<Rightarrow> bool" where
  "registry_ok r \<longleftrightarrow> distinct (keys r) \<and> (\<forall>(n, d) \<in> set r. ds_ok d \<and> ds_name d = n)
     \<and> (\<forall>(n, d) \<in> set r. \<forall>(m, e) \<in> set r. n \<noteq> m \<longrightarrow> \<not> overlaps d e)"

lemma overlaps_sym: "overlaps a b = overlaps b a"
  by (auto simp: overlaps_def)

lemma register_ok:
  assumes "registry_ok r" "register d r = Inr r'"
  shows "registry_ok r'"
proof -
  from assms(2) have r': "r' = (ds_name d, d) # r" and d: "ds_ok d" and new: "ds_name d \<notin> fst ` set r"
    and no: "\<And>n e. (n, e) \<in> set r \<Longrightarrow> \<not> overlaps d e"
    by (auto simp: register_def ds_ok_def list_ex_iff map_of_eq_None_iff split: if_splits)
  with assms(1) show ?thesis
    by (auto simp: registry_ok_def overlaps_sym [of _ d])
qed

fun register_all :: "dataset list \<Rightarrow> registry \<Rightarrow> registry res" where
  "register_all [] r = Inr r"
| "register_all (d # ds) r = and_then (register d r) (register_all ds)"

lemma register_all_ok: "registry_ok r \<Longrightarrow> register_all ds r = Inr r' \<Longrightarrow> registry_ok r'"
  by (induction ds r rule: register_all.induct) (auto simp: and_then_Inr dest: register_ok)

lemma scoped_ops_confined:
  "scoped_ops scopes ctx ops s = Inr s' \<Longrightarrow> \<not> in_scope scopes key \<Longrightarrow> s' key = s key"
  by (induction scopes ctx ops s rule: scoped_ops.induct)
     (auto simp: and_then_Inr scoped_set_def scoped_delete_def scope_check_def kv_set_def kv_delete_def
           split: if_splits option.splits)

lemma writer_scopes_owned:
  assumes "writer_scopes r owner names = Inr scopes" "d \<in> set scopes"
  shows "\<exists>n. map_of r n = Some d \<and> ds_writer d = owner"
  using assms
  by (induction names arbitrary: scopes) (auto simp: and_then_Inr split: option.splits if_splits)

section \<open>Properties\<close>

text \<open>In a dataset registry that was built by any sequence of successful \<open>Register\<close> calls, no
  storage key belongs to two datasets: prefixes and exact keys alike are owned by one dataset.\<close>

theorem registry_datasets_disjoint:
  assumes "register_all ds [] = Inr r" and "map_of r n = Some d" and "map_of r m = Some e"
    and "ds_contains d key" and "ds_contains e key"
  shows "n = m"
proof (rule ccontr)
  assume "n \<noteq> m"
  have ok: "registry_ok r" by (rule register_all_ok [OF _ assms(1)]) (simp add: registry_ok_def)
  from map_of_SomeD [OF assms(2)] map_of_SomeD [OF assms(3)] ok \<open>n \<noteq> m\<close>
  have "\<not> overlaps d e" "ds_ok d" "ds_ok e" unfolding registry_ok_def case_prod_unfold by force+
  with overlaps_iff assms(4,5) show False by blast
qed

theorem registry_datasets_disjoint_witness:
  "let d = \<lparr>ds_name = ''links'', ds_writer = ''taskhub'', ds_prefix = ''watch.'', ds_keys = []\<rparr>;
       e = \<lparr>ds_name = ''auth'', ds_writer = ''tgauth'', ds_prefix = [], ds_keys = [''session'', ''app'']\<rparr> in
   register_all [d, e] [] = Inr [(''auth'', e), (''links'', d)] \<and> \<not> ds_contains e ''watch.x''"
proof -
  let ?d = "\<lparr>ds_name = ''links'', ds_writer = ''taskhub'', ds_prefix = ''watch.'', ds_keys = []\<rparr>"
  let ?e = "\<lparr>ds_name = ''auth'', ds_writer = ''tgauth'', ds_prefix = [], ds_keys = [''session'', ''app'']\<rparr>"
  have r: "register_all [?d, ?e] [] = Inr [(''auth'', ?e), (''links'', ?d)]"
    by (simp add: register_def overlaps_def ds_contains_def)
  have "ds_contains ?d ''watch.x''" by (simp add: ds_contains_def)
  with registry_datasets_disjoint [OF r, of "''links''" ?d "''auth''" ?e "''watch.x''"] r show ?thesis by auto
qed

text \<open>A storage capability confines its holder: whatever a callback does inside \<open>writer.Update\<close>, and
  however the transaction ends, no key outside the datasets the registry granted to this owner changes.\<close>

theorem writer_confined_to_datasets:
  assumes "writerSet r owner names = Inr scopes"
    and "memory_update ctx ctx' (\<lambda>s. and_then (scoped_ops scopes ctx (plan s) s) (\<lambda>s'. Inr ((), s'))) s = (res, s')"
    and "s' key \<noteq> s key"
  shows "\<exists>n d. map_of r n = Some d \<and> ds_writer d = owner \<and> ds_contains d key"
proof -
  have "in_scope scopes key"
  proof (rule ccontr)
    assume "\<not> in_scope scopes key"
    then have keep: "c' key = c key" if "scoped_ops scopes ctx (plan c) c = Inr c'" for c c'
      using scoped_ops_confined that by blast
    have "\<exists>c'. Some s' = Some c' \<and> c' key = s key"
      by (rule mem.upd_invariant [OF assms(2)]) (auto simp: and_then_Inr dest!: keep)
    then have "s' key = s key" by simp
    with assms(3) show False by simp
  qed
  then obtain d where "d \<in> set scopes" "ds_contains d key" by (auto simp: in_scope_def list_ex_iff)
  with writer_scopes_owned [of r owner names scopes d] assms(1) show ?thesis
    by (auto simp: writerSet_def split: if_splits)
qed

theorem writer_confined_to_datasets_witness:
  "let d = \<lparr>ds_name = ''links'', ds_writer = ''taskhub'', ds_prefix = ''watch.'', ds_keys = []\<rparr> in
   \<exists>n e. map_of [(''links'', d)] n = Some e \<and> ds_writer e = ''taskhub'' \<and> ds_contains e ''watch.x''"
proof -
  let ?d = "\<lparr>ds_name = ''links'', ds_writer = ''taskhub'', ds_prefix = ''watch.'', ds_keys = []\<rparr>"
  have w: "writerSet [(''links'', ?d)] ''taskhub'' [''links''] = Inr [?d]" by (simp add: writerSet_def)
  let ?s' = "[''watch.x'' \<mapsto> Doc JNull] :: kv"
  have "memory_update None None (\<lambda>s. and_then (scoped_ops [?d] None [Op_Set ''watch.x'' (Doc JNull)] s) (\<lambda>s'. Inr ((), s')))
      Map.empty = (Inr (), ?s')"
    by (simp add: memory_update_def scoped_set_def scope_check_def in_scope_def ds_contains_def kv_set_def)
  from writer_confined_to_datasets [OF w, of None None "\<lambda>_. [Op_Set ''watch.x'' (Doc JNull)]", OF this, of "''watch.x''"]
  show ?thesis by simp
qed



end
