(* ===== verification/Task_Hub.thy ===== *)
theory Task_Hub
  imports Kv_Store
begin

text \<open>
  The task hub of \<open>bsw/cdd/taskhub\<close>: indexed collections of JSON records inside one storage namespace
  (\<open>collection.go\<close>, \<open>mutation.go\<close>, \<open>hub.go\<close>), the state machine of downloads
  (\<open>interfaces/types/download_state.go\<close>), the local download repository, the link repository, the
  expiry of links and associations and the maintenance deletion. Every operation is a transaction
  (\<open>'a txn\<close>) run by \<open>memory_update\<close>; indexes are association lists, so that the order in which Go
  ranges over a map is the arbitrary order of the list.
\<close>

section \<open>Download states\<close>

definition downloadUnknown :: string where "downloadUnknown = ''unknown''"

definition normalizeDownloadState :: "string \<Rightarrow> string" where
  "normalizeDownloadState status =
     (let s = to_lower (trim_space status)
      in if s = ''waiting'' \<or> s = ''queued'' then ''queued''
         else if s = ''active'' then ''active''
         else if s = ''paused'' then ''paused''
         else if s = ''complete'' then ''complete''
         else if s = ''error'' then ''error''
         else if s = ''removed'' then ''removed''
         else downloadUnknown)"

definition downloadTransition :: "string \<Rightarrow> string \<Rightarrow> bool" where
  "downloadTransition from to =
     (if from = to then True
      else if to = downloadUnknown then False
      else if from = ''removed'' then False
      else if from = ''complete'' then to = ''removed''
      else True)"

section \<open>Collections\<close>

record collection =
  co_initErr :: "err option"
  co_scopes :: "dataset list"
  co_prefix :: string
  co_indexKey :: string

type_synonym index = "(string \<times> instant) list"

definition forwardPrefix :: string where "forwardPrefix = ''forward.job.''"
definition forwardIndex :: string where "forwardIndex = ''forward.index''"
definition linkPrefix :: string where "linkPrefix = ''watch.download.''"
definition linkIndex :: string where "linkIndex = ''watch.download.index''"
definition aria2Prefix :: string where "aria2Prefix = ''watch.aria2.task.''"
definition aria2Index :: string where "aria2Index = ''watch.aria2.index''"
definition localPrefix :: string where "localPrefix = ''download.local.task.''"
definition localIndex :: string where "localIndex = ''download.local.index''"

lemmas hub_keys = forwardPrefix_def forwardIndex_def linkPrefix_def linkIndex_def aria2Prefix_def aria2Index_def
  localPrefix_def localIndex_def

fun index_times :: "(string \<times> json) list \<Rightarrow> index res" where
  "index_times [] = Inr []"
| "index_times ((k, j) # fs) =
     (case j of
        JTime t \<Rightarrow> and_then (index_times fs) (\<lambda>ix. Inr ((k, t) # ix))
      | JNull \<Rightarrow> and_then (index_times fs) (\<lambda>ix. Inr ((k, 0) # ix))
      | _ \<Rightarrow> Inl errType)"

definition index_json :: "index \<Rightarrow> blob" where
  "index_json ix = Doc (JObj (map (\<lambda>(k, t). (k, JTime t)) ix))"

text \<open>\<open>index\<close> and \<open>saveIndex\<close>; they work on the store the caller passes.\<close>

definition col_index :: "string \<Rightarrow> (string \<Rightarrow> blob res) \<Rightarrow> index res" where
  "col_index indexKey get =
     (case get indexKey of
        Inl e \<Rightarrow> if errors_is e ErrNotFound then Inr [] else Inl e
      | Inr b \<Rightarrow> and_then (unmarshal_object b) index_times)"

definition col_saveIndex :: "string \<Rightarrow> (string \<Rightarrow> blob \<Rightarrow> kv res) \<Rightarrow> index \<Rightarrow> kv res" where
  "col_saveIndex indexKey write_blob ix = write_blob indexKey (index_json ix)"

text \<open>The store of a collection is the writer that the registry granted.\<close>

abbreviation col_get :: "collection \<Rightarrow> ctx \<Rightarrow> kv \<Rightarrow> string \<Rightarrow> blob res" where
  "col_get c ctx s key \<equiv> scoped_get (co_scopes c) ctx key s"

abbreviation col_set :: "collection \<Rightarrow> ctx \<Rightarrow> kv \<Rightarrow> string \<Rightarrow> blob \<Rightarrow> kv res" where
  "col_set c ctx s key v \<equiv> scoped_set (co_scopes c) ctx key v s"

abbreviation col_delete :: "collection \<Rightarrow> ctx \<Rightarrow> kv \<Rightarrow> string \<Rightarrow> kv res" where
  "col_delete c ctx s key \<equiv> scoped_delete (co_scopes c) ctx key s"

text \<open>The wrapper of every method: the error of opening the hub first, then \<open>storage.Update\<close>.\<close>

definition col_run :: "collection \<Rightarrow> ctx \<Rightarrow> ctx \<Rightarrow> 'a txn \<Rightarrow> kv \<Rightarrow> 'a res \<times> kv" where
  "col_run c ctx ctx' fn s =
     (case co_initErr c of
        Some e \<Rightarrow> (Inl e, s)
      | None \<Rightarrow> storage_update ctx (\<lambda>ctx. memory_update ctx ctx') fn s)"

definition put_txn :: "collection \<Rightarrow> ctx \<Rightarrow> string \<Rightarrow> blob \<Rightarrow> instant \<Rightarrow> unit txn" where
  "put_txn c ctx tid data createdAt s =
     and_then (col_index (co_indexKey c) (col_get c ctx s)) (\<lambda>ix.
     and_then (col_set c ctx s (co_prefix c @ tid) data) (\<lambda>s1.
     and_then (col_saveIndex (co_indexKey c) (col_set c ctx s1) (AList.update tid createdAt ix)) (\<lambda>s2.
     Inr ((), s2))))"

definition col_put :: "collection \<Rightarrow> ctx \<Rightarrow> ctx \<Rightarrow> string \<Rightarrow> blob \<Rightarrow> instant \<Rightarrow> kv \<Rightarrow> unit res \<times> kv" where
  "col_put c ctx ctx' tid data createdAt s =
     (case co_initErr c of
        Some e \<Rightarrow> (Inl e, s)
      | None \<Rightarrow>
          if tid = [] \<or> \<not> json_valid data then (Inl (ErrMsg ''invalid task id or JSON record''), s)
          else col_run c ctx ctx' (put_txn c ctx tid data createdAt) s)"

definition col_read :: "collection \<Rightarrow> ctx \<Rightarrow> string \<Rightarrow> kv \<Rightarrow> blob res" where
  "col_read c ctx tid s =
     (case co_initErr c of Some e \<Rightarrow> Inl e | None \<Rightarrow> col_get c ctx s (co_prefix c @ tid))"

definition remove_txn :: "collection \<Rightarrow> ctx \<Rightarrow> string \<Rightarrow> unit txn" where
  "remove_txn c ctx tid s =
     and_then (col_index (co_indexKey c) (col_get c ctx s)) (\<lambda>ix.
     and_then (col_delete c ctx s (co_prefix c @ tid)) (\<lambda>s1.
     and_then (col_saveIndex (co_indexKey c) (col_set c ctx s1) (AList.delete tid ix)) (\<lambda>s2.
     Inr ((), s2))))"

definition col_remove :: "collection \<Rightarrow> ctx \<Rightarrow> ctx \<Rightarrow> string \<Rightarrow> kv \<Rightarrow> unit res \<times> kv" where
  "col_remove c ctx ctx' tid s = col_run c ctx ctx' (remove_txn c ctx tid) s"

text \<open>The loop of \<open>Records\<close>: the records found and the index entries kept.\<close>

fun records_loop :: "(string \<Rightarrow> blob res) \<Rightarrow> string \<Rightarrow> index \<Rightarrow> ((string \<times> blob) list \<times> index) res" where
  "records_loop get pre [] = Inr ([], [])"
| "records_loop get pre ((tid, t) # ix) =
     (case get (pre @ tid) of
        Inl e \<Rightarrow> if errors_is e ErrNotFound then records_loop get pre ix else Inl e
      | Inr data \<Rightarrow> and_then (records_loop get pre ix) (\<lambda>(rs, kept). Inr ((tid, data) # rs, (tid, t) # kept)))"

definition records_txn :: "collection \<Rightarrow> ctx \<Rightarrow> (string \<times> blob) list txn" where
  "records_txn c ctx s =
     and_then (col_index (co_indexKey c) (col_get c ctx s)) (\<lambda>ix.
     and_then (records_loop (col_get c ctx s) (co_prefix c) ix) (\<lambda>(rs, kept).
     if length kept < length ix
     then and_then (col_saveIndex (co_indexKey c) (col_set c ctx s) kept) (\<lambda>s1. Inr (rs, s1))
     else Inr (rs, s)))"

definition col_records :: "collection \<Rightarrow> ctx \<Rightarrow> ctx \<Rightarrow> kv \<Rightarrow> (string \<times> blob) list res \<times> kv" where
  "col_records c ctx ctx' s = col_run c ctx ctx' (records_txn c ctx) s"

section \<open>Mutations\<close>

text \<open>
  \<open>Mutate\<close>: the callback sees the record and its index stamp (the zero instant when it is not indexed)
  and returns the next record, \<open>None\<close> to delete it, with its stamp; \<open>x\<close> is what it leaves in the
  variables it captures.
\<close>

definition stamp_of :: "index \<Rightarrow> string \<Rightarrow> instant" where
  "stamp_of ix tid = (case map_of ix tid of None \<Rightarrow> 0 | Some t \<Rightarrow> t)"

definition mutate_next :: "collection \<Rightarrow> ctx \<Rightarrow> string \<Rightarrow> kv \<Rightarrow> index \<Rightarrow> blob \<Rightarrow> blob option \<Rightarrow> instant \<Rightarrow> 'a
    \<Rightarrow> ('a \<times> kv) res" where
  "mutate_next c ctx tid s ix data n stamp x =
     (case n of
        None \<Rightarrow>
          and_then (col_delete c ctx s (co_prefix c @ tid)) (\<lambda>s1.
          and_then (col_saveIndex (co_indexKey c) (col_set c ctx s1) (AList.delete tid ix)) (\<lambda>s2. Inr (x, s2)))
      | Some b \<Rightarrow>
          if \<not> json_valid b then Inl (ErrMsg ''invalid task JSON'')
          else and_then (if b \<noteq> data then col_set c ctx s (co_prefix c @ tid) b else Inr s) (\<lambda>s1.
               if map_of ix tid = Some stamp then Inr (x, s1)
               else and_then (col_saveIndex (co_indexKey c) (col_set c ctx s1) (AList.update tid stamp ix))
                      (\<lambda>s2. Inr (x, s2))))"

definition mutate_txn :: "collection \<Rightarrow> ctx \<Rightarrow> string \<Rightarrow> (blob \<Rightarrow> instant \<Rightarrow> (blob option \<times> instant \<times> 'a) res) \<Rightarrow> 'a txn" where
  "mutate_txn c ctx tid fn s =
     and_then (col_index (co_indexKey c) (col_get c ctx s)) (\<lambda>ix.
     and_then (col_get c ctx s (co_prefix c @ tid)) (\<lambda>data.
     and_then (fn data (stamp_of ix tid)) (\<lambda>(n, stamp, x). mutate_next c ctx tid s ix data n stamp x)))"

definition col_mutate :: "collection \<Rightarrow> ctx \<Rightarrow> ctx \<Rightarrow> string \<Rightarrow> (blob \<Rightarrow> instant \<Rightarrow> (blob option \<times> instant \<times> 'a) res)
    \<Rightarrow> kv \<Rightarrow> 'a res \<times> kv" where
  "col_mutate c ctx ctx' tid fn s = col_run c ctx ctx' (mutate_txn c ctx tid fn) s"

text \<open>The loop of \<open>Sweep\<close>, with the index entries that are kept.\<close>

fun sweep_loop :: "collection \<Rightarrow> ctx \<Rightarrow> (blob \<Rightarrow> instant \<Rightarrow> bool res) \<Rightarrow> index \<Rightarrow> kv \<Rightarrow> (index \<times> kv) res" where
  "sweep_loop c ctx expired [] s = Inr ([], s)"
| "sweep_loop c ctx expired ((tid, t) # ix) s =
     (let remove = (case col_get c ctx s (co_prefix c @ tid) of
                      Inl e \<Rightarrow> if errors_is e ErrNotFound then Inr True else Inl e
                    | Inr data \<Rightarrow> expired data t)
      in and_then remove (\<lambda>r.
           if r then and_then (col_delete c ctx s (co_prefix c @ tid)) (sweep_loop c ctx expired ix)
           else and_then (sweep_loop c ctx expired ix s) (\<lambda>(kept, s1). Inr ((tid, t) # kept, s1))))"

definition sweep_txn :: "collection \<Rightarrow> ctx \<Rightarrow> (blob \<Rightarrow> instant \<Rightarrow> bool res) \<Rightarrow> unit txn" where
  "sweep_txn c ctx expired s =
     and_then (col_index (co_indexKey c) (col_get c ctx s)) (\<lambda>ix.
     and_then (sweep_loop c ctx expired ix s) (\<lambda>(kept, s1).
     if length kept < length ix
     then and_then (col_saveIndex (co_indexKey c) (col_set c ctx s1) kept) (\<lambda>s2. Inr ((), s2))
     else Inr ((), s1)))"

definition col_sweep :: "collection \<Rightarrow> ctx \<Rightarrow> ctx \<Rightarrow> (blob \<Rightarrow> instant \<Rightarrow> bool res) \<Rightarrow> kv \<Rightarrow> unit res \<times> kv" where
  "col_sweep c ctx ctx' expired s = col_run c ctx ctx' (sweep_txn c ctx expired) s"

text \<open>\<open>MarkDownloaded\<close>: a record without an \<open>id\<close> field is an error.\<close>

definition mark_downloaded :: "string \<Rightarrow> blob \<Rightarrow> instant \<Rightarrow> (blob option \<times> instant \<times> unit) res" where
  "mark_downloaded tid data stamp =
     and_then (unmarshal_object data) (\<lambda>raw.
     let raw1 = AList.update ''downloaded'' (JBool True) raw
     in if map_of raw1 ''id'' = None then Inl errSyntax
        else and_then (field_string raw1 ''id'') (\<lambda>pid.
             if pid \<noteq> tid then Inl (ErrMsg ''download source identity mismatch'')
             else Inr (Some (Doc (JObj raw1)), stamp, ())))"

definition markDownloaded :: "collection \<Rightarrow> ctx \<Rightarrow> ctx \<Rightarrow> string \<Rightarrow> kv \<Rightarrow> unit res \<times> kv" where
  "markDownloaded c ctx ctx' tid s = col_mutate c ctx ctx' tid (mark_downloaded tid) s"

section \<open>The hub\<close>

definition writerID :: string where "writerID = ''taskhub''"

record hub =
  hub_forward :: collection
  hub_links :: collection
  hub_aria2 :: collection
  hub_local :: collection

definition hub_scope :: "string \<Rightarrow> string \<Rightarrow> dataset" where
  "hub_scope name scope = \<lparr>ds_name = name, ds_writer = writerID, ds_prefix = scope, ds_keys = []\<rparr>"

definition new_collection :: "dataset list \<Rightarrow> string \<Rightarrow> string \<Rightarrow> collection" where
  "new_collection scopes pre indexKey = \<lparr>co_initErr = None, co_scopes = scopes, co_prefix = pre, co_indexKey = indexKey\<rparr>"

text \<open>One round of the loop of \<open>Open\<close>: register a dataset and take its writer.\<close>

definition open_item :: "string \<Rightarrow> string \<Rightarrow> string \<Rightarrow> string \<Rightarrow> registry \<Rightarrow> (collection \<times> registry) res" where
  "open_item name scope pre indexKey r =
     and_then (register (hub_scope name scope) r) (\<lambda>r1.
     and_then (nvm_writer r1 name writerID) (\<lambda>w. Inr (new_collection w pre indexKey, r1)))"

definition open_hub :: "hub res" where
  "open_hub =
     and_then (open_item ''forward'' ''forward.'' forwardPrefix forwardIndex []) (\<lambda>(f, r1).
     and_then (open_item ''links'' linkPrefix linkPrefix linkIndex r1) (\<lambda>(l, r2).
     and_then (open_item ''aria2'' ''watch.aria2.'' aria2Prefix aria2Index r2) (\<lambda>(a, r3).
     and_then (open_item ''local'' ''download.local.'' localPrefix localIndex r3) (\<lambda>(d, r4).
     Inr \<lparr>hub_forward = f, hub_links = l, hub_aria2 = a, hub_local = d\<rparr>))))"

definition owned :: "(hub \<Rightarrow> collection) \<Rightarrow> collection" where
  "owned select =
     (case open_hub of
        Inl e \<Rightarrow> \<lparr>co_initErr = Some e, co_scopes = [], co_prefix = [], co_indexKey = []\<rparr>
      | Inr h \<Rightarrow> select h)"

definition links :: collection where "links = owned hub_links"
definition aria2 :: collection where "aria2 = owned hub_aria2"
definition local_tasks :: collection where "local_tasks = owned hub_local"
definition forward_jobs :: collection where "forward_jobs = owned hub_forward"


lemma hub_collections:
  "links = new_collection [hub_scope ''links'' linkPrefix] linkPrefix linkIndex"
  "aria2 = new_collection [hub_scope ''aria2'' ''watch.aria2.''] aria2Prefix aria2Index"
  "local_tasks = new_collection [hub_scope ''local'' ''download.local.''] localPrefix localIndex"
  "forward_jobs = new_collection [hub_scope ''forward'' ''forward.''] forwardPrefix forwardIndex"
  by (simp_all add: links_def aria2_def local_tasks_def forward_jobs_def owned_def open_hub_def open_item_def
      register_def nvm_writer_def writerSet_def overlaps_def hub_scope_def writerID_def hub_keys)

subsection \<open>What a collection promises\<close>

text \<open>
  A collection whose writer covers its records and its index. The lemmas below hold for all four
  collections of the hub.
\<close>

lemma index_json_roundtrip:
  "distinct (keys ix) \<Longrightarrow> and_then (unmarshal_object (index_json ix)) index_times = Inr ix"
proof -
  have "index_times (map (\<lambda>(k, t). (k, JTime t)) ix) = Inr ix" by (induction ix) auto
  moreover assume "distinct (keys ix)"
  then have "distinct (keys (map (\<lambda>(k, t). (k, JTime t)) ix))" by (simp add: case_prod_unfold comp_def)
  ultimately show ?thesis by (simp add: index_json_def unmarshal_object_def)
qed

lemma index_times_keys: "index_times fs = Inr ix \<Longrightarrow> keys ix = keys fs"
  by (induction fs arbitrary: ix rule: index_times.induct) (auto simp: and_then_Inr split: json.splits)

definition index_is :: "collection \<Rightarrow> kv \<Rightarrow> index \<Rightarrow> bool" where
  "index_is c s ix \<longleftrightarrow> col_index (co_indexKey c) (\<lambda>k. kv_get None k s) = Inr ix"

text \<open>No orphans: every stored record is listed in the index.\<close>

definition indexed :: "collection \<Rightarrow> kv \<Rightarrow> bool" where
  "indexed c s \<longleftrightarrow> (\<exists>ix. index_is c s ix \<and> (\<forall>tid. s (co_prefix c @ tid) \<noteq> None \<and> co_prefix c @ tid \<noteq> co_indexKey c
     \<longrightarrow> tid \<in> set (keys ix)))"

locale hub_collection =
  fixes c :: collection
  assumes opened: "co_initErr c = None"
    and record_in_scope: "in_scope (co_scopes c) (co_prefix c @ tid)"
    and index_in_scope: "in_scope (co_scopes c) (co_indexKey c)"
begin

lemma scoped_record [simp]:
  "scoped_get (co_scopes c) ctx (co_prefix c @ tid) s = kv_get ctx (co_prefix c @ tid) s"
  "scoped_set (co_scopes c) ctx (co_prefix c @ tid) v s = kv_set ctx (co_prefix c @ tid) v s"
  "scoped_delete (co_scopes c) ctx (co_prefix c @ tid) s = kv_delete ctx (co_prefix c @ tid) s"
  using record_in_scope [of tid] by (simp_all add: scoped_get_def scoped_set_def scoped_delete_def scope_check_def)

lemma scoped_index [simp]:
  "scoped_get (co_scopes c) ctx (co_indexKey c) s = kv_get ctx (co_indexKey c) s"
  "scoped_set (co_scopes c) ctx (co_indexKey c) v s = kv_set ctx (co_indexKey c) v s"
  using index_in_scope by (simp_all add: scoped_get_def scoped_set_def scope_check_def)

lemma col_index_scoped: "col_index (co_indexKey c) (col_get c ctx s) = col_index (co_indexKey c) (\<lambda>k. kv_get ctx k s)"
  by (simp add: col_index_def)

lemma index_is_distinct: "index_is c s ix \<Longrightarrow> distinct (keys ix)"
  unfolding index_is_def col_index_def
  by (auto simp: and_then_Inr split: sum.splits if_splits dest!: distinct_unmarshal index_times_keys)

lemma index_is_cong: "s (co_indexKey c) = s' (co_indexKey c) \<Longrightarrow> index_is c s ix = index_is c s' ix"
  by (simp add: index_is_def col_index_def kv_get_def)

lemma index_is_saved: "distinct (keys ix) \<Longrightarrow> index_is c (s(co_indexKey c \<mapsto> index_json ix)) ix"
  using index_json_roundtrip [of ix] by (simp add: index_is_def col_index_def kv_get_def)

lemma put_eq:
  assumes "tid \<noteq> []" "json_valid data" "index_is c s ix"
  shows "col_put c None None tid data t s
    = (Inr (), s(co_prefix c @ tid \<mapsto> data, co_indexKey c \<mapsto> index_json (AList.update tid t ix)))"
  using assms unfolding index_is_def
  by (simp add: col_put_def col_run_def opened storage_update_def memory_update_def put_txn_def col_index_scoped
      col_saveIndex_def kv_set_def)

lemma run_None: "col_run c None None fn s = (case fn s of Inl e \<Rightarrow> (Inl e, s) | Inr (x, s') \<Rightarrow> (Inr x, s'))"
  by (simp add: col_run_def opened storage_update_def memory_update_def split: sum.split)

lemma run_fails: "col_run c ctx ctx' fn s = (Inl e, s') \<Longrightarrow> s' = s"
  by (auto simp: col_run_def storage_update_def memory_update_def split: option.splits sum.splits)

lemma run_succeeds: "col_run c ctx ctx' fn s = (Inr x, s') \<Longrightarrow> ctx = None \<and> ctx' = None \<and> fn s = Inr (x, s')"
  by (auto simp: col_run_def storage_update_def memory_update_def split: option.splits sum.splits)

lemma indexed_keep:
  assumes "indexed c s" "s' (co_indexKey c) = s (co_indexKey c)"
    "\<And>tid. s' (co_prefix c @ tid) \<noteq> None \<Longrightarrow> s (co_prefix c @ tid) \<noteq> None"
  shows "indexed c s'"
  using assms index_is_cong [of s' s] unfolding indexed_def by blast

lemma indexed_saved:
  assumes "distinct (keys ix)" "s' (co_indexKey c) = Some (index_json ix)"
    "\<And>tid. s' (co_prefix c @ tid) \<noteq> None \<Longrightarrow> co_prefix c @ tid \<noteq> co_indexKey c \<Longrightarrow> tid \<in> set (keys ix)"
  shows "indexed c s'"
proof -
  have "s'(co_indexKey c \<mapsto> index_json ix) = s'" using assms(2) by (simp add: fun_upd_idem)
  with index_is_saved [OF assms(1), of s'] have "index_is c s' ix" by simp
  with assms(3) show ?thesis unfolding indexed_def by blast
qed

lemma put_keeps_indexed:
  assumes "col_put c ctx ctx' tid data t s = (r, s')" "indexed c s"
  shows "indexed c s'"
proof (cases r)
  case (Inl e)
  with assms show ?thesis
    by (auto simp: col_put_def opened split: if_splits dest: run_fails)
next
  case (Inr x)
  with assms(1) have "put_txn c None tid data t s = Inr (x, s')"
    by (auto simp: col_put_def opened split: if_splits dest!: run_succeeds)
  then obtain ix where ix: "index_is c s ix"
    and s': "s' = s(co_prefix c @ tid \<mapsto> data, co_indexKey c \<mapsto> index_json (AList.update tid t ix))"
    by (auto simp: put_txn_def and_then_Inr col_index_scoped col_saveIndex_def kv_set_def index_is_def)
  have "\<And>i. s (co_prefix c @ i) \<noteq> None \<Longrightarrow> co_prefix c @ i \<noteq> co_indexKey c \<Longrightarrow> i \<in> set (keys ix)"
    using assms(2) ix by (auto simp: indexed_def index_is_def)
  with s' show ?thesis
    by (intro indexed_saved [of "AList.update tid t ix"]) (auto simp: index_is_distinct [OF ix] alist_simps split: if_splits)
qed

lemma remove_keeps_indexed:
  assumes "col_remove c ctx ctx' tid s = (r, s')" "indexed c s"
  shows "indexed c s'"
proof (cases r)
  case (Inl e)
  with assms show ?thesis by (auto simp: col_remove_def dest: run_fails)
next
  case (Inr x)
  with assms(1) have "remove_txn c None tid s = Inr (x, s')"
    by (auto simp: col_remove_def dest!: run_succeeds)
  then obtain ix where ix: "index_is c s ix"
    and s': "s' = s(co_prefix c @ tid := None, co_indexKey c \<mapsto> index_json (AList.delete tid ix))"
    by (auto simp: remove_txn_def and_then_Inr col_index_scoped col_saveIndex_def kv_set_def kv_delete_def index_is_def)
  have "\<And>i. s (co_prefix c @ i) \<noteq> None \<Longrightarrow> co_prefix c @ i \<noteq> co_indexKey c \<Longrightarrow> i \<in> set (keys ix)"
    using assms(2) ix by (auto simp: indexed_def index_is_def)
  with s' show ?thesis
    by (intro indexed_saved [of "AList.delete tid ix"]) (auto simp: index_is_distinct [OF ix] alist_simps split: if_splits)
qed

text \<open>\<open>Mutate\<close> in full: what it needs, and the record, the index and everything else afterwards.\<close>

lemma mutate_cases:
  assumes "col_mutate c ctx ctx' tid fn s = (Inr x, s')"
  obtains ix data n stamp where "ctx = None" "ctx' = None" "index_is c s ix" "s (co_prefix c @ tid) = Some data"
    "fn data (stamp_of ix tid) = Inr (n, stamp, x)"
    "n = None \<and> s' = s(co_prefix c @ tid := None, co_indexKey c \<mapsto> index_json (AList.delete tid ix))
     \<or> (\<exists>b. n = Some b \<and> json_valid b \<and> s' = (if map_of ix tid = Some stamp then s(co_prefix c @ tid \<mapsto> b)
          else s(co_prefix c @ tid \<mapsto> b, co_indexKey c \<mapsto> index_json (AList.update tid stamp ix))))"
proof -
  from run_succeeds [OF assms [unfolded col_mutate_def]]
  have none: "ctx = None" "ctx' = None" and m: "mutate_txn c None tid fn s = Inr (x, s')" by auto
  from m obtain ix where ix: "index_is c s ix" and m1: "and_then (kv_get None (co_prefix c @ tid) s)
      (\<lambda>data. and_then (fn data (stamp_of ix tid)) (\<lambda>(n, stamp, x). mutate_next c None tid s ix data n stamp x)) = Inr (x, s')"
    unfolding mutate_txn_def col_index_scoped index_is_def scoped_record by (auto simp: and_then_Inr)
  from m1 obtain data n stamp y where h: "s (co_prefix c @ tid) = Some data"
    "fn data (stamp_of ix tid) = Inr (n, stamp, y)" and nx: "mutate_next c None tid s ix data n stamp y = Inr (x, s')"
    by (auto simp: and_then_Inr kv_get_def split: option.splits)
  have rest: "y = x \<and> (n = None \<and> s' = s(co_prefix c @ tid := None, co_indexKey c \<mapsto> index_json (AList.delete tid ix))
     \<or> (\<exists>b. n = Some b \<and> json_valid b \<and> s' = (if map_of ix tid = Some stamp then (if b = data then s else s(co_prefix c @ tid \<mapsto> b))
          else (if b = data then s else s(co_prefix c @ tid \<mapsto> b))(co_indexKey c \<mapsto> index_json (AList.update tid stamp ix)))))"
    using nx by (cases n) (auto simp: mutate_next_def and_then_Inr col_saveIndex_def kv_set_def kv_delete_def split: if_splits)
  note h = ix h(1) h(2) [unfolded rest [THEN conjunct1]]
  have "(if b = data then s else s(co_prefix c @ tid \<mapsto> b)) = s(co_prefix c @ tid \<mapsto> b)" for b
    using h(2) by (simp add: fun_upd_idem)
  with rest [THEN conjunct2] show ?thesis by (intro that [OF none h]) (simp only:)
qed

lemma mutate_fails: "col_mutate c ctx ctx' tid fn s = (Inl e, s') \<Longrightarrow> s' = s"
  by (auto simp: col_mutate_def dest: run_fails)

lemma mutate_keeps_indexed:
  assumes "col_mutate c ctx ctx' tid fn s = (r, s')" "indexed c s" "co_prefix c @ tid \<noteq> co_indexKey c"
  shows "indexed c s'"
proof (cases r)
  case (Inl e)
  with assms mutate_fails show ?thesis by blast
next
  case (Inr x)
  with assms(1) have "col_mutate c ctx ctx' tid fn s = (Inr x, s')" by simp
  then show ?thesis
  proof (cases rule: mutate_cases)
    case (1 ix data n stamp)
    have ids: "\<And>i. s (co_prefix c @ i) \<noteq> None \<Longrightarrow> co_prefix c @ i \<noteq> co_indexKey c \<Longrightarrow> i \<in> set (keys ix)"
      using assms(2) 1(3) by (auto simp: indexed_def index_is_def)
    note dist = index_is_distinct [OF 1(3)]
    from 1(6) consider "s' = s(co_prefix c @ tid := None, co_indexKey c \<mapsto> index_json (AList.delete tid ix))"
      | b where "s' = s(co_prefix c @ tid \<mapsto> b)"
      | b where "s' = s(co_prefix c @ tid \<mapsto> b, co_indexKey c \<mapsto> index_json (AList.update tid stamp ix))"
      by (auto split: if_splits)
    then show ?thesis
    proof cases
      case 1
      with ids dist show ?thesis
        by (intro indexed_saved [of "AList.delete tid ix"]) (auto simp: alist_simps split: if_splits)
    next
      case (2 b)
      show ?thesis
        by (rule indexed_keep [OF assms(2)]) (use 2 assms(3) \<open>s (co_prefix c @ tid) = Some data\<close> in \<open>auto split: if_splits\<close>)
    next
      case (3 b)
      with ids dist show ?thesis
        by (intro indexed_saved [of "AList.update tid stamp ix"]) (auto simp: alist_simps split: if_splits)
    qed
  qed
qed

lemma records_loop_spec:
  "records_loop (col_get c None s) (co_prefix c) ix = Inr
     (List.map_filter (\<lambda>(i, t). map_option (Pair i) (s (co_prefix c @ i))) ix,
      filter (\<lambda>(i, t). s (co_prefix c @ i) \<noteq> None) ix)"
  by (induction ix) (auto simp: kv_get_def List.map_filter_simps split: option.splits)

lemma records_eq:
  assumes "index_is c s ix"
  shows "\<exists>s'. col_records c None None s
    = (Inr (List.map_filter (\<lambda>(i, t). map_option (Pair i) (s (co_prefix c @ i))) ix), s')
    \<and> index_is c s' (filter (\<lambda>(i, t). s (co_prefix c @ i) \<noteq> None) ix)
    \<and> (\<forall>k. k \<noteq> co_indexKey c \<longrightarrow> s' k = s k)"
proof -
  let ?kept = "filter (\<lambda>(i, t). s (co_prefix c @ i) \<noteq> None) ix"
  have idx: "col_index (co_indexKey c) (\<lambda>k. kv_get None k s) = Inr ix" using assms by (simp add: index_is_def)
  have dist: "distinct (keys ?kept)" using index_is_distinct [OF assms]
    by (induction ix) auto
  show ?thesis
  proof (cases "length ?kept < length ix")
    case True
    let ?s = "s(co_indexKey c \<mapsto> index_json ?kept)"
    have "index_is c ?s ?kept" by (rule index_is_saved [OF dist])
    moreover have "col_records c None None s
        = (Inr (List.map_filter (\<lambda>(i, t). map_option (Pair i) (s (co_prefix c @ i))) ix), ?s)"
      using True
      by (simp add: col_records_def run_None records_txn_def col_index_scoped idx records_loop_spec col_saveIndex_def kv_set_def)
    ultimately show ?thesis by auto
  next
    case False
    then have "?kept = ix" by (metis filter_id_conv length_filter_less not_less)
    with False assms show ?thesis
      by (simp add: col_records_def run_None records_txn_def col_index_scoped idx records_loop_spec)
  qed
qed

lemma sweep_loop_spec:
  assumes "distinct (keys ix)" "sweep_loop c None expired ix s = Inr (kept, s1)"
  shows "kept = filter (\<lambda>(i, t). \<exists>d. s (co_prefix c @ i) = Some d \<and> expired d t = Inr False) ix
    \<and> s1 = (\<lambda>k. if k \<in> (\<lambda>i. co_prefix c @ i) ` (set (keys ix) - set (keys kept)) then None else s k)"
  using assms
proof (induction ix arbitrary: s kept)
  case Nil
  then show ?case by simp
next
  case (Cons x ix)
  obtain i t where x: "x = (i, t)" by fastforce
  have i: "i \<notin> set (keys ix)" "distinct (keys ix)" using Cons.prems(1) x by auto
  define stay where "stay \<longleftrightarrow> (\<exists>d. s (co_prefix c @ i) = Some d \<and> expired d t = Inr False)"
  show ?case
  proof (cases stay)
    case True
    with Cons.prems(2) x obtain kept' where k: "sweep_loop c None expired ix s = Inr (kept', s1)" "kept = (i, t) # kept'"
      by (auto simp: stay_def kv_get_def and_then_Inr)
    note IH = Cons.IH [OF i(2) k(1)]
    from IH have "set (keys kept') \<subseteq> set (keys ix)" by auto
    with IH k(2) True i(1) x show ?thesis by (auto simp: stay_def)
  next
    case False
    let ?s = "s(co_prefix c @ i := None)"
    from Cons.prems(2) x False have k: "sweep_loop c None expired ix ?s = Inr (kept, s1)"
      by (auto simp: stay_def kv_get_def kv_delete_def and_then_Inr split: option.splits if_splits sum.splits)
    note IH = Cons.IH [OF i(2) k]
    have same: "filter (\<lambda>(j, t). \<exists>d. ?s (co_prefix c @ j) = Some d \<and> expired d t = Inr False) ix
        = filter (\<lambda>(j, t). \<exists>d. s (co_prefix c @ j) = Some d \<and> expired d t = Inr False) ix"
      by (rule filter_cong) (use i(1) in \<open>force split: if_splits\<close>)+
    from IH have "i \<notin> set (keys kept)" using i(1) by auto
    with IH same False x show ?thesis by (auto simp: stay_def fun_eq_iff)
  qed
qed

end

interpretation lk: hub_collection links
  by unfold_locales (simp_all add: hub_collections new_collection_def in_scope_def ds_contains_def hub_scope_def hub_keys)

interpretation ar: hub_collection aria2
  by unfold_locales (simp_all add: hub_collections new_collection_def in_scope_def ds_contains_def hub_scope_def hub_keys)

interpretation lo: hub_collection local_tasks
  by unfold_locales (simp_all add: hub_collections new_collection_def in_scope_def ds_contains_def hub_scope_def hub_keys)

interpretation fw: hub_collection forward_jobs
  by unfold_locales (simp_all add: hub_collections new_collection_def in_scope_def ds_contains_def hub_scope_def hub_keys)

section \<open>Local downloads\<close>

record localDownloadRecord =
  lr_state :: string
  lr_revision :: nat
  lr_id :: string
  lr_taskID :: string
  lr_fileName :: string
  lr_dir :: string
  lr_out :: string
  lr_path :: string
  lr_total :: int
  lr_completed :: int
  lr_status :: string
  lr_error :: string
  lr_speed :: int
  lr_startedAt :: "instant option"
  lr_createdAt :: instant
  lr_updatedAt :: instant

text \<open>\<open>json.Marshal\<close> of a record, with \<open>omitempty\<close>, and \<open>json.Unmarshal\<close> into one.\<close>

definition local_json :: "localDownloadRecord \<Rightarrow> blob" where
  "local_json r = Doc (JObj (
     [(''state'', JStr (lr_state r)), (''revision'', JNum (int (lr_revision r))), (''id'', JStr (lr_id r)),
      (''task_id'', JStr (lr_taskID r)), (''file_name'', JStr (lr_fileName r)), (''dir'', JStr (lr_dir r)),
      (''out'', JStr (lr_out r)), (''path'', JStr (lr_path r)), (''total'', JNum (lr_total r)),
      (''completed'', JNum (lr_completed r)), (''status'', JStr (lr_status r))]
     @ (if lr_error r = [] then [] else [(''error'', JStr (lr_error r))])
     @ (if lr_speed r = 0 then [] else [(''download_speed'', JNum (lr_speed r))])
     @ (case lr_startedAt r of None \<Rightarrow> [] | Some t \<Rightarrow> [(''started_at'', JTime t)])
     @ [(''created_at'', JTime (lr_createdAt r)), (''updated_at'', JTime (lr_updatedAt r))]))"

definition field_time_ptr :: "(string \<times> json) list \<Rightarrow> string \<Rightarrow> instant option res" where
  "field_time_ptr fs k =
     (case map_of fs k of None \<Rightarrow> Inr None | Some JNull \<Rightarrow> Inr None | Some (JTime t) \<Rightarrow> Inr (Some t) | Some _ \<Rightarrow> Inl errType)"

definition local_of_json :: "(string \<times> json) list \<Rightarrow> localDownloadRecord res" where
  "local_of_json fs =
     and_then (field_string fs ''state'') (\<lambda>state. and_then (field_uint64 fs ''revision'') (\<lambda>revision.
     and_then (field_string fs ''id'') (\<lambda>i. and_then (field_string fs ''task_id'') (\<lambda>task.
     and_then (field_string fs ''file_name'') (\<lambda>name. and_then (field_string fs ''dir'') (\<lambda>dir.
     and_then (field_string fs ''out'') (\<lambda>out. and_then (field_string fs ''path'') (\<lambda>path.
     and_then (field_int64 fs ''total'') (\<lambda>tot. and_then (field_int64 fs ''completed'') (\<lambda>compl.
     and_then (field_string fs ''status'') (\<lambda>status. and_then (field_string fs ''error'') (\<lambda>er.
     and_then (field_int64 fs ''download_speed'') (\<lambda>speed. and_then (field_time_ptr fs ''started_at'') (\<lambda>started.
     and_then (field_time fs ''created_at'') (\<lambda>created. and_then (field_time fs ''updated_at'') (\<lambda>updated.
     Inr \<lparr>lr_state = state, lr_revision = revision, lr_id = i, lr_taskID = task, lr_fileName = name, lr_dir = dir,
       lr_out = out, lr_path = path, lr_total = tot, lr_completed = compl, lr_status = status, lr_error = er,
       lr_speed = speed, lr_startedAt = started, lr_createdAt = created, lr_updatedAt = updated\<rparr>))))))))))))))))"

definition decodeLocalRecord :: "string \<Rightarrow> blob \<Rightarrow> localDownloadRecord res" where
  "decodeLocalRecord tid data =
     (case and_then (unmarshal_object data) local_of_json of
        Inl e \<Rightarrow> Inl (ErrWrap ''decode local download record'' e)
      | Inr r \<Rightarrow>
          if lr_id r \<noteq> tid \<or> lr_taskID r = [] \<or> lr_revision r = 0
             \<or> normalizeDownloadState (lr_status r) = downloadUnknown \<or> lr_status r \<noteq> lr_state r
          then Inl (ErrMsg ''invalid local download record identity or state'')
          else Inr r)"

definition local_save_record :: "instant \<Rightarrow> localDownloadRecord \<Rightarrow> localDownloadRecord" where
  "local_save_record now r =
     (let r1 = r\<lparr>lr_taskID := if lr_taskID r = [] then lr_id r else lr_taskID r,
                lr_status := if lr_status r = [] then ''queued'' else lr_status r,
                lr_createdAt := if is_zero (lr_createdAt r) then now else lr_createdAt r,
                lr_updatedAt := now\<rparr>
      in r1\<lparr>lr_state := normalizeDownloadState (lr_status r1),
           lr_revision := if lr_revision r1 = 0 then 1 else lr_revision r1\<rparr>)"

definition local_save :: "ctx \<Rightarrow> ctx \<Rightarrow> instant \<Rightarrow> localDownloadRecord \<Rightarrow> kv \<Rightarrow> unit res \<times> kv" where
  "local_save ctx ctx' now r s =
     (if trim_space (lr_id r) = [] then (Inl (ErrMsg ''local download id is empty''), s)
      else let r1 = local_save_record now r
           in col_put local_tasks ctx ctx' (lr_id r1) (local_json r1) (lr_createdAt r1) s)"

definition local_get :: "ctx \<Rightarrow> string \<Rightarrow> kv \<Rightarrow> localDownloadRecord option res" where
  "local_get ctx tid s =
     (if tid = [] then Inr None
      else case col_read local_tasks ctx tid s of
             Inl e \<Rightarrow> if errors_is e ErrNotFound then Inr None else Inl (ErrWrap ''load local download record'' e)
           | Inr data \<Rightarrow> and_then (decodeLocalRecord tid data) (\<lambda>r. Inr (Some r)))"

fun decode_all :: "(string \<times> blob) list \<Rightarrow> (string \<times> localDownloadRecord) list res" where
  "decode_all [] = Inr []"
| "decode_all ((i, data) # rs) =
     and_then (decodeLocalRecord i data) (\<lambda>r. and_then (decode_all rs) (\<lambda>ds. Inr ((i, r) # ds)))"

definition local_records :: "ctx \<Rightarrow> ctx \<Rightarrow> kv \<Rightarrow> (string \<times> localDownloadRecord) list res \<times> kv" where
  "local_records ctx ctx' s =
     (case col_records local_tasks ctx ctx' s of
        (Inl e, s') \<Rightarrow> (Inl e, s')
      | (Inr rs, s') \<Rightarrow> (decode_all rs, s'))"

definition local_remove :: "ctx \<Rightarrow> ctx \<Rightarrow> string \<Rightarrow> kv \<Rightarrow> unit res \<times> kv" where
  "local_remove ctx ctx' tid s = (if tid = [] then (Inr (), s) else col_remove local_tasks ctx ctx' tid s)"

text \<open>
  \<open>create\<close>: \<open>source\<close> is the observed link (its id and version) that must still be there; \<open>version\<close> is
  the digest \<open>linkVersion\<close> of a stored link.
\<close>

definition create_txn :: "(blob \<Rightarrow> string) \<Rightarrow> ctx \<Rightarrow> instant \<Rightarrow> localDownloadRecord \<Rightarrow> (string \<times> string) option
    \<Rightarrow> localDownloadRecord txn" where
  "create_txn version ctx now r source s =
     and_then
       (case source of
          None \<Rightarrow> Inr ()
        | Some (lid, v) \<Rightarrow>
            (case kv_get ctx (linkPrefix @ lid) s of
               Inl e \<Rightarrow> if errors_is e ErrNotFound then Inl (ErrMsg ''download source was deleted before submission'') else Inl e
             | Inr data \<Rightarrow> if version data \<noteq> v then Inl (ErrMsg ''download source changed before submission'') else Inr ()))
     (\<lambda>_. case col_get local_tasks ctx s (co_prefix local_tasks @ lr_id r) of
            Inr data \<Rightarrow> and_then (decodeLocalRecord (lr_id r) data) (\<lambda>old. Inr (old, s))
          | Inl e \<Rightarrow>
              if \<not> errors_is e ErrNotFound then Inl e
              else and_then (col_index (co_indexKey local_tasks) (col_get local_tasks ctx s)) (\<lambda>ix.
                   let r1 = r\<lparr>lr_taskID := if lr_taskID r = [] then lr_id r else lr_taskID r,
                             lr_status := if lr_status r = [] then ''queued'' else lr_status r,
                             lr_createdAt := if is_zero (lr_createdAt r) then now else lr_createdAt r,
                             lr_updatedAt := now\<rparr>;
                       r2 = r1\<lparr>lr_state := normalizeDownloadState (lr_status r1), lr_revision := 1\<rparr>
                   in and_then (col_set local_tasks ctx s (co_prefix local_tasks @ lr_id r2) (local_json r2)) (\<lambda>s1.
                      and_then (col_saveIndex (co_indexKey local_tasks) (col_set local_tasks ctx s1)
                                 (AList.update (lr_id r2) (lr_createdAt r2) ix)) (\<lambda>s2.
                      Inr (r2, s2)))))"

definition local_create :: "(blob \<Rightarrow> string) \<Rightarrow> ctx \<Rightarrow> ctx \<Rightarrow> instant \<Rightarrow> localDownloadRecord \<Rightarrow> (string \<times> string) option
    \<Rightarrow> kv \<Rightarrow> localDownloadRecord res \<times> kv" where
  "local_create version ctx ctx' now r source s =
     (if lr_id r = [] then (Inl (ErrMsg ''local task storage and id are required''), s)
      else case co_initErr local_tasks of
             Some e \<Rightarrow> (Inl e, s)
           | None \<Rightarrow> storage_update ctx (\<lambda>ctx. memory_update ctx ctx') (create_txn version ctx now r source) s)"

definition local_createLinked :: "(blob \<Rightarrow> string) \<Rightarrow> ctx \<Rightarrow> ctx \<Rightarrow> instant \<Rightarrow> string \<Rightarrow> string \<Rightarrow> localDownloadRecord
    \<Rightarrow> kv \<Rightarrow> localDownloadRecord res \<times> kv" where
  "local_createLinked version ctx ctx' now lid v r s =
     (if lid = [] \<or> lid \<noteq> lr_taskID r \<or> v = [] then (Inl (ErrMsg ''local source identity is required''), s)
      else local_create version ctx ctx' now r (Some (lid, v)) s)"

text \<open>
  \<open>Update\<close>: \<open>change\<close> returns the changed record, or \<open>None\<close> when it declines; a revision is a \<open>uint64\<close>.
\<close>

definition local_change :: "instant \<Rightarrow> string \<Rightarrow> (localDownloadRecord \<Rightarrow> localDownloadRecord option)
    \<Rightarrow> blob \<Rightarrow> instant \<Rightarrow> (blob option \<times> instant \<times> bool) res" where
  "local_change now tid change data stamp =
     and_then (decodeLocalRecord tid data) (\<lambda>r.
       case change r of
         None \<Rightarrow> Inr (Some data, stamp, False)
       | Some r1 \<Rightarrow>
           let st = normalizeDownloadState (lr_status r1)
           in if \<not> downloadTransition (lr_state r) st then Inl (ErrMsg ''invalid download state transition'')
              else Inr (Some (local_json (r1\<lparr>lr_state := st, lr_revision := (lr_revision r + 1) mod 2 ^ 64,
                                            lr_id := tid, lr_updatedAt := now\<rparr>)), stamp, True))"

definition local_update :: "ctx \<Rightarrow> ctx \<Rightarrow> instant \<Rightarrow> string \<Rightarrow> (localDownloadRecord \<Rightarrow> localDownloadRecord option)
    \<Rightarrow> kv \<Rightarrow> bool res \<times> kv" where
  "local_update ctx ctx' now tid change s =
     (case col_mutate local_tasks ctx ctx' tid (local_change now tid change) s of
        (Inl e, s') \<Rightarrow> (if errors_is e ErrNotFound then Inr False else Inl e, s')
      | (Inr b, s') \<Rightarrow> (Inr b, s'))"

section \<open>Links\<close>

fun snapshot_loop :: "(string \<Rightarrow> blob res) \<Rightarrow> string \<Rightarrow> index \<Rightarrow> (string \<times> blob) list res" where
  "snapshot_loop get pre [] = Inr []"
| "snapshot_loop get pre ((i, t) # ix) =
     (case get (pre @ i) of
        Inl e \<Rightarrow> if errors_is e ErrNotFound then snapshot_loop get pre ix else Inl e
      | Inr data \<Rightarrow> and_then (snapshot_loop get pre ix) (\<lambda>rs. Inr ((pre @ i, data) # rs)))"

definition link_snapshot_txn :: "ctx \<Rightarrow> (string \<times> blob) list txn" where
  "link_snapshot_txn ctx s =
     and_then (col_index linkIndex (\<lambda>k. kv_get ctx k s)) (\<lambda>li.
     and_then (snapshot_loop (\<lambda>k. kv_get ctx k s) linkPrefix li) (\<lambda>rs.
     and_then (col_index aria2Index (\<lambda>k. kv_get ctx k s)) (\<lambda>ai.
     and_then (snapshot_loop (\<lambda>k. kv_get ctx k s) aria2Prefix ai) (\<lambda>rs'.
     Inr (rs @ rs', s)))))"

text \<open>The loop of \<open>Remove\<close> over the associations: the entries kept, the store, and how many were removed.\<close>

fun unlink_loop :: "ctx \<Rightarrow> string \<Rightarrow> index \<Rightarrow> kv \<Rightarrow> (index \<times> nat \<times> kv) res" where
  "unlink_loop ctx lid [] s = Inr ([], 0, s)"
| "unlink_loop ctx lid ((gid, t) # ix) s =
     (case kv_get ctx (aria2Prefix @ gid) s of
        Inl e \<Rightarrow>
          if errors_is e ErrNotFound
          then and_then (unlink_loop ctx lid ix s) (\<lambda>(kept, n, s1). Inr ((gid, t) # kept, n, s1))
          else Inl e
      | Inr data \<Rightarrow>
          and_then (unmarshal_object data) (\<lambda>fs.
          and_then (field_string fs ''task_id'') (\<lambda>task.
          if task \<noteq> lid
          then and_then (unlink_loop ctx lid ix s) (\<lambda>(kept, n, s1). Inr ((gid, t) # kept, n, s1))
          else and_then (kv_delete ctx (aria2Prefix @ gid) s) (\<lambda>s1.
               and_then (unlink_loop ctx lid ix s1) (\<lambda>(kept, n, s2). Inr (kept, Suc n, s2))))))"

definition link_remove_txn :: "ctx \<Rightarrow> string \<Rightarrow> nat txn" where
  "link_remove_txn ctx lid s =
     and_then (col_index linkIndex (\<lambda>k. kv_get ctx k s)) (\<lambda>li.
     and_then (col_index aria2Index (\<lambda>k. kv_get ctx k s)) (\<lambda>ai.
     and_then (unlink_loop ctx lid ai s) (\<lambda>(kept, n, s1).
     and_then (case kv_get ctx (linkPrefix @ lid) s1 of
                 Inr _ \<Rightarrow> and_then (kv_delete ctx (linkPrefix @ lid) s1) (\<lambda>s2. Inr (Suc n, s2))
               | Inl e \<Rightarrow> if errors_is e ErrNotFound then Inr (n, s1) else Inl e) (\<lambda>(n1, s2).
     and_then (col_saveIndex linkIndex (\<lambda>k v. kv_set ctx k v s2) (AList.delete lid li)) (\<lambda>s3.
     and_then (col_saveIndex aria2Index (\<lambda>k v. kv_set ctx k v s3) kept) (\<lambda>s4.
     Inr (n1, s4)))))))"

definition link_remove :: "ctx \<Rightarrow> ctx \<Rightarrow> string \<Rightarrow> kv \<Rightarrow> nat res \<times> kv" where
  "link_remove ctx ctx' lid s =
     (if lid = [] \<or> lid = ''index'' \<or> CHR ''/'' \<in> set lid \<or> CHR 0x5C \<in> set lid
      then (Inl (ErrMsg ''invalid download link id''), s)
      else storage_update ctx (\<lambda>ctx. memory_update ctx ctx') (link_remove_txn ctx lid) s)"

definition linkActivity :: "blob \<Rightarrow> instant res" where
  "linkActivity data =
     and_then (unmarshal_object data) (\<lambda>fs.
     and_then (field_time fs ''last_active_at'') (\<lambda>t.
     if is_zero t then Inl (ErrMsg ''download link last_active_at is required'') else Inr t))"

section \<open>Expiry and maintenance\<close>

definition stamp_expired :: "instant \<Rightarrow> instant \<Rightarrow> duration \<Rightarrow> bool" where
  "stamp_expired stamp now ttl \<longleftrightarrow> 0 < ttl \<and> \<not> is_zero stamp \<and> \<not> now < stamp + ttl"

text \<open>The two loops of \<open>CleanupLinksAndAria2\<close>.\<close>

fun cleanup_links :: "ctx \<Rightarrow> instant \<Rightarrow> duration \<Rightarrow> index \<Rightarrow> kv \<Rightarrow> (index \<times> kv) res" where
  "cleanup_links ctx now ttl [] s = Inr ([], s)"
| "cleanup_links ctx now ttl ((i, t) # ix) s =
     and_then (case kv_get ctx (linkPrefix @ i) s of
                 Inl e \<Rightarrow> if errors_is e ErrNotFound then Inr True else Inl e
               | Inr data \<Rightarrow> and_then (linkActivity data) (\<lambda>stamp. Inr (stamp_expired stamp now ttl))) (\<lambda>gone.
     if gone then and_then (kv_delete ctx (linkPrefix @ i) s) (cleanup_links ctx now ttl ix)
     else and_then (cleanup_links ctx now ttl ix s) (\<lambda>(kept, s1). Inr ((i, t) # kept, s1)))"

definition aria2_gone :: "ctx \<Rightarrow> instant \<Rightarrow> duration \<Rightarrow> string \<Rightarrow> instant \<Rightarrow> kv \<Rightarrow> bool res" where
  "aria2_gone ctx now ttl i t s =
     (case kv_get ctx (aria2Prefix @ i) s of
        Inl e \<Rightarrow> if errors_is e ErrNotFound then Inr True else Inl e
      | Inr data \<Rightarrow>
          and_then (unmarshal_object data) (\<lambda>fs.
          and_then (field_string fs ''task_id'') (\<lambda>task.
          and_then (field_bool fs ''deleted'') (\<lambda>del.
          and_then (field_time fs ''control_until'') (\<lambda>until.
          if now < until then Inr False
          else if \<not> stamp_expired t now ttl \<and> task \<noteq> [] \<and> \<not> del
          then (case kv_get ctx (linkPrefix @ task) s of
                  Inl e \<Rightarrow> if errors_is e ErrNotFound then Inr True else Inl e
                | Inr _ \<Rightarrow> Inr False)
          else Inr (stamp_expired t now ttl))))))"

fun cleanup_aria2 :: "ctx \<Rightarrow> instant \<Rightarrow> duration \<Rightarrow> index \<Rightarrow> kv \<Rightarrow> (index \<times> kv) res" where
  "cleanup_aria2 ctx now ttl [] s = Inr ([], s)"
| "cleanup_aria2 ctx now ttl ((i, t) # ix) s =
     and_then (aria2_gone ctx now ttl i t s) (\<lambda>gone.
     if gone then and_then (kv_delete ctx (aria2Prefix @ i) s) (cleanup_aria2 ctx now ttl ix)
     else and_then (cleanup_aria2 ctx now ttl ix s) (\<lambda>(kept, s1). Inr ((i, t) # kept, s1)))"

definition cleanup_txn :: "ctx \<Rightarrow> instant \<Rightarrow> duration \<Rightarrow> unit txn" where
  "cleanup_txn ctx now ttl s =
     and_then (col_index linkIndex (\<lambda>k. kv_get ctx k s)) (\<lambda>li.
     and_then (col_index aria2Index (\<lambda>k. kv_get ctx k s)) (\<lambda>ai.
     and_then (cleanup_links ctx now ttl li s) (\<lambda>(lkept, s1).
     and_then (cleanup_aria2 ctx now ttl ai s1) (\<lambda>(akept, s2).
     and_then (col_saveIndex linkIndex (\<lambda>k v. kv_set ctx k v s2) lkept) (\<lambda>s3.
     and_then (col_saveIndex aria2Index (\<lambda>k v. kv_set ctx k v s3) akept) (\<lambda>s4.
     Inr ((), s4)))))))"

definition cleanupLinksAndAria2 :: "ctx \<Rightarrow> ctx \<Rightarrow> instant \<Rightarrow> duration \<Rightarrow> kv \<Rightarrow> unit res \<times> kv" where
  "cleanupLinksAndAria2 ctx ctx' now ttl s =
     storage_update ctx (\<lambda>ctx. memory_update ctx ctx') (cleanup_txn ctx now ttl) s"

text \<open>\<open>DeleteSnapshotKey\<close>: the index repair of its loop over the collections, then the deletion.\<close>

fun repair_index :: "ctx \<Rightarrow> collection list \<Rightarrow> string \<Rightarrow> kv \<Rightarrow> kv option res" where
  "repair_index ctx [] key s = Inr (Some s)"
| "repair_index ctx (c # cs) key s =
     (if key = co_indexKey c then Inr None
      else if has_prefix key (co_prefix c)
      then and_then (col_index (co_indexKey c) (\<lambda>k. kv_get ctx k s)) (\<lambda>ix.
           and_then (col_saveIndex (co_indexKey c) (\<lambda>k v. kv_set ctx k v s)
                      (AList.delete (trim_prefix key (co_prefix c)) ix)) (\<lambda>s1. Inr (Some s1)))
      else repair_index ctx cs key s)"

definition delete_snapshot_txn :: "ctx \<Rightarrow> string \<Rightarrow> blob \<Rightarrow> bool txn" where
  "delete_snapshot_txn ctx key expected s =
     (case kv_get ctx key s of
        Inl e \<Rightarrow> if errors_is e ErrNotFound then Inr (False, s) else Inl e
      | Inr current \<Rightarrow>
          if current \<noteq> expected then Inr (False, s)
          else and_then (repair_index ctx [links, aria2, local_tasks, forward_jobs] key s) (\<lambda>r.
               case r of
                 None \<Rightarrow> Inr (False, s)
               | Some s1 \<Rightarrow> and_then (kv_delete ctx key s1) (\<lambda>s2. Inr (True, s2))))"

definition deleteSnapshotKey :: "ctx \<Rightarrow> ctx \<Rightarrow> string \<Rightarrow> blob \<Rightarrow> kv \<Rightarrow> bool res \<times> kv" where
  "deleteSnapshotKey ctx ctx' key expected s =
     storage_update ctx (\<lambda>ctx. memory_update ctx ctx') (delete_snapshot_txn ctx key expected) s"

text \<open>The session, application and fingerprint keys of \<open>bsw/cdd/tgauth\<close>.\<close>

definition authKeys :: "string list" where
  "authKeys = [''session'', ''app'', ''account.credentials.fingerprint'']"

definition protectedCleanupKey :: "string \<Rightarrow> bool" where
  "protectedCleanupKey key \<longleftrightarrow> key \<in> set authKeys
     \<or> list_ex (has_prefix key) [''peers:'', ''state:'', ''chan:'', ''access_hash:'']"

definition deleteUnchanged :: "ctx \<Rightarrow> ctx \<Rightarrow> string \<Rightarrow> blob \<Rightarrow> kv \<Rightarrow> bool res \<times> kv" where
  "deleteUnchanged ctx ctx' key expected s =
     (if protectedCleanupKey key
      then (Inl (ErrMsg ''protected account data cannot be removed by maintenance''), s)
      else deleteSnapshotKey ctx ctx' key expected s)"

section \<open>Records survive encoding\<close>

definition local_fields_ok :: "localDownloadRecord \<Rightarrow> bool" where
  "local_fields_ok r \<longleftrightarrow> lr_revision r < 2 ^ 64 \<and> int64_ok (lr_total r) \<and> int64_ok (lr_completed r) \<and> int64_ok (lr_speed r)"

lemmas field_defs = field_string_def field_int64_def field_uint64_def field_time_def field_time_ptr_def field_bool_def

lemma int64_ok_0 [simp]: "int64_ok 0"
  by (simp add: int64_ok_def)

lemma local_json_decode:
  assumes "local_fields_ok r"
  shows "and_then (unmarshal_object (local_json r)) local_of_json = Inr r"
proof -
  have "unmarshal_object (local_json r) = Inr (
     [(''state'', JStr (lr_state r)), (''revision'', JNum (int (lr_revision r))), (''id'', JStr (lr_id r)),
      (''task_id'', JStr (lr_taskID r)), (''file_name'', JStr (lr_fileName r)), (''dir'', JStr (lr_dir r)),
      (''out'', JStr (lr_out r)), (''path'', JStr (lr_path r)), (''total'', JNum (lr_total r)),
      (''completed'', JNum (lr_completed r)), (''status'', JStr (lr_status r))]
     @ (if lr_error r = [] then [] else [(''error'', JStr (lr_error r))])
     @ (if lr_speed r = 0 then [] else [(''download_speed'', JNum (lr_speed r))])
     @ (case lr_startedAt r of None \<Rightarrow> [] | Some t \<Rightarrow> [(''started_at'', JTime t)])
     @ [(''created_at'', JTime (lr_createdAt r)), (''updated_at'', JTime (lr_updatedAt r))])"
    unfolding local_json_def unmarshal_object_def
    by (simp split: option.split)
  then show ?thesis
    using assms by (cases "lr_error r = []"; cases "lr_speed r = 0"; cases "lr_startedAt r")
      (simp_all add: local_of_json_def field_defs local_fields_ok_def nat_less_iff)
qed

text \<open>A record that \<open>decodeLocalRecord\<close> accepts.\<close>

definition local_valid :: "localDownloadRecord \<Rightarrow> bool" where
  "local_valid r \<longleftrightarrow> lr_taskID r \<noteq> [] \<and> lr_revision r \<noteq> 0 \<and> normalizeDownloadState (lr_status r) \<noteq> downloadUnknown
     \<and> lr_status r = lr_state r"

lemma decode_local_json:
  "local_fields_ok r \<Longrightarrow> decodeLocalRecord tid (local_json r)
     = (if lr_id r = tid \<and> local_valid r then Inr r else Inl (ErrMsg ''invalid local download record identity or state''))"
  by (auto simp: decodeLocalRecord_def local_json_decode local_valid_def)

lemma decodeLocalRecord_valid: "decodeLocalRecord tid data = Inr r \<Longrightarrow> lr_id r = tid \<and> local_valid r"
  by (auto simp: decodeLocalRecord_def local_valid_def split: sum.splits if_splits)

lemma normalize_cases:
  "normalizeDownloadState st \<in> {''queued'', ''active'', ''paused'', ''complete'', ''error'', ''removed'', downloadUnknown}"
  by (simp add: normalizeDownloadState_def)

lemma normalize_idem: "normalizeDownloadState (normalizeDownloadState st) = normalizeDownloadState st"
proof -
  have "\<forall>x \<in> {''queued'', ''active'', ''paused'', ''complete'', ''error'', ''removed'', downloadUnknown}. normalizeDownloadState x = x"
    by code_simp
  with normalize_cases [of st] show ?thesis by blast
qed

section \<open>Operations on a collection\<close>

text \<open>One operation of any client on a collection.\<close>

inductive col_step :: "collection \<Rightarrow> kv \<Rightarrow> kv \<Rightarrow> bool" for c where
  put: "col_put c ctx ctx' tid data t s = (r, s') \<Longrightarrow> col_step c s s'"
| remove: "col_remove c ctx ctx' tid s = (r, s') \<Longrightarrow> col_step c s s'"
| records: "col_records c ctx ctx' s = (rs, s') \<Longrightarrow> col_step c s s'"
| mutate: "co_prefix c @ tid \<noteq> co_indexKey c \<Longrightarrow> col_mutate c ctx ctx' tid (fn :: blob \<Rightarrow> instant \<Rightarrow> (blob option \<times> instant \<times> bool) res) s = (x, s')
    \<Longrightarrow> col_step c s s'"
| sweep: "col_sweep c ctx ctx' expired s = (r, s') \<Longrightarrow> col_step c s s'"

context hub_collection
begin

lemma index_listed:
  assumes "indexed c s" "index_is c s ix" "s (co_prefix c @ i) \<noteq> None" "co_prefix c @ i \<noteq> co_indexKey c"
  shows "i \<in> set (keys ix)"
  using assms unfolding indexed_def index_is_def by (metis Inr_inject)

lemma mutate_runs:
  assumes "index_is c s ix" "s (co_prefix c @ tid) = Some data" "fn data (stamp_of ix tid) = Inr (Some b, stamp, x)" "json_valid b"
  shows "\<exists>s'. col_mutate c None None tid fn s = (Inr x, s')"
  using assms unfolding index_is_def
  by (simp add: col_mutate_def run_None mutate_txn_def col_index_scoped kv_get_def mutate_next_def kv_set_def col_saveIndex_def)

lemma records_keeps_indexed:
  assumes "col_records c ctx ctx' s = (r, s')" "indexed c s"
  shows "indexed c s'"
proof (cases r)
  case (Inl e)
  with assms show ?thesis by (auto simp: col_records_def dest: run_fails)
next
  case (Inr x)
  with assms(1) have none: "ctx = None" "ctx' = None" by (auto simp: col_records_def dest: run_succeeds)
  from assms(2) obtain ix where ix: "index_is c s ix" by (auto simp: indexed_def)
  from records_eq [OF ix] assms(1) none obtain s1 where s1: "s' = s1"
    "index_is c s1 (filter (\<lambda>(i, t). s (co_prefix c @ i) \<noteq> None) ix)" "\<forall>k. k \<noteq> co_indexKey c \<longrightarrow> s1 k = s k" by auto
  have "i \<in> set (keys (filter (\<lambda>(i, t). s (co_prefix c @ i) \<noteq> None) ix))"
    if i: "s' (co_prefix c @ i) \<noteq> None" "co_prefix c @ i \<noteq> co_indexKey c" for i
  proof -
    have "s (co_prefix c @ i) \<noteq> None" using i s1 by auto
    moreover from this index_listed [OF assms(2) ix] i(2) have "i \<in> set (keys ix)" by blast
    ultimately show ?thesis by force
  qed
  with s1 show ?thesis unfolding indexed_def by blast
qed

lemma sweep_cases:
  assumes "col_sweep c ctx ctx' expired s = (Inr x, s')"
  obtains ix kept where "index_is c s ix"
    "kept = filter (\<lambda>(i, t). \<exists>d. s (co_prefix c @ i) = Some d \<and> expired d t = Inr False) ix"
    "s' = (if length kept < length ix
       then (\<lambda>k. if k \<in> (\<lambda>i. co_prefix c @ i) ` (set (keys ix) - set (keys kept)) then None else s k)(co_indexKey c \<mapsto> index_json kept)
       else s)"
proof -
  from run_succeeds [OF assms [unfolded col_sweep_def]] have sw: "sweep_txn c None expired s = Inr (x, s')" by auto
  then obtain ix kept s1 where ix: "index_is c s ix" and lp: "sweep_loop c None expired ix s = Inr (kept, s1)"
    and s': "s' = (if length kept < length ix then s1(co_indexKey c \<mapsto> index_json kept) else s1)"
    unfolding sweep_txn_def col_index_scoped index_is_def
    by (auto simp: and_then_Inr col_saveIndex_def kv_set_def split: if_splits)
  note sp = sweep_loop_spec [OF index_is_distinct [OF ix] lp]
  have "s1 = s" if "\<not> length kept < length ix"
  proof -
    have "kept = ix" using that sp by (metis (no_types, lifting) filter_id_conv length_filter_less not_less)
    with sp show ?thesis by simp
  qed
  with that [OF ix] sp s' show ?thesis by (auto split: if_splits)
qed

lemma sweep_keeps_indexed:
  assumes "col_sweep c ctx ctx' expired s = (r, s')" "indexed c s"
  shows "indexed c s'"
proof (cases r)
  case (Inl e)
  with assms show ?thesis by (auto simp: col_sweep_def dest: run_fails)
next
  case (Inr x)
  with assms(1) have "col_sweep c ctx ctx' expired s = (Inr x, s')" by simp
  then show ?thesis
  proof (cases rule: sweep_cases)
    case (1 ix kept)
    note dist = index_is_distinct [OF 1(1)]
    have dk: "distinct (keys kept)" unfolding 1(2) using dist by (induction ix) auto
    show ?thesis
    proof (cases "length kept < length ix")
      case True
      show ?thesis
      proof (rule indexed_saved [OF dk])
        show "s' (co_indexKey c) = Some (index_json kept)" using 1(3) True by simp
        fix i assume i: "s' (co_prefix c @ i) \<noteq> None" "co_prefix c @ i \<noteq> co_indexKey c"
        with 1(3) True have "s (co_prefix c @ i) \<noteq> None" "i \<notin> set (keys ix) - set (keys kept)"
          by (auto split: if_splits)
        with index_listed [OF assms(2) 1(1)] i(2) show "i \<in> set (keys kept)" by blast
      qed
    next
      case False
      with 1(3) assms(2) show ?thesis by simp
    qed
  qed
qed

lemma step_keeps_indexed: "col_step c s s' \<Longrightarrow> indexed c s \<Longrightarrow> indexed c s'"
  by (erule col_step.cases)
     (blast intro: put_keeps_indexed remove_keeps_indexed records_keeps_indexed mutate_keeps_indexed sweep_keeps_indexed)+

lemma indexed_empty: "indexed c Map.empty"
  by (simp add: indexed_def index_is_def col_index_def kv_get_def)

lemma reach_indexed: "reach (\<lambda>s. s = Map.empty) (col_step c) s \<Longrightarrow> indexed c s"
  by (induction rule: reach.induct) (auto simp: indexed_empty intro: step_keeps_indexed)

end

context hub_collection
begin

lemma step_confined:
  assumes "col_step c s s'" "\<not> in_scope (co_scopes c) k"
  shows "s' k = s k"
proof -
  have other: "k \<noteq> co_indexKey c" "k \<noteq> co_prefix c @ i" for i
    using assms(2) record_in_scope index_in_scope by auto
  from assms(1) show ?thesis
  proof cases
    case (put ctx ctx' tid data t r)
    show ?thesis
    proof (cases r)
      case (Inl e)
      with put show ?thesis by (auto simp: col_put_def opened split: if_splits dest: run_fails)
    next
      case (Inr x)
      with put have "put_txn c None tid data t s = Inr (x, s')"
        by (auto simp: col_put_def opened split: if_splits dest!: run_succeeds)
      with other show ?thesis
        by (auto simp: put_txn_def and_then_Inr col_saveIndex_def kv_set_def)
    qed
  next
    case (remove ctx ctx' tid r)
    show ?thesis
    proof (cases r)
      case (Inl e)
      with remove show ?thesis by (auto simp: col_remove_def dest: run_fails)
    next
      case (Inr x)
      with remove have "remove_txn c None tid s = Inr (x, s')" by (auto simp: col_remove_def dest!: run_succeeds)
      with other show ?thesis
        by (auto simp: remove_txn_def and_then_Inr col_saveIndex_def kv_set_def kv_delete_def)
    qed
  next
    case (records ctx ctx' r)
    show ?thesis
    proof (cases r)
      case (Inl e)
      with records show ?thesis by (auto simp: col_records_def dest: run_fails)
    next
      case (Inr x)
      with records have "records_txn c None s = Inr (x, s')" by (auto simp: col_records_def dest!: run_succeeds)
      with other show ?thesis
        by (auto simp: records_txn_def and_then_Inr col_saveIndex_def kv_set_def split: if_splits)
    qed
  next
    case (mutate tid ctx ctx' fn r)
    show ?thesis
    proof (cases r)
      case (Inl e)
      with mutate show ?thesis by (auto dest: mutate_fails)
    next
      case (Inr x)
      with mutate have "col_mutate c ctx ctx' tid fn s = (Inr x, s')" by simp
      then show ?thesis by (cases rule: mutate_cases) (use other in \<open>auto split: if_splits\<close>)
    qed
  next
    case (sweep ctx ctx' expired r)
    show ?thesis
    proof (cases r)
      case (Inl e)
      with sweep show ?thesis by (auto simp: col_sweep_def dest: run_fails)
    next
      case (Inr x)
      with sweep have "col_sweep c ctx ctx' expired s = (Inr x, s')" by simp
      then show ?thesis by (cases rule: sweep_cases) (use other in \<open>auto split: if_splits\<close>)
    qed
  qed
qed

end

text \<open>All clients of the hub together.\<close>

definition hub_collection_list :: "collection list" where
  "hub_collection_list = [links, aria2, local_tasks, forward_jobs]"

definition hub_step :: "kv \<Rightarrow> kv \<Rightarrow> bool" where
  "hub_step s s' \<longleftrightarrow> (\<exists>c \<in> set hub_collection_list. col_step c s s')"

lemma hub_collection_member: "c \<in> set hub_collection_list \<Longrightarrow> hub_collection c"
  using lk.hub_collection_axioms ar.hub_collection_axioms lo.hub_collection_axioms fw.hub_collection_axioms
  by (auto simp: hub_collection_list_def)

lemma hub_selectors:
  "co_scopes links = [hub_scope ''links'' ''watch.download.'']" "co_prefix links = ''watch.download.''"
  "co_indexKey links = ''watch.download.index''"
  "co_scopes aria2 = [hub_scope ''aria2'' ''watch.aria2.'']" "co_prefix aria2 = ''watch.aria2.task.''"
  "co_indexKey aria2 = ''watch.aria2.index''"
  "co_scopes local_tasks = [hub_scope ''local'' ''download.local.'']" "co_prefix local_tasks = ''download.local.task.''"
  "co_indexKey local_tasks = ''download.local.index''"
  "co_scopes forward_jobs = [hub_scope ''forward'' ''forward.'']" "co_prefix forward_jobs = ''forward.job.''"
  "co_indexKey forward_jobs = ''forward.index''"
  by (simp_all add: hub_collections new_collection_def hub_keys)

lemma in_hub_scope: "in_scope [hub_scope n p] k \<longleftrightarrow> p \<noteq> [] \<and> has_prefix k p"
  by (simp add: in_scope_def ds_contains_def hub_scope_def)

lemma hub_scopes_disjoint:
  assumes "c \<in> set hub_collection_list" "d \<in> set hub_collection_list" "c \<noteq> d"
  shows "\<not> in_scope (co_scopes d) (co_prefix c @ i) \<and> \<not> in_scope (co_scopes d) (co_indexKey c)"
proof -
  have "c = links \<or> c = aria2 \<or> c = local_tasks \<or> c = forward_jobs"
    "d = links \<or> d = aria2 \<or> d = local_tasks \<or> d = forward_jobs"
    using assms(1,2) by (simp_all add: hub_collection_list_def)
  with assms(3) show ?thesis
    by (elim disjE) (simp_all add: hub_selectors in_hub_scope)
qed

lemma hub_step_indexed:
  assumes "hub_step s s'" "c \<in> set hub_collection_list" "indexed c s"
  shows "indexed c s'"
proof -
  from assms(1) obtain d where d: "d \<in> set hub_collection_list" "col_step d s s'" by (auto simp: hub_step_def)
  show ?thesis
  proof (cases "d = c")
    case True
    with d assms(3) hub_collection.step_keeps_indexed hub_collection_member show ?thesis by blast
  next
    case False
    have same: "s' (co_indexKey c) = s (co_indexKey c)" "s' (co_prefix c @ i) = s (co_prefix c @ i)" for i
      using hub_collection.step_confined [OF hub_collection_member [OF d(1)] d(2)] hub_scopes_disjoint [OF assms(2) d(1)] False
      by auto
    then show ?thesis
      using hub_collection.indexed_keep [OF hub_collection_member [OF assms(2)] assms(3), of s'] by auto
  qed
qed

definition hub_inv :: "kv \<Rightarrow> bool" where
  "hub_inv s \<longleftrightarrow> (\<forall>c \<in> set hub_collection_list. indexed c s)"

interpretation hubi: invariant_proof "\<lambda>s. s = Map.empty" hub_step hub_inv
proof
  show "hub_inv s" if "s = Map.empty" for s
    using that hub_collection.indexed_empty [OF hub_collection_member] by (simp add: hub_inv_def)
  show "hub_inv t" if "hub_inv s" "hub_step s t" for s t
    using that hub_step_indexed by (auto simp: hub_inv_def)
qed

section \<open>Properties\<close>

text \<open>Task records never become orphans: after any sequence of \<open>Put\<close>, \<open>Remove\<close>, \<open>Records\<close>, \<open>Mutate\<close> and
  \<open>Sweep\<close> calls of all clients on the four collections of the task hub, whatever fails or is canceled in
  between, every record that is stored is returned by \<open>Records\<close> of its collection, with its content.\<close>

theorem stored_records_are_listed:
  assumes "reach (\<lambda>s. s = Map.empty) hub_step s" and "c \<in> set hub_collection_list"
    and "s (co_prefix c @ tid) = Some data" and "co_prefix c @ tid \<noteq> co_indexKey c"
  shows "\<exists>rs s'. col_records c None None s = (Inr rs, s') \<and> map_of rs tid = Some data"
proof -
  note col = hub_collection_member [OF assms(2)]
  have ind: "indexed c s" using hubi.reach_inv [OF assms(1)] assms(2) by (auto simp: hub_inv_def)
  then obtain ix where ix: "index_is c s ix" by (auto simp: indexed_def)
  from hub_collection.index_listed [OF col ind ix] assms(3,4) have "tid \<in> set (keys ix)" by auto
  then have "map_of (List.map_filter (\<lambda>(i, t). map_option (Pair i) (s (co_prefix c @ i))) ix) tid = Some data"
    using assms(3) by (induction ix) (auto simp: List.map_filter_simps split: option.splits)
  with hub_collection.records_eq [OF col ix] show ?thesis by auto
qed

lemma index_is_empty: "index_is c Map.empty []"
  by (simp add: index_is_def col_index_def kv_get_def)

theorem stored_records_are_listed_witness:
  "\<exists>s. reach (\<lambda>s. s = Map.empty) hub_step s \<and> (\<exists>rs s'. col_records local_tasks None None s = (Inr rs, s')
     \<and> map_of rs ''a'' = Some (Doc JNull))"
proof -
  let ?s = "snd (col_put local_tasks None None ''a'' (Doc JNull) 5 Map.empty)"
  have p: "col_put local_tasks None None ''a'' (Doc JNull) 5 Map.empty = (Inr (), ?s)"
    and a: "?s (co_prefix local_tasks @ ''a'') = Some (Doc JNull)"
    using lo.put_eq [OF _ _ index_is_empty, of "''a''" "Doc JNull" 5] by (simp_all add: json_valid_def hub_selectors)
  have r: "reach (\<lambda>s. s = Map.empty) hub_step ?s"
    by (rule reach_step [OF reach_init]) (auto simp: hub_step_def hub_collection_list_def intro: col_step.put [OF p])
  from stored_records_are_listed [OF r _ a] r show ?thesis by (auto simp: hub_selectors hub_collection_list_def)
qed

lemma update_succeeds:
  "storage_update ctx (\<lambda>ctx. memory_update ctx ctx') fn s = (Inr x, s') \<Longrightarrow> ctx = None \<and> ctx' = None \<and> fn s = Inr (x, s')"
  by (auto simp: storage_update_def memory_update_def split: option.splits sum.splits)

lemma update_fails: "storage_update ctx (\<lambda>ctx. memory_update ctx ctx') fn s = (Inl e, s') \<Longrightarrow> s' = s"
  by (auto simp: storage_update_def memory_update_def split: option.splits sum.splits)

lemma local_opened [simp]: "co_initErr local_tasks = None"
  by (rule lo.opened)

text \<open>The record \<open>create\<close> stores for a new task.\<close>

definition created_record :: "instant \<Rightarrow> localDownloadRecord \<Rightarrow> localDownloadRecord" where
  "created_record now r = (local_save_record now r)\<lparr>lr_revision := 1\<rparr>"

lemma create_cases:
  assumes "local_create version ctx ctx' now r source s = (Inr r1, s1)"
  obtains (old) data where "s (localPrefix @ lr_id r) = Some data" "decodeLocalRecord (lr_id r) data = Inr r1" "s1 = s"
  | (new) ix where "s (localPrefix @ lr_id r) = None" "r1 = created_record now r" "index_is local_tasks s ix"
      "s1 = s(localPrefix @ lr_id r \<mapsto> local_json r1, localIndex \<mapsto> index_json (AList.update (lr_id r) (lr_createdAt r1) ix))"
proof -
  have keys: "co_prefix local_tasks = localPrefix" "co_indexKey local_tasks = localIndex"
    by (simp_all add: hub_collections new_collection_def)
  from assms have "storage_update ctx (\<lambda>ctx. memory_update ctx ctx') (create_txn version ctx now r source) s = (Inr r1, s1)"
    by (auto simp: local_create_def split: if_splits)
  from update_succeeds [OF this] have cr: "create_txn version None now r source s = Inr (r1, s1)" by auto
  show ?thesis
  proof (cases "s (localPrefix @ lr_id r)")
    case (Some data)
    with cr have "decodeLocalRecord (lr_id r) data = Inr r1" "s1 = s"
      by (auto simp: create_txn_def and_then_Inr lo.scoped_record [unfolded keys] keys kv_get_def)
    with old Some show ?thesis by blast
  next
    case None
    with cr obtain ix where ix: "index_is local_tasks s ix"
      and "r1 = created_record now r"
      "s1 = s(localPrefix @ lr_id r \<mapsto> local_json r1, localIndex \<mapsto> index_json (AList.update (lr_id r) (lr_createdAt r1) ix))"
      by (auto simp: create_txn_def and_then_Inr lo.scoped_record [unfolded keys] lo.scoped_index [unfolded keys] keys kv_get_def
          kv_set_def col_saveIndex_def created_record_def local_save_record_def index_is_def lo.col_index_scoped [unfolded keys])
    with new None show ?thesis by blast
  qed
qed

text \<open>Submitting a local download twice is harmless: after a successful \<open>Create\<close>, every later \<open>Create\<close>
  or \<open>CreateLinked\<close> with the same id that succeeds returns the record of the first call, with its path,
  progress and state, and changes nothing in the store; without a source to check it does succeed.\<close>

theorem local_create_idempotent:
  assumes "local_create version ctx ctx' now r source s = (Inr r1, s1)" and "lr_id r' = lr_id r"
    and "lr_status r = [] \<or> normalizeDownloadState (lr_status r) = lr_status r \<and> lr_status r \<noteq> downloadUnknown"
    and "local_fields_ok r"
  shows "local_create version None None now' r' None s1 = (Inr r1, s1)
    \<and> (\<forall>r2 s2 source' c c'. local_create version c c' now' r' source' s1 = (Inr r2, s2) \<longrightarrow> r2 = r1 \<and> s2 = s1)"
proof -
  have keys: "co_prefix local_tasks = localPrefix" "co_indexKey local_tasks = localIndex" "localPrefix @ i \<noteq> localIndex" for i
    by (simp_all add: hub_collections new_collection_def hub_keys)
  have "lr_id r \<noteq> []" using assms(1) by (auto simp: local_create_def split: if_splits)
  obtain data where d: "s1 (localPrefix @ lr_id r) = Some data" "decodeLocalRecord (lr_id r) data = Inr r1"
    using assms(1)
  proof (cases rule: create_cases)
    case (old data)
    with that show ?thesis by auto
  next
    case (new ix)
    have "normalizeDownloadState ''queued'' = ''queued''" "''queued'' \<noteq> downloadUnknown" by code_simp+
    with assms(3) \<open>lr_id r \<noteq> []\<close> have "local_valid (created_record now r)"
      by (auto simp: local_valid_def created_record_def local_save_record_def)
    moreover have "local_fields_ok (created_record now r)" "lr_id (created_record now r) = lr_id r"
      using assms(4) by (simp_all add: local_fields_ok_def created_record_def local_save_record_def)
    ultimately have "decodeLocalRecord (lr_id r) (local_json (created_record now r)) = Inr (created_record now r)"
      by (simp add: decode_local_json)
    with new that keys(3) show ?thesis by auto
  qed
  have "local_create version None None now' r' None s1 = (Inr r1, s1)"
    using d assms(2) \<open>lr_id r \<noteq> []\<close>
    by (simp add: local_create_def storage_update_def memory_update_def create_txn_def lo.scoped_record [unfolded keys(1,2)] keys kv_get_def)
  moreover have "r2 = r1 \<and> s2 = s1" if "local_create version c c' now' r' source' s1 = (Inr r2, s2)" for r2 s2 source' c c'
    using that by (cases rule: create_cases) (use d assms(2) in auto)
  ultimately show ?thesis by blast
qed

definition sample_local :: localDownloadRecord where
  "sample_local = \<lparr>lr_state = [], lr_revision = 0, lr_id = ''a'', lr_taskID = [], lr_fileName = ''f'', lr_dir = [], lr_out = [],
     lr_path = ''/d/f'', lr_total = 10, lr_completed = 0, lr_status = [], lr_error = [], lr_speed = 0, lr_startedAt = None,
     lr_createdAt = 7, lr_updatedAt = 0\<rparr>"

lemma sample_local_created:
  "\<exists>s1. local_create version None None 9 sample_local None Map.empty = (Inr (created_record 9 sample_local), s1)"
  by (simp add: local_create_def storage_update_def memory_update_def create_txn_def kv_get_def kv_set_def col_index_def
      col_saveIndex_def hub_selectors scoped_get_def scoped_set_def scope_check_def in_hub_scope created_record_def
      local_save_record_def sample_local_def)

theorem local_create_idempotent_witness:
  "\<exists>s1. local_create (\<lambda>_. []) None None 11 (sample_local\<lparr>lr_path := ''/other''\<rparr>) None s1 = (Inr (created_record 9 sample_local), s1)"
proof -
  obtain s1 where c: "local_create (\<lambda>_. []) None None 9 sample_local None Map.empty = (Inr (created_record 9 sample_local), s1)"
    using sample_local_created by blast
  from local_create_idempotent [OF c, of "sample_local\<lparr>lr_path := ''/other''\<rparr>" 11]
  show ?thesis by (auto simp: sample_local_def local_fields_ok_def int64_ok_def)
qed

text \<open>\<open>LocalRepository.Update\<close> moves a record only along the download state machine: when it reports a change,
  the stored record was valid, the new one has the same id, the next revision and a state reachable from
  the old one (from \<open>removed\<close> only itself, from \<open>complete\<close> only itself or \<open>removed\<close>), and no other key but
  the index changed; otherwise no record changed.\<close>

theorem local_update_follows_state_machine:
  assumes "local_update ctx ctx' now tid change s = (res, s')"
  shows "if res = Inr True
    then \<exists>r data new. s (localPrefix @ tid) = Some data \<and> decodeLocalRecord tid data = Inr r
      \<and> s' (localPrefix @ tid) = Some (local_json new) \<and> lr_id new = tid
      \<and> lr_revision new = (lr_revision r + 1) mod 2 ^ 64
      \<and> downloadTransition (lr_state r) (lr_state new)
      \<and> (lr_state r = ''removed'' \<longrightarrow> lr_state new = ''removed'')
      \<and> (lr_state r = ''complete'' \<longrightarrow> lr_state new \<in> {''complete'', ''removed''})
      \<and> (\<forall>k. k \<noteq> localPrefix @ tid \<and> k \<noteq> localIndex \<longrightarrow> s' k = s k)
    else \<forall>k. k \<noteq> localIndex \<longrightarrow> s' k = s k"
proof -
  have keys: "co_prefix local_tasks = localPrefix" "co_indexKey local_tasks = localIndex" "localPrefix @ i \<noteq> localIndex" for i
    by (simp_all add: hub_collections new_collection_def hub_keys)
  obtain x where m: "col_mutate local_tasks ctx ctx' tid (local_change now tid change) s = (x, s')"
    and res: "res = (case x of Inl e \<Rightarrow> if errors_is e ErrNotFound then Inr False else Inl e | Inr b \<Rightarrow> Inr b)"
    using assms by (auto simp: local_update_def split: prod.splits sum.splits)
  show ?thesis
  proof (cases x)
    case (Inl e)
    with m have "s' = s" by (auto dest: lo.mutate_fails)
    with res Inl show ?thesis by auto
  next
    case (Inr b)
    with m have "col_mutate local_tasks ctx ctx' tid (local_change now tid change) s = (Inr b, s')" by simp
    then show ?thesis
    proof (cases rule: lo.mutate_cases)
      case (1 ix data n stamp)
      from 1(5) obtain r where r: "decodeLocalRecord tid data = Inr r"
        and ch: "(case change r of None \<Rightarrow> Inr (Some data, stamp_of ix tid, False)
          | Some r1 \<Rightarrow> let st = normalizeDownloadState (lr_status r1) in
              if \<not> downloadTransition (lr_state r) st then Inl (ErrMsg ''invalid download state transition'')
              else Inr (Some (local_json (r1\<lparr>lr_state := st, lr_revision := (lr_revision r + 1) mod 2 ^ 64,
                       lr_id := tid, lr_updatedAt := now\<rparr>)), stamp_of ix tid, True)) = Inr (n, stamp, b)"
        by (auto simp: local_change_def and_then_Inr)
      show ?thesis
      proof (cases "change r")
        case None
        with ch 1(4,6) res Inr show ?thesis by (auto simp: keys split: if_splits)
      next
        case (Some r1)
        let ?new = "r1\<lparr>lr_state := normalizeDownloadState (lr_status r1), lr_revision := (lr_revision r + 1) mod 2 ^ 64,
                       lr_id := tid, lr_updatedAt := now\<rparr>"
        have tr: "downloadTransition (lr_state r) (lr_state ?new)" and n: "n = Some (local_json ?new)" "b = True"
          using ch Some by (auto split: if_splits)
        have s': "s' (localPrefix @ tid) = Some (local_json ?new)" "\<forall>k. k \<noteq> localPrefix @ tid \<and> k \<noteq> localIndex \<longrightarrow> s' k = s k"
          using 1(6) n(1) by (auto simp: keys split: if_splits)
        have "lr_state r = ''removed'' \<longrightarrow> lr_state ?new = ''removed''"
          "lr_state r = ''complete'' \<longrightarrow> lr_state ?new \<in> {''complete'', ''removed''}"
          using tr by (auto simp: downloadTransition_def split: if_splits)
        with tr n(2) s' r 1(4) res Inr keys(1) show ?thesis by (auto intro!: exI [of _ ?new])
      qed
    qed
  qed
qed

definition sample_store :: kv where
  "sample_store = snd (local_create (\<lambda>_. []) None None 9 sample_local None Map.empty)"

theorem local_update_follows_state_machine_witness:
  "\<exists>new. snd (local_update None None 12 ''a'' (\<lambda>r. Some (r\<lparr>lr_status := ''active''\<rparr>)) sample_store) (localPrefix @ ''a'')
     = Some (local_json new) \<and> lr_id new = ''a''"
proof -
  let ?r = "created_record 9 sample_local"
  have q: "normalizeDownloadState ''queued'' = ''queued''" "normalizeDownloadState ''active'' = ''active''"
    "downloadTransition ''queued'' ''active''" "''queued'' \<noteq> downloadUnknown" by code_simp+
  have r: "local_valid ?r" "local_fields_ok ?r" "lr_id ?r = ''a''" "lr_state ?r = ''queued''"
    using q by (simp_all add: created_record_def local_save_record_def sample_local_def local_valid_def local_fields_ok_def int64_ok_def)
  have s: "sample_store = [localPrefix @ ''a'' \<mapsto> local_json ?r, localIndex \<mapsto> index_json [(''a'', 7)]]"
    unfolding sample_store_def
    by (simp add: local_create_def storage_update_def memory_update_def create_txn_def kv_get_def kv_set_def col_index_def
      col_saveIndex_def hub_selectors scoped_get_def scoped_set_def scope_check_def in_hub_scope created_record_def
      local_save_record_def sample_local_def hub_keys)
  have ix: "index_is local_tasks sample_store [(''a'', 7)]"
    using lo.index_is_saved [of "[(''a'', 7)]"] unfolding s by (simp add: hub_selectors hub_keys)
  have "fst (local_update None None 12 ''a'' (\<lambda>r. Some (r\<lparr>lr_status := ''active''\<rparr>)) sample_store) = Inr True"
  proof -
    have "sample_store (co_prefix local_tasks @ ''a'') = Some (local_json ?r)" by (simp add: s hub_selectors hub_keys)
    from lo.mutate_runs [OF ix this, where fn = "local_change 12 ''a'' (\<lambda>r. Some (r\<lparr>lr_status := ''active''\<rparr>))"]
    obtain s' where "col_mutate local_tasks None None ''a'' (local_change 12 ''a'' (\<lambda>r. Some (r\<lparr>lr_status := ''active''\<rparr>))) sample_store
        = (Inr True, s')"
      using r q decode_local_json [OF r(2), of "''a''"] by (auto simp: local_change_def json_valid_def local_json_def)
    then show ?thesis by (simp add: local_update_def)
  qed
  then show ?thesis
    using local_update_follows_state_machine [of None None 12 "''a''" "\<lambda>r. Some (r\<lparr>lr_status := ''active''\<rparr>)" sample_store "Inr True"]
    by (auto simp: prod_eq_iff)
qed

section \<open>Removing, expiring and maintaining\<close>

lemma unlink_loop_spec:
  assumes "distinct (keys ix)" "unlink_loop None lid ix s = Inr (kept, n, s1)"
  shows "n + length kept = length ix \<and> set kept \<subseteq> set ix
    \<and> s1 = (\<lambda>k. if k \<in> (\<lambda>g. aria2Prefix @ g) ` (set (keys ix) - set (keys kept)) then None else s k)
    \<and> (\<forall>g \<in> set (keys ix). g \<in> set (keys kept) \<longleftrightarrow> (\<forall>data fs. s (aria2Prefix @ g) = Some data \<longrightarrow>
         unmarshal_object data = Inr fs \<longrightarrow> field_string fs ''task_id'' \<noteq> Inr lid))"
  using assms
proof (induction ix arbitrary: s kept n)
  case Nil
  then show ?case by simp
next
  case (Cons x ix)
  obtain g t where x: "x = (g, t)" by fastforce
  have g: "g \<notin> set (keys ix)" "distinct (keys ix)" using Cons.prems(1) x by auto
  define assoc where "assoc \<longleftrightarrow> (\<exists>data fs. s (aria2Prefix @ g) = Some data \<and> unmarshal_object data = Inr fs
     \<and> field_string fs ''task_id'' = Inr lid)"
  show ?case
  proof (cases assoc)
    case False
    with Cons.prems(2) x obtain kept' where k: "unlink_loop None lid ix s = Inr (kept', n, s1)" "kept = (g, t) # kept'"
      by (auto simp: assoc_def kv_get_def and_then_Inr split: option.splits if_splits)
    note IH = Cons.IH [OF g(2) k(1)]
    from IH have "set (keys kept') \<subseteq> set (keys ix)" by auto
    with IH k(2) False g(1) x show ?thesis by (auto simp: assoc_def)
  next
    case True
    let ?s = "s(aria2Prefix @ g := None)"
    from Cons.prems(2) x True obtain n' where k: "unlink_loop None lid ix ?s = Inr (kept, n', s1)" "n = Suc n'"
      by (auto simp: assoc_def kv_get_def kv_delete_def and_then_Inr split: if_splits)
    note IH = Cons.IH [OF g(2) k(1)]
    have same: "?s (aria2Prefix @ h) = s (aria2Prefix @ h)" if "h \<in> set (keys ix)" for h using that g(1) by auto
    from IH have "g \<notin> set (keys kept)" using g(1) by auto
    with IH same True k(2) x show ?thesis by (auto simp: assoc_def fun_eq_iff)
  qed
qed

lemma link_keys [simp]:
  "linkPrefix @ i \<noteq> aria2Prefix @ g" "aria2Prefix @ g \<noteq> linkPrefix @ i" "aria2Prefix @ g \<noteq> linkIndex" "aria2Prefix @ g \<noteq> aria2Index"
  "linkPrefix @ i \<noteq> aria2Index" "linkIndex \<noteq> aria2Index" "aria2Index \<noteq> linkIndex"
  "linkIndex \<noteq> aria2Prefix @ g" "aria2Index \<noteq> aria2Prefix @ g" "aria2Index \<noteq> linkPrefix @ i"
  "linkPrefix @ i = linkIndex \<longleftrightarrow> i = ''index''" "linkIndex = linkPrefix @ i \<longleftrightarrow> i = ''index''"
  by (auto simp: hub_keys)

lemma raw_index: "col_index linkIndex (\<lambda>k. kv_get None k s) = Inr ix \<longleftrightarrow> index_is links s ix"
  "col_index aria2Index (\<lambda>k. kv_get None k s) = Inr ix \<longleftrightarrow> index_is aria2 s ix"
  by (simp_all add: index_is_def hub_selectors hub_keys)

text \<open>\<open>LinkRepository.Remove\<close> removes a link with everything that belongs to it: on success the link record is
  gone and no longer indexed, no indexed aria2 association of the link is left, and apart from the two
  indexes nothing else changed; on an error nothing changed.\<close>

theorem link_remove_is_complete:
  assumes "link_remove ctx ctx' lid s = (res, s')" and "index_is aria2 s ai"
  shows "case res of
      Inl e \<Rightarrow> s' = s
    | Inr n \<Rightarrow> s' (linkPrefix @ lid) = None \<and> (\<exists>li. index_is links s' li \<and> lid \<notin> set (keys li))
        \<and> (\<forall>gid \<in> set (keys ai). \<forall>data fs. s' (aria2Prefix @ gid) = Some data \<longrightarrow>
             unmarshal_object data = Inr fs \<longrightarrow> field_string fs ''task_id'' \<noteq> Inr lid)
        \<and> (\<forall>k. k \<noteq> linkPrefix @ lid \<and> k \<noteq> linkIndex \<and> k \<noteq> aria2Index \<and> s' k \<noteq> s k \<longrightarrow>
             s' k = None \<and> (\<exists>gid data fs. k = aria2Prefix @ gid \<and> s k = Some data
               \<and> unmarshal_object data = Inr fs \<and> field_string fs ''task_id'' = Inr lid))"
proof (cases res)
  case (Inl e)
  with assms(1) show ?thesis by (auto simp: link_remove_def split: if_splits dest: update_fails)
next
  case (Inr n)
  with assms(1) have lid: "lid \<noteq> ''index''"
    and t: "storage_update ctx (\<lambda>ctx. memory_update ctx ctx') (link_remove_txn ctx lid) s = (Inr n, s')"
    by (auto simp: link_remove_def split: if_splits)
  from update_succeeds [OF t] assms(2) obtain li kept n1 s1 s2 where li: "index_is links s li"
    and un: "unlink_loop None lid ai s = Inr (kept, n1, s1)"
    and s2: "s2 = s1(linkPrefix @ lid := None)"
    and s': "s' = s2(linkIndex \<mapsto> index_json (AList.delete lid li), aria2Index \<mapsto> index_json kept)"
    unfolding link_remove_txn_def raw_index [symmetric]
    by (auto simp: and_then_Inr kv_get_def kv_delete_def kv_set_def col_saveIndex_def fun_upd_idem
             split: option.splits)
  note sp = unlink_loop_spec [OF ar.index_is_distinct [OF assms(2)] un]
  have dist: "distinct (keys (AList.delete lid li))" using lk.index_is_distinct [OF li] by simp
  have "index_is links s' (AList.delete lid li)"
  proof -
    have "index_is links (s'(linkIndex \<mapsto> index_json (AList.delete lid li))) (AList.delete lid li)"
      using lk.index_is_saved [OF dist, of s'] by (simp add: hub_selectors hub_keys)
    moreover have "s'(linkIndex \<mapsto> index_json (AList.delete lid li)) = s'" using s' by (simp add: fun_upd_idem)
    ultimately show ?thesis by simp
  qed
  moreover have "s' (linkPrefix @ lid) = None" using s' s2 lid by simp
  moreover have "field_string fs ''task_id'' \<noteq> Inr lid"
    if g: "gid \<in> set (keys ai)" "s' (aria2Prefix @ gid) = Some data" "unmarshal_object data = Inr fs" for gid data fs
  proof -
    have "s1 (aria2Prefix @ gid) = Some data" using g(2) s' s2 by simp
    with sp g(1) have "gid \<in> set (keys kept)" "s (aria2Prefix @ gid) = Some data" by (auto split: if_splits)
    with sp g show ?thesis by blast
  qed
  moreover have "s' k = None \<and> (\<exists>gid data fs. k = aria2Prefix @ gid \<and> s k = Some data
      \<and> unmarshal_object data = Inr fs \<and> field_string fs ''task_id'' = Inr lid)"
    if k: "k \<noteq> linkPrefix @ lid" "k \<noteq> linkIndex" "k \<noteq> aria2Index" "s' k \<noteq> s k" for k
  proof -
    have k1: "s' k = s1 k" "s1 k \<noteq> s k" using k s' s2 by auto
    with sp obtain gid where gid: "k = aria2Prefix @ gid" "gid \<in> set (keys ai)" "gid \<notin> set (keys kept)" "s1 k = None"
      by (auto split: if_splits)
    from sp gid(2,3) obtain data fs where "s (aria2Prefix @ gid) = Some data" "unmarshal_object data = Inr fs"
      "field_string fs ''task_id'' = Inr lid" by blast
    with gid k1(1) show ?thesis by auto
  qed
  moreover have "lid \<notin> set (keys (AList.delete lid li))" by (simp add: alist_simps)
  ultimately show ?thesis unfolding Inr sum.case by (intro conjI exI [of _ "AList.delete lid li"] ballI allI impI) blast+
qed

theorem link_remove_is_complete_witness:
  "snd (link_remove None None ''x'' [linkPrefix @ ''x'' \<mapsto> Doc (JObj [])]) (linkPrefix @ ''x'') = None"
proof -
  let ?s = "[linkPrefix @ ''x'' \<mapsto> Doc (JObj [])] :: kv"
  have ai: "index_is aria2 ?s []" by (simp add: index_is_def col_index_def kv_get_def hub_selectors linkPrefix_def)
  have "\<exists>n. fst (link_remove None None ''x'' ?s) = Inr n"
    by (simp add: link_remove_def storage_update_def memory_update_def link_remove_txn_def kv_get_def kv_set_def kv_delete_def
        col_index_def col_saveIndex_def)
  then obtain n s' where r: "link_remove None None ''x'' ?s = (Inr n, s')" by (metis prod.collapse)
  from link_remove_is_complete [OF r ai] show ?thesis by (simp add: r)
qed

lemma cleanup_links_spec:
  assumes "distinct (keys ix)" "cleanup_links None now ttl ix s = Inr (kept, s1)"
  shows "set kept \<subseteq> set ix
    \<and> s1 = (\<lambda>k. if k \<in> (\<lambda>i. linkPrefix @ i) ` (set (keys ix) - set (keys kept)) then None else s k)
    \<and> (\<forall>i \<in> set (keys ix). i \<in> set (keys kept) \<longleftrightarrow>
         (\<exists>data t. s (linkPrefix @ i) = Some data \<and> linkActivity data = Inr t \<and> \<not> stamp_expired t now ttl))"
  using assms
proof (induction ix arbitrary: s kept)
  case Nil
  then show ?case by simp
next
  case (Cons x ix)
  obtain i t0 where x: "x = (i, t0)" by fastforce
  have i: "i \<notin> set (keys ix)" "distinct (keys ix)" using Cons.prems(1) x by auto
  define alive_link where "alive_link \<longleftrightarrow> (\<exists>data t. s (linkPrefix @ i) = Some data \<and> linkActivity data = Inr t \<and> \<not> stamp_expired t now ttl)"
  show ?case
  proof (cases alive_link)
    case True
    with Cons.prems(2) x obtain kept' where k: "cleanup_links None now ttl ix s = Inr (kept', s1)" "kept = (i, t0) # kept'"
      by (auto simp: alive_link_def kv_get_def and_then_Inr)
    note IH = Cons.IH [OF i(2) k(1)]
    from IH have "set (keys kept') \<subseteq> set (keys ix)" by auto
    with IH k(2) True i(1) x show ?thesis by (auto simp: alive_link_def)
  next
    case False
    let ?s = "s(linkPrefix @ i := None)"
    from Cons.prems(2) x False have k: "cleanup_links None now ttl ix ?s = Inr (kept, s1)"
      by (auto simp: alive_link_def kv_get_def kv_delete_def and_then_Inr split: option.splits if_splits)
    note IH = Cons.IH [OF i(2) k]
    have same: "?s (linkPrefix @ h) = s (linkPrefix @ h)" if "h \<in> set (keys ix)" for h using that i(1) by auto
    from IH have "i \<notin> set (keys kept)" using i(1) by auto
    with IH same False x show ?thesis by (auto simp: alive_link_def fun_eq_iff)
  qed
qed

lemma aria2_gone_frame:
  "i \<noteq> g \<Longrightarrow> aria2_gone None now ttl i t (s(aria2Prefix @ g := None)) = aria2_gone None now ttl i t s"
proof -
  assume "i \<noteq> g"
  then have "kv_get None (aria2Prefix @ i) (s(aria2Prefix @ g := None)) = kv_get None (aria2Prefix @ i) s"
    "kv_get None (linkPrefix @ task) (s(aria2Prefix @ g := None)) = kv_get None (linkPrefix @ task) s" for task
    by (simp_all add: kv_get_def)
  then show ?thesis by (simp only: aria2_gone_def)
qed

lemma cleanup_aria2_spec:
  assumes "distinct (keys ix)" "cleanup_aria2 None now ttl ix s = Inr (kept, s1)"
  shows "set kept \<subseteq> set ix
    \<and> s1 = (\<lambda>k. if k \<in> (\<lambda>i. aria2Prefix @ i) ` (set (keys ix) - set (keys kept)) then None else s k)
    \<and> (\<forall>i t. (i, t) \<in> set ix \<longrightarrow> aria2_gone None now ttl i t s = Inr (i \<notin> set (keys kept)))"
  using assms
proof (induction ix arbitrary: s kept)
  case Nil
  then show ?case by simp
next
  case (Cons x ix)
  obtain i t where x: "x = (i, t)" by fastforce
  have i: "i \<notin> set (keys ix)" "distinct (keys ix)" using Cons.prems(1) x by auto
  from Cons.prems(2) x obtain gone where gone: "aria2_gone None now ttl i t s = Inr gone" by (auto simp: and_then_Inr)
  show ?case
  proof (cases gone)
    case False
    with Cons.prems(2) x gone obtain kept' where k: "cleanup_aria2 None now ttl ix s = Inr (kept', s1)" "kept = (i, t) # kept'"
      by (auto simp: and_then_Inr)
    note IH = Cons.IH [OF i(2) k(1)]
    have "set (keys kept') \<subseteq> set (keys ix)" using IH by auto
    moreover have "j \<noteq> i" if "(j, u) \<in> set ix" for j u using that i(1) by force
    ultimately show ?thesis using IH k(2) False gone i(1) x by auto
  next
    case True
    let ?s = "s(aria2Prefix @ i := None)"
    from Cons.prems(2) x gone True have k: "cleanup_aria2 None now ttl ix ?s = Inr (kept, s1)"
      by (auto simp: kv_delete_def)
    note IH = Cons.IH [OF i(2) k]
    have ne: "j \<noteq> i" if "(j, u) \<in> set ix" for j u using that i(1) by force
    have "i \<notin> set (keys kept)" using IH i(1) by auto
    moreover have "aria2_gone None now ttl j u s = Inr (j \<notin> set (keys kept))" if "(j, u) \<in> set ix" for j u
      using IH that aria2_gone_frame [OF ne [OF that], of now ttl u s] by metis
    moreover have "s1 = (\<lambda>k. if k \<in> (\<lambda>i. aria2Prefix @ i) ` (set (keys (x # ix)) - set (keys kept)) then None else s k)"
      using IH x calculation(1) by (auto simp: fun_eq_iff)
    moreover have "set kept \<subseteq> set (x # ix)" using IH by auto
    ultimately show ?thesis using True gone x by auto
  qed
qed

text \<open>The expiry of links and aria2 associations removes exactly what is due: on success an indexed link is
  kept, unchanged, if and only if its activity clock has not expired; an association under an unexpired
  control lease is kept; an association that is kept, names a link, is no tombstone and is under no lease
  has its link; and no key outside the two collections changed. On an error nothing changed.\<close>

theorem cleanup_removes_exactly_expired:
  assumes "cleanupLinksAndAria2 ctx ctx' now ttl s = (res, s')" and "index_is links s li" and "index_is aria2 s ai"
    and "''index'' \<notin> set (keys li)"
  shows "case res of
      Inl e \<Rightarrow> s' = s
    | Inr _ \<Rightarrow>
        (\<forall>i \<in> set (keys li). s' (linkPrefix @ i) =
           (if \<exists>data t. s (linkPrefix @ i) = Some data \<and> linkActivity data = Inr t \<and> \<not> stamp_expired t now ttl
            then s (linkPrefix @ i) else None))
        \<and> (\<forall>g \<in> set (keys ai). \<forall>data fs. s (aria2Prefix @ g) = Some data \<longrightarrow> unmarshal_object data = Inr fs \<longrightarrow>
             (\<forall>until. field_time fs ''control_until'' = Inr until \<longrightarrow> now < until \<longrightarrow> s' (aria2Prefix @ g) = Some data)
             \<and> (\<forall>until task. field_time fs ''control_until'' = Inr until \<longrightarrow> until \<le> now \<longrightarrow>
                  field_string fs ''task_id'' = Inr task \<longrightarrow> task \<noteq> [] \<longrightarrow> field_bool fs ''deleted'' = Inr False \<longrightarrow>
                  s' (aria2Prefix @ g) \<noteq> None \<longrightarrow> s' (linkPrefix @ task) \<noteq> None \<or> task = ''index''))
        \<and> (\<forall>k. \<not> has_prefix k linkPrefix \<and> \<not> has_prefix k aria2Prefix \<and> k \<noteq> aria2Index \<longrightarrow> s' k = s k)"
proof (cases res)
  case (Inl e)
  with assms(1) show ?thesis by (auto simp: cleanupLinksAndAria2_def dest: update_fails)
next
  case (Inr u)
  from update_succeeds [OF assms(1) [unfolded cleanupLinksAndAria2_def Inr]] assms(2,3)
  obtain lkept s1 akept s2 where l: "cleanup_links None now ttl li s = Inr (lkept, s1)"
    and a: "cleanup_aria2 None now ttl ai s1 = Inr (akept, s2)"
    and s': "s' = s2(linkIndex \<mapsto> index_json lkept, aria2Index \<mapsto> index_json akept)"
    unfolding cleanup_txn_def raw_index [symmetric]
    by (auto simp: and_then_Inr kv_set_def col_saveIndex_def)
  note ls = cleanup_links_spec [OF lk.index_is_distinct [OF assms(2)] l]
  note as = cleanup_aria2_spec [OF ar.index_is_distinct [OF assms(3)] a]
  have link: "s' (linkPrefix @ i) = s1 (linkPrefix @ i)" if "i \<noteq> ''index''" for i using as s' that by auto
  have assoc: "s' (aria2Prefix @ g) = s2 (aria2Prefix @ g)" "s1 (aria2Prefix @ g) = s (aria2Prefix @ g)" for g
    using ls s' by auto
  have "s' (linkPrefix @ i) = (if \<exists>data t. s (linkPrefix @ i) = Some data \<and> linkActivity data = Inr t \<and> \<not> stamp_expired t now ttl
            then s (linkPrefix @ i) else None)" if "i \<in> set (keys li)" for i
  proof -
    have "i \<noteq> ''index''" using that assms(4) by metis
    then have eq: "s' (linkPrefix @ i) = s1 (linkPrefix @ i)" by (rule link)
    from ls have s1: "s1 (linkPrefix @ i) = (if i \<in> set (keys lkept) then s (linkPrefix @ i) else None)"
      using that by auto
    from ls that have iff: "i \<in> set (keys lkept) \<longleftrightarrow>
         (\<exists>data t. s (linkPrefix @ i) = Some data \<and> linkActivity data = Inr t \<and> \<not> stamp_expired t now ttl)" by blast
    show ?thesis unfolding eq s1 iff ..
  qed
  moreover have "s' (aria2Prefix @ g) = Some data"
    if g: "g \<in> set (keys ai)" "s (aria2Prefix @ g) = Some data" "unmarshal_object data = Inr fs"
      "field_time fs ''control_until'' = Inr until" "now < until" for g data fs until
  proof -
    from g(1) obtain t where t: "(g, t) \<in> set ai" by auto
    have "aria2_gone None now ttl g t s1 \<noteq> Inr True" using g assoc by (auto simp: aria2_gone_def kv_get_def and_then_Inr)
    moreover have "aria2_gone None now ttl g t s1 = Inr (g \<notin> set (keys akept))" using as t by simp
    ultimately have "g \<in> set (keys akept)" by auto
    with as assoc g(2) show ?thesis by auto
  qed
  moreover have "s' (linkPrefix @ task) \<noteq> None \<or> task = ''index''"
    if g: "g \<in> set (keys ai)" "s (aria2Prefix @ g) = Some data" "unmarshal_object data = Inr fs"
      "field_time fs ''control_until'' = Inr until" "until \<le> now" "field_string fs ''task_id'' = Inr task" "task \<noteq> []"
      "field_bool fs ''deleted'' = Inr False" "s' (aria2Prefix @ g) \<noteq> None" for g data fs until task
  proof -
    from g(1) obtain t where t: "(g, t) \<in> set ai" by auto
    have "g \<in> set (keys akept)" using g(1,9) as assoc by (auto split: if_splits)
    with as t have "aria2_gone None now ttl g t s1 = Inr False" by simp
    with g assoc have "s1 (linkPrefix @ task) \<noteq> None"
      by (auto simp: aria2_gone_def kv_get_def split: if_splits option.splits)
    with link [of task] show ?thesis by auto
  qed
  moreover have "s' k = s k" if "\<not> has_prefix k linkPrefix" "\<not> has_prefix k aria2Prefix" "k \<noteq> aria2Index" for k
  proof -
    have "k \<noteq> linkIndex" "\<And>i. k \<noteq> linkPrefix @ i" "\<And>i. k \<noteq> aria2Prefix @ i" using that(1,2) by (auto simp: hub_keys)
    with ls as s' that(3) show ?thesis by auto
  qed
  ultimately show ?thesis unfolding Inr sum.case
    by (intro conjI ballI allI impI) (auto simp: not_less)
qed

theorem cleanup_removes_exactly_expired_witness:
  "snd (cleanupLinksAndAria2 None None 100 10
     [linkPrefix @ ''x'' \<mapsto> Doc (JObj [(''last_active_at'', JTime 50)]), linkIndex \<mapsto> index_json [(''x'', 50)]]) (linkPrefix @ ''x'') = None"
proof -
  let ?s = "[linkPrefix @ ''x'' \<mapsto> Doc (JObj [(''last_active_at'', JTime 50)]), linkIndex \<mapsto> index_json [(''x'', 50)]] :: kv"
  have li: "index_is links ?s [(''x'', 50)]"
    using lk.index_is_saved [of "[(''x'', 50)]"] by (simp add: hub_selectors hub_keys)
  have ai: "index_is aria2 ?s []" by (simp add: index_is_def col_index_def kv_get_def hub_selectors linkPrefix_def linkIndex_def)
  have act: "linkActivity (Doc (JObj [(''last_active_at'', JTime 50)])) = Inr 50"
    by (simp add: linkActivity_def unmarshal_object_def object_map_def field_time_def)
  have "\<exists>n. fst (cleanupLinksAndAria2 None None 100 10 ?s) = Inr n"
    using li [unfolded raw_index(1) [symmetric]] ai [unfolded raw_index(2) [symmetric]] act
    by (simp add: cleanupLinksAndAria2_def storage_update_def memory_update_def cleanup_txn_def stamp_expired_def
        kv_get_def kv_set_def kv_delete_def col_saveIndex_def)
  then obtain n s' where r: "cleanupLinksAndAria2 None None 100 10 ?s = (Inr n, s')" by (metis prod.collapse)
  have "stamp_expired 50 100 10" by (simp add: stamp_expired_def)
  with cleanup_removes_exactly_expired [OF r li ai] act show ?thesis by (simp add: r)
qed

text \<open>Maintenance deletes only what it was shown: \<open>DeleteUnchanged\<close> deletes a key only if it is no account key,
  is no index of a task collection and still holds exactly the value of the snapshot; apart from the index
  that listed it, nothing else changes then. If it does not report a deletion, nothing changes at all.\<close>

theorem maintenance_deletes_only_unchanged:
  assumes "deleteUnchanged ctx ctx' key expected s = (res, s')"
  shows "if res = Inr True
    then \<not> protectedCleanupKey key \<and> s key = Some expected \<and> s' key = None
      \<and> key \<notin> {linkIndex, aria2Index, localIndex, forwardIndex}
      \<and> (\<forall>k. k \<notin> {key, linkIndex, aria2Index, localIndex, forwardIndex} \<longrightarrow> s' k = s k)
    else s' = s"
proof (cases res)
  case (Inl e)
  with assms show ?thesis
    by (auto simp: deleteUnchanged_def deleteSnapshotKey_def split: if_splits dest: update_fails)
next
  case (Inr b)
  have keys: "co_indexKey links = linkIndex" "co_indexKey aria2 = aria2Index" "co_indexKey local_tasks = localIndex"
    "co_indexKey forward_jobs = forwardIndex" "co_prefix links = linkPrefix" "co_prefix aria2 = aria2Prefix"
    "co_prefix local_tasks = localPrefix" "co_prefix forward_jobs = forwardPrefix" by (simp_all add: hub_selectors hub_keys)
  have pf: "\<not> has_prefix aria2Index linkPrefix" "\<not> has_prefix localIndex linkPrefix" "\<not> has_prefix forwardIndex linkPrefix"
    "\<not> has_prefix localIndex aria2Prefix" "\<not> has_prefix forwardIndex aria2Prefix" "\<not> has_prefix forwardIndex localPrefix"
    by (simp_all add: hub_keys)
  have repair: "r \<noteq> None \<longrightarrow> key \<notin> {linkIndex, aria2Index, localIndex, forwardIndex}
      \<and> (\<forall>k. k \<notin> {linkIndex, aria2Index, localIndex, forwardIndex} \<longrightarrow> the r k = s k)"
    if "repair_index None [links, aria2, local_tasks, forward_jobs] key s = Inr r" for r
    using that pf by (auto simp: keys and_then_Inr col_saveIndex_def kv_set_def split: if_splits)
  from assms Inr have np: "\<not> protectedCleanupKey key"
    and t: "storage_update ctx (\<lambda>ctx. memory_update ctx ctx') (delete_snapshot_txn ctx key expected) s = (Inr b, s')"
    by (auto simp: deleteUnchanged_def deleteSnapshotKey_def split: if_splits)
  from update_succeeds [OF t] have d: "delete_snapshot_txn None key expected s = Inr (b, s')" by auto
  show ?thesis
  proof (cases b)
    case False
    with d Inr show ?thesis
      by (auto simp: delete_snapshot_txn_def kv_get_def kv_delete_def and_then_Inr split: option.splits if_splits)
  next
    case True
    with d obtain s1 where "s key = Some expected" "repair_index None [links, aria2, local_tasks, forward_jobs] key s = Inr (Some s1)"
      "s' = s1(key := None)"
      by (auto simp: delete_snapshot_txn_def kv_get_def kv_delete_def and_then_Inr split: option.splits if_splits)
    with repair [of "Some s1"] np True Inr show ?thesis by auto
  qed
qed

theorem maintenance_deletes_only_unchanged_witness:
  "deleteUnchanged None None ''stray'' (Doc JNull) [''stray'' \<mapsto> Doc JNull] = (Inr True, Map.empty)"
proof -
  let ?s = "[''stray'' \<mapsto> Doc JNull] :: kv"
  have r: "deleteUnchanged None None ''stray'' (Doc JNull) ?s = (Inr True, ?s(''stray'' := None))"
    by (simp add: deleteUnchanged_def deleteSnapshotKey_def storage_update_def memory_update_def delete_snapshot_txn_def
        protectedCleanupKey_def authKeys_def hub_selectors kv_get_def kv_delete_def hub_keys)
  from maintenance_deletes_only_unchanged [OF r] r show ?thesis by simp
qed

end
