(* ===== verification/Aria2_Hub.thy ===== *)
theory Aria2_Hub
  imports Task_Hub
begin

text \<open>
  The aria2 side of the task hub: \<open>Collection.Merge\<close> of \<open>mutation.go\<close>, the repository of aria2
  associations (\<open>aria2_repository.go\<close>, \<open>download_state.go\<close>), the fence around control calls
  (\<open>aria2_control.go\<close>) and the observations of the aria2 daemon (\<open>aria2_observation.go\<close>). A record is
  changed only by a client that names the revision it saw; every change advances the revision.
\<close>

section \<open>Records\<close>

text \<open>\<open>types.Aria2TaskRecord\<close> with its JSON encoding (\<open>omitempty\<close>, \<open>omitzero\<close>).\<close>

record aria2Record =
  ar_pauseOwner :: string
  ar_deleted :: bool
  ar_controlUntil :: instant
  ar_state :: string
  ar_revision :: nat
  ar_gid :: string
  ar_taskID :: string
  ar_url :: string
  ar_dir :: string
  ar_out :: string
  ar_createdAt :: instant
  ar_status :: string
  ar_total :: int
  ar_completed :: int
  ar_error :: string

definition aria2_fields :: "aria2Record \<Rightarrow> (string \<times> json) list" where
  "aria2_fields r =
     (if ar_pauseOwner r = [] then [] else [(''pause_owner'', JStr (ar_pauseOwner r))])
     @ (if ar_deleted r then [(''deleted'', JBool True)] else [])
     @ (if is_zero (ar_controlUntil r) then [] else [(''control_until'', JTime (ar_controlUntil r))])
     @ [(''state'', JStr (ar_state r)), (''revision'', JNum (int (ar_revision r))), (''gid'', JStr (ar_gid r)),
        (''task_id'', JStr (ar_taskID r)), (''download_url'', JStr (ar_url r)), (''dir'', JStr (ar_dir r)),
        (''out'', JStr (ar_out r)), (''created_at'', JTime (ar_createdAt r)), (''status'', JStr (ar_status r)),
        (''total'', JNum (ar_total r)), (''completed'', JNum (ar_completed r))]
     @ (if ar_error r = [] then [] else [(''error'', JStr (ar_error r))])"

definition aria2_of_json :: "(string \<times> json) list \<Rightarrow> aria2Record res" where
  "aria2_of_json fs =
     and_then (field_string fs ''pause_owner'') (\<lambda>owner. and_then (field_bool fs ''deleted'') (\<lambda>deleted.
     and_then (field_time fs ''control_until'') (\<lambda>until. and_then (field_string fs ''state'') (\<lambda>state.
     and_then (field_uint64 fs ''revision'') (\<lambda>revision. and_then (field_string fs ''gid'') (\<lambda>gid.
     and_then (field_string fs ''task_id'') (\<lambda>task. and_then (field_string fs ''download_url'') (\<lambda>url.
     and_then (field_string fs ''dir'') (\<lambda>dir. and_then (field_string fs ''out'') (\<lambda>out.
     and_then (field_time fs ''created_at'') (\<lambda>created. and_then (field_string fs ''status'') (\<lambda>status.
     and_then (field_int64 fs ''total'') (\<lambda>tot. and_then (field_int64 fs ''completed'') (\<lambda>compl.
     and_then (field_string fs ''error'') (\<lambda>er.
     Inr \<lparr>ar_pauseOwner = owner, ar_deleted = deleted, ar_controlUntil = until, ar_state = state, ar_revision = revision,
       ar_gid = gid, ar_taskID = task, ar_url = url, ar_dir = dir, ar_out = out, ar_createdAt = created,
       ar_status = status, ar_total = tot, ar_completed = compl, ar_error = er\<rparr>)))))))))))))))"

definition aria2_zero :: aria2Record where
  "aria2_zero = \<lparr>ar_pauseOwner = [], ar_deleted = False, ar_controlUntil = 0, ar_state = [], ar_revision = 0, ar_gid = [],
     ar_taskID = [], ar_url = [], ar_dir = [], ar_out = [], ar_createdAt = 0, ar_status = [], ar_total = 0, ar_completed = 0,
     ar_error = []\<rparr>"

definition decodeAria2Record :: "blob \<Rightarrow> string \<Rightarrow> aria2Record res" where
  "decodeAria2Record data gid =
     and_then (unmarshal_object data) (\<lambda>fs. and_then (aria2_of_json fs) (\<lambda>r.
     if ar_gid r = [] \<or> ar_gid r \<noteq> gid \<or> ar_revision r = 0 \<or> normalizeDownloadState (ar_status r) = downloadUnknown
        \<or> ar_state r \<noteq> normalizeDownloadState (ar_status r)
     then Inl (ErrMsg ''invalid aria2 task record'') else Inr r))"

section \<open>Merging metadata\<close>

text \<open>
  A \<open>map[string]json.RawMessage\<close> that JSON \<open>null\<close> left nil is \<open>None\<close>: reading and deleting work on it,
  an assignment panics. The panic leaves the transaction without a commit, so it is an error value here.
\<close>

definition errNilMap :: err where "errNilMap = ErrMsg ''panic: assignment to entry in nil map''"

definition unmarshal_map :: "blob \<Rightarrow> (string \<times> json) list option res" where
  "unmarshal_map data = and_then (unmarshal_object data) (\<lambda>fs. Inr (if data = Doc JNull then None else Some fs))"

fun delete_fields :: "string list \<Rightarrow> (string \<times> json) list \<Rightarrow> (string \<times> json) list" where
  "delete_fields [] fs = fs"
| "delete_fields (k # ks) fs = delete_fields ks (AList.delete k fs)"

definition put_fields :: "(string \<times> json) list \<Rightarrow> (string \<times> json) list \<Rightarrow> (string \<times> json) list" where
  "put_fields vs fs = fold (\<lambda>(k, v). AList.update k v) vs fs"

definition revision_succ :: "nat \<Rightarrow> nat" where
  "revision_succ n = (n + 1) mod 2 ^ 64"

definition mergeAria2State :: "(string \<times> json) list \<Rightarrow> (string \<times> json) list option \<Rightarrow> (string \<times> json) list res" where
  "mergeAria2State previous updates =
     (let oldStatus = or_zero [] (field_string previous ''status'');
          revision = or_zero 0 (field_uint64 previous ''revision'');
          status = (case updates of None \<Rightarrow> [] | Some u \<Rightarrow> or_zero [] (field_string u ''status''))
      in and_then
           (if status \<noteq> [] then Inr (status, updates)
            else let u1 = map_option (delete_fields [''status'', ''state'', ''total'', ''completed'', ''error'']) updates
                 in if oldStatus \<noteq> [] then Inr (oldStatus, u1)
                    else case u1 of
                           None \<Rightarrow> Inl errNilMap
                         | Some u \<Rightarrow> Inr (''waiting'', Some (AList.update ''status'' (JStr ''waiting'') u)))
         (\<lambda>(st, u2).
            if \<not> downloadTransition (normalizeDownloadState oldStatus) (normalizeDownloadState st)
            then Inl (ErrMsg ''invalid aria2 state transition'')
            else case u2 of
                   None \<Rightarrow> Inl errNilMap
                 | Some u \<Rightarrow> Inr (put_fields [(''state'', JStr (normalizeDownloadState st)),
                                            (''revision'', JNum (int (revision_succ revision)))] u)))"

definition merge_previous :: "collection \<Rightarrow> ctx \<Rightarrow> string \<Rightarrow> kv \<Rightarrow> (string \<times> json) list res" where
  "merge_previous c ctx tid s =
     (case col_get c ctx s (co_prefix c @ tid) of
        Inl e \<Rightarrow> if errors_is e ErrNotFound then Inr [] else Inl e
      | Inr old \<Rightarrow>
          and_then (if co_prefix c = aria2Prefix then and_then (decodeAria2Record old tid) (\<lambda>_. Inr ()) else Inr ())
            (\<lambda>_. unmarshal_object old))"

text \<open>The activity clock of a link is taken from the updates only if the stored one is not later.\<close>

definition keep_clock :: "(string \<times> json) list \<Rightarrow> (string \<times> json) list \<Rightarrow> (string \<times> json) list" where
  "keep_clock merged updates =
     (if or_zero 0 (field_time updates ''last_active_at'') < or_zero 0 (field_time merged ''last_active_at'')
      then AList.delete ''last_active_at'' updates else updates)"

definition merge_txn :: "collection \<Rightarrow> ctx \<Rightarrow> string \<Rightarrow> blob \<Rightarrow> instant \<Rightarrow> unit txn" where
  "merge_txn c ctx tid data stamp s =
     and_then (col_index (co_indexKey c) (col_get c ctx s)) (\<lambda>ix.
     and_then (merge_previous c ctx tid s) (\<lambda>merged.
     and_then (unmarshal_map data) (\<lambda>updates.
     and_then (if co_prefix c = aria2Prefix then mergeAria2State merged updates
               else Inr (case updates of None \<Rightarrow> [] | Some u \<Rightarrow> u)) (\<lambda>u.
     let u1 = (if co_prefix c = linkPrefix then keep_clock merged u else u)
     in and_then (col_set c ctx s (co_prefix c @ tid) (Doc (JObj (put_fields u1 merged)))) (\<lambda>s1.
        let ix1 = (case map_of ix tid of
                     None \<Rightarrow> AList.update tid stamp ix
                   | Some previous \<Rightarrow> if previous < stamp then AList.update tid stamp ix else ix)
        in and_then (col_saveIndex (co_indexKey c) (col_set c ctx s1) ix1) (\<lambda>s2. Inr ((), s2)))))))"

definition col_merge :: "collection \<Rightarrow> ctx \<Rightarrow> ctx \<Rightarrow> string \<Rightarrow> blob \<Rightarrow> instant \<Rightarrow> kv \<Rightarrow> unit res \<times> kv" where
  "col_merge c ctx ctx' tid data stamp s =
     (case co_initErr c of
        Some e \<Rightarrow> (Inl e, s)
      | None \<Rightarrow> if tid = [] then (Inl (ErrMsg ''empty task id''), s)
                else col_run c ctx ctx' (merge_txn c ctx tid data stamp) s)"

section \<open>The repository of associations\<close>

text \<open>
  \<open>ttl\<close> is the retention time of the repository. A method that runs two transactions takes the
  contexts at the start and at the commit of each; every \<open>now\<close> is one reading of the clock.
\<close>

definition isAria2TaskExpired :: "instant \<Rightarrow> instant \<Rightarrow> duration \<Rightarrow> bool" where
  "isAria2TaskExpired createdAt now ttl \<longleftrightarrow> 0 < ttl \<and> \<not> is_zero createdAt \<and> ttl < time_sub now createdAt"

definition aria2_expired :: "instant \<Rightarrow> duration \<Rightarrow> blob \<Rightarrow> instant \<Rightarrow> bool res" where
  "aria2_expired now ttl data stamp =
     and_then (and_then (unmarshal_object data) aria2_of_json) (\<lambda>r.
     if now < ar_controlUntil r then Inr False else Inr (isAria2TaskExpired stamp now ttl))"

definition aria2_cleanup :: "ctx \<Rightarrow> ctx \<Rightarrow> instant \<Rightarrow> duration \<Rightarrow> kv \<Rightarrow> unit res \<times> kv" where
  "aria2_cleanup ctx ctx' now ttl s =
     (if ttl \<le> 0 then (Inr (), s) else col_sweep aria2 ctx ctx' (aria2_expired now ttl) s)"

definition aria2_add :: "ctx \<times> ctx \<Rightarrow> ctx \<times> ctx \<Rightarrow> instant \<Rightarrow> instant \<Rightarrow> duration \<Rightarrow> aria2Record \<Rightarrow> kv \<Rightarrow> unit res \<times> kv" where
  "aria2_add sweep_ctx merge_ctx created now ttl r s =
     (if ar_gid r = [] then (Inl (ErrMsg ''aria2 gid is empty''), s)
      else let r1 = (if is_zero (ar_createdAt r) then r\<lparr>ar_createdAt := created\<rparr> else r)
           in case aria2_cleanup (fst sweep_ctx) (snd sweep_ctx) now ttl s of
                (Inl e, s1) \<Rightarrow> (Inl e, s1)
              | (Inr _, s1) \<Rightarrow>
                  col_merge aria2 (fst merge_ctx) (snd merge_ctx) (ar_gid r1) (Doc (JObj (aria2_fields r1)))
                    (ar_createdAt r1) s1)"

fun decode_live :: "(string \<times> blob) list \<Rightarrow> (string \<times> aria2Record) list res" where
  "decode_live [] = Inr []"
| "decode_live ((gid, data) # rs) =
     and_then (decodeAria2Record data gid) (\<lambda>r.
     and_then (decode_live rs) (\<lambda>ds. Inr (if ar_deleted r then ds else (ar_gid r, r) # ds)))"

definition aria2_records :: "ctx \<times> ctx \<Rightarrow> ctx \<times> ctx \<Rightarrow> instant \<Rightarrow> duration \<Rightarrow> kv \<Rightarrow> (string \<times> aria2Record) list res \<times> kv" where
  "aria2_records sweep_ctx records_ctx now ttl s =
     (case aria2_cleanup (fst sweep_ctx) (snd sweep_ctx) now ttl s of
        (Inl e, s1) \<Rightarrow> (Inl e, s1)
      | (Inr _, s1) \<Rightarrow>
          (case col_records aria2 (fst records_ctx) (snd records_ctx) s1 of
             (Inl e, s2) \<Rightarrow> (Inl e, s2)
           | (Inr rs, s2) \<Rightarrow> (decode_live rs, s2)))"

definition aria2_gids :: "ctx \<times> ctx \<Rightarrow> ctx \<times> ctx \<Rightarrow> instant \<Rightarrow> duration \<Rightarrow> kv \<Rightarrow> string list res \<times> kv" where
  "aria2_gids sweep_ctx records_ctx now ttl s =
     (case aria2_records sweep_ctx records_ctx now ttl s of (r, s1) \<Rightarrow> (and_then r (\<lambda>rs. Inr (keys rs)), s1))"

definition aria2_remove :: "ctx \<Rightarrow> ctx \<Rightarrow> string \<Rightarrow> kv \<Rightarrow> unit res \<times> kv" where
  "aria2_remove ctx ctx' gid s = (if gid = [] then (Inr (), s) else col_remove aria2 ctx ctx' gid s)"

text \<open>The fields that an observation of the daemon writes, shared by \<open>Report\<close> and \<open>Apply\<close>.\<close>

definition observed_fields :: "aria2Record \<Rightarrow> nat \<Rightarrow> (string \<times> json) list" where
  "observed_fields obs revision =
     [(''status'', JStr (ar_status obs)), (''state'', JStr (normalizeDownloadState (ar_status obs))),
      (''total'', JNum (ar_total obs)), (''completed'', JNum (ar_completed obs)), (''error'', JStr (ar_error obs)),
      (''revision'', JNum (int (revision_succ revision)))]"

definition report_change :: "instant \<Rightarrow> instant \<Rightarrow> aria2Record \<Rightarrow> nat \<Rightarrow> blob \<Rightarrow> instant \<Rightarrow> (blob option \<times> instant \<times> bool) res" where
  "report_change now now' obs revision data stamp =
     and_then (decodeAria2Record data (ar_gid obs)) (\<lambda>current.
     if ar_deleted current \<or> ar_taskID current \<noteq> ar_taskID obs \<or> ar_revision current \<noteq> revision \<or> now < ar_controlUntil current
     then Inr (Some data, stamp, False)
     else if \<not> downloadTransition (normalizeDownloadState (ar_status current)) (normalizeDownloadState (ar_status obs))
     then Inr (Some data, stamp, False)
     else and_then (unmarshal_object data) (\<lambda>raw.
          Inr (Some (Doc (JObj (put_fields (observed_fields obs revision) raw))),
               if normalizeDownloadState (ar_status obs) \<noteq> ''complete'' then now' else stamp, True)))"

definition aria2_report :: "ctx \<Rightarrow> ctx \<Rightarrow> instant \<Rightarrow> instant \<Rightarrow> aria2Record \<Rightarrow> nat \<Rightarrow> kv \<Rightarrow> bool res \<times> kv" where
  "aria2_report ctx ctx' now now' obs revision s =
     col_mutate aria2 ctx ctx' (ar_gid obs) (report_change now now' obs revision) s"

section \<open>The fence around control calls\<close>

definition reserve_change :: "instant \<Rightarrow> instant \<Rightarrow> aria2Record \<Rightarrow> instant \<Rightarrow> blob \<Rightarrow> instant
    \<Rightarrow> (blob option \<times> instant \<times> aria2Record \<times> bool) res" where
  "reserve_change now now' expected until data stamp =
     and_then (decodeAria2Record data (ar_gid expected)) (\<lambda>current.
     if ar_deleted current \<or> ar_revision current \<noteq> ar_revision expected \<or> ar_taskID current \<noteq> ar_taskID expected
        \<or> now < ar_controlUntil current
     then Inr (Some data, stamp, current, False)
     else let lease = current\<lparr>ar_revision := revision_succ (ar_revision current), ar_controlUntil := until\<rparr>
          in and_then (unmarshal_object data) (\<lambda>raw.
             Inr (Some (Doc (JObj (put_fields [(''revision'', JNum (int (ar_revision lease))), (''control_until'', JTime until)] raw))),
                  now', lease, True)))"

text \<open>\<open>ReserveControl\<close> returns the lease with whether it was reserved; a record that is gone reserves nothing.\<close>

definition reserveControl :: "ctx \<Rightarrow> ctx \<Rightarrow> instant \<Rightarrow> instant \<Rightarrow> instant \<Rightarrow> aria2Record \<Rightarrow> instant \<Rightarrow> kv
    \<Rightarrow> (aria2Record \<times> bool) res \<times> kv" where
  "reserveControl ctx ctx' now0 now now' expected until s =
     (if \<not> now0 < until then (Inl (ErrMsg ''control deadline has expired''), s)
      else case col_mutate aria2 ctx ctx' (ar_gid expected) (reserve_change now now' expected until) s of
             (Inl e, s') \<Rightarrow> (if errors_is e ErrNotFound then Inr (aria2_zero, False) else Inl e, s')
           | (Inr x, s') \<Rightarrow> (Inr x, s'))"

definition finish_fields :: "aria2Record \<Rightarrow> aria2Record \<Rightarrow> string \<Rightarrow> bool \<Rightarrow> (string \<times> json) list \<Rightarrow> (string \<times> json) list" where
  "finish_fields current lease status remove raw =
     (let raw1 = AList.delete ''control_until'' raw;
          raw2 = (if remove then AList.update ''deleted'' (JBool True) raw1 else raw1);
          st = (if remove then ''removed'' else status);
          raw3 = (if st \<noteq> [] \<and> downloadTransition (normalizeDownloadState (ar_status current)) (normalizeDownloadState st)
                  then let raw4 = AList.delete ''pause_owner'' (put_fields [(''status'', JStr st),
                                    (''state'', JStr (normalizeDownloadState st))] raw2)
                       in if st = ''paused'' \<and> ar_pauseOwner lease \<noteq> []
                          then AList.update ''pause_owner'' (JStr (ar_pauseOwner lease)) raw4 else raw4
                  else raw2)
      in AList.update ''revision'' (JNum (int (revision_succ (ar_revision current)))) raw3)"

definition finish_change :: "instant \<Rightarrow> aria2Record \<Rightarrow> string \<Rightarrow> bool \<Rightarrow> blob \<Rightarrow> instant \<Rightarrow> (blob option \<times> instant \<times> bool) res" where
  "finish_change now' lease status remove data stamp =
     and_then (decodeAria2Record data (ar_gid lease)) (\<lambda>current.
     if ar_revision current \<noteq> ar_revision lease \<or> ar_taskID current \<noteq> ar_taskID lease then Inr (Some data, stamp, False)
     else and_then (unmarshal_object data) (\<lambda>raw.
          Inr (Some (Doc (JObj (finish_fields current lease status remove raw))), now', True)))"

definition finishControl :: "ctx \<Rightarrow> ctx \<Rightarrow> instant \<Rightarrow> aria2Record \<Rightarrow> string \<Rightarrow> bool \<Rightarrow> kv \<Rightarrow> bool res \<times> kv" where
  "finishControl ctx ctx' now' lease status remove s =
     (case col_mutate aria2 ctx ctx' (ar_gid lease) (finish_change now' lease status remove) s of
        (Inl e, s') \<Rightarrow> (if errors_is e ErrNotFound then Inr False else Inl e, s')
      | (Inr b, s') \<Rightarrow> (Inr b, s'))"

section \<open>Observations\<close>

text \<open>
  \<open>linkVersion\<close>: the digest \<open>sha\<close> (SHA-256, in hexadecimal) of a link without the fields that downloads
  change. \<open>json.Marshal\<close> writes the keys of a map in order.
\<close>

definition linkVersion :: "(blob \<Rightarrow> string) \<Rightarrow> blob \<Rightarrow> string" where
  "linkVersion sha data =
     sha (case unmarshal_map data of
            Inl e \<Rightarrow> data
          | Inr None \<Rightarrow> Doc JNull
          | Inr (Some raw) \<Rightarrow> Doc (JObj (sort_key fst (delete_fields [''last_active_at'', ''downloaded'', ''http_delivery''] raw))))"

record persistentLink =
  pl_id :: string
  pl_peerID :: int
  pl_messageID :: int
  pl_fileName :: string
  pl_fileSize :: int
  pl_createdAt :: instant
  pl_lastActiveAt :: instant
  pl_downloaded :: bool

definition link_of_json :: "(string \<times> json) list \<Rightarrow> persistentLink res" where
  "link_of_json fs =
     and_then (field_string fs ''id'') (\<lambda>i. and_then (field_int64 fs ''peer_id'') (\<lambda>peer.
     and_then (field_int64 fs ''message_id'') (\<lambda>msg. and_then (field_string fs ''file_name'') (\<lambda>name.
     and_then (field_int64 fs ''file_size'') (\<lambda>sz. and_then (field_time fs ''created_at'') (\<lambda>created.
     and_then (field_time fs ''last_active_at'') (\<lambda>active. and_then (field_bool fs ''downloaded'') (\<lambda>downloaded.
     Inr \<lparr>pl_id = i, pl_peerID = peer, pl_messageID = msg, pl_fileName = name, pl_fileSize = sz, pl_createdAt = created,
       pl_lastActiveAt = active, pl_downloaded = downloaded\<rparr>))))))))"

type_synonym observedLink = "persistentLink \<times> string"

fun observe_pairs :: "(blob \<Rightarrow> string) \<Rightarrow> (string \<times> blob) list
    \<Rightarrow> ((string \<times> observedLink) list \<times> (string \<times> aria2Record) list) res" where
  "observe_pairs sha [] = Inr ([], [])"
| "observe_pairs sha ((key, data) # ps) =
     (if has_prefix key linkPrefix \<and> key \<noteq> linkIndex
      then and_then (and_then (unmarshal_object data) link_of_json) (\<lambda>task.
           and_then (observe_pairs sha ps) (\<lambda>(ls, rs).
           let i = trim_prefix key linkPrefix
           in Inr (if pl_id task \<noteq> i then ls else (i, task, linkVersion sha data) # ls, rs)))
      else if has_prefix key aria2Prefix \<and> key \<noteq> aria2Index
      then and_then (decodeAria2Record data (trim_prefix key aria2Prefix)) (\<lambda>r.
           and_then (observe_pairs sha ps) (\<lambda>(ls, rs). Inr (ls, (trim_prefix key aria2Prefix, r) # rs)))
      else observe_pairs sha ps)"

definition observation_snapshot :: "(blob \<Rightarrow> string) \<Rightarrow> ctx \<Rightarrow> ctx \<Rightarrow> kv
    \<Rightarrow> ((string \<times> observedLink) list \<times> (string \<times> aria2Record) list) res \<times> kv" where
  "observation_snapshot sha ctx ctx' s =
     (case storage_update ctx (\<lambda>ctx. memory_update ctx ctx') (link_snapshot_txn ctx) s of
        (Inl e, s') \<Rightarrow> (Inl e, s')
      | (Inr pairs, s') \<Rightarrow> (observe_pairs sha pairs, s'))"

text \<open>
  \<open>Apply\<close>, from the reading of the source link to the commit. \<open>lid\<close> and \<open>version\<close> are the id and version
  of the observed link (an empty id when the association has none). A stored value of no bytes reads as a
  nil slice.
\<close>

definition apply_link_read :: "(blob \<Rightarrow> string) \<Rightarrow> ctx \<Rightarrow> string \<Rightarrow> string \<Rightarrow> aria2Record \<Rightarrow> bool \<Rightarrow> kv
    \<Rightarrow> blob option option res" where
  "apply_link_read sha ctx lid version obs create s =
     (if lid \<noteq> []
      then if lid \<noteq> ar_taskID obs then Inl (ErrMsg ''link association mismatch'')
           else case kv_get ctx (linkPrefix @ lid) s of
                  Inl e \<Rightarrow> if errors_is e ErrNotFound then Inr None else Inl e
                | Inr data \<Rightarrow> if linkVersion sha data \<noteq> version then Inr None
                              else Inr (Some (if data = Raw [] then None else Some data))
      else if create then Inr None else Inr (Some None))"

definition apply_record :: "instant \<Rightarrow> aria2Record \<Rightarrow> bool \<Rightarrow> blob res \<Rightarrow> ((string \<times> json) list \<times> aria2Record) option res" where
  "apply_record now obs create got =
     (case got of
        Inl e \<Rightarrow>
          if \<not> errors_is e ErrNotFound then Inl e
          else if create
          then let obs1 = (if is_zero (ar_createdAt obs) then obs\<lparr>ar_createdAt := now\<rparr> else obs)
               in Inr (Some (aria2_fields obs1, obs1))
          else Inr None
      | Inr data \<Rightarrow>
          if create then Inr None
          else and_then (decodeAria2Record data (ar_gid obs)) (\<lambda>current.
               if ar_deleted current \<or> ar_revision current \<noteq> ar_revision obs \<or> now < ar_controlUntil current
                  \<or> ar_taskID current \<noteq> ar_taskID obs
                  \<or> \<not> downloadTransition (normalizeDownloadState (ar_status current)) (normalizeDownloadState (ar_status obs))
               then Inr None
               else and_then (unmarshal_object data) (\<lambda>raw. Inr (Some (raw, obs)))))"

definition observed_complete :: "aria2Record \<Rightarrow> bool" where
  "observed_complete obs \<longleftrightarrow> ar_status obs = ''complete'' \<and> (ar_total obs = 0 \<or> ar_total obs \<le> ar_completed obs)"

text \<open>The link after an observation: a finished download marks it, one in progress touches its clock.\<close>

definition apply_link :: "instant \<Rightarrow> duration \<Rightarrow> bool \<Rightarrow> blob \<Rightarrow> blob res" where
  "apply_link now ttl complete linkData =
     and_then (unmarshal_map linkData) (\<lambda>link.
     and_then
       (if complete then (case link of None \<Rightarrow> Inl errNilMap | Some l \<Rightarrow> Inr (Some (AList.update ''downloaded'' (JBool True) l)))
        else if 0 < ttl
        then and_then (linkActivity linkData) (\<lambda>last_active.
             if last_active < now
             then (case link of None \<Rightarrow> Inl errNilMap | Some l \<Rightarrow> Inr (Some (AList.update ''last_active_at'' (JTime now) l)))
             else Inr link)
        else Inr link) (\<lambda>link1.
     Inr (case link1 of None \<Rightarrow> Doc JNull | Some l \<Rightarrow> Doc (JObj l))))"

definition apply_txn :: "(blob \<Rightarrow> string) \<Rightarrow> ctx \<Rightarrow> string \<Rightarrow> string \<Rightarrow> aria2Record \<Rightarrow> bool \<Rightarrow> instant \<Rightarrow> duration \<Rightarrow> bool txn" where
  "apply_txn sha ctx lid version obs create now ttl s =
     and_then (apply_link_read sha ctx lid version obs create s) (\<lambda>source.
     case source of
       None \<Rightarrow> Inr (False, s)
     | Some linkData \<Rightarrow>
         and_then (apply_record now obs create (kv_get ctx (aria2Prefix @ ar_gid obs) s)) (\<lambda>accepted.
         case accepted of
           None \<Rightarrow> Inr (False, s)
         | Some (raw, obs1) \<Rightarrow>
             and_then (kv_set ctx (aria2Prefix @ ar_gid obs1) (Doc (JObj (put_fields (observed_fields obs1 (ar_revision obs1)) raw))) s) (\<lambda>s1.
             and_then (col_index aria2Index (\<lambda>k. kv_get ctx k s1)) (\<lambda>ix.
             let complete = observed_complete obs1;
                 stamp = max (if complete then ar_createdAt obs1 else now) (stamp_of ix (ar_gid obs1))
             in and_then (col_saveIndex aria2Index (\<lambda>k v. kv_set ctx k v s1) (AList.update (ar_gid obs1) stamp ix)) (\<lambda>s2.
                case linkData of
                  None \<Rightarrow> Inr (True, s2)
                | Some ld \<Rightarrow>
                    and_then (apply_link now ttl complete ld) (\<lambda>ld1.
                    and_then (kv_set ctx (linkPrefix @ lid) ld1 s2) (\<lambda>s3.
                    and_then (col_index linkIndex (\<lambda>k. kv_get ctx k s3)) (\<lambda>lix.
                    and_then (linkActivity ld1) (\<lambda>active.
                    let lstamp = max (if \<not> complete \<and> 0 < ttl then now else active) (stamp_of lix lid)
                    in and_then (col_saveIndex linkIndex (\<lambda>k v. kv_set ctx k v s3) (AList.update lid lstamp lix)) (\<lambda>s4.
                       Inr (True, s4)))))))))))"

definition observation_apply :: "(blob \<Rightarrow> string) \<Rightarrow> ctx \<Rightarrow> ctx \<Rightarrow> string \<Rightarrow> string \<Rightarrow> aria2Record \<Rightarrow> bool \<Rightarrow> instant \<Rightarrow> duration
    \<Rightarrow> kv \<Rightarrow> bool res \<times> kv" where
  "observation_apply sha ctx ctx' lid version obs create now ttl s =
     (if ar_gid obs = [] \<or> ar_gid obs = ''index'' \<or> CHR ''/'' \<in> set (ar_gid obs) \<or> CHR 0x5C \<in> set (ar_gid obs)
      then (Inl (ErrMsg ''invalid aria2 gid''), s)
      else storage_update ctx (\<lambda>ctx. memory_update ctx ctx') (apply_txn sha ctx lid version obs create now ttl) s)"

section \<open>Records after a change\<close>

lemma distinct_put_fields [simp]: "distinct (keys fs) \<Longrightarrow> distinct (keys (put_fields vs fs))"
  by (simp add: put_fields_def distinct_fold_update)

lemma map_of_put_fields: "map_of (put_fields vs fs) = (map_of fs) ++ map_of (rev vs)"
proof (induction vs arbitrary: fs)
  case Nil
  then show ?case by (simp add: put_fields_def)
next
  case (Cons v vs)
  obtain k j where "v = (k, j)" by fastforce
  with Cons [of "AList.update k j fs"] show ?case by (simp add: put_fields_def update_conv' map_add_def fun_eq_iff split: option.splits)
qed

lemma unmarshal_doc [simp]: "distinct (keys fs) \<Longrightarrow> unmarshal_object (Doc (JObj fs)) = Inr fs"
  by (simp add: unmarshal_object_def)

lemma aria2_of_json_iff:
  "aria2_of_json fs = Inr r \<longleftrightarrow>
     field_string fs ''pause_owner'' = Inr (ar_pauseOwner r) \<and> field_bool fs ''deleted'' = Inr (ar_deleted r)
     \<and> field_time fs ''control_until'' = Inr (ar_controlUntil r) \<and> field_string fs ''state'' = Inr (ar_state r)
     \<and> field_uint64 fs ''revision'' = Inr (ar_revision r) \<and> field_string fs ''gid'' = Inr (ar_gid r)
     \<and> field_string fs ''task_id'' = Inr (ar_taskID r) \<and> field_string fs ''download_url'' = Inr (ar_url r)
     \<and> field_string fs ''dir'' = Inr (ar_dir r) \<and> field_string fs ''out'' = Inr (ar_out r)
     \<and> field_time fs ''created_at'' = Inr (ar_createdAt r) \<and> field_string fs ''status'' = Inr (ar_status r)
     \<and> field_int64 fs ''total'' = Inr (ar_total r) \<and> field_int64 fs ''completed'' = Inr (ar_completed r)
     \<and> field_string fs ''error'' = Inr (ar_error r)"
  unfolding aria2_of_json_def and_then_Inr by (cases r) auto

lemma field_put:
  "map_of (put_fields vs fs) k = map_of fs k \<Longrightarrow> field_string (put_fields vs fs) k = field_string fs k"
  "map_of (put_fields vs fs) k = map_of fs k \<Longrightarrow> field_bool (put_fields vs fs) k = field_bool fs k"
  "map_of (put_fields vs fs) k = map_of fs k \<Longrightarrow> field_time (put_fields vs fs) k = field_time fs k"
  by (simp_all add: field_defs)

lemma field_cong:
  assumes "map_of fs' k = map_of fs k"
  shows "field_string fs' k = field_string fs k" "field_bool fs' k = field_bool fs k" "field_time fs' k = field_time fs k"
    "field_uint64 fs' k = field_uint64 fs k" "field_int64 fs' k = field_int64 fs k"
  using assms by (simp_all add: field_defs)

lemma field_value [simp]:
  "map_of fs k = Some (JStr x) \<Longrightarrow> field_string fs k = Inr x"
  "map_of fs k = Some (JBool b) \<Longrightarrow> field_bool fs k = Inr b"
  "map_of fs k = Some (JTime t) \<Longrightarrow> field_time fs k = Inr t"
  "map_of fs k = Some (JNum n) \<Longrightarrow> int64_ok n \<Longrightarrow> field_int64 fs k = Inr n"
  "map_of fs k = Some (JNum (int m)) \<Longrightarrow> m < 2 ^ 64 \<Longrightarrow> field_uint64 fs k = Inr m"
  "map_of fs k = None \<Longrightarrow> field_time fs k = Inr 0" "map_of fs k = None \<Longrightarrow> field_string fs k = Inr []"
  by (simp_all add: field_defs nat_less_iff)

lemma revision_succ_less: "revision_succ n < 2 ^ 64"
  by (simp add: revision_succ_def)

lemma field_revision [simp]:
  "map_of fs k = Some (JNum (int (revision_succ n))) \<Longrightarrow> field_uint64 fs k = Inr (revision_succ n)"
  by (rule field_value(5) [OF _ revision_succ_less])

text \<open>What \<open>DecodeAria2Record\<close> accepts.\<close>

definition aria2_valid :: "string \<Rightarrow> aria2Record \<Rightarrow> bool" where
  "aria2_valid gid r \<longleftrightarrow> ar_gid r \<noteq> [] \<and> ar_gid r = gid \<and> ar_revision r \<noteq> 0
     \<and> normalizeDownloadState (ar_status r) \<noteq> downloadUnknown \<and> ar_state r = normalizeDownloadState (ar_status r)"

lemma decodeAria2Record_iff:
  "decodeAria2Record data gid = Inr r \<longleftrightarrow> (\<exists>fs. unmarshal_object data = Inr fs \<and> aria2_of_json fs = Inr r \<and> aria2_valid gid r)"
  by (auto simp: decodeAria2Record_def aria2_valid_def and_then_Inr)

definition observation_ok :: "aria2Record \<Rightarrow> bool" where
  "observation_ok obs \<longleftrightarrow> int64_ok (ar_total obs) \<and> int64_ok (ar_completed obs) \<and> ar_revision obs < 2 ^ 64"


lemma observed_of_json:
  assumes "aria2_of_json raw = Inr r" "observation_ok obs"
  shows "aria2_of_json (put_fields (observed_fields obs rv) raw) = Inr (r\<lparr>ar_status := ar_status obs,
      ar_state := normalizeDownloadState (ar_status obs), ar_total := ar_total obs, ar_completed := ar_completed obs,
      ar_error := ar_error obs, ar_revision := revision_succ rv\<rparr>)"
proof -
  let ?fs = "put_fields (observed_fields obs rv) raw"
  have m: "map_of ?fs ''status'' = Some (JStr (ar_status obs))"
    "map_of ?fs ''state'' = Some (JStr (normalizeDownloadState (ar_status obs)))"
    "map_of ?fs ''total'' = Some (JNum (ar_total obs))" "map_of ?fs ''completed'' = Some (JNum (ar_completed obs))"
    "map_of ?fs ''error'' = Some (JStr (ar_error obs))" "map_of ?fs ''revision'' = Some (JNum (int (revision_succ rv)))"
    "\<forall>k \<in> {''pause_owner'', ''deleted'', ''control_until'', ''gid'', ''task_id'', ''download_url'', ''dir'', ''out'', ''created_at''}.
       map_of ?fs k = map_of raw k"
    by (simp_all add: map_of_put_fields observed_fields_def map_add_def)
  note c = field_cong [of ?fs _ raw]
  show ?thesis
    using assms m unfolding aria2_of_json_iff observation_ok_def by (simp add: c)
qed

lemma reserved_of_json:
  assumes "aria2_of_json raw = Inr r"
  shows "aria2_of_json (put_fields [(''revision'', JNum (int (revision_succ rv))), (''control_until'', JTime until)] raw)
    = Inr (r\<lparr>ar_revision := revision_succ rv, ar_controlUntil := until\<rparr>)"
proof -
  let ?fs = "put_fields [(''revision'', JNum (int (revision_succ rv))), (''control_until'', JTime until)] raw"
  have m: "map_of ?fs ''revision'' = Some (JNum (int (revision_succ rv)))" "map_of ?fs ''control_until'' = Some (JTime until)"
    "\<forall>k \<in> {''pause_owner'', ''deleted'', ''state'', ''status'', ''total'', ''completed'', ''error'', ''gid'', ''task_id'',
       ''download_url'', ''dir'', ''out'', ''created_at''}. map_of ?fs k = map_of raw k"
    by (simp_all add: map_of_put_fields map_add_def)
  note c = field_cong [of ?fs _ raw]
  show ?thesis
    using assms m unfolding aria2_of_json_iff by (simp add: c)
qed

text \<open>The record that \<open>FinishControl\<close> leaves.\<close>

definition finished :: "aria2Record \<Rightarrow> aria2Record \<Rightarrow> string \<Rightarrow> bool \<Rightarrow> aria2Record" where
  "finished r lease status remove =
     (let st = (if remove then ''removed'' else status);
          r1 = r\<lparr>ar_controlUntil := 0, ar_deleted := ar_deleted r \<or> remove, ar_revision := revision_succ (ar_revision r)\<rparr>
      in if st \<noteq> [] \<and> downloadTransition (normalizeDownloadState (ar_status r)) (normalizeDownloadState st)
         then r1\<lparr>ar_status := st, ar_state := normalizeDownloadState st,
                ar_pauseOwner := if st = ''paused'' then ar_pauseOwner lease else []\<rparr>
         else r1)"

lemma distinct_finish: "distinct (keys raw) \<Longrightarrow> distinct (keys (finish_fields r lease status remove raw))"
  by (simp add: finish_fields_def distinct_update)

lemma finished_of_json:
  assumes "aria2_of_json raw = Inr r"
  shows "aria2_of_json (finish_fields r lease status remove raw) = Inr (finished r lease status remove)"
proof -
  define st where "st = (if remove then ''removed'' else status)"
  define legal where "legal \<longleftrightarrow> st \<noteq> [] \<and> downloadTransition (normalizeDownloadState (ar_status r)) (normalizeDownloadState st)"
  define F where "F = finish_fields r lease status remove raw"
  have fs: "map_of F ''revision'' = Some (JNum (int (revision_succ (ar_revision r))))" "map_of F ''control_until'' = None"
    "map_of F ''deleted'' = (if remove then Some (JBool True) else map_of raw ''deleted'')"
    "map_of F ''status'' = (if legal then Some (JStr st) else map_of raw ''status'')"
    "map_of F ''state'' = (if legal then Some (JStr (normalizeDownloadState st)) else map_of raw ''state'')"
    "map_of F ''pause_owner'' = (if legal then if st = ''paused'' \<and> ar_pauseOwner lease \<noteq> [] then Some (JStr (ar_pauseOwner lease)) else None
       else map_of raw ''pause_owner'')"
    "\<forall>k \<in> {''total'', ''completed'', ''error'', ''gid'', ''task_id'', ''download_url'', ''dir'', ''out'', ''created_at''}.
       map_of F k = map_of raw k"
    by (simp_all add: F_def finish_fields_def legal_def st_def map_of_put_fields map_add_def update_conv' delete_conv')
  note c = field_cong [of F _ raw]
  have fin: "finished r lease status remove = (let r1 = r\<lparr>ar_controlUntil := 0, ar_deleted := ar_deleted r \<or> remove, ar_revision := revision_succ (ar_revision r)\<rparr>
      in if legal then r1\<lparr>ar_status := st, ar_state := normalizeDownloadState st,
                ar_pauseOwner := if st = ''paused'' then ar_pauseOwner lease else []\<rparr> else r1)"
    by (simp add: finished_def legal_def st_def)
  show ?thesis
    using assms fs unfolding aria2_of_json_iff fin F_def [symmetric] by (cases legal; cases remove; cases "st = ''paused''"; cases "ar_pauseOwner lease = []") (simp_all add: c)
qed

subsection \<open>Merged metadata\<close>

lemma map_of_rev_distinct: "distinct (keys xs) \<Longrightarrow> map_of (rev xs) = map_of xs"
  by (metis distinct_rev map_of_inject_set rev_map set_rev)

lemma distinct_aria2_fields [simp]: "distinct (keys (aria2_fields r))"
  by (simp add: aria2_fields_def)

lemma map_of_aria2_fields:
  "map_of (aria2_fields r) ''pause_owner'' = (if ar_pauseOwner r = [] then None else Some (JStr (ar_pauseOwner r)))"
  "map_of (aria2_fields r) ''deleted'' = (if ar_deleted r then Some (JBool True) else None)"
  "map_of (aria2_fields r) ''control_until'' = (if is_zero (ar_controlUntil r) then None else Some (JTime (ar_controlUntil r)))"
  "map_of (aria2_fields r) ''state'' = Some (JStr (ar_state r))"
  "map_of (aria2_fields r) ''revision'' = Some (JNum (int (ar_revision r)))"
  "map_of (aria2_fields r) ''gid'' = Some (JStr (ar_gid r))"
  "map_of (aria2_fields r) ''task_id'' = Some (JStr (ar_taskID r))"
  "map_of (aria2_fields r) ''download_url'' = Some (JStr (ar_url r))"
  "map_of (aria2_fields r) ''dir'' = Some (JStr (ar_dir r))"
  "map_of (aria2_fields r) ''out'' = Some (JStr (ar_out r))"
  "map_of (aria2_fields r) ''created_at'' = Some (JTime (ar_createdAt r))"
  "map_of (aria2_fields r) ''status'' = Some (JStr (ar_status r))"
  "map_of (aria2_fields r) ''total'' = Some (JNum (ar_total r))"
  "map_of (aria2_fields r) ''completed'' = Some (JNum (ar_completed r))"
  "map_of (aria2_fields r) ''error'' = (if ar_error r = [] then None else Some (JStr (ar_error r)))"
  by (simp_all add: aria2_fields_def)

lemma aria2_fields_decode: "observation_ok r \<Longrightarrow> aria2_of_json (aria2_fields r) = Inr r"
  unfolding aria2_of_json_iff observation_ok_def by (simp add: field_defs map_of_aria2_fields nat_less_iff)

text \<open>The record after \<open>Merge\<close> of the metadata \<open>a\<close> into the record \<open>r\<close>.\<close>

definition merged :: "aria2Record \<Rightarrow> aria2Record \<Rightarrow> aria2Record" where
  "merged a r =
     a\<lparr>ar_pauseOwner := if ar_pauseOwner a = [] then ar_pauseOwner r else ar_pauseOwner a,
       ar_deleted := ar_deleted a \<or> ar_deleted r,
       ar_controlUntil := if is_zero (ar_controlUntil a) then ar_controlUntil r else ar_controlUntil a,
       ar_status := if ar_status a = [] then ar_status r else ar_status a,
       ar_state := normalizeDownloadState (if ar_status a = [] then ar_status r else ar_status a),
       ar_revision := revision_succ (ar_revision r),
       ar_total := if ar_status a = [] then ar_total r else ar_total a,
       ar_completed := if ar_status a = [] then ar_completed r else ar_completed a,
       ar_error := if ar_status a = [] \<or> ar_error a = [] then ar_error r else ar_error a\<rparr>"

lemma map_of_delete_fields: "map_of (delete_fields ks fs) k = (if k \<in> set ks then None else map_of fs k)"
  by (induction ks fs rule: delete_fields.induct) (auto simp: delete_conv')

lemma distinct_delete_fields: "distinct (keys fs) \<Longrightarrow> distinct (keys (delete_fields ks fs))"
  by (induction ks fs rule: delete_fields.induct) auto

lemma valid_status: "aria2_valid gid r \<Longrightarrow> ar_status r \<noteq> []"
proof -
  have "normalizeDownloadState [] = downloadUnknown" by code_simp
  then show "aria2_valid gid r \<Longrightarrow> ar_status r \<noteq> []" by (auto simp: aria2_valid_def)
qed

lemma merged_of_json:
  assumes old: "aria2_of_json old = Inr r" "aria2_valid gid r" and a: "observation_ok a"
    and m: "mergeAria2State old (Some (aria2_fields a)) = Inr u"
  shows "aria2_of_json (put_fields u old) = Inr (merged a r)"
    "downloadTransition (ar_state r) (ar_state (merged a r))"
proof -
  define st where "st = (if ar_status a = [] then ar_status r else ar_status a)"
  define v where "v = (if ar_status a = [] then delete_fields [''status'', ''state'', ''total'', ''completed'', ''error''] (aria2_fields a)
    else aria2_fields a)"
  have os: "field_string old ''status'' = Inr (ar_status r)" "field_uint64 old ''revision'' = Inr (ar_revision r)"
    using old(1) by (simp_all add: aria2_of_json_iff)
  have as: "field_string (aria2_fields a) ''status'' = Inr (ar_status a)" by (simp add: map_of_aria2_fields)
  from m have tr: "downloadTransition (normalizeDownloadState (ar_status r)) (normalizeDownloadState st)"
    and u: "u = put_fields [(''state'', JStr (normalizeDownloadState st)), (''revision'', JNum (int (revision_succ (ar_revision r))))] v"
    using valid_status [OF old(2)] unfolding mergeAria2State_def
    by (simp_all add: os as st_def v_def split: if_splits)
  from tr old(2) show "downloadTransition (ar_state r) (ar_state (merged a r))"
    by (simp add: aria2_valid_def merged_def st_def)
  have du: "distinct (keys u)" unfolding u v_def by (simp add: distinct_delete_fields del: delete_fields.simps)
  have mu: "map_of u k = (if k = ''state'' then Some (JStr (normalizeDownloadState st))
      else if k = ''revision'' then Some (JNum (int (revision_succ (ar_revision r)))) else map_of v k)" for k
    unfolding u by (simp add: map_of_put_fields map_add_def)
  have mv: "map_of v k = (if ar_status a = [] \<and> k \<in> {''status'', ''state'', ''total'', ''completed'', ''error''} then None
      else map_of (aria2_fields a) k)" for k
    unfolding v_def by (simp add: map_of_delete_fields del: delete_fields.simps)
  define F where "F = put_fields u old"
  have F: "map_of F k = (case map_of u k of Some x \<Rightarrow> Some x | None \<Rightarrow> map_of old k)" for k
    unfolding F_def map_of_put_fields map_of_rev_distinct [OF du] by (simp add: map_add_def)
  note c = field_cong [of F _ old]
  have "aria2_of_json F = Inr (merged a r)"
    using old(1) a unfolding aria2_of_json_iff observation_ok_def
    by (cases "ar_deleted a") (simp_all add: merged_def c F mu mv map_of_aria2_fields st_def split: if_splits)
  then show "aria2_of_json (put_fields u old) = Inr (merged a r)" by (simp add: F_def)
qed

section \<open>Every change is versioned\<close>

text \<open>
  One transaction of any client on the associations. The records that clients pass are Go values, so their
  counters fit their types.
\<close>

inductive aria2_step :: "(blob \<Rightarrow> string) \<Rightarrow> kv \<Rightarrow> kv \<Rightarrow> bool" for sha where
  merge: "observation_ok a \<Longrightarrow> col_merge aria2 ctx ctx' (ar_gid a) (Doc (JObj (aria2_fields a))) stamp s = (r, s')
    \<Longrightarrow> aria2_step sha s s'"
| sweep: "aria2_cleanup ctx ctx' now ttl s = (r, s') \<Longrightarrow> aria2_step sha s s'"
| list: "col_records aria2 ctx ctx' s = (rs, s') \<Longrightarrow> aria2_step sha s s'"
| remove: "aria2_remove ctx ctx' gid s = (r, s') \<Longrightarrow> aria2_step sha s s'"
| report: "observation_ok obs \<Longrightarrow> aria2_report ctx ctx' now now' obs revision s = (b, s') \<Longrightarrow> aria2_step sha s s'"
| reserve: "reserveControl ctx ctx' now0 now now' expected until s = (x, s') \<Longrightarrow> aria2_step sha s s'"
| finish: "finishControl ctx ctx' now' lease status rm s = (b, s') \<Longrightarrow> aria2_step sha s s'"
| observe: "observation_ok obs \<Longrightarrow> observation_apply sha ctx ctx' lid version obs create now ttl s = (b, s') \<Longrightarrow> aria2_step sha s s'"
| expire: "cleanupLinksAndAria2 ctx ctx' now ttl s = (r, s') \<Longrightarrow> aria2_step sha s s'"
| unlink: "link_remove ctx ctx' lid s = (n, s') \<Longrightarrow> aria2_step sha s s'"

text \<open>What a step may do to the stored record of a download.\<close>

definition versioned :: "string \<Rightarrow> blob option \<Rightarrow> blob option \<Rightarrow> bool" where
  "versioned gid before after \<longleftrightarrow>
     (\<forall>d r. before = Some d \<longrightarrow> decodeAria2Record d gid = Inr r \<longrightarrow> ar_revision r < 2 ^ 64 - 1 \<longrightarrow>
        after = None \<or> after = Some d
        \<or> (\<exists>d' r'. after = Some d' \<and> decodeAria2Record d' gid = Inr r' \<and> ar_revision r' = Suc (ar_revision r)
             \<and> downloadTransition (ar_state r) (ar_state r') \<and> (ar_deleted r \<longrightarrow> ar_deleted r')))"

lemma versioned_refl [simp]: "versioned gid d d" "versioned gid None d" "versioned gid d None"
  by (auto simp: versioned_def)

lemma revision_succ_Suc: "n < 2 ^ 64 - 1 \<Longrightarrow> revision_succ n = Suc n"
  by (simp add: revision_succ_def)

lemma versionedI:
  assumes "unmarshal_object d = Inr fs" "aria2_of_json fs = Inr r" "distinct (keys fs')" "aria2_of_json fs' = Inr r'"
    "aria2_valid gid r \<Longrightarrow> ar_gid r' = ar_gid r \<and> ar_state r' = normalizeDownloadState (ar_status r')
       \<and> ar_revision r' = revision_succ (ar_revision r)
       \<and> normalizeDownloadState (ar_status r') \<noteq> downloadUnknown
       \<and> downloadTransition (ar_state r) (ar_state r') \<and> (ar_deleted r \<longrightarrow> ar_deleted r')"
  shows "versioned gid (Some d) (Some (Doc (JObj fs')))"
proof -
  have "decodeAria2Record (Doc (JObj fs')) gid = Inr r' \<and> ar_revision r' = Suc (ar_revision r)
      \<and> downloadTransition (ar_state r) (ar_state r') \<and> (ar_deleted r \<longrightarrow> ar_deleted r')"
    if "aria2_valid gid r" "ar_revision r < 2 ^ 64 - 1"
    using assms(3,4) assms(5) [OF that(1)] that revision_succ_Suc [OF that(2)]
    by (auto simp: decodeAria2Record_iff aria2_valid_def)
  with assms(1,2) show ?thesis by (auto simp: versioned_def decodeAria2Record_iff)
qed

lemma transition_known: "downloadTransition a b \<Longrightarrow> a \<noteq> downloadUnknown \<Longrightarrow> b \<noteq> downloadUnknown"
  by (auto simp: downloadTransition_def split: if_splits)

lemma aria2_keys: "co_prefix aria2 = aria2Prefix" "co_indexKey aria2 = aria2Index"
  by (simp_all add: hub_selectors hub_keys)

lemma aria2_not_link: "aria2Prefix \<noteq> linkPrefix"
  by (simp add: hub_keys)

lemma mutate_versioned:
  assumes m: "col_mutate aria2 ctx ctx' tid fn s = (res, s')"
    and fn: "\<And>data stamp n st x. fn data stamp = Inr (n, st, x) \<Longrightarrow> \<exists>b. n = Some b \<and> versioned tid (Some data) (Some b)"
  shows "versioned gid (s (aria2Prefix @ gid)) (s' (aria2Prefix @ gid))"
proof (cases res)
  case (Inl e)
  with m ar.mutate_fails have "s' = s" by blast
  then show ?thesis by simp
next
  case (Inr x)
  with m have "col_mutate aria2 ctx ctx' tid fn s = (Inr x, s')" by simp
  then show ?thesis
  proof (cases rule: ar.mutate_cases)
    case (1 ix data n stamp)
    from fn [OF 1(5)] obtain b where b: "n = Some b" "versioned tid (Some data) (Some b)" by blast
    with 1(6) have "s' (aria2Prefix @ gid) = (if gid = tid then Some b else s (aria2Prefix @ gid))"
      by (auto simp: aria2_keys split: if_splits)
    with 1(4) b(2) show ?thesis by (simp add: aria2_keys)
  qed
qed

lemma report_versioned:
  assumes "aria2_report ctx ctx' now now' obs revision s = (b, s')" "observation_ok obs"
  shows "versioned gid (s (aria2Prefix @ gid)) (s' (aria2Prefix @ gid))"
proof (rule mutate_versioned [OF assms(1) [unfolded aria2_report_def]])
  fix data stamp n st x
  assume f: "report_change now now' obs revision data stamp = Inr (n, st, x)"
  show "\<exists>b. n = Some b \<and> versioned (ar_gid obs) (Some data) (Some b)"
  proof (cases x)
    case False
    with f have "n = Some data" by (auto simp: report_change_def and_then_Inr split: if_splits)
    then show ?thesis by simp
  next
    case True
    with f obtain raw r where r: "unmarshal_object data = Inr raw" "aria2_of_json raw = Inr r" "ar_revision r = revision"
      "downloadTransition (normalizeDownloadState (ar_status r)) (normalizeDownloadState (ar_status obs))"
      "n = Some (Doc (JObj (put_fields (observed_fields obs revision) raw)))"
      by (auto simp: report_change_def and_then_Inr decodeAria2Record_iff split: if_splits)
    have "versioned (ar_gid obs) (Some data) (Some (Doc (JObj (put_fields (observed_fields obs revision) raw))))"
      using distinct_unmarshal [OF r(1)] r(3,4) transition_known
      by (intro versionedI [OF r(1,2) _ observed_of_json [OF r(2) assms(2)]]) (auto simp: aria2_valid_def)
    with r(5) show ?thesis by blast
  qed
qed

lemma reserve_versioned:
  assumes "reserveControl ctx ctx' now0 now now' expected until s = (x, s')"
  shows "versioned gid (s (aria2Prefix @ gid)) (s' (aria2Prefix @ gid))"
proof (cases "now0 < until")
  case False
  with assms show ?thesis by (simp add: reserveControl_def)
next
  case True
  with assms obtain res where m: "col_mutate aria2 ctx ctx' (ar_gid expected) (reserve_change now now' expected until) s = (res, s')"
    by (auto simp: reserveControl_def split: prod.splits sum.splits)
  show ?thesis
  proof (rule mutate_versioned [OF m])
    fix data stamp n st y
    assume f: "reserve_change now now' expected until data stamp = Inr (n, st, y)"
    show "\<exists>b. n = Some b \<and> versioned (ar_gid expected) (Some data) (Some b)"
    proof (cases "snd y")
      case False
      with f have "n = Some data" by (auto simp: reserve_change_def and_then_Inr split: if_splits)
      then show ?thesis by simp
    next
      case True
      with f obtain raw r where r: "unmarshal_object data = Inr raw" "aria2_of_json raw = Inr r"
        "n = Some (Doc (JObj (put_fields [(''revision'', JNum (int (revision_succ (ar_revision r)))), (''control_until'', JTime until)] raw)))"
        by (auto simp: reserve_change_def and_then_Inr decodeAria2Record_iff split: if_splits)
      have "versioned (ar_gid expected) (Some data) (Some (Doc (JObj
          (put_fields [(''revision'', JNum (int (revision_succ (ar_revision r)))), (''control_until'', JTime until)] raw))))"
        using distinct_unmarshal [OF r(1)]
        by (intro versionedI [OF r(1,2) _ reserved_of_json [OF r(2)]]) (auto simp: aria2_valid_def downloadTransition_def)
      with r(3) show ?thesis by blast
    qed
  qed
qed

lemma finished_versioned:
  assumes "aria2_valid gid r"
  shows "ar_gid (finished r lease status rm) = ar_gid r \<and> ar_state (finished r lease status rm) = normalizeDownloadState (ar_status (finished r lease status rm))
    \<and> ar_revision (finished r lease status rm) = revision_succ (ar_revision r)
    \<and> normalizeDownloadState (ar_status (finished r lease status rm)) \<noteq> downloadUnknown
    \<and> downloadTransition (ar_state r) (ar_state (finished r lease status rm)) \<and> (ar_deleted r \<longrightarrow> ar_deleted (finished r lease status rm))"
  using assms transition_known [of "normalizeDownloadState (ar_status r)"]
  unfolding finished_def aria2_valid_def Let_def
  by (cases "(if rm then ''removed'' else status) \<noteq> [] \<and> downloadTransition (normalizeDownloadState (ar_status r))
        (normalizeDownloadState (if rm then ''removed'' else status))") (simp_all add: downloadTransition_def [of x x for x])

lemma finish_versioned:
  assumes "finishControl ctx ctx' now' lease status rm s = (b, s')"
  shows "versioned gid (s (aria2Prefix @ gid)) (s' (aria2Prefix @ gid))"
proof -
  from assms obtain res where m: "col_mutate aria2 ctx ctx' (ar_gid lease) (finish_change now' lease status rm) s = (res, s')"
    by (auto simp: finishControl_def split: prod.splits sum.splits)
  show ?thesis
  proof (rule mutate_versioned [OF m])
    fix data stamp n st y
    assume f: "finish_change now' lease status rm data stamp = Inr (n, st, y)"
    show "\<exists>b. n = Some b \<and> versioned (ar_gid lease) (Some data) (Some b)"
    proof (cases y)
      case False
      with f have "n = Some data" by (auto simp: finish_change_def and_then_Inr split: if_splits)
      then show ?thesis by simp
    next
      case True
      with f obtain raw r where r: "unmarshal_object data = Inr raw" "aria2_of_json raw = Inr r"
        "n = Some (Doc (JObj (finish_fields r lease status rm raw)))"
        by (auto simp: finish_change_def and_then_Inr decodeAria2Record_iff split: if_splits)
      have "versioned (ar_gid lease) (Some data) (Some (Doc (JObj (finish_fields r lease status rm raw))))"
        by (rule versionedI [OF r(1,2) distinct_finish [OF distinct_unmarshal [OF r(1)]] finished_of_json [OF r(2)]]) (rule finished_versioned)
      with r(3) show ?thesis by blast
    qed
  qed
qed

lemma sweep_removes:
  assumes "col_sweep aria2 ctx ctx' ex s = (r, s')"
  shows "s' (aria2Prefix @ gid) = s (aria2Prefix @ gid) \<or> s' (aria2Prefix @ gid) = None"
proof (cases r)
  case (Inl e)
  with assms show ?thesis by (auto simp: col_sweep_def dest: ar.run_fails)
next
  case (Inr x)
  with assms have "col_sweep aria2 ctx ctx' ex s = (Inr x, s')" by simp
  then show ?thesis by (cases rule: ar.sweep_cases) (auto simp: aria2_keys split: if_splits)
qed

lemma cleanup_versioned:
  "aria2_cleanup ctx ctx' now ttl s = (r, s') \<Longrightarrow> s' (aria2Prefix @ gid) = s (aria2Prefix @ gid) \<or> s' (aria2Prefix @ gid) = None"
  by (auto simp: aria2_cleanup_def dest: sweep_removes split: if_splits)

lemma merge_versioned:
  assumes m: "col_merge aria2 ctx ctx' tid (Doc (JObj (aria2_fields a))) stamp s = (r, s')" and a: "observation_ok a" "ar_gid a = tid"
  shows "versioned gid (s (aria2Prefix @ gid)) (s' (aria2Prefix @ gid))"
proof (cases r)
  case (Inl e)
  with m show ?thesis by (auto simp: col_merge_def ar.opened dest: ar.run_fails split: if_splits)
next
  case (Inr x)
  with m have "merge_txn aria2 None tid (Doc (JObj (aria2_fields a))) stamp s = Inr (x, s')"
    by (auto simp: col_merge_def ar.opened dest!: ar.run_succeeds split: if_splits)
  then obtain old u where old: "merge_previous aria2 None tid s = Inr old" and u: "mergeAria2State old (Some (aria2_fields a)) = Inr u"
    and s': "s' (aria2Prefix @ gid) = (if gid = tid then Some (Doc (JObj (put_fields u old))) else s (aria2Prefix @ gid))"
    by (auto simp: merge_txn_def and_then_Inr unmarshal_map_def aria2_keys aria2_not_link col_saveIndex_def kv_set_def
        ar.scoped_record [unfolded aria2_keys] ar.scoped_index [unfolded aria2_keys])
  show ?thesis
  proof (cases "gid = tid \<and> s (aria2Prefix @ tid) \<noteq> None")
    case False
    with s' show ?thesis by auto
  next
    case True
    then obtain d where d: "s (aria2Prefix @ tid) = Some d" by auto
    with old obtain r0 where r0: "unmarshal_object d = Inr old" "aria2_of_json old = Inr r0" "aria2_valid tid r0"
      by (auto simp: merge_previous_def aria2_keys ar.scoped_record [unfolded aria2_keys] kv_get_def and_then_Inr decodeAria2Record_iff)
    have "versioned tid (Some d) (Some (Doc (JObj (put_fields u old))))"
    proof (rule versionedI [OF r0(1,2) _ merged_of_json(1) [OF r0(2,3) a(1) u]])
      show "distinct (keys (put_fields u old))" using distinct_unmarshal [OF r0(1)] by simp
      show "ar_gid (merged a r0) = ar_gid r0 \<and> ar_state (merged a r0) = normalizeDownloadState (ar_status (merged a r0))
        \<and> ar_revision (merged a r0) = revision_succ (ar_revision r0) \<and> normalizeDownloadState (ar_status (merged a r0)) \<noteq> downloadUnknown
        \<and> downloadTransition (ar_state r0) (ar_state (merged a r0)) \<and> (ar_deleted r0 \<longrightarrow> ar_deleted (merged a r0))"
        using merged_of_json(2) [OF r0(2,3) a(1) u] r0(3) a(2) transition_known [of "ar_state r0" "ar_state (merged a r0)"]
        by (auto simp: aria2_valid_def merged_def)
    qed
    with s' d True show ?thesis by simp
  qed
qed

text \<open>\<open>Add\<close> and \<open>Records\<close> are sequences of such transactions.\<close>

lemma add_steps:
  assumes "aria2_add p q created now ttl a s = (r, s')" "observation_ok a"
  shows "(aria2_step sha)\<^sup>*\<^sup>* s s'"
proof (cases "ar_gid a = []")
  case True
  with assms(1) show ?thesis by (simp add: aria2_add_def)
next
  case False
  define a1 where "a1 = (if ar_createdAt a = 0 then a\<lparr>ar_createdAt := created\<rparr> else a)"
  obtain r1 s1 where c: "aria2_cleanup (fst p) (snd p) now ttl s = (r1, s1)" by fastforce
  have ok: "observation_ok a1" using assms(2) by (simp add: a1_def observation_ok_def)
  show ?thesis
  proof (cases r1)
    case (Inl e)
    with assms(1) c False aria2_step.sweep [OF c] show ?thesis by (auto simp: aria2_add_def)
  next
    case (Inr y)
    with assms(1) c False have "col_merge aria2 (fst q) (snd q) (ar_gid a1) (Doc (JObj (aria2_fields a1))) (ar_createdAt a1) s1 = (r, s')"
      by (simp add: aria2_add_def a1_def)
    from aria2_step.merge [OF ok this] aria2_step.sweep [OF c] show ?thesis
      by (meson r_into_rtranclp rtranclp.rtrancl_into_rtrancl)
  qed
qed

lemma records_steps:
  assumes "aria2_records p q now ttl s = (r, s')"
  shows "(aria2_step sha)\<^sup>*\<^sup>* s s'"
proof -
  obtain r1 s1 where c: "aria2_cleanup (fst p) (snd p) now ttl s = (r1, s1)" by fastforce
  obtain r2 s2 where l: "col_records aria2 (fst q) (snd q) s1 = (r2, s2)" by fastforce
  from assms c l have "s' = s1 \<or> s' = s2" by (cases r1; cases r2) (auto simp: aria2_records_def)
  with aria2_step.sweep [OF c] aria2_step.list [OF l] show ?thesis
    by (meson r_into_rtranclp rtranclp.rtrancl_into_rtrancl)
qed

lemma records_same:
  assumes "col_records aria2 ctx ctx' s = (r, s')"
  shows "s' (aria2Prefix @ gid) = s (aria2Prefix @ gid)"
proof (cases r)
  case (Inl e)
  with assms show ?thesis by (auto simp: col_records_def dest: ar.run_fails)
next
  case (Inr x)
  with assms have "records_txn aria2 None s = Inr (x, s')" by (auto simp: col_records_def dest!: ar.run_succeeds)
  then show ?thesis by (auto simp: records_txn_def and_then_Inr col_saveIndex_def kv_set_def aria2_keys
      ar.scoped_index [unfolded aria2_keys] split: if_splits)
qed

lemma remove_removes:
  assumes "aria2_remove ctx ctx' tid s = (r, s')"
  shows "s' (aria2Prefix @ gid) = s (aria2Prefix @ gid) \<or> s' (aria2Prefix @ gid) = None"
proof (cases r)
  case (Inl e)
  with assms show ?thesis by (auto simp: aria2_remove_def col_remove_def dest: ar.run_fails split: if_splits)
next
  case (Inr x)
  with assms have "s' = s \<or> remove_txn aria2 None tid s = Inr (x, s')"
    by (auto simp: aria2_remove_def col_remove_def dest!: ar.run_succeeds split: if_splits)
  then show ?thesis by (auto simp: remove_txn_def and_then_Inr col_saveIndex_def kv_set_def kv_delete_def aria2_keys
      ar.scoped_index [unfolded aria2_keys] ar.scoped_record [unfolded aria2_keys] split: if_splits)
qed

lemma unlink_removes:
  assumes "link_remove ctx ctx' lid s = (n, s')"
  shows "s' (aria2Prefix @ gid) = s (aria2Prefix @ gid) \<or> s' (aria2Prefix @ gid) = None"
proof (cases n)
  case (Inl e)
  with assms show ?thesis by (auto simp: link_remove_def split: if_splits dest: update_fails)
next
  case (Inr m)
  with assms have "storage_update ctx (\<lambda>ctx. memory_update ctx ctx') (link_remove_txn ctx lid) s = (Inr m, s')"
    by (auto simp: link_remove_def split: if_splits)
  from update_succeeds [OF this] obtain ai kept k s1 where ai: "index_is aria2 s ai" and un: "unlink_loop None lid ai s = Inr (kept, k, s1)"
    and s': "s' (aria2Prefix @ gid) = s1 (aria2Prefix @ gid)"
    unfolding link_remove_txn_def raw_index(2) [symmetric]
    by (auto simp: and_then_Inr kv_get_def kv_delete_def kv_set_def col_saveIndex_def split: option.splits)
  from unlink_loop_spec [OF ar.index_is_distinct [OF ai] un] s' show ?thesis by auto
qed

lemma expire_removes:
  assumes "cleanupLinksAndAria2 ctx ctx' now ttl s = (r, s')"
  shows "s' (aria2Prefix @ gid) = s (aria2Prefix @ gid) \<or> s' (aria2Prefix @ gid) = None"
proof (cases r)
  case (Inl e)
  with assms show ?thesis by (auto simp: cleanupLinksAndAria2_def dest: update_fails)
next
  case (Inr u)
  from update_succeeds [OF assms [unfolded cleanupLinksAndAria2_def Inr]]
  obtain li ai lkept s1 akept s2 where ix: "index_is links s li" "index_is aria2 s ai"
    and l: "cleanup_links None now ttl li s = Inr (lkept, s1)" and a: "cleanup_aria2 None now ttl ai s1 = Inr (akept, s2)"
    and s': "s' (aria2Prefix @ gid) = s2 (aria2Prefix @ gid)"
    unfolding cleanup_txn_def raw_index [symmetric] by (auto simp: and_then_Inr kv_set_def col_saveIndex_def)
  from cleanup_links_spec [OF lk.index_is_distinct [OF ix(1)] l] cleanup_aria2_spec [OF ar.index_is_distinct [OF ix(2)] a] s'
  show ?thesis by auto
qed

lemma apply_declined: "apply_txn sha ctx lid version obs create now ttl s = Inr (False, s') \<Longrightarrow> s' = s"
  by (auto simp: apply_txn_def and_then_Inr split: option.splits)

lemma apply_cases:
  assumes "observation_apply sha ctx ctx' lid version obs create now ttl s = (b, s')"
  obtains (declined) "b \<noteq> Inr True" "s' = s"
  | (applied) "b = Inr True" "apply_txn sha None lid version obs create now ttl s = Inr (True, s')"
proof (cases "b = Inr True")
  case True
  with assms have "storage_update ctx (\<lambda>ctx. memory_update ctx ctx') (apply_txn sha ctx lid version obs create now ttl) s = (Inr True, s')"
    by (auto simp: observation_apply_def split: if_splits)
  from update_succeeds [OF this] True that(2) show ?thesis by blast
next
  case False
  have "s' = s"
  proof (cases b)
    case (Inl e)
    with assms show ?thesis by (auto simp: observation_apply_def split: if_splits dest: update_fails)
  next
    case (Inr x)
    with False assms have "storage_update ctx (\<lambda>ctx. memory_update ctx ctx') (apply_txn sha ctx lid version obs create now ttl) s = (Inr False, s')"
      by (auto simp: observation_apply_def split: if_splits)
    from update_succeeds [OF this] apply_declined show ?thesis by blast
  qed
  with False that(1) show ?thesis by blast
qed

lemma apply_applied:
  assumes "apply_txn sha None lid version obs create now ttl s = Inr (True, s')"
  obtains linkData raw obs1 where "apply_link_read sha None lid version obs create s = Inr (Some linkData)"
    "apply_record now obs create (kv_get None (aria2Prefix @ ar_gid obs) s) = Inr (Some (raw, obs1))" "ar_gid obs1 = ar_gid obs"
    "s' (aria2Prefix @ ar_gid obs) = Some (Doc (JObj (put_fields (observed_fields obs1 (ar_revision obs1)) raw)))"
    "\<forall>k. k \<notin> {aria2Prefix @ ar_gid obs, aria2Index, linkPrefix @ lid, linkIndex} \<longrightarrow> s' k = s k"
proof -
  have gid: "ar_gid obs1 = ar_gid obs" if "apply_record now obs create got = Inr (Some (raw, obs1))" for got raw obs1
    using that by (auto simp: apply_record_def and_then_Inr split: sum.splits if_splits)
  from assms show ?thesis
    by (auto simp: apply_txn_def and_then_Inr kv_set_def col_saveIndex_def gid split: option.splits prod.splits if_splits
        intro!: that)
qed

lemma apply_versioned:
  assumes "observation_apply sha ctx ctx' lid version obs create now ttl s = (b, s')" "observation_ok obs"
  shows "versioned gid (s (aria2Prefix @ gid)) (s' (aria2Prefix @ gid))"
  using assms(1)
proof (cases rule: apply_cases)
  case declined
  then show ?thesis by simp
next
  case applied
  from apply_applied [OF applied(2)] obtain raw obs1 where r: "apply_record now obs create (kv_get None (aria2Prefix @ ar_gid obs) s) = Inr (Some (raw, obs1))"
    and g: "s' (aria2Prefix @ ar_gid obs) = Some (Doc (JObj (put_fields (observed_fields obs1 (ar_revision obs1)) raw)))"
    and o: "\<forall>k. k \<notin> {aria2Prefix @ ar_gid obs, aria2Index, linkPrefix @ lid, linkIndex} \<longrightarrow> s' k = s k" by metis
  show ?thesis
  proof (cases "gid = ar_gid obs \<and> s (aria2Prefix @ gid) \<noteq> None")
    case False
    with o show ?thesis by (cases "gid = ar_gid obs") auto
  next
    case True
    then obtain d where d: "s (aria2Prefix @ ar_gid obs) = Some d" by auto
    with r obtain cur where cur: "unmarshal_object d = Inr raw" "aria2_of_json raw = Inr cur" "obs1 = obs" "ar_revision cur = ar_revision obs"
      "downloadTransition (normalizeDownloadState (ar_status cur)) (normalizeDownloadState (ar_status obs))"
      by (auto simp: apply_record_def kv_get_def and_then_Inr decodeAria2Record_iff split: if_splits)
    have "versioned (ar_gid obs) (Some d) (Some (Doc (JObj (put_fields (observed_fields obs (ar_revision obs)) raw))))"
      using distinct_unmarshal [OF cur(1)] cur(4,5) transition_known
      by (intro versionedI [OF cur(1,2) _ observed_of_json [OF cur(2) assms(2)]]) (auto simp: aria2_valid_def)
    with g d cur(3) True show ?thesis by simp
  qed
qed

lemma step_versioned:
  assumes "aria2_step sha s s'"
  shows "versioned gid (s (aria2Prefix @ gid)) (s' (aria2Prefix @ gid))"
  using assms
proof cases
  case (merge a ctx ctx' stamp r)
  then show ?thesis by (intro merge_versioned) auto
next
  case sweep
  then show ?thesis using cleanup_versioned by (metis versioned_refl(1,3))
next
  case list
  then show ?thesis by (simp add: records_same)
next
  case remove
  then show ?thesis using remove_removes by (metis versioned_refl(1,3))
next
  case report
  then show ?thesis by (intro report_versioned)
next
  case reserve
  then show ?thesis by (rule reserve_versioned)
next
  case finish
  then show ?thesis by (rule finish_versioned)
next
  case observe
  then show ?thesis by (intro apply_versioned)
next
  case expire
  then show ?thesis using expire_removes by (metis versioned_refl(1,3))
next
  case unlink
  then show ?thesis using unlink_removes by (metis versioned_refl(1,3))
qed

section \<open>Fencing\<close>

definition revision_between :: "string \<Rightarrow> nat \<Rightarrow> nat \<Rightarrow> kv \<Rightarrow> bool" where
  "revision_between gid lo hi s \<longleftrightarrow>
     (\<exists>d r. s (aria2Prefix @ gid) = Some d \<and> decodeAria2Record d gid = Inr r \<and> lo \<le> ar_revision r \<and> ar_revision r \<le> hi)"

lemma reserved_revision:
  assumes "reserveControl ctx ctx' now0 now now' expected until s = (Inr (lease, True), s')" "ar_revision expected + 1 < 2 ^ 64"
  shows "revision_between (ar_gid expected) (Suc (ar_revision expected)) (Suc (ar_revision expected)) s'"
proof -
  from assms(1) have "col_mutate aria2 ctx ctx' (ar_gid expected) (reserve_change now now' expected until) s = (Inr (lease, True), s')"
    by (auto simp: reserveControl_def split: if_splits prod.splits sum.splits)
  then show ?thesis
  proof (cases rule: ar.mutate_cases)
    case (1 ix data n stamp)
    from 1(5) obtain raw r where r: "unmarshal_object data = Inr raw" "aria2_of_json raw = Inr r" "aria2_valid (ar_gid expected) r"
      "ar_revision r = ar_revision expected"
      "n = Some (Doc (JObj (put_fields [(''revision'', JNum (int (revision_succ (ar_revision r)))), (''control_until'', JTime until)] raw)))"
      by (auto simp: reserve_change_def and_then_Inr decodeAria2Record_iff split: if_splits)
    have "revision_succ (ar_revision r) = Suc (ar_revision expected)" using assms(2) r(4) by (simp add: revision_succ_def)
    with r(3) reserved_of_json [OF r(2), of "ar_revision r" until] distinct_unmarshal [OF r(1)]
    have "decodeAria2Record (the n) (ar_gid expected) = Inr (r\<lparr>ar_revision := Suc (ar_revision expected), ar_controlUntil := until\<rparr>)"
      by (auto simp: decodeAria2Record_iff r(5) aria2_valid_def)
    moreover have "s' (aria2Prefix @ ar_gid expected) = n" using 1(6) r(5) by (auto simp: aria2_keys split: if_splits)
    ultimately show ?thesis using r(5) by (auto simp: revision_between_def)
  qed
qed

lemma revisions_grow:
  assumes "((\<lambda>s s'. aria2_step sha s s' \<and> s' (aria2Prefix @ gid) \<noteq> None) ^^ n) s s'" "revision_between gid lo hi s" "hi + n < 2 ^ 64 - 1"
  shows "revision_between gid lo (hi + n) s'"
  using assms(1,3)
proof (induction n arbitrary: s')
  case 0
  with assms(2) show ?case by simp
next
  case (Suc n)
  from Suc.prems(1) obtain t where t: "((\<lambda>s s'. aria2_step sha s s' \<and> s' (aria2Prefix @ gid) \<noteq> None) ^^ n) s t"
    "aria2_step sha t s'" "s' (aria2Prefix @ gid) \<noteq> None" by auto
  from Suc.IH [OF t(1)] Suc.prems(2) obtain d r where d: "t (aria2Prefix @ gid) = Some d" "decodeAria2Record d gid = Inr r"
    "lo \<le> ar_revision r" "ar_revision r \<le> hi + n" unfolding revision_between_def by auto
  have "ar_revision r < 2 ^ 64 - 1" using d(4) Suc.prems(2) by simp
  with step_versioned [OF t(2), of gid] d(1,2) t(3)
  have "s' (aria2Prefix @ gid) = Some d \<or> (\<exists>d' r'. s' (aria2Prefix @ gid) = Some d' \<and> decodeAria2Record d' gid = Inr r'
      \<and> ar_revision r' = Suc (ar_revision r))" by (auto simp: versioned_def)
  then show ?case
  proof
    assume "s' (aria2Prefix @ gid) = Some d"
    with d show ?thesis unfolding revision_between_def by (metis add_leD1 le_add1 nat_add_left_cancel_le add_Suc_right le_SucI)
  next
    assume "\<exists>d' r'. s' (aria2Prefix @ gid) = Some d' \<and> decodeAria2Record d' gid = Inr r' \<and> ar_revision r' = Suc (ar_revision r)"
    then obtain d' r' where "s' (aria2Prefix @ gid) = Some d'" "decodeAria2Record d' gid = Inr r'" "ar_revision r' = Suc (ar_revision r)" by blast
    with d show ?thesis unfolding revision_between_def by (intro exI [of _ d'] exI [of _ r']) simp
  qed
qed

lemma unchanged_mutation:
  assumes "col_mutate aria2 ctx ctx' tid fn s = (b, s')" "s (aria2Prefix @ tid) = Some d"
    and "\<And>stamp n st x. fn d stamp = Inr (n, st, x) \<Longrightarrow> n = Some d \<and> P x"
  shows "(\<forall>k. k \<noteq> aria2Index \<longrightarrow> s' k = s k) \<and> (\<forall>x. b = Inr x \<longrightarrow> P x)"
proof (cases b)
  case (Inl e)
  with assms(1) show ?thesis by (auto dest: ar.mutate_fails)
next
  case (Inr x)
  with assms(1) have "col_mutate aria2 ctx ctx' tid fn s = (Inr x, s')" by simp
  then show ?thesis
  proof (cases rule: ar.mutate_cases)
    case (1 ix data n stamp)
    with assms(2) have "data = d" by (simp add: aria2_keys)
    with 1(5) assms(3) have "n = Some d" "P x" by blast+
    with 1(6) assms(2) Inr show ?thesis by (auto simp: aria2_keys split: if_splits)
  qed
qed

text \<open>C10: a reserved control call fences off everybody who looked before it: after \<open>ReserveControl\<close> succeeded,
  and however many transactions of whatever clients followed while the record existed, a report, an
  observation or another control call that names the revision the caller saw, or an older one, is not
  applied and leaves the record (and everything but the index) as it is.\<close>

theorem stale_observation_never_applied:
  assumes "reserveControl ctx ctx' now0 now now' expected until s0 = (Inr (lease, True), s1)"
    and "((\<lambda>s s'. aria2_step sha s s' \<and> s' (aria2Prefix @ ar_gid expected) \<noteq> None) ^^ n) s1 s"
    and "ar_revision expected + n + 2 < 2 ^ 64"
    and "ar_gid obs = ar_gid expected" and "revision \<le> ar_revision expected" and "ar_revision obs = revision"
  shows "(\<forall>c c' t t' b s'. aria2_report c c' t t' obs revision s = (b, s') \<longrightarrow>
            b \<noteq> Inr True \<and> (\<forall>k. k \<noteq> aria2Index \<longrightarrow> s' k = s k))
       \<and> (\<forall>c c' lid v create t ttl b s'. observation_apply sha c c' lid v obs create t ttl s = (b, s') \<longrightarrow> b \<noteq> Inr True \<and> s' = s)
       \<and> (\<forall>c c' t status rm b s'. finishControl c c' t obs status rm s = (b, s') \<longrightarrow>
            b \<noteq> Inr True \<and> (\<forall>k. k \<noteq> aria2Index \<longrightarrow> s' k = s k))
       \<and> (\<forall>c c' t0 t t' u l s'. reserveControl c c' t0 t t' obs u s \<noteq> (Inr (l, True), s'))"
proof (intro conjI)
  have "revision_between (ar_gid expected) (Suc (ar_revision expected)) (Suc (ar_revision expected)) s1"
    using reserved_revision [OF assms(1)] assms(3) by simp
  from revisions_grow [OF assms(2) this] assms(3) obtain d r where d: "s (aria2Prefix @ ar_gid obs) = Some d"
    "decodeAria2Record d (ar_gid obs) = Inr r" "ar_revision r \<noteq> revision"
    using assms(4,5) by (auto simp: revision_between_def)
  show "\<forall>c c' t t' b s'. aria2_report c c' t t' obs revision s = (b, s') \<longrightarrow>
           b \<noteq> Inr True \<and> (\<forall>k. k \<noteq> aria2Index \<longrightarrow> s' k = s k)"
  proof (intro allI impI)
    fix c c' t t' b s'
    assume m: "aria2_report c c' t t' obs revision s = (b, s')"
    have "(\<forall>k. k \<noteq> aria2Index \<longrightarrow> s' k = s k) \<and> (\<forall>x. b = Inr x \<longrightarrow> \<not> x)"
      by (rule unchanged_mutation [OF m [unfolded aria2_report_def] d(1)]) (use d in \<open>simp add: report_change_def\<close>)
    then show "b \<noteq> Inr True \<and> (\<forall>k. k \<noteq> aria2Index \<longrightarrow> s' k = s k)" by auto
  qed
  show "\<forall>c c' t status rm b s'. finishControl c c' t obs status rm s = (b, s') \<longrightarrow>
           b \<noteq> Inr True \<and> (\<forall>k. k \<noteq> aria2Index \<longrightarrow> s' k = s k)"
  proof (intro allI impI)
    fix c c' t status rm b s'
    assume f: "finishControl c c' t obs status rm s = (b, s')"
    then obtain res where m: "col_mutate aria2 c c' (ar_gid obs) (finish_change t obs status rm) s = (res, s')"
      by (auto simp: finishControl_def split: prod.splits sum.splits)
    have "(\<forall>k. k \<noteq> aria2Index \<longrightarrow> s' k = s k) \<and> (\<forall>x. res = Inr x \<longrightarrow> \<not> x)"
      by (rule unchanged_mutation [OF m d(1)]) (use d assms(6) in \<open>simp add: finish_change_def\<close>)
    with f m show "b \<noteq> Inr True \<and> (\<forall>k. k \<noteq> aria2Index \<longrightarrow> s' k = s k)"
      by (cases res) (auto simp: finishControl_def split: if_splits)
  qed
  show "\<forall>c c' t0 t t' u l s'. reserveControl c c' t0 t t' obs u s \<noteq> (Inr (l, True), s')"
  proof (intro allI notI)
    fix c c' t0 t t' u l s'
    assume "reserveControl c c' t0 t t' obs u s = (Inr (l, True), s')"
    then have m: "col_mutate aria2 c c' (ar_gid obs) (reserve_change t t' obs u) s = (Inr (l, True), s')"
      by (auto simp: reserveControl_def split: if_splits prod.splits sum.splits)
    have "(\<forall>k. k \<noteq> aria2Index \<longrightarrow> s' k = s k) \<and> (\<forall>x. Inr (l, True) = (Inr x :: (aria2Record \<times> bool) res) \<longrightarrow> \<not> snd x)"
      by (rule unchanged_mutation [OF m d(1)]) (use d assms(6) in \<open>simp add: reserve_change_def\<close>)
    then show False by simp
  qed
  show "\<forall>c c' lid v create t ttl b s'. observation_apply sha c c' lid v obs create t ttl s = (b, s') \<longrightarrow> b \<noteq> Inr True \<and> s' = s"
  proof (intro allI impI)
    fix c c' lid v create t ttl b s'
    assume "observation_apply sha c c' lid v obs create t ttl s = (b, s')"
    then show "b \<noteq> Inr True \<and> s' = s"
    proof (cases rule: apply_cases)
      case declined
      then show ?thesis by simp
    next
      case applied
      from apply_applied [OF applied(2)] obtain raw obs1
        where "apply_record t obs create (kv_get None (aria2Prefix @ ar_gid obs) s) = Inr (Some (raw, obs1))" by metis
      with d assms(6) show ?thesis by (auto simp: apply_record_def kv_get_def split: if_splits)
    qed
  qed
qed

text \<open>\<open>Apply\<close> accepts an observation exactly when it is current: unless it fails, an observation of a known
  download is applied if and only if the stored record is no tombstone, has the observed revision and
  task, is under no control lease and may change to the observed state, and the link it was matched with
  still has the observed version; a new association is only created for a link that is still there and if
  there is none. An accepted observation stores the observed progress under the next revision and changes
  nothing but this record, the link and the two indexes; one that is not accepted changes nothing.\<close>

theorem observation_applied_iff_current:
  assumes "observation_apply sha None None lid version obs create now ttl s = (Inr b, s')" and "observation_ok obs"
  shows "(b \<longleftrightarrow> (lid \<noteq> [] \<or> \<not> create) \<and> (lid \<noteq> [] \<longrightarrow> (\<exists>ld. s (linkPrefix @ lid) = Some ld \<and> linkVersion sha ld = version))
      \<and> (if create then s (aria2Prefix @ ar_gid obs) = None
         else \<exists>d r. s (aria2Prefix @ ar_gid obs) = Some d \<and> decodeAria2Record d (ar_gid obs) = Inr r
           \<and> \<not> ar_deleted r \<and> ar_revision r = ar_revision obs \<and> ar_controlUntil r \<le> now \<and> ar_taskID r = ar_taskID obs
           \<and> downloadTransition (ar_state r) (normalizeDownloadState (ar_status obs))))
    \<and> (b \<longrightarrow> (\<exists>d' fs r'. s' (aria2Prefix @ ar_gid obs) = Some d' \<and> unmarshal_object d' = Inr fs \<and> aria2_of_json fs = Inr r'
           \<and> ar_status r' = ar_status obs \<and> ar_state r' = normalizeDownloadState (ar_status obs) \<and> ar_total r' = ar_total obs
           \<and> ar_completed r' = ar_completed obs \<and> ar_revision r' = (ar_revision obs + 1) mod 2 ^ 64))
    \<and> (b \<longrightarrow> (\<forall>k. k \<notin> {aria2Prefix @ ar_gid obs, aria2Index, linkPrefix @ lid, linkIndex} \<longrightarrow> s' k = s k))
    \<and> (\<not> b \<longrightarrow> s' = s)"
proof (intro conjI)
  show "\<not> b \<longrightarrow> s' = s" using assms(1) by (cases rule: apply_cases) auto
  from assms(1) have txn: "apply_txn sha None lid version obs create now ttl s = Inr (b, s')"
    by (auto simp: observation_apply_def split: if_splits dest: update_succeeds)
  have st: "ar_state r = normalizeDownloadState (ar_status r)" if "decodeAria2Record d g = Inr r" for d g r
    using that by (auto simp: decodeAria2Record_iff aria2_valid_def)
  from txn show "b \<longleftrightarrow> (lid \<noteq> [] \<or> \<not> create) \<and> (lid \<noteq> [] \<longrightarrow> (\<exists>ld. s (linkPrefix @ lid) = Some ld \<and> linkVersion sha ld = version))
      \<and> (if create then s (aria2Prefix @ ar_gid obs) = None
         else \<exists>d r. s (aria2Prefix @ ar_gid obs) = Some d \<and> decodeAria2Record d (ar_gid obs) = Inr r
           \<and> \<not> ar_deleted r \<and> ar_revision r = ar_revision obs \<and> ar_controlUntil r \<le> now \<and> ar_taskID r = ar_taskID obs
           \<and> downloadTransition (ar_state r) (normalizeDownloadState (ar_status obs)))"
    unfolding apply_txn_def
    by (auto simp: and_then_Inr apply_link_read_def apply_record_def kv_get_def st not_less split: if_splits option.splits)
  have "(\<exists>d' fs r'. s' (aria2Prefix @ ar_gid obs) = Some d' \<and> unmarshal_object d' = Inr fs \<and> aria2_of_json fs = Inr r'
           \<and> ar_status r' = ar_status obs \<and> ar_state r' = normalizeDownloadState (ar_status obs) \<and> ar_total r' = ar_total obs
           \<and> ar_completed r' = ar_completed obs \<and> ar_revision r' = (ar_revision obs + 1) mod 2 ^ 64)
      \<and> (\<forall>k. k \<notin> {aria2Prefix @ ar_gid obs, aria2Index, linkPrefix @ lid, linkIndex} \<longrightarrow> s' k = s k)" if b
  proof -
    from that txn have "apply_txn sha None lid version obs create now ttl s = Inr (True, s')" by simp
    from apply_applied [OF this] obtain raw obs1 where r: "apply_record now obs create (kv_get None (aria2Prefix @ ar_gid obs) s) = Inr (Some (raw, obs1))"
      and g: "s' (aria2Prefix @ ar_gid obs) = Some (Doc (JObj (put_fields (observed_fields obs1 (ar_revision obs1)) raw)))"
      and o: "\<forall>k. k \<notin> {aria2Prefix @ ar_gid obs, aria2Index, linkPrefix @ lid, linkIndex} \<longrightarrow> s' k = s k" by metis
    from r obtain cur where cur: "distinct (keys raw)" "aria2_of_json raw = Inr cur" "observation_ok obs1" "ar_status obs1 = ar_status obs"
      "ar_total obs1 = ar_total obs" "ar_completed obs1 = ar_completed obs" "ar_revision obs1 = ar_revision obs"
      using assms(2) aria2_fields_decode [of obs1]
      by (auto simp: apply_record_def observation_ok_def kv_get_def and_then_Inr decodeAria2Record_iff dest: distinct_unmarshal
          split: sum.splits if_splits option.splits)
    show ?thesis
      using g o observed_of_json [OF cur(2,3), of "ar_revision obs1"] cur by (simp add: revision_succ_def)
  qed
  then show "b \<longrightarrow> (\<exists>d' fs r'. s' (aria2Prefix @ ar_gid obs) = Some d' \<and> unmarshal_object d' = Inr fs \<and> aria2_of_json fs = Inr r'
           \<and> ar_status r' = ar_status obs \<and> ar_state r' = normalizeDownloadState (ar_status obs) \<and> ar_total r' = ar_total obs
           \<and> ar_completed r' = ar_completed obs \<and> ar_revision r' = (ar_revision obs + 1) mod 2 ^ 64)"
    "b \<longrightarrow> (\<forall>k. k \<notin> {aria2Prefix @ ar_gid obs, aria2Index, linkPrefix @ lid, linkIndex} \<longrightarrow> s' k = s k)" by blast+
qed

definition sample_aria2 :: aria2Record where
  "sample_aria2 = aria2_zero\<lparr>ar_gid := ''g'', ar_taskID := ''t'', ar_status := ''active'', ar_state := ''active'', ar_revision := 3\<rparr>"

definition sample_aria2_store :: kv where
  "sample_aria2_store = [aria2Prefix @ ''g'' \<mapsto> Doc (JObj (aria2_fields sample_aria2)), aria2Index \<mapsto> index_json [(''g'', 5)]]"

lemma sample_aria2_facts:
  "observation_ok sample_aria2" "ar_gid sample_aria2 = ''g''" "ar_taskID sample_aria2 = ''t''" "ar_revision sample_aria2 = 3"
  "\<not> ar_deleted sample_aria2" "ar_controlUntil sample_aria2 = 0" "ar_state sample_aria2 = ''active''"
  "ar_status sample_aria2 = ''active''" "normalizeDownloadState ''active'' = ''active''"
  "decodeAria2Record (Doc (JObj (aria2_fields sample_aria2))) ''g'' = Inr sample_aria2"
  "sample_aria2_store (aria2Prefix @ ''g'') = Some (Doc (JObj (aria2_fields sample_aria2)))"
  "index_is aria2 sample_aria2_store [(''g'', 5)]"
proof -
  show f: "observation_ok sample_aria2" "ar_gid sample_aria2 = ''g''" "ar_taskID sample_aria2 = ''t''" "ar_revision sample_aria2 = 3"
    "\<not> ar_deleted sample_aria2" "ar_controlUntil sample_aria2 = 0" "ar_state sample_aria2 = ''active''"
    "ar_status sample_aria2 = ''active''"
    by (simp_all add: sample_aria2_def aria2_zero_def observation_ok_def)
  show n: "normalizeDownloadState ''active'' = ''active''" by code_simp
  show "decodeAria2Record (Doc (JObj (aria2_fields sample_aria2))) ''g'' = Inr sample_aria2"
    using aria2_fields_decode [OF f(1)] f n by (simp add: decodeAria2Record_iff aria2_valid_def downloadUnknown_def)
  show "sample_aria2_store (aria2Prefix @ ''g'') = Some (Doc (JObj (aria2_fields sample_aria2)))"
    by (simp add: sample_aria2_store_def hub_keys)
  show "index_is aria2 sample_aria2_store [(''g'', 5)]"
    using ar.index_is_saved [of "[(''g'', 5)]"] unfolding aria2_keys sample_aria2_store_def by simp
qed

theorem stale_observation_never_applied_witness:
  "\<exists>lease s1. reserveControl None None 1 1 1 sample_aria2 100 sample_aria2_store = (Inr (lease, True), s1)
     \<and> fst (aria2_report None None 1 1 sample_aria2 3 s1) \<noteq> Inr True"
proof -
  note f = sample_aria2_facts
  let ?lease = "sample_aria2\<lparr>ar_revision := revision_succ 3, ar_controlUntil := 100\<rparr>"
  let ?b = "Doc (JObj (put_fields [(''revision'', JNum (int (revision_succ 3))), (''control_until'', JTime 100)] (aria2_fields sample_aria2)))"
  have "reserve_change 1 1 sample_aria2 100 (Doc (JObj (aria2_fields sample_aria2))) t = Inr (Some ?b, 1, ?lease, True)" for t
    by (simp add: reserve_change_def f)
  then have "\<exists>s1. col_mutate aria2 None None ''g'' (reserve_change 1 1 sample_aria2 100) sample_aria2_store = (Inr (?lease, True), s1)"
    by (intro ar.mutate_runs [OF f(12), where b = ?b]) (simp_all add: aria2_keys f json_valid_def)
  then obtain s1 where r: "reserveControl None None 1 1 1 sample_aria2 100 sample_aria2_store = (Inr (?lease, True), s1)"
    by (auto simp: reserveControl_def f)
  have "((\<lambda>s s'. aria2_step (\<lambda>_. []) s s' \<and> s' (aria2Prefix @ ar_gid sample_aria2) \<noteq> None) ^^ 0) s1 s1" by simp
  from stale_observation_never_applied [OF r this _ refl _ f(4)]
  have "\<forall>b s'. aria2_report None None 1 1 sample_aria2 3 s1 = (b, s') \<longrightarrow> b \<noteq> Inr True" by (simp add: f)
  then have "fst (aria2_report None None 1 1 sample_aria2 3 s1) \<noteq> Inr True" by (metis prod.collapse)
  with r show ?thesis by blast
qed

theorem observation_applied_iff_current_witness:
  "fst (observation_apply (\<lambda>_. []) None None [] [] sample_aria2 False 10 0 sample_aria2_store) = Inr True"
proof -
  note f = sample_aria2_facts
  have "\<exists>b. fst (observation_apply (\<lambda>_. []) None None [] [] sample_aria2 False 10 0 sample_aria2_store) = Inr b"
    using f(12) unfolding raw_index(2) [symmetric]
    by (simp add: observation_apply_def storage_update_def memory_update_def apply_txn_def apply_link_read_def apply_record_def
        kv_get_def kv_set_def col_index_def col_saveIndex_def downloadTransition_def f) blast
  then obtain b s' where r: "observation_apply (\<lambda>_. []) None None [] [] sample_aria2 False 10 0 sample_aria2_store = (Inr b, s')"
    by (metis prod.collapse)
  from observation_applied_iff_current [OF r f(1)] f have b by (simp add: downloadTransition_def)
  with r show ?thesis by simp
qed

end
