(* ===== verification/Forward_Repository.thy ===== *)
theory Forward_Repository
  imports Task_Hub "HOL-Library.Product_Lexorder"
begin

text \<open>
  Forward jobs: the record of \<open>interfaces/types/forward.go\<close>, the repository of
  \<open>bsw/cdd/taskhub/forward_repository.go\<close> on the hub's forward collection, and the contract of
  \<open>ports.ForwardRepository\<close> (\<open>interfaces/ports/forward.go\<close>) as a locale, interpreted on that repository:
  seen through its decoder, the store is a map from ids to jobs.
\<close>

section \<open>Jobs\<close>

record forwardJob =
  fj_id :: string
  fj_source :: string
  fj_sourceLink :: string
  fj_sourcePeerID :: int
  fj_sourcePeerKind :: string
  fj_ruleID :: string
  fj_sourceMessageID :: int
  fj_originName :: string
  fj_destination :: string
  fj_destinationName :: string
  fj_mode :: string
  fj_silent :: bool
  fj_status :: string
  fj_total :: int
  fj_done :: int
  fj_cloneDone :: int
  fj_cloneTotal :: int
  fj_attempts :: int
  fj_error :: string
  fj_createdAt :: instant
  fj_updatedAt :: instant
  fj_startedAt :: "instant option"
  fj_finishedAt :: "instant option"
  fj_nextAttemptAt :: "instant option"

definition job_zero :: forwardJob where
  "job_zero = \<lparr>fj_id = [], fj_source = [], fj_sourceLink = [], fj_sourcePeerID = 0, fj_sourcePeerKind = [], fj_ruleID = [],
     fj_sourceMessageID = 0, fj_originName = [], fj_destination = [], fj_destinationName = [], fj_mode = [], fj_silent = False,
     fj_status = [], fj_total = 0, fj_done = 0, fj_cloneDone = 0, fj_cloneTotal = 0, fj_attempts = 0, fj_error = [],
     fj_createdAt = 0, fj_updatedAt = 0, fj_startedAt = None, fj_finishedAt = None, fj_nextAttemptAt = None\<rparr>"

definition job_terminal :: "forwardJob \<Rightarrow> bool" where
  "job_terminal j \<longleftrightarrow> fj_status j = ''done'' \<or> fj_status j = ''error''"

text \<open>Encoding with \<open>omitempty\<close>, and decoding.\<close>

definition opt_str :: "string \<Rightarrow> string \<Rightarrow> (string \<times> json) list" where
  "opt_str k s = (if s = [] then [] else [(k, JStr s)])"

definition opt_int :: "string \<Rightarrow> int \<Rightarrow> (string \<times> json) list" where
  "opt_int k n = (if n = 0 then [] else [(k, JNum n)])"

definition opt_bool :: "string \<Rightarrow> bool \<Rightarrow> (string \<times> json) list" where
  "opt_bool k b = (if b then [(k, JBool True)] else [])"

definition opt_time :: "string \<Rightarrow> instant option \<Rightarrow> (string \<times> json) list" where
  "opt_time k t = (case t of None \<Rightarrow> [] | Some x \<Rightarrow> [(k, JTime x)])"

definition job_fields :: "forwardJob \<Rightarrow> (string \<times> json) list" where
  "job_fields j =
     [(''id'', JStr (fj_id j)), (''source'', JStr (fj_source j))]
     @ opt_str ''source_link'' (fj_sourceLink j) @ opt_int ''source_peer_id'' (fj_sourcePeerID j)
     @ opt_str ''source_peer_kind'' (fj_sourcePeerKind j) @ opt_str ''rule_id'' (fj_ruleID j)
     @ opt_int ''source_message_id'' (fj_sourceMessageID j) @ opt_str ''origin_name'' (fj_originName j)
     @ [(''destination'', JStr (fj_destination j))] @ opt_str ''destination_name'' (fj_destinationName j)
     @ [(''mode'', JStr (fj_mode j))] @ opt_bool ''silent'' (fj_silent j)
     @ [(''status'', JStr (fj_status j)), (''total'', JNum (fj_total j)), (''done'', JNum (fj_done j))]
     @ opt_int ''clone_done'' (fj_cloneDone j) @ opt_int ''clone_total'' (fj_cloneTotal j)
     @ opt_int ''attempts'' (fj_attempts j) @ opt_str ''error'' (fj_error j)
     @ [(''created_at'', JTime (fj_createdAt j)), (''updated_at'', JTime (fj_updatedAt j))]
     @ opt_time ''started_at'' (fj_startedAt j) @ opt_time ''finished_at'' (fj_finishedAt j)
     @ opt_time ''next_attempt_at'' (fj_nextAttemptAt j)"

definition job_json :: "forwardJob \<Rightarrow> blob" where
  "job_json j = Doc (JObj (job_fields j))"

definition job_of_json :: "(string \<times> json) list \<Rightarrow> forwardJob res" where
  "job_of_json fs =
     and_then (field_string fs ''id'') (\<lambda>i. and_then (field_string fs ''source'') (\<lambda>src.
     and_then (field_string fs ''source_link'') (\<lambda>link. and_then (field_int64 fs ''source_peer_id'') (\<lambda>peer.
     and_then (field_string fs ''source_peer_kind'') (\<lambda>kind. and_then (field_string fs ''rule_id'') (\<lambda>rule.
     and_then (field_int64 fs ''source_message_id'') (\<lambda>msg. and_then (field_string fs ''origin_name'') (\<lambda>origin.
     and_then (field_string fs ''destination'') (\<lambda>dest. and_then (field_string fs ''destination_name'') (\<lambda>dname.
     and_then (field_string fs ''mode'') (\<lambda>mode. and_then (field_bool fs ''silent'') (\<lambda>silent.
     and_then (field_string fs ''status'') (\<lambda>status. and_then (field_int64 fs ''total'') (\<lambda>tot.
     and_then (field_int64 fs ''done'') (\<lambda>dn. and_then (field_int64 fs ''clone_done'') (\<lambda>cd.
     and_then (field_int64 fs ''clone_total'') (\<lambda>ct. and_then (field_int64 fs ''attempts'') (\<lambda>att.
     and_then (field_string fs ''error'') (\<lambda>er. and_then (field_time fs ''created_at'') (\<lambda>created.
     and_then (field_time fs ''updated_at'') (\<lambda>updated. and_then (field_time_ptr fs ''started_at'') (\<lambda>started.
     and_then (field_time_ptr fs ''finished_at'') (\<lambda>finished. and_then (field_time_ptr fs ''next_attempt_at'') (\<lambda>nxt.
     Inr \<lparr>fj_id = i, fj_source = src, fj_sourceLink = link, fj_sourcePeerID = peer, fj_sourcePeerKind = kind, fj_ruleID = rule,
       fj_sourceMessageID = msg, fj_originName = origin, fj_destination = dest, fj_destinationName = dname, fj_mode = mode,
       fj_silent = silent, fj_status = status, fj_total = tot, fj_done = dn, fj_cloneDone = cd, fj_cloneTotal = ct,
       fj_attempts = att, fj_error = er, fj_createdAt = created, fj_updatedAt = updated, fj_startedAt = started,
       fj_finishedAt = finished, fj_nextAttemptAt = nxt\<rparr>))))))))))))))))))))))))"

definition decodeForwardJob :: "string \<Rightarrow> blob \<Rightarrow> forwardJob res" where
  "decodeForwardJob tid data =
     (case and_then (unmarshal_object data) job_of_json of
        Inl e \<Rightarrow> Inl (ErrWrap ''decode forward job'' e)
      | Inr j \<Rightarrow> if fj_id j \<noteq> tid \<or> fj_status j = [] then Inl (ErrMsg ''invalid forward job identity or status'') else Inr j)"

section \<open>The repository\<close>

definition forward_update_txn :: "ctx \<Rightarrow> instant \<Rightarrow> string \<Rightarrow> (forwardJob \<Rightarrow> forwardJob option) \<Rightarrow> bool txn" where
  "forward_update_txn ctx now tid change s =
     (case col_get forward_jobs ctx s (co_prefix forward_jobs @ tid) of
        Inl e \<Rightarrow> if errors_is e ErrNotFound then Inr (False, s) else Inl e
      | Inr data \<Rightarrow>
          and_then (decodeForwardJob tid data) (\<lambda>job.
          case change job of
            None \<Rightarrow> Inr (False, s)
          | Some job1 \<Rightarrow>
              and_then (col_set forward_jobs ctx s (co_prefix forward_jobs @ tid) (job_json (job1\<lparr>fj_id := tid, fj_updatedAt := now\<rparr>)))
                (\<lambda>s1. Inr (True, s1))))"

definition forward_update :: "ctx \<Rightarrow> ctx \<Rightarrow> instant \<Rightarrow> string \<Rightarrow> (forwardJob \<Rightarrow> forwardJob option) \<Rightarrow> kv \<Rightarrow> bool res \<times> kv" where
  "forward_update ctx ctx' now tid change s = col_run forward_jobs ctx ctx' (forward_update_txn ctx now tid change) s"

definition forward_save :: "ctx \<Rightarrow> ctx \<Rightarrow> instant \<Rightarrow> forwardJob \<Rightarrow> kv \<Rightarrow> unit res \<times> kv" where
  "forward_save ctx ctx' now job s =
     (if trim_space (fj_id job) = [] then (Inl (ErrMsg ''forward job id is empty''), s)
      else let j1 = job\<lparr>fj_status := if fj_status job = [] then ''queued'' else fj_status job,
                       fj_createdAt := if is_zero (fj_createdAt job) then now else fj_createdAt job,
                       fj_updatedAt := now\<rparr>
           in col_put forward_jobs ctx ctx' (fj_id j1) (job_json j1) (fj_createdAt j1) s)"

definition forward_get :: "ctx \<Rightarrow> string \<Rightarrow> kv \<Rightarrow> forwardJob option res" where
  "forward_get ctx tid s =
     (if tid = [] then Inr None
      else case col_read forward_jobs ctx tid s of
             Inl e \<Rightarrow> if errors_is e ErrNotFound then Inr None else Inl e
           | Inr data \<Rightarrow> and_then (decodeForwardJob tid data) (\<lambda>j. Inr (Some j)))"

fun decode_jobs :: "(string \<times> blob) list \<Rightarrow> forwardJob list res" where
  "decode_jobs [] = Inr []"
| "decode_jobs ((i, data) # rs) = and_then (decodeForwardJob i data) (\<lambda>j. and_then (decode_jobs rs) (\<lambda>js. Inr (j # js)))"

text \<open>\<open>sort.Slice\<close> by creation time and id; ids are unique, so the order is total.\<close>

definition forward_records :: "ctx \<Rightarrow> ctx \<Rightarrow> kv \<Rightarrow> forwardJob list res \<times> kv" where
  "forward_records ctx ctx' s =
     (case col_records forward_jobs ctx ctx' s of
        (Inl e, s') \<Rightarrow> (Inl e, s')
      | (Inr rs, s') \<Rightarrow> (and_then (decode_jobs rs) (\<lambda>js. Inr (sort_key (\<lambda>j. (fj_createdAt j, fj_id j)) js)), s'))"

definition forward_remove :: "ctx \<Rightarrow> ctx \<Rightarrow> string \<Rightarrow> kv \<Rightarrow> unit res \<times> kv" where
  "forward_remove ctx ctx' tid s = (if tid = [] then (Inr (), s) else col_remove forward_jobs ctx ctx' tid s)"

section \<open>The contract\<close>

text \<open>
  \<open>ports.ForwardRepository\<close>: the methods as a client calls them, the context and the clock being those of
  the call.
\<close>

record 'st forwardRepo =
  fr_save :: "forwardJob \<Rightarrow> 'st \<Rightarrow> unit res \<times> 'st"
  fr_update :: "string \<Rightarrow> (forwardJob \<Rightarrow> forwardJob option) \<Rightarrow> 'st \<Rightarrow> bool res \<times> 'st"
  fr_get :: "string \<Rightarrow> 'st \<Rightarrow> forwardJob option res"
  fr_records :: "'st \<Rightarrow> forwardJob list res \<times> 'st"
  fr_remove :: "string \<Rightarrow> 'st \<Rightarrow> unit res \<times> 'st"

text \<open>A context ends only by cancellation or by its deadline.\<close>

datatype ctxEnd = EndCanceled | EndDeadline

fun ctx_err :: "ctxEnd option \<Rightarrow> ctx" where
  "ctx_err None = None"
| "ctx_err (Some EndCanceled) = Some Canceled"
| "ctx_err (Some EndDeadline) = Some DeadlineExceeded"

definition forward_repo :: "ctxEnd option \<Rightarrow> ctxEnd option \<Rightarrow> instant \<Rightarrow> kv forwardRepo" where
  "forward_repo c c' now =
     \<lparr>fr_save = forward_save (ctx_err c) (ctx_err c') now, fr_update = forward_update (ctx_err c) (ctx_err c') now,
      fr_get = forward_get (ctx_err c), fr_records = forward_records (ctx_err c) (ctx_err c'),
      fr_remove = forward_remove (ctx_err c) (ctx_err c')\<rparr>"

lemma ctx_err_cases: "ctx_err c \<in> {None, Some Canceled, Some DeadlineExceeded}"
  by (cases c rule: ctx_err.cases) auto

text \<open>Jobs whose numbers fit Go's integer types and that have a status.\<close>

definition job_ok :: "forwardJob \<Rightarrow> bool" where
  "job_ok j \<longleftrightarrow> int64_ok (fj_sourcePeerID j) \<and> int64_ok (fj_sourceMessageID j) \<and> int64_ok (fj_total j) \<and> int64_ok (fj_done j)
     \<and> int64_ok (fj_cloneDone j) \<and> int64_ok (fj_cloneTotal j) \<and> int64_ok (fj_attempts j) \<and> fj_status j \<noteq> []"

text \<open>A change that keeps jobs valid, as the argument of \<open>Update\<close>.\<close>

definition keeps_ok :: "(forwardJob \<Rightarrow> forwardJob option) \<Rightarrow> bool" where
  "keeps_ok change \<longleftrightarrow> (\<forall>j j'. job_ok j \<longrightarrow> change j = Some j' \<longrightarrow> job_ok j')"

locale forward_repository =
  fixes repo :: "'st forwardRepo" and jobs_of :: "'st \<Rightarrow> string \<rightharpoonup> forwardJob" and ok :: "'st \<Rightarrow> bool"
  assumes get_law: "ok s \<Longrightarrow> fr_get repo tid s = Inr found \<Longrightarrow> found = jobs_of s tid"
    and jobs_valid: "ok s \<Longrightarrow> jobs_of s tid = Some j \<Longrightarrow> job_ok j \<and> fj_id j = tid \<and> tid \<noteq> []"
    and update_law: "ok s \<Longrightarrow> keeps_ok change \<Longrightarrow> fr_update repo tid change s = (upd, s') \<Longrightarrow>
      ok s' \<and> (\<exists>now. case upd of
         Inl e \<Rightarrow> jobs_of s' = jobs_of s
       | Inr b \<Rightarrow> (case Option.bind (jobs_of s tid) change of
                     None \<Rightarrow> \<not> b \<and> jobs_of s' = jobs_of s
                   | Some j \<Rightarrow> b \<and> jobs_of s' = (jobs_of s)(tid \<mapsto> j\<lparr>fj_id := tid, fj_updatedAt := now\<rparr>)))"
    and save_law: "ok s \<Longrightarrow> job_ok j \<Longrightarrow> fr_save repo j s = (saved, s') \<Longrightarrow>
      ok s' \<and> (\<exists>now. case saved of
         Inl e \<Rightarrow> jobs_of s' = jobs_of s
       | Inr _ \<Rightarrow> jobs_of s' = (jobs_of s)(fj_id j \<mapsto> j\<lparr>fj_createdAt := if is_zero (fj_createdAt j) then now else fj_createdAt j, fj_updatedAt := now\<rparr>))"
    and remove_law: "ok s \<Longrightarrow> fr_remove repo tid s = (removed, s') \<Longrightarrow>
      ok s' \<and> (case removed of Inl e \<Rightarrow> jobs_of s' = jobs_of s | Inr _ \<Rightarrow> jobs_of s' = (jobs_of s)(tid := None))"
    and records_law: "ok s \<Longrightarrow> fr_records repo s = (recs, s') \<Longrightarrow>
      ok s' \<and> jobs_of s' = jobs_of s \<and> (case recs of Inl e \<Rightarrow> True | Inr js \<Rightarrow> set js = ran (jobs_of s) \<and> distinct (map fj_id js)
         \<and> sorted_wrt (\<lambda>a b. fj_createdAt a < fj_createdAt b \<or> fj_createdAt a = fj_createdAt b \<and> fj_id a < fj_id b) js)"

section \<open>The hub keeps the contract\<close>

lemmas opt_defs = opt_str_def opt_int_def opt_bool_def opt_time_def

lemma keys_opt [simp]:
  "k' \<in> fst ` set (opt_str k x) \<longleftrightarrow> k' = k \<and> x \<noteq> []" "k' \<in> fst ` set (opt_int k n) \<longleftrightarrow> k' = k \<and> n \<noteq> 0"
  "k' \<in> fst ` set (opt_bool k b) \<longleftrightarrow> k' = k \<and> b" "k' \<in> fst ` set (opt_time k t) \<longleftrightarrow> k' = k \<and> t \<noteq> None"
  by (auto simp: opt_defs split: option.splits)

lemma distinct_opt [simp]:
  "distinct (map fst (opt_str k x))" "distinct (map fst (opt_int k n))" "distinct (map fst (opt_bool k b))"
  "distinct (map fst (opt_time k t))"
  "fst ` set (opt_str k x) \<inter> A = {} \<longleftrightarrow> (x \<noteq> [] \<longrightarrow> k \<notin> A)" "fst ` set (opt_int k n) \<inter> A = {} \<longleftrightarrow> (n \<noteq> 0 \<longrightarrow> k \<notin> A)"
  "fst ` set (opt_bool k b) \<inter> A = {} \<longleftrightarrow> (b \<longrightarrow> k \<notin> A)" "fst ` set (opt_time k t) \<inter> A = {} \<longleftrightarrow> (t \<noteq> None \<longrightarrow> k \<notin> A)"
  by (auto simp: opt_defs split: option.splits)

lemma map_of_opt [simp]:
  "(m ++ map_of (opt_str k x)) k' = (if k' = k \<and> x \<noteq> [] then Some (JStr x) else m k')"
  "(m ++ map_of (opt_int k n)) k' = (if k' = k \<and> n \<noteq> 0 then Some (JNum n) else m k')"
  "(m ++ map_of (opt_bool k b)) k' = (if k' = k \<and> b then Some (JBool True) else m k')"
  "(m ++ map_of (opt_time k t)) k' = (if k' = k \<and> t \<noteq> None then Some (JTime (the t)) else m k')"
  "map_of (opt_time k t) k' = (if k' = k \<and> t \<noteq> None then Some (JTime (the t)) else None)"
  by (auto simp: opt_defs map_add_def split: option.splits)

lemma distinct_job_fields: "distinct (keys (job_fields j))"
  by (simp add: job_fields_def image_Un)

lemma job_fields_read:
  "field_string (job_fields j) ''id'' = Inr (fj_id j)"
  "field_string (job_fields j) ''source'' = Inr (fj_source j)"
  "field_string (job_fields j) ''source_link'' = Inr (fj_sourceLink j)"
  "int64_ok (fj_sourcePeerID j) \<Longrightarrow> field_int64 (job_fields j) ''source_peer_id'' = Inr (fj_sourcePeerID j)"
  "field_string (job_fields j) ''source_peer_kind'' = Inr (fj_sourcePeerKind j)"
  "field_string (job_fields j) ''rule_id'' = Inr (fj_ruleID j)"
  "int64_ok (fj_sourceMessageID j) \<Longrightarrow> field_int64 (job_fields j) ''source_message_id'' = Inr (fj_sourceMessageID j)"
  "field_string (job_fields j) ''origin_name'' = Inr (fj_originName j)"
  "field_string (job_fields j) ''destination'' = Inr (fj_destination j)"
  "field_string (job_fields j) ''destination_name'' = Inr (fj_destinationName j)"
  "field_string (job_fields j) ''mode'' = Inr (fj_mode j)"
  "field_bool (job_fields j) ''silent'' = Inr (fj_silent j)"
  "field_string (job_fields j) ''status'' = Inr (fj_status j)"
  "int64_ok (fj_total j) \<Longrightarrow> field_int64 (job_fields j) ''total'' = Inr (fj_total j)"
  "int64_ok (fj_done j) \<Longrightarrow> field_int64 (job_fields j) ''done'' = Inr (fj_done j)"
  "int64_ok (fj_cloneDone j) \<Longrightarrow> field_int64 (job_fields j) ''clone_done'' = Inr (fj_cloneDone j)"
  "int64_ok (fj_cloneTotal j) \<Longrightarrow> field_int64 (job_fields j) ''clone_total'' = Inr (fj_cloneTotal j)"
  "int64_ok (fj_attempts j) \<Longrightarrow> field_int64 (job_fields j) ''attempts'' = Inr (fj_attempts j)"
  "field_string (job_fields j) ''error'' = Inr (fj_error j)"
  "field_time (job_fields j) ''created_at'' = Inr (fj_createdAt j)"
  "field_time (job_fields j) ''updated_at'' = Inr (fj_updatedAt j)"
  "field_time_ptr (job_fields j) ''started_at'' = Inr (fj_startedAt j)"
  "field_time_ptr (job_fields j) ''finished_at'' = Inr (fj_finishedAt j)"
  "field_time_ptr (job_fields j) ''next_attempt_at'' = Inr (fj_nextAttemptAt j)"
  by (auto simp: job_fields_def field_defs)

lemma job_json_decode: "job_ok j \<Longrightarrow> and_then (unmarshal_object (job_json j)) job_of_json = Inr j"
  using distinct_job_fields [of j]
  by (simp add: job_json_def unmarshal_object_def job_of_json_def job_fields_read job_ok_def)

lemma decode_job_json: "job_ok j \<Longrightarrow> fj_id j = tid \<Longrightarrow> decodeForwardJob tid (job_json j) = Inr j"
  by (simp add: decodeForwardJob_def job_json_decode job_ok_def)

lemma field_int64_ok: "field_int64 fs k = Inr n \<Longrightarrow> int64_ok n"
  by (auto simp: field_int64_def split: option.splits json.splits if_splits)

lemma decodeForwardJob_ok: "decodeForwardJob tid d = Inr j \<Longrightarrow> job_ok j \<and> fj_id j = tid"
  by (auto simp: decodeForwardJob_def job_of_json_def job_ok_def and_then_Inr split: sum.splits if_splits dest!: field_int64_ok)

definition jobs_of :: "kv \<Rightarrow> string \<rightharpoonup> forwardJob" where
  "jobs_of s tid =
     (case s (forwardPrefix @ tid) of
        None \<Rightarrow> None
      | Some d \<Rightarrow> (case decodeForwardJob tid d of Inl e \<Rightarrow> None | Inr j \<Rightarrow> Some j))"

definition jobs_ok :: "kv \<Rightarrow> bool" where
  "jobs_ok s \<longleftrightarrow> indexed forward_jobs s \<and> s forwardPrefix = None
     \<and> (\<forall>tid d. s (forwardPrefix @ tid) = Some d \<longrightarrow> (\<exists>j. decodeForwardJob tid d = Inr j))"

lemma forward_keys: "co_prefix forward_jobs = forwardPrefix" "co_indexKey forward_jobs = forwardIndex"
  by (simp_all add: hub_selectors hub_keys)

lemma forward_index_key [simp]: "forwardPrefix @ tid \<noteq> forwardIndex" "forwardIndex \<noteq> forwardPrefix @ tid" "forwardIndex \<noteq> forwardPrefix"
  "forwardPrefix \<noteq> forwardIndex"
  by (simp_all add: hub_keys)

lemmas fw_scoped = fw.scoped_record [unfolded forward_keys] fw.scoped_index [unfolded forward_keys]

lemma jobs_ok_same:
  assumes "jobs_ok s" "indexed forward_jobs s'" "\<forall>k. k \<noteq> forwardIndex \<longrightarrow> s' k = s k"
  shows "jobs_ok s' \<and> jobs_of s' = jobs_of s"
  using assms by (auto simp: jobs_ok_def jobs_of_def fun_eq_iff)

lemma jobs_ok_put:
  assumes "jobs_ok s" "indexed forward_jobs s'" "job_ok j" "fj_id j \<noteq> []"
    "\<forall>k. k \<noteq> forwardIndex \<longrightarrow> s' k = (s(forwardPrefix @ fj_id j \<mapsto> job_json j)) k"
  shows "jobs_ok s' \<and> jobs_of s' = (jobs_of s)(fj_id j \<mapsto> j)"
  using assms(1,2,4,5) decode_job_json [OF assms(3) refl]
  by (auto simp: jobs_ok_def jobs_of_def fun_eq_iff)

lemma jobs_of_decode: "jobs_ok s \<Longrightarrow> s (forwardPrefix @ tid) = Some d \<Longrightarrow> \<exists>j. decodeForwardJob tid d = Inr j \<and> jobs_of s tid = Some j"
  by (fastforce simp: jobs_ok_def jobs_of_def)

lemma forward_update_law:
  assumes ok: "jobs_ok s" and ch: "keeps_ok change"
    and upd: "forward_update ctx ctx' now tid change s = (r, s')"
  shows "jobs_ok s' \<and> (case r of
         Inl e \<Rightarrow> jobs_of s' = jobs_of s
       | Inr b \<Rightarrow> (case Option.bind (jobs_of s tid) change of
                     None \<Rightarrow> \<not> b \<and> jobs_of s' = jobs_of s
                   | Some j \<Rightarrow> b \<and> jobs_of s' = (jobs_of s)(tid \<mapsto> j\<lparr>fj_id := tid, fj_updatedAt := now\<rparr>)))"
proof (cases r)
  case (Inl e)
  with upd ok show ?thesis by (auto simp: forward_update_def dest: fw.run_fails)
next
  case (Inr b)
  with upd have t: "forward_update_txn None now tid change s = Inr (b, s')" by (auto simp: forward_update_def dest!: fw.run_succeeds)
  show ?thesis
  proof (cases "s (forwardPrefix @ tid)")
    case None
    with t Inr ok show ?thesis by (auto simp: forward_update_txn_def forward_keys fw_scoped kv_get_def jobs_of_def)
  next
    case (Some d)
    with jobs_of_decode [OF ok] obtain j where j: "decodeForwardJob tid d = Inr j" "jobs_of s tid = Some j" by blast
    note jok = decodeForwardJob_ok [OF j(1)]
    show ?thesis
    proof (cases "change j")
      case None
      with t Inr ok Some j show ?thesis by (auto simp: forward_update_txn_def forward_keys fw_scoped kv_get_def)
    next
      case (Some j1)
      let ?j = "j1\<lparr>fj_id := tid, fj_updatedAt := now\<rparr>"
      have tid: "tid \<noteq> []" using ok \<open>s (forwardPrefix @ tid) = Some d\<close> by (auto simp: jobs_ok_def)
      have "job_ok j1" using ch Some jok unfolding keeps_ok_def by blast
      then have jk: "job_ok ?j" by (simp add: job_ok_def)
      from t Some \<open>s (forwardPrefix @ tid) = Some d\<close> j have s': "b" "s' = s(forwardPrefix @ tid \<mapsto> job_json ?j)"
        by (auto simp: forward_update_txn_def forward_keys fw_scoped kv_get_def kv_set_def)
      have "indexed forward_jobs s'"
      proof -
        from ok obtain ix where ix: "index_is forward_jobs s ix" by (auto simp: jobs_ok_def indexed_def)
        have "tid \<in> set (keys ix)"
          using fw.index_listed [OF _ ix, of tid] ok \<open>s (forwardPrefix @ tid) = Some d\<close> by (auto simp: jobs_ok_def forward_keys)
        moreover have "index_is forward_jobs s' ix" using ix fw.index_is_cong [of s' s ix] by (simp add: s'(2) forward_keys)
        ultimately show ?thesis using fw.index_listed [OF _ ix] ok
          unfolding indexed_def by (intro exI [of _ ix]) (auto simp: s'(2) forward_keys jobs_ok_def indexed_def)
      qed
      from jobs_ok_put [OF ok this jk] tid have "jobs_ok s' \<and> jobs_of s' = (jobs_of s)(tid \<mapsto> ?j)" by (simp add: s'(2))
      with s'(1) Inr Some j show ?thesis by simp
    qed
  qed
qed

lemma forward_save_law:
  assumes ok: "jobs_ok s" "job_ok j" and sv: "forward_save ctx ctx' now j s = (r, s')"
  shows "jobs_ok s' \<and> (case r of
         Inl e \<Rightarrow> jobs_of s' = jobs_of s
       | Inr _ \<Rightarrow> jobs_of s' = (jobs_of s)(fj_id j \<mapsto> j\<lparr>fj_createdAt := if fj_createdAt j = 0 then now else fj_createdAt j, fj_updatedAt := now\<rparr>))"
proof (cases r)
  case (Inl e)
  with sv ok show ?thesis by (auto simp: forward_save_def col_put_def fw.opened dest: fw.run_fails split: if_splits)
next
  case (Inr x)
  let ?j = "j\<lparr>fj_createdAt := if fj_createdAt j = 0 then now else fj_createdAt j, fj_updatedAt := now\<rparr>"
  from ok(2) have st: "fj_status j \<noteq> []" by (simp add: job_ok_def)
  with sv Inr have p: "col_put forward_jobs ctx ctx' (fj_id j) (job_json ?j) (fj_createdAt ?j) s = (Inr x, s')"
    by (auto simp: forward_save_def split: if_splits)
  then have "fj_id j \<noteq> []" and t: "put_txn forward_jobs None (fj_id j) (job_json ?j) (fj_createdAt ?j) s = Inr (x, s')"
    by (auto simp: col_put_def fw.opened dest!: fw.run_succeeds split: if_splits)
  from t have "\<forall>k. k \<noteq> forwardIndex \<longrightarrow> s' k = (s(forwardPrefix @ fj_id ?j \<mapsto> job_json ?j)) k"
    by (auto simp: put_txn_def and_then_Inr forward_keys fw_scoped kv_set_def col_saveIndex_def)
  moreover have "indexed forward_jobs s'" using fw.put_keeps_indexed [OF p] ok(1) by (simp add: jobs_ok_def)
  moreover have "job_ok ?j" using ok(2) by (simp add: job_ok_def)
  ultimately have "jobs_ok s' \<and> jobs_of s' = (jobs_of s)(fj_id ?j \<mapsto> ?j)"
    using \<open>fj_id j \<noteq> []\<close> by (intro jobs_ok_put [OF ok(1)]) auto
  with Inr show ?thesis by simp
qed

lemma forward_remove_law:
  assumes ok: "jobs_ok s" and rm: "forward_remove ctx ctx' tid s = (r, s')"
  shows "jobs_ok s' \<and> (case r of Inl e \<Rightarrow> jobs_of s' = jobs_of s | Inr _ \<Rightarrow> jobs_of s' = (jobs_of s)(tid := None))"
proof (cases "tid = []")
  case True
  have "jobs_of s [] = None" using ok by (simp add: jobs_of_def jobs_ok_def)
  with True rm ok show ?thesis by (auto simp: forward_remove_def fun_upd_idem)
next
  case False
  with rm have p: "col_remove forward_jobs ctx ctx' tid s = (r, s')" by (simp add: forward_remove_def)
  show ?thesis
  proof (cases r)
    case (Inl e)
    with p ok show ?thesis by (auto simp: col_remove_def dest: fw.run_fails)
  next
    case (Inr x)
    with p have "remove_txn forward_jobs None tid s = Inr (x, s')" by (auto simp: col_remove_def dest!: fw.run_succeeds)
    then have "\<forall>k. k \<noteq> forwardIndex \<longrightarrow> s' k = (s(forwardPrefix @ tid := None)) k"
      by (auto simp: remove_txn_def and_then_Inr forward_keys fw_scoped kv_set_def kv_delete_def col_saveIndex_def)
    with fw.remove_keeps_indexed [OF p] ok Inr show ?thesis by (auto simp: jobs_ok_def jobs_of_def fun_eq_iff)
  qed
qed

lemma decode_jobs_spec: "decode_jobs rs = Inr js \<longleftrightarrow> list_all2 (\<lambda>(i, d) j. decodeForwardJob i d = Inr j) rs js"
  by (induction rs arbitrary: js rule: decode_jobs.induct) (auto simp: and_then_Inr list_all2_Cons1)

lemma sort_by_key:
  assumes "distinct (map fj_id js)"
  shows "sorted_wrt (\<lambda>a b. fj_createdAt a < fj_createdAt b \<or> fj_createdAt a = fj_createdAt b \<and> fj_id a < fj_id b)
    (sort_key (\<lambda>j. (fj_createdAt j, fj_id j)) js)"
proof -
  let ?l = "sort_key (\<lambda>j. (fj_createdAt j, fj_id j)) js"
  have "distinct (map fj_id ?l)" using assms by (simp add: distinct_map)
  then have "sorted_wrt (\<lambda>a b. fj_id a \<noteq> fj_id b) ?l" by (simp add: distinct_conv_nth sorted_wrt_iff_nth_less)
  moreover have "sorted_wrt (\<lambda>a b. (fj_createdAt a, fj_id a) \<le> (fj_createdAt b, fj_id b)) ?l"
    using sorted_sort_key [of "\<lambda>j. (fj_createdAt j, fj_id j)" js] unfolding sorted_map .
  ultimately show ?thesis
    unfolding sorted_wrt_iff_nth_less by (fastforce simp: less_eq_prod_def)
qed

lemma forward_records_law:
  assumes ok: "jobs_ok s" and rc: "forward_records ctx ctx' s = (r, s')"
  shows "jobs_ok s' \<and> jobs_of s' = jobs_of s \<and> (case r of Inl e \<Rightarrow> True | Inr js \<Rightarrow> set js = ran (jobs_of s) \<and> distinct (map fj_id js)
         \<and> sorted_wrt (\<lambda>a b. fj_createdAt a < fj_createdAt b \<or> fj_createdAt a = fj_createdAt b \<and> fj_id a < fj_id b) js)"
proof -
  obtain q where q: "col_records forward_jobs ctx ctx' s = (q, s')"
    using rc by (auto simp: forward_records_def split: prod.splits sum.splits)
  from fw.records_keeps_indexed [OF q] ok have ind: "indexed forward_jobs s'" by (simp add: jobs_ok_def)
  show ?thesis
  proof (cases q)
    case (Inl e)
    with q rc have "s' = s" "r = Inl e" by (auto simp: forward_records_def col_records_def dest: fw.run_fails)
    with ok show ?thesis by simp
  next
    case (Inr rs)
    with q have none: "ctx = None" "ctx' = None" by (auto simp: col_records_def dest: fw.run_succeeds)
    from ok obtain ix where ix: "index_is forward_jobs s ix" by (auto simp: jobs_ok_def indexed_def)
    from fw.records_eq [OF ix] q none Inr
    have rs: "rs = List.map_filter (\<lambda>(i, t). map_option (Pair i) (s (forwardPrefix @ i))) ix"
      and same: "\<forall>k. k \<noteq> forwardIndex \<longrightarrow> s' k = s k" by (auto simp: forward_keys)
    have keep: "jobs_ok s' \<and> jobs_of s' = jobs_of s" by (rule jobs_ok_same [OF ok ind same])
    show ?thesis
    proof (cases "decode_jobs rs")
      case (Inl e)
      with rc q \<open>q = Inr rs\<close> have "r = Inl e" by (simp add: forward_records_def)
      with keep show ?thesis by simp
    next
      case (Inr js)
      with rc q \<open>q = Inr rs\<close> have r: "r = Inr (sort_key (\<lambda>j. (fj_createdAt j, fj_id j)) js)" by (simp add: forward_records_def)
      from Inr have l2: "list_all2 (\<lambda>(i, d) j. decodeForwardJob i d = Inr j) rs js" by (simp add: decode_jobs_spec)
      then have ids: "map fj_id js = map fst rs"
        by (induction rule: list_all2_induct) (auto dest: decodeForwardJob_ok)
      have dist: "distinct (map fst rs)" using fw.index_is_distinct [OF ix] unfolding rs
        by (induction ix) (auto simp: List.map_filter_def image_iff split: option.splits)
      have mem: "(i, d) \<in> set rs \<longleftrightarrow> s (forwardPrefix @ i) = Some d" for i d
      proof
        assume "(i, d) \<in> set rs"
        then show "s (forwardPrefix @ i) = Some d" unfolding rs by (auto simp: List.map_filter_def)
      next
        assume d: "s (forwardPrefix @ i) = Some d"
        with fw.index_listed [OF _ ix, of i] ok have "i \<in> set (keys ix)" by (auto simp: jobs_ok_def forward_keys)
        with d show "(i, d) \<in> set rs" unfolding rs by (force simp: List.map_filter_def)
      qed
      have "set js = ran (jobs_of s)"
      proof (intro set_eqI iffI)
        fix j assume "j \<in> set js"
        then obtain n where n: "n < length js" "js ! n = j" by (auto simp: in_set_conv_nth)
        obtain i d where id: "rs ! n = (i, d)" by fastforce
        have "decodeForwardJob i d = Inr j" using list_all2_nthD2 [OF l2 n(1)] n(2) id by simp
        moreover have "s (forwardPrefix @ i) = Some d" using mem n(1) list_all2_lengthD [OF l2] id by (metis nth_mem)
        ultimately have "jobs_of s i = Some j" by (simp add: jobs_of_def)
        then show "j \<in> ran (jobs_of s)" by (rule ranI)
      next
        fix j assume "j \<in> ran (jobs_of s)"
        then obtain i where "jobs_of s i = Some j" by (auto simp: ran_def)
        then obtain d where d: "s (forwardPrefix @ i) = Some d" "decodeForwardJob i d = Inr j"
          by (auto simp: jobs_of_def split: option.splits sum.splits)
        then obtain n where n: "n < length rs" "rs ! n = (i, d)" using mem by (metis in_set_conv_nth)
        have "decodeForwardJob i d = Inr (js ! n)" using list_all2_nthD [OF l2 n(1)] n(2) by simp
        with d(2) n(1) list_all2_lengthD [OF l2] show "j \<in> set js" by (metis Inr_inject nth_mem)
      qed
      moreover have d: "distinct (map fj_id js)" using ids dist by simp
      then have "distinct (map fj_id (sort_key (\<lambda>j. (fj_createdAt j, fj_id j)) js))" by (simp add: distinct_map)
      ultimately show ?thesis using keep r sort_by_key [OF d] by simp
    qed
  qed
qed

interpretation fwr: forward_repository "forward_repo c c' now" jobs_of jobs_ok for c c' now
proof
  fix s :: kv and tid r
  assume ok: "jobs_ok s" and g: "fr_get (forward_repo c c' now) tid s = Inr r"
  show "r = jobs_of s tid"
  proof (cases "tid = []")
    case True
    with g ok show ?thesis by (simp add: forward_repo_def forward_get_def jobs_of_def jobs_ok_def)
  next
    case False
    with g ctx_err_cases [of c] show ?thesis
      by (auto simp: forward_repo_def forward_get_def col_read_def fw.opened forward_keys fw_scoped kv_get_def jobs_of_def and_then_Inr
          split: option.splits sum.splits if_splits)
  qed
next
  fix s :: kv and tid j
  assume "jobs_ok s" "jobs_of s tid = Some j"
  then show "job_ok j \<and> fj_id j = tid \<and> tid \<noteq> []"
    by (auto simp: jobs_of_def jobs_ok_def split: option.splits sum.splits dest: decodeForwardJob_ok)
next
  fix s s' :: kv and change tid r
  assume "jobs_ok s" "keeps_ok change" "fr_update (forward_repo c c' now) tid change s = (r, s')"
  then show "jobs_ok s' \<and> (\<exists>now. case r of
         Inl e \<Rightarrow> jobs_of s' = jobs_of s
       | Inr b \<Rightarrow> (case Option.bind (jobs_of s tid) change of
                     None \<Rightarrow> \<not> b \<and> jobs_of s' = jobs_of s
                   | Some j \<Rightarrow> b \<and> jobs_of s' = (jobs_of s)(tid \<mapsto> j\<lparr>fj_id := tid, fj_updatedAt := now\<rparr>)))"
    using forward_update_law [of s change "ctx_err c" "ctx_err c'" now tid r s'] by (auto simp: forward_repo_def)
next
  fix s s' :: kv and j r
  assume "jobs_ok s" "job_ok j" "fr_save (forward_repo c c' now) j s = (r, s')"
  then show "jobs_ok s' \<and> (\<exists>now. case r of
         Inl e \<Rightarrow> jobs_of s' = jobs_of s
       | Inr _ \<Rightarrow> jobs_of s' = (jobs_of s)(fj_id j \<mapsto> j\<lparr>fj_createdAt := if fj_createdAt j = 0 then now else fj_createdAt j, fj_updatedAt := now\<rparr>))"
    using forward_save_law [of s j "ctx_err c" "ctx_err c'" now r s'] unfolding forward_repo_def forwardRepo.simps by blast
next
  fix s s' :: kv and tid r
  assume "jobs_ok s" "fr_remove (forward_repo c c' now) tid s = (r, s')"
  then show "jobs_ok s' \<and> (case r of Inl e \<Rightarrow> jobs_of s' = jobs_of s | Inr _ \<Rightarrow> jobs_of s' = (jobs_of s)(tid := None))"
    using forward_remove_law by (simp add: forward_repo_def)
next
  fix s s' :: kv and r
  assume "jobs_ok s" "fr_records (forward_repo c c' now) s = (r, s')"
  then show "jobs_ok s' \<and> jobs_of s' = jobs_of s \<and> (case r of Inl e \<Rightarrow> True | Inr js \<Rightarrow> set js = ran (jobs_of s) \<and> distinct (map fj_id js)
         \<and> sorted_wrt (\<lambda>a b. fj_createdAt a < fj_createdAt b \<or> fj_createdAt a = fj_createdAt b \<and> fj_id a < fj_id b) js)"
    using forward_records_law by (simp add: forward_repo_def)
qed


lemma jobs_ok_empty: "jobs_ok Map.empty"
  using fw.indexed_empty by (simp add: jobs_ok_def)

lemma jobs_of_empty [simp]: "jobs_of Map.empty = Map.empty"
  by (simp add: jobs_of_def fun_eq_iff)


end
