(* ===== verification/Forward_Queue.thy ===== *)
theory Forward_Queue
  imports Forward_Repository
begin

text \<open>
  The forward queue of \<open>application/forwarder/queue.go\<close> with its retry policy (\<open>config.go\<close>): producers and
  user commands change stored jobs under the data mutex, a single worker (\<open>Serve\<close>) picks, claims, runs
  and finishes them one at a time. Every call of the repository is made through a
  \<open>'st forwardRepo\<close>; where an operation makes several, \<open>rp i\<close> is the repository at its \<open>i\<close>-th call, so
  that each call may fail or see another clock. The nil checks of the store and of the callbacks are left
  out, and so are the log lines.
\<close>

section \<open>Retry policy\<close>

record policy =
  po_poll :: duration
  po_base :: duration
  po_maximum :: duration
  po_retention :: duration
  po_attempts :: int
  po_history :: int
  po_target :: string
  po_mode :: string
  po_silent :: bool
  po_dedupe :: duration

definition backoffBase :: duration where "backoffBase = 5 * second"
definition backoffMax :: duration where "backoffMax = 5 * minute"

definition defaultPolicy :: policy where
  "defaultPolicy = \<lparr>po_poll = 2 * second, po_base = backoffBase, po_maximum = backoffMax, po_retention = 24 * hour,
     po_attempts = 10, po_history = 200, po_target = [], po_mode = ''default'', po_silent = False, po_dedupe = 10 * minute\<rparr>"

text \<open>
  \<open>PrepareConfig\<close>: every value is the result of reading one field of the configuration view. The code reads the
  first six through a Go map, in no fixed order; the order matters only for which of several errors is
  returned.
\<close>

definition prepareConfig :: "ctx \<Rightarrow> (string \<Rightarrow> int res) \<Rightarrow> (string \<Rightarrow> string res) \<Rightarrow> (string \<Rightarrow> bool res) \<Rightarrow> policy res" where
  "prepareConfig ctx view_int view_str view_bool =
     (case ctx of
        Some e \<Rightarrow> Inl e
      | None \<Rightarrow>
          and_then (view_int ''poll_interval_ms'') (\<lambda>poll. and_then (view_int ''retry_base_seconds'') (\<lambda>base.
          and_then (view_int ''retry_max_seconds'') (\<lambda>maximum. and_then (view_int ''max_attempts'') (\<lambda>attempts.
          and_then (view_int ''history_hours'') (\<lambda>retention. and_then (view_int ''history_limit'') (\<lambda>history.
          if maximum < base then Inl (ErrMsg ''retry_base_seconds must not exceed retry_max_seconds'')
          else and_then (view_str ''target'') (\<lambda>target. and_then (view_str ''mode'') (\<lambda>mode.
               and_then (view_bool ''silent'') (\<lambda>silent. and_then (view_int ''dedupe_ttl_seconds'') (\<lambda>dedupe.
               if dedupe \<le> 0 then Inl (ErrMsg ''dedupe_ttl_seconds must be positive'')
               else Inr \<lparr>po_poll = wrap64 (poll * millisecond), po_base = wrap64 (base * second),
                        po_maximum = wrap64 (maximum * second), po_retention = wrap64 (retention * hour),
                        po_attempts = attempts, po_history = history, po_target = target, po_mode = mode, po_silent = silent,
                        po_dedupe = wrap64 (dedupe * second)\<rparr>)))))))))))"

text \<open>\<open>policy.backoff\<close>: the loop over the attempts, \<open>n\<close> of them left.\<close>

fun backoff_loop :: "duration \<Rightarrow> nat \<Rightarrow> duration \<Rightarrow> duration" where
  "backoff_loop maximum 0 delay = (if maximum < delay then maximum else delay)"
| "backoff_loop maximum (Suc n) delay =
     (if go_div maximum 2 \<le> delay then maximum else backoff_loop maximum n (wrap64 (delay * 2)))"

definition policy_backoff :: "policy \<Rightarrow> int \<Rightarrow> duration" where
  "policy_backoff p attempts = backoff_loop (po_maximum p) (nat (attempts - 1)) (po_base p)"

text \<open>\<open>backoff\<close>: the shift of an \<open>int64\<close>.\<close>

definition backoff :: "int \<Rightarrow> duration" where
  "backoff attempts =
     (let a = (if attempts < 1 then 1 else attempts);
          d = wrap64 (backoffBase * 2 ^ nat (a - 1))
      in if d \<le> 0 \<or> backoffMax < d then backoffMax else d)"

section \<open>Producers\<close>

text \<open>
  The queue: the store, the wake channel (buffered, of capacity 1), whether it is served, the job being
  forwarded and whether its context was cancelled (\<open>None\<close> without a cancel function).
\<close>

record 'st queue =
  q_store :: 'st
  q_wake :: bool
  q_serving :: bool
  q_activeID :: string
  q_activeCancel :: "bool option"

definition signal_queue :: "'st queue \<Rightarrow> 'st queue" where
  "signal_queue q = q\<lparr>q_wake := True\<rparr>"

definition link_job :: "string \<Rightarrow> string \<Rightarrow> string \<Rightarrow> string \<Rightarrow> string \<Rightarrow> bool \<Rightarrow> forwardJob" where
  "link_job jid link target targetName mode silent =
     job_zero\<lparr>fj_id := jid, fj_source := ''command'', fj_sourceLink := link, fj_originName := link, fj_destination := target,
       fj_destinationName := targetName, fj_mode := mode, fj_silent := silent, fj_status := ''queued'', fj_total := 1\<rparr>"

text \<open>\<open>EnqueueLinks\<close>: \<open>nid i\<close> is the \<open>i\<close>-th id that \<open>nextID\<close> gives out.\<close>

fun enqueue_links_loop :: "(nat \<Rightarrow> 'st forwardRepo) \<Rightarrow> (nat \<Rightarrow> string) \<Rightarrow> nat \<Rightarrow> string list \<Rightarrow> (string \<Rightarrow> string \<Rightarrow> forwardJob) \<Rightarrow> 'st
    \<Rightarrow> string list \<times> err option \<times> 'st" where
  "enqueue_links_loop rp nid i [] mk s = ([], None, s)"
| "enqueue_links_loop rp nid i (link # ls) mk s =
     (if trim_space link = [] then enqueue_links_loop rp nid i ls mk s
      else case fr_save (rp i) (mk (nid i) (trim_space link)) s of
             (Inl e, s1) \<Rightarrow> ([], Some e, s1)
           | (Inr _, s1) \<Rightarrow>
               (case enqueue_links_loop rp nid (Suc i) ls mk s1 of (ids, e, s2) \<Rightarrow> (nid i # ids, e, s2)))"

definition enqueueLinks :: "(nat \<Rightarrow> 'st forwardRepo) \<Rightarrow> (nat \<Rightarrow> string) \<Rightarrow> string list \<Rightarrow> string \<Rightarrow> string \<Rightarrow> string \<Rightarrow> bool
    \<Rightarrow> 'st queue \<Rightarrow> string list \<times> err option \<times> 'st queue" where
  "enqueueLinks rp nid ls target targetName mode silent q =
     (case enqueue_links_loop rp nid 0 ls (\<lambda>jid link. link_job jid link target targetName mode silent) (q_store q) of
        (ids, e, s) \<Rightarrow> (ids, e, (if ids \<noteq> [] then signal_queue else id) (q\<lparr>q_store := s\<rparr>)))"

definition message_job :: "string \<Rightarrow> string \<Rightarrow> int \<Rightarrow> int \<Rightarrow> string \<Rightarrow> string \<Rightarrow> string \<Rightarrow> string \<Rightarrow> bool \<Rightarrow> forwardJob" where
  "message_job jid kind peer message origin target targetName mode silent =
     job_zero\<lparr>fj_id := jid, fj_source := ''watch'', fj_sourcePeerID := peer, fj_sourcePeerKind := kind, fj_sourceMessageID := message,
       fj_originName := origin, fj_destination := target, fj_destinationName := targetName, fj_mode := mode, fj_silent := silent,
       fj_status := ''queued'', fj_total := 1\<rparr>"

definition enqueueMessage :: "'st forwardRepo \<Rightarrow> forwardJob \<Rightarrow> 'st queue \<Rightarrow> string res \<times> 'st queue" where
  "enqueueMessage repo job q =
     (case fr_save repo job (q_store q) of
        (Inl e, s) \<Rightarrow> (Inl e, q\<lparr>q_store := s\<rparr>)
      | (Inr _, s) \<Rightarrow> (Inr (fj_id job), signal_queue (q\<lparr>q_store := s\<rparr>)))"

text \<open>\<open>EnqueueRouted\<close>: \<open>sha\<close> is the hexadecimal SHA-256 digest of the identity.\<close>

definition route_identity :: "string \<Rightarrow> int \<Rightarrow> int \<Rightarrow> int \<Rightarrow> string \<Rightarrow> string" where
  "route_identity kind peer message grouped target =
     kind @ '':'' @ fmt_int peer @ ''/'' @ (if grouped \<noteq> 0 then ''g:'' @ fmt_int grouped else ''m:'' @ fmt_int message) @ ''/'' @ target"

definition routed_job :: "string \<Rightarrow> string \<Rightarrow> int \<Rightarrow> int \<Rightarrow> string \<Rightarrow> string \<Rightarrow> string \<Rightarrow> string \<Rightarrow> bool \<Rightarrow> forwardJob" where
  "routed_job jid kind peer message origin target ruleID mode silent =
     job_zero\<lparr>fj_id := jid, fj_source := ''watch'', fj_sourcePeerKind := kind, fj_sourcePeerID := peer, fj_sourceMessageID := message,
       fj_originName := origin, fj_destination := target, fj_ruleID := ruleID, fj_mode := mode, fj_silent := silent,
       fj_status := ''queued'', fj_total := 1\<rparr>"

definition enqueueRouted :: "(string \<Rightarrow> string) \<Rightarrow> (nat \<Rightarrow> 'st forwardRepo) \<Rightarrow> string \<Rightarrow> int \<Rightarrow> int \<Rightarrow> int \<Rightarrow> string \<Rightarrow> string \<Rightarrow> string
    \<Rightarrow> string \<Rightarrow> bool \<Rightarrow> 'st queue \<Rightarrow> string res \<times> 'st queue" where
  "enqueueRouted sha rp kind peer message grouped origin target ruleID mode silent q =
     (let jid = ''route-'' @ sha (route_identity kind peer message grouped target)
      in case fr_get (rp 0) jid (q_store q) of
           Inl e \<Rightarrow> (Inl e, q)
         | Inr (Some j) \<Rightarrow> (Inr jid, q)
         | Inr None \<Rightarrow> enqueueMessage (rp 1) (routed_job jid kind peer message origin target ruleID mode silent) q)"

section \<open>Commands\<close>

fun unique_ids :: "string list \<Rightarrow> string list \<Rightarrow> string list" where
  "unique_ids seen [] = []"
| "unique_ids seen (i # ids) =
     (let t = trim_space i
      in if t = [] \<or> t \<in> set seen then unique_ids seen ids else t # unique_ids (t # seen) ids)"

definition uniqueIDs :: "string list \<Rightarrow> string list" where
  "uniqueIDs ids = unique_ids [] ids"

text \<open>\<open>ForwardActionResult\<close>; an error is listed with its id.\<close>

record actionResult =
  ac_matched :: nat
  ac_changed :: nat
  ac_skipped :: nat
  ac_errors :: "(string \<times> err) list"

definition no_action :: actionResult where
  "no_action = \<lparr>ac_matched = 0, ac_changed = 0, ac_skipped = 0, ac_errors = []\<rparr>"

definition ac_fail :: "string \<Rightarrow> err \<Rightarrow> actionResult \<Rightarrow> actionResult" where
  "ac_fail i e r = r\<lparr>ac_errors := ac_errors r @ [(i, e)]\<rparr>"

definition ac_skip :: "actionResult \<Rightarrow> actionResult" where
  "ac_skip r = r\<lparr>ac_skipped := Suc (ac_skipped r)\<rparr>"

definition ac_match :: "actionResult \<Rightarrow> actionResult" where
  "ac_match r = r\<lparr>ac_matched := Suc (ac_matched r), ac_changed := Suc (ac_changed r)\<rparr>"

fun update_loop :: "(nat \<Rightarrow> 'st forwardRepo) \<Rightarrow> nat \<Rightarrow> string list \<Rightarrow> (forwardJob \<Rightarrow> forwardJob option) \<Rightarrow> actionResult \<Rightarrow> 'st
    \<Rightarrow> actionResult \<times> 'st" where
  "update_loop rp n [] fn r s = (r, s)"
| "update_loop rp n (i # ids) fn r s =
     (case fr_update (rp n) i fn s of
        (Inl e, s1) \<Rightarrow> update_loop rp (Suc n) ids fn (ac_fail i e r) s1
      | (Inr changed, s1) \<Rightarrow> update_loop rp (Suc n) ids fn (if changed then ac_match r else ac_skip r) s1)"

definition queue_update :: "(nat \<Rightarrow> 'st forwardRepo) \<Rightarrow> string list \<Rightarrow> (forwardJob \<Rightarrow> forwardJob option) \<Rightarrow> 'st queue
    \<Rightarrow> actionResult \<times> 'st queue" where
  "queue_update rp ids fn q =
     (case update_loop rp 0 (uniqueIDs ids) fn no_action (q_store q) of (r, s) \<Rightarrow> (r, q\<lparr>q_store := s\<rparr>))"

definition pause_change :: "forwardJob \<Rightarrow> forwardJob option" where
  "pause_change j =
     (if fj_status j = ''queued'' \<or> fj_status j = ''retrying''
      then Some (j\<lparr>fj_status := ''paused'', fj_nextAttemptAt := None\<rparr>) else None)"

definition queue_pause :: "(nat \<Rightarrow> 'st forwardRepo) \<Rightarrow> string list \<Rightarrow> 'st queue \<Rightarrow> actionResult \<times> 'st queue" where
  "queue_pause rp ids q = queue_update rp ids pause_change q"

definition resume_change :: "forwardJob \<Rightarrow> forwardJob option" where
  "resume_change j =
     (if fj_status j = ''paused'' \<or> fj_status j = ''error'' \<or> fj_status j = ''retrying''
      then Some (j\<lparr>fj_status := ''queued'', fj_nextAttemptAt := None, fj_error := [], fj_attempts := 0, fj_finishedAt := None\<rparr>)
      else None)"

definition queue_resume :: "(nat \<Rightarrow> 'st forwardRepo) \<Rightarrow> string list \<Rightarrow> 'st queue \<Rightarrow> actionResult \<times> 'st queue" where
  "queue_resume rp ids q = (case queue_update rp ids resume_change q of (r, q1) \<Rightarrow> (r, signal_queue q1))"

definition cancelIfActive :: "string \<Rightarrow> 'st queue \<Rightarrow> 'st queue" where
  "cancelIfActive i q = (if q_activeID q = i \<and> q_activeCancel q \<noteq> None then q\<lparr>q_activeCancel := Some True\<rparr> else q)"

text \<open>\<open>Delete\<close>: two calls of the repository for each id.\<close>

fun delete_loop :: "(nat \<Rightarrow> 'st forwardRepo) \<Rightarrow> nat \<Rightarrow> string list \<Rightarrow> actionResult \<Rightarrow> 'st queue \<Rightarrow> actionResult \<times> 'st queue" where
  "delete_loop rp n [] r q = (r, q)"
| "delete_loop rp n (i # ids) r q =
     (case fr_get (rp n) i (q_store q) of
        Inl e \<Rightarrow> delete_loop rp (n + 2) ids (ac_fail i e r) q
      | Inr None \<Rightarrow> delete_loop rp (n + 2) ids (ac_skip r) q
      | Inr (Some j) \<Rightarrow>
          (case fr_remove (rp (n + 1)) i (q_store q) of
             (Inl e, s) \<Rightarrow> delete_loop rp (n + 2) ids (ac_fail i e r) (q\<lparr>q_store := s\<rparr>)
           | (Inr _, s) \<Rightarrow> delete_loop rp (n + 2) ids (ac_match r) (cancelIfActive i (q\<lparr>q_store := s\<rparr>))))"

definition queue_delete :: "(nat \<Rightarrow> 'st forwardRepo) \<Rightarrow> string list \<Rightarrow> 'st queue \<Rightarrow> actionResult \<times> 'st queue" where
  "queue_delete rp ids q = delete_loop rp 0 (uniqueIDs ids) no_action q"

text \<open>\<open>List\<close>: a stable sort of the records, jobs in progress first, the latest first; \<open>RunningCount\<close>.\<close>

definition list_jobs :: "'st forwardRepo \<Rightarrow> 'st queue \<Rightarrow> forwardJob list res \<times> 'st queue" where
  "list_jobs repo q =
     (case fr_records repo (q_store q) of
        (r, s) \<Rightarrow> (and_then r (\<lambda>js. Inr (sort_key (\<lambda>j. (job_terminal j, - fj_createdAt j)) js)), q\<lparr>q_store := s\<rparr>))"

definition runningCount :: "'st forwardRepo \<Rightarrow> 'st queue \<Rightarrow> nat res \<times> 'st queue" where
  "runningCount repo q =
     (case fr_records repo (q_store q) of
        (r, s) \<Rightarrow> (and_then r (\<lambda>js. Inr (length (filter (\<lambda>j. \<not> job_terminal j) js))), q\<lparr>q_store := s\<rparr>))"

section \<open>The worker\<close>

definition recover_change :: "forwardJob \<Rightarrow> forwardJob option" where
  "recover_change j = (if fj_status j = ''running'' then Some (j\<lparr>fj_status := ''queued'', fj_startedAt := None\<rparr>) else None)"

fun recover_loop :: "(nat \<Rightarrow> 'st forwardRepo) \<Rightarrow> nat \<Rightarrow> forwardJob list \<Rightarrow> 'st \<Rightarrow> 'st" where
  "recover_loop rp n [] s = s"
| "recover_loop rp n (j # js) s =
     recover_loop rp (Suc n) js (if fj_status j \<noteq> ''running'' then s else snd (fr_update (rp n) (fj_id j) recover_change s))"

definition recoverRunning :: "(nat \<Rightarrow> 'st forwardRepo) \<Rightarrow> 'st \<Rightarrow> 'st" where
  "recoverRunning rp s =
     (case fr_records (rp 0) s of (Inl e, s1) \<Rightarrow> s1 | (Inr js, s1) \<Rightarrow> recover_loop rp 1 js s1)"

definition terminalTime :: "forwardJob \<Rightarrow> instant" where
  "terminalTime j = (case fj_finishedAt j of Some t \<Rightarrow> t | None \<Rightarrow> fj_createdAt j)"

fun prune_loop :: "(nat \<Rightarrow> 'st forwardRepo) \<Rightarrow> duration \<Rightarrow> instant \<Rightarrow> int \<Rightarrow> nat \<Rightarrow> forwardJob list \<Rightarrow> 'st \<Rightarrow> 'st" where
  "prune_loop rp retention now overCap n [] s = s"
| "prune_loop rp retention now overCap n (j # js) s =
     prune_loop rp retention now overCap (Suc n) js
       (if int n < overCap \<or> retention < time_sub now (terminalTime j) then snd (fr_remove (rp n) (fj_id j) s) else s)"

definition pruneTerminal :: "(nat \<Rightarrow> 'st forwardRepo) \<Rightarrow> policy \<Rightarrow> instant \<Rightarrow> forwardJob list \<Rightarrow> 'st \<Rightarrow> 'st" where
  "pruneTerminal rp p now js s =
     (let terminal = sort_key terminalTime (filter job_terminal js);
          overCap = (if po_history p < int (length terminal) then int (length terminal) - po_history p else 0)
      in if terminal = [] then s else prune_loop rp (po_retention p) now overCap 0 terminal s)"

definition job_ready :: "instant \<Rightarrow> forwardJob \<Rightarrow> bool" where
  "job_ready now j \<longleftrightarrow> (fj_status j = ''queued'' \<or> fj_status j = ''retrying'')
     \<and> \<not> (case fj_nextAttemptAt j of None \<Rightarrow> False | Some t \<Rightarrow> now < t)"

fun pick_best :: "instant \<Rightarrow> forwardJob option \<Rightarrow> forwardJob list \<Rightarrow> forwardJob option" where
  "pick_best now best [] = best"
| "pick_best now best (j # js) =
     pick_best now (if job_ready now j \<and> (case best of None \<Rightarrow> True | Some b \<Rightarrow> fj_createdAt j < fj_createdAt b)
                    then Some j else best) js"

definition pickNext :: "'st forwardRepo \<Rightarrow> (nat \<Rightarrow> 'st forwardRepo) \<Rightarrow> policy \<Rightarrow> instant \<Rightarrow> instant \<Rightarrow> 'st \<Rightarrow> forwardJob option \<times> 'st" where
  "pickNext repo rp p prune_now now s =
     (case fr_records repo s of
        (Inl e, s1) \<Rightarrow> (None, s1)
      | (Inr js, s1) \<Rightarrow> (pick_best now None js, pruneTerminal rp p prune_now js s1))"

definition claim_change :: "instant \<Rightarrow> forwardJob \<Rightarrow> forwardJob option" where
  "claim_change now j =
     (if fj_status j \<noteq> ''queued'' \<and> fj_status j \<noteq> ''retrying'' then None
      else Some (j\<lparr>fj_status := ''running'', fj_startedAt := Some now, fj_error := []\<rparr>))"

definition progress_change :: "forwardJob \<Rightarrow> forwardJob \<Rightarrow> forwardJob option" where
  "progress_change progress j = (if fj_status j \<noteq> ''running'' then None else Some (progress\<lparr>fj_status := ''running''\<rparr>))"

text \<open>
  The outcome of a run: the job to store, and whether the user is to be told. \<open>text\<close> is the message of an
  error; the policy is read once for the limit and once for the delay.
\<close>

definition finish_job :: "(err \<Rightarrow> string) \<Rightarrow> policy \<Rightarrow> policy \<Rightarrow> instant \<Rightarrow> err option \<Rightarrow> forwardJob \<Rightarrow> forwardJob \<times> bool" where
  "finish_job text p p' fin runErr j =
     (case runErr of
        None \<Rightarrow> (j\<lparr>fj_status := ''done'', fj_done := fj_total j, fj_error := [], fj_finishedAt := Some fin, fj_nextAttemptAt := None\<rparr>, False)
      | Some e \<Rightarrow>
          if errors_is e Canceled then (j\<lparr>fj_status := ''queued'', fj_startedAt := None\<rparr>, False)
          else let j1 = j\<lparr>fj_attempts := wrap64 (fj_attempts j + 1), fj_error := text e, fj_startedAt := None\<rparr>
               in if po_attempts p \<le> fj_attempts j1
                  then (j1\<lparr>fj_status := ''error'', fj_finishedAt := Some fin, fj_nextAttemptAt := None\<rparr>, True)
                  else (j1\<lparr>fj_status := ''retrying'', fj_nextAttemptAt := Some (fin + policy_backoff p' (fj_attempts j1))\<rparr>, False))"

definition finish_change :: "forwardJob \<Rightarrow> forwardJob \<Rightarrow> forwardJob option" where
  "finish_change j current = (if fj_status current \<noteq> ''running'' then None else Some j)"

text \<open>
  The end of \<open>runJob\<close> for a worker that is not shutting down: the result of the last update (\<open>None\<close> when the
  job was deleted meanwhile) and whether the user is notified.
\<close>

definition finish_run :: "(err \<Rightarrow> string) \<Rightarrow> 'st forwardRepo \<Rightarrow> 'st forwardRepo \<Rightarrow> policy \<Rightarrow> policy \<Rightarrow> instant \<Rightarrow> err option \<Rightarrow> forwardJob
    \<Rightarrow> 'st \<Rightarrow> bool res option \<times> bool \<times> 'st" where
  "finish_run text repo repo' p p' fin runErr j s =
     (case fr_get repo (fj_id j) s of
        Inl e \<Rightarrow> (Some (Inl e), False, s)
      | Inr None \<Rightarrow> (None, False, s)
      | Inr (Some _) \<Rightarrow>
          (case finish_job text p p' fin runErr j of
             (j1, notify) \<Rightarrow>
               (case fr_update repo' (fj_id j) (finish_change j1) s of
                  (r, s1) \<Rightarrow> (Some r, notify \<and> r = Inr True, s1))))"

text \<open>Where \<open>Serve\<close> is, and the queue with it. \<open>sv_lost\<close> remembers the running jobs that no worker will finish.\<close>

datatype worker = Stopped | Idle | Claiming forwardJob | Running forwardJob

record 'st served =
  sv_queue :: "'st queue"
  sv_worker :: worker
  sv_lost :: "string set"

definition running_ids :: "(string \<rightharpoonup> forwardJob) \<Rightarrow> string set" where
  "running_ids m = {i. \<exists>j. m i = Some j \<and> fj_status j = ''running''}"

definition set_active :: "string \<Rightarrow> 'st queue \<Rightarrow> 'st queue" where
  "set_active i q = q\<lparr>q_activeID := i, q_activeCancel := Some False\<rparr>"

definition clear_active :: "string \<Rightarrow> 'st queue \<Rightarrow> 'st queue" where
  "clear_active i q = (if q_activeID q = i then q\<lparr>q_activeID := [], q_activeCancel := None\<rparr> else q)"

text \<open>
  What the clients of the queue do; \<open>R\<close> is the set of repositories the calls may meet (one for each outcome
  of the context and each reading of the clock).
\<close>

inductive client_step :: "'st forwardRepo set \<Rightarrow> 'st queue \<Rightarrow> 'st queue \<Rightarrow> bool" for R where
  links: "range rp \<subseteq> R \<Longrightarrow> enqueueLinks rp nid ls target name mode silent q = (ids, e, q') \<Longrightarrow> client_step R q q'"
| message: "repo \<in> R \<Longrightarrow> int64_ok peer \<Longrightarrow> int64_ok msg \<Longrightarrow>
    enqueueMessage repo (message_job jid kind peer msg origin target name mode silent) q = (r, q') \<Longrightarrow> client_step R q q'"
| routed: "range rp \<subseteq> R \<Longrightarrow> int64_ok peer \<Longrightarrow> int64_ok msg \<Longrightarrow>
    enqueueRouted sha rp kind peer msg grouped origin target ruleID mode silent q = (r, q') \<Longrightarrow> client_step R q q'"
| pause: "range rp \<subseteq> R \<Longrightarrow> queue_pause rp ids q = (r, q') \<Longrightarrow> client_step R q q'"
| resume: "range rp \<subseteq> R \<Longrightarrow> queue_resume rp ids q = (r, q') \<Longrightarrow> client_step R q q'"
| delete: "range rp \<subseteq> R \<Longrightarrow> queue_delete rp ids q = (r, q') \<Longrightarrow> client_step R q q'"
| list: "repo \<in> R \<Longrightarrow> list_jobs repo q = (js, q') \<Longrightarrow> client_step R q q'"

text \<open>
  The worker: \<open>Serve\<close> starts only when nobody serves, recovers, and then alternates between picking a job and
  running it. \<open>Forward\<close> fills in names and progress of its copy of the job and reports it, but keeps
  its id and its counters in range. The worker may be stopped anywhere; a running job is then left running.
\<close>

inductive worker_step :: "('st \<Rightarrow> string \<rightharpoonup> forwardJob) \<Rightarrow> 'st forwardRepo set \<Rightarrow> 'st served \<Rightarrow> 'st served \<Rightarrow> bool" for view R where
  serve: "sv_worker v = Stopped \<Longrightarrow> \<not> q_serving (sv_queue v) \<Longrightarrow> range rp \<subseteq> R \<Longrightarrow>
    s' = recoverRunning rp (q_store (sv_queue v)) \<Longrightarrow>
    worker_step view R v \<lparr>sv_queue = (sv_queue v)\<lparr>q_serving := True, q_store := s'\<rparr>, sv_worker = Idle, sv_lost = running_ids (view s')\<rparr>"
| pick: "sv_worker v = Idle \<Longrightarrow> repo \<in> R \<Longrightarrow> range rp \<subseteq> R \<Longrightarrow> pickNext repo rp p prune_now now (q_store (sv_queue v)) = (Some j, s') \<Longrightarrow>
    worker_step view R v (v\<lparr>sv_queue := set_active (fj_id j) ((sv_queue v)\<lparr>q_store := s'\<rparr>), sv_worker := Claiming j\<rparr>)"
| wait: "sv_worker v = Idle \<Longrightarrow> repo \<in> R \<Longrightarrow> range rp \<subseteq> R \<Longrightarrow> pickNext repo rp p prune_now now (q_store (sv_queue v)) = (None, s') \<Longrightarrow>
    worker_step view R v (v\<lparr>sv_queue := (sv_queue v)\<lparr>q_store := s', q_wake := False\<rparr>\<rparr>)"
| claim: "sv_worker v = Claiming j \<Longrightarrow> repo \<in> R \<Longrightarrow> fr_update repo (fj_id j) (claim_change now) (q_store (sv_queue v)) = (Inr True, s') \<Longrightarrow>
    view (q_store (sv_queue v)) (fj_id j) = Some current \<Longrightarrow> claim_change now current = Some j' \<Longrightarrow>
    worker_step view R v (v\<lparr>sv_queue := (sv_queue v)\<lparr>q_store := s'\<rparr>, sv_worker := Running j'\<rparr>)"
| claim_fails: "sv_worker v = Claiming j \<Longrightarrow> repo \<in> R \<Longrightarrow> fr_update repo (fj_id j) (claim_change now) (q_store (sv_queue v)) = (r, s') \<Longrightarrow>
    r \<noteq> Inr True \<Longrightarrow>
    worker_step view R v (v\<lparr>sv_queue := clear_active (fj_id j) ((sv_queue v)\<lparr>q_store := s'\<rparr>), sv_worker := Idle\<rparr>)"
| progress: "sv_worker v = Running j \<Longrightarrow> repo \<in> R \<Longrightarrow> job_ok j' \<Longrightarrow> fj_id j' = fj_id j \<Longrightarrow>
    fr_update repo (fj_id j') (progress_change j') (q_store (sv_queue v)) = (r, s') \<Longrightarrow>
    worker_step view R v (v\<lparr>sv_queue := (sv_queue v)\<lparr>q_store := s'\<rparr>, sv_worker := Running j'\<rparr>)"
| finish: "sv_worker v = Running j \<Longrightarrow> repo \<in> R \<Longrightarrow> repo' \<in> R \<Longrightarrow> job_ok j' \<Longrightarrow> fj_id j' = fj_id j \<Longrightarrow>
    finish_run text repo repo' p p' fin runErr j' (q_store (sv_queue v)) = (r, notify, s') \<Longrightarrow>
    worker_step view R v (v\<lparr>sv_queue := clear_active (fj_id j) ((sv_queue v)\<lparr>q_store := s'\<rparr>), sv_worker := Idle,
      sv_lost := (case r of Some (Inl e) \<Rightarrow> insert (fj_id j) (sv_lost v) | _ \<Rightarrow> sv_lost v)\<rparr>)"
| stop: "sv_worker v \<noteq> Stopped \<Longrightarrow>
    worker_step view R v (v\<lparr>sv_queue := (sv_queue v)\<lparr>q_serving := False, q_activeID := [], q_activeCancel := None\<rparr>, sv_worker := Stopped\<rparr>)"

inductive queue_step :: "('st \<Rightarrow> string \<rightharpoonup> forwardJob) \<Rightarrow> 'st forwardRepo set \<Rightarrow> 'st served \<Rightarrow> 'st served \<Rightarrow> bool" for view R where
  client: "client_step R (sv_queue v) q' \<Longrightarrow> queue_step view R v (v\<lparr>sv_queue := q'\<rparr>)"
| worker: "worker_step view R v v' \<Longrightarrow> queue_step view R v v'"

section \<open>One job at a time\<close>

text \<open>A change that starts no job.\<close>

definition starts_none :: "(forwardJob \<Rightarrow> forwardJob option) \<Rightarrow> bool" where
  "starts_none change \<longleftrightarrow> (\<forall>j j'. change j = Some j' \<longrightarrow> fj_status j' = ''running'' \<longrightarrow> fj_status j = ''running'')"

lemma changes_start_none: "starts_none pause_change" "starts_none resume_change" "starts_none recover_change"
  "starts_none (progress_change j)"
  by (auto simp: starts_none_def pause_change_def resume_change_def recover_change_def progress_change_def split: if_splits)

lemma active_selectors [simp]:
  "q_store (set_active i q) = q_store q" "q_serving (set_active i q) = q_serving q"
  "q_store (clear_active i q) = q_store q" "q_serving (clear_active i q) = q_serving q"
  by (simp_all add: set_active_def clear_active_def)

locale forward_queue =
  fixes R :: "'st forwardRepo set" and view :: "'st \<Rightarrow> string \<rightharpoonup> forwardJob" and ok :: "'st \<Rightarrow> bool"
  assumes repository: "repo \<in> R \<Longrightarrow> forward_repository repo view ok"
begin

text \<open>A change of the store that starts no job.\<close>

definition calm :: "'st \<Rightarrow> 'st \<Rightarrow> bool" where
  "calm s s' \<longleftrightarrow> ok s' \<and> running_ids (view s') \<subseteq> running_ids (view s)"

lemma calm_refl: "ok s \<Longrightarrow> calm s s"
  by (simp add: calm_def)

lemma calm_trans: "calm s t \<Longrightarrow> calm t u \<Longrightarrow> calm s u"
  by (auto simp: calm_def)

lemma calm_ok: "calm s s' \<Longrightarrow> ok s'"
  by (simp add: calm_def)

lemma save_calm:
  assumes "repo \<in> R" "ok s" "job_ok j" "fj_status j \<noteq> ''running''" "fr_save repo j s = (r, s')"
  shows "calm s s'"
  using forward_repository.save_law [OF repository [OF assms(1)] assms(2,3,5)] assms(4)
  by (cases r) (auto simp: calm_def running_ids_def split: if_splits)

lemma remove_calm:
  assumes "repo \<in> R" "ok s" "fr_remove repo i s = (r, s')"
  shows "calm s s' \<and> dom (view s') \<subseteq> dom (view s)"
  using forward_repository.remove_law [OF repository [OF assms(1)] assms(2,3)]
  by (auto simp: calm_def running_ids_def split: sum.splits if_splits)

lemma records_calm:
  assumes "repo \<in> R" "ok s" "fr_records repo s = (r, s')"
  shows "calm s s' \<and> view s' = view s"
  using forward_repository.records_law [OF repository [OF assms(1)] assms(2,3)] by (auto simp: calm_def)

lemma update_effect:
  assumes "repo \<in> R" "ok s" "keeps_ok change" "fr_update repo i change s = (r, s')"
  shows "ok s' \<and> ((r \<noteq> Inr True \<and> view s' = view s) \<or> (r = Inr True \<and> (\<exists>j j' now. view s i = Some j \<and> change j = Some j'
     \<and> view s' = (view s)(i \<mapsto> j'\<lparr>fj_id := i, fj_updatedAt := now\<rparr>))))"
  using forward_repository.update_law [OF repository [OF assms(1)] assms(2,3,4)]
  by (cases r) (auto split: option.splits bind_splits)

lemma update_declined:
  assumes "repo \<in> R" "ok s" "keeps_ok change" "fr_update repo i change s = (Inr False, s')"
    "view s i = Some j"
  shows "change j = None"
  using forward_repository.update_law [OF repository [OF assms(1)] assms(2,3,4)] assms(5)
  by (auto split: option.splits)

lemma update_calm:
  assumes "repo \<in> R" "ok s" "keeps_ok change"
    "starts_none change" "fr_update repo i change s = (r, s')"
  shows "calm s s' \<and> dom (view s') \<subseteq> dom (view s)"
proof -
  note [simp] = starts_none_def
  have u: "ok s' \<and> ((r \<noteq> Inr True \<and> view s' = view s) \<or> (r = Inr True \<and> (\<exists>j j' now. view s i = Some j \<and> change j = Some j'
     \<and> view s' = (view s)(i \<mapsto> j'\<lparr>fj_id := i, fj_updatedAt := now\<rparr>))))"
    by (rule update_effect [OF assms(1,2,3,5)])
  then show ?thesis
  proof (elim conjE disjE exE)
    fix j j' now
    assume h: "ok s'" "view s i = Some j" "change j = Some j'" "view s' = (view s)(i \<mapsto> j'\<lparr>fj_id := i, fj_updatedAt := now\<rparr>)"
    with assms(4) show ?thesis by (auto simp: calm_def running_ids_def split: if_splits)
  qed (auto simp: calm_def)
qed

lemma change_ok: "keeps_ok pause_change" "keeps_ok resume_change" "keeps_ok recover_change" "keeps_ok (claim_change now)"
  by (auto simp: keeps_ok_def job_ok_def pause_change_def resume_change_def recover_change_def claim_change_def split: if_splits)

lemma finish_job_ok: "job_ok j \<Longrightarrow> job_ok (fst (finish_job text p p' fin runErr j))"
  by (auto simp: finish_job_def job_ok_def split: option.splits)

lemma finish_job_status: "fj_status (fst (finish_job text p p' fin runErr j)) \<noteq> ''running''"
  by (auto simp: finish_job_def split: option.splits)

lemma finish_job_id: "fj_id (fst (finish_job text p p' fin runErr j)) = fj_id j"
  by (auto simp: finish_job_def split: option.splits)

lemma update_loop_calm:
  assumes "range rp \<subseteq> R" "ok s" "keeps_ok fn" "starts_none fn"
    "update_loop rp n ids fn r s = (r', s')"
  shows "calm s s'"
  using assms(2,5)
proof (induction ids arbitrary: n r s)
  case Nil
  then show ?case by (simp add: calm_refl)
next
  case (Cons i ids)
  obtain x s1 where u: "fr_update (rp n) i fn s = (x, s1)" by fastforce
  have "rp n \<in> R" using assms(1) by blast
  then have c: "calm s s1" using update_calm [OF _ Cons.prems(1) assms(3,4) u] by blast
  from Cons.prems(2) u obtain r1 where "update_loop rp (Suc n) ids fn r1 s1 = (r', s')" by (cases x) auto
  from Cons.IH [OF calm_ok [OF c] this] c show ?case by (blast intro: calm_trans)
qed

lemma recover_loop_calm:
  assumes "range rp \<subseteq> R" "ok s"
  shows "calm s (recover_loop rp n js s) \<and> dom (view (recover_loop rp n js s)) \<subseteq> dom (view s)"
  using assms(2)
proof (induction js arbitrary: n s)
  case Nil
  then show ?case by (simp add: calm_refl)
next
  case (Cons j js)
  obtain x s1 where u: "fr_update (rp n) (fj_id j) recover_change s = (x, s1)" by fastforce
  have "rp n \<in> R" using assms(1) by blast
  then have "calm s s1 \<and> dom (view s1) \<subseteq> dom (view s)"
    using update_calm [OF _ Cons.prems change_ok(3) changes_start_none(3) u] by blast
  moreover define s2 where "s2 = (if fj_status j \<noteq> ''running'' then s else s1)"
  ultimately have c: "calm s s2 \<and> dom (view s2) \<subseteq> dom (view s)" using calm_refl [OF Cons.prems] by simp
  have "recover_loop rp n (j # js) s = recover_loop rp (Suc n) js s2" by (simp add: u s2_def)
  with c Cons.IH [of s2 "Suc n"] calm_ok [of s s2] show ?case by (metis calm_trans order_trans)
qed

lemma prune_loop_calm:
  assumes "range rp \<subseteq> R" "ok s"
  shows "calm s (prune_loop rp ret now cap n js s) \<and> dom (view (prune_loop rp ret now cap n js s)) \<subseteq> dom (view s)"
  using assms(2)
proof (induction js arbitrary: n s)
  case Nil
  then show ?case by (simp add: calm_refl)
next
  case (Cons j js)
  define s1 where "s1 = (if int n < cap \<or> ret < time_sub now (terminalTime j) then snd (fr_remove (rp n) (fj_id j) s) else s)"
  have "rp n \<in> R" using assms(1) by blast
  then have c: "calm s s1 \<and> dom (view s1) \<subseteq> dom (view s)"
    using remove_calm [OF _ Cons.prems prod.collapse [symmetric]] calm_refl [OF Cons.prems] unfolding s1_def by simp
  with Cons.IH [of s1 "Suc n"] calm_ok [of s s1] show ?case
    unfolding prune_loop.simps s1_def [symmetric] by (meson calm_trans order_trans)
qed

lemma pick_calm:
  assumes "repo \<in> R" "range rp \<subseteq> R" "ok s" "pickNext repo rp p prune_now now s = (best, s')"
  shows "calm s s' \<and> dom (view s') \<subseteq> dom (view s)"
proof -
  obtain x s1 where r: "fr_records repo s = (x, s1)" by fastforce
  note c = records_calm [OF assms(1,3) r]
  show ?thesis
  proof (cases x)
    case (Inl e)
    with assms(4) r c show ?thesis by (simp add: pickNext_def)
  next
    case (Inr js)
    with assms(4) r have "s' = pruneTerminal rp p prune_now js s1" by (simp add: pickNext_def)
    with prune_loop_calm [OF assms(2), of s1] c calm_trans calm_refl show ?thesis
      unfolding pruneTerminal_def Let_def by (metis calm_ok order_refl)
  qed
qed

lemma enqueue_loop_calm:
  assumes "range rp \<subseteq> R" "ok s" "\<And>jid l. job_ok (mk jid l) \<and> fj_status (mk jid l) \<noteq> ''running''"
    "enqueue_links_loop rp nid i ls mk s = (ids, e, s')"
  shows "calm s s'"
  using assms(2,4)
proof (induction ls arbitrary: i s ids)
  case Nil
  then show ?case by (simp add: calm_refl)
next
  case (Cons l ls)
  have "rp i \<in> R" using assms(1) by blast
  obtain x s1 where sv: "fr_save (rp i) (mk (nid i) (trim_space l)) s = (x, s1)" by fastforce
  have c: "calm s s1" using save_calm [OF \<open>rp i \<in> R\<close> Cons.prems(1) _ _ sv] assms(3) by blast
  show ?case
  proof (cases "trim_space l = []")
    case True
    with Cons show ?thesis by simp
  next
    case False
    show ?thesis
    proof (cases x)
      case (Inl er)
      with False Cons.prems(2) sv c show ?thesis by simp
    next
      case (Inr u)
      with False Cons.prems(2) sv obtain ids' where "enqueue_links_loop rp nid (Suc i) ls mk s1 = (ids', e, s')"
        by (auto split: prod.splits)
      from Cons.IH [OF calm_ok [OF c] this] c show ?thesis by (rule calm_trans [rotated])
    qed
  qed
qed

lemma enqueue_message_calm:
  assumes "repo \<in> R" "ok (q_store q)" "job_ok j" "fj_status j \<noteq> ''running''" "enqueueMessage repo j q = (r, q')"
  shows "calm (q_store q) (q_store q') \<and> q_serving q' = q_serving q"
proof -
  obtain x s1 where sv: "fr_save repo j (q_store q) = (x, s1)" by fastforce
  from save_calm [OF assms(1-4) sv] assms(5) sv show ?thesis by (cases x) (auto simp: enqueueMessage_def signal_queue_def)
qed

lemma delete_loop_calm:
  assumes "range rp \<subseteq> R" "ok (q_store q)" "delete_loop rp n ids r q = (r', q')"
  shows "calm (q_store q) (q_store q') \<and> q_serving q' = q_serving q"
  using assms(2,3)
proof (induction ids arbitrary: n r q)
  case Nil
  then show ?case by (simp add: calm_refl)
next
  case (Cons i ids)
  have in_R: "rp m \<in> R" for m using assms(1) by blast
  obtain y s1 where rm: "fr_remove (rp (n + 1)) i (q_store q) = (y, s1)" by fastforce
  have c: "calm (q_store q) s1" using remove_calm [OF in_R Cons.prems(1) rm] by blast
  have ex: "\<exists>n' r1 q1. delete_loop rp n' ids r1 q1 = (r', q') \<and> calm (q_store q) (q_store q1) \<and> q_serving q1 = q_serving q"
  proof (cases "fr_get (rp n) i (q_store q)")
    case (Inl e)
    with Cons.prems calm_refl show ?thesis by force
  next
    case (Inr g)
    show ?thesis
    proof (cases g)
      case None
      with Inr Cons.prems calm_refl show ?thesis by force
    next
      case (Some j)
      show ?thesis
      proof (cases y)
        case (Inl e)
        with Some Inr rm Cons.prems(2) c show ?thesis
          by (intro exI [of _ "n + 2"] exI [of _ "ac_fail i e r"] exI [of _ "q\<lparr>q_store := s1\<rparr>"]) simp
      next
        case (Inr u)
        with Some \<open>fr_get (rp n) i (q_store q) = Inr g\<close> rm Cons.prems(2) c show ?thesis
          by (intro exI [of _ "n + 2"] exI [of _ "ac_match r"] exI [of _ "cancelIfActive i (q\<lparr>q_store := s1\<rparr>)"])
             (simp add: cancelIfActive_def)
      qed
    qed
  qed
  then obtain n' r1 q1 where q1: "delete_loop rp n' ids r1 q1 = (r', q')" "calm (q_store q) (q_store q1)" "q_serving q1 = q_serving q"
    by blast
  from Cons.IH [OF calm_ok [OF q1(2)] q1(1)] q1 show ?case by (auto intro: calm_trans)
qed

lemma job_templates:
  "job_ok (link_job jid l target name mode silent)" "fj_status (link_job jid l target name mode silent) = ''queued''"
  "int64_ok peer \<Longrightarrow> int64_ok msg \<Longrightarrow> job_ok (message_job jid kind peer msg origin target name mode silent)"
  "fj_status (message_job jid kind peer msg origin target name mode silent) = ''queued''"
  "int64_ok peer \<Longrightarrow> int64_ok msg \<Longrightarrow> job_ok (routed_job jid kind peer msg origin target ruleID mode silent)"
  "fj_status (routed_job jid kind peer msg origin target ruleID mode silent) = ''queued''"
  by (simp_all add: job_ok_def link_job_def message_job_def routed_job_def job_zero_def int64_ok_def)

lemma update_queue_calm:
  assumes "range rp \<subseteq> R" "ok (q_store q)" "keeps_ok fn" "starts_none fn" "queue_update rp ids fn q = (r, q')"
  shows "calm (q_store q) (q_store q') \<and> q_serving q' = q_serving q"
proof -
  obtain r1 s1 where u: "update_loop rp 0 (uniqueIDs ids) fn no_action (q_store q) = (r1, s1)" by fastforce
  from update_loop_calm [OF assms(1-4) u] assms(5) u show ?thesis by (auto simp: queue_update_def)
qed

lemma client_calm:
  assumes "client_step R q q'" "ok (q_store q)"
  shows "calm (q_store q) (q_store q') \<and> q_serving q' = q_serving q"
  using assms(1)
proof cases
  case (links rp nid ls target name mode silent ids e)
  obtain ids' e' s' where l: "enqueue_links_loop rp nid 0 ls (\<lambda>jid link. link_job jid link target name mode silent) (q_store q) = (ids', e', s')"
    by (metis prod_cases3)
  have "calm (q_store q) s'" by (rule enqueue_loop_calm [OF links(1) assms(2) _ l]) (simp add: job_templates)
  with links(2) l show ?thesis by (cases "ids' = []") (auto simp: enqueueLinks_def signal_queue_def)
next
  case (message repo peer msg jid kind origin target name mode silent r)
  with enqueue_message_calm [OF message(1) assms(2) _ _ message(4)] show ?thesis by (simp add: job_templates)
next
  case (routed rp peer msg sha kind grouped origin target ruleID mode silent r)
  have in_R: "rp m \<in> R" for m using routed(1) by blast
  let ?jid = "''route-'' @ sha (route_identity kind peer msg grouped target)"
  show ?thesis
  proof (cases "fr_get (rp 0) ?jid (q_store q) = Inr None")
    case False
    with routed(4) have "q' = q" by (auto simp: enqueueRouted_def split: sum.splits option.splits)
    with calm_refl assms(2) show ?thesis by simp
  next
    case True
    with routed(4) have "enqueueMessage (rp 1) (routed_job ?jid kind peer msg origin target ruleID mode silent) q = (r, q')"
      by (simp add: enqueueRouted_def)
    from enqueue_message_calm [OF in_R assms(2) _ _ this] routed(2,3) show ?thesis by (simp add: job_templates)
  qed
next
  case (pause rp ids r)
  from update_queue_calm [OF pause(1) assms(2) change_ok(1) changes_start_none(1) pause(2) [unfolded queue_pause_def]] show ?thesis .
next
  case (resume rp ids r)
  then obtain q1 where q1: "queue_update rp ids resume_change q = (r, q1)" "q' = signal_queue q1"
    by (auto simp: queue_resume_def split: prod.splits)
  from update_queue_calm [OF resume(1) assms(2) change_ok(2) changes_start_none(2) q1(1)] q1(2) show ?thesis by (simp add: signal_queue_def)
next
  case (delete rp ids r)
  from delete_loop_calm [OF delete(1) assms(2) delete(2) [unfolded queue_delete_def]] show ?thesis .
next
  case (list repo js)
  obtain x s1 where r: "fr_records repo (q_store q) = (x, s1)" by fastforce
  from records_calm [OF list(1) assms(2) r] list(2) r show ?thesis by (auto simp: list_jobs_def)
qed

text \<open>
  While the queue is served, every running job is the one the worker runs, or one that was given up
  because the repository failed.
\<close>

definition queue_inv :: "'st served \<Rightarrow> bool" where
  "queue_inv v \<longleftrightarrow> ok (q_store (sv_queue v)) \<and> (q_serving (sv_queue v) \<longleftrightarrow> sv_worker v \<noteq> Stopped)
     \<and> (\<forall>i \<in> running_ids (view (q_store (sv_queue v))). sv_worker v \<noteq> Stopped \<longrightarrow>
          i \<in> sv_lost v \<or> (\<exists>j. sv_worker v = Running j \<and> fj_id j = i))"

lemma queue_invI:
  assumes "calm (q_store (sv_queue v)) (q_store (sv_queue v'))" "queue_inv v" "sv_worker v \<noteq> Stopped"
    "q_serving (sv_queue v') \<longleftrightarrow> sv_worker v' \<noteq> Stopped" "sv_lost v \<subseteq> sv_lost v'"
    "\<And>j. sv_worker v = Running j \<Longrightarrow> sv_worker v' \<noteq> Stopped \<Longrightarrow> fj_id j \<in> running_ids (view (q_store (sv_queue v')))
       \<Longrightarrow> fj_id j \<in> sv_lost v' \<or> (\<exists>j'. sv_worker v' = Running j' \<and> fj_id j' = fj_id j)"
  shows "queue_inv v'"
  unfolding queue_inv_def
proof (intro conjI ballI impI)
  show "ok (q_store (sv_queue v'))" using assms(1) by (rule calm_ok)
  show "q_serving (sv_queue v') = (sv_worker v' \<noteq> Stopped)" by (rule assms(4))
  fix i assume i: "i \<in> running_ids (view (q_store (sv_queue v')))" "sv_worker v' \<noteq> Stopped"
  with assms(1,2,3) have "i \<in> sv_lost v \<or> (\<exists>j. sv_worker v = Running j \<and> fj_id j = i)" by (auto simp: calm_def queue_inv_def)
  with assms(5,6) i show "i \<in> sv_lost v' \<or> (\<exists>j. sv_worker v' = Running j \<and> fj_id j = i)" by blast
qed

lemma finish_calm:
  assumes "repo \<in> R" "repo' \<in> R" "ok s" "job_ok j" "finish_run text repo repo' p p' fin runErr j s = (r, notify, s')"
  shows "calm s s' \<and> dom (view s') \<subseteq> dom (view s) \<and> ((\<exists>e. r = Some (Inl e)) \<or> fj_id j \<notin> running_ids (view s'))"
proof (cases "fr_get repo (fj_id j) s")
  case (Inl e)
  with assms(5) calm_refl [OF assms(3)] show ?thesis by (auto simp: finish_run_def)
next
  case (Inr g)
  then have g: "g = view s (fj_id j)" using forward_repository.get_law [OF repository [OF assms(1)] assms(3)] by blast
  show ?thesis
  proof (cases g)
    case None
    with Inr assms(5) calm_refl [OF assms(3)] g show ?thesis by (auto simp: finish_run_def running_ids_def)
  next
    case (Some cur)
    define j1 where "j1 = fst (finish_job text p p' fin runErr j)"
    obtain x where u: "fr_update repo' (fj_id j) (finish_change j1) s = (x, s')" and r: "r = Some x"
      using Some Inr assms(5) by (auto simp: finish_run_def j1_def split: prod.splits)
    have ch: "keeps_ok (finish_change j1)" "starts_none (finish_change j1)"
      using finish_job_ok [OF assms(4)] finish_job_status by (auto simp: keeps_ok_def starts_none_def finish_change_def j1_def split: if_splits)
    have "(\<exists>e. x = Inl e) \<or> fj_id j \<notin> running_ids (view s')"
    proof (cases x)
      case (Inr b)
      show ?thesis
      proof (cases b)
        case False
        with Inr u have "finish_change j1 cur = None"
          using update_declined [OF assms(2,3) ch(1)] Some g by auto
        moreover have "view s' = view s" using update_effect [OF assms(2,3) ch(1) u] Inr False by simp
        ultimately show ?thesis using Some g by (auto simp: running_ids_def finish_change_def split: if_splits)
      next
        case True
        with Inr update_effect [OF assms(2,3) ch(1) u] obtain now where "view s' (fj_id j) = Some (j1\<lparr>fj_id := fj_id j, fj_updatedAt := now\<rparr>)"
          by (auto simp: finish_change_def split: if_splits)
        then show ?thesis using finish_job_status by (auto simp: running_ids_def j1_def)
      qed
    qed simp
    with update_calm [OF assms(2,3) ch u] r show ?thesis by blast
  qed
qed

lemma progress_ok: "job_ok j \<Longrightarrow> keeps_ok (progress_change j)"
  by (auto simp: keeps_ok_def progress_change_def job_ok_def split: if_splits)

lemma worker_inv:
  assumes "worker_step view R v v'" "queue_inv v"
  shows "queue_inv v' \<and> dom (view (q_store (sv_queue v'))) \<subseteq> dom (view (q_store (sv_queue v)))"
proof -
  have ok: "ok (q_store (sv_queue v))" and sv: "q_serving (sv_queue v) \<longleftrightarrow> sv_worker v \<noteq> Stopped"
    using assms(2) by (auto simp: queue_inv_def)
  from assms(1) show ?thesis
  proof cases
    case (serve rp s')
    obtain x s1 where r: "fr_records (rp 0) (q_store (sv_queue v)) = (x, s1)" by fastforce
    have in_R: "rp m \<in> R" for m using serve(4) by blast
    note c = records_calm [OF in_R ok r]
    have "calm (q_store (sv_queue v)) s' \<and> dom (view s') \<subseteq> dom (view (q_store (sv_queue v)))"
    proof (cases x)
      case (Inl e)
      with c r serve(5) show ?thesis by (simp add: recoverRunning_def)
    next
      case (Inr js)
      with r serve(5) have "s' = recover_loop rp 1 js s1" by (simp add: recoverRunning_def)
      with recover_loop_calm [OF serve(4), of s1 1 js] c calm_ok [of _ s1] show ?thesis by (metis calm_trans)
    qed
    with serve show ?thesis by (simp add: queue_inv_def calm_def)
  next
    case (pick repo rp p prune_now now j s')
    note c = pick_calm [OF pick(3,4) ok pick(5)]
    have "queue_inv v'"
      by (rule queue_invI [OF _ assms(2)]) (use c pick sv in auto)
    with c pick show ?thesis by simp
  next
    case (wait repo rp p prune_now now s')
    note c = pick_calm [OF wait(3,4) ok wait(5)]
    have "queue_inv v'"
      by (rule queue_invI [OF _ assms(2)]) (use c wait sv in auto)
    with c wait show ?thesis by simp
  next
    case (claim j repo now s' current j')
    note u = update_effect [OF claim(3) ok change_ok(4) claim(4)]
    have "fj_id current = fj_id j" using forward_repository.jobs_valid [OF repository [OF claim(3)] ok claim(5)] by simp
    with claim(6) have j': "fj_id j' = fj_id j" by (auto simp: claim_change_def split: if_splits)
    from u claim(5) obtain w t where w: "view s' = (view (q_store (sv_queue v)))(fj_id j \<mapsto> w)" by auto
    then have "running_ids (view s') \<subseteq> insert (fj_id j) (running_ids (view (q_store (sv_queue v))))"
      by (auto simp: running_ids_def split: if_splits)
    then have "queue_inv v'" unfolding queue_inv_def
      using u assms(2) claim(1,2) j' sv by (auto simp: queue_inv_def)
    with w claim(1,5) show ?thesis by (auto simp: dom_def)
  next
    case (claim_fails j repo now r s')
    from update_effect [OF claim_fails(3) ok change_ok(4) claim_fails(4)] claim_fails(5)
    have c: "calm (q_store (sv_queue v)) s'" "view s' = view (q_store (sv_queue v))" by (auto simp: calm_def)
    have "queue_inv v'"
      by (rule queue_invI [OF _ assms(2)]) (use c claim_fails sv in auto)
    with c claim_fails show ?thesis by simp
  next
    case (progress j repo j' r s')
    note c = update_calm [OF progress(3) ok progress_ok [OF progress(4)] changes_start_none(4) progress(6)]
    have "queue_inv v'"
      by (rule queue_invI [OF _ assms(2)]) (use c progress sv in auto)
    with c progress show ?thesis by simp
  next
    case (finish j repo repo' j' msg p p' fin runErr r notify s')
    note c = finish_calm [OF finish(3,4) ok finish(5,7)]
    have "queue_inv v'"
      by (rule queue_invI [OF _ assms(2)]) (use c finish sv in \<open>auto split: option.splits sum.splits\<close>)
    with c finish show ?thesis by simp
  next
    case stop
    with ok show ?thesis by (auto simp: queue_inv_def)
  qed
qed

lemma client_inv:
  assumes "client_step R (sv_queue v) q'" "queue_inv v"
  shows "queue_inv (v\<lparr>sv_queue := q'\<rparr>)"
proof -
  have ok: "ok (q_store (sv_queue v))" and sv: "q_serving (sv_queue v) \<longleftrightarrow> sv_worker v \<noteq> Stopped"
    using assms(2) by (auto simp: queue_inv_def)
  from client_calm [OF assms(1) ok] have c: "calm (q_store (sv_queue v)) (q_store q')" "q_serving q' = q_serving (sv_queue v)" by auto
  show ?thesis
  proof (cases "sv_worker v = Stopped")
    case True
    with c sv show ?thesis by (simp add: queue_inv_def calm_def)
  next
    case False
    then show ?thesis by (intro queue_invI [OF _ assms(2)]) (use c sv in auto)
  qed
qed

lemma queue_reachable:
  assumes "(queue_step view R)\<^sup>*\<^sup>* v0 v" "queue_inv v0"
  shows "queue_inv v"
  using assms
proof (induction rule: rtranclp_induct)
  case (step v w)
  then show ?case by (auto elim!: queue_step.cases dest: worker_inv client_inv)
qed

text \<open>The choice of the next job, and what it prunes.\<close>

lemma prune_loop_effect:
  assumes "range rp \<subseteq> R" "ok s"
  shows "view (prune_loop rp ret now cap n js s) i = view s i \<or>
    view (prune_loop rp ret now cap n js s) i = None \<and> (\<exists>m < length js. fj_id (js ! m) = i
       \<and> (int (n + m) < cap \<or> ret < time_sub now (terminalTime (js ! m))))"
  using assms(2)
proof (induction js arbitrary: n s)
  case (Cons j js)
  define s1 where "s1 = (if int n < cap \<or> ret < time_sub now (terminalTime j) then snd (fr_remove (rp n) (fj_id j) s) else s)"
  have "rp n \<in> R" using assms(1) by blast
  obtain r t where rm: "fr_remove (rp n) (fj_id j) s = (r, t)" by fastforce
  note law = forward_repository.remove_law [OF repository [OF \<open>rp n \<in> R\<close>] Cons.prems rm]
  have s1: "ok s1 \<and> (view s1 i = view s i \<or> view s1 i = None \<and> fj_id j = i \<and> (int n < cap \<or> ret < time_sub now (terminalTime j)))"
    using law Cons.prems rm by (auto simp: s1_def split: sum.splits)
  have eq: "prune_loop rp ret now cap n (j # js) s = prune_loop rp ret now cap (Suc n) js s1" by (simp add: s1_def)
  from Cons.IH [of s1 "Suc n"] s1
  have "view (prune_loop rp ret now cap (Suc n) js s1) i = view s1 i \<or>
     view (prune_loop rp ret now cap (Suc n) js s1) i = None \<and> (\<exists>m < length js. fj_id (js ! m) = i
       \<and> (int (Suc n + m) < cap \<or> ret < time_sub now (terminalTime (js ! m))))" by blast
  then consider (same) "view (prune_loop rp ret now cap (Suc n) js s1) i = view s1 i"
    | (gone) m where "view (prune_loop rp ret now cap (Suc n) js s1) i = None" "m < length js" "fj_id (js ! m) = i"
      "int (n + Suc m) < cap \<or> ret < time_sub now (terminalTime (js ! m))" by auto
  then show ?case
  proof cases
    case same
    with s1 show ?thesis unfolding eq by (auto intro: exI [of _ 0])
  next
    case gone
    then show ?thesis unfolding eq by (auto intro!: exI [of _ "Suc m"])
  qed
qed simp

lemma pick_best_spec:
  assumes "sorted_wrt (\<lambda>a b. fj_createdAt a < fj_createdAt b \<or> fj_createdAt a = fj_createdAt b \<and> fj_id a < fj_id b) js"
  shows "pick_best now None js = find (job_ready now) js"
proof -
  have keep: "pick_best now (Some b) js = Some b" if "\<forall>j \<in> set js. fj_createdAt b \<le> fj_createdAt j" for b js
    using that by (induction js) auto
  show ?thesis using assms by (induction js) (auto intro!: keep)
qed

lemma pick_effect:
  assumes "repo \<in> R" "range rp \<subseteq> R" "ok s" "fr_records repo s = (Inr js, s1)" "pickNext repo rp p prune_now now s = (best, s')"
  shows "best = find (job_ready now) js \<and> set js = ran (view s) \<and> distinct (map fj_id js)
    \<and> sorted_wrt (\<lambda>a b. fj_createdAt a < fj_createdAt b \<or> fj_createdAt a = fj_createdAt b \<and> fj_id a < fj_id b) js
    \<and> (\<forall>i. view s' i = view s i \<or> view s' i = None \<and> (\<exists>j. view s i = Some j \<and> job_terminal j \<and>
         (po_retention p < time_sub prune_now (terminalTime j)
           \<or> po_history p \<le> int (length (filter (\<lambda>j'. job_terminal j' \<and> fj_id j' \<noteq> i \<and> terminalTime j \<le> terminalTime j') js)))))"
proof -
  note r = forward_repository.records_law [OF repository [OF assms(1)] assms(3,4)]
  have js: "set js = ran (view s)" "distinct (map fj_id js)" "ok s1" "view s1 = view s"
    "sorted_wrt (\<lambda>a b. fj_createdAt a < fj_createdAt b \<or> fj_createdAt a = fj_createdAt b \<and> fj_id a < fj_id b) js"
    using r by auto
  define T where "T = sort_key terminalTime (filter job_terminal js)"
  define cap where "cap = (if po_history p < int (length T) then int (length T) - po_history p else 0)"
  from assms(4,5) have best: "best = find (job_ready now) js"
    and s': "s' = (if T = [] then s1 else prune_loop rp (po_retention p) prune_now cap 0 T s1)"
    by (auto simp: pickNext_def pick_best_spec [OF js(5)] pruneTerminal_def Let_def T_def cap_def)
  have T: "set T = {j \<in> set js. job_terminal j}" "sorted (map terminalTime T)" "distinct (map fj_id T)"
    using js(2) by (auto simp: T_def distinct_map inj_on_def)
  have later: "length T - Suc m \<le> length (filter (\<lambda>j'. job_terminal j' \<and> fj_id j' \<noteq> fj_id (T ! m) \<and> terminalTime (T ! m) \<le> terminalTime j') js)"
    if m: "m < length T" for m
  proof -
    have "set (drop (Suc m) T) \<subseteq> set (filter (\<lambda>j'. job_terminal j' \<and> fj_id j' \<noteq> fj_id (T ! m) \<and> terminalTime (T ! m) \<le> terminalTime j') js)"
    proof
      fix j assume "j \<in> set (drop (Suc m) T)"
      then obtain k where k: "j = T ! k" "m < k" "k < length T" by (auto simp: in_set_conv_nth)
      then have "j \<in> set js" "job_terminal j" using T(1) nth_mem by blast+
      moreover have "terminalTime (T ! m) \<le> terminalTime j" using T(2) k by (simp add: sorted_iff_nth_mono)
      moreover have "fj_id j \<noteq> fj_id (T ! m)" using T(3) k m by (auto simp: distinct_conv_nth)
      ultimately show "j \<in> set (filter (\<lambda>j'. job_terminal j' \<and> fj_id j' \<noteq> fj_id (T ! m) \<and> terminalTime (T ! m) \<le> terminalTime j') js)" by simp
    qed
    then have "card (set (drop (Suc m) T)) \<le> length (filter (\<lambda>j'. job_terminal j' \<and> fj_id j' \<noteq> fj_id (T ! m) \<and> terminalTime (T ! m) \<le> terminalTime j') js)"
      by (meson card_length card_mono finite_set order_trans)
    moreover have "distinct (drop (Suc m) T)" using T(3) by (simp add: distinct_map)
    ultimately show ?thesis by (simp add: distinct_card)
  qed
  have "view s' i = view s i \<or> view s' i = None \<and> (\<exists>j. view s i = Some j \<and> job_terminal j \<and>
         (po_retention p < time_sub prune_now (terminalTime j)
           \<or> po_history p \<le> int (length (filter (\<lambda>j'. job_terminal j' \<and> fj_id j' \<noteq> i \<and> terminalTime j \<le> terminalTime j') js))))" for i
  proof (cases "view s' i = view s i")
    case False
    with s' js(3,4) prune_loop_effect [OF assms(2) js(3), of "po_retention p" prune_now cap 0 T i]
    obtain m where m: "m < length T" "fj_id (T ! m) = i" "view s' i = None"
      "int m < cap \<or> po_retention p < time_sub prune_now (terminalTime (T ! m))"
      by (auto split: if_splits)
    from T(1) m(1) have mem: "T ! m \<in> ran (view s)" "job_terminal (T ! m)" using js(1) nth_mem by blast+
    then obtain i' where "view s i' = Some (T ! m)" by (auto simp: ran_def)
    with forward_repository.jobs_valid [OF repository [OF assms(1)] assms(3)] m(2) have "view s i = Some (T ! m)" by metis
    moreover have "po_history p \<le> int (length (filter (\<lambda>j'. job_terminal j' \<and> fj_id j' \<noteq> i \<and> terminalTime (T ! m) \<le> terminalTime j') js))"
      if "int m < cap" using later [OF m(1)] that m(1,2) by (auto simp: cap_def split: if_splits)
    ultimately show ?thesis using m mem by blast
  qed simp
  with best js show ?thesis by blast
qed

end

section \<open>The queue on the task hub\<close>

definition hub_repositories :: "kv forwardRepo set" where
  "hub_repositories = {forward_repo c c' now | c c' now. True}"

interpretation fq: forward_queue hub_repositories jobs_of jobs_ok
proof (rule forward_queue.intro)
  fix repo assume "repo \<in> hub_repositories"
  then obtain c c' now where "repo = forward_repo c c' now" by (auto simp: hub_repositories_def)
  then show "forward_repository repo jobs_of jobs_ok" using fwr.forward_repository_axioms by (rule ssubst)
qed

definition queue_start :: "kv \<Rightarrow> kv served" where
  "queue_start s = \<lparr>sv_queue = \<lparr>q_store = s, q_wake = False, q_serving = False, q_activeID = [], q_activeCancel = None\<rparr>,
     sv_worker = Stopped, sv_lost = {}\<rparr>"


lemma empty_records: "fr_records (forward_repo None None now) Map.empty = (Inr [], Map.empty)"
  by (simp add: forward_repo_def forward_records_def col_records_def col_run_def fw.opened storage_update_def memory_update_def
      records_txn_def forward_keys fw_scoped col_index_def kv_get_def)

lemma serve_empty:
  "queue_step jobs_of hub_repositories (queue_start Map.empty)
     ((queue_start Map.empty)\<lparr>sv_queue := (sv_queue (queue_start Map.empty))\<lparr>q_serving := True\<rparr>, sv_worker := Idle\<rparr>)"
proof -
  have "recoverRunning (\<lambda>_. forward_repo None None 0) Map.empty = Map.empty" by (simp add: recoverRunning_def empty_records)
  then have "worker_step jobs_of hub_repositories (queue_start Map.empty)
     \<lparr>sv_queue = (sv_queue (queue_start Map.empty))\<lparr>q_serving := True, q_store := Map.empty\<rparr>, sv_worker = Idle, sv_lost = running_ids (jobs_of Map.empty)\<rparr>"
    by (intro worker_step.serve [where rp = "\<lambda>_. forward_repo None None 0"]) (auto simp: queue_start_def hub_repositories_def)
  from queue_step.worker [OF this] show ?thesis by (simp add: queue_start_def running_ids_def)
qed


text \<open>\<open>pickNext\<close> returns the oldest job that is ready (queued or retrying, its delay over; ids break ties) and
  none only when no job is ready. The pruning it does removes only finished jobs, and of those only one that
  is older than the retention time or has \<open>history\<close> finished jobs at least as recent.\<close>

theorem pick_next_takes_the_oldest_ready_job:
  assumes "jobs_ok s" "range rp \<subseteq> hub_repositories" "forward_records (ctx_err c) (ctx_err c') s = (Inr js, s1)"
    "pickNext (forward_repo c c' t) rp p prune_now now s = (best, s')"
  shows "(case best of
            None \<Rightarrow> \<forall>j \<in> ran (jobs_of s). \<not> job_ready now j
          | Some b \<Rightarrow> b \<in> ran (jobs_of s) \<and> job_ready now b \<and> (\<forall>j \<in> ran (jobs_of s). job_ready now j \<longrightarrow>
               fj_createdAt b < fj_createdAt j \<or> fj_createdAt b = fj_createdAt j \<and> fj_id b \<le> fj_id j))
    \<and> (\<forall>i j. jobs_of s i = Some j \<longrightarrow> jobs_of s' i = Some j \<or> jobs_of s' i = None \<and> job_terminal j \<and>
         (po_retention p < time_sub prune_now (terminalTime j)
           \<or> po_history p \<le> int (length (filter (\<lambda>j'. job_terminal j' \<and> fj_id j' \<noteq> i \<and> terminalTime j \<le> terminalTime j') js))))
    \<and> dom (jobs_of s') \<subseteq> dom (jobs_of s)"
proof -
  have repo: "forward_repo c c' t \<in> hub_repositories" by (auto simp: hub_repositories_def)
  have "fr_records (forward_repo c c' t) s = (Inr js, s1)" using assms(3) by (simp add: forward_repo_def)
  note e = fq.pick_effect [OF repo assms(2,1) this assms(4)]
  then have set: "set js = ran (jobs_of s)" and best: "best = find (job_ready now) js"
    and ord: "sorted_wrt (\<lambda>a b. fj_createdAt a < fj_createdAt b \<or> fj_createdAt a = fj_createdAt b \<and> fj_id a < fj_id b) js" by auto
  have "case best of None \<Rightarrow> \<forall>j \<in> set js. \<not> job_ready now j
          | Some b \<Rightarrow> b \<in> set js \<and> job_ready now b \<and> (\<forall>j \<in> set js. job_ready now j \<longrightarrow>
               fj_createdAt b < fj_createdAt j \<or> fj_createdAt b = fj_createdAt j \<and> fj_id b \<le> fj_id j)"
    unfolding best using ord by (induction js) (auto split: option.splits)
  moreover from e have pruned: "\<forall>i. jobs_of s' i = jobs_of s i \<or> jobs_of s' i = None \<and> (\<exists>j. jobs_of s i = Some j \<and> job_terminal j \<and>
         (po_retention p < time_sub prune_now (terminalTime j)
           \<or> po_history p \<le> int (length (filter (\<lambda>j'. job_terminal j' \<and> fj_id j' \<noteq> i \<and> terminalTime j \<le> terminalTime j') js))))"
    by (elim conjE)
  have "jobs_of s' i = Some j \<or> jobs_of s' i = None \<and> job_terminal j \<and>
         (po_retention p < time_sub prune_now (terminalTime j)
           \<or> po_history p \<le> int (length (filter (\<lambda>j'. job_terminal j' \<and> fj_id j' \<noteq> i \<and> terminalTime j \<le> terminalTime j') js)))" if "jobs_of s i = Some j" for i j
    using spec [OF pruned, of i] that by auto
  moreover have "dom (jobs_of s') \<subseteq> dom (jobs_of s)" using pruned by (metis domIff subsetI)
  ultimately show ?thesis unfolding set by blast
qed

theorem pick_next_takes_the_oldest_ready_job_witness:
  "pickNext (forward_repo None None 0) (\<lambda>_. forward_repo None None 0) defaultPolicy 0 0 Map.empty = (None, Map.empty)
    \<and> ran (jobs_of Map.empty) \<inter> Collect (job_ready 0) = {}"
proof -
  have p: "pickNext (forward_repo None None 0) (\<lambda>_. forward_repo None None 0) defaultPolicy 0 0 Map.empty = (None, Map.empty)"
    by (simp add: pickNext_def empty_records pruneTerminal_def)
  have r: "forward_records (ctx_err None) (ctx_err None) Map.empty = (Inr [], Map.empty)"
    using empty_records [of 0] by (simp add: forward_repo_def)
  have "range (\<lambda>_::nat. forward_repo None None 0) \<subseteq> hub_repositories" by (auto simp: hub_repositories_def)
  from pick_next_takes_the_oldest_ready_job [OF jobs_ok_empty this r p] p show ?thesis by auto
qed

section \<open>Retries\<close>

lemma backoff_loop_closed:
  assumes "0 < d" "0 \<le> M" "even M" "int64_ok M"
  shows "backoff_loop M n d = min M (d * 2 ^ n)"
  using assms(1)
proof (induction n arbitrary: d)
  case (Suc n)
  show ?case
  proof (cases "M div 2 \<le> d")
    case True
    with assms(3) have "M \<le> d * 2" by presburger
    also have "\<dots> \<le> d * 2 ^ Suc n" using Suc.prems by simp
    finally show ?thesis using True assms(2) by simp
  next
    case False
    then have "d * 2 \<le> M" by linarith
    with assms(4) Suc.prems have "wrap64 (d * 2) = d * 2" by (intro wrap64_id) (auto simp: int64_ok_def)
    with Suc.IH [of "d * 2"] Suc.prems False assms(2) show ?thesis by (simp add: mult_ac)
  qed
qed (simp add: min_def)

text \<open>The delay before retry \<open>n\<close> under a configuration that \<open>PrepareConfig\<close> accepted is \<open>base * 2 ^ (n - 1)\<close>
  seconds, capped at the configured maximum, without overflow for every number of attempts; a
  configuration whose base exceeds its maximum is refused.\<close>

theorem configured_backoff_is_capped_doubling:
  assumes "prepareConfig ctx vi vs vb = Inr p" "vi ''retry_base_seconds'' = Inr base" "vi ''retry_max_seconds'' = Inr maximum"
    "1 \<le> base" "int64_ok (maximum * second)" "1 \<le> n"
  shows "policy_backoff p n = min (maximum * second) (base * second * 2 ^ nat (n - 1)) \<and> base \<le> maximum"
proof -
  from assms(1-3) have p: "base \<le> maximum" "po_base p = wrap64 (base * second)" "po_maximum p = wrap64 (maximum * second)"
    by (auto simp: prepareConfig_def and_then_Inr split: option.splits if_splits)
  have "base * second \<le> maximum * second" using p(1) by simp
  with assms(4,5) have "int64_ok (base * second)" by (simp add: int64_ok_def)
  with p assms backoff_loop_closed [of "base * second" "maximum * second" "nat (n - 1)"] show ?thesis
    by (simp add: policy_backoff_def)
qed

definition sample_view :: "string \<Rightarrow> int res" where
  "sample_view name = Inr (if name = ''retry_base_seconds'' then 5 else if name = ''retry_max_seconds'' then 60 else 10)"

theorem configured_backoff_is_capped_doubling_witness:
  "\<exists>p. prepareConfig None sample_view (\<lambda>_. Inr []) (\<lambda>_. Inr False) = Inr p \<and> policy_backoff p 3 = 20 * second \<and> policy_backoff p 100 = 60 * second"
proof -
  obtain p where p: "prepareConfig None sample_view (\<lambda>_. Inr []) (\<lambda>_. Inr False) = Inr p"
    by (simp add: prepareConfig_def sample_view_def)
  have v: "sample_view ''retry_base_seconds'' = Inr 5" "sample_view ''retry_max_seconds'' = Inr 60" by (simp_all add: sample_view_def)
  note c = configured_backoff_is_capped_doubling [OF p v]
  have "policy_backoff p 3 = 20 * second" "policy_backoff p 100 = 60 * second"
    using c [of 3] c [of 100] by (simp_all add: int64_ok_def)
  with p show ?thesis by blast
qed

text \<open>The delay of the package function \<open>backoff\<close>, computed by a shift of a 64-bit duration, is five seconds
  doubled with each attempt and capped at five minutes, for every attempt number, although the shift
  overflows for large ones; it agrees with the loop of \<open>policy.backoff\<close> under the default policy.\<close>

theorem default_backoff_survives_overflow:
  "backoff n = min backoffMax (backoffBase * 2 ^ nat (n - 1)) \<and> backoff n = policy_backoff defaultPolicy n"
proof -
  define e where "e = nat (n - 1)"
  have e: "nat ((if n < 1 then 1 else n) - 1) = e" by (simp add: e_def)
  define d where "d = wrap64 (backoffBase * 2 ^ e)"
  have b: "backoff n = (if d \<le> 0 \<or> backoffMax < d then backoffMax else d)" unfolding backoff_def Let_def e d_def ..
  have "backoff n = min backoffMax (backoffBase * 2 ^ e)"
  proof (cases "e \<le> 30")
    case True
    then have pe: "(1::int) \<le> 2 ^ e" "(2::int) ^ e \<le> 2 ^ 30" using power_increasing [of e 30 "2::int"] by simp_all
    have "int64_ok (backoffBase * x)" if "1 \<le> x" "x \<le> 2 ^ 30" for x
      using that unfolding int64_ok_def backoffBase_def by simp
    from this [OF pe] have "int64_ok (backoffBase * 2 ^ e)" .
    then have "d = backoffBase * 2 ^ e" unfolding d_def by simp
    with pe b show ?thesis by (simp add: backoffBase_def min_def)
  next
    case False
    then obtain k where k: "e = 30 + k" using le_Suc_ex [of 30 e] by auto
    have "(2::int) ^ 39 dvd 2 ^ 64" by (rule le_imp_power_dvd) simp
    moreover have "2 ^ 39 dvd backoffBase * 2 ^ e"
    proof -
      have "backoffBase * 2 ^ e = 2 ^ 39 * (9765625 * 2 ^ k)" by (simp add: k power_add backoffBase_def)
      then show ?thesis by (rule dvdI)
    qed
    moreover have "(2::int) ^ 39 dvd 2 ^ 63" by (rule le_imp_power_dvd) simp
    ultimately have dvd: "2 ^ 39 dvd d" unfolding d_def wrap64_def by (intro dvd_diff dvd_mod dvd_add)
    have "2 ^ 39 \<le> d" if "0 < d" using zdvd_imp_le [OF dvd that] .
    moreover have "(2::int) ^ 30 \<le> 2 ^ e" using False by (intro power_increasing) auto
    ultimately show ?thesis using b by (auto simp: backoffBase_def backoffMax_def min_def)
  qed
  moreover have "policy_backoff defaultPolicy n = min backoffMax (backoffBase * 2 ^ e)" unfolding policy_backoff_def e_def
    using backoff_loop_closed [of backoffBase backoffMax] by (simp add: defaultPolicy_def backoffBase_def backoffMax_def int64_ok_def)
  ultimately show ?thesis by (simp add: e_def)
qed

text \<open>
  A job that fails again and again: one round is a claim followed by a run that ends in an error other than
  a cancellation.
\<close>

definition failed_round :: "(err \<Rightarrow> string) \<Rightarrow> policy \<Rightarrow> forwardJob \<Rightarrow> instant \<times> instant \<times> err \<Rightarrow> forwardJob" where
  "failed_round msg p j = (\<lambda>(now, fin, e). case claim_change now j of
      None \<Rightarrow> j | Some j1 \<Rightarrow> fst (finish_job msg p p fin (Some e) j1))"

text \<open>C36: a job whose runs keep failing is retried with the delay of the policy and given up as \<open>error\<close> after
  exactly \<open>max_attempts\<close> runs (one at least); a job in error is not claimed again.\<close>

theorem failing_job_is_given_up_after_max_attempts:
  assumes "fj_status j = ''queued''" "fj_attempts j = 0" "int64_ok (po_attempts p)" "rounds \<noteq> []"
    "\<forall>(now, fin, e) \<in> set rounds. \<not> errors_is e Canceled"
  shows "(let j' = foldl (failed_round msg p) j rounds; k = int (length rounds); limit = max 1 (po_attempts p) in
     fj_attempts j' = min k limit \<and> fj_id j' = fj_id j \<and>
     (if k < limit then fj_status j' = ''retrying'' \<and> fj_nextAttemptAt j' = Some (fst (snd (last rounds)) + policy_backoff p k)
      else fj_status j' = ''error'' \<and> fj_nextAttemptAt j' = None \<and> claim_change now j' = None))"
  using assms(4,5)
proof (induction rounds rule: rev_induct)
  case (snoc x rounds)
  obtain now fin e where x: "x = (now, fin, e)" by (metis prod_cases3)
  have e: "\<not> errors_is e Canceled" using snoc.prems x by auto
  define L where "L = max 1 (po_attempts p)"
  have L: "1 \<le> L" "int64_ok L" using assms(3) by (auto simp: L_def int64_ok_def)
  define j1 where "j1 = foldl (failed_round msg p) j rounds"
  define k where "k = int (length rounds)"
  have j1: "fj_attempts j1 = min k L \<and> fj_id j1 = fj_id j \<and> (if k < L then fj_status j1 \<in> {''queued'', ''retrying''}
      else fj_status j1 = ''error'' \<and> fj_nextAttemptAt j1 = None)"
  proof (cases "rounds = []")
    case True
    then show ?thesis using assms(1,2) L by (simp add: j1_def k_def)
  next
    case False
    with snoc show ?thesis by (simp add: j1_def k_def L_def Let_def split: if_splits)
  qed
  have step: "foldl (failed_round msg p) j (rounds @ [x]) = failed_round msg p j1 x" by (simp add: j1_def)
  show ?case
  proof (cases "k < L")
    case True
    then have "wrap64 (k + 1) = k + 1" using L by (intro wrap64_id) (auto simp: int64_ok_def k_def)
    with True j1 e x show ?thesis unfolding step Let_def L_def [symmetric]
      by (auto simp: failed_round_def claim_change_def finish_job_def Let_def k_def L_def min_def max_def add.commute split: if_splits)
  next
    case False
    with j1 x show ?thesis unfolding step Let_def L_def [symmetric]
      by (auto simp: failed_round_def claim_change_def k_def)
  qed
qed simp

theorem failing_job_is_given_up_after_max_attempts_witness:
  "fj_status (foldl (failed_round (\<lambda>_. []) (defaultPolicy\<lparr>po_attempts := 2\<rparr>)) (job_zero\<lparr>fj_status := ''queued''\<rparr>)
     [(0, 1, ErrMsg []), (9, 10, ErrMsg [])]) = ''error''"
proof -
  have "\<forall>(now, fin, e) \<in> set [(0, 1, ErrMsg []), (9, 10, ErrMsg [])]. \<not> errors_is e Canceled" by simp
  with failing_job_is_given_up_after_max_attempts [of "job_zero\<lparr>fj_status := ''queued''\<rparr>" "defaultPolicy\<lparr>po_attempts := 2\<rparr>"
      "[(0, 1, ErrMsg []), (9, 10, ErrMsg [])]" "\<lambda>_. []"]
  show ?thesis by (simp add: Let_def int64_ok_def job_zero_def)
qed

section \<open>Replayed routes\<close>

context forward_queue
begin

lemma enqueue_message_stores:
  assumes "repo \<in> R" "ok (q_store q)" "job_ok j" "enqueueMessage repo j q = (Inr jid, q')"
  shows "jid = fj_id j \<and> ok (q_store q') \<and> view (q_store q') jid \<noteq> None"
proof -
  obtain x s1 where sv: "fr_save repo j (q_store q) = (x, s1)" by fastforce
  from forward_repository.save_law [OF repository [OF assms(1)] assms(2,3) sv] assms(4) sv show ?thesis
    by (cases x) (auto simp: enqueueMessage_def signal_queue_def)
qed

lemma enqueue_routed_stores:
  assumes "range rp \<subseteq> R" "ok (q_store q)" "int64_ok peer" "int64_ok msg"
    "enqueueRouted sha rp kind peer msg grouped origin target ruleID mode silent q = (Inr jid, q')"
  shows "jid = ''route-'' @ sha (route_identity kind peer msg grouped target) \<and> ok (q_store q') \<and> view (q_store q') jid \<noteq> None"
proof -
  have in_R: "rp m \<in> R" for m using assms(1) by blast
  let ?jid = "''route-'' @ sha (route_identity kind peer msg grouped target)"
  obtain g where g: "fr_get (rp 0) ?jid (q_store q) = Inr g"
    using assms(5) by (auto simp: enqueueRouted_def Let_def split: sum.splits)
  note law = forward_repository.get_law [OF repository [OF in_R] assms(2) g]
  show ?thesis
  proof (cases g)
    case None
    with g assms(5) have "enqueueMessage (rp 1) (routed_job ?jid kind peer msg origin target ruleID mode silent) q = (Inr jid, q')"
      by (simp add: enqueueRouted_def)
    from enqueue_message_stores [OF in_R assms(2) job_templates(5) [OF assms(3,4)] this] show ?thesis by (auto simp: routed_job_def)
  next
    case (Some j)
    with g assms(5) have "jid = ?jid" "q' = q" by (simp_all add: enqueueRouted_def)
    moreover have "view (q_store q) ?jid = Some j" using law Some by (rule trans [OF sym])
    ultimately show ?thesis using assms(2) by simp
  qed
qed

lemma enqueue_routed_known:
  assumes "range rp \<subseteq> R" "ok (q_store q)" "jid = ''route-'' @ sha (route_identity kind peer msg grouped target)" "view (q_store q) jid \<noteq> None"
    "enqueueRouted sha rp kind peer msg grouped origin target ruleID mode silent q = (r, q')"
  shows "q' = q \<and> (\<forall>jid'. r = Inr jid' \<longrightarrow> jid' = jid)"
proof -
  have in_R: "rp 0 \<in> R" using assms(1) by blast
  show ?thesis
  proof (cases "fr_get (rp 0) jid (q_store q)")
    case (Inl e)
    with assms(3,5) show ?thesis by (auto simp: enqueueRouted_def)
  next
    case (Inr g)
    with forward_repository.get_law [OF repository [OF in_R] assms(2) Inr] assms(3-5) show ?thesis
      by (cases g) (auto simp: enqueueRouted_def)
  qed
qed

end

text \<open>Routing is idempotent. Once a route was accepted, routing the same source message, or another message
  of the same album, to the same target again changes nothing and returns the id of the accepted job unless
  the store cannot be read, whatever rule, mode or origin the replay carries.\<close>

theorem routed_replay_is_idempotent:
  assumes "jobs_ok (q_store q)" "int64_ok peer" "int64_ok msg" "range rp \<subseteq> hub_repositories" "range rp' \<subseteq> hub_repositories"
    "enqueueRouted sha rp kind peer msg grouped origin target ruleID mode silent q = (Inr jid, q')"
    "grouped \<noteq> 0 \<or> msg' = msg"
    "enqueueRouted sha rp' kind peer msg' grouped origin' target ruleID' mode' silent' q' = (r, q'')"
  shows "jobs_of (q_store q') jid \<noteq> None \<and> q'' = q' \<and> (\<forall>jid'. r = Inr jid' \<longrightarrow> jid' = jid)"
proof -
  note st = fq.enqueue_routed_stores [OF assms(4,1,2,3,6)]
  moreover have "route_identity kind peer msg grouped target = route_identity kind peer msg' grouped target"
    using assms(7) by (auto simp: route_identity_def)
  ultimately show ?thesis
    using fq.enqueue_routed_known [where q = q' and rp = rp' and jid = jid, OF assms(5) _ _ _ assms(8)] by auto
qed

lemma fresh_get: "fr_get (forward_repo None None now) jid Map.empty = Inr None"
  by (simp add: forward_repo_def forward_get_def col_read_def fw.opened forward_keys fw_scoped kv_get_def)

theorem routed_replay_is_idempotent_witness:
  "\<exists>q1 jid. enqueueRouted (\<lambda>_. ''ab'') (\<lambda>_. forward_repo None None 5) ''user'' 7 8 0 [] ''me'' [] [] False (sv_queue (queue_start Map.empty)) = (Inr jid, q1)
     \<and> jobs_of (q_store q1) jid \<noteq> None"
proof -
  define rp :: "nat \<Rightarrow> kv forwardRepo" where "rp = (\<lambda>_. forward_repo None None 5)"
  define j where "j = routed_job ''route-ab'' ''user'' 7 8 [] ''me'' [] [] False"
  have R: "range rp \<subseteq> hub_repositories" by (auto simp: rp_def hub_repositories_def)
  obtain x s1 where sv: "fr_save (forward_repo None None 5) j Map.empty = (x, s1)" by fastforce
  have ix: "index_is forward_jobs Map.empty []" by (simp add: index_is_def col_index_def kv_get_def)
  have "fj_id j = ''route-ab''" by (simp add: j_def routed_job_def)
  moreover have "trim_space ''route-ab'' \<noteq> []" by code_simp
  ultimately have "x = Inr ()" using sv
    by (simp add: forward_repo_def forward_save_def fw.put_eq [OF _ _ ix] Let_def job_json_def json_valid_def)
  then have e: "enqueueRouted (\<lambda>_. ''ab'') rp ''user'' 7 8 0 [] ''me'' [] [] False (sv_queue (queue_start Map.empty))
      = (Inr ''route-ab'', signal_queue ((sv_queue (queue_start Map.empty))\<lparr>q_store := s1\<rparr>))"
    using sv by (simp add: enqueueRouted_def rp_def queue_start_def fresh_get enqueueMessage_def j_def routed_job_def)
  obtain r q2 where e2: "enqueueRouted (\<lambda>_. ''ab'') rp ''user'' 7 8 0 [] ''me'' [] [] False (signal_queue ((sv_queue (queue_start Map.empty))\<lparr>q_store := s1\<rparr>)) = (r, q2)"
    by fastforce
  have "jobs_of (q_store (signal_queue ((sv_queue (queue_start Map.empty))\<lparr>q_store := s1\<rparr>))) ''route-ab'' \<noteq> None"
    using routed_replay_is_idempotent [OF _ _ _ R R e _ e2] by (simp add: queue_start_def jobs_ok_empty int64_ok_def)
  with e show ?thesis unfolding rp_def by blast
qed

end
