(* ===== verification/Event_Bus.thy ===== *)
theory Event_Bus
  imports Kv_Store
begin

text \<open>
  The control-plane event bus of \<open>rte/eventbus/bus.go\<close>. A subscriber is a bounded queue and a goroutine that
  hands its events to a handler one at a time; \<open>Publish\<close> enqueues to every matching subscriber or to none.
  The goroutines are steps on the bus. A handler may take as long as it likes and may fail (its error goes
  to the reporter, a panic is an error); what it does with an event is not part of the model.
\<close>

section \<open>State\<close>

record event =
  ev_account :: string
  ev_topic :: string
  ev_payload :: blob

text \<open>
  A subscriber with the events its channel holds, whether its context was cancelled, the lifecycle it belongs
  to (the parent's \<open>Done\<close> channel) and whether its handler runs.
\<close>

record subscriber =
  sb_topic :: string
  sb_capacity :: nat
  sb_queue :: "event list"
  sb_canceled :: bool
  sb_owner :: nat
  sb_busy :: bool

text \<open>Subscribers are pointers, given out in sequence; the wait group counts their goroutines.\<close>

record bus =
  bus_account :: string
  bus_subs :: "(nat \<times> subscriber) list"
  bus_next :: nat
  bus_closed :: bool
  bus_wg :: nat

definition errClosed :: err where "errClosed = ErrMsg ''event bus is closed''"
definition errFull :: err where "errFull = ErrMsg ''subscriber queue is full''"

definition new_bus :: "string \<Rightarrow> bus" where
  "new_bus account = \<lparr>bus_account = account, bus_subs = [], bus_next = 0, bus_closed = False, bus_wg = 0\<rparr>"

section \<open>Operations\<close>

text \<open>\<open>Subscribe\<close>; the subscriber stands for the cancel function it returns.\<close>

definition subscribe :: "ctx \<Rightarrow> nat \<Rightarrow> string \<Rightarrow> int \<Rightarrow> bool \<Rightarrow> bus \<Rightarrow> nat res \<times> bus" where
  "subscribe ctx owner topic capacity has_handler b =
     (if topic = [] \<or> capacity < 1 \<or> \<not> has_handler
      then (Inl (ErrMsg ''topic, positive capacity and handler are required''), b)
      else case ctx of
             Some e \<Rightarrow> (Inl e, b)
           | None \<Rightarrow>
               if bus_closed b then (Inl errClosed, b)
               else (Inr (bus_next b),
                     b\<lparr>bus_subs := AList.update (bus_next b) \<lparr>sb_topic = topic, sb_capacity = nat capacity, sb_queue = [],
                           sb_canceled = False, sb_owner = owner, sb_busy = False\<rparr> (bus_subs b),
                       bus_next := Suc (bus_next b), bus_wg := Suc (bus_wg b)\<rparr>))"

text \<open>
  \<open>Publish\<close>: the loop that collects the recipients, and the loop that sends to them. A send to a full channel
  would block with the mutex held (\<open>None\<close>).
\<close>

fun recipients :: "string \<Rightarrow> (nat \<times> subscriber) list \<Rightarrow> nat list res" where
  "recipients topic [] = Inr []"
| "recipients topic ((n, s) # ss) =
     (if sb_topic s = topic \<and> \<not> sb_canceled s
      then if length (sb_queue s) = sb_capacity s then Inl errFull
           else and_then (recipients topic ss) (\<lambda>ns. Inr (n # ns))
      else recipients topic ss)"

fun send_all :: "event \<Rightarrow> nat list \<Rightarrow> (nat \<times> subscriber) list \<Rightarrow> (nat \<times> subscriber) list option" where
  "send_all e [] ss = Some ss"
| "send_all e (n # ns) ss =
     (case map_of ss n of
        None \<Rightarrow> send_all e ns ss
      | Some s \<Rightarrow>
          if sb_capacity s \<le> length (sb_queue s) then None
          else send_all e ns (AList.update n (s\<lparr>sb_queue := sb_queue s @ [e]\<rparr>) ss))"

definition publish :: "ctx \<Rightarrow> string \<Rightarrow> blob res \<Rightarrow> bus \<Rightarrow> (unit res \<times> bus) option" where
  "publish ctx topic payload b =
     (case ctx of
        Some e \<Rightarrow> Some (Inl e, b)
      | None \<Rightarrow>
          if topic = [] then Some (Inl (ErrMsg ''event topic is required''), b)
          else case payload of
                 Inl e \<Rightarrow> Some (Inl e, b)
               | Inr data \<Rightarrow>
                   if bus_closed b then Some (Inl errClosed, b)
                   else case recipients topic (bus_subs b) of
                          Inl e \<Rightarrow> Some (Inl e, b)
                        | Inr ns \<Rightarrow>
                            map_option (\<lambda>ss. (Inr (), b\<lparr>bus_subs := ss\<rparr>))
                              (send_all \<lparr>ev_account = bus_account b, ev_topic = topic, ev_payload = data\<rparr> ns (bus_subs b)))"

definition cancel_sub :: "nat \<Rightarrow> bus \<Rightarrow> bus" where
  "cancel_sub n b =
     (case map_of (bus_subs b) n of
        None \<Rightarrow> b
      | Some s \<Rightarrow> b\<lparr>bus_subs := AList.update n (s\<lparr>sb_canceled := True\<rparr>) (bus_subs b)\<rparr>)"

text \<open>The locked part of \<open>Close\<close>; what follows waits for the goroutines, until \<open>bus_wg\<close> is 0 or the context ends.\<close>

definition close_bus :: "bus \<Rightarrow> bus" where
  "close_bus b = b\<lparr>bus_closed := True, bus_subs := map (\<lambda>(n, s). (n, s\<lparr>sb_canceled := True\<rparr>)) (bus_subs b)\<rparr>"

definition close_wait :: "ctx \<Rightarrow> bus \<Rightarrow> unit res option" where
  "close_wait ctx b = (if bus_wg b = 0 then Some (Inr ()) else map_option Inl ctx)"

text \<open>\<open>WaitScope\<close>: the subscribers it waits for, and the loop that waits for each to be gone.\<close>

definition scope_pending :: "nat \<Rightarrow> bus \<Rightarrow> nat list" where
  "scope_pending owner b = map fst (filter (\<lambda>(n, s). sb_owner s = owner) (bus_subs b))"

fun scope_wait :: "ctx \<Rightarrow> nat list \<Rightarrow> bus \<Rightarrow> unit res option" where
  "scope_wait ctx [] b = Some (Inr ())"
| "scope_wait ctx (n # ns) b = (if map_of (bus_subs b) n = None then scope_wait ctx ns b else map_option Inl ctx)"

text \<open>The deferred calls of a subscriber's goroutine.\<close>

definition unsubscribe :: "nat \<Rightarrow> bus \<Rightarrow> bus" where
  "unsubscribe n b = b\<lparr>bus_subs := AList.delete n (bus_subs b), bus_wg := bus_wg b - 1\<rparr>"

section \<open>Steps\<close>

datatype bus_label = Subscribed nat | Published event | Started nat event | Quiet

text \<open>
  The goroutine of a subscriber: it takes an event and starts the handler, unless its context was cancelled;
  the handler returns; with a cancelled context it leaves (whichever branch of the \<open>select\<close> it took).
\<close>

inductive sub_step :: "bus \<Rightarrow> bus_label \<Rightarrow> bus \<Rightarrow> bool" where
  take_event: "map_of (bus_subs b) n = Some s \<Longrightarrow> \<not> sb_busy s \<Longrightarrow> \<not> sb_canceled s \<Longrightarrow> sb_queue s = e # q \<Longrightarrow>
    sub_step b (Started n e) (b\<lparr>bus_subs := AList.update n (s\<lparr>sb_queue := q, sb_busy := True\<rparr>) (bus_subs b)\<rparr>)"
| handled: "map_of (bus_subs b) n = Some s \<Longrightarrow> sb_busy s \<Longrightarrow>
    sub_step b Quiet (b\<lparr>bus_subs := AList.update n (s\<lparr>sb_busy := False\<rparr>) (bus_subs b)\<rparr>)"
| leave: "map_of (bus_subs b) n = Some s \<Longrightarrow> \<not> sb_busy s \<Longrightarrow> sb_canceled s \<Longrightarrow> sub_step b Quiet (unsubscribe n b)"

inductive bus_step :: "bus \<Rightarrow> bus_label \<Rightarrow> bus \<Rightarrow> bool" where
  subscribed: "subscribe ctx owner topic capacity h b = (Inr n, b') \<Longrightarrow> bus_step b (Subscribed n) b'"
| subscribe_fails: "subscribe ctx owner topic capacity h b = (Inl e, b') \<Longrightarrow> bus_step b Quiet b'"
| published: "publish ctx topic (Inr data) b = Some (Inr u, b') \<Longrightarrow>
    bus_step b (Published \<lparr>ev_account = bus_account b, ev_topic = topic, ev_payload = data\<rparr>) b'"
| publish_fails: "publish ctx topic payload b = Some (Inl e, b') \<Longrightarrow> bus_step b Quiet b'"
| canceled: "bus_step b Quiet (cancel_sub n b)"
| closed: "bus_step b Quiet (close_bus b)"
| goroutine: "sub_step b l b' \<Longrightarrow> bus_step b l b'"

text \<open>The bus with everything that happened on it.\<close>

inductive bus_hist :: "bus \<times> bus_label list \<Rightarrow> bus \<times> bus_label list \<Rightarrow> bool" where
  "bus_step b l b' \<Longrightarrow> bus_hist (b, ls) (b', ls @ [l])"

definition bus_init :: "bus \<times> bus_label list \<Rightarrow> bool" where
  "bus_init x \<longleftrightarrow> (\<exists>account. x = (new_bus account, []))"

fun published_events :: "bus_label list \<Rightarrow> event list" where
  "published_events [] = []"
| "published_events (Published e # ls) = e # published_events ls"
| "published_events (_ # ls) = published_events ls"

fun started_by :: "nat \<Rightarrow> bus_label list \<Rightarrow> event list" where
  "started_by n [] = []"
| "started_by n (Started m e # ls) = (if m = n then e # started_by n ls else started_by n ls)"
| "started_by n (_ # ls) = started_by n ls"

text \<open>The events published on a topic since subscriber \<open>n\<close> joined.\<close>

definition offered :: "nat \<Rightarrow> string \<Rightarrow> bus_label list \<Rightarrow> event list" where
  "offered n topic ls = filter (\<lambda>e. ev_topic e = topic) (published_events (dropWhile (\<lambda>l. l \<noteq> Subscribed n) ls))"

section \<open>Lemmas\<close>

lemma published_events_append [simp]: "published_events (ls @ ms) = published_events ls @ published_events ms"
  by (induction ls rule: published_events.induct) auto

lemma started_by_append [simp]: "started_by n (ls @ ms) = started_by n ls @ started_by n ms"
  by (induction n ls rule: started_by.induct) auto

lemma offered_snoc:
  "Subscribed n \<in> set ls \<Longrightarrow> offered n t (ls @ [l]) = offered n t ls @ filter (\<lambda>e. ev_topic e = t) (published_events [l])"
  by (simp add: offered_def dropWhile_append1)

lemma offered_join: "Subscribed n \<notin> set ls \<Longrightarrow> offered n t (ls @ [Subscribed n]) = []"
  by (simp add: offered_def) (metis (mono_tags, lifting) dropWhile_append2 dropWhile.simps published_events.simps(1,3) filter.simps(1))

lemma update_as_map:
  "distinct (keys ss) \<Longrightarrow> n \<in> set (keys ss) \<Longrightarrow> AList.update n v ss = map (\<lambda>(m, s). (m, if m = n then v else s)) ss"
proof (induction ss)
  case (Cons x ss)
  have "map (\<lambda>(m, s). (m, if m = n then v else s)) ss = ss" if "n \<notin> set (keys ss)"
    using that by (intro map_idI) force
  with Cons show ?case by (cases x) auto
qed simp

lemma send_all_map:
  assumes "distinct ns" "distinct (keys ss)" "set ns \<subseteq> set (keys ss)"
    "\<And>n s. n \<in> set ns \<Longrightarrow> map_of ss n = Some s \<Longrightarrow> length (sb_queue s) < sb_capacity s"
  shows "send_all e ns ss = Some (map (\<lambda>(n, s). (n, if n \<in> set ns then s\<lparr>sb_queue := sb_queue s @ [e]\<rparr> else s)) ss)"
  using assms
proof (induction ns arbitrary: ss)
  case (Cons n ns)
  obtain s where s: "map_of ss n = Some s" using Cons.prems(3) by (metis list.set_intros(1) list.set_map map_of_eq_None_iff not_None_eq subsetD)
  define ss1 where "ss1 = AList.update n (s\<lparr>sb_queue := sb_queue s @ [e]\<rparr>) ss"
  have ss1: "ss1 = map (\<lambda>(m, t). (m, if m = n then s\<lparr>sb_queue := sb_queue s @ [e]\<rparr> else t)) ss"
    unfolding ss1_def using Cons.prems(2,3) by (intro update_as_map) auto
  have k: "keys ss1 = keys ss" by (simp add: ss1 comp_def case_prod_unfold)
  have "send_all e ns ss1 = Some (map (\<lambda>(m, t). (m, if m \<in> set ns then t\<lparr>sb_queue := sb_queue t @ [e]\<rparr> else t)) ss1)"
  proof (rule Cons.IH)
    fix m t assume m: "m \<in> set ns" "map_of ss1 m = Some t"
    then have "m \<noteq> n" using Cons.prems(1) by auto
    with m have "map_of ss m = Some t" by (simp add: ss1_def alist_simps)
    with Cons.prems(4) m show "length (sb_queue t) < sb_capacity t" by auto
  qed (use Cons.prems k in auto)
  moreover have "\<And>t. (n, t) \<in> set ss \<Longrightarrow> t = s" using s Cons.prems(2) by (metis map_of_is_SomeI option.inject)
  ultimately show ?case using s Cons.prems(1) Cons.prems(4) [of n s] by (auto simp flip: ss1_def) (auto simp: ss1)
qed simp

lemma recipients_spec:
  "recipients t ss = Inr ns \<Longrightarrow> ns = map fst (filter (\<lambda>(n, s). sb_topic s = t \<and> \<not> sb_canceled s) ss)
     \<and> (\<forall>(n, s) \<in> set ss. sb_topic s = t \<longrightarrow> \<not> sb_canceled s \<longrightarrow> length (sb_queue s) \<noteq> sb_capacity s)"
  by (induction t ss arbitrary: ns rule: recipients.induct) (auto simp: and_then_Inr split: if_splits)

text \<open>What a subscriber was offered is what its handler was given, then what waits in its queue, then what was
  published after its cancellation.\<close>

definition sub_ok :: "bus_label list \<Rightarrow> nat \<Rightarrow> subscriber \<Rightarrow> bool" where
  "sub_ok ls n s \<longleftrightarrow> Subscribed n \<in> set ls \<and> length (sb_queue s) \<le> sb_capacity s
     \<and> (\<exists>rest. offered n (sb_topic s) ls = started_by n ls @ sb_queue s @ rest \<and> (\<not> sb_canceled s \<longrightarrow> rest = []))"

definition bus_ok :: "bus \<times> bus_label list \<Rightarrow> bool" where
  "bus_ok = (\<lambda>(b, ls). distinct (keys (bus_subs b)) \<and> (\<forall>n \<in> set (keys (bus_subs b)). n < bus_next b)
     \<and> (\<forall>n \<ge> bus_next b. Subscribed n \<notin> set ls \<and> started_by n ls = []) \<and> bus_wg b = length (bus_subs b)
     \<and> (\<forall>n s. map_of (bus_subs b) n = Some s \<longrightarrow> sub_ok ls n s \<and> (bus_closed b \<longrightarrow> sb_canceled s)))"

lemma sub_ok_quiet:
  assumes "sub_ok ls n s" "published_events [l] = []" "started_by n [l] = []"
  shows "sub_ok (ls @ [l]) n s"
  using assms by (auto simp: sub_ok_def offered_snoc)

lemma bus_okI:
  assumes "bus_ok (b, ls)" "keys (bus_subs b') = keys (bus_subs b)" "bus_next b' = bus_next b" "bus_wg b' = bus_wg b"
    "\<And>n. n \<ge> bus_next b \<Longrightarrow> l \<noteq> Subscribed n \<and> started_by n [l] = []"
    "\<And>n s'. map_of (bus_subs b') n = Some s' \<Longrightarrow> \<exists>s. map_of (bus_subs b) n = Some s \<and>
        (sub_ok ls n s \<and> (bus_closed b \<longrightarrow> sb_canceled s) \<longrightarrow> sub_ok (ls @ [l]) n s' \<and> (bus_closed b' \<longrightarrow> sb_canceled s'))"
  shows "bus_ok (b', ls @ [l])"
proof -
  have len: "length (bus_subs b') = length (bus_subs b)" using assms(2) by (metis length_map)
  show ?thesis unfolding bus_ok_def prod.case
  proof (intro conjI allI impI)
    show "distinct (keys (bus_subs b'))" "bus_wg b' = length (bus_subs b')" "\<forall>n\<in>set (keys (bus_subs b')). n < bus_next b'"
      using assms(1-4) len unfolding bus_ok_def by auto
    show "Subscribed n \<notin> set (ls @ [l])" "started_by n (ls @ [l]) = []" if "bus_next b' \<le> n" for n
      using assms(1,3) assms(5) [of n] that unfolding bus_ok_def by auto
    fix n s' assume "map_of (bus_subs b') n = Some s'"
    with assms(6) obtain s where s: "map_of (bus_subs b) n = Some s"
      "sub_ok ls n s \<and> (bus_closed b \<longrightarrow> sb_canceled s) \<longrightarrow> sub_ok (ls @ [l]) n s' \<and> (bus_closed b' \<longrightarrow> sb_canceled s')" by blast
    with assms(1) show "sub_ok (ls @ [l]) n s'" "bus_closed b' \<Longrightarrow> sb_canceled s'" by (auto simp: bus_ok_def)
  qed
qed

lemma keys_update: "map_of ss n = Some s \<Longrightarrow> keys (AList.update n v ss) = keys ss"
  by (induction ss) (auto split: if_splits)

lemma publish_effect:
  assumes "bus_ok (b, ls)"
  shows "\<exists>r b'. publish ctx topic payload b = Some (r, b') \<and> (case r of
      Inl e \<Rightarrow> b' = b
    | Inr _ \<Rightarrow> \<exists>data. payload = Inr data \<and> \<not> bus_closed b \<and> b' = b\<lparr>bus_subs := map (\<lambda>(n, s). (n, if sb_topic s = topic \<and> \<not> sb_canceled s
        then s\<lparr>sb_queue := sb_queue s @ [\<lparr>ev_account = bus_account b, ev_topic = topic, ev_payload = data\<rparr>]\<rparr> else s)) (bus_subs b)\<rparr>
        \<and> (\<forall>n s. map_of (bus_subs b) n = Some s \<longrightarrow> sb_topic s = topic \<longrightarrow> \<not> sb_canceled s \<longrightarrow> length (sb_queue s) < sb_capacity s))"
proof (cases "ctx = None \<and> topic \<noteq> [] \<and> \<not> bus_closed b \<and> (\<exists>data ns. payload = Inr data \<and> recipients topic (bus_subs b) = Inr ns)")
  case False
  then show ?thesis by (auto simp: publish_def split: option.splits sum.splits)
next
  case True
  then obtain data ns where h: "payload = Inr data" "recipients topic (bus_subs b) = Inr ns" "ctx = None" "topic \<noteq> []" "\<not> bus_closed b" by blast
  let ?e = "\<lparr>ev_account = bus_account b, ev_topic = topic, ev_payload = data\<rparr>"
  have d: "distinct (keys (bus_subs b))" using assms by (simp add: bus_ok_def)
  have ns: "ns = map fst (filter (\<lambda>(n, s). sb_topic s = topic \<and> \<not> sb_canceled s) (bus_subs b))"
    and room: "\<forall>(n, s) \<in> set (bus_subs b). sb_topic s = topic \<longrightarrow> \<not> sb_canceled s \<longrightarrow> length (sb_queue s) \<noteq> sb_capacity s"
    using recipients_spec [OF h(2)] by auto
  have full: "length (sb_queue s) < sb_capacity s" if "map_of (bus_subs b) n = Some s" "sb_topic s = topic" "\<not> sb_canceled s" for n s
  proof -
    have "length (sb_queue s) \<noteq> sb_capacity s" using room that map_of_SomeD [OF that(1)] by blast
    moreover have "length (sb_queue s) \<le> sb_capacity s" using assms that by (auto simp: bus_ok_def sub_ok_def)
    ultimately show ?thesis by simp
  qed
  have mem: "n \<in> set ns \<longleftrightarrow> sb_topic s = topic \<and> \<not> sb_canceled s" if "(n, s) \<in> set (bus_subs b)" for n s
  proof
    assume "n \<in> set ns"
    then obtain s' where "(n, s') \<in> set (bus_subs b)" "sb_topic s' = topic" "\<not> sb_canceled s'" unfolding ns by auto
    with eq_key_imp_eq_value [OF d that] show "sb_topic s = topic \<and> \<not> sb_canceled s" by blast
  next
    assume "sb_topic s = topic \<and> \<not> sb_canceled s"
    with that show "n \<in> set ns" unfolding ns by (force simp: image_iff)
  qed
  have "send_all ?e ns (bus_subs b) = Some (map (\<lambda>(n, s). (n, if n \<in> set ns then s\<lparr>sb_queue := sb_queue s @ [?e]\<rparr> else s)) (bus_subs b))"
  proof (rule send_all_map [OF _ d])
    show "distinct ns" unfolding ns using d by (simp add: distinct_map_filter)
    show "set ns \<subseteq> set (keys (bus_subs b))" unfolding ns by auto
    show "length (sb_queue s) < sb_capacity s" if "n \<in> set ns" "map_of (bus_subs b) n = Some s" for n s
      using full [OF that(2)] mem [OF map_of_SomeD [OF that(2)]] that(1) by blast
  qed
  also have "map (\<lambda>(n, s). (n, if n \<in> set ns then s\<lparr>sb_queue := sb_queue s @ [?e]\<rparr> else s)) (bus_subs b)
      = map (\<lambda>(n, s). (n, if sb_topic s = topic \<and> \<not> sb_canceled s then s\<lparr>sb_queue := sb_queue s @ [?e]\<rparr> else s)) (bus_subs b)"
    using mem by (intro map_cong) auto
  finally show ?thesis using h full by (auto simp: publish_def)
qed

lemma map_of_map_subs: "map_of (map (\<lambda>(n, s). (n, f n s)) ss) n = map_option (f n) (map_of ss n)"
  by (induction ss) auto

lemma keys_map_subs: "keys (map (\<lambda>(n, s). (n, f n s)) ss) = keys ss"
  by (induction ss) auto

lemma update_fresh: "n \<notin> set (keys ss) \<Longrightarrow> AList.update n v ss = ss @ [(n, v)]"
  by (induction ss) auto

lemma delete_length: "distinct (keys ss) \<Longrightarrow> map_of ss n = Some s \<Longrightarrow> length ss = Suc (length (AList.delete n ss))"
  by (induction ss) (auto simp: AList.delete_idem split: if_splits)

lemma delete_mem: "(m, t) \<in> set (AList.delete n ss) \<Longrightarrow> (m, t) \<in> set ss"
  by (auto simp: AList.delete_eq)

lemma sub_ok_publish:
  assumes "sub_ok ls n s" "ev_topic e = topic" "sb_topic s = topic \<longrightarrow> \<not> sb_canceled s \<longrightarrow> length (sb_queue s) < sb_capacity s"
  shows "sub_ok (ls @ [Published e]) n (if sb_topic s = topic \<and> \<not> sb_canceled s then s\<lparr>sb_queue := sb_queue s @ [e]\<rparr> else s)"
  using assms by (auto simp: sub_ok_def offered_snoc)

lemma subscribe_ok:
  assumes "bus_ok (b, ls)" "subscribe ctx owner topic capacity h b = (Inr n, b')"
  shows "bus_ok (b', ls @ [Subscribed n])"
proof -
  define s0 where "s0 = \<lparr>sb_topic = topic, sb_capacity = nat capacity, sb_queue = [], sb_canceled = False, sb_owner = owner, sb_busy = False\<rparr>"
  from assms(2) have n: "n = bus_next b" "\<not> bus_closed b"
    and b': "b' = b\<lparr>bus_subs := AList.update n s0 (bus_subs b), bus_next := Suc (bus_next b), bus_wg := Suc (bus_wg b)\<rparr>"
    by (auto simp: subscribe_def s0_def split: if_splits option.splits)
  have ok: "distinct (keys (bus_subs b))" "n \<notin> set (keys (bus_subs b))" "Subscribed n \<notin> set ls" "started_by n ls = []"
    using assms(1) n by (auto simp: bus_ok_def)
  have "length (AList.update n s0 (bus_subs b)) = Suc (length (bus_subs b))"
    using update_fresh [OF ok(2)] by simp
  then have wg: "bus_wg b' = length (bus_subs b')" using assms(1) b' by (simp add: bus_ok_def)
  have "sub_ok (ls @ [Subscribed n]) n s0" using offered_join [OF ok(3)] ok(4) by (simp add: sub_ok_def s0_def)
  moreover have "sub_ok (ls @ [Subscribed n]) m s" if "map_of (bus_subs b) m = Some s" for m s
    using assms(1) that by (auto simp: bus_ok_def intro: sub_ok_quiet)
  ultimately show ?thesis using assms(1) n b' wg ok(1) unfolding bus_ok_def prod.case
    by (auto simp: alist_simps split: if_splits)
qed

lemma sub_step_ok:
  assumes "sub_step b l b'" "bus_ok (b, ls)"
  shows "bus_ok (b', ls @ [l])"
  using assms(1)
proof cases
  case (take_event n s e q)
  have "n < bus_next b" using take_event(3) assms(2) map_of_key by (fastforce simp: bus_ok_def)
  then show ?thesis
    by (intro bus_okI [OF assms(2)])
       (use take_event in \<open>auto simp: alist_simps keys_update sub_ok_def offered_snoc split: if_splits\<close>)
next
  case (handled n s)
  then show ?thesis
    by (intro bus_okI [OF assms(2)]) (auto simp: alist_simps keys_update sub_ok_def offered_snoc split: if_splits)
next
  case (leave n s)
  have "length (AList.delete n (bus_subs b)) = length (bus_subs b) - 1"
    using delete_length [OF _ leave(3)] assms(2) by (simp add: bus_ok_def)
  with leave assms(2) show ?thesis
    by (auto simp: unsubscribe_def bus_ok_def alist_simps dest: delete_mem intro: sub_ok_quiet split: if_splits)
qed

interpretation bus: invariant_proof bus_init bus_hist bus_ok
proof
  show "bus_ok x" if "bus_init x" for x using that by (auto simp: bus_init_def bus_ok_def new_bus_def)
  fix x y assume ok: "bus_ok x" and st: "bus_hist x y"
  from st obtain b l b' ls where x: "x = (b, ls)" "y = (b', ls @ [l])" and step: "bus_step b l b'" by cases
  have ok: "bus_ok (b, ls)" using ok x by simp
  have quiet: "bus_ok (b, ls @ [Quiet])"
    by (rule bus_okI [OF ok]) (auto intro: sub_ok_quiet)
  from step have "bus_ok (b', ls @ [l])"
  proof cases
    case (subscribed ctx owner topic capacity h n)
    with subscribe_ok [OF ok] show ?thesis by simp
  next
    case (subscribe_fails ctx owner topic capacity h e)
    with quiet show ?thesis by (auto simp: subscribe_def split: if_splits option.splits)
  next
    case (published ctx topic data u)
    have "b' = b\<lparr>bus_subs := map (\<lambda>(n, s). (n, if sb_topic s = topic \<and> \<not> sb_canceled s
        then s\<lparr>sb_queue := sb_queue s @ [\<lparr>ev_account = bus_account b, ev_topic = topic, ev_payload = data\<rparr>]\<rparr> else s)) (bus_subs b)\<rparr>"
      "\<forall>n s. map_of (bus_subs b) n = Some s \<longrightarrow> sb_topic s = topic \<longrightarrow> \<not> sb_canceled s \<longrightarrow> length (sb_queue s) < sb_capacity s"
      using publish_effect [OF ok, of ctx topic "Inr data"] published(2) by auto
    then show ?thesis unfolding published(1)
      by (intro bus_okI [OF ok]) (auto simp: keys_map_subs map_of_map_subs intro!: sub_ok_publish)
  next
    case (publish_fails ctx topic payload e)
    with publish_effect [OF ok, of ctx topic payload] quiet show ?thesis by auto
  next
    case (canceled n)
    then show ?thesis
    proof (cases "map_of (bus_subs b) n")
      case None
      with canceled quiet show ?thesis by (simp add: cancel_sub_def)
    next
      case (Some s)
      show ?thesis unfolding canceled
        by (intro bus_okI [OF ok]) (use Some in \<open>auto simp: cancel_sub_def alist_simps keys_update sub_ok_def offered_snoc split: if_splits\<close>)
    qed
  next
    case closed
    show ?thesis unfolding closed
      by (intro bus_okI [OF ok]) (auto simp: close_bus_def keys_map_subs map_of_map_subs sub_ok_def offered_snoc)
  next
    case goroutine
    then show ?thesis using sub_step_ok ok by blast
  qed
  with x show "bus_ok y" by simp
qed

section \<open>Properties\<close>

text \<open>C9: ordered delivery without loss. Whatever clients and goroutines do, the events given to the handler of a
  live subscriber, followed by those in its queue, are exactly the events published on its topic since it
  subscribed, in the order of publication and each once; after its cancellation the handler has been given a
  prefix of them. No queue exceeds its capacity.\<close>

theorem event_bus_delivers_in_order:
  assumes "reach bus_init bus_hist (b, ls)" "map_of (bus_subs b) n = Some s"
  shows "(\<exists>rest. offered n (sb_topic s) ls = started_by n ls @ sb_queue s @ rest \<and> (sb_canceled s \<or> rest = []))
    \<and> length (sb_queue s) \<le> sb_capacity s"
proof -
  have "sub_ok ls n s" using bus.reach_inv [OF assms(1)] assms(2) by (auto simp: bus_ok_def)
  then show ?thesis unfolding sub_ok_def by blast
qed

definition demo_bus :: bus where
  "demo_bus = snd (subscribe None 0 ''t'' 1 True (new_bus ''a''))"

lemma demo_reach: "reach bus_init bus_hist (demo_bus, [Subscribed 0])"
proof -
  have "bus_step (new_bus ''a'') (Subscribed 0) demo_bus"
    by (rule bus_step.subscribed [of None 0 "''t''" 1 True]) (simp add: demo_bus_def subscribe_def new_bus_def)
  then have "bus_hist (new_bus ''a'', []) (demo_bus, [] @ [Subscribed 0])" by (rule bus_hist.intros)
  moreover have "reach bus_init bus_hist (new_bus ''a'', [])" by (rule reach_init) (auto simp: bus_init_def)
  ultimately have "reach bus_init bus_hist (demo_bus, [] @ [Subscribed 0])" by (rule reach_step [rotated])
  then show ?thesis by simp
qed

theorem event_bus_delivers_in_order_witness:
  "\<exists>b s e. publish None ''t'' (Inr (Doc JNull)) demo_bus = Some (Inr (), b) \<and> map_of (bus_subs b) 0 = Some s \<and> sb_queue s = [e]
     \<and> offered 0 ''t'' [Subscribed 0, Published e] = started_by 0 [Subscribed 0, Published e] @ sb_queue s"
proof -
  define e where "e = \<lparr>ev_account = ''a'', ev_topic = ''t'', ev_payload = Doc JNull\<rparr>"
  define s where "s = \<lparr>sb_topic = ''t'', sb_capacity = 1, sb_queue = [e], sb_canceled = False, sb_owner = 0, sb_busy = False\<rparr>"
  define b where "b = demo_bus\<lparr>bus_subs := [(0, s)]\<rparr>"
  have p: "publish None ''t'' (Inr (Doc JNull)) demo_bus = Some (Inr (), b)"
    by (simp add: publish_def demo_bus_def subscribe_def new_bus_def b_def s_def e_def)
  then have "bus_step demo_bus (Published e) b"
    using bus_step.published [OF p] by (simp add: e_def demo_bus_def subscribe_def new_bus_def)
  then have "bus_hist (demo_bus, [Subscribed 0]) (b, [Subscribed 0] @ [Published e])" by (rule bus_hist.intros)
  from demo_reach this have "reach bus_init bus_hist (b, [Subscribed 0] @ [Published e])" by (rule reach_step)
  then have r: "reach bus_init bus_hist (b, [Subscribed 0, Published e])" by simp
  have m: "map_of (bus_subs b) 0 = Some s" by (simp add: b_def)
  from event_bus_delivers_in_order [OF r m] p m show ?thesis by (auto simp: s_def)
qed

text \<open>\<open>Publish\<close> never blocks on a channel and is all-or-nothing: when it returns an error the bus is unchanged;
  when it succeeds the event was appended to the queue of every subscriber of the topic that was not
  cancelled, and to no other, and each of them had room for it.\<close>

theorem publish_reaches_all_or_none:
  assumes "reach bus_init bus_hist (b, ls)"
  shows "\<exists>r b'. publish ctx topic payload b = Some (r, b') \<and> (case r of
      Inl e \<Rightarrow> b' = b
    | Inr _ \<Rightarrow> \<exists>data. payload = Inr data \<and> (\<forall>n. map_of (bus_subs b') n = map_option (\<lambda>s.
        if sb_topic s = topic \<and> \<not> sb_canceled s
        then s\<lparr>sb_queue := sb_queue s @ [\<lparr>ev_account = bus_account b, ev_topic = topic, ev_payload = data\<rparr>]\<rparr> else s)
          (map_of (bus_subs b) n))
        \<and> list_all (\<lambda>(n, s). length (sb_queue s) \<le> sb_capacity s) (bus_subs b'))"
proof -
  note ok = bus.reach_inv [OF assms]
  obtain r b' where p: "publish ctx topic payload b = Some (r, b')" using publish_effect [OF ok] by blast
  show ?thesis
  proof (cases r)
    case (Inl e)
    with publish_effect [OF ok, of ctx topic payload] p show ?thesis by auto
  next
    case (Inr u)
    with publish_effect [OF ok, of ctx topic payload] p obtain data where data: "payload = Inr data"
      and b': "b' = b\<lparr>bus_subs := map (\<lambda>(n, s). (n, if sb_topic s = topic \<and> \<not> sb_canceled s
        then s\<lparr>sb_queue := sb_queue s @ [\<lparr>ev_account = bus_account b, ev_topic = topic, ev_payload = data\<rparr>]\<rparr> else s)) (bus_subs b)\<rparr>"
      by auto
    have "bus_step b (Published \<lparr>ev_account = bus_account b, ev_topic = topic, ev_payload = data\<rparr>) b'"
      using p Inr data by (intro bus_step.published [of ctx topic data b u]) simp
    from bus_hist.intros [OF this, of ls] bus.reach_next_inv [OF assms] have ok': "bus_ok (b', ls @ [Published \<lparr>ev_account = bus_account b, ev_topic = topic, ev_payload = data\<rparr>])"
      by blast
    then have "list_all (\<lambda>(n, s). length (sb_queue s) \<le> sb_capacity s) (bus_subs b')"
      by (auto simp: bus_ok_def sub_ok_def list_all_iff dest!: map_of_is_SomeI)
    with p Inr data b' show ?thesis by (auto simp: map_of_map_subs)
  qed
qed

theorem publish_reaches_all_or_none_witness:
  "\<exists>r b'. publish None ''t'' (Inr (Doc JNull)) demo_bus = Some (r, b')"
  using publish_reaches_all_or_none [OF demo_reach, of None "''t''" "Inr (Doc JNull)"] by blast

text \<open>Progress of the goroutines once the bus is closed.\<close>

definition go_step :: "bus \<Rightarrow> bus \<Rightarrow> bool" where
  "go_step b b' \<longleftrightarrow> (\<exists>l. sub_step b l b')"

definition go_work :: "bus \<Rightarrow> nat" where
  "go_work b = sum_list (map (\<lambda>(n, s). if sb_busy s then 2 else 1) (bus_subs b))"

definition draining :: "bus \<Rightarrow> bool" where
  "draining b \<longleftrightarrow> bus_closed b \<and> distinct (keys (bus_subs b)) \<and> bus_wg b = length (bus_subs b) \<and> (\<forall>(n, s) \<in> set (bus_subs b). sb_canceled s)"

lemma update_mem: "(m, t) \<in> set (AList.update n v ss) \<Longrightarrow> t = v \<or> (m, t) \<in> set ss"
  by (induction ss) (auto split: if_splits)

lemma work_update:
  "map_of ss n = Some s \<Longrightarrow> sb_busy s \<Longrightarrow> \<not> sb_busy t \<Longrightarrow>
     sum_list (map (\<lambda>(n, s). if sb_busy s then 2 else 1) ss)
       = Suc (sum_list (map (\<lambda>(n, s). if sb_busy s then 2 else (1::nat)) (AList.update n t ss)))"
  by (induction ss) (auto split: if_splits)

lemma work_delete:
  "distinct (keys ss) \<Longrightarrow> map_of ss n = Some s \<Longrightarrow> \<not> sb_busy s \<Longrightarrow>
     sum_list (map (\<lambda>(n, s). if sb_busy s then 2 else 1) ss)
       = Suc (sum_list (map (\<lambda>(n, s). if sb_busy s then 2 else (1::nat)) (AList.delete n ss)))"
  by (induction ss) (auto simp: AList.delete_idem split: if_splits)

lemma draining_step:
  assumes "draining b" "go_step b b'"
  shows "draining b' \<and> go_work b = Suc (go_work b')"
proof -
  from assms(2) obtain l where "sub_step b l b'" by (auto simp: go_step_def)
  then show ?thesis
  proof cases
    case (take_event n s e q)
    with assms(1) show ?thesis by (auto simp: draining_def dest: map_of_SomeD)
  next
    case (handled n s)
    have "length (AList.update n (s\<lparr>sb_busy := False\<rparr>) (bus_subs b)) = length (bus_subs b)"
      using keys_update [OF handled(3)] by (metis length_map)
    moreover have "sb_canceled s" using assms(1) map_of_SomeD [OF handled(3)] by (auto simp: draining_def)
    ultimately show ?thesis using handled assms(1) work_update [OF handled(3,4)]
      by (auto simp: draining_def go_work_def keys_update dest!: update_mem)
  next
    case (leave n s)
    have d: "distinct (keys (bus_subs b))" using assms(1) by (simp add: draining_def)
    from work_delete [OF d leave(3,4)] delete_length [OF d leave(3)] leave assms(1) show ?thesis
      by (auto simp: draining_def go_work_def unsubscribe_def dest: delete_mem)
  qed
qed

lemma draining_progress:
  assumes "draining b" "bus_subs b \<noteq> []"
  shows "\<exists>b'. go_step b b'"
proof -
  obtain n s where h: "(n, s) \<in> set (bus_subs b)" using assms(2) by (metis list.set_intros(1) neq_Nil_conv surj_pair)
  then have m: "map_of (bus_subs b) n = Some s" "sb_canceled s" using assms(1) by (auto simp: draining_def)
  then show ?thesis by (cases "sb_busy s") (auto simp: go_step_def intro: sub_step.handled sub_step.leave)
qed

text \<open>A closed bus drains. After \<open>Close\<close> no subscription or publication succeeds; as long as handlers return, the
  goroutines stop after at most two steps for each subscriber, they stop only when all of them are gone, and then
  the waits of \<open>Close\<close> and \<open>WaitScope\<close> succeed.\<close>

theorem closed_bus_drains:
  assumes "reach bus_init bus_hist (b, ls)" "bus_closed b"
  shows "isl (fst (subscribe ctx owner topic capacity h b)) \<and> (\<exists>e. publish ctx topic payload b = Some (Inl e, b))
    \<and> (\<forall>k b'. (go_step ^^ k) b b' \<longrightarrow> k \<le> 2 * bus_wg b
         \<and> ((\<exists>b''. go_step b' b'') \<or> bus_wg b' = 0 \<and> close_wait ctx b' = Some (Inr ()) \<and> scope_wait ctx ns b' = Some (Inr ())))"
proof (intro conjI allI impI)
  note ok = bus.reach_inv [OF assms(1)]
  show "isl (fst (subscribe ctx owner topic capacity h b))" using assms(2) by (simp add: subscribe_def split: option.split)
  show "\<exists>e. publish ctx topic payload b = Some (Inl e, b)" using assms(2) by (auto simp: publish_def split: option.split sum.split)
  have dr: "draining b" using ok assms(2) by (auto simp: draining_def bus_ok_def dest!: map_of_is_SomeI)
  have run: "draining b' \<and> go_work b = k + go_work b'" if "(go_step ^^ k) b b'" for k b'
    using that
  proof (induction k arbitrary: b')
    case (Suc k)
    then obtain a where "(go_step ^^ k) b a" "go_step a b'" by auto
    with Suc.IH draining_step show ?case by fastforce
  qed (simp add: dr)
  have le: "sum_list (map (\<lambda>(n, s). if sb_busy s then 2 else (1::nat)) ss) \<le> 2 * length ss" for ss :: "(nat \<times> subscriber) list"
    by (induction ss) auto
  fix k b' assume st: "(go_step ^^ k) b b'"
  show "k \<le> 2 * bus_wg b" using run [OF st] le [of "bus_subs b"] dr by (simp add: draining_def go_work_def)
  show "(\<exists>b''. go_step b' b'') \<or> bus_wg b' = 0 \<and> close_wait ctx b' = Some (Inr ()) \<and> scope_wait ctx ns b' = Some (Inr ())"
  proof (cases "bus_subs b' = []")
    case True
    then have "scope_wait ctx ns b' = Some (Inr ())" by (induction ns) auto
    with True run [OF st] show ?thesis by (simp add: draining_def close_wait_def)
  next
    case False
    with run [OF st] draining_progress show ?thesis by blast
  qed
qed

theorem closed_bus_drains_witness:
  "\<exists>e. publish None ''t'' (Inr (Doc JNull)) (close_bus demo_bus) = Some (Inl e, close_bus demo_bus)"
proof -
  have "bus_hist (demo_bus, [Subscribed 0]) (close_bus demo_bus, [Subscribed 0] @ [Quiet])" by (intro bus_hist.intros bus_step.closed)
  from demo_reach this have r: "reach bus_init bus_hist (close_bus demo_bus, [Subscribed 0] @ [Quiet])" by (rule reach_step)
  have "bus_closed (close_bus demo_bus)" by (simp add: close_bus_def)
  from closed_bus_drains [OF r this, of None 0 "''t''" 1 True "Inr (Doc JNull)"] show ?thesis by blast
qed

end
