(* ===== verification/Delivery.thy ===== *)
theory Delivery
  imports Task_Hub Range_Proxy "HOL-Library.Product_Lexorder"
begin

text \<open>
  The record of HTTP deliveries (\<open>app/http/delivery_status.go\<close>): the byte ranges that reached an external
  downloader are merged into the JSON record of the link, until they cover the file.
\<close>

section \<open>Ranges\<close>

record deliveryRange =
  dl_start :: int
  dl_end :: int

record httpDelivery =
  hd_fileSize :: int
  hd_ranges :: "deliveryRange list"
  hd_completedAt :: instant

definition delivery_zero :: httpDelivery where
  "delivery_zero = \<lparr>hd_fileSize = 0, hd_ranges = [], hd_completedAt = 0\<rparr>"

text \<open>\<open>mergeHTTPDeliveryRanges\<close>: clipping one range, and the loop over the sorted ones with the current range.\<close>

definition clip_range :: "int \<Rightarrow> deliveryRange \<Rightarrow> deliveryRange option" where
  "clip_range fileSize r =
     (let r1 = (if dl_start r < 0 then r\<lparr>dl_start := 0\<rparr> else r);
          r2 = (if fileSize \<le> dl_end r1 then r1\<lparr>dl_end := wrap64 (fileSize - 1)\<rparr> else r1)
      in if dl_end r2 < dl_start r2 \<or> fileSize \<le> dl_start r2 then None else Some r2)"

fun merge_loop :: "deliveryRange \<Rightarrow> deliveryRange list \<Rightarrow> deliveryRange list" where
  "merge_loop current [] = [current]"
| "merge_loop current (r # rs) =
     (if dl_start r \<le> dl_end current \<or> dl_start r = wrap64 (dl_end current + 1)
      then merge_loop (if dl_end current < dl_end r then current\<lparr>dl_end := dl_end r\<rparr> else current) rs
      else current # merge_loop r rs)"

definition mergeHTTPDeliveryRanges :: "deliveryRange list \<Rightarrow> int \<Rightarrow> deliveryRange list" where
  "mergeHTTPDeliveryRanges ranges fileSize =
     (if fileSize \<le> 0 \<or> ranges = [] then []
      else case sort_key (\<lambda>r. (dl_start r, dl_end r)) (List.map_filter (clip_range fileSize) ranges) of
             [] \<Rightarrow> []
           | r # rs \<Rightarrow> merge_loop r rs)"

section \<open>The stored record\<close>

text \<open>\<open>omitempty\<close> does not apply to a \<open>time.Time\<close>: \<open>completed_at\<close> is always written.\<close>

definition range_json :: "deliveryRange \<Rightarrow> json" where
  "range_json r = JObj [(''start'', JNum (dl_start r)), (''end'', JNum (dl_end r))]"

definition delivery_json :: "httpDelivery \<Rightarrow> json" where
  "delivery_json d =
     JObj ([(''file_size'', JNum (hd_fileSize d))] @ (if hd_ranges d = [] then [] else [(''ranges'', JArr (map range_json (hd_ranges d)))])
       @ [(''completed_at'', JTime (hd_completedAt d))])"

definition range_of_json :: "json \<Rightarrow> deliveryRange res" where
  "range_of_json j =
     and_then (unmarshal_object (Doc j)) (\<lambda>fs. and_then (field_int64 fs ''start'') (\<lambda>a. and_then (field_int64 fs ''end'') (\<lambda>b.
     Inr \<lparr>dl_start = a, dl_end = b\<rparr>)))"

fun ranges_of_json :: "json list \<Rightarrow> deliveryRange list res" where
  "ranges_of_json [] = Inr []"
| "ranges_of_json (j # js) = and_then (range_of_json j) (\<lambda>r. and_then (ranges_of_json js) (\<lambda>rs. Inr (r # rs)))"

definition delivery_of_json :: "json \<Rightarrow> httpDelivery res" where
  "delivery_of_json j =
     and_then (unmarshal_object (Doc j)) (\<lambda>fs. and_then (field_int64 fs ''file_size'') (\<lambda>n.
     and_then (case map_of fs ''ranges'' of None \<Rightarrow> Inr [] | Some JNull \<Rightarrow> Inr [] | Some (JArr js) \<Rightarrow> ranges_of_json js | Some _ \<Rightarrow> Inl errType) (\<lambda>rs.
     and_then (field_time fs ''completed_at'') (\<lambda>t. Inr \<lparr>hd_fileSize = n, hd_ranges = rs, hd_completedAt = t\<rparr>))))"

definition stored_delivery :: "(string \<times> json) list \<Rightarrow> httpDelivery res" where
  "stored_delivery raw = (case map_of raw ''http_delivery'' of None \<Rightarrow> Inr delivery_zero | Some v \<Rightarrow> delivery_of_json v)"

text \<open>\<open>ParseDownloadTaskHTTPStatus\<close>: \<open>DownloadTaskHTTPStatus\<close> of the bytes of a link.\<close>

record httpStatus =
  hs_completed :: bool
  hs_completedAt :: instant
  hs_deliveredBytes :: int
  hs_fileSize :: int

definition delivered_bytes :: "deliveryRange list \<Rightarrow> int" where
  "delivered_bytes rs = fold (\<lambda>r n. wrap64 (n + wrap64 (wrap64 (dl_end r - dl_start r) + 1))) rs 0"

definition parseDownloadTaskHTTPStatus :: "blob \<Rightarrow> httpStatus res" where
  "parseDownloadTaskHTTPStatus data =
     (case and_then (unmarshal_object data) stored_delivery of
        Inl e \<Rightarrow> Inl (ErrWrap ''decode HTTP delivery status'' e)
      | Inr d \<Rightarrow>
          Inr \<lparr>hs_completed = (\<not> is_zero (hd_completedAt d)), hs_completedAt = hd_completedAt d,
               hs_deliveredBytes = (if \<not> is_zero (hd_completedAt d) then hd_fileSize d
                                    else delivered_bytes (mergeHTTPDeliveryRanges (hd_ranges d) (hd_fileSize d))),
               hs_fileSize = hd_fileSize d\<rparr>)"

section \<open>Recording a delivery\<close>

definition delivery_next :: "int \<Rightarrow> deliveryRange list \<Rightarrow> instant \<Rightarrow> httpDelivery \<Rightarrow> (httpDelivery \<times> bool) option" where
  "delivery_next fileSize added completedAt d0 =
     (let d1 = (if hd_fileSize d0 \<noteq> fileSize \<and> (hd_ranges d0 \<noteq> [] \<or> \<not> is_zero (hd_completedAt d0)) then delivery_zero else d0)
                 \<lparr>hd_fileSize := fileSize\<rparr>;
          rs = mergeHTTPDeliveryRanges (hd_ranges d1 @ added) fileSize;
          complete = (fileSize = 0 \<or> (case rs of [r] \<Rightarrow> dl_start r = 0 \<and> dl_end r = wrap64 (fileSize - 1) | _ \<Rightarrow> False))
      in if \<not> is_zero (hd_completedAt d1) then None
         else Some (if complete then d1\<lparr>hd_completedAt := completedAt, hd_ranges := []\<rparr> else d1\<lparr>hd_ranges := rs\<rparr>, complete))"

definition delivery_change :: "int \<Rightarrow> downloadRange list \<Rightarrow> instant \<Rightarrow> blob \<Rightarrow> instant \<Rightarrow> (blob option \<times> instant \<times> bool) res" where
  "delivery_change fileSize ranges completedAt data stamp =
     (case unmarshal_object data of
        Inl e \<Rightarrow> Inl (ErrWrap ''decode HTTP delivery task'' e)
      | Inr raw \<Rightarrow>
          (case stored_delivery raw of
             Inl e \<Rightarrow> Inl (ErrWrap ''decode persisted HTTP delivery'' e)
           | Inr d0 \<Rightarrow>
               (case delivery_next fileSize (map (\<lambda>r. \<lparr>dl_start = dr_start r, dl_end = dr_end r\<rparr>) ranges) completedAt d0 of
                  None \<Rightarrow> Inr (Some data, stamp, False)
                | Some (d, complete) \<Rightarrow>
                    let raw1 = (if complete then AList.update ''downloaded'' (JBool True) raw else raw)
                    in Inr (Some (Doc (JObj (AList.update ''http_delivery'' (delivery_json d) raw1))), stamp, complete))))"

text \<open>\<open>recordHTTPDelivery\<close> on a configured store; \<open>now\<close> replaces a zero completion time.\<close>

definition store_recordHTTPDelivery :: "ctx \<Rightarrow> ctx \<Rightarrow> instant \<Rightarrow> string \<Rightarrow> int \<Rightarrow> downloadRange list \<Rightarrow> instant \<Rightarrow> kv \<Rightarrow> bool res \<times> kv" where
  "store_recordHTTPDelivery ctx ctx' now tid fileSize ranges completedAt s =
     (if fileSize < 0 then (Inl (ErrMsg ''invalid HTTP delivery file size''), s)
      else col_mutate links ctx ctx' tid (delivery_change fileSize ranges (if is_zero completedAt then now else completedAt)) s)"

section \<open>Merging is the union\<close>

abbreviation range_bytes :: "deliveryRange \<Rightarrow> int set" where
  "range_bytes r \<equiv> {dl_start r .. dl_end r}"

definition all_bytes :: "deliveryRange list \<Rightarrow> int set" where
  "all_bytes rs = (\<Union>r \<in> set rs. range_bytes r)"

text \<open>Non-empty ranges in order, neither overlapping nor adjacent.\<close>

fun separated :: "deliveryRange list \<Rightarrow> bool" where
  "separated [] \<longleftrightarrow> True"
| "separated [r] \<longleftrightarrow> dl_start r \<le> dl_end r"
| "separated (r # r' # rs) \<longleftrightarrow> dl_start r \<le> dl_end r \<and> dl_end r + 1 < dl_start r' \<and> separated (r' # rs)"

lemma all_bytes_simps [simp]:
  "all_bytes [] = {}" "all_bytes (r # rs) = range_bytes r \<union> all_bytes rs" "all_bytes (rs @ rs') = all_bytes rs \<union> all_bytes rs'"
  by (auto simp: all_bytes_def)

definition in_file :: "int \<Rightarrow> deliveryRange \<Rightarrow> bool" where
  "in_file len r \<longleftrightarrow> 0 \<le> dl_start r \<and> dl_start r \<le> dl_end r \<and> dl_end r < len"

lemma merge_loop_union:
  assumes "int64_ok len" "in_file len c" "list_all (in_file len) rs" "sorted (map dl_start (c # rs))"
  shows "all_bytes (merge_loop c rs) = range_bytes c \<union> all_bytes rs \<and> separated (merge_loop c rs)
    \<and> list_all (in_file len) (merge_loop c rs) \<and> (\<exists>r rs'. merge_loop c rs = r # rs' \<and> dl_start r = dl_start c)"
  using assms(2-4)
proof (induction c rs rule: merge_loop.induct)
  case (1 c)
  then show ?case by (simp add: in_file_def)
next
  case (2 c r rs)
  have "wrap64 (dl_end c + 1) = dl_end c + 1"
    using "2.prems"(1) assms(1) by (intro wrap64_id) (auto simp: in_file_def int64_ok_def)
  note w = this
  show ?case
  proof (cases "dl_start r \<le> dl_end c \<or> dl_start r = wrap64 (dl_end c + 1)")
    case True
    define c' where "c' = (if dl_end c < dl_end r then c\<lparr>dl_end := dl_end r\<rparr> else c)"
    have c': "in_file len c'" "dl_start c' = dl_start c" "sorted (map dl_start (c' # rs))"
      using "2.prems" by (auto simp: c'_def in_file_def)
    have "range_bytes c' = range_bytes c \<union> range_bytes r"
      using True w "2.prems" unfolding c'_def by (auto simp: in_file_def)
    moreover have "list_all (in_file len) rs" using "2.prems" by simp
    ultimately show ?thesis using "2.IH"(1) [OF True, folded c'_def] c' True by (auto simp flip: c'_def)
  next
    case False
    from "2.IH"(2) [OF False] "2.prems" obtain r1 rs1 where m: "merge_loop r rs = r1 # rs1" "dl_start r1 = dl_start r"
      "all_bytes (merge_loop r rs) = range_bytes r \<union> all_bytes rs" "separated (merge_loop r rs)" "list_all (in_file len) (merge_loop r rs)"
      by auto
    moreover have "dl_start c \<le> dl_end c" "in_file len c" using "2.prems" by (auto simp: in_file_def)
    ultimately show ?thesis using False w by auto
  qed
qed

lemma clip_spec:
  assumes "0 < len" "int64_ok len"
  shows "case clip_range len r of None \<Rightarrow> range_bytes r \<inter> {0 ..< len} = {}
    | Some r' \<Rightarrow> in_file len r' \<and> range_bytes r' = range_bytes r \<inter> {0 ..< len}"
proof -
  have "wrap64 (len - 1) = len - 1" using assms by (intro wrap64_id) (auto simp: int64_ok_def)
  then show ?thesis using assms(1) by (auto simp: clip_range_def in_file_def Let_def)
qed

lemma map_filter_Cons: "List.map_filter f (x # xs) = (case f x of None \<Rightarrow> List.map_filter f xs | Some y \<Rightarrow> y # List.map_filter f xs)"
  by (simp add: List.map_filter_def split: option.split)

lemma clip_all:
  assumes "0 < len" "int64_ok len"
  shows "list_all (in_file len) (List.map_filter (clip_range len) rs)
    \<and> all_bytes (List.map_filter (clip_range len) rs) = all_bytes rs \<inter> {0 ..< len}"
proof (induction rs)
  case (Cons r rs)
  from clip_spec [OF assms, of r] Cons show ?case by (auto simp: map_filter_Cons split: option.splits)
qed (simp add: List.map_filter_def)

lemma merge_union:
  assumes "int64_ok len"
  shows "all_bytes (mergeHTTPDeliveryRanges rs len) = all_bytes rs \<inter> {0 ..< len}
    \<and> separated (mergeHTTPDeliveryRanges rs len) \<and> list_all (in_file len) (mergeHTTPDeliveryRanges rs len)"
proof (cases "len \<le> 0 \<or> rs = []")
  case True
  then show ?thesis by (auto simp: mergeHTTPDeliveryRanges_def)
next
  case False
  then have pos: "0 < len" by simp
  define l where "l = sort_key (\<lambda>r. (dl_start r, dl_end r)) (List.map_filter (clip_range len) rs)"
  have l: "list_all (in_file len) l" "all_bytes l = all_bytes rs \<inter> {0 ..< len}"
    using clip_all [OF pos assms, of rs] by (auto simp: l_def all_bytes_def list_all_iff)
  have "sorted (map (\<lambda>r. (dl_start r, dl_end r)) l)" unfolding l_def by (rule sorted_sort_key)
  then have so: "sorted (map dl_start l)" unfolding sorted_map by (rule sorted_wrt_mono_rel [rotated]) (auto simp: less_eq_prod_def)
  have m: "mergeHTTPDeliveryRanges rs len = (case l of [] \<Rightarrow> [] | r # rs \<Rightarrow> merge_loop r rs)"
    using False by (simp add: mergeHTTPDeliveryRanges_def l_def)
  show ?thesis
  proof (cases l)
    case Nil
    with m l show ?thesis by auto
  next
    case (Cons r rs')
    with merge_loop_union [OF assms, of r rs'] l so m show ?thesis by auto
  qed
qed

lemma separated_above: "separated (r # rs) \<Longrightarrow> list_all (\<lambda>x. dl_end r + 1 < dl_start x) rs"
proof (induction rs arbitrary: r)
  case (Cons x rs)
  then have "list_all (\<lambda>y. dl_end x + 1 < dl_start y) rs" "dl_end r + 1 < dl_start x" "dl_start x \<le> dl_end x"
    by (cases rs; simp)+
  then show ?case by (auto simp: list_all_iff)
qed simp

lemma separated_tail: "separated (r # rs) \<Longrightarrow> separated rs \<and> dl_start r \<le> dl_end r"
  by (cases rs) auto

lemma separated_card:
  assumes "separated rs"
  shows "finite (all_bytes rs) \<and> int (card (all_bytes rs)) = (\<Sum>r \<leftarrow> rs. dl_end r - dl_start r + 1)"
  using assms
proof (induction rs)
  case (Cons r rs)
  then have IH: "finite (all_bytes rs)" "int (card (all_bytes rs)) = (\<Sum>r \<leftarrow> rs. dl_end r - dl_start r + 1)" "dl_start r \<le> dl_end r"
    using separated_tail by blast+
  moreover have "range_bytes r \<inter> all_bytes rs = {}"
    using separated_above [OF Cons.prems] by (fastforce simp: all_bytes_def list_all_iff)
  ultimately show ?case by (simp add: card_Un_disjoint)
qed simp

lemma delivered_bytes_card:
  assumes "int64_ok len" "separated rs" "list_all (in_file len) rs"
  shows "delivered_bytes rs = int (card (all_bytes rs))"
proof -
  have sub: "all_bytes rs \<subseteq> {0 ..< len}" using assms(3) by (force simp: all_bytes_def list_all_iff in_file_def)
  then have "int (card (all_bytes rs)) \<le> int (card {0 ..< len})" by (intro of_nat_mono card_mono) auto
  then have le: "(\<Sum>r \<leftarrow> rs. dl_end r - dl_start r + 1) \<le> max 0 len" using separated_card [OF assms(2)] by (simp add: max_def)
  have "fold (\<lambda>r n. wrap64 (n + wrap64 (wrap64 (dl_end r - dl_start r) + 1))) rs n = n + (\<Sum>r \<leftarrow> rs. dl_end r - dl_start r + 1)"
    if "0 \<le> n" "n + (\<Sum>r \<leftarrow> rs. dl_end r - dl_start r + 1) \<le> max 0 len" "list_all (in_file len) rs" for n rs
    using that
  proof (induction rs arbitrary: n)
    case (Cons r rs)
    have r: "0 \<le> dl_start r" "dl_start r \<le> dl_end r" "dl_end r < len" using Cons.prems by (auto simp: in_file_def)
    have pos: "0 \<le> (\<Sum>r \<leftarrow> rs. dl_end r - dl_start r + 1)" using Cons.prems(3) by (intro sum_list_nonneg) (auto simp: list_all_iff in_file_def)
    have "wrap64 (dl_end r - dl_start r) = dl_end r - dl_start r" "wrap64 (dl_end r - dl_start r + 1) = dl_end r - dl_start r + 1"
      "wrap64 (n + (dl_end r - dl_start r + 1)) = n + (dl_end r - dl_start r + 1)"
      using r pos Cons.prems(1,2) assms(1) by (auto intro!: wrap64_id simp: int64_ok_def)
    then have step: "wrap64 (n + wrap64 (wrap64 (dl_end r - dl_start r) + 1)) = n + (dl_end r - dl_start r + 1)" by (simp only:)
    have "fold (\<lambda>r n. wrap64 (n + wrap64 (wrap64 (dl_end r - dl_start r) + 1))) rs (n + (dl_end r - dl_start r + 1))
        = n + (dl_end r - dl_start r + 1) + (\<Sum>r \<leftarrow> rs. dl_end r - dl_start r + 1)"
      using Cons.prems r by (intro Cons.IH) (auto simp: algebra_simps)
    then show ?case unfolding fold.simps comp_def step by simp
  qed simp
  from this [of 0 rs] le assms(3) separated_card [OF assms(2)] show ?thesis by (simp add: delivered_bytes_def)
qed

section \<open>Properties\<close>

text \<open>The ranges kept for a link are the union of the delivered ones inside the file, sorted and without overlap
  or adjacency, whatever order, duplication or bounds they arrive with; their total length, computed in 64-bit
  arithmetic, is the number of distinct bytes delivered.\<close>

theorem merged_ranges_are_the_union:
  assumes "int64_ok len"
  shows "all_bytes (mergeHTTPDeliveryRanges rs len) = all_bytes rs \<inter> {0 ..< len}
    \<and> separated (mergeHTTPDeliveryRanges rs len)
    \<and> delivered_bytes (mergeHTTPDeliveryRanges rs len) = int (card (all_bytes rs \<inter> {0 ..< len}))"
  using merge_union [OF assms, of rs] delivered_bytes_card [OF assms, of "mergeHTTPDeliveryRanges rs len"] by simp

theorem merged_ranges_are_the_union_witness:
  "delivered_bytes (mergeHTTPDeliveryRanges [\<lparr>dl_start = 4, dl_end = 99\<rparr>, \<lparr>dl_start = 0, dl_end = 3\<rparr>, \<lparr>dl_start = 2, dl_end = 5\<rparr>] 10)
     = int (card ((all_bytes [\<lparr>dl_start = 4, dl_end = 99\<rparr>, \<lparr>dl_start = 0, dl_end = 3\<rparr>, \<lparr>dl_start = 2, dl_end = 5\<rparr>]) \<inter> {0 ..< 10}))
   \<and> mergeHTTPDeliveryRanges [\<lparr>dl_start = 4, dl_end = 99\<rparr>, \<lparr>dl_start = 0, dl_end = 3\<rparr>, \<lparr>dl_start = 2, dl_end = 5\<rparr>] 10
     = [\<lparr>dl_start = 0, dl_end = 9\<rparr>]"
proof -
  have "mergeHTTPDeliveryRanges [\<lparr>dl_start = 4, dl_end = 99\<rparr>, \<lparr>dl_start = 0, dl_end = 3\<rparr>, \<lparr>dl_start = 2, dl_end = 5\<rparr>] 10
     = [\<lparr>dl_start = 0, dl_end = 9\<rparr>]" by code_simp
  moreover have "int64_ok 10" by code_simp
  ultimately show ?thesis using merged_ranges_are_the_union by blast
qed

section \<open>Delivery as a set of bytes\<close>

definition covered :: "httpDelivery \<Rightarrow> int set" where
  "covered d = (if is_zero (hd_completedAt d) then all_bytes (hd_ranges d) \<inter> {0 ..< hd_fileSize d} else {0 ..< hd_fileSize d})"

definition delivery_at :: "string \<Rightarrow> kv \<Rightarrow> httpDelivery option" where
  "delivery_at tid s =
     (case s (linkPrefix @ tid) of
        None \<Rightarrow> None
      | Some data \<Rightarrow> (case and_then (unmarshal_object data) stored_delivery of Inl e \<Rightarrow> None | Inr d \<Rightarrow> Some d))"

lemma range_json_roundtrip: "int64_ok (dl_start r) \<Longrightarrow> int64_ok (dl_end r) \<Longrightarrow> range_of_json (range_json r) = Inr r"
  by (simp add: range_of_json_def range_json_def unmarshal_object_def field_int64_def)

lemma ranges_json_roundtrip:
  "list_all (in_file len) rs \<Longrightarrow> int64_ok len \<Longrightarrow> ranges_of_json (map range_json rs) = Inr rs"
proof (induction rs)
  case (Cons r rs)
  then have "int64_ok (dl_start r)" "int64_ok (dl_end r)" by (auto simp: in_file_def int64_ok_def)
  with Cons show ?case by (simp add: range_json_roundtrip)
qed simp

lemma delivery_json_roundtrip:
  "int64_ok (hd_fileSize d) \<Longrightarrow> list_all (in_file (hd_fileSize d)) (hd_ranges d) \<Longrightarrow> delivery_of_json (delivery_json d) = Inr d"
  by (simp add: delivery_of_json_def delivery_json_def unmarshal_object_def field_int64_def field_time_def ranges_json_roundtrip)

lemma complete_iff:
  assumes "0 < len" "int64_ok len" "separated rs" "list_all (in_file len) rs"
  shows "(case rs of [r] \<Rightarrow> dl_start r = 0 \<and> dl_end r = wrap64 (len - 1) | _ \<Rightarrow> False) \<longleftrightarrow> all_bytes rs = {0 ..< len}"
proof -
  have w: "wrap64 (len - 1) = len - 1" using assms(1,2) by (intro wrap64_id) (auto simp: int64_ok_def)
  show ?thesis
  proof (cases rs rule: separated.cases)
    case 1
    with assms(1) show ?thesis by auto
  next
    case (2 r)
    then have "dl_start r \<le> dl_end r" using assms(3) by simp
    have "{dl_start r .. dl_end r} = {0 .. len - 1} \<longleftrightarrow> dl_start r = 0 \<and> dl_end r = len - 1"
      using \<open>dl_start r \<le> dl_end r\<close> by (auto simp: Icc_eq_Icc)
    moreover have "{0 ..< len} = {0 .. len - 1}" by auto
    ultimately show ?thesis using 2 w by simp
  next
    case (3 r r' rs')
    have r: "0 \<le> dl_end r + 1" "dl_end r + 1 < len" using 3 assms(3,4) by (auto simp: in_file_def)
    have "list_all (\<lambda>x. dl_end r + 1 < dl_start x) (r' # rs')" using separated_above assms(3) 3 by blast
    then have "dl_end r + 1 \<notin> all_bytes (r' # rs')" unfolding all_bytes_def list_all_iff by auto
    then have "dl_end r + 1 \<notin> all_bytes rs" using 3 by simp
    with r have "all_bytes rs \<noteq> {0 ..< len}" by (metis atLeastLessThan_iff)
    with 3 show ?thesis by simp
  qed
qed

lemma delivery_next_covers:
  assumes "0 \<le> len" "int64_ok len" "t \<noteq> 0"
  shows "case delivery_next len added t d0 of
      None \<Rightarrow> hd_fileSize d0 = len \<and> hd_completedAt d0 \<noteq> 0
    | Some (d, complete) \<Rightarrow> hd_fileSize d = len \<and> list_all (in_file len) (hd_ranges d)
        \<and> covered d = (if hd_fileSize d0 = len then covered d0 else {}) \<union> (all_bytes added \<inter> {0 ..< len})
        \<and> (complete \<longleftrightarrow> covered d = {0 ..< len}) \<and> (complete \<longleftrightarrow> hd_completedAt d \<noteq> 0)"
proof -
  define d1 where "d1 = (if hd_fileSize d0 \<noteq> len \<and> (hd_ranges d0 \<noteq> [] \<or> hd_completedAt d0 \<noteq> 0) then delivery_zero else d0)\<lparr>hd_fileSize := len\<rparr>"
  define rs where "rs = mergeHTTPDeliveryRanges (hd_ranges d1 @ added) len"
  define complete where "complete = (len = 0 \<or> (case rs of [r] \<Rightarrow> dl_start r = 0 \<and> dl_end r = wrap64 (len - 1) | _ \<Rightarrow> False))"
  have n: "delivery_next len added t d0 = (if hd_completedAt d1 \<noteq> 0 then None
      else Some (if complete then d1\<lparr>hd_completedAt := t, hd_ranges := []\<rparr> else d1\<lparr>hd_ranges := rs\<rparr>, complete))"
    unfolding delivery_next_def Let_def complete_def rs_def d1_def by simp
  have m: "all_bytes rs = (all_bytes (hd_ranges d1) \<union> all_bytes added) \<inter> {0 ..< len}" "separated rs" "list_all (in_file len) rs"
    using merge_union [OF assms(2), of "hd_ranges d1 @ added"] by (auto simp: rs_def)
  have old: "all_bytes (hd_ranges d1) \<inter> {0 ..< len} = (if hd_fileSize d0 = len then covered d0 else {})" if "hd_completedAt d1 = 0"
    using that by (auto simp: d1_def delivery_zero_def covered_def split: if_splits)
  have c: "complete \<longleftrightarrow> all_bytes rs = {0 ..< len}"
  proof (cases "len = 0")
    case True
    with m(1) show ?thesis by (simp add: complete_def)
  next
    case False
    with complete_iff [OF _ assms(2) m(2,3)] assms(1) show ?thesis by (simp add: complete_def)
  qed
  show ?thesis
  proof (cases "hd_completedAt d1 = 0")
    case False
    with n show ?thesis by (auto simp: d1_def delivery_zero_def split: if_splits)
  next
    case True
    have f: "hd_fileSize d1 = len" by (simp add: d1_def)
    define d where "d = (if complete then d1\<lparr>hd_completedAt := t, hd_ranges := []\<rparr> else d1\<lparr>hd_ranges := rs\<rparr>)"
    have "all_bytes rs \<inter> {0 ..< len} = all_bytes rs" using m(1) by blast
    then have "covered d = all_bytes rs" using c f True assms(3) by (auto simp: d_def covered_def)
    moreover have "all_bytes rs = (if hd_fileSize d0 = len then covered d0 else {}) \<union> (all_bytes added \<inter> {0 ..< len})"
      unfolding m(1) old [OF True, symmetric] by blast
    moreover have "hd_fileSize d = len" "list_all (in_file len) (hd_ranges d)" "complete \<longleftrightarrow> hd_completedAt d \<noteq> 0"
      using f m(3) True assms(3) by (simp_all add: d_def)
    moreover have "delivery_next len added t d0 = Some (d, complete)" using n True by (simp add: d_def)
    ultimately show ?thesis using c by (simp only: option.case prod.case)
  qed
qed

text \<open>C18: the delivery record of a link is the set of bytes that reached the client. A successful call for a file
  of the same size adds exactly the bytes of the reported ranges to the set; a new size starts it again. The link is
  completed exactly when the set is the whole file, it is then marked downloaded, and the status shown for
  it counts the distinct bytes. Every other key but the link index is left alone.\<close>

theorem http_delivery_tracks_bytes:
  assumes "store_recordHTTPDelivery ctx ctx' now tid len ranges t s = (Inr complete, s')" "int64_ok len" "now \<noteq> 0"
    "linkPrefix @ tid \<noteq> linkIndex"
  shows "\<exists>d d' data' raw' st. delivery_at tid s = Some d \<and> delivery_at tid s' = Some d' \<and> s' (linkPrefix @ tid) = Some data'
    \<and> covered d' = (if hd_fileSize d = len then covered d else {}) \<union> ((\<Union>r \<in> set ranges. {dr_start r .. dr_end r}) \<inter> {0 ..< len})
    \<and> hd_fileSize d' = len \<and> (hd_completedAt d' \<noteq> 0 \<longleftrightarrow> covered d' = {0 ..< len})
    \<and> unmarshal_object data' = Inr raw' \<and> (complete \<longrightarrow> map_of raw' ''downloaded'' = Some (JBool True))
    \<and> parseDownloadTaskHTTPStatus data' = Inr st \<and> hs_deliveredBytes st = int (card (covered d')) \<and> (hs_completed st \<longleftrightarrow> covered d' = {0 ..< len})
    \<and> (\<forall>k. k = linkPrefix @ tid \<or> k = linkIndex \<or> s' k = s k)"
proof -
  define t' where "t' = (if is_zero t then now else t)"
  have t': "t' \<noteq> 0" using assms(3) by (simp add: t'_def)
  have len: "0 \<le> len" and mut: "col_mutate links ctx ctx' tid (delivery_change len ranges t') s = (Inr complete, s')"
    using assms(1) by (auto simp: store_recordHTTPDelivery_def t'_def split: if_splits)
  have keys: "co_prefix links = linkPrefix" "co_indexKey links = linkIndex" by (simp_all add: hub_selectors hub_keys)
  define added where "added = map (\<lambda>r. \<lparr>dl_start = dr_start r, dl_end = dr_end r\<rparr>) ranges"
  have added: "all_bytes added = (\<Union>r \<in> set ranges. {dr_start r .. dr_end r})" by (auto simp: added_def all_bytes_def)
  from mut show ?thesis
  proof (rule lk.mutate_cases)
    fix ix data n stamp
    assume h: "s (co_prefix links @ tid) = Some data" "delivery_change len ranges t' data (stamp_of ix tid) = Inr (n, stamp, complete)"
      and s': "n = None \<and> s' = s(co_prefix links @ tid := None, co_indexKey links \<mapsto> index_json (AList.delete tid ix))
       \<or> (\<exists>b. n = Some b \<and> json_valid b \<and> s' = (if map_of ix tid = Some stamp then s(co_prefix links @ tid \<mapsto> b)
            else s(co_prefix links @ tid \<mapsto> b, co_indexKey links \<mapsto> index_json (AList.update tid stamp ix))))"
    obtain raw d where raw: "unmarshal_object data = Inr raw" "stored_delivery raw = Inr d"
      using h(2) by (auto simp: delivery_change_def split: sum.splits)
    obtain b where b: "n = Some b" using h(2) raw by (auto simp: delivery_change_def Let_def added_def split: option.splits)
    have data': "s' (linkPrefix @ tid) = Some b" and frame: "\<forall>k. k = linkPrefix @ tid \<or> k = linkIndex \<or> s' k = s k"
      using s' b assms(4) unfolding keys by (auto simp del: link_keys split: if_splits)
    note nx = delivery_next_covers [OF len assms(2) t', of d added]
    have dl: "distinct (keys raw)" using distinct_unmarshal [OF raw(1)] .
    have "\<exists>raw' d'. unmarshal_object b = Inr raw' \<and> stored_delivery raw' = Inr d' \<and> hd_fileSize d' = len
      \<and> covered d' = (if hd_fileSize d = len then covered d else {}) \<union> (all_bytes added \<inter> {0 ..< len})
      \<and> (hd_completedAt d' \<noteq> 0 \<longleftrightarrow> covered d' = {0 ..< len}) \<and> (complete \<longrightarrow> map_of raw' ''downloaded'' = Some (JBool True))"
    proof (cases "delivery_next len added t' d")
      case None
      with h(2) raw b have "b = data" "\<not> complete" by (auto simp: delivery_change_def added_def)
      with None nx raw show ?thesis by (auto simp: covered_def)
    next
      case (Some x)
      obtain d' c where x: "x = (d', c)" by fastforce
      define raw' where "raw' = AList.update ''http_delivery'' (delivery_json d') (if complete then AList.update ''downloaded'' (JBool True) raw else raw)"
      from Some x h(2) raw b have "c = complete" and br: "b = Doc (JObj raw')"
        by (auto simp: delivery_change_def added_def raw'_def Let_def split: if_splits)
      with Some x nx have d': "hd_fileSize d' = len" "list_all (in_file len) (hd_ranges d')"
        "covered d' = (if hd_fileSize d = len then covered d else {}) \<union> (all_bytes added \<inter> {0 ..< len})"
        "complete \<longleftrightarrow> covered d' = {0 ..< len}" "complete \<longleftrightarrow> hd_completedAt d' \<noteq> 0" by auto
      have "distinct (keys raw')" using dl by (auto simp: raw'_def)
      then have "unmarshal_object b = Inr raw'" by (simp add: br unmarshal_object_def)
      moreover have "stored_delivery raw' = Inr d'"
        using delivery_json_roundtrip [of d'] d'(1,2) assms(2) by (simp add: stored_delivery_def raw'_def alist_simps)
      moreover have "complete \<longrightarrow> map_of raw' ''downloaded'' = Some (JBool True)" by (simp add: raw'_def alist_simps)
      ultimately show ?thesis using d' by blast
    qed
    then obtain raw' d' where r: "unmarshal_object b = Inr raw'" "stored_delivery raw' = Inr d'" "hd_fileSize d' = len"
      "covered d' = (if hd_fileSize d = len then covered d else {}) \<union> (all_bytes added \<inter> {0 ..< len})"
      "hd_completedAt d' \<noteq> 0 \<longleftrightarrow> covered d' = {0 ..< len}" "complete \<longrightarrow> map_of raw' ''downloaded'' = Some (JBool True)" by blast
    obtain st where st: "parseDownloadTaskHTTPStatus b = Inr st" "hs_completed st \<longleftrightarrow> hd_completedAt d' \<noteq> 0"
      "hs_deliveredBytes st = (if hd_completedAt d' \<noteq> 0 then len else delivered_bytes (mergeHTTPDeliveryRanges (hd_ranges d') len))"
      using r(1-3) by (auto simp: parseDownloadTaskHTTPStatus_def)
    have "hs_deliveredBytes st = int (card (covered d'))"
      using st(3) r(3) len merge_union [OF assms(2), of "hd_ranges d'"] delivered_bytes_card [OF assms(2)] by (auto simp: covered_def)
    moreover have "delivery_at tid s = Some d" "delivery_at tid s' = Some d'"
      using h(1) raw data' r unfolding keys by (simp_all add: delivery_at_def)
    ultimately show ?thesis using r st data' frame added by blast
  qed
qed

definition sample_links :: kv where
  "sample_links = [linkPrefix @ ''a'' \<mapsto> Doc (JObj [(''id'', JStr ''a'')]), linkIndex \<mapsto> index_json [(''a'', 7)]]"

theorem http_delivery_tracks_bytes_witness:
  "\<exists>s' d'. store_recordHTTPDelivery None None 5 ''a'' 10 [\<lparr>dr_start = 0, dr_end = 9\<rparr>] 0 sample_links = (Inr True, s')
     \<and> delivery_at ''a'' s' = Some d' \<and> covered d' = {0 ..< 10} \<and> hd_completedAt d' \<noteq> 0"
proof -
  have "delivery_next 10 [\<lparr>dl_start = 0, dl_end = 9\<rparr>] 5 delivery_zero = Some (\<lparr>hd_fileSize = 10, hd_ranges = [], hd_completedAt = 5\<rparr>, True)"
    by code_simp
  then have ch: "\<exists>b. delivery_change 10 [\<lparr>dr_start = 0, dr_end = 9\<rparr>] 5 (Doc (JObj [(''id'', JStr ''a'')])) 7 = Inr (Some b, 7, True) \<and> json_valid b"
    by (simp add: delivery_change_def unmarshal_object_def object_map_def stored_delivery_def json_valid_def)
  have ix: "index_is links sample_links [(''a'', 7)]"
    using lk.index_is_saved [of "[(''a'', 7)]"] by (simp add: sample_links_def hub_selectors hub_keys)
  have data: "sample_links (co_prefix links @ ''a'') = Some (Doc (JObj [(''id'', JStr ''a'')]))"
    by (simp add: sample_links_def hub_selectors hub_keys)
  have stamp: "stamp_of [(''a'', 7)] ''a'' = 7" by (simp add: stamp_of_def)
  from ch obtain b where b: "delivery_change 10 [\<lparr>dr_start = 0, dr_end = 9\<rparr>] 5 (Doc (JObj [(''id'', JStr ''a'')])) (stamp_of [(''a'', 7)] ''a'')
      = Inr (Some b, 7, True)" "json_valid b" unfolding stamp by blast
  obtain s' where "col_mutate links None None ''a'' (delivery_change 10 [\<lparr>dr_start = 0, dr_end = 9\<rparr>] 5) sample_links = (Inr True, s')"
    using lk.mutate_runs [where fn = "delivery_change 10 [\<lparr>dr_start = 0, dr_end = 9\<rparr>] 5", OF ix data b] by blast
  then have rec: "store_recordHTTPDelivery None None 5 ''a'' 10 [\<lparr>dr_start = 0, dr_end = 9\<rparr>] 0 sample_links = (Inr True, s')"
    by (simp add: store_recordHTTPDelivery_def)
  have "linkPrefix @ ''a'' \<noteq> linkIndex" by (simp add: hub_keys)
  from http_delivery_tracks_bytes [OF rec _ _ this] obtain d' d where d': "delivery_at ''a'' s' = Some d'"
    "covered d' = (if hd_fileSize d = 10 then covered d else {}) \<union> {0 .. 9} \<inter> {0 ..< 10}" "hd_completedAt d' \<noteq> 0 \<longleftrightarrow> covered d' = {0 ..< 10}"
    by (auto simp: int64_ok_def)
  have "covered d' = {0 ..< 10}" unfolding d'(2) by (auto simp: covered_def)
  with rec d' show ?thesis by blast
qed

end
