(* ===== verification/Target_Path.thy ===== *)
theory Target_Path
  imports Prelude
begin

text \<open>
  Download target paths (\<open>rte/targetpath/path.go\<close>): splitting and joining of rendered names, the resolution of a
  name below a base directory, and the truncation of long file names. Both \<open>/\<close> and \<open>\\<close> separate components.
  \<open>filenamify\<close>, a third-party package, is a parameter. \<open>CleanTargetRoot\<close> on a Windows path and \<open>LocalRoot\<close> call
  \<open>filepath.Clean\<close> and the operating system and are left out.
\<close>

section \<open>Components\<close>

definition is_sep :: "char \<Rightarrow> bool" where
  "is_sep c \<longleftrightarrow> c = CHR ''/'' \<or> c = CHR 0x5C"

text \<open>\<open>strings.FieldsFunc\<close>.\<close>

fun split_by :: "(char \<Rightarrow> bool) \<Rightarrow> string \<Rightarrow> string list" where
  "split_by p [] = [[]]"
| "split_by p (x # xs) =
     (if p x then [] # split_by p xs
      else case split_by p xs of [] \<Rightarrow> [[x]] | w # ws \<Rightarrow> (x # w) # ws)"

definition fields_func :: "(char \<Rightarrow> bool) \<Rightarrow> string \<Rightarrow> string list" where
  "fields_func p s = filter (\<lambda>w. w \<noteq> []) (split_by p s)"

definition dotted :: "string \<Rightarrow> bool" where
  "dotted w \<longleftrightarrow> w = [] \<or> w = ''.'' \<or> w = ''..''"

definition splitPathParts :: "string \<Rightarrow> string list" where
  "splitPathParts v = filter (\<lambda>w. \<not> dotted w) (map trim_space (fields_func is_sep v))"

definition looksWindowsPath :: "string \<Rightarrow> bool" where
  "looksWindowsPath path =
     (if has_prefix path [CHR 0x5C, CHR 0x5C] then True
      else case path of
             drive # colon # sep # _ \<Rightarrow>
               (CHR ''A'' \<le> drive \<and> drive \<le> CHR ''Z'' \<or> CHR ''a'' \<le> drive \<and> drive \<le> CHR ''z'')
                 \<and> colon = CHR '':'' \<and> (sep = CHR ''/'' \<or> sep = CHR 0x5C)
           | _ \<Rightarrow> False)"

definition targetPathSeparator :: "string \<Rightarrow> string" where
  "targetPathSeparator base = (if looksWindowsPath base then [CHR 0x5C] else ''/'')"

definition joinTargetPath :: "string \<Rightarrow> string list \<Rightarrow> string" where
  "joinTargetPath base parts =
     (let sep = targetPathSeparator base;
          base1 = trim_right is_sep base;
          base2 = (if base1 = [] \<and> has_prefix base ''/'' then ''/'' else base1);
          clean = filter (\<lambda>w. \<not> dotted w) (map (trim is_sep) parts)
      in if base2 = ''/'' then (if clean = [] then ''/'' else ''/'' @ join ''/'' clean)
         else join sep ((if base2 \<noteq> [] then [base2] else []) @ clean))"

definition safePathSegment :: "(string \<Rightarrow> string + string) \<Rightarrow> string \<Rightarrow> string" where
  "safePathSegment filenamify value =
     (let v = trim_space value
      in if v = [] then []
         else case filenamify v of
                Inl e \<Rightarrow> ''invalid-filename''
              | Inr safe \<Rightarrow> if safe = [] then ''invalid-filename'' else safe)"

definition resolveTargetPath :: "(string \<Rightarrow> string + string) \<Rightarrow> string \<Rightarrow> string \<Rightarrow> string \<times> string \<times> string" where
  "resolveTargetPath filenamify baseDir renderedName =
     (let parts = splitPathParts renderedName
      in if parts = []
         then (let out = safePathSegment filenamify renderedName in (baseDir, out, joinTargetPath baseDir [out]))
         else (let out = last parts;
                   dir = (if 1 < length parts then joinTargetPath baseDir (butlast parts) else baseDir)
               in (dir, out, joinTargetPath dir [out])))"

definition pathCleanSlash :: "string \<Rightarrow> string" where
  "pathCleanSlash path =
     (let clean = join ''/'' (splitPathParts path)
      in if has_prefix path ''/'' then ''/'' @ clean else if clean = [] then ''.'' else clean)"

section \<open>Long names\<close>

definition splitRenderedNameLeaf :: "string \<Rightarrow> string \<times> string" where
  "splitRenderedNameLeaf rendered =
     (let leaf = rev (takeWhile (\<lambda>c. \<not> is_sep c) (rev rendered)) in (take (length rendered - length leaf) rendered, leaf))"

text \<open>
  A \<open>range\<close> loop over a string decodes UTF-8: the bytes of the next rune and \<open>utf8.RuneLen\<close> of it. A byte that
  starts no valid encoding is one byte long but decodes to U+FFFD, whose length is 3.
\<close>

abbreviation (input) byte_in :: "nat \<Rightarrow> nat \<Rightarrow> char \<Rightarrow> bool" where
  "byte_in lo hi c \<equiv> lo \<le> of_char c \<and> of_char c \<le> hi"

abbreviation (input) cont :: "char \<Rightarrow> bool" where
  "cont c \<equiv> byte_in 0x80 0xBF c"

definition decode_rune :: "string \<Rightarrow> nat \<times> nat" where
  "decode_rune s =
     (case s of
        [] \<Rightarrow> (0, 0)
      | a # r \<Rightarrow>
          if byte_in 0 0x7F a then (1, 1)
          else if byte_in 0xC2 0xDF a \<and> (case r of b # _ \<Rightarrow> cont b | _ \<Rightarrow> False) then (2, 2)
          else if byte_in 0xE0 0xEF a \<and> (case r of b # c # _ \<Rightarrow>
                  byte_in (if of_char a = (0xE0 :: nat) then 0xA0 else 0x80) (if of_char a = (0xED :: nat) then 0x9F else 0xBF) b \<and> cont c
                | _ \<Rightarrow> False) then (3, 3)
          else if byte_in 0xF0 0xF4 a \<and> (case r of b # c # d # _ \<Rightarrow>
                  byte_in (if of_char a = (0xF0 :: nat) then 0x90 else 0x80) (if of_char a = (0xF4 :: nat) then 0x8F else 0xBF) b \<and> cont c \<and> cont d
                | _ \<Rightarrow> False) then (4, 4)
          else (1, 3))"

lemma decode_rune_pos: "s \<noteq> [] \<Longrightarrow> 0 < fst (decode_rune s)"
  by (cases s) (auto simp: decode_rune_def)

function truncate_loop :: "nat \<Rightarrow> string \<Rightarrow> nat \<Rightarrow> nat" where
  "truncate_loop maxBytes s n =
     (if s = [] \<or> maxBytes < n + snd (decode_rune s) then n
      else truncate_loop maxBytes (drop (fst (decode_rune s)) s) (n + snd (decode_rune s)))"
  by pat_completeness auto
termination
  by (relation "measure (\<lambda>(m, s, n). length s)") (auto simp: decode_rune_pos)

definition truncateBytesKeepingRunes :: "string \<Rightarrow> nat \<Rightarrow> string" where
  "truncateBytesKeepingRunes s maxBytes = (if length s \<le> maxBytes then s else take (truncate_loop maxBytes s 0) s)"

text \<open>\<open>filepath.Ext\<close>: from the last dot of the last element.\<close>

definition file_ext :: "string \<Rightarrow> string" where
  "file_ext name =
     (let leaf = rev (takeWhile (\<lambda>c. c \<noteq> CHR ''/'') (rev name));
          after = rev (takeWhile (\<lambda>c. c \<noteq> CHR ''.'') (rev leaf))
      in if CHR ''.'' \<in> set leaf then CHR ''.'' # after else [])"

definition limitFileNameSegmentBytes :: "string \<Rightarrow> int \<Rightarrow> string" where
  "limitFileNameSegmentBytes name maxBytes =
     (if maxBytes \<le> 0 then []
      else if int (length name) \<le> maxBytes then name
      else (let ext = file_ext name
            in if ext \<noteq> [] \<and> int (length ext) < maxBytes
               then truncateBytesKeepingRunes (take (length name - length ext) name) (nat maxBytes - length ext) @ ext
               else truncateBytesKeepingRunes name (nat maxBytes)))"

definition limitRenderedNameLeafBytes :: "string \<Rightarrow> int \<Rightarrow> string" where
  "limitRenderedNameLeafBytes rendered maxBytes =
     (case splitRenderedNameLeaf rendered of (pre, leaf) \<Rightarrow> pre @ limitFileNameSegmentBytes leaf maxBytes)"

section \<open>Components of joined paths\<close>

abbreviation components :: "string \<Rightarrow> string list" where
  "components \<equiv> fields_func is_sep"

lemma split_by_ne [simp]: "split_by p s \<noteq> []"
  by (induction s) (auto split: list.split)

lemma split_by_append_sep: "p c \<Longrightarrow> split_by p (a @ c # b) = split_by p a @ split_by p b"
  by (induction a) (auto split: list.split)

lemma fields_append_sep: "p c \<Longrightarrow> fields_func p (a @ c # b) = fields_func p a @ fields_func p b"
  by (simp add: fields_func_def split_by_append_sep)

lemma split_by_none: "\<forall>x \<in> set w. \<not> p x \<Longrightarrow> split_by p w = [w]"
  by (induction w) auto

lemma fields_none: "\<forall>x \<in> set w. \<not> p x \<Longrightarrow> fields_func p w = (if w = [] then [] else [w])"
  by (simp add: fields_func_def split_by_none)

lemma fields_Nil [simp]: "fields_func p [] = []"
  by (simp add: fields_func_def)

lemma fields_snoc_sep: "p c \<Longrightarrow> fields_func p (a @ [c]) = fields_func p a"
  using fields_append_sep [of p c a "[]"] by simp

lemma fields_trim_right: "fields_func p (trim_right p s) = fields_func p s"
proof (induction s rule: rev_induct)
  case (snoc x xs)
  then show ?case by (cases "p x") (simp_all add: trim_right_def fields_snoc_sep)
qed (simp add: trim_right_def)

lemma split_by_free: "\<forall>w \<in> set (split_by p s). \<forall>x \<in> set w. \<not> p x"
  by (induction s) (auto split: list.split)

lemma fields_sep_free: "w \<in> set (fields_func p s) \<Longrightarrow> w \<noteq> [] \<and> (\<forall>x \<in> set w. \<not> p x)"
  using split_by_free [of p s] by (auto simp: fields_func_def)

definition safe_component :: "string \<Rightarrow> bool" where
  "safe_component w \<longleftrightarrow> w \<noteq> [] \<and> w \<noteq> ''.'' \<and> w \<noteq> ''..'' \<and> (\<forall>x \<in> set w. \<not> is_sep x)"

lemma safe_component_iff: "safe_component w \<longleftrightarrow> \<not> dotted w \<and> (\<forall>x \<in> set w. \<not> is_sep x)"
  by (auto simp: safe_component_def dotted_def)

lemma split_parts_safe: "list_all safe_component (splitPathParts v)"
proof -
  have "safe_component (trim_space w)" if "w \<in> set (components v)" "\<not> dotted (trim_space w)" for w
    using fields_sep_free [OF that(1)] set_trim [of is_space w] that(2) by (auto simp: safe_component_iff)
  then show ?thesis by (auto simp: splitPathParts_def list_all_iff)
qed

lemma join_fields:
  assumes "is_sep c"
  shows "components (join [c] ws) = concat (map components ws)"
  by (induction "[c]" ws rule: join.induct) (simp_all add: fields_append_sep [where p = is_sep, OF assms])

lemma trim_sep_free: "\<forall>x \<in> set w. \<not> p x \<Longrightarrow> trim p w = w"
proof -
  have free: "dropWhile p v = v" if "\<forall>x \<in> set v. \<not> p x" for v using that by (cases v) auto
  assume "\<forall>x \<in> set w. \<not> p x"
  then show ?thesis by (simp add: trim_def trim_left_def trim_right_def free)
qed

lemma safe_concat: "list_all safe_component ws \<Longrightarrow> concat (map components ws) = ws"
  by (induction ws) (auto simp: safe_component_iff fields_none dotted_def)

lemma clean_safe: "list_all safe_component ws \<Longrightarrow> filter (\<lambda>w. \<not> dotted w) (map (trim is_sep) ws) = ws"
  by (induction ws) (auto simp: safe_component_iff trim_sep_free)

lemma slash_sep [simp]: "is_sep CHR ''/''" "is_sep CHR 0x5C"
  by (simp_all add: is_sep_def)

text \<open>Joining safe components to a base appends exactly them, and keeps a path absolute or relative.\<close>

lemma join_components:
  assumes "list_all safe_component ws"
  shows "components (joinTargetPath base ws) = components base @ ws"
proof -
  define b1 where "b1 = trim_right is_sep base"
  have b1: "components b1 = components base" by (simp add: b1_def fields_trim_right)
  obtain c where sep: "targetPathSeparator base = [c]" "is_sep c" by (cases "looksWindowsPath base") (auto simp: targetPathSeparator_def)
  have slash: "components (''/'' @ join ''/'' ws) = ws"
    using fields_append_sep [of is_sep "CHR ''/''" "[]"] join_fields [of "CHR ''/''" ws] safe_concat [OF assms] by simp
  have s1: "components ''/'' = []" using fields_append_sep [of is_sep "CHR ''/''" "[]" "[]"] by simp
  show ?thesis
    unfolding joinTargetPath_def Let_def clean_safe [OF assms] sep(1) b1_def [symmetric]
    using slash s1 join_fields [OF sep(2)] safe_concat [OF assms] b1 by (auto simp del: append.simps)
qed

lemma has_slash: "has_prefix s ''/'' \<longleftrightarrow> s \<noteq> [] \<and> hd s = CHR ''/''"
  by (cases s) auto

lemma hd_trim_right: "trim_right p s \<noteq> [] \<Longrightarrow> hd (trim_right p s) = hd s"
proof -
  have "\<exists>r. s = trim_right p s @ r" by (metis append_take_drop_id rev_append rev_rev_ident takeWhile_dropWhile_id trim_right_def)
  then show "trim_right p s \<noteq> [] \<Longrightarrow> ?thesis" by (metis hd_append2)
qed

lemma join_hd: "w \<noteq> [] \<Longrightarrow> join sep (w # ws) \<noteq> [] \<and> hd (join sep (w # ws)) = hd w"
  by (cases ws) auto

lemma join_absolute:
  assumes "list_all safe_component ws"
  shows "has_prefix (joinTargetPath base ws) ''/'' \<longleftrightarrow> has_prefix base ''/''"
proof -
  define b1 where "b1 = trim_right is_sep base"
  have ws: "ws = [] \<or> (\<exists>v vs. ws = v # vs \<and> v \<noteq> [] \<and> hd v \<noteq> CHR ''/'')"
    using assms by (cases ws) (auto simp: safe_component_iff dotted_def is_sep_def dest: bspec [OF _ hd_in_set])
  show ?thesis
  proof (cases "b1 = []")
    case True
    have "has_prefix (join sep ws) ''/'' \<longleftrightarrow> False" for sep
      using ws join_hd by (auto simp: has_slash simp del: prefix_Cons)
    with True show ?thesis unfolding joinTargetPath_def Let_def clean_safe [OF assms] b1_def [symmetric] by auto
  next
    case False
    then have hd: "hd b1 = hd base" "base \<noteq> []" using hd_trim_right by (auto simp: b1_def trim_right_def)
    have "has_prefix (join sep (b1 # ws)) ''/'' \<longleftrightarrow> hd b1 = CHR ''/''" for sep
      using join_hd [OF False] by (auto simp: has_slash simp del: prefix_Cons)
    with False hd show ?thesis unfolding joinTargetPath_def Let_def clean_safe [OF assms] b1_def [symmetric]
      by (auto simp: has_slash simp del: prefix_Cons)
  qed
qed

text \<open>C21: a rendered file name never leaves its base directory. The full path consists of the components of the base
  followed by safe ones: none is empty, \<open>.\<close> or \<open>..\<close>, and none contains a separator; it is absolute exactly
  when the base is. A name with usable components contributes exactly those, the last one as the file name and the
  others as directories below the base.\<close>

theorem resolved_path_stays_below_base:
  assumes "\<And>v w. filenamify v = Inr w \<Longrightarrow> \<not> list_ex is_sep w"
    and "resolveTargetPath filenamify base name = (dir, out, full)"
  shows "\<exists>ps. components full = components base @ ps \<and> list_all safe_component ps
    \<and> (has_prefix full ''/'' \<longleftrightarrow> has_prefix base ''/'')
    \<and> (splitPathParts name = [] \<or> ps = splitPathParts name \<and> out = last ps \<and> components dir = components base @ butlast ps)"
proof (cases "splitPathParts name = []")
  case True
  then have full: "full = joinTargetPath base [out]" and out: "out = safePathSegment filenamify name"
    using assms(2) by (auto simp: resolveTargetPath_def)
  have free: "\<forall>x \<in> set out. \<not> is_sep x"
    using assms(1) by (auto simp: out safePathSegment_def Let_def list_ex_iff is_sep_def split: sum.split)
  have trim: "trim is_sep out = out" using free by (rule trim_sep_free)
  show ?thesis
  proof (cases "dotted out")
    case True
    then have "joinTargetPath base [out] = joinTargetPath base []" by (simp add: joinTargetPath_def trim)
    with full join_components [of "[]" base] join_absolute [of "[]" base] \<open>splitPathParts name = []\<close> show ?thesis by auto
  next
    case False
    with free have "list_all safe_component [out]" by (simp add: safe_component_iff)
    with full join_components [of "[out]" base] join_absolute [of "[out]" base] \<open>splitPathParts name = []\<close> show ?thesis by blast
  qed
next
  case False
  define ps where "ps = splitPathParts name"
  have ps: "list_all safe_component ps" "ps \<noteq> []" "ps = butlast ps @ [last ps]" using split_parts_safe False by (auto simp: ps_def)
  then have safe: "list_all safe_component (butlast ps)" "list_all safe_component [last ps]"
    by (metis list_all_append)+
  have d: "out = last ps" "full = joinTargetPath dir [last ps]" "dir = (if 1 < length ps then joinTargetPath base (butlast ps) else base)"
    using assms(2) False unfolding resolveTargetPath_def Let_def ps_def by auto
  have "butlast ps = []" if "\<not> 1 < length ps" using that ps(2) by (cases ps) auto
  then have dir: "components dir = components base @ butlast ps" "has_prefix dir ''/'' \<longleftrightarrow> has_prefix base ''/''"
    using d(3) join_components [OF safe(1)] join_absolute [OF safe(1)] by auto
  have "components full = components base @ ps" using join_components [OF safe(2), of dir] dir(1) d(2) ps(3) by (metis append_assoc)
  moreover have "has_prefix full ''/'' \<longleftrightarrow> has_prefix base ''/''" using join_absolute [OF safe(2), of dir] dir(2) d(2) by simp
  ultimately show ?thesis using ps(1) d(1) dir(1) unfolding ps_def by blast
qed

theorem resolved_path_stays_below_base_witness:
  "resolveTargetPath (\<lambda>v. Inr (filter (\<lambda>c. \<not> is_sep c) v)) ''/data'' ''../../etc/ .. /passwd'' = (''/data/etc'', ''passwd'', ''/data/etc/passwd'')
    \<and> components ''/data/etc/passwd'' = [''data'', ''etc'', ''passwd'']"
proof -
  have r: "resolveTargetPath (\<lambda>v. Inr (filter (\<lambda>c. \<not> is_sep c) v)) ''/data'' ''../../etc/ .. /passwd'' = (''/data/etc'', ''passwd'', ''/data/etc/passwd'')"
    by code_simp
  have "splitPathParts ''../../etc/ .. /passwd'' = [''etc'', ''passwd'']" "components ''/data'' = [''data'']" by code_simp+
  with resolved_path_stays_below_base [OF _ r] r show ?thesis by (auto simp: list_ex_iff)
qed

section \<open>Length of a truncated name\<close>

lemma truncate_loop_le: "n \<le> maxBytes \<Longrightarrow> truncate_loop maxBytes s n \<le> maxBytes"
proof (induction maxBytes s n rule: truncate_loop.induct)
  case (1 maxBytes s n)
  then show ?case by (subst truncate_loop.simps) auto
qed

lemma truncate_length: "length (truncateBytesKeepingRunes s maxBytes) \<le> maxBytes"
  using truncate_loop_le [of 0 maxBytes s] by (auto simp: truncateBytesKeepingRunes_def simp del: truncate_loop.simps)

lemma limit_length: "0 \<le> maxBytes \<Longrightarrow> int (length (limitFileNameSegmentBytes name maxBytes)) \<le> maxBytes"
  using truncate_length [of "take (length name - length (file_ext name)) name" "nat maxBytes - length (file_ext name)"]
    truncate_length [of name "nat maxBytes"]
  unfolding limitFileNameSegmentBytes_def Let_def by (auto; linarith)

text \<open>On a valid encoding the loop counts the bytes it consumes, so the cut is between two runes; on an invalid one
  it counts three bytes for one, and may cut a rune.\<close>

lemma truncate_splits_rune:
  "truncateBytesKeepingRunes [CHR 0xFF, CHR ''a'', CHR ''b'', CHR 0xC3, CHR 0xA9] 4 = [CHR 0xFF, CHR ''a'', CHR ''b'', CHR 0xC3]"
  by code_simp

end
