(* ===== verification/Dependency_Order.thy ===== *)
theory Dependency_Order
  imports Prelude
begin

text \<open>
  The depth-first ordering of dependency graphs that the runtime uses twice: \<open>orderUnits\<close> of
  \<open>rte/reconciler.go\<close> for managed resources and the closure \<open>visit\<close> of \<open>Registry.Build\<close> in \<open>rte/rte.go\<close> for
  components. A graph lists the ids with what they require; both visit the ids in lexicographic order.
\<close>

section \<open>The search\<close>

type_synonym graph = "(string \<times> string list) list"

datatype order_error = Cycle string | Unknown string string

text \<open>
  \<open>visit\<close>: on success the map \<open>visiting\<close> is restored, so it holds the ids on the path from the root of the call;
  \<open>visited\<close> holds for the ids already appended to \<open>order\<close>. \<open>visits\<close> is the loop over the dependencies of \<open>i\<close>.
\<close>

function (sequential) visit :: "graph \<Rightarrow> string list \<Rightarrow> string \<Rightarrow> string list \<Rightarrow> order_error + string list"
  and visits :: "graph \<Rightarrow> string list \<Rightarrow> string \<Rightarrow> string list \<Rightarrow> string list \<Rightarrow> order_error + string list" where
  "visit g path i order =
     (if i \<in> set path then Inl (Cycle i)
      else if i \<in> set order then Inr order
      else case map_of g i of
             None \<Rightarrow> Inr (order @ [i])
           | Some ds \<Rightarrow>
               (case visits g (i # path) i ds order of Inl e \<Rightarrow> Inl e | Inr order1 \<Rightarrow> Inr (order1 @ [i])))"
| "visits g path i [] order = Inr order"
| "visits g path i (d # ds) order =
     (if map_of g d = None then Inl (Unknown i d)
      else case visit g path d order of Inl e \<Rightarrow> Inl e | Inr order1 \<Rightarrow> visits g path i ds order1)"
  by pat_completeness auto
termination
proof (relation "inv_image (less_than <*lex*> less_than) (\<lambda>x. case x of
      Inl (g, path, i, order) \<Rightarrow> (card (set (keys g) - set path), 0)
    | Inr (g, path, i, ds, order) \<Rightarrow> (card (set (keys g) - set path), Suc (length ds)))", goal_cases)
  case (2 g path i order ds)
  then have "i \<in> set (keys g) - set path" by (auto dest: map_of_key)
  then have "card (set (keys g) - set (i # path)) < card (set (keys g) - set path)"
    by (intro psubset_card_mono) auto
  then show ?case by simp
qed auto

declare visit.simps [simp del]

fun order_loop :: "graph \<Rightarrow> string list \<Rightarrow> string list \<Rightarrow> order_error + string list" where
  "order_loop g [] order = Inr order"
| "order_loop g (i # is) order = (case visit g [] i order of Inl e \<Rightarrow> Inl e | Inr order1 \<Rightarrow> order_loop g is order1)"

definition orderUnits :: "graph \<Rightarrow> order_error + string list" where
  "orderUnits g = order_loop g (sort (keys g)) []"

section \<open>Correctness\<close>

definition requires :: "graph \<Rightarrow> string \<Rightarrow> string list" where
  "requires g i = (case map_of g i of None \<Rightarrow> [] | Some ds \<Rightarrow> ds)"

definition depends :: "graph \<Rightarrow> (string \<times> string) set" where
  "depends g = {(i, d). d \<in> set (requires g i)}"

text \<open>Every id comes after everything it requires, and once.\<close>

definition topological :: "graph \<Rightarrow> string list \<Rightarrow> bool" where
  "topological g order \<longleftrightarrow> distinct order \<and> each_after (\<lambda>pre i. set (requires g i) \<subseteq> set pre) order"

lemma topological_Nil [simp]: "topological g []"
  by (simp add: topological_def)

lemma topological_snoc:
  "topological g (order @ [i]) \<longleftrightarrow> topological g order \<and> i \<notin> set order \<and> set (requires g i) \<subseteq> set order"
  by (auto simp: topological_def each_after_snoc)

lemma topological_split: "topological g (pre @ i # post) \<Longrightarrow> set (requires g i) \<subseteq> set pre \<and> i \<notin> set pre \<and> i \<notin> set post"
  by (auto simp: topological_def dest: each_after_split)

lemma topological_closed: "topological g order \<Longrightarrow> i \<in> set order \<Longrightarrow> set (requires g i) \<subseteq> set order"
  using topological_split [of g _ i] by (metis in_set_conv_decomp le_supI1 set_append)

lemma visit_ok:
  "visit g path i order = Inr order' \<Longrightarrow> topological g order \<Longrightarrow> set path \<inter> set order = {} \<Longrightarrow>
     topological g order' \<and> set path \<inter> set order' = {} \<and> set order' \<subseteq> insert i (set order \<union> set (keys g))
       \<and> insert i (set order) \<subseteq> set order' \<and> (\<exists>es. order' = order @ es)"
  "visits g path j ds order = Inr order' \<Longrightarrow> topological g order \<Longrightarrow> set path \<inter> set order = {} \<Longrightarrow>
     topological g order' \<and> set path \<inter> set order' = {} \<and> set order' \<subseteq> set order \<union> set (keys g)
       \<and> set ds \<union> set order \<subseteq> set order' \<and> set ds \<subseteq> set (keys g) \<and> (\<exists>es. order' = order @ es)"
proof (induction g path i order and g path j ds order arbitrary: order' and order' rule: visit_visits.induct)
  case (1 g path i order)
  show ?case
  proof (cases "i \<in> set path \<or> i \<in> set order")
    case True
    with "1.prems"(1,3) have "order' = order" "i \<in> set order" by (auto simp: visit.simps split: if_splits)
    with "1.prems"(2,3) show ?thesis by auto
  next
    case False
    show ?thesis
    proof (cases "map_of g i")
      case None
      with False "1.prems" show ?thesis by (auto simp: visit.simps topological_snoc requires_def)
    next
      case (Some ds)
      with False "1.prems"(1) obtain o1 where o1: "visits g (i # path) i ds order = Inr o1" "order' = o1 @ [i]"
        by (auto simp: visit.simps split: sum.splits)
      from "1.IH" [OF _ _ Some o1(1)] False "1.prems"(2,3) have IH: "topological g o1" "set (i # path) \<inter> set o1 = {}" "set o1 \<subseteq> set order \<union> set (keys g)"
        "set ds \<union> set order \<subseteq> set o1" "\<exists>es. o1 = order @ es" by auto
      have "i \<in> set (keys g)" using map_of_key [OF Some] by simp
      with IH o1(2) Some False show ?thesis by (auto simp: topological_snoc requires_def)
    qed
  qed
next
  case (3 g path j d ds order)
  then obtain o1 where o1: "map_of g d \<noteq> None" "visit g path d order = Inr o1" "visits g path j ds o1 = Inr order'"
    by (auto split: if_splits sum.splits)
  have d: "d \<in> set (keys g)" using o1(1) map_of_key [of g d] by force
  from "3.IH"(1) [OF o1(1,2)] "3.prems" have a: "topological g o1" "set path \<inter> set o1 = {}" "set o1 \<subseteq> insert d (set order \<union> set (keys g))"
    "insert d (set order) \<subseteq> set o1" "\<exists>es. o1 = order @ es" by auto
  from "3.IH"(2) [OF o1(1,2,3) a(1,2)] have b: "topological g order'" "set path \<inter> set order' = {}" "set order' \<subseteq> set o1 \<union> set (keys g)"
    "set ds \<union> set o1 \<subseteq> set order'" "set ds \<subseteq> set (keys g)" "\<exists>es. order' = o1 @ es" by blast+
  have "\<exists>es. order' = order @ es" using a(5) b(6) by (metis append.assoc)
  moreover have "set order' \<subseteq> set order \<union> set (keys g)" using a(3) b(3) d by blast
  moreover have "set (d # ds) \<union> set order \<subseteq> set order'" using a(4) b(4) by auto
  moreover have "set (d # ds) \<subseteq> set (keys g)" using b(5) d by simp
  ultimately show ?case using b(1,2) by blast
qed auto

lemma order_loop_ok:
  "order_loop g ids order = Inr order' \<Longrightarrow> topological g order \<Longrightarrow>
     topological g order' \<and> set order' \<subseteq> set ids \<union> set order \<union> set (keys g) \<and> set ids \<union> set order \<subseteq> set order'"
proof (induction ids arbitrary: order)
  case (Cons i ids)
  then obtain o1 where o1: "visit g [] i order = Inr o1" "order_loop g ids o1 = Inr order'" by (auto split: sum.splits)
  from visit_ok(1) [OF o1(1) Cons.prems(2)] have "topological g o1" "set o1 \<subseteq> insert i (set order \<union> set (keys g))" "insert i (set order) \<subseteq> set o1"
    by auto
  with Cons.IH [OF o1(2)] show ?case by auto
qed auto

text \<open>The path of the search is a chain of dependencies, so an id met again on it closes a cycle.\<close>

lemma visit_error:
  "visit g path i order = Inl e \<Longrightarrow> (\<forall>j \<in> set path. (j, i) \<in> (depends g)\<^sup>+) \<Longrightarrow>
     case e of Cycle j \<Rightarrow> (j, j) \<in> (depends g)\<^sup>+ | Unknown j d \<Rightarrow> d \<in> set (requires g j) \<and> d \<notin> set (keys g)"
  "visits g path j ds order = Inl e \<Longrightarrow> set ds \<subseteq> set (requires g j) \<Longrightarrow> (\<forall>k \<in> set path. k = j \<or> (k, j) \<in> (depends g)\<^sup>+) \<Longrightarrow>
     case e of Cycle j \<Rightarrow> (j, j) \<in> (depends g)\<^sup>+ | Unknown j d \<Rightarrow> d \<in> set (requires g j) \<and> d \<notin> set (keys g)"
proof (induction g path i order and g path j ds order rule: visit_visits.induct)
  case (1 g path i order)
  show ?case
  proof (cases "i \<in> set path")
    case True
    with "1.prems" show ?thesis by (auto simp: visit.simps)
  next
    case False
    with "1.prems"(1) obtain ds where ds: "i \<notin> set order" "map_of g i = Some ds" "visits g (i # path) i ds order = Inl e"
      by (auto simp: visit.simps split: if_splits option.splits sum.splits)
    have "set ds \<subseteq> set (requires g i)" using ds(2) by (simp add: requires_def)
    from "1.IH" [OF False ds(1,2,3) this] "1.prems"(2) show ?thesis by auto
  qed
next
  case (3 g path j d ds order)
  show ?case
  proof (cases "map_of g d")
    case None
    with "3.prems" have "e = Unknown j d" by simp
    with None "3.prems"(2) show ?thesis by (auto simp: map_of_eq_None_iff)
  next
    case (Some x)
    have dep: "(j, d) \<in> depends g" using "3.prems"(2) by (auto simp: depends_def)
    have path: "\<forall>k \<in> set path. (k, d) \<in> (depends g)\<^sup>+" using "3.prems"(3) dep by (auto intro: trancl_into_trancl)
    show ?thesis
    proof (cases "visit g path d order")
      case (Inl e')
      with "3.prems"(1) Some have "e' = e" by simp
      with Inl "3.IH"(1) Some path show ?thesis by simp
    next
      case (Inr o1)
      with Some "3.prems" "3.IH"(2) [OF _ Inr] show ?thesis by simp
    qed
  qed
qed simp

lemma order_loop_error:
  "order_loop g ids order = Inl e \<Longrightarrow>
     case e of Cycle j \<Rightarrow> (j, j) \<in> (depends g)\<^sup>+ | Unknown j d \<Rightarrow> d \<in> set (requires g j) \<and> d \<notin> set (keys g)"
  by (induction ids arbitrary: order) (auto split: sum.splits dest: visit_error(1))

text \<open>A topological order rules cycles out: the position of an id exceeds that of all it depends on.\<close>

lemma topological_acyclic_on:
  assumes "topological g order" "\<And>i. requires g i \<noteq> [] \<Longrightarrow> i \<in> set order"
  shows "acyclic (depends g)"
proof -
  have "\<exists>pre post. order = pre @ i # post \<and> d \<in> set pre" if "(i, d) \<in> depends g" for i d
  proof -
    have "requires g i \<noteq> []" using that by (auto simp: depends_def)
    then have "i \<in> set order" by (rule assms(2))
    then obtain pre post where o: "order = pre @ i # post" by (meson split_list)
    then have "set (requires g i) \<subseteq> set pre" using assms(1) topological_split by blast
    with o that show ?thesis unfolding depends_def by blast
  qed
  note before = this
  define rank where "rank i = length (takeWhile (\<lambda>x. x \<noteq> i) order)" for i
  have "rank d < rank i" if dep: "(i, d) \<in> depends g" for i d
  proof -
    obtain pre post where o: "order = pre @ i # post" "d \<in> set pre" using before [OF dep] by blast
    then have "i \<notin> set pre" using assms(1) by (auto simp: topological_def)
    then have "takeWhile (\<lambda>x. x \<noteq> i) order = pre" using o(1) by (auto simp: takeWhile_append)
    moreover obtain p q where "pre = p @ d # q" "d \<notin> set p" using o(2) split_list_first by metis
    then have "takeWhile (\<lambda>x. x \<noteq> d) order = p" using o(1) by (auto simp: takeWhile_append)
    ultimately show ?thesis using \<open>pre = p @ d # q\<close> by (simp add: rank_def)
  qed
  then have "depends g \<subseteq> (measure rank)\<inverse>" by auto
  moreover have "acyclic ((measure rank)\<inverse>)" by (simp add: acyclic_converse wf_acyclic)
  ultimately show ?thesis by (rule acyclic_subset [rotated])
qed

lemma topological_acyclic:
  assumes "topological g order" "set (keys g) \<subseteq> set order"
  shows "acyclic (depends g)"
proof (rule topological_acyclic_on [OF assms(1)])
  fix i assume "requires g i \<noteq> []"
  then have "i \<in> set (keys g)" using map_of_key [of g i] by (cases "map_of g i") (auto simp: requires_def)
  then show "i \<in> set order" using assms(2) by blast
qed

lemma orderUnits_ok:
  assumes "orderUnits g = Inr order"
  shows "topological g order \<and> set order = set (keys g)"
  using order_loop_ok [of g "sort (keys g)" "[]" order] assms by (auto simp: orderUnits_def)

text \<open>Dependency ordering is correct and complete. It succeeds exactly when every required id exists and nothing
  requires itself, directly or through others; the order then lists every id once and after everything it requires;
  otherwise the error names an id on a cycle, or an id with a dependency that does not exist.\<close>

theorem dependency_order_is_topological:
  "case orderUnits g of
     Inr order \<Rightarrow> set order = set (keys g) \<and> topological g order \<and> acyclic (depends g) \<and> (\<Union>i \<in> set (keys g). set (requires g i)) \<subseteq> set (keys g)
   | Inl (Cycle j) \<Rightarrow> (j, j) \<in> (depends g)\<^sup>+
   | Inl (Unknown j d) \<Rightarrow> d \<in> set (requires g j) \<and> d \<notin> set (keys g)"
proof (cases "orderUnits g")
  case (Inl e)
  with order_loop_error [of g "sort (keys g)" "[]" e] show ?thesis by (auto simp: orderUnits_def split: order_error.splits)
next
  case (Inr order)
  note ok = orderUnits_ok [OF Inr]
  then have "(\<Union>i \<in> set (keys g). set (requires g i)) \<subseteq> set (keys g)" using topological_closed by blast
  with ok topological_acyclic [of g order] Inr show ?thesis by auto
qed

end
