(* ===== verification/Reconciler.thy ===== *)
theory Reconciler
  imports Dependency_Order
begin

text \<open>
  \<open>Reconciler\<close> of \<open>rte/reconciler.go\<close>: the production lifecycle graph. One call compares the desired units with the
  instances it owns, stops what has to be replaced (consumers before providers) and starts what should
  run (providers before consumers). The functions of a unit are answered by the record \<open>world\<close>; every call of
  one is logged. A panic inside them is an error (\<open>invoke\<close>).
\<close>

section \<open>State\<close>

datatype lifecycle = Starting | Stopping | Running | Failed | Blocked | Stopped

text \<open>\<open>ManagedUnit\<close>: whether its functions are given, not what they do.\<close>

record managedUnit =
  mu_id :: string
  mu_requires :: "string list"
  mu_enabled :: bool
  mu_revision :: string
  mu_callable :: bool
  mu_running :: bool
  mu_update :: bool

record managedInstance =
  mi_unit :: managedUnit
  mi_revision :: string
  mi_active :: bool
  mi_pendingStop :: bool

text \<open>What the functions of the unit with an id return during one call, and the context's error when the unit is reached.\<close>

record world =
  wd_running :: "string \<Rightarrow> bool"
  wd_stop :: "string \<Rightarrow> err option"
  wd_update :: "string \<Rightarrow> err option"
  wd_start :: "string \<Rightarrow> err option"
  wd_cleanup :: "string \<Rightarrow> err option"
  wd_ctx :: "string \<Rightarrow> ctx"

datatype action = DoStop string | DoUpdate string | DoStart string | DoCleanup string

type_synonym units = "(string \<times> managedUnit) list"
type_synonym instances = "(string \<times> managedInstance) list"
type_synonym status = "string \<times> lifecycle \<times> string"

record recon =
  rc_instances :: instances
  rc_statuses :: "string \<rightharpoonup> lifecycle \<times> string"
  rc_snapshot :: "status list"
  rc_restart :: "string \<Rightarrow> bool"
  rc_failed :: "string \<Rightarrow> bool"
  rc_errors :: "err list"
  rc_log :: "action list"

section \<open>Validation\<close>

fun collect_units :: "managedUnit list \<Rightarrow> units \<Rightarrow> units res" where
  "collect_units [] us = Inr us"
| "collect_units (u # rest) us =
     (if mu_id u = [] \<or> \<not> mu_callable u then Inl (ErrMsg ''resource requires ID, start and stop'')
      else if map_of us (mu_id u) \<noteq> None then Inl (ErrMsg (''duplicate resource '' @ mu_id u))
      else collect_units rest (AList.update (mu_id u) u us))"

definition unit_graph :: "units \<Rightarrow> graph" where
  "unit_graph us = map (\<lambda>(i, u). (i, mu_requires u)) us"

definition with_removed :: "instances \<Rightarrow> units \<Rightarrow> units" where
  "with_removed ins us = us @ map (\<lambda>(i, m). (i, (mi_unit m)\<lparr>mu_enabled := False\<rparr>)) (filter (\<lambda>(i, m). map_of us i = None) ins)"

definition stop_units :: "instances \<Rightarrow> units \<Rightarrow> units" where
  "stop_units ins us =
     map (\<lambda>(i, u). (i, case map_of ins i of Some m \<Rightarrow> if mi_active m then mi_unit m else u | None \<Rightarrow> u)) us"

fun order_message :: "order_error \<Rightarrow> err" where
  "order_message (Cycle i) = ErrMsg (''resource dependency cycle at '' @ i)"
| "order_message (Unknown i d) = ErrMsg (i @ '': unknown resource dependency '' @ d)"

text \<open>The units, the order and the stop graph with its order; nothing has changed so far.\<close>

definition plan :: "managedUnit list \<Rightarrow> instances \<Rightarrow> (units \<times> string list \<times> units \<times> string list) res" where
  "plan desired ins =
     (case collect_units desired [] of
        Inl e \<Rightarrow> Inl e
      | Inr us0 \<Rightarrow>
          (case orderUnits (unit_graph us0) of
             Inl e \<Rightarrow> Inl (order_message e)
           | Inr _ \<Rightarrow>
               let us = with_removed ins us0
               in case orderUnits (unit_graph us) of
                    Inl e \<Rightarrow> Inl (order_message e)
                  | Inr order \<Rightarrow>
                      (case orderUnits (unit_graph (stop_units ins us)) of
                         Inl e \<Rightarrow> Inl (order_message e)
                       | Inr stop_order \<Rightarrow> Inr (us, order, stop_units ins us, stop_order))))"

section \<open>The three passes\<close>

definition publish_status :: "string list \<Rightarrow> string \<Rightarrow> lifecycle \<Rightarrow> string \<Rightarrow> recon \<Rightarrow> recon" where
  "publish_status order i st detail rc =
     (let sts = (rc_statuses rc)(i \<mapsto> (st, detail))
      in rc\<lparr>rc_statuses := sts, rc_snapshot := List.map_filter (\<lambda>k. map_option (\<lambda>x. (k, x)) (sts k)) order\<rparr>)"

definition observe :: "world \<Rightarrow> string \<Rightarrow> managedUnit \<Rightarrow> managedInstance \<Rightarrow> managedInstance" where
  "observe w i u m =
     (if \<not> mi_pendingStop m \<and> (if mi_active m then mu_running (mi_unit m) else mu_running u)
      then if mi_active m \<and> \<not> wd_running w i then m\<lparr>mi_pendingStop := True\<rparr> else m\<lparr>mi_active := wd_running w i\<rparr>
      else m)"

definition instance_of :: "units \<Rightarrow> instances \<Rightarrow> string \<Rightarrow> managedInstance" where
  "instance_of us ins i =
     (case map_of ins i of
        Some m \<Rightarrow> m
      | None \<Rightarrow> let u = the (map_of us i) in \<lparr>mi_unit = u, mi_revision = mu_revision u, mi_active = False, mi_pendingStop = False\<rparr>)"

fun prepare_loop :: "world \<Rightarrow> units \<Rightarrow> string list \<Rightarrow> string list \<Rightarrow> recon \<Rightarrow> recon" where
  "prepare_loop w us order [] rc = rc"
| "prepare_loop w us order (i # is) rc =
     (let u = the (map_of us i);
          m = observe w i u (instance_of us (rc_instances rc) i);
          again = (\<not> mu_enabled u \<or> mi_pendingStop m
                    \<or> mi_active m \<and> (mi_revision m \<noteq> mu_revision u \<or> mu_requires (mi_unit m) \<noteq> mu_requires u)
                    \<or> list_ex (rc_restart rc) (mu_requires u));
          rc1 = rc\<lparr>rc_instances := AList.update i m (rc_instances rc), rc_restart := (rc_restart rc)(i := again)\<rparr>
      in prepare_loop w us order is (publish_status order i (if mi_active m then Running else Stopped) [] rc1))"

fun restart_loop :: "units \<Rightarrow> string list \<Rightarrow> (string \<Rightarrow> bool) \<Rightarrow> string \<Rightarrow> bool" where
  "restart_loop sus [] r = r"
| "restart_loop sus (i # is) r = restart_loop sus is (r(i := r i \<or> list_ex r (mu_requires (the (map_of sus i)))))"

definition stop_one :: "(err \<Rightarrow> string) \<Rightarrow> world \<Rightarrow> units \<Rightarrow> string list \<Rightarrow> string \<Rightarrow> recon \<Rightarrow> recon" where
  "stop_one text w sus order i rc =
     (case map_of (rc_instances rc) i of
        None \<Rightarrow> rc
      | Some m \<Rightarrow>
          if \<not> mi_active m \<or> \<not> rc_restart rc i then rc
          else if list_ex (\<lambda>(c, u). i \<in> set (mu_requires u) \<and> rc_failed rc c) sus
          then publish_status order i Blocked ''dependent resource has not stopped'' (rc\<lparr>rc_failed := (rc_failed rc)(i := True)\<rparr>)
          else let rc1 = (publish_status order i Stopping [] rc)\<lparr>rc_log := rc_log rc @ [DoStop i]\<rparr>
               in case wd_stop w i of
                    Some e \<Rightarrow>
                      publish_status order i Stopping (text e)
                        (rc1\<lparr>rc_failed := (rc_failed rc1)(i := True),
                             rc_instances := AList.update i (m\<lparr>mi_pendingStop := True\<rparr>) (rc_instances rc1),
                             rc_errors := rc_errors rc1 @ [ErrWrap (''stop '' @ i) e]\<rparr>)
                  | None \<Rightarrow>
                      publish_status order i Stopped []
                        (rc1\<lparr>rc_instances := AList.update i (m\<lparr>mi_active := False, mi_pendingStop := False\<rparr>) (rc_instances rc1)\<rparr>))"

definition stop_loop :: "(err \<Rightarrow> string) \<Rightarrow> world \<Rightarrow> units \<Rightarrow> string list \<Rightarrow> string list \<Rightarrow> recon \<Rightarrow> recon" where
  "stop_loop text w sus order stop_order rc = fold (stop_one text w sus order) (rev stop_order) rc"

text \<open>Starting the unit of an inactive instance, with the cleanup after a failure.\<close>

definition start_unit :: "(err \<Rightarrow> string) \<Rightarrow> world \<Rightarrow> string list \<Rightarrow> string \<Rightarrow> managedUnit \<Rightarrow> managedInstance \<Rightarrow> recon \<Rightarrow> bool \<times> recon" where
  "start_unit text w order i u m rc =
     (let m1 = m\<lparr>mi_unit := u, mi_active := True, mi_pendingStop := True\<rparr>;
          rc1 = (publish_status order i Starting [] rc)\<lparr>rc_log := rc_log rc @ [DoStart i], rc_instances := AList.update i m1 (rc_instances rc)\<rparr>
      in case wd_start w i of
           None \<Rightarrow> (True, rc1\<lparr>rc_instances := AList.update i (m1\<lparr>mi_pendingStop := False\<rparr>) (rc_instances rc1)\<rparr>)
         | Some e \<Rightarrow>
             let rc2 = rc1\<lparr>rc_errors := rc_errors rc1 @ [ErrWrap (''start '' @ i) e], rc_log := rc_log rc1 @ [DoCleanup i]\<rparr>
             in (False,
                 case wd_cleanup w i of
                   Some e' \<Rightarrow>
                     publish_status order i Stopping (text (ErrJoin e e'))
                       (rc2\<lparr>rc_errors := rc_errors rc2 @ [ErrWrap (''cleanup '' @ i) e']\<rparr>)
                 | None \<Rightarrow>
                     publish_status order i Failed (text e)
                       (rc2\<lparr>rc_instances := AList.update i (m1\<lparr>mi_active := False, mi_pendingStop := False\<rparr>) (rc_instances rc2)\<rparr>)))"

definition start_one :: "(err \<Rightarrow> string) \<Rightarrow> world \<Rightarrow> units \<Rightarrow> string list \<Rightarrow> string \<Rightarrow> recon \<Rightarrow> recon" where
  "start_one text w us order i rc =
     (let u = the (map_of us i); m = the (map_of (rc_instances rc) i)
      in if rc_failed rc i then rc
         else if \<not> mu_enabled u
         then (publish_status order i Stopped ''disabled'' rc)\<lparr>rc_instances := AList.update i (m\<lparr>mi_unit := u\<rparr>) (rc_instances rc)\<rparr>
         else case find (\<lambda>d. map_option fst (rc_statuses rc d) \<noteq> Some Running) (mu_requires u) of
                Some d \<Rightarrow> publish_status order i Blocked (''requires '' @ d) rc
              | None \<Rightarrow>
                  (case wd_ctx w i of
                     Some e \<Rightarrow> publish_status order i Blocked (text e) (rc\<lparr>rc_errors := rc_errors rc @ [e]\<rparr>)
                   | None \<Rightarrow>
                       let rc1 = (if mu_update u then rc\<lparr>rc_log := rc_log rc @ [DoUpdate i]\<rparr> else rc)
                       in case (if mu_update u then wd_update w i else None) of
                            Some e \<Rightarrow> publish_status order i Failed (text e) (rc1\<lparr>rc_errors := rc_errors rc1 @ [e]\<rparr>)
                          | None \<Rightarrow>
                              (case (if mi_active m then (True, rc1) else start_unit text w order i u m rc1) of
                                 (False, rc2) \<Rightarrow> rc2
                               | (True, rc2) \<Rightarrow>
                                   publish_status order i Running []
                                     (rc2\<lparr>rc_instances := AList.update i ((the (map_of (rc_instances rc2) i))\<lparr>mi_unit := u, mi_revision := mu_revision u\<rparr>)
                                        (rc_instances rc2)\<rparr>))))"

definition start_loop :: "(err \<Rightarrow> string) \<Rightarrow> world \<Rightarrow> units \<Rightarrow> string list \<Rightarrow> recon \<Rightarrow> recon" where
  "start_loop text w us order rc = fold (start_one text w us order) order rc"

definition recon_start :: "instances \<Rightarrow> status list \<Rightarrow> recon" where
  "recon_start ins snapshot = \<lparr>rc_instances = ins, rc_statuses = Map.empty, rc_snapshot = snapshot, rc_restart = (\<lambda>_. False),
     rc_failed = (\<lambda>_. False), rc_errors = [], rc_log = []\<rparr>"

definition prepare :: "world \<Rightarrow> units \<Rightarrow> string list \<Rightarrow> units \<Rightarrow> string list \<Rightarrow> recon \<Rightarrow> recon" where
  "prepare w us order sus stop_order rc =
     (let rc1 = prepare_loop w us order order rc in rc1\<lparr>rc_restart := restart_loop sus stop_order (rc_restart rc1)\<rparr>)"

text \<open>\<open>Reconcile\<close>: an error that leaves everything as it was, or the state after the passes (\<open>rc_errors\<close> are the joined errors).\<close>

definition reconcile :: "(err \<Rightarrow> string) \<Rightarrow> ctx \<Rightarrow> world \<Rightarrow> managedUnit list \<Rightarrow> instances \<Rightarrow> status list \<Rightarrow> recon res" where
  "reconcile text ctx w desired ins snapshot =
     (case ctx of
        Some e \<Rightarrow> Inl e
      | None \<Rightarrow>
          (case plan desired ins of
             Inl e \<Rightarrow> Inl e
           | Inr (us, order, sus, stop_order) \<Rightarrow>
               Inr (start_loop text w us order (stop_loop text w sus order stop_order
                      (prepare w us order sus stop_order (recon_start ins snapshot))))))"

section \<open>Planning\<close>

lemma publish_status_simps [simp]:
  "rc_instances (publish_status order i st d rc) = rc_instances rc" "rc_restart (publish_status order i st d rc) = rc_restart rc"
  "rc_failed (publish_status order i st d rc) = rc_failed rc" "rc_errors (publish_status order i st d rc) = rc_errors rc"
  "rc_log (publish_status order i st d rc) = rc_log rc" "rc_statuses (publish_status order i st d rc) = (rc_statuses rc)(i \<mapsto> (st, d))"
  by (simp_all add: publish_status_def Let_def)

lemma keys_unit_graph [simp]: "keys (unit_graph us) = keys us"
  by (auto simp: unit_graph_def)

lemma keys_stop_units [simp]: "keys (stop_units ins us) = keys us"
  by (auto simp: stop_units_def)

lemma requires_unit_graph: "requires (unit_graph us) i = (case map_of us i of None \<Rightarrow> [] | Some u \<Rightarrow> mu_requires u)"
  by (induction us) (auto simp: unit_graph_def requires_def)

lemma map_of_stop_units:
  "map_of (stop_units ins us) i = map_option (\<lambda>u. case map_of ins i of Some m \<Rightarrow> if mi_active m then mi_unit m else u | None \<Rightarrow> u) (map_of us i)"
  by (induction us) (auto simp: stop_units_def split: option.split)

lemma collect_distinct: "collect_units ds us = Inr us' \<Longrightarrow> distinct (keys us) \<Longrightarrow> distinct (keys us')"
  by (induction ds us rule: collect_units.induct) (auto split: if_splits)

lemma with_removed_keys: "set (keys (with_removed ins us)) = set (keys us) \<union> set (keys ins)"
  by (auto simp: with_removed_def image_iff map_of_eq_None_iff) force+

lemma plan_facts:
  assumes "plan desired ins = Inr (us, order, sus, stop_order)"
  shows "topological (unit_graph us) order \<and> set order = set (keys us) \<and> sus = stop_units ins us
    \<and> topological (unit_graph sus) stop_order \<and> set stop_order = set (keys us) \<and> set (keys ins) \<subseteq> set (keys us)"
proof -
  from assms obtain us0 where u: "us = with_removed ins us0" "orderUnits (unit_graph us) = Inr order" "sus = stop_units ins us"
    "orderUnits (unit_graph sus) = Inr stop_order"
    by (auto simp: plan_def Let_def split: sum.splits)
  have k: "set (keys sus) = set (keys us)" "set (keys ins) \<subseteq> set (keys us)" using u(1,3) with_removed_keys [of ins us0] by (simp, blast)
  show ?thesis using orderUnits_ok [OF u(2)] orderUnits_ok [OF u(4)] u(3) k unfolding keys_unit_graph by metis
qed

section \<open>The first pass\<close>

lemma prepare_loop_frame:
  "rc_failed (prepare_loop w us order is rc) = rc_failed rc \<and> rc_log (prepare_loop w us order is rc) = rc_log rc
     \<and> rc_errors (prepare_loop w us order is rc) = rc_errors rc"
  by (induction w us order "is" rc rule: prepare_loop.induct) (auto simp: Let_def)

lemma prepare_loop_keys: "set (keys (rc_instances (prepare_loop w us order is rc))) = set (keys (rc_instances rc)) \<union> set is"
  by (induction w us order "is" rc rule: prepare_loop.induct) (auto simp: Let_def alist_simps)

lemma prepare_loop_other: "i \<notin> set is \<Longrightarrow> map_of (rc_instances (prepare_loop w us order is rc)) i = map_of (rc_instances rc) i"
  by (induction w us order "is" rc rule: prepare_loop.induct) (auto simp: Let_def alist_simps)

lemma prepare_loop_instance:
  "i \<in> set is \<Longrightarrow> distinct is \<Longrightarrow>
     map_of (rc_instances (prepare_loop w us order is rc)) i = Some (observe w i (the (map_of us i)) (instance_of us (rc_instances rc) i))"
proof (induction w us order "is" rc rule: prepare_loop.induct)
  case (2 w us order j js rc)
  then show ?case by (cases "i = j") (auto simp: Let_def alist_simps prepare_loop_other instance_of_def)
qed simp

lemma observe_active: "mi_active m \<Longrightarrow> mi_active (observe w i u m) \<and> mi_unit (observe w i u m) = mi_unit m"
  by (simp add: observe_def)

text \<open>An instance that was active is active after the first pass.\<close>

lemma prepare_active:
  assumes "map_of ins i = Some m" "mi_active m" "i \<in> set order" "distinct order"
  shows "\<exists>m'. map_of (rc_instances (prepare w us order sus so (recon_start ins snap))) i = Some m' \<and> mi_active m'"
proof -
  have "instance_of us ins i = m" using assms(1) by (simp add: instance_of_def)
  with prepare_loop_instance [OF assms(3,4), of w us order "recon_start ins snap"] observe_active [OF assms(2)]
  show ?thesis by (auto simp: prepare_def Let_def recon_start_def)
qed

lemma restart_loop_other: "i \<notin> set is \<Longrightarrow> restart_loop sus is r i = r i"
  by (induction sus "is" r rule: restart_loop.induct) auto

lemma restart_loop_append: "restart_loop sus (is @ js) r = restart_loop sus js (restart_loop sus is r)"
  by (induction "is" arbitrary: r) (simp_all del: fun_upd_apply)

text \<open>After the closure, a consumer of a unit to be stopped is to be stopped too.\<close>

lemma restart_closed:
  assumes "topological (unit_graph sus) so" "set so = set (keys sus)"
    "map_of sus c = Some u" "d \<in> set (mu_requires u)" "restart_loop sus so r d"
  shows "restart_loop sus so r c"
proof -
  have "c \<in> set so" using assms(2) map_of_key [OF assms(3)] by simp
  then obtain pre post where so: "so = pre @ c # post" by (meson split_list)
  then have t: "set (requires (unit_graph sus) c) \<subseteq> set pre" "c \<notin> set pre" "c \<notin> set post" using assms(1) topological_split by blast+
  then have d: "d \<in> set pre" using assms(3,4) by (auto simp: requires_unit_graph)
  have dist: "distinct so" using assms(1) by (simp add: topological_def)
  have eq: "restart_loop sus so r x = restart_loop sus pre r x" if "x \<in> set pre" for x
  proof -
    have "x \<notin> set (c # post)" using that dist unfolding so by auto
    then show ?thesis unfolding so restart_loop_append by (rule restart_loop_other)
  qed
  have "restart_loop sus so r c = (restart_loop sus pre r c \<or> list_ex (restart_loop sus pre r) (mu_requires u))"
    using t(3) assms(3) by (simp add: so restart_loop_append restart_loop_other)
  moreover have "restart_loop sus pre r d" using eq [OF d] assms(5) by simp
  ultimately show ?thesis using assms(4) by (auto simp: list_ex_iff)
qed

section \<open>The second pass\<close>

text \<open>
  \<open>A\<close> tells which units are active before the pass. A call of a unit's function is in order when
  \<^item> a stop comes after the successful stops of all active consumers,
  \<^item> an update or start is of a unit that is enabled, and all it requires runs: untouched since before the call or started by it,
  \<^item> a start is the first of the unit, after a successful stop when the unit was active,
  \<^item> a cleanup comes right after a start that failed.
\<close>

definition stopped_ok :: "world \<Rightarrow> action list \<Rightarrow> string \<Rightarrow> bool" where
  "stopped_ok w log i \<longleftrightarrow> DoStop i \<in> set log \<and> wd_stop w i = None"

definition is_up :: "world \<Rightarrow> (string \<Rightarrow> bool) \<Rightarrow> action list \<Rightarrow> string \<Rightarrow> bool" where
  "is_up w A log i \<longleftrightarrow> A i \<and> DoStop i \<notin> set log \<or> DoStart i \<in> set log \<and> wd_start w i = None"

definition may_run :: "world \<Rightarrow> (string \<Rightarrow> bool) \<Rightarrow> units \<Rightarrow> action list \<Rightarrow> string \<Rightarrow> bool" where
  "may_run w A us log i \<longleftrightarrow> (\<exists>u. map_of us i = Some u \<and> mu_enabled u \<and> list_all (is_up w A log) (mu_requires u))"

definition action_ok :: "world \<Rightarrow> (string \<Rightarrow> bool) \<Rightarrow> units \<Rightarrow> units \<Rightarrow> action list \<Rightarrow> action \<Rightarrow> bool" where
  "action_ok w A us sus pre x \<longleftrightarrow> (case x of
     DoStop d \<Rightarrow> \<forall>c u. map_of sus c = Some u \<and> d \<in> set (mu_requires u) \<and> A c \<longrightarrow> stopped_ok w pre c
   | DoUpdate i \<Rightarrow> may_run w A us pre i
   | DoStart i \<Rightarrow> may_run w A us pre i \<and> (A i \<longrightarrow> stopped_ok w pre i) \<and> DoStart i \<notin> set pre
   | DoCleanup i \<Rightarrow> pre \<noteq> [] \<and> last pre = DoStart i \<and> wd_start w i \<noteq> None)"

text \<open>
  Once the units of \<open>P\<close> were handled, an instance is active unless its stop succeeded; a unit to be stopped has been
  stopped or marked as failed.
\<close>

definition stop_inv :: "world \<Rightarrow> (string \<Rightarrow> bool) \<Rightarrow> units \<Rightarrow> units \<Rightarrow> string set \<Rightarrow> string set \<Rightarrow> recon \<Rightarrow> bool" where
  "stop_inv w A us sus U P rc \<longleftrightarrow>
     (\<forall>i \<in> U. \<exists>m. map_of (rc_instances rc) i = Some m \<and> (mi_active m \<longleftrightarrow> A i \<and> \<not> stopped_ok w (rc_log rc) i))
   \<and> (\<forall>i. DoStop i \<in> set (rc_log rc) \<longrightarrow> i \<in> P \<and> A i \<and> (wd_stop w i = None \<or> rc_failed rc i)) \<and> set (rc_log rc) \<subseteq> range DoStop
   \<and> (\<forall>i. rc_failed rc i \<longrightarrow> i \<in> P \<and> map_option fst (rc_statuses rc i) \<noteq> Some Running)
   \<and> (\<forall>i \<in> P. A i \<and> rc_restart rc i \<longrightarrow> rc_failed rc i \<or> stopped_ok w (rc_log rc) i)
   \<and> each_after (action_ok w A us sus) (rc_log rc)"

lemma stop_one_inv:
  assumes inv: "stop_inv w A us sus U P rc" and i: "i \<in> U" "i \<notin> P"
    and consumers: "\<And>c u. map_of sus c = Some u \<Longrightarrow> i \<in> set (mu_requires u) \<Longrightarrow> c \<in> P \<and> (rc_restart rc i \<longrightarrow> rc_restart rc c)"
  shows "stop_inv w A us sus U (insert i P) (stop_one text w sus order i rc) \<and> rc_restart (stop_one text w sus order i rc) = rc_restart rc"
proof -
  obtain m where m: "map_of (rc_instances rc) i = Some m" "mi_active m \<longleftrightarrow> A i \<and> \<not> stopped_ok w (rc_log rc) i"
    using inv i(1) unfolding stop_inv_def by blast
  have fresh: "DoStop i \<notin> set (rc_log rc)" "\<not> rc_failed rc i" using inv i(2) by (auto simp: stop_inv_def)
  then have act: "mi_active m \<longleftrightarrow> A i" using m(2) by (simp add: stopped_ok_def)
  let ?b = "list_ex (\<lambda>(c, u). i \<in> set (mu_requires u) \<and> rc_failed rc c) sus"
  note I = inv [unfolded stop_inv_def]
  from I have inst: "\<forall>j \<in> U. \<exists>m. map_of (rc_instances rc) j = Some m \<and> (mi_active m \<longleftrightarrow> A j \<and> \<not> stopped_ok w (rc_log rc) j)" by blast
  from I have logd: "\<forall>j. DoStop j \<in> set (rc_log rc) \<longrightarrow> j \<in> P \<and> A j \<and> (wd_stop w j = None \<or> rc_failed rc j)" by blast
  from I have failed: "\<forall>j. rc_failed rc j \<longrightarrow> j \<in> P \<and> map_option fst (rc_statuses rc j) \<noteq> Some Running" by blast
  from I have dn: "\<forall>j \<in> P. A j \<and> rc_restart rc j \<longrightarrow> rc_failed rc j \<or> stopped_ok w (rc_log rc) j" by blast
  from I have rest: "set (rc_log rc) \<subseteq> range DoStop" "each_after (action_ok w A us sus) (rc_log rc)" by blast+
  have safe: "action_ok w A us sus (rc_log rc) (DoStop i)" if "rc_restart rc i" "\<not> ?b"
    unfolding action_ok_def action.case
  proof (intro allI impI, elim conjE)
    fix c u assume c: "map_of sus c = Some u" "i \<in> set (mu_requires u)" "A c"
    have "c \<in> P" "rc_restart rc c" using consumers [OF c(1,2)] that(1) by blast+
    moreover have "\<not> rc_failed rc c" using that(2) c(2) map_of_SomeD [OF c(1)] by (auto simp: list_ex_iff)
    ultimately show "stopped_ok w (rc_log rc) c" using dn c(3) by blast
  qed
  have others: "stopped_ok w (rc_log rc @ [DoStop i]) j = stopped_ok w (rc_log rc) j" if "j \<noteq> i" for j
    using that by (simp add: stopped_ok_def)
  consider (skip) "\<not> A i \<or> \<not> rc_restart rc i" | (blocked) "A i" "rc_restart rc i" ?b
    | (fails) e where "A i" "rc_restart rc i" "\<not> ?b" "wd_stop w i = Some e" | (stops) "A i" "rc_restart rc i" "\<not> ?b" "wd_stop w i = None"
    by (cases "wd_stop w i") auto
  then show ?thesis
  proof cases
    case skip
    then have st: "stop_one text w sus order i rc = rc" using m(1) act by (auto simp: stop_one_def)
    show ?thesis unfolding st stop_inv_def using inst logd failed dn rest skip by simp blast
  next
    case blocked
    then have st: "stop_one text w sus order i rc
        = publish_status order i Blocked ''dependent resource has not stopped'' (rc\<lparr>rc_failed := (rc_failed rc)(i := True)\<rparr>)"
      using m(1) act by (simp add: stop_one_def)
    show ?thesis unfolding st stop_inv_def using inst logd failed dn rest by simp
  next
    case fails
    then show ?thesis unfolding stop_inv_def
      using inst logd failed dn rest m(1) act fresh safe others
      by (simp add: stop_one_def Let_def alist_simps each_after_snoc stopped_ok_def)
  next
    case stops
    then show ?thesis unfolding stop_inv_def
      using inst logd failed dn rest m(1) act fresh safe others
      by (simp add: stop_one_def Let_def alist_simps each_after_snoc stopped_ok_def) blast
  qed
qed

text \<open>Reverse dependency order: when a unit is reached, its consumers have been.\<close>

lemma stop_fold_inv:
  "stop_inv w A us sus U P rc \<Longrightarrow> topological (unit_graph sus) so \<Longrightarrow> set so \<subseteq> U \<Longrightarrow> set so \<inter> P = {} \<Longrightarrow> set (keys sus) \<subseteq> set so \<union> P \<Longrightarrow>
     (\<And>c u d. map_of sus c = Some u \<Longrightarrow> d \<in> set (mu_requires u) \<Longrightarrow> rc_restart rc d \<Longrightarrow> rc_restart rc c) \<Longrightarrow>
     stop_inv w A us sus U (set so \<union> P) (fold (stop_one text w sus order) (rev so) rc)"
proof (induction so arbitrary: P rc rule: rev_induct)
  case (snoc i so)
  let ?rc = "stop_one text w sus order i rc"
  have i: "i \<in> U" "i \<notin> P" "i \<notin> set so" using snoc.prems(2,3,4) by (auto simp: topological_snoc)
  have "c \<in> P" if "map_of sus c = Some u" "i \<in> set (mu_requires u)" for c u
  proof (rule ccontr)
    assume "c \<notin> P"
    then have "c \<in> set (so @ [i])" using map_of_key [OF that(1)] snoc.prems(5) by auto
    then obtain pre post where sp: "so @ [i] = pre @ c # post" by (meson split_list)
    have "i \<in> set pre" using topological_split snoc.prems(2) that unfolding sp by (fastforce simp: requires_unit_graph)
    then show False using sp i(3) by (cases post rule: rev_cases) auto
  qed
  with stop_one_inv [OF snoc.prems(1) i(1,2)] snoc.prems(6)
  have step: "stop_inv w A us sus U (insert i P) ?rc" "rc_restart ?rc = rc_restart rc" by blast+
  have "stop_inv w A us sus U (set so \<union> insert i P) (fold (stop_one text w sus order) (rev so) ?rc)"
    by (rule snoc.IH [OF step(1)]) (use snoc.prems i(3) step(2) in \<open>auto simp: topological_snoc\<close>)
  then show ?case by simp
qed simp

section \<open>The third pass\<close>

definition start_inv :: "world \<Rightarrow> (string \<Rightarrow> bool) \<Rightarrow> units \<Rightarrow> units \<Rightarrow> string set \<Rightarrow> string set \<Rightarrow> recon \<Rightarrow> bool" where
  "start_inv w A us sus U P rc \<longleftrightarrow>
     (\<forall>i \<in> U - P. \<exists>m. map_of (rc_instances rc) i = Some m \<and> (mi_active m \<longleftrightarrow> A i \<and> \<not> stopped_ok w (rc_log rc) i))
   \<and> (\<forall>i. DoStop i \<in> set (rc_log rc) \<longrightarrow> wd_stop w i = None \<or> rc_failed rc i)
   \<and> (\<forall>i. DoStart i \<in> set (rc_log rc) \<longrightarrow> i \<in> P)
   \<and> (\<forall>i \<in> P. map_option fst (rc_statuses rc i) = Some Running \<longrightarrow> is_up w A (rc_log rc) i)
   \<and> (\<forall>i. rc_failed rc i \<longrightarrow> map_option fst (rc_statuses rc i) \<noteq> Some Running)
   \<and> each_after (action_ok w A us sus) (rc_log rc)"

lemma stop_inv_start: "stop_inv w A us sus U P rc \<Longrightarrow> start_inv w A us sus U {} rc"
  by (auto simp: stop_inv_def start_inv_def)

lemma is_up_mono: "is_up w A log i \<Longrightarrow> (\<And>i. DoStop i \<notin> set ext) \<Longrightarrow> is_up w A (log @ ext) i"
  by (auto simp: is_up_def)

lemma start_inv_step:
  assumes inv: "start_inv w A us sus U P rc"
    and log: "rc_log rc' = rc_log rc @ ext" "\<And>j. DoStop j \<notin> set ext" "\<And>j. DoStart j \<in> set ext \<Longrightarrow> j = i"
    and other: "\<And>j. j \<noteq> i \<Longrightarrow> map_of (rc_instances rc') j = map_of (rc_instances rc) j"
    and st: "rc_statuses rc' = (rc_statuses rc)(i \<mapsto> (st, d))" "st = Running \<Longrightarrow> is_up w A (rc_log rc') i"
    and failed: "rc_failed rc' = rc_failed rc" "\<not> rc_failed rc i"
    and ok: "each_after (action_ok w A us sus) (rc_log rc @ ext)"
  shows "start_inv w A us sus U (insert i P) rc'"
proof -
  have stop: "DoStop j \<in> set (rc_log rc') \<longleftrightarrow> DoStop j \<in> set (rc_log rc)" for j using log by simp
  have sk: "stopped_ok w (rc_log rc') j \<longleftrightarrow> stopped_ok w (rc_log rc) j" for j using stop by (simp add: stopped_ok_def)
  note I = inv [unfolded start_inv_def]
  have "\<forall>j \<in> insert i P. map_option fst (rc_statuses rc' j) = Some Running \<longrightarrow> is_up w A (rc_log rc') j"
    using I st log(1) is_up_mono [OF _ log(2)] by simp
  moreover have "\<forall>j. DoStart j \<in> set (rc_log rc') \<longrightarrow> j \<in> insert i P" using I log(1,3) by auto
  moreover have "\<forall>j \<in> U - insert i P. \<exists>m. map_of (rc_instances rc') j = Some m \<and> (mi_active m \<longleftrightarrow> A j \<and> \<not> stopped_ok w (rc_log rc') j)"
    using I other sk by auto
  moreover have "\<forall>j. rc_failed rc' j \<longrightarrow> map_option fst (rc_statuses rc' j) \<noteq> Some Running" using I failed st(1) by simp
  moreover have "\<forall>j. DoStop j \<in> set (rc_log rc') \<longrightarrow> wd_stop w j = None \<or> rc_failed rc' j" using I failed(1) stop by simp
  ultimately show ?thesis unfolding start_inv_def using ok log(1) by simp
qed

lemma start_inv_skip: "start_inv w A us sus U P rc \<Longrightarrow> rc_failed rc i \<Longrightarrow> start_inv w A us sus U (insert i P) rc"
  unfolding start_inv_def by auto

lemma start_one_inv:
  assumes inv: "start_inv w A us sus U P rc" and i: "i \<in> U" "i \<notin> P" "map_of us i = Some u" "set (mu_requires u) \<subseteq> P"
  shows "start_inv w A us sus U (insert i P) (start_one text w us order i rc)"
proof (cases "rc_failed rc i")
  case True
  with inv show ?thesis by (simp add: start_one_def start_inv_skip)
next
  case False
  note step = start_inv_step [OF inv _ _ _ _ _ _ _ False]
  obtain m where m: "map_of (rc_instances rc) i = Some m" "mi_active m \<longleftrightarrow> A i \<and> \<not> stopped_ok w (rc_log rc) i"
    using inv i(1,2) unfolding start_inv_def by blast
  have log: "each_after (action_ok w A us sus) (rc_log rc)" "DoStart i \<notin> set (rc_log rc)" using inv i(2) unfolding start_inv_def by blast+
  have keeps: "is_up w A (rc_log rc) i" if "mi_active m"
    using that m(2) inv False unfolding start_inv_def by (auto simp: is_up_def stopped_ok_def)
  define upd where "upd = (if mu_update u then [DoUpdate i] else [])"
  have may: "may_run w A us (rc_log rc @ upd) i" "may_run w A us (rc_log rc) i"
    if "mu_enabled u" "find (\<lambda>d. map_option fst (rc_statuses rc d) \<noteq> Some Running) (mu_requires u) = None"
  proof -
    have "is_up w A (rc_log rc) d" if "d \<in> set (mu_requires u)" for d
      using inv i(4) that \<open>find _ _ = None\<close> unfolding start_inv_def find_None_iff by blast
    then show "may_run w A us (rc_log rc @ upd) i" "may_run w A us (rc_log rc) i"
      using that(1) i(3) is_up_mono [of w A "rc_log rc" _ upd] by (auto simp: may_run_def list_all_iff upd_def)
  qed
  have ok: "each_after (action_ok w A us sus) (rc_log rc @ upd)"
      "A i \<and> \<not> stopped_ok w (rc_log rc) i \<or> each_after (action_ok w A us sus) ((rc_log rc @ upd) @ [DoStart i])"
    if "mu_enabled u" "find (\<lambda>d. map_option fst (rc_statuses rc d) \<noteq> Some Running) (mu_requires u) = None"
    using may [OF that] log each_after_snoc [of _ "rc_log rc @ upd" "DoStart i"]
    by (auto simp: upd_def each_after_snoc action_ok_def stopped_ok_def)
  have fin: "each_after (action_ok w A us sus) (xs @ [DoStart i, DoCleanup i])"
    if "each_after (action_ok w A us sus) (xs @ [DoStart i])" "wd_start w i \<noteq> None" for xs
    using each_after_snoc [of "action_ok w A us sus" "xs @ [DoStart i]" "DoCleanup i"] that by (simp add: action_ok_def)
  define found where "found = find (\<lambda>d. map_option fst (rc_statuses rc d) \<noteq> Some Running) (mu_requires u)"
  note ok' = ok [folded found_def]
  note one = start_one_def [of _ w us order i rc, unfolded Let_def i(3) m(1) option.sel, folded found_def] False m(1) Let_def
  consider (disabled) "\<not> mu_enabled u" | (blocked) d where "mu_enabled u" "found = Some d"
    | (canceled) e where "mu_enabled u" "found = None" "wd_ctx w i = Some e"
    | (update) e where "mu_enabled u" "found = None" "wd_ctx w i = None" "mu_update u" "wd_update w i = Some e"
    | (active) "mu_enabled u" "found = None" "wd_ctx w i = None" "mu_update u \<Longrightarrow> wd_update w i = None" "mi_active m"
    | (start) "mu_enabled u" "found = None" "wd_ctx w i = None" "mu_update u \<Longrightarrow> wd_update w i = None" "\<not> mi_active m" "wd_start w i = None"
    | (fails) e where "mu_enabled u" "found = None" "wd_ctx w i = None" "mu_update u \<Longrightarrow> wd_update w i = None" "\<not> mi_active m" "wd_start w i = Some e"
    by (cases "wd_ctx w i"; cases "wd_update w i"; cases "wd_start w i"; cases found) blast+
  then show ?thesis
  proof cases
    case disabled
    then show ?thesis by (intro step [where ext = "[]" and st = Stopped]) (use log in \<open>simp_all add: one alist_simps\<close>)
  next
    case blocked
    then show ?thesis by (intro step [where ext = "[]" and st = Blocked]) (use log in \<open>simp_all add: one\<close>)
  next
    case canceled
    then show ?thesis by (intro step [where ext = "[]" and st = Blocked]) (use log in \<open>simp_all add: one\<close>)
  next
    case update
    then show ?thesis by (intro step [where ext = upd and st = Failed]) (use ok'(1) in \<open>simp_all add: one upd_def\<close>)
  next
    case active
    then show ?thesis
      by (intro step [where ext = upd and st = Running]) (use ok'(1) keeps in \<open>auto simp: one upd_def alist_simps is_up_def\<close>)
  next
    case start
    then show ?thesis
      by (intro step [where ext = "upd @ [DoStart i]" and st = Running])
        (use ok'(2) m(2) in \<open>auto simp: one start_unit_def upd_def alist_simps is_up_def\<close>)
  next
    case fails
    have "each_after (action_ok w A us sus) ((rc_log rc @ upd) @ [DoStart i])" using ok' m(2) fails(1,2,5) by blast
    with fails(6) have "each_after (action_ok w A us sus) ((rc_log rc @ upd) @ [DoStart i, DoCleanup i])" by (intro fin) simp_all
    with fails show ?thesis
      by (cases "wd_cleanup w i"; intro step [where ext = "upd @ [DoStart i, DoCleanup i]"])
        (auto simp: one start_unit_def upd_def alist_simps intro!: refl)
  qed
qed

lemma start_fold_inv:
  "start_inv w A us sus U P rc \<Longrightarrow> each_after (\<lambda>pre i. set (requires (unit_graph us) i) \<subseteq> set pre \<union> P) ids \<Longrightarrow> distinct ids \<Longrightarrow>
     set ids \<inter> P = {} \<Longrightarrow> set ids \<subseteq> U \<Longrightarrow> set ids \<subseteq> set (keys us) \<Longrightarrow>
     start_inv w A us sus U (set ids \<union> P) (fold (start_one text w us order) ids rc)"
proof (induction ids rule: rev_induct)
  case (snoc i ids)
  then have inv: "start_inv w A us sus U (set ids \<union> P) (fold (start_one text w us order) ids rc)" by (simp add: each_after_snoc)
  obtain u where u: "map_of us i = Some u" using snoc.prems(6) by (cases "map_of us i") (auto simp: map_of_eq_None_iff)
  have "set (mu_requires u) \<subseteq> set ids \<union> P" using snoc.prems(2) u by (simp add: each_after_snoc requires_unit_graph)
  from start_one_inv [OF inv _ _ u this] snoc.prems show ?case by auto
qed simp

section \<open>The whole call\<close>

definition active_in :: "instances \<Rightarrow> string \<Rightarrow> bool" where
  "active_in ins i \<longleftrightarrow> (case map_of ins i of None \<Rightarrow> False | Some m \<Rightarrow> mi_active m)"

lemma prepare_facts:
  fixes w snap
  assumes "plan desired ins = Inr (us, order, sus, so)"
  defines "rc \<equiv> prepare w us order sus so (recon_start ins snap)"
  shows "stop_inv w (active_in (rc_instances rc)) us sus (set order) {} rc"
    "map_of sus c = Some u \<Longrightarrow> d \<in> set (mu_requires u) \<Longrightarrow> rc_restart rc d \<Longrightarrow> rc_restart rc c"
proof -
  note p = plan_facts [OF assms(1)]
  have dist: "distinct order" using p by (simp add: topological_def)
  have f: "rc_log rc = []" "rc_failed rc = (\<lambda>_. False)"
    using prepare_loop_frame [of w us order order "recon_start ins snap"] by (simp_all add: rc_def prepare_def Let_def recon_start_def)
  have "\<exists>m. map_of (rc_instances rc) i = Some m" if "i \<in> set order" for i
    using prepare_loop_instance [OF that dist] by (simp add: rc_def prepare_def Let_def)
  with f show "stop_inv w (active_in (rc_instances rc)) us sus (set order) {} rc"
    by (fastforce simp: stop_inv_def active_in_def stopped_ok_def)
  have "set so = set (keys sus)" using p by (metis keys_stop_units)
  then show "map_of sus c = Some u \<Longrightarrow> d \<in> set (mu_requires u) \<Longrightarrow> rc_restart rc d \<Longrightarrow> rc_restart rc c"
    using restart_closed [of sus so c u d] p unfolding rc_def prepare_def Let_def by auto
qed

lemma stopped_facts:
  fixes w snap
  assumes "plan desired ins = Inr (us, order, sus, so)"
  defines "rc \<equiv> prepare w us order sus so (recon_start ins snap)"
  shows "stop_inv w (active_in (rc_instances rc)) us sus (set order) (set order) (stop_loop text w sus order so rc)"
proof -
  note p = plan_facts [OF assms(1)]
  have k: "set (keys sus) \<subseteq> set so" using p by (metis keys_stop_units order_refl)
  have "stop_inv w (active_in (rc_instances rc)) us sus (set order) (set so \<union> {}) (fold (stop_one text w sus order) (rev so) rc)"
  proof (rule stop_fold_inv)
    show "stop_inv w (active_in (rc_instances rc)) us sus (set order) {} rc" unfolding rc_def by (rule prepare_facts(1) [OF assms(1)])
    show "rc_restart rc c" if "map_of sus c = Some u" "d \<in> set (mu_requires u)" "rc_restart rc d" for c u d
      using that unfolding rc_def by (rule prepare_facts(2) [OF assms(1)])
  next
    show "topological (unit_graph sus) so" "set so \<subseteq> set order" using p by blast+
  qed (use k in auto)
  then show ?thesis using p by (simp add: stop_loop_def)
qed

text \<open>The units that ran when the call came are active when the stops begin, except that a running observer may add more.\<close>

lemma reconcile_inv:
  fixes w snap
  assumes "plan desired ins = Inr (us, order, sus, so)"
  defines "rc \<equiv> prepare w us order sus so (recon_start ins snap)"
  shows "start_inv w (active_in (rc_instances rc)) us sus (set order) (set order) (start_loop text w us order (stop_loop text w sus order so rc))"
proof -
  note p = plan_facts [OF assms(1)]
  have e: "each_after (\<lambda>pre i. set (requires (unit_graph us) i) \<subseteq> set pre \<union> {}) order" "distinct order" using p by (simp_all add: topological_def)
  have "start_inv w (active_in (rc_instances rc)) us sus (set order) (set order \<union> {})
      (fold (start_one text w us order) order (stop_loop text w sus order so rc))"
    using stop_inv_start [OF stopped_facts [OF assms(1), of w snap, folded rc_def]] e p by (intro start_fold_inv) simp_all
  then show ?thesis by (simp add: start_loop_def)
qed


text \<open>C23: reconciliation calls the functions of the units in dependency order, whatever they return. A unit is stopped
  only after every active unit that required it has been stopped successfully; a unit is updated or started only when
  it is enabled and everything it requires is running, started by this call or left alone by it; it is started at most
  once and, when it was active, only after a successful stop. A unit reported as running at the end does run.\<close>

theorem reconcile_calls_in_dependency_order:
  assumes "reconcile text ctx w desired ins snapshot = Inr rc"
  shows "\<exists>us order sus so A. plan desired ins = Inr (us, order, sus, so)
    \<and> A = active_in (rc_instances (prepare w us order sus so (recon_start ins snapshot)))
    \<and> (\<forall>i. active_in ins i \<longrightarrow> A i)
    \<and> each_after (action_ok w A us sus) (rc_log rc)
    \<and> (\<forall>i \<in> set order. map_option fst (rc_statuses rc i) = Some Running \<longrightarrow> is_up w A (rc_log rc) i)"
proof -
  from assms obtain us order sus so where p: "plan desired ins = Inr (us, order, sus, so)"
    and rc: "rc = start_loop text w us order (stop_loop text w sus order so (prepare w us order sus so (recon_start ins snapshot)))"
    by (auto simp: reconcile_def split: option.splits sum.splits)
  define A where "A = active_in (rc_instances (prepare w us order sus so (recon_start ins snapshot)))"
  have "A i" if "active_in ins i" for i
  proof -
    from that obtain m where m: "map_of ins i = Some m" "mi_active m" by (auto simp: active_in_def split: option.splits)
    have "i \<in> set order" "distinct order" using plan_facts [OF p] map_of_key [OF m(1)] by (auto simp: topological_def)
    from prepare_active [OF m this, of w us sus so snapshot] show ?thesis by (auto simp: A_def active_in_def)
  qed
  moreover have "start_inv w A us sus (set order) (set order) rc" unfolding A_def rc by (rule reconcile_inv [OF p])
  ultimately show ?thesis unfolding start_inv_def using p A_def
    by (intro exI [of _ us] exI [of _ order] exI [of _ sus] exI [of _ so] exI [of _ A]) simp
qed

text \<open>When a call is rejected.\<close>

definition valid_graph :: "graph \<Rightarrow> bool" where
  "valid_graph g \<longleftrightarrow> acyclic (depends g) \<and> depends g \<subseteq> UNIV \<times> set (keys g)"

lemma orderUnits_accepts: "(\<exists>order. orderUnits g = Inr order) \<longleftrightarrow> valid_graph g"
proof (cases "orderUnits g")
  case (Inl e)
  with order_loop_error [of g "sort (keys g)" "[]" e] have "\<not> valid_graph g"
    by (auto simp: orderUnits_def valid_graph_def acyclic_def depends_def split: order_error.splits)
  with Inl show ?thesis by simp
next
  case (Inr order)
  note ok = orderUnits_ok [OF Inr]
  have "d \<in> set (keys g)" if "d \<in> set (requires g i)" for i d
  proof -
    have "i \<in> set (keys g)" using that map_of_key [of g i] by (cases "map_of g i") (auto simp: requires_def)
    with ok topological_closed that show ?thesis by blast
  qed
  with ok topological_acyclic [of g order] have "valid_graph g" by (auto simp: valid_graph_def depends_def)
  with Inr show ?thesis by simp
qed

lemma update_absent: "map_of al k = None \<Longrightarrow> AList.update k v al = al @ [(k, v)]"
  by (induction al) (auto split: if_splits)

lemma collect_units_accepts:
  "collect_units ds us = Inr us' \<longleftrightarrow>
     list_all (\<lambda>u. mu_id u \<noteq> [] \<and> mu_callable u) ds \<and> distinct (map mu_id ds) \<and> list_all (\<lambda>u. map_of us (mu_id u) = None) ds
       \<and> us' = us @ map (\<lambda>u. (mu_id u, u)) ds"
proof (induction ds us rule: collect_units.induct)
  case (2 u rest us)
  show ?case
  proof (cases "mu_id u = [] \<or> \<not> mu_callable u \<or> map_of us (mu_id u) \<noteq> None")
    case True
    then show ?thesis by auto
  next
    case False
    then have "map_of (us @ [(mu_id u, u)]) k = None \<longleftrightarrow> map_of us k = None \<and> k \<noteq> mu_id u" for k
      by (auto simp: map_add_def split: option.splits)
    with False 2 show ?thesis by (simp add: update_absent list_all_iff) (auto simp: image_iff)
  qed
qed auto

text \<open>A call is carried out exactly when its context is live and the desired units are well-formed: each has an id and
  its functions, no id twice, and the three dependency graphs (the desired units, those with the removed ones, and the one the
  active instances were started with) are free of cycles and of unknown ids. Otherwise it returns an error and not
  one function of a unit is called.\<close>

theorem reconcile_rejects_invalid_graphs:
  "reconcile text ctx w desired ins snapshot \<in> range Inr \<longleftrightarrow>
     ctx = None \<and> list_all (\<lambda>u. mu_id u \<noteq> [] \<and> mu_callable u) desired \<and> distinct (map mu_id desired)
     \<and> valid_graph (map (\<lambda>u. (mu_id u, mu_requires u)) desired)
     \<and> valid_graph (unit_graph (with_removed ins (map (\<lambda>u. (mu_id u, u)) desired)))
     \<and> valid_graph (unit_graph (stop_units ins (with_removed ins (map (\<lambda>u. (mu_id u, u)) desired))))"
proof -
  let ?us = "map (\<lambda>u. (mu_id u, u)) desired" and ?good = "list_all (\<lambda>u. mu_id u \<noteq> [] \<and> mu_callable u) desired \<and> distinct (map mu_id desired)"
  have g: "unit_graph ?us = map (\<lambda>u. (mu_id u, mu_requires u)) desired" by (simp add: unit_graph_def comp_def)
  have c: "collect_units desired [] = Inr us' \<longleftrightarrow> ?good \<and> us' = ?us" for us' by (auto simp: collect_units_accepts list_all_iff)
  have r: "(case orderUnits h of Inl e \<Rightarrow> Inl (order_message e) | Inr x \<Rightarrow> F x) \<in> range Inr \<longleftrightarrow> valid_graph h \<and> F (projr (orderUnits h)) \<in> range Inr"
    for h and F :: "string list \<Rightarrow> 'z res" using orderUnits_accepts [of h] by (cases "orderUnits h") auto
  have "plan desired ins \<in> range Inr \<longleftrightarrow> ?good \<and> valid_graph (unit_graph ?us) \<and> valid_graph (unit_graph (with_removed ins ?us))
      \<and> valid_graph (unit_graph (stop_units ins (with_removed ins ?us)))"
  proof (cases "collect_units desired []")
    case (Inl e)
    with c have "\<not> ?good" by auto
    with Inl show ?thesis by (auto simp: plan_def)
  next
    case (Inr us')
    with c have "?good" "us' = ?us" by blast+
    with Inr show ?thesis by (simp add: plan_def Let_def r)
  qed
  moreover have "reconcile text ctx w desired ins snapshot \<in> range Inr \<longleftrightarrow> ctx = None \<and> plan desired ins \<in> range Inr"
    by (auto simp: reconcile_def split: option.splits sum.splits)
  ultimately show ?thesis unfolding g by blast
qed

definition demo_unit :: "string \<Rightarrow> string list \<Rightarrow> string \<Rightarrow> managedUnit" where
  "demo_unit i ds r = \<lparr>mu_id = i, mu_requires = ds, mu_enabled = True, mu_revision = r, mu_callable = True, mu_running = False, mu_update = False\<rparr>"

definition calm :: world where
  "calm = \<lparr>wd_running = (\<lambda>_. True), wd_stop = (\<lambda>_. None), wd_update = (\<lambda>_. None), wd_start = (\<lambda>_. None), wd_cleanup = (\<lambda>_. None), wd_ctx = (\<lambda>_. None)\<rparr>"

definition demo_instances :: instances where
  "demo_instances = map (\<lambda>u. (mu_id u, \<lparr>mi_unit = u, mi_revision = mu_revision u, mi_active = True, mi_pendingStop = False\<rparr>))
     [demo_unit ''db'' [] ''1'', demo_unit ''web'' [''db''] ''1'']"

lemma demo_log:
  "case reconcile (\<lambda>_. []) None calm [demo_unit ''web'' [''db''] ''1'', demo_unit ''db'' [] ''2''] demo_instances [] of
     Inr rc \<Rightarrow> rc_log rc = [DoStop ''web'', DoStop ''db'', DoStart ''db'', DoStart ''web''] | Inl _ \<Rightarrow> False"
  by code_simp

theorem reconcile_calls_in_dependency_order_witness:
  "\<exists>rc us sus A. reconcile (\<lambda>_. []) None calm [demo_unit ''web'' [''db''] ''1'', demo_unit ''db'' [] ''2''] demo_instances [] = Inr rc
     \<and> rc_log rc = [DoStop ''web'', DoStop ''db'', DoStart ''db'', DoStart ''web''] \<and> each_after (action_ok calm A us sus) (rc_log rc)"
proof -
  obtain rc where rc: "reconcile (\<lambda>_. []) None calm [demo_unit ''web'' [''db''] ''1'', demo_unit ''db'' [] ''2''] demo_instances [] = Inr rc"
    "rc_log rc = [DoStop ''web'', DoStop ''db'', DoStart ''db'', DoStart ''web'']"
    using demo_log by (auto split: sum.splits)
  with reconcile_calls_in_dependency_order [OF rc(1)] show ?thesis by metis
qed

section \<open>Convergence\<close>

text \<open>The units that should run: enabled, with everything they require.\<close>

inductive wanted :: "units \<Rightarrow> string \<Rightarrow> bool" for us where
  "map_of us i = Some u \<Longrightarrow> mu_enabled u \<Longrightarrow> (\<And>d. d \<in> set (mu_requires u) \<Longrightarrow> wanted us d) \<Longrightarrow> wanted us i"

inductive_simps wanted_iff: "wanted us i"

definition succeeds :: "world \<Rightarrow> bool" where
  "succeeds w \<longleftrightarrow> wd_stop w = (\<lambda>_. None) \<and> wd_update w = (\<lambda>_. None) \<and> wd_start w = (\<lambda>_. None) \<and> wd_ctx w = (\<lambda>_. None)"

lemma prepare_loop_append: "prepare_loop w us order (is @ js) rc = prepare_loop w us order js (prepare_loop w us order is rc)"
  by (induction w us order "is" rc rule: prepare_loop.induct) (simp_all add: Let_def)

text \<open>Whatever should not run is to be stopped.\<close>

lemma prepare_loop_unwanted:
  "each_after (\<lambda>pre i. set (requires (unit_graph us) i) \<subseteq> set pre) ids \<Longrightarrow> distinct ids \<Longrightarrow> set ids \<subseteq> set (keys us) \<Longrightarrow>
     i \<in> set ids \<Longrightarrow> \<not> wanted us i \<Longrightarrow> rc_restart (prepare_loop w us order ids rc) i"
proof (induction ids arbitrary: i rule: rev_induct)
  case (snoc j ids)
  obtain u where u: "map_of us j = Some u" using snoc.prems(3) by (cases "map_of us j") (auto simp: map_of_eq_None_iff)
  have IH: "rc_restart (prepare_loop w us order ids rc) k" if "k \<in> set ids" "\<not> wanted us k" for k
    using snoc.IH [OF _ _ _ that] snoc.prems by (simp add: each_after_snoc)
  show ?case
  proof (cases "i = j")
    case False
    with snoc.prems IH show ?thesis by (simp add: prepare_loop_append Let_def)
  next
    case True
    have sub: "set (mu_requires u) \<subseteq> set ids" using snoc.prems(1) u by (simp add: each_after_snoc requires_unit_graph)
    from snoc.prems(5) u True obtain "\<not> mu_enabled u \<or> (\<exists>d \<in> set (mu_requires u). \<not> wanted us d)" using wanted.intros [OF u] by blast
    then have "\<not> mu_enabled u \<or> list_ex (rc_restart (prepare_loop w us order ids rc)) (mu_requires u)" using IH sub by (auto simp: list_ex_iff)
    with True u show ?thesis by (auto simp: prepare_loop_append Let_def)
  qed
qed simp

lemma restart_loop_mono: "r i \<Longrightarrow> restart_loop sus is r i"
proof (induction "is" arbitrary: r)
  case (Cons j js)
  show ?case unfolding restart_loop.simps by (rule Cons.IH) (use Cons.prems in auto)
qed simp

lemma stop_one_clean:
  "succeeds w \<Longrightarrow> rc_failed rc = (\<lambda>_. False) \<Longrightarrow>
     rc_failed (stop_one text w sus order i rc) = (\<lambda>_. False) \<and> rc_errors (stop_one text w sus order i rc) = rc_errors rc
     \<and> rc_restart (stop_one text w sus order i rc) = rc_restart rc"
  by (auto simp: stop_one_def succeeds_def Let_def list_ex_iff split: option.split)

lemma stop_fold_clean:
  "succeeds w \<Longrightarrow> rc_failed rc = (\<lambda>_. False) \<Longrightarrow>
     rc_failed (fold (stop_one text w sus order) is rc) = (\<lambda>_. False) \<and> rc_errors (fold (stop_one text w sus order) is rc) = rc_errors rc
     \<and> rc_restart (fold (stop_one text w sus order) is rc) = rc_restart rc"
  by (induction "is" arbitrary: rc) (auto simp: stop_one_clean)

definition converged :: "units \<Rightarrow> string set \<Rightarrow> string set \<Rightarrow> recon \<Rightarrow> bool" where
  "converged us U P rc \<longleftrightarrow> rc_failed rc = (\<lambda>_. False) \<and> rc_errors rc = []
     \<and> (\<forall>i \<in> P. (map_option fst (rc_statuses rc i) = Some Running \<longleftrightarrow> wanted us i)
          \<and> (wanted us i \<longrightarrow> map_option mi_unit (map_of (rc_instances rc) i) = map_of us i
               \<and> map_option mi_revision (map_of (rc_instances rc) i) = map_option mu_revision (map_of us i)))
     \<and> (\<forall>i \<in> U. map_of (rc_instances rc) i \<noteq> None \<and> (active_in (rc_instances rc) i \<longrightarrow> wanted us i) \<and> (i \<in> P \<longrightarrow> wanted us i \<longrightarrow> active_in (rc_instances rc) i))"

lemma converged_step:
  assumes c: "converged us U P rc" and u: "map_of us i = Some u"
    and same: "rc_failed rc' = rc_failed rc" "rc_errors rc' = rc_errors rc" "rc_statuses rc' = (rc_statuses rc)(i \<mapsto> (st, d))"
      "\<And>j. j \<noteq> i \<Longrightarrow> map_of (rc_instances rc') j = map_of (rc_instances rc) j"
    and m: "map_of (rc_instances rc') i = Some m" "mi_active m \<longleftrightarrow> wanted us i" "st = Running \<longleftrightarrow> wanted us i"
      "wanted us i \<Longrightarrow> mi_unit m = u \<and> mi_revision m = mu_revision u"
  shows "converged us U (insert i P) rc'"
proof -
  note C = c [unfolded converged_def]
  have act: "active_in (rc_instances rc') j \<longleftrightarrow> (if j = i then wanted us i else active_in (rc_instances rc) j)" for j
    using m(1,2) same(4) by (simp add: active_in_def)
  have "\<forall>j \<in> insert i P. (map_option fst (rc_statuses rc' j) = Some Running \<longleftrightarrow> wanted us j)
          \<and> (wanted us j \<longrightarrow> map_option mi_unit (map_of (rc_instances rc') j) = map_of us j
               \<and> map_option mi_revision (map_of (rc_instances rc') j) = map_option mu_revision (map_of us j))" (is "\<forall>j \<in> _. ?ok j")
  proof
    fix j assume "j \<in> insert i P"
    then show "?ok j" using C same(3,4) m u by (cases "j = i") simp_all
  qed
  moreover have "map_of (rc_instances rc') j \<noteq> None" if "j \<in> U" for j using C same(4) m(1) that by (cases "j = i") simp_all
  ultimately show ?thesis unfolding converged_def using C same(1,2) act by simp
qed

lemma start_one_converges:
  assumes w: "succeeds w" and c: "converged us U P rc" and i: "i \<in> U" "i \<notin> P" "map_of us i = Some u" "set (mu_requires u) \<subseteq> P"
  shows "converged us U (insert i P) (start_one text w us order i rc)"
proof -
  obtain m where m: "map_of (rc_instances rc) i = Some m" using c i(1) unfolding converged_def by blast
  define found where "found = find (\<lambda>d. map_option fst (rc_statuses rc d) \<noteq> Some Running) (mu_requires u)"
  have f: "found = None \<longleftrightarrow> (\<forall>d \<in> set (mu_requires u). wanted us d)"
    using c i(4) unfolding found_def find_None_iff converged_def by blast
  have want: "wanted us i \<longleftrightarrow> mu_enabled u \<and> found = None" using i(3) f by (subst wanted_iff) auto
  have act: "mi_active m \<longrightarrow> wanted us i" using c i(1) m unfolding converged_def by (auto simp: active_in_def)
  have fl: "\<not> rc_failed rc i" using c by (simp add: converged_def)
  note one = start_one_def [of _ w us order i rc, unfolded Let_def i(3) m option.sel, folded found_def] Let_def m fl
  note step = converged_step [OF c i(3)]
  consider "\<not> mu_enabled u" | d where "mu_enabled u" "found = Some d" | "mu_enabled u" "found = None" by (cases found) auto
  then show ?thesis
  proof cases
    case 1
    with want act show ?thesis by (intro step [where st = Stopped and m = "m\<lparr>mi_unit := u\<rparr>"]) (simp_all add: one alist_simps)
  next
    case 2
    with want act show ?thesis by (intro step [where st = Blocked and m = m]) (simp_all add: one)
  next
    case 3
    with want w show ?thesis
      by (cases "mi_active m"; intro step [where st = Running and m = "m\<lparr>mi_unit := u, mi_revision := mu_revision u, mi_active := True,
          mi_pendingStop := mi_active m \<and> mi_pendingStop m\<rparr>"]) (simp_all add: one alist_simps succeeds_def start_unit_def)
  qed
qed

lemma start_fold_converges:
  "succeeds w \<Longrightarrow> converged us U {} rc \<Longrightarrow> each_after (\<lambda>pre i. set (requires (unit_graph us) i) \<subseteq> set pre) ids \<Longrightarrow> distinct ids \<Longrightarrow>
     set ids \<subseteq> U \<Longrightarrow> set ids \<subseteq> set (keys us) \<Longrightarrow> converged us U (set ids) (fold (start_one text w us order) ids rc)"
proof (induction ids rule: rev_induct)
  case (snoc i ids)
  then have c: "converged us U (set ids) (fold (start_one text w us order) ids rc)" by (simp add: each_after_snoc)
  obtain u where u: "map_of us i = Some u" using snoc.prems(6) by (cases "map_of us i") (auto simp: map_of_eq_None_iff)
  have "set (mu_requires u) \<subseteq> set ids" using snoc.prems(3) u by (simp add: each_after_snoc requires_unit_graph)
  from start_one_converges [OF snoc.prems(1) c _ _ u this] snoc.prems show ?case by simp
qed simp

lemma stopped_converged:
  assumes p: "plan desired ins = Inr (us, order, sus, so)" and w: "succeeds w"
  shows "converged us (set order) {} (stop_loop text w sus order so (prepare w us order sus so (recon_start ins snap)))"
proof -
  define rc where "rc = prepare w us order sus so (recon_start ins snap)"
  define rc' where "rc' = stop_loop text w sus order so rc"
  note pf = plan_facts [OF p]
  have f: "rc_failed rc = (\<lambda>_. False)" "rc_errors rc = []"
    using prepare_loop_frame [of w us order order "recon_start ins snap"] by (simp_all add: rc_def prepare_def Let_def recon_start_def)
  have clean: "rc_failed rc' = (\<lambda>_. False)" "rc_errors rc' = []" "rc_restart rc' = rc_restart rc"
    unfolding rc'_def stop_loop_def using stop_fold_clean [OF w f(1)] f(2) by simp_all
  have inv: "stop_inv w (active_in (rc_instances rc)) us sus (set order) (set order) rc'"
    unfolding rc'_def rc_def by (rule stopped_facts [OF p])
  have "map_of (rc_instances rc') i \<noteq> None \<and> (active_in (rc_instances rc') i \<longrightarrow> wanted us i)" if i: "i \<in> set order" for i
  proof -
    obtain m where m: "map_of (rc_instances rc') i = Some m" "mi_active m \<longleftrightarrow> active_in (rc_instances rc) i \<and> \<not> stopped_ok w (rc_log rc') i"
      using inv i unfolding stop_inv_def by blast
    have "rc_restart rc i" if "\<not> wanted us i"
      using prepare_loop_unwanted [OF _ _ _ i that] pf unfolding rc_def prepare_def Let_def by (simp add: topological_def restart_loop_mono)
    then have "wanted us i \<or> \<not> active_in (rc_instances rc) i \<or> stopped_ok w (rc_log rc') i"
      using inv i clean(1,3) unfolding stop_inv_def by auto
    with m show ?thesis by (auto simp: active_in_def)
  qed
  with clean show ?thesis unfolding converged_def rc'_def rc_def by blast
qed

text \<open>C27: when every function succeeds, one call reaches the desired state: no error is reported, exactly the units that are
  enabled with all they require, directly or through others, are active and reported as running, each with the desired
  unit and revision; all other instances, the removed ones included, are inactive.\<close>

theorem reconcile_converges:
  assumes "reconcile text ctx w desired ins snapshot = Inr rc" and "succeeds w"
  defines "us \<equiv> with_removed ins (map (\<lambda>u. (mu_id u, u)) desired)"
  shows "rc_errors rc = [] \<and> (\<forall>i \<in> set (keys us).
      (map_option fst (rc_statuses rc i) = Some Running \<longleftrightarrow> wanted us i) \<and> (active_in (rc_instances rc) i \<longleftrightarrow> wanted us i)
    \<and> (wanted us i \<longrightarrow> map_option mi_unit (map_of (rc_instances rc) i) = map_of us i
                     \<and> map_option mi_revision (map_of (rc_instances rc) i) = map_option mu_revision (map_of us i)))"
proof -
  from assms(1) obtain us' order sus so where p: "plan desired ins = Inr (us', order, sus, so)"
    and rc: "rc = start_loop text w us' order (stop_loop text w sus order so (prepare w us' order sus so (recon_start ins snapshot)))"
    by (auto simp: reconcile_def split: option.splits sum.splits)
  have us: "us' = us" using p unfolding us_def by (auto simp: plan_def Let_def collect_units_accepts split: sum.splits)
  note pf = plan_facts [OF p]
  have "converged us' (set order) (set order) rc" unfolding rc start_loop_def
    by (rule start_fold_converges [OF assms(2) stopped_converged [OF p assms(2)]]) (use pf in \<open>simp_all add: topological_def\<close>)
  moreover have "set order = set (keys us)" using pf us by blast
  ultimately show ?thesis unfolding us converged_def by blast
qed

theorem reconcile_converges_witness:
  "\<exists>rc. reconcile (\<lambda>_. []) None calm [demo_unit ''web'' [''db''] ''1'', demo_unit ''db'' [] ''2''] demo_instances [] = Inr rc
     \<and> map_option mi_revision (map_of (rc_instances rc) ''db'') = Some ''2'' \<and> active_in (rc_instances rc) ''web''"
proof -
  let ?us = "with_removed demo_instances (map (\<lambda>u. (mu_id u, u)) [demo_unit ''web'' [''db''] ''1'', demo_unit ''db'' [] ''2''])"
  obtain rc where rc: "reconcile (\<lambda>_. []) None calm [demo_unit ''web'' [''db''] ''1'', demo_unit ''db'' [] ''2''] demo_instances [] = Inr rc"
    using demo_log by (auto split: sum.splits)
  have ok: "succeeds calm" by (simp add: succeeds_def calm_def)
  have us: "?us = [(''web'', demo_unit ''web'' [''db''] ''1''), (''db'', demo_unit ''db'' [] ''2'')]"
    by (simp add: with_removed_def demo_instances_def demo_unit_def)
  have db: "wanted ?us ''db''" unfolding us by (rule wanted.intros [where u = "demo_unit ''db'' [] ''2''"]) (simp_all add: demo_unit_def)
  have web: "wanted ?us ''web''" unfolding us
    by (rule wanted.intros [where u = "demo_unit ''web'' [''db''] ''1''"]) (use db [unfolded us] in \<open>simp_all add: demo_unit_def\<close>)
  have "''db'' \<in> set (keys ?us)" "''web'' \<in> set (keys ?us)" unfolding us by simp_all
  with reconcile_converges [OF rc ok] db web
  have "map_option mi_revision (map_of (rc_instances rc) ''db'') = map_option mu_revision (map_of ?us ''db'')" "active_in (rc_instances rc) ''web''" by blast+
  with rc show ?thesis unfolding us by (auto simp: demo_unit_def)
qed

end
