(* ===== verification/Config_View.thy ===== *)
theory Config_View
  imports Prelude
begin

text \<open>
  \<open>rte/config/view.go\<close>: the schema-checked, immutable configuration of one component, and the schema of
  \<open>interfaces/manifest\<close>. A JSON document stands for its bytes: two documents are equal when \<open>bytes.Equal\<close>
  holds for what \<open>json.Marshal\<close> wrote. A value a caller passes is what \<open>json.Marshal\<close> makes of it, an error for values
  without JSON form. \<open>url.Parse\<close> is the parameter \<open>url\<close>: the scheme and the host name, when it succeeds.
\<close>

section \<open>Schema and values\<close>

datatype raw =
    RNull
  | RBool bool
  | RInt int
  | RFraction string
  | RStr string
  | RArr "raw list"
  | RObj "(string \<times> raw) list"

datatype fieldType = FString | FInt | FBool | FStrings | FObjects | FOther string

record configField =
  cf_name :: string
  cf_type :: fieldType
  cf_default :: "raw res"
  cf_min :: "int option"
  cf_max :: "int option"
  cf_choices :: "string list"
  cf_format :: string
  cf_secret :: bool

record view =
  v_values :: "(string \<times> raw) list"
  v_secrets :: "(string \<times> bool) list"

type_synonym url_parser = "string \<Rightarrow> (string \<times> string) option"

definition errUnmarshal :: err where
  "errUnmarshal = ErrMsg ''json: cannot unmarshal''"

section \<open>Validation\<close>

definition allowed_schemes :: "string \<Rightarrow> string list" where
  "allowed_schemes format = [''http'', ''https''] @ (if format = ''proxy'' then [''socks5'', ''socks5h''] else [])"

definition validate_format :: "url_parser \<Rightarrow> string \<Rightarrow> string \<Rightarrow> err option" where
  "validate_format url format v =
     (if format = [] then None
      else if format = ''nonempty'' then (if trim_space v = [] then Some (ErrMsg ''must not be empty'') else None)
      else if format = ''url'' \<or> format = ''proxy'' then
        (if v = [] then None
         else case url v of
                None \<Rightarrow> Some (ErrMsg (''invalid '' @ format))
              | Some (scheme, host) \<Rightarrow>
                  if host = [] \<or> list_ex (\<lambda>c. c \<in> {CHR 0x0D, CHR 0x0A, CHR 0x09, CHR '' ''}) v then Some (ErrMsg (''invalid '' @ format))
                  else if scheme \<notin> set (allowed_schemes format) then Some (ErrMsg (''unsupported '' @ format @ '' scheme''))
                  else None)
      else Some (ErrMsg ''unsupported string format''))"

fun is_object_or_null :: "raw \<Rightarrow> bool" where
  "is_object_or_null (RObj _) = True"
| "is_object_or_null RNull = True"
| "is_object_or_null _ = False"

fun is_string_or_null :: "raw \<Rightarrow> bool" where
  "is_string_or_null (RStr _) = True"
| "is_string_or_null RNull = True"
| "is_string_or_null _ = False"

definition in_range :: "configField \<Rightarrow> int \<Rightarrow> err option" where
  "in_range f v =
     (case cf_min f of
        Some lo \<Rightarrow> if v < lo then Some (ErrMsg (''must be >= '' @ fmt_int lo))
                   else (case cf_max f of Some hi \<Rightarrow> if v > hi then Some (ErrMsg (''must be <= '' @ fmt_int hi)) else None | None \<Rightarrow> None)
      | None \<Rightarrow> (case cf_max f of Some hi \<Rightarrow> if v > hi then Some (ErrMsg (''must be <= '' @ fmt_int hi)) else None | None \<Rightarrow> None))"

definition validate :: "url_parser \<Rightarrow> configField \<Rightarrow> raw \<Rightarrow> err option" where
  "validate url f raw =
     (if raw = RNull then Some (ErrMsg ''value is required'')
      else case cf_type f of
             FString \<Rightarrow>
               (case raw of
                  RStr v \<Rightarrow> if cf_choices f \<noteq> [] \<and> v \<notin> set (cf_choices f) then Some (ErrMsg (''must be one of '' @ join '', '' (cf_choices f)))
                            else validate_format url (cf_format f) v
                | _ \<Rightarrow> Some errUnmarshal)
           | FBool \<Rightarrow> (case raw of RBool _ \<Rightarrow> None | _ \<Rightarrow> Some errUnmarshal)
           | FObjects \<Rightarrow>
               (case raw of
                  RArr items \<Rightarrow> if \<not> list_all is_object_or_null items then Some errUnmarshal
                                else if RNull \<in> set items then Some (ErrMsg ''object is required'') else None
                | _ \<Rightarrow> Some errUnmarshal)
           | FStrings \<Rightarrow> (case raw of RArr items \<Rightarrow> if list_all is_string_or_null items then None else Some errUnmarshal | _ \<Rightarrow> Some errUnmarshal)
           | FInt \<Rightarrow> (case raw of RInt v \<Rightarrow> if int64_ok v then in_range f v else Some errUnmarshal | _ \<Rightarrow> Some errUnmarshal)
           | FOther t \<Rightarrow> Some (ErrMsg (''unsupported field type '' @ t)))"

section \<open>Building and reading a view\<close>

definition field_value :: "(string \<times> raw res) list \<Rightarrow> configField \<Rightarrow> raw res" where
  "field_value vals f = (case map_of vals (cf_name f) of Some v \<Rightarrow> v | None \<Rightarrow> cf_default f)"

fun new_loop :: "url_parser \<Rightarrow> (string \<times> raw res) list \<Rightarrow> configField list \<Rightarrow> view \<Rightarrow> view res" where
  "new_loop url vals [] v = Inr v"
| "new_loop url vals (f # fs) v =
     (if cf_name f = [] then Inl (ErrMsg ''empty config field name'')
      else if map_of (v_values v) (cf_name f) \<noteq> None then Inl (ErrMsg (''duplicate field '' @ cf_name f))
      else case field_value vals f of
             Inl e \<Rightarrow> Inl (ErrWrap (cf_name f) e)
           | Inr raw \<Rightarrow>
               (case validate url f raw of
                  Some e \<Rightarrow> Inl (ErrWrap (cf_name f) e)
                | None \<Rightarrow> new_loop url vals fs (v\<lparr>v_values := v_values v @ [(cf_name f, raw)], v_secrets := v_secrets v @ [(cf_name f, cf_secret f)]\<rparr>)))"

definition config_new :: "url_parser \<Rightarrow> configField list \<Rightarrow> (string \<times> raw res) list \<Rightarrow> view res" where
  "config_new url schema vals =
     (case new_loop url vals schema \<lparr>v_values = [], v_secrets = []\<rparr> of
        Inl e \<Rightarrow> Inl e
      | Inr v \<Rightarrow>
          (case find (\<lambda>n. map_of (v_values v) n = None) (keys vals) of
             Some n \<Rightarrow> Inl (ErrMsg (''undeclared config field '' @ n))
           | None \<Rightarrow> Inr v))"

definition view_Values :: "view \<Rightarrow> (string \<times> raw res) list" where
  "view_Values v = map (\<lambda>(n, raw). (n, Inr raw)) (v_values v)"

definition view_get :: "view \<Rightarrow> string \<Rightarrow> raw res" where
  "view_get v n = (case map_of (v_values v) n of None \<Rightarrow> Inl (ErrMsg (''config access denied: '' @ n)) | Some raw \<Rightarrow> Inr raw)"

definition view_Equal :: "view \<Rightarrow> view \<Rightarrow> bool" where
  "view_Equal v u \<longleftrightarrow> length (v_values v) = length (v_values u) \<and> list_all (\<lambda>(n, raw). map_of (v_values u) n = Some raw) (v_values v)"

definition view_EqualFields :: "view \<Rightarrow> view \<Rightarrow> string list \<Rightarrow> bool" where
  "view_EqualFields v u names \<longleftrightarrow> list_all (\<lambda>n. map_of (v_values v) n = map_of (v_values u) n) names"

section \<open>Correctness\<close>

text \<open>A value a field of the schema accepts, written without the order of the checks.\<close>

fun conforms :: "url_parser \<Rightarrow> configField \<Rightarrow> raw \<Rightarrow> bool" where
  "conforms url f (RStr v) \<longleftrightarrow> cf_type f = FString \<and> (cf_choices f = [] \<or> v \<in> set (cf_choices f)) \<and> validate_format url (cf_format f) v = None"
| "conforms url f (RBool b) \<longleftrightarrow> cf_type f = FBool"
| "conforms url f (RInt v) \<longleftrightarrow> cf_type f = FInt \<and> int64_ok v \<and> pred_option (\<lambda>lo. lo \<le> v) (cf_min f) \<and> pred_option (\<lambda>hi. v \<le> hi) (cf_max f)"
| "conforms url f (RArr items) \<longleftrightarrow> cf_type f = FStrings \<and> list_all is_string_or_null items
     \<or> cf_type f = FObjects \<and> list_all is_object_or_null items \<and> RNull \<notin> set items"
| "conforms url f RNull \<longleftrightarrow> False"
| "conforms url f (RFraction s) \<longleftrightarrow> False"
| "conforms url f (RObj fs) \<longleftrightarrow> False"

lemma in_range_None: "in_range f v = None \<longleftrightarrow> pred_option (\<lambda>lo. lo \<le> v) (cf_min f) \<and> pred_option (\<lambda>hi. v \<le> hi) (cf_max f)"
  by (auto simp: in_range_def split: option.split)

lemma validate_None: "validate url f raw = None \<longleftrightarrow> conforms url f raw"
  by (cases raw; cases "cf_type f") (auto simp: validate_def in_range_None)

definition view_of :: "(string \<times> raw res) list \<Rightarrow> configField list \<Rightarrow> view" where
  "view_of vals schema = \<lparr>v_values = map (\<lambda>f. (cf_name f, projr (field_value vals f))) schema, v_secrets = map (\<lambda>f. (cf_name f, cf_secret f)) schema\<rparr>"

lemma new_loop_ok:
  "new_loop url vals fs v = Inr v' \<longleftrightarrow>
     list_all (\<lambda>f. cf_name f \<noteq> [] \<and> cf_name f \<notin> set (keys (v_values v)) \<and> (\<exists>raw. field_value vals f = Inr raw \<and> conforms url f raw)) fs
     \<and> distinct (map cf_name fs)
     \<and> v' = v\<lparr>v_values := v_values v @ v_values (view_of vals fs), v_secrets := v_secrets v @ v_secrets (view_of vals fs)\<rparr>"
proof (induction url vals fs v rule: new_loop.induct)
  case (1 url vals v)
  then show ?case by (auto simp: view_of_def)
next
  case (2 url vals f fs v)
  show ?case
  proof (cases "cf_name f = [] \<or> map_of (v_values v) (cf_name f) \<noteq> None")
    case True
    then show ?thesis by (auto simp: map_of_eq_None_iff)
  next
    case fresh: False
    show ?thesis
    proof (cases "field_value vals f")
      case (Inl e)
      with fresh show ?thesis by simp
    next
      case (Inr raw)
      show ?thesis
      proof (cases "validate url f raw")
        case (Some e)
        then have "\<not> conforms url f raw" by (auto simp flip: validate_None)
        with fresh Inr Some show ?thesis by simp
      next
        case None
        then have ok: "conforms url f raw" by (simp add: validate_None)
        have new: "cf_name f \<notin> set (keys (v_values v))" "cf_name f \<noteq> []" using fresh by (auto simp: map_of_eq_None_iff)
        from "2.IH" [OF _ _ Inr None] fresh
        have IH: "new_loop url vals (f # fs) v = Inr v' \<longleftrightarrow>
          list_all (\<lambda>g. cf_name g \<noteq> [] \<and> cf_name g \<notin> insert (cf_name f) (set (keys (v_values v))) \<and> (\<exists>raw. field_value vals g = Inr raw \<and> conforms url g raw)) fs
          \<and> distinct (map cf_name fs)
          \<and> v' = v\<lparr>v_values := (v_values v @ [(cf_name f, raw)]) @ v_values (view_of vals fs), v_secrets := (v_secrets v @ [(cf_name f, cf_secret f)]) @ v_secrets (view_of vals fs)\<rparr>"
          using Inr None by simp
        show ?thesis unfolding IH using new ok Inr by (auto simp: list_all_iff view_of_def) (metis image_eqI)
      qed
    qed
  qed
qed

lemma config_new_iff:
  "config_new url schema vals = Inr v \<longleftrightarrow>
     distinct (map cf_name schema) \<and> [] \<notin> set (map cf_name schema) \<and> set (keys vals) \<subseteq> set (map cf_name schema)
     \<and> list_all (\<lambda>f. \<exists>raw. field_value vals f = Inr raw \<and> conforms url f raw) schema \<and> v = view_of vals schema"
proof -
  have keys: "map_of (v_values (view_of vals schema)) n = None \<longleftrightarrow> n \<notin> set (map cf_name schema)" for n
    by (auto simp: map_of_eq_None_iff view_of_def image_iff)
  have loop: "new_loop url vals schema \<lparr>v_values = [], v_secrets = []\<rparr> = Inr u \<longleftrightarrow>
      list_all (\<lambda>f. cf_name f \<noteq> [] \<and> (\<exists>raw. field_value vals f = Inr raw \<and> conforms url f raw)) schema \<and> distinct (map cf_name schema) \<and> u = view_of vals schema" for u
    by (auto simp: new_loop_ok view_of_def)
  have "config_new url schema vals = Inr v \<longleftrightarrow> new_loop url vals schema \<lparr>v_values = [], v_secrets = []\<rparr> = Inr v
      \<and> find (\<lambda>n. map_of (v_values v) n = None) (keys vals) = None"
    by (auto simp: config_new_def split: sum.splits option.splits)
  also have "\<dots> \<longleftrightarrow> list_all (\<lambda>f. cf_name f \<noteq> [] \<and> (\<exists>raw. field_value vals f = Inr raw \<and> conforms url f raw)) schema \<and> distinct (map cf_name schema)
      \<and> v = view_of vals schema \<and> set (keys vals) \<subseteq> set (map cf_name schema)"
    unfolding loop find_None_iff using keys by blast
  finally show ?thesis by (auto simp: list_all_iff image_iff)
qed

text \<open>What was built builds again to the same view; on views of one schema \<open>Equal\<close> is equality.\<close>

lemma view_of_Values:
  assumes "distinct (map cf_name schema)" "list_all (\<lambda>f. \<exists>raw. field_value vals f = Inr raw \<and> conforms url f raw) schema"
  shows "f \<in> set schema \<Longrightarrow> field_value (view_Values (view_of vals schema)) f = field_value vals f"
proof -
  assume f: "f \<in> set schema"
  with assms(2) obtain raw where r: "field_value vals f = Inr raw" by (auto simp: list_all_iff)
  have eq: "view_Values (view_of vals schema) = map (\<lambda>f. (cf_name f, Inr (projr (field_value vals f)))) schema"
    by (simp add: view_Values_def view_of_def)
  have "map_of (view_Values (view_of vals schema)) (cf_name f) = Some (Inr raw)" unfolding eq
    by (rule map_of_is_SomeI) (use assms(1) f r in \<open>force simp: comp_def\<close>)+
  then show ?thesis by (simp add: field_value_def [of "view_Values _"] r)
qed

lemma view_eqI:
  assumes "map (\<lambda>f. projr (field_value a f)) schema = map (\<lambda>f. projr (field_value b f)) schema"
  shows "view_of a schema = view_of b schema"
  using assms by (auto simp: view_of_def)

lemma view_Equal_iff:
  assumes "distinct (map cf_name schema)"
  shows "view_Equal (view_of a schema) (view_of b schema) \<longleftrightarrow> view_of a schema = view_of b schema"
proof
  assume e: "view_Equal (view_of a schema) (view_of b schema)"
  have m: "map_of (v_values (view_of b schema)) (cf_name f) = Some (projr (field_value b f))" if "f \<in> set schema" for f
    unfolding view_of_def view.simps by (rule map_of_is_SomeI) (use assms that in \<open>force simp: comp_def\<close>)+
  have "projr (field_value a f) = projr (field_value b f)" if "f \<in> set schema" for f
    using e m [OF that] that by (auto simp: view_Equal_def view_of_def [of a] list_all_iff)
  then show "view_of a schema = view_of b schema" by (intro view_eqI) simp
next
  assume e: "view_of a schema = view_of b schema"
  have "distinct (keys (v_values (view_of b schema)))" using assms by (simp add: view_of_def comp_def)
  then show "view_Equal (view_of a schema) (view_of b schema)" unfolding e view_Equal_def by (auto simp: list_all_iff)
qed

text \<open>C28: building a component's configuration succeeds exactly when the schema's field names are non-empty and distinct, every
  field has a value (the given one, otherwise the default) of the field's type within its choices, format and bounds, and no
  value is given for an undeclared field; the view then holds exactly these values, one for each field of the schema.\<close>

theorem config_view_is_well_typed:
  "config_new url schema vals = Inr v \<longleftrightarrow>
     distinct (map cf_name schema) \<and> [] \<notin> set (map cf_name schema) \<and> set (keys vals) \<subseteq> set (map cf_name schema)
     \<and> list_all (\<lambda>f. \<exists>raw. field_value vals f = Inr raw \<and> conforms url f raw) schema \<and> v = view_of vals schema"
  by (rule config_new_iff)

text \<open>The values a view hands out for persistence, secrets included, build the same view again under its schema; two views
  of one schema compare as equal exactly when they are the same.\<close>

theorem config_values_roundtrip:
  assumes "config_new url schema vals = Inr v"
  shows "config_new url schema (view_Values v) = Inr v
    \<and> (\<forall>vals' u. config_new url schema vals' = Inr u \<longrightarrow> (view_Equal v u \<longleftrightarrow> v = u))"
proof -
  from assms have ok: "distinct (map cf_name schema)" "[] \<notin> set (map cf_name schema)" "v = view_of vals schema"
    "list_all (\<lambda>f. \<exists>raw. field_value vals f = Inr raw \<and> conforms url f raw) schema" unfolding config_new_iff by blast+
  note same = view_of_Values [OF ok(1,4), folded ok(3)]
  have "set (keys (view_Values v)) = set (map cf_name schema)" unfolding ok(3) by (force simp: view_Values_def view_of_def)
  moreover have "list_all (\<lambda>f. \<exists>raw. field_value (view_Values v) f = Inr raw \<and> conforms url f raw) schema"
    using ok(4) same by (simp add: list_all_iff)
  moreover have "view_of (view_Values v) schema = v" unfolding ok(3) by (rule view_eqI) (use same ok(3) in simp)
  ultimately have "config_new url schema (view_Values v) = Inr v" unfolding config_new_iff using ok(1,2) by auto
  moreover have "view_Equal v u \<longleftrightarrow> v = u" if "config_new url schema vals' = Inr u" for vals' u
    using that view_Equal_iff [OF ok(1)] ok(3) unfolding config_new_iff by blast
  ultimately show ?thesis by blast
qed

definition demo_schema :: "configField list" where
  "demo_schema = [\<lparr>cf_name = ''port'', cf_type = FInt, cf_default = Inr (RInt 8080), cf_min = Some 1, cf_max = Some 65535, cf_choices = [], cf_format = [], cf_secret = False\<rparr>,
     \<lparr>cf_name = ''token'', cf_type = FString, cf_default = Inr (RStr []), cf_min = None, cf_max = None, cf_choices = [], cf_format = [], cf_secret = True\<rparr>]"

theorem config_values_roundtrip_witness:
  "\<exists>v. config_new (\<lambda>_. None) demo_schema [(''token'', Inr (RStr ''x''))] = Inr v \<and> config_new (\<lambda>_. None) demo_schema (view_Values v) = Inr v
     \<and> view_get v ''port'' = Inr (RInt 8080)"
proof -
  let ?v = "view_of [(''token'', Inr (RStr ''x''))] demo_schema"
  have v: "config_new (\<lambda>_. None) demo_schema [(''token'', Inr (RStr ''x''))] = Inr ?v" by code_simp
  have "view_get ?v ''port'' = Inr (RInt 8080)" by code_simp
  with v config_values_roundtrip [OF v] show ?thesis by blast
qed

end
