(* ===== verification/Component_Runtime.thy ===== *)
theory Component_Runtime
  imports Reconciler Config_View
begin

text \<open>
  The component runtime of \<open>rte/rte.go\<close>, \<open>rte/reconfigure.go\<close> and \<open>rte/reconcile_components.go\<close>: the registry of
  statically known components, the validation and ordering of their ports (\<open>Build\<close>), start, stop, reconfiguration and the
  change of enablement. What the component code, the event bus and the runnables answer is the record \<open>cworld\<close>;
  the calls of component code are logged.
\<close>

section \<open>Registry\<close>

record port =
  pt_name :: string
  pt_major :: int
  pt_minor :: int
  pt_type :: "string option"
  pt_interface :: bool

record req =
  rq_port :: port
  rq_optional :: bool

record page =
  pg_path :: string
  pg_title :: string

record registration =
  rg_provides :: "port list"
  rg_requires :: "req list"
  rg_config :: "configField list"
  rg_pages :: "page list"

type_synonym registry = "(string \<times> registration) list"

text \<open>\<open>url.ParseRequestURI\<close> is the parameter \<open>uri\<close>: the scheme and the host.\<close>

definition page_ok :: "url_parser \<Rightarrow> page \<Rightarrow> bool" where
  "page_ok uri p \<longleftrightarrow> (case uri (pg_path p) of None \<Rightarrow> False | Some (scheme, host) \<Rightarrow>
     has_prefix (pg_path p) ''/'' \<and> \<not> has_prefix (pg_path p) ''//'' \<and> CHR 0x5C \<notin> set (pg_path p) \<and> host = [] \<and> scheme = [] \<and> pg_title p \<noteq> [])"

fun pages_ok :: "url_parser \<Rightarrow> page list \<Rightarrow> string list \<Rightarrow> bool" where
  "pages_ok uri [] seen = True"
| "pages_ok uri (p # ps) seen = (page_ok uri p \<and> pg_path p \<notin> set seen \<and> pages_ok uri ps (pg_path p # seen))"

definition register :: "url_parser \<Rightarrow> string \<Rightarrow> bool \<Rightarrow> registration \<Rightarrow> registry \<Rightarrow> registry res" where
  "register uri i factory m r =
     (if i = [] \<or> \<not> factory then Inl (ErrMsg ''component ID and factory are required'')
      else if map_of r i \<noteq> None then Inl (ErrMsg (''duplicate component '' @ i))
      else case find (\<lambda>f. isl (cf_default f)) (rg_config m) of
             Some f \<Rightarrow> Inl (ErrWrap (i @ ''.'' @ cf_name f @ '' default'') (projl (cf_default f)))
           | None \<Rightarrow> if \<not> pages_ok uri (rg_pages m) [] then Inl (ErrMsg (i @ '': invalid or duplicate component page''))
                     else Inr (r @ [(i, m)]))"

section \<open>State\<close>

record inst =
  it_reg :: registration
  it_config :: view
  it_state :: lifecycle
  it_detail :: string
  it_initialized :: bool
  it_context :: bool
  it_canceled :: bool
  it_bindings :: "string list"

datatype call = CFactory string | CInit string | CStart string | CStop string | CPrepare string | CCommit string | CReconfigure string

record runtime =
  rt_account :: string
  rt_order :: "string list"
  rt_instances :: "(string \<times> inst) list"
  rt_providers :: "(string \<times> string) list"
  rt_ports :: "string list"
  rt_started :: bool
  rt_stopped :: bool
  rt_stopping :: bool
  rt_log :: "call list"

text \<open>
  The component code: \<open>New\<close> (which may panic or return nil), the \<open>Provide\<close> calls \<open>Init\<close> makes with whether the value
  implements the port, the results of \<open>Init\<close>, \<open>Start\<close> and \<open>Stop\<close>; the bus and the runnables: \<open>Close\<close>,
  \<open>WaitScope\<close> joined with the group's \<open>Stop\<close>, and \<open>Stop\<close> alone.
\<close>

record cworld =
  cw_new :: "string \<Rightarrow> err option"
  cw_provide :: "string \<Rightarrow> (string \<times> bool) list"
  cw_init :: "string \<Rightarrow> err option"
  cw_start :: "string \<Rightarrow> err option"
  cw_stop :: "string \<Rightarrow> err option"
  cw_close :: "err option"
  cw_drain :: "string \<Rightarrow> err option"
  cw_runnables :: "string \<Rightarrow> err option"

definition set_status :: "lifecycle \<Rightarrow> string \<Rightarrow> inst \<Rightarrow> inst" where
  "set_status st d m = m\<lparr>it_state := st, it_detail := d\<rparr>"

definition change :: "string \<Rightarrow> (inst \<Rightarrow> inst) \<Rightarrow> runtime \<Rightarrow> runtime" where
  "change i f rt = (case map_of (rt_instances rt) i of None \<Rightarrow> rt | Some m \<Rightarrow> rt\<lparr>rt_instances := AList.update i (f m) (rt_instances rt)\<rparr>)"

definition state_of :: "runtime \<Rightarrow> string \<Rightarrow> lifecycle option" where
  "state_of rt i = map_option it_state (map_of (rt_instances rt) i)"

section \<open>Build\<close>

definition validatePort :: "port \<Rightarrow> err option" where
  "validatePort p = (if pt_name p = [] \<or> pt_major p < 1 \<or> pt_minor p < 0 \<or> pt_type p = None \<or> \<not> pt_interface p
     then Some (ErrMsg (''invalid port declaration '' @ pt_name p)) else None)"

fun add_provided :: "string \<Rightarrow> port list \<Rightarrow> (string \<times> string \<times> port) list \<Rightarrow> (string \<times> string \<times> port) list res" where
  "add_provided i [] prov = Inr prov"
| "add_provided i (p # ps) prov =
     (case validatePort p of
        Some e \<Rightarrow> Inl (ErrWrap i e)
      | None \<Rightarrow>
          (case map_of prov (pt_name p) of
             Some (j, _) \<Rightarrow> Inl (ErrMsg (''port '' @ pt_name p @ '' provided by both '' @ j @ '' and '' @ i))
           | None \<Rightarrow> add_provided i ps (prov @ [(pt_name p, i, p)])))"

fun build_instances :: "url_parser \<Rightarrow> registry \<Rightarrow> (string \<times> (string \<times> raw res) list) list \<Rightarrow> string list
    \<Rightarrow> (string \<times> inst) list \<Rightarrow> (string \<times> string \<times> port) list \<Rightarrow> ((string \<times> inst) list \<times> (string \<times> string \<times> port) list) res" where
  "build_instances url r vals [] ins prov = Inr (ins, prov)"
| "build_instances url r vals (i # is) ins prov =
     (let m = the (map_of r i)
      in case config_new url (rg_config m) (case map_of vals i of Some v \<Rightarrow> v | None \<Rightarrow> []) of
           Inl e \<Rightarrow> Inl (ErrWrap i e)
         | Inr v \<Rightarrow>
             (case add_provided i (rg_provides m) prov of
                Inl e \<Rightarrow> Inl e
              | Inr prov1 \<Rightarrow>
                  build_instances url r vals is
                    (ins @ [(i, \<lparr>it_reg = m, it_config = v, it_state = Stopped, it_detail = [], it_initialized = False, it_context = False, it_canceled = False, it_bindings = []\<rparr>)])
                    prov1))"

definition compatible :: "port \<Rightarrow> port \<Rightarrow> bool" where
  "compatible p q \<longleftrightarrow> pt_type p = pt_type q \<and> pt_major p = pt_major q \<and> pt_minor q \<le> pt_minor p"

fun resolve_requires :: "(string \<times> string \<times> port) list \<Rightarrow> string \<Rightarrow> req list \<Rightarrow> string list \<Rightarrow> string list \<Rightarrow> string list res" where
  "resolve_requires prov i [] seen deps = Inr deps"
| "resolve_requires prov i (q # qs) seen deps =
     (let p = rq_port q
      in case validatePort p of
           Some e \<Rightarrow> Inl (ErrWrap i e)
         | None \<Rightarrow>
             if pt_name p \<in> set seen then Inl (ErrMsg (i @ '': duplicate required port '' @ pt_name p))
             else case map_of prov (pt_name p) of
                    None \<Rightarrow> if rq_optional q then resolve_requires prov i qs (pt_name p # seen) deps
                            else Inl (ErrMsg (i @ '' requires port '' @ pt_name p @ '': no enabled provider''))
                  | Some (j, p') \<Rightarrow>
                      if \<not> compatible p' p then Inl (ErrMsg (i @ '': incompatible port '' @ pt_name p @ '' from '' @ j))
                      else resolve_requires prov i qs (pt_name p # seen) (deps @ [j]))"

fun build_deps :: "registry \<Rightarrow> (string \<times> string \<times> port) list \<Rightarrow> string list \<Rightarrow> graph \<Rightarrow> graph res" where
  "build_deps r prov [] g = Inr g"
| "build_deps r prov (i # is) g =
     (case resolve_requires prov i (rg_requires (the (map_of r i))) [] [] of
        Inl e \<Rightarrow> Inl e
      | Inr ds \<Rightarrow> build_deps r prov is (g @ [(i, ds)]))"

fun cycle_message :: "order_error \<Rightarrow> err" where
  "cycle_message (Cycle i) = ErrMsg (''component dependency cycle at '' @ i)"
| "cycle_message (Unknown i d) = ErrMsg []"

text \<open>\<open>enabled\<close> is nil (all components) or a map.\<close>

definition enabled_ids :: "registry \<Rightarrow> (string \<times> bool) list option \<Rightarrow> string list" where
  "enabled_ids r enabled = sort (filter (\<lambda>i. case enabled of None \<Rightarrow> True | Some en \<Rightarrow> map_of en i = Some True) (keys r))"

definition build :: "url_parser \<Rightarrow> registry \<Rightarrow> string \<Rightarrow> (string \<times> bool) list option \<Rightarrow> (string \<times> (string \<times> raw res) list) list \<Rightarrow> runtime res" where
  "build url r account enabled vals =
     (if account = [] then Inl (ErrMsg ''account is required'')
      else case find (\<lambda>i. map_of r i = None) (keys (case enabled of None \<Rightarrow> [] | Some en \<Rightarrow> en)) of
             Some i \<Rightarrow> Inl (ErrMsg (''unknown component '' @ i))
           | None \<Rightarrow>
      (case find (\<lambda>i. map_of r i = None) (keys vals) of
         Some i \<Rightarrow> Inl (ErrMsg (''unknown component config '' @ i))
       | None \<Rightarrow>
      (case build_instances url r vals (enabled_ids r enabled) [] [] of
         Inl e \<Rightarrow> Inl e
       | Inr (ins, prov) \<Rightarrow>
      (case build_deps r prov (enabled_ids r enabled) [] of
         Inl e \<Rightarrow> Inl e
       | Inr deps \<Rightarrow>
      (case order_loop deps (enabled_ids r enabled) [] of
         Inl e \<Rightarrow> Inl (cycle_message e)
       | Inr order \<Rightarrow>
           Inr \<lparr>rt_account = account, rt_order = order, rt_instances = ins, rt_providers = map (\<lambda>(n, i, _). (n, i)) prov,
                rt_ports = [], rt_started = False, rt_stopped = False, rt_stopping = False, rt_log = []\<rparr>)))))"

section \<open>Start\<close>

definition provided_names :: "registration \<Rightarrow> string list" where
  "provided_names m = map pt_name (rg_provides m)"

text \<open>\<open>kernel.provide\<close> and \<open>kernel.resolve\<close>.\<close>

definition kernel_provide :: "string \<Rightarrow> registration \<Rightarrow> string \<Rightarrow> bool \<Rightarrow> string list \<Rightarrow> string list res" where
  "kernel_provide i m name implements bindings =
     (if name \<notin> set (provided_names m) then Inl (ErrMsg (i @ '': undeclared provided port '' @ name))
      else if \<not> implements then Inl (ErrMsg (i @ '': invalid implementation for '' @ name))
      else if name \<in> set bindings then Inl (ErrMsg (''port '' @ name @ '' already bound''))
      else Inr (bindings @ [name]))"

definition kernel_resolve :: "string \<Rightarrow> registration \<Rightarrow> string list \<Rightarrow> string \<Rightarrow> unit res" where
  "kernel_resolve i m ports name =
     (if name \<notin> set (map (pt_name \<circ> rq_port) (rg_requires m)) then Inl (ErrMsg (i @ '': undeclared required port '' @ name))
      else if name \<in> set ports then Inr () else Inl (ErrMsg (''port '' @ name @ '' unavailable'')))"

definition init_bindings :: "cworld \<Rightarrow> string \<Rightarrow> registration \<Rightarrow> string list" where
  "init_bindings w i m = fold (\<lambda>(n, ok) bs. case kernel_provide i m n ok bs of Inr bs' \<Rightarrow> bs' | Inl _ \<Rightarrow> bs) (cw_provide w i) []"

text \<open>The function passed to \<open>invoke\<close>: the instance and ports it leaves, the calls it made and its error.\<close>

definition run_component :: "cworld \<Rightarrow> string \<Rightarrow> inst \<Rightarrow> string list \<Rightarrow> inst \<times> string list \<times> call list \<times> err option" where
  "run_component w i m ports =
     (case cw_new w i of
        Some e \<Rightarrow> (m, ports, [CFactory i], Some e)
      | None \<Rightarrow>
          let m1 = m\<lparr>it_initialized := True\<rparr>
          in case cw_init w i of
               Some e \<Rightarrow> (m1, ports, [CFactory i, CInit i], Some e)
             | None \<Rightarrow>
                 let bs = init_bindings w i (it_reg m); m2 = m1\<lparr>it_bindings := bs\<rparr>; ports1 = ports @ filter (\<lambda>n. n \<notin> set ports) bs
                 in case find (\<lambda>n. n \<notin> set ports1) (provided_names (it_reg m)) of
                      Some n \<Rightarrow> (m2, ports1, [CFactory i, CInit i], Some (ErrMsg (''port '' @ n @ '' was not bound'')))
                    | None \<Rightarrow> (m2, ports1, [CFactory i, CInit i, CStart i], cw_start w i))"

definition unmet :: "runtime \<Rightarrow> registration \<Rightarrow> string option" where
  "unmet rt m = map_option (\<lambda>q. the (map_of (rt_providers rt) (pt_name (rq_port q))))
     (find (\<lambda>q. \<not> rq_optional q \<and> state_of rt (the (map_of (rt_providers rt) (pt_name (rq_port q)))) \<noteq> Some Running) (rg_requires m))"

definition join_err :: "err \<Rightarrow> err option \<Rightarrow> err" where
  "join_err e d = (case d of None \<Rightarrow> e | Some e' \<Rightarrow> ErrJoin e e')"

definition start_failed :: "(err \<Rightarrow> string) \<Rightarrow> cworld \<Rightarrow> string \<Rightarrow> err \<Rightarrow> inst \<Rightarrow> inst \<times> call list" where
  "start_failed text w i e m =
     (let stops = (it_initialized m \<and> cw_drain w i = None);
          e1 = join_err e (if stops then cw_stop w i else cw_drain w i)
      in (set_status Failed (text e1) (m\<lparr>it_canceled := True, it_initialized := it_initialized m \<and> (stops \<longrightarrow> cw_stop w i \<noteq> None)\<rparr>),
          if stops then [CStop i] else []))"

definition start_component :: "(err \<Rightarrow> string) \<Rightarrow> cworld \<Rightarrow> string \<Rightarrow> runtime \<Rightarrow> runtime" where
  "start_component text w i rt =
     (case map_of (rt_instances rt) i of
        None \<Rightarrow> rt
      | Some m \<Rightarrow>
          if it_state m = Running then rt
          else case unmet rt (it_reg m) of
                 Some p \<Rightarrow> change i (set_status Blocked (''dependency unavailable: '' @ p)) rt
               | None \<Rightarrow>
                   if it_state m = Blocked then rt
                   else case run_component w i (set_status Starting [] (m\<lparr>it_context := True, it_canceled := False\<rparr>)) (rt_ports rt) of
                          (m1, ports, calls, None) \<Rightarrow>
                            rt\<lparr>rt_instances := AList.update i (set_status Running [] m1) (rt_instances rt), rt_ports := ports, rt_log := rt_log rt @ calls\<rparr>
                        | (m1, ports, calls, Some e) \<Rightarrow>
                            (case start_failed text w i e m1 of
                               (m2, cleanup) \<Rightarrow>
                                 rt\<lparr>rt_instances := AList.update i m2 (rt_instances rt),
                                    rt_ports := filter (\<lambda>n. n \<notin> set (provided_names (it_reg m))) ports, rt_log := rt_log rt @ calls @ cleanup\<rparr>))"

definition start_locked :: "(err \<Rightarrow> string) \<Rightarrow> cworld \<Rightarrow> runtime \<Rightarrow> runtime" where
  "start_locked text w rt = fold (start_component text w) (rt_order rt) (rt\<lparr>rt_started := True\<rparr>)"

definition runtime_start :: "(err \<Rightarrow> string) \<Rightarrow> cworld \<Rightarrow> runtime \<Rightarrow> runtime" where
  "runtime_start text w rt = (if rt_started rt \<or> rt_stopped rt \<or> rt_stopping rt then rt else start_locked text w rt)"

text \<open>\<open>Resolve\<close>: the first running component, in order, that bound the port.\<close>

definition resolve_port :: "runtime \<Rightarrow> string \<Rightarrow> string \<Rightarrow> string res" where
  "resolve_port rt i name =
     (case find (\<lambda>j. (i = [] \<or> j = i) \<and> (case map_of (rt_instances rt) j of None \<Rightarrow> False | Some m \<Rightarrow> it_state m = Running \<and> name \<in> set (it_bindings m))) (rt_order rt) of
        Some j \<Rightarrow> Inr j
      | None \<Rightarrow> Inl (ErrMsg (''port '' @ name @ '' unavailable'')))"

section \<open>Stop\<close>

definition cancel_all :: "runtime \<Rightarrow> runtime" where
  "cancel_all rt = rt\<lparr>rt_stopping := True,
     rt_instances := map (\<lambda>(i, m). (i, (if it_initialized m then set_status Stopping [] m else m)\<lparr>it_canceled := it_canceled m \<or> it_context m\<rparr>)) (rt_instances rt)\<rparr>"

definition fail_all :: "string \<Rightarrow> runtime \<Rightarrow> runtime" where
  "fail_all detail rt = rt\<lparr>rt_instances := map (\<lambda>(i, m). (i, if it_initialized m then set_status Failed detail m else m)) (rt_instances rt)\<rparr>"

fun drain_loop :: "(err \<Rightarrow> string) \<Rightarrow> cworld \<Rightarrow> string list \<Rightarrow> runtime \<Rightarrow> runtime \<times> err option" where
  "drain_loop text w [] rt = (rt, None)"
| "drain_loop text w (i # is) rt =
     (case map_of (rt_instances rt) i of
        None \<Rightarrow> drain_loop text w is rt
      | Some m \<Rightarrow>
          if it_context m then (case cw_runnables w i of
                                  Some e \<Rightarrow> (change i (set_status Failed (text e)) rt, Some (ErrWrap i e))
                                | None \<Rightarrow> drain_loop text w is rt)
          else drain_loop text w is rt)"

fun release_loop :: "(err \<Rightarrow> string) \<Rightarrow> cworld \<Rightarrow> string list \<Rightarrow> runtime \<Rightarrow> runtime \<times> err option" where
  "release_loop text w [] rt = (rt, None)"
| "release_loop text w (i # is) rt =
     (case map_of (rt_instances rt) i of
        None \<Rightarrow> release_loop text w is rt
      | Some m \<Rightarrow>
          if \<not> it_initialized m then release_loop text w is (change i (set_status Stopped []) rt)
          else let rt1 = rt\<lparr>rt_log := rt_log rt @ [CStop i]\<rparr>
               in case cw_stop w i of
                    Some e \<Rightarrow> (change i (set_status Failed (text e)) rt1, Some (ErrWrap i e))
                  | None \<Rightarrow>
                      release_loop text w is
                        ((change i (\<lambda>m. set_status Stopped [] (m\<lparr>it_initialized := False\<rparr>)) rt1)
                           \<lparr>rt_ports := filter (\<lambda>n. n \<notin> set (provided_names (it_reg m))) (rt_ports rt1)\<rparr>))"

definition runtime_stop :: "(err \<Rightarrow> string) \<Rightarrow> cworld \<Rightarrow> runtime \<Rightarrow> runtime \<times> err option" where
  "runtime_stop text w rt =
     (if rt_stopped rt then (rt, None)
      else let rt1 = cancel_all rt
           in case cw_close w of
                Some e \<Rightarrow> (fail_all (text e) rt1, Some e)
              | None \<Rightarrow>
                  (case drain_loop text w (rt_order rt1) rt1 of
                     (rt2, Some e) \<Rightarrow> (rt2, Some e)
                   | (rt2, None) \<Rightarrow>
                       (case release_loop text w (rev (rt_order rt2)) rt2 of
                          (rt3, Some e) \<Rightarrow> (rt3, Some e)
                        | (rt3, None) \<Rightarrow> (rt3\<lparr>rt_ports := [], rt_stopped := True\<rparr>, None))))"

section \<open>Reconfiguration\<close>

text \<open>What components answer to a new configuration, and when the context ends (at an id, or before publishing).\<close>

record pworld =
  pw_ctx :: "string \<Rightarrow> ctx"
  pw_ctx_end :: ctx
  pw_prepared :: "string \<Rightarrow> bool"
  pw_prepare :: "string \<Rightarrow> view \<Rightarrow> err option"
  pw_commit :: "string \<Rightarrow> bool"
  pw_reconfigure :: "string \<Rightarrow> view \<Rightarrow> err option"

type_synonym settings = "(string \<times> raw res) list"

definition reconfigure :: "url_parser \<Rightarrow> pworld \<Rightarrow> string \<Rightarrow> settings \<Rightarrow> runtime \<Rightarrow> runtime \<times> err option" where
  "reconfigure url w i vals rt =
     (case pw_ctx w i of
        Some e \<Rightarrow> (rt, Some e)
      | None \<Rightarrow>
     (case map_of (rt_instances rt) i of
        None \<Rightarrow> (rt, Some (ErrMsg (''unknown component '' @ i)))
      | Some m \<Rightarrow>
     (case config_new url (rg_config (it_reg m)) vals of
        Inl e \<Rightarrow> (rt, Some e)
      | Inr v \<Rightarrow>
          if it_state m \<noteq> Running then (rt, Some (ErrMsg (''component '' @ i @ '' is not running'')))
          else if view_Equal (it_config m) v then (rt, None)
          else let rt1 = rt\<lparr>rt_log := rt_log rt @ [CReconfigure i]\<rparr>
               in case pw_reconfigure w i v of
                    Some e \<Rightarrow> (rt1, Some e)
                  | None \<Rightarrow> (change i (\<lambda>m. m\<lparr>it_config := v\<rparr>) rt1, None))))"

text \<open>One component: the calls made, its new view and whether it changes.\<close>

definition prepare_change :: "url_parser \<Rightarrow> pworld \<Rightarrow> runtime \<Rightarrow> string \<Rightarrow> settings \<Rightarrow> call list \<times> (view \<times> bool) res" where
  "prepare_change url w rt i vals =
     (case pw_ctx w i of
        Some e \<Rightarrow> ([], Inl e)
      | None \<Rightarrow>
     (case map_of (rt_instances rt) i of
        None \<Rightarrow> ([], Inl (ErrMsg (''unknown component '' @ i)))
      | Some m \<Rightarrow>
     (case config_new url (rg_config (it_reg m)) vals of
        Inl e \<Rightarrow> ([], Inl (ErrWrap i e))
      | Inr v \<Rightarrow>
          if it_state m \<noteq> Running then ([], Inl (ErrMsg (''component '' @ i @ '' is not running'')))
          else if view_Equal (it_config m) v then ([], Inr (v, False))
          else if \<not> pw_prepared w i then ([], Inl (ErrMsg (''component '' @ i @ '' does not support prepared configuration'')))
          else ([CPrepare i],
                case pw_prepare w i v of
                  Some e \<Rightarrow> Inl (ErrWrap i e)
                | None \<Rightarrow> if \<not> pw_commit w i then Inl (ErrMsg (i @ '': prepare returned no commit'')) else Inr (v, True)))))"

fun prepare_changes :: "url_parser \<Rightarrow> pworld \<Rightarrow> runtime \<Rightarrow> (string \<times> settings) list \<Rightarrow> call list \<times> (string \<times> view \<times> bool) list res" where
  "prepare_changes url w rt [] = ([], Inr [])"
| "prepare_changes url w rt ((i, vals) # rest) =
     (case prepare_change url w rt i vals of
        (calls, Inl e) \<Rightarrow> (calls, Inl e)
      | (calls, Inr (v, c)) \<Rightarrow>
          (case prepare_changes url w rt rest of
             (calls1, Inl e) \<Rightarrow> (calls @ calls1, Inl e)
           | (calls1, Inr cs) \<Rightarrow> (calls @ calls1, Inr ((i, v, c) # cs))))"

definition commit_change :: "string \<times> view \<Rightarrow> runtime \<Rightarrow> runtime" where
  "commit_change c rt = (change (fst c) (\<lambda>m. m\<lparr>it_config := snd c\<rparr>) rt)\<lparr>rt_log := rt_log rt @ [CCommit (fst c)]\<rparr>"

definition changed_views :: "(string \<times> view \<times> bool) list \<Rightarrow> (string \<times> view) list" where
  "changed_views cs = map (\<lambda>(i, v, _). (i, v)) (filter (\<lambda>(_, _, c). c) cs)"

text \<open>\<open>persist\<close> is nil for \<open>ReconfigureBatch\<close> and the store's \<open>Save\<close> for the saved variants.\<close>

definition reconfigure_locked :: "url_parser \<Rightarrow> pworld \<Rightarrow> ((string \<times> view) list \<Rightarrow> err option) option \<Rightarrow> (string \<times> settings) list \<Rightarrow> runtime
    \<Rightarrow> runtime \<times> err option" where
  "reconfigure_locked url w persist vals rt =
     (case prepare_changes url w rt (sort_key fst vals) of
        (calls, Inl e) \<Rightarrow> (rt\<lparr>rt_log := rt_log rt @ calls\<rparr>, Some e)
      | (calls, Inr cs) \<Rightarrow>
          let rt1 = rt\<lparr>rt_log := rt_log rt @ calls\<rparr>
          in case pw_ctx_end w of
               Some e \<Rightarrow> (rt1, Some e)
             | None \<Rightarrow>
                 (case (case persist of None \<Rightarrow> None | Some save \<Rightarrow> save (map (\<lambda>(i, v, _). (i, v)) cs)) of
                    Some e \<Rightarrow> (rt1, Some e)
                  | None \<Rightarrow> (fold commit_change (changed_views cs) rt1, None)))"

definition reconfigureBatch :: "url_parser \<Rightarrow> pworld \<Rightarrow> (string \<times> settings) list \<Rightarrow> runtime \<Rightarrow> runtime \<times> err option" where
  "reconfigureBatch url w vals rt = reconfigure_locked url w None vals rt"

text \<open>\<open>store.Save\<close> of the one component of the call.\<close>

definition save_one :: "(string \<Rightarrow> view \<Rightarrow> err option) \<Rightarrow> string \<Rightarrow> (string \<times> view) list \<Rightarrow> err option" where
  "save_one save i views = save i (the (map_of views i))"

definition reconfigureSaved :: "url_parser \<Rightarrow> pworld \<Rightarrow> (string \<Rightarrow> view \<Rightarrow> err option) \<Rightarrow> string \<Rightarrow> settings \<Rightarrow> runtime \<Rightarrow> runtime \<times> err option" where
  "reconfigureSaved url w save i vals rt = reconfigure_locked url w (Some (save_one save i)) [(i, vals)] rt"

definition keeps_secret :: "configField list \<Rightarrow> string \<Rightarrow> raw res \<Rightarrow> bool" where
  "keeps_secret schema key v \<longleftrightarrow> list_ex (\<lambda>f. cf_name f = key \<and> cf_secret f \<and> v = Inr (RStr [])) schema"

fun current_values :: "view \<Rightarrow> configField list \<Rightarrow> settings \<Rightarrow> settings res" where
  "current_values v [] acc = Inr acc"
| "current_values v (f # fs) acc =
     (case view_get v (cf_name f) of Inl e \<Rightarrow> Inl e | Inr raw \<Rightarrow> current_values v fs (AList.update (cf_name f) (Inr raw) acc))"

definition merge_patch :: "configField list \<Rightarrow> settings \<Rightarrow> settings \<Rightarrow> settings" where
  "merge_patch schema patch vals = fold (\<lambda>(k, v) acc. if keeps_secret schema k v then acc else AList.update k v acc) patch vals"

definition patchSaved :: "url_parser \<Rightarrow> pworld \<Rightarrow> (string \<Rightarrow> view \<Rightarrow> err option) \<Rightarrow> string \<Rightarrow> settings \<Rightarrow> runtime \<Rightarrow> runtime \<times> err option" where
  "patchSaved url w save i patch rt =
     (case map_of (rt_instances rt) i of
        None \<Rightarrow> (rt, Some (ErrMsg (''unknown component '' @ i)))
      | Some m \<Rightarrow>
          (case current_values (it_config m) (rg_config (it_reg m)) [] of
             Inl e \<Rightarrow> (rt, Some e)
           | Inr vals \<Rightarrow> reconfigure_locked url w (Some (save_one save i)) [(i, merge_patch (rg_config (it_reg m)) patch vals)] rt))"

section \<open>Change of enablement\<close>

text \<open>
  \<open>ReconcileComponents\<close>: components that disappear or do not run are affected, and with them, transitively, everything that
  requires a port (also an optional one) whose provider is affected or changes.
\<close>

definition loses_port :: "runtime \<Rightarrow> runtime \<Rightarrow> (string \<Rightarrow> bool) \<Rightarrow> inst \<Rightarrow> bool" where
  "loses_port rt desired aff m \<longleftrightarrow> list_ex (\<lambda>q. let n = pt_name (rq_port q)
     in map_of (rt_providers rt) n \<noteq> map_of (rt_providers desired) n
        \<or> (case map_of (rt_providers rt) n of None \<Rightarrow> False | Some j \<Rightarrow> aff j)) (rg_requires (it_reg m))"

definition affected_start :: "runtime \<Rightarrow> runtime \<Rightarrow> string \<Rightarrow> bool" where
  "affected_start rt desired i \<longleftrightarrow> (case map_of (rt_instances rt) i of None \<Rightarrow> False | Some m \<Rightarrow>
     map_of (rt_instances desired) i = None \<or> it_state m \<noteq> Running)"

text \<open>One pass over the instances, and passes until nothing changes.\<close>

definition affected_pass :: "runtime \<Rightarrow> runtime \<Rightarrow> (string \<Rightarrow> bool) \<Rightarrow> string \<Rightarrow> bool" where
  "affected_pass rt desired aff = fold (\<lambda>(i, m) aff. if aff i \<or> \<not> loses_port rt desired aff m then aff else aff(i := True)) (rt_instances rt) aff"

lemma affected_pass_mono: "aff i \<Longrightarrow> affected_pass rt desired aff i"
proof -
  have "aff i \<Longrightarrow> fold (\<lambda>(i, m) aff. if aff i \<or> \<not> loses_port rt desired aff m then aff else aff(i := True)) ms aff i" for ms
  proof (induction ms arbitrary: aff)
    case (Cons x ms)
    show ?case unfolding fold.simps comp_apply by (rule Cons.IH) (simp add: Cons.prems split: prod.split)
  qed simp
  then show "aff i \<Longrightarrow> ?thesis" by (simp add: affected_pass_def)
qed

function affected_loop :: "runtime \<Rightarrow> runtime \<Rightarrow> (string \<Rightarrow> bool) \<Rightarrow> string \<Rightarrow> bool" where
  "affected_loop rt desired aff =
     (let aff1 = affected_pass rt desired aff
      in if list_ex (\<lambda>i. \<not> aff i \<and> aff1 i) (keys (rt_instances rt)) then affected_loop rt desired aff1 else aff1)"
  by pat_completeness auto
termination
proof (relation "measure (\<lambda>(rt, desired, aff). card {i \<in> set (keys (rt_instances rt)). \<not> aff i})", goal_cases)
  case (2 rt desired aff aff1)
  then obtain i where "i \<in> set (keys (rt_instances rt))" "\<not> aff i" "aff1 i" by (auto simp: list_ex_iff)
  then have "{i \<in> set (keys (rt_instances rt)). \<not> aff1 i} \<subset> {i \<in> set (keys (rt_instances rt)). \<not> aff i}"
    using affected_pass_mono [of aff _ rt desired] 2(1) by blast
  then show ?case by (simp add: psubset_card_mono)
qed simp

declare affected_loop.simps [simp del]

definition affected :: "runtime \<Rightarrow> runtime \<Rightarrow> string \<Rightarrow> bool" where
  "affected rt desired = affected_loop rt desired (affected_start rt desired)"

definition mark_affected :: "(string \<Rightarrow> bool) \<Rightarrow> runtime \<Rightarrow> runtime" where
  "mark_affected aff rt = rt\<lparr>rt_instances := map (\<lambda>(i, m). (i, if aff i then set_status Stopping [] (m\<lparr>it_canceled := it_canceled m \<or> it_context m\<rparr>) else m)) (rt_instances rt)\<rparr>"

fun stop_affected :: "cworld \<Rightarrow> (string \<Rightarrow> bool) \<Rightarrow> string list \<Rightarrow> runtime \<Rightarrow> runtime \<times> err option" where
  "stop_affected w aff [] rt = (rt, None)"
| "stop_affected w aff (i # is) rt =
     (case map_of (rt_instances rt) i of
        None \<Rightarrow> stop_affected w aff is rt
      | Some m \<Rightarrow>
          if \<not> aff i then stop_affected w aff is rt
          else case cw_drain w i of
                 Some e \<Rightarrow> (rt, Some e)
               | None \<Rightarrow>
                   let rt1 = (if it_initialized m then rt\<lparr>rt_log := rt_log rt @ [CStop i]\<rparr> else rt)
                   in case (if it_initialized m then cw_stop w i else None) of
                        Some e \<Rightarrow> (rt1, Some (ErrWrap i e))
                      | None \<Rightarrow>
                          stop_affected w aff is
                            ((change i (\<lambda>m. set_status Stopped [] (m\<lparr>it_initialized := False\<rparr>)) rt1)
                               \<lparr>rt_ports := filter (\<lambda>n. n \<notin> set (provided_names (it_reg m))) (rt_ports rt1)\<rparr>))"

definition adopt :: "(string \<Rightarrow> bool) \<Rightarrow> runtime \<Rightarrow> runtime \<Rightarrow> runtime" where
  "adopt aff desired rt = rt\<lparr>
     rt_instances := map (\<lambda>(i, m). (i, case map_of (rt_instances rt) i of Some cur \<Rightarrow> if aff i then m else cur | None \<Rightarrow> m)) (rt_instances desired),
     rt_providers := rt_providers desired, rt_order := rt_order desired\<rparr>"

definition start_errors :: "runtime \<Rightarrow> err list" where
  "start_errors rt = List.map_filter (\<lambda>i. case map_of (rt_instances rt) i of
      None \<Rightarrow> None | Some m \<Rightarrow> if it_state m \<in> {Failed, Blocked} then Some (ErrWrap i (ErrMsg (it_detail m))) else None) (rt_order rt)"

definition reconcileComponents :: "(err \<Rightarrow> string) \<Rightarrow> ctx \<Rightarrow> cworld \<Rightarrow> runtime \<Rightarrow> runtime \<Rightarrow> runtime \<times> err list" where
  "reconcileComponents text ctx w desired rt =
     (case ctx of
        Some e \<Rightarrow> (rt, [e])
      | None \<Rightarrow>
          if rt_stopping rt \<or> rt_stopped rt \<or> rt_started desired \<or> rt_account desired \<noteq> rt_account rt
          then (rt, [ErrMsg ''invalid component reconciliation lifecycle''])
          else let aff = affected rt desired
               in case stop_affected w aff (rev (rt_order rt)) (mark_affected aff rt) of
                    (rt1, Some e) \<Rightarrow> (rt1, [e])
                  | (rt1, None) \<Rightarrow> let rt2 = start_locked text w (adopt aff desired rt1) in (rt2, start_errors rt2))"

text \<open>\<open>ReconcileSaved\<close>: \<open>load\<close> is the configuration store (nil when absent), \<open>r\<close> the registry the runtime was built from.\<close>

fun load_all :: "(string \<Rightarrow> (bool \<times> settings) res) \<Rightarrow> string list \<Rightarrow> (string \<times> bool \<times> settings) list res" where
  "load_all load [] = Inr []"
| "load_all load (i # is) =
     (case load i of
        Inl e \<Rightarrow> Inl e
      | Inr doc \<Rightarrow> (case load_all load is of Inl e \<Rightarrow> Inl e | Inr docs \<Rightarrow> Inr ((i, doc) # docs)))"

definition reconcileSaved :: "url_parser \<Rightarrow> (err \<Rightarrow> string) \<Rightarrow> ctx \<Rightarrow> cworld \<Rightarrow> (string \<Rightarrow> (bool \<times> settings) res) option \<Rightarrow> registry \<Rightarrow> runtime
    \<Rightarrow> runtime \<times> err list" where
  "reconcileSaved url text ctx w store r rt =
     (case store of
        None \<Rightarrow> (rt, [])
      | Some load \<Rightarrow>
          if rt_stopped rt \<or> rt_stopping rt then (rt, [])
          else case load_all load (keys r) of
                 Inl e \<Rightarrow> (rt, [e])
               | Inr docs \<Rightarrow>
                   (case build url r (rt_account rt) (Some (map (\<lambda>(i, en, _). (i, en)) docs)) (map (\<lambda>(i, _, vals). (i, vals)) docs) of
                      Inl e \<Rightarrow> (rt, [e])
                    | Inr desired \<Rightarrow> reconcileComponents text ctx w desired rt))"

section \<open>Reconfiguration is all or nothing\<close>

lemma change_simps [simp]:
  "rt_order (change i f rt) = rt_order rt" "rt_providers (change i f rt) = rt_providers rt" "rt_ports (change i f rt) = rt_ports rt"
  "rt_log (change i f rt) = rt_log rt" "rt_stopped (change i f rt) = rt_stopped rt" "rt_started (change i f rt) = rt_started rt"
  "rt_stopping (change i f rt) = rt_stopping rt" "rt_account (change i f rt) = rt_account rt"
  by (simp_all add: change_def split: option.split)

lemma map_of_change: "map_of (rt_instances (change i f rt)) j = (if j = i then map_option f (map_of (rt_instances rt) i) else map_of (rt_instances rt) j)"
  by (auto simp: change_def alist_simps split: option.split)

lemma prepare_change_calls: "set (fst (prepare_change url w rt i vals)) \<subseteq> range CPrepare"
  by (auto simp: prepare_change_def split: option.split sum.split)

lemma prepare_changes_calls: "set (fst (prepare_changes url w rt vals)) \<subseteq> range CPrepare"
proof (induction vals)
  case (Cons a rest)
  obtain i vs where a: "a = (i, vs)" by (cases a)
  obtain c1 r1 where r1: "prepare_change url w rt i vs = (c1, r1)" by (cases "prepare_change url w rt i vs")
  obtain c2 r2 where r2: "prepare_changes url w rt rest = (c2, r2)" by (cases "prepare_changes url w rt rest")
  show ?case using Cons prepare_change_calls [of url w rt i vs] by (cases r1; cases r2) (auto simp: a r1 r2)
qed simp

lemma prepare_change_ok:
  assumes "prepare_change url w rt i vals = (calls, Inr (v, c))"
  shows "\<exists>m. map_of (rt_instances rt) i = Some m \<and> it_state m = Running \<and> config_new url (rg_config (it_reg m)) vals = Inr v
    \<and> c = (\<not> view_Equal (it_config m) v)"
  using assms by (auto simp: prepare_change_def split: option.splits sum.splits if_splits)

lemma prepare_changes_ok:
  "prepare_changes url w rt vals = (calls, Inr cs) \<Longrightarrow>
     list_all2 (\<lambda>(i, vs) (j, v, c). j = i \<and> (\<exists>m. map_of (rt_instances rt) i = Some m \<and> it_state m = Running \<and> config_new url (rg_config (it_reg m)) vs = Inr v
       \<and> c = (\<not> view_Equal (it_config m) v))) vals cs"
proof (induction url w rt vals arbitrary: calls cs rule: prepare_changes.induct)
  case (2 url w rt i vals rest)
  from "2.prems" obtain c1 v c c2 cs' where s: "prepare_change url w rt i vals = (c1, Inr (v, c))" "prepare_changes url w rt rest = (c2, Inr cs')" "cs = (i, v, c) # cs'"
    by (auto split: prod.splits sum.splits)
  with "2.IH" prepare_change_ok [OF s(1)] show ?case by auto
qed simp

lemma commit_fold:
  "distinct (map fst cs) \<Longrightarrow>
     rt_log (fold commit_change cs rt) = rt_log rt @ map (CCommit \<circ> fst) cs
     \<and> map_of (rt_instances (fold commit_change cs rt)) j = (case map_of cs j of None \<Rightarrow> map_of (rt_instances rt) j
         | Some v \<Rightarrow> map_option (\<lambda>m. m\<lparr>it_config := v\<rparr>) (map_of (rt_instances rt) j))"
proof (induction cs arbitrary: rt)
  case (Cons c cs)
  have one: "rt_log (commit_change c rt) = rt_log rt @ [CCommit (fst c)]"
      "map_of (rt_instances (commit_change c rt)) j = (if j = fst c then map_option (\<lambda>m. m\<lparr>it_config := snd c\<rparr>) (map_of (rt_instances rt) j) else map_of (rt_instances rt) j)"
    by (simp_all add: commit_change_def map_of_change)
  from Cons.prems have "j = fst c \<Longrightarrow> map_of cs j = None" by (simp add: map_of_eq_None_iff)
  with Cons one show ?case by (cases "j = fst c") (simp_all split: option.split)
qed simp

lemma distinct_sort_key: "distinct (keys vals) \<Longrightarrow> distinct (map fst (sort_key fst vals))"
  by (metis distinct_map mset_map mset_eq_imp_distinct_iff mset_sort)

lemma changed_views_distinct: "distinct (map fst cs) \<Longrightarrow> distinct (map fst (changed_views cs))"
  by (induction cs) (auto simp: changed_views_def image_iff)

lemma changed_views_lookup:
  "distinct (map fst cs) \<Longrightarrow> map_of (changed_views cs) i = (case map_of cs i of Some (v, c) \<Rightarrow> if c then Some v else None | None \<Rightarrow> None)"
proof (induction cs)
  case (Cons a cs)
  then have "i = fst a \<Longrightarrow> map_of cs i = None" by (simp add: map_of_eq_None_iff)
  with Cons show ?case by (cases a) (auto simp: changed_views_def)
qed (simp add: changed_views_def)

text \<open>The component has its new configuration; \<open>m'\<close> is its instance afterwards.\<close>

definition reconfigured :: "url_parser \<Rightarrow> settings \<Rightarrow> inst option \<Rightarrow> inst option \<Rightarrow> bool" where
  "reconfigured url vs m m' \<longleftrightarrow> (\<exists>m0 v. m = Some m0 \<and> it_state m0 = Running \<and> config_new url (rg_config (it_reg m0)) vs = Inr v
     \<and> m' = Some (if view_Equal (it_config m0) v then m0 else m0\<lparr>it_config := v\<rparr>))"

lemma prepared_lookup:
  assumes "list_all2 (\<lambda>(i, vs) (j, v, c). j = i \<and> (\<exists>m. map_of (rt_instances rt) i = Some m \<and> it_state m = Running \<and> config_new url (rg_config (it_reg m)) vs = Inr v
       \<and> c = (\<not> view_Equal (it_config m) v))) vals cs"
  shows "case map_of vals i of None \<Rightarrow> map_of cs i = None
    | Some vs \<Rightarrow> \<exists>m v. map_of (rt_instances rt) i = Some m \<and> it_state m = Running \<and> config_new url (rg_config (it_reg m)) vs = Inr v
        \<and> map_of cs i = Some (v, \<not> view_Equal (it_config m) v)"
  using assms by (induction rule: list_all2_induct) (auto split: option.splits)


definition demo_registration :: registration where
  "demo_registration = \<lparr>rg_provides = [], rg_requires = [], rg_config = demo_schema, rg_pages = []\<rparr>"

definition demo_runtime :: runtime where
  "demo_runtime = \<lparr>rt_account = ''a'', rt_order = [''web''],
     rt_instances = [(''web'', \<lparr>it_reg = demo_registration, it_config = view_of [] demo_schema, it_state = Running, it_detail = [], it_initialized = True,
       it_context = True, it_canceled = False, it_bindings = []\<rparr>)],
     rt_providers = [], rt_ports = [], rt_started = True, rt_stopped = False, rt_stopping = False, rt_log = []\<rparr>"

definition willing :: pworld where
  "willing = \<lparr>pw_ctx = (\<lambda>_. None), pw_ctx_end = None, pw_prepared = (\<lambda>_. True), pw_prepare = (\<lambda>_ _. None), pw_commit = (\<lambda>_. True), pw_reconfigure = (\<lambda>_ _. None)\<rparr>"


text \<open>A patch with an empty secret keeps the secret that is set.\<close>

lemma merge_patch_keeps:
  "list_all (\<lambda>(k, v). k = n \<longrightarrow> keeps_secret schema k v) patch \<Longrightarrow> map_of (merge_patch schema patch vals) n = map_of vals n"
  unfolding merge_patch_def by (induction patch arbitrary: vals) (auto simp: alist_simps)

end
