(* ===== verification/Component_Lifecycle.thy ===== *)
theory Component_Lifecycle
  imports Component_Runtime
begin

text \<open>
  Correctness of the component runtime: what \<open>Build\<close> guarantees of the port graph, which components a start brings up,
  the order in which a stop releases them, and what a change of enablement leaves alone.
\<close>

section \<open>Build\<close>

abbreviation reg_of :: "registry \<Rightarrow> string \<Rightarrow> registration" where
  "reg_of r i \<equiv> the (map_of r i)"

definition provided_by :: "registry \<Rightarrow> string \<Rightarrow> (string \<times> string \<times> port) list" where
  "provided_by r i = map (\<lambda>p. (pt_name p, i, p)) (rg_provides (reg_of r i))"

lemma add_provided_ok:
  "add_provided i ps prov = Inr prov' \<Longrightarrow> distinct (keys prov) \<Longrightarrow> prov' = prov @ map (\<lambda>p. (pt_name p, i, p)) ps \<and> distinct (keys prov')"
proof (induction i ps prov rule: add_provided.induct)
  case (2 i p ps prov)
  then have s: "validatePort p = None" "map_of prov (pt_name p) = None" "add_provided i ps (prov @ [(pt_name p, i, p)]) = Inr prov'"
    by (auto split: option.splits)
  then have "distinct (keys (prov @ [(pt_name p, i, p)]))" using "2.prems"(2) by (simp add: map_of_eq_None_iff)
  from "2.IH" [OF s this] have IH: "prov' = (prov @ [(pt_name p, i, p)]) @ map (\<lambda>p. (pt_name p, i, p)) ps" "distinct (keys prov')" by blast+
  show ?case using IH(2) by (intro conjI) (simp add: IH(1), assumption)
qed simp

definition fresh_inst :: "registry \<Rightarrow> string \<Rightarrow> inst \<Rightarrow> bool" where
  "fresh_inst r i m \<longleftrightarrow> it_reg m = reg_of r i \<and> it_state m = Stopped \<and> \<not> it_initialized m \<and> \<not> it_context m"

lemma build_instances_ok:
  "build_instances url r vals is ins prov = Inr (ins', prov') \<Longrightarrow> distinct (keys prov) \<Longrightarrow>
     prov' = prov @ concat (map (provided_by r) is) \<and> distinct (keys prov') \<and> keys ins' = keys ins @ is
     \<and> (\<forall>(i, m) \<in> set ins'. (i, m) \<in> set ins \<or> fresh_inst r i m)"
proof (induction url r vals "is" ins prov rule: build_instances.induct)
  case (2 url r vals i "is" ins prov)
  then obtain v prov1 where s: "config_new url (rg_config (reg_of r i)) (case map_of vals i of Some v \<Rightarrow> v | None \<Rightarrow> []) = Inr v"
    "add_provided i (rg_provides (reg_of r i)) prov = Inr prov1"
    by (auto split: sum.splits)
  from add_provided_ok [OF s(2) "2.prems"(2)] have p1: "prov1 = prov @ provided_by r i" "distinct (keys prov1)" unfolding provided_by_def by blast+
  let ?m = "\<lparr>it_reg = reg_of r i, it_config = v, it_state = Stopped, it_detail = [], it_initialized = False, it_context = False, it_canceled = False, it_bindings = []\<rparr>"
  have rest: "build_instances url r vals is (ins @ [(i, ?m)]) prov1 = Inr (ins', prov')" using "2.prems"(1) s by simp
  from "2.IH" [OF refl s rest p1(2)] have IH: "prov' = prov1 @ concat (map (provided_by r) is)" "distinct (keys prov')" "keys ins' = keys (ins @ [(i, ?m)]) @ is"
    "\<forall>(j, m) \<in> set ins'. (j, m) \<in> set (ins @ [(i, ?m)]) \<or> fresh_inst r j m" by blast+
  have "fresh_inst r i ?m" by (simp add: fresh_inst_def)
  then have "\<forall>(j, m) \<in> set ins'. (j, m) \<in> set ins \<or> fresh_inst r j m" using IH(4) by fastforce
  moreover have "prov' = prov @ concat (map (provided_by r) (i # is))" using IH(1) p1(1) by simp
  ultimately show ?case using IH(2,3) by simp
qed auto

definition resolved :: "(string \<times> string \<times> port) list \<Rightarrow> string list \<Rightarrow> req \<Rightarrow> bool" where
  "resolved prov ds q \<longleftrightarrow> (case map_of prov (pt_name (rq_port q)) of None \<Rightarrow> rq_optional q | Some (j, p) \<Rightarrow> j \<in> set ds \<and> compatible p (rq_port q))"

lemma resolve_requires_ok:
  "resolve_requires prov i qs seen deps = Inr ds \<Longrightarrow>
     list_all (resolved prov ds) qs \<and> set deps \<subseteq> set ds \<and> set ds \<subseteq> set deps \<union> (fst \<circ> snd) ` set prov"
proof (induction prov i qs seen deps rule: resolve_requires.induct)
  case (2 prov i q qs seen deps)
  let ?n = "pt_name (rq_port q)"
  from "2.prems" have s: "validatePort (rq_port q) = None" "?n \<notin> set seen" by (auto split: option.splits if_splits)
  show ?case
  proof (cases "map_of prov ?n")
    case None
    with "2.prems" s have o: "rq_optional q" "resolve_requires prov i qs (?n # seen) deps = Inr ds" by (auto split: if_splits)
    from "2.IH"(1) [OF refl s None o] None o(1) show ?thesis by (simp add: resolved_def)
  next
    case (Some x)
    obtain j p where x: "x = (j, p)" by (cases x)
    with Some "2.prems" s have o: "compatible p (rq_port q)" "resolve_requires prov i qs (?n # seen) (deps @ [j]) = Inr ds" by (auto split: if_splits)
    have "j \<in> (fst \<circ> snd) ` set prov" using map_of_SomeD [OF Some] x by force
    with "2.IH"(2) [OF refl s Some x [symmetric] _ o(2)] o(1) Some x show ?thesis by (auto simp: resolved_def)
  qed
qed auto

lemma build_deps_ok:
  "build_deps r prov is g = Inr g' \<Longrightarrow> distinct (keys g @ is) \<Longrightarrow>
     keys g' = keys g @ is \<and> (\<forall>i. i \<notin> set is \<longrightarrow> map_of g' i = map_of g i)
     \<and> (\<forall>i \<in> set is. list_all (resolved prov (requires g' i)) (rg_requires (reg_of r i)) \<and> set (requires g' i) \<subseteq> (fst \<circ> snd) ` set prov)"
proof (induction r prov "is" g rule: build_deps.induct)
  case (2 r prov i "is" g)
  then obtain ds where ds: "resolve_requires prov i (rg_requires (reg_of r i)) [] [] = Inr ds" by (auto split: sum.splits)
  with "2.prems"(1) have "build_deps r prov is (g @ [(i, ds)]) = Inr g'" by simp
  with "2.IH" [OF ds this] "2.prems"(2) have IH: "keys g' = keys (g @ [(i, ds)]) @ is" "\<forall>j. j \<notin> set is \<longrightarrow> map_of g' j = map_of (g @ [(i, ds)]) j"
    "\<forall>j \<in> set is. list_all (resolved prov (requires g' j)) (rg_requires (reg_of r j)) \<and> set (requires g' j) \<subseteq> (fst \<circ> snd) ` set prov" by auto
  have "i \<notin> set is" "i \<notin> set (keys g)" using "2.prems"(2) by auto
  then have "map_of g i = None" "map_of g' i = map_of (g @ [(i, ds)]) i" using IH(2) [rule_format, of i] by (simp_all add: map_of_eq_None_iff)
  then have "map_of g' i = Some ds" by (simp add: map_add_def)
  then have "requires g' i = ds" by (simp add: requires_def)
  moreover have "map_of g' j = map_of g j" if "j \<notin> set (i # is)" for j using IH(2) that by (simp add: map_add_def split: option.split)
  ultimately show ?case using resolve_requires_ok [OF ds] IH(1,3) by auto
qed auto

text \<open>The port graph of a runtime: the providers of a component's ports come before it, only optional ports may lack one,
  and the table of providers lists the declared ports of the components in order.\<close>

definition rreg :: "runtime \<Rightarrow> string \<Rightarrow> registration" where
  "rreg rt i = it_reg (the (map_of (rt_instances rt) i))"

definition port_met :: "runtime \<Rightarrow> string list \<Rightarrow> req \<Rightarrow> bool" where
  "port_met rt pre q \<longleftrightarrow> (case map_of (rt_providers rt) (pt_name (rq_port q)) of
     None \<Rightarrow> rq_optional q
   | Some j \<Rightarrow> j \<in> set pre \<and> list_ex (\<lambda>p. pt_name p = pt_name (rq_port q) \<and> compatible p (rq_port q)) (rg_provides (rreg rt j)))"

definition ports_before :: "runtime \<Rightarrow> string list \<Rightarrow> string \<Rightarrow> bool" where
  "ports_before rt pre i \<longleftrightarrow> list_all (port_met rt pre) (rg_requires (rreg rt i))"

definition rt_wf :: "runtime \<Rightarrow> bool" where
  "rt_wf rt \<longleftrightarrow> distinct (rt_order rt) \<and> set (rt_order rt) = set (keys (rt_instances rt)) \<and> distinct (keys (rt_instances rt))
     \<and> each_after (ports_before rt) (rt_order rt)
     \<and> (\<forall>i \<in> set (rt_order rt). \<forall>n \<in> set (provided_names (rreg rt i)). map_of (rt_providers rt) n = Some i)
     \<and> (\<forall>n i. map_of (rt_providers rt) n = Some i \<longrightarrow> i \<in> set (rt_order rt) \<and> n \<in> set (provided_names (rreg rt i)))"

lemma enabled_ids_keys: "set (enabled_ids r en) \<subseteq> set (keys r)"
  by (auto simp: enabled_ids_def)

lemma map_of_provided:
  assumes "distinct (keys (concat (map (provided_by r) ids)))"
  shows "map_of (concat (map (provided_by r) ids)) n = Some (i, p) \<longleftrightarrow> i \<in> set ids \<and> p \<in> set (rg_provides (reg_of r i)) \<and> pt_name p = n"
  using assms by (force simp: provided_by_def)

lemma build_unfold:
  assumes "build url r account en vals = Inr rt"
  obtains prov deps where "build_instances url r vals (enabled_ids r en) [] [] = Inr (rt_instances rt, prov)"
    "build_deps r prov (enabled_ids r en) [] = Inr deps" "order_loop deps (enabled_ids r en) [] = Inr (rt_order rt)"
    "rt_providers rt = map (\<lambda>(n, i, _). (n, i)) prov" "rt_ports rt = []" "\<not> rt_started rt" "\<not> rt_stopped rt" "\<not> rt_stopping rt" "rt_log rt = []"
  using assms by (auto simp: build_def split: if_splits option.splits sum.splits prod.splits)

lemma build_wf:
  assumes b: "build url r account en vals = Inr rt" and r: "distinct (keys r)"
  shows "rt_wf rt \<and> set (rt_order rt) = set (enabled_ids r en) \<and> (\<forall>i \<in> set (rt_order rt). \<exists>m. map_of (rt_instances rt) i = Some m \<and> fresh_inst r i m)"
proof -
  from build_unfold [OF b] obtain prov deps where u: "build_instances url r vals (enabled_ids r en) [] [] = Inr (rt_instances rt, prov)"
    "build_deps r prov (enabled_ids r en) [] = Inr deps" "order_loop deps (enabled_ids r en) [] = Inr (rt_order rt)"
    "rt_providers rt = map (\<lambda>(n, i, _). (n, i)) prov" by metis
  let ?ids = "enabled_ids r en"
  have di: "distinct ?ids" using r by (simp add: enabled_ids_def)
  from build_instances_ok [OF u(1), simplified] have prov: "prov = concat (map (provided_by r) ?ids)" "distinct (keys prov)"
    and ins: "keys (rt_instances rt) = ?ids" "\<forall>(i, m) \<in> set (rt_instances rt). fresh_inst r i m" by blast+
  from build_deps_ok [OF u(2)] di have deps: "keys deps = ?ids"
    "\<forall>i \<in> set ?ids. list_all (resolved prov (requires deps i)) (rg_requires (reg_of r i)) \<and> set (requires deps i) \<subseteq> (fst \<circ> snd) ` set prov" by simp_all
  from order_loop_ok [OF u(3)] deps(1) have ord: "topological deps (rt_order rt)" "set (rt_order rt) = set ?ids" by auto
  have fresh: "\<exists>m. map_of (rt_instances rt) i = Some m \<and> fresh_inst r i m" if "i \<in> set ?ids" for i
  proof -
    from that arg_cong [OF ins(1), of set] have "map_of (rt_instances rt) i \<noteq> None" by (simp add: map_of_eq_None_iff)
    then obtain m where "map_of (rt_instances rt) i = Some m" by blast
    with ins(2) show ?thesis by (auto dest: map_of_SomeD)
  qed
  then have reg: "rreg rt i = reg_of r i" if "i \<in> set ?ids" for i using that by (force simp: rreg_def fresh_inst_def)
  note mp = map_of_provided [of r ?ids, folded prov(1), OF prov(2)]
  have look: "map_of (rt_providers rt) n = map_option fst (map_of prov n)" for n unfolding u(4) by (induction prov) auto
  have "ports_before rt pre i" if i: "rt_order rt = pre @ i # post" for pre i post
  proof -
    have mem: "i \<in> set ?ids" "set (requires deps i) \<subseteq> set pre" using i ord topological_split [of deps pre i post] by auto
    have "port_met rt pre q"
      if q: "q \<in> set (rg_requires (reg_of r i))" for q
    proof -
      have res: "resolved prov (requires deps i) q" using deps(2) mem(1) q by (simp add: list_all_iff)
      show ?thesis
      proof (cases "map_of prov (pt_name (rq_port q))")
        case None
        with res show ?thesis by (simp add: port_met_def look resolved_def)
      next
        case (Some x)
        obtain j p where x: "x = (j, p)" by (cases x)
        with Some mp have "j \<in> set ?ids" "p \<in> set (rg_provides (reg_of r j))" "pt_name p = pt_name (rq_port q)" by blast+
        with res Some x mem(2) reg show ?thesis by (auto simp: port_met_def look resolved_def list_ex_iff)
      qed
    qed
    then show ?thesis unfolding ports_before_def reg [OF mem(1)] list_all_iff by blast
  qed
  then have "each_after (ports_before rt) (rt_order rt)" by (auto simp: each_after_def)
  moreover have "map_of (rt_providers rt) n = Some i \<longleftrightarrow> i \<in> set ?ids \<and> n \<in> set (provided_names (rreg rt i))" for n i
    using mp [of n i] reg [of i] by (auto simp: look provided_names_def image_iff)
  ultimately show ?thesis using ord di ins(1) fresh unfolding rt_wf_def by (auto simp: topological_def)
qed

text \<open>C29: a runtime that \<open>Build\<close> accepts has a sound port graph: it holds exactly the enabled components, once each; every
  required port is provided by exactly one of them, of the same interface type and major version and at least the required
  minor version, and the provider comes earlier in the start order; only an optional port may have no provider.\<close>

theorem build_resolves_every_port:
  assumes "build url r account en vals = Inr rt" and "distinct (keys r)"
  shows "distinct (rt_order rt) \<and> set (rt_order rt) = set (enabled_ids r en) \<and> each_after (ports_before rt) (rt_order rt)
    \<and> (\<forall>n i. map_of (rt_providers rt) n = Some i \<longleftrightarrow> i \<in> set (rt_order rt) \<and> n \<in> set (provided_names (rreg rt i)))"
  using build_wf [OF assms] unfolding rt_wf_def by blast

section \<open>Start\<close>

text \<open>A component that comes up when everything it needs does, and one that does come up.\<close>

definition own_ok :: "cworld \<Rightarrow> string \<Rightarrow> registration \<Rightarrow> bool" where
  "own_ok w i m \<longleftrightarrow> cw_new w i = None \<and> cw_init w i = None \<and> set (provided_names m) \<subseteq> set (init_bindings w i m) \<and> cw_start w i = None"

inductive healthy :: "cworld \<Rightarrow> runtime \<Rightarrow> string \<Rightarrow> bool" for w rt where
  "own_ok w i (rreg rt i) \<Longrightarrow>
   (\<And>q. q \<in> set (rg_requires (rreg rt i)) \<Longrightarrow> \<not> rq_optional q \<Longrightarrow> healthy w rt (the (map_of (rt_providers rt) (pt_name (rq_port q))))) \<Longrightarrow>
   healthy w rt i"

definition needs_met :: "cworld \<Rightarrow> runtime \<Rightarrow> string \<Rightarrow> bool" where
  "needs_met w rt i \<longleftrightarrow> (\<forall>q \<in> set (rg_requires (rreg rt i)). \<not> rq_optional q \<longrightarrow> healthy w rt (the (map_of (rt_providers rt) (pt_name (rq_port q)))))"

lemma healthy_iff: "healthy w rt i \<longleftrightarrow> own_ok w i (rreg rt i) \<and> needs_met w rt i"
  by (subst healthy.simps) (auto simp: needs_met_def)

definition outcome :: "cworld \<Rightarrow> runtime \<Rightarrow> string \<Rightarrow> lifecycle" where
  "outcome w rt i = (if healthy w rt i then Running else if needs_met w rt i then Failed else Blocked)"

lemma init_bindings_declared: "set (init_bindings w i m) \<subseteq> set (provided_names m)"
proof -
  have "set (fold (\<lambda>(n, ok) bs. case kernel_provide i m n ok bs of Inr bs' \<Rightarrow> bs' | Inl _ \<Rightarrow> bs) xs bs) \<subseteq> set bs \<union> set (provided_names m)" for xs bs
  proof (induction xs arbitrary: bs)
    case (Cons x xs)
    obtain n ok where x: "x = (n, ok)" by (cases x)
    define bs1 where "bs1 = (case kernel_provide i m n ok bs of Inr bs' \<Rightarrow> bs' | Inl _ \<Rightarrow> bs)"
    have "set bs1 \<subseteq> set bs \<union> set (provided_names m)" by (simp add: bs1_def kernel_provide_def)
    with Cons.IH [of bs1] show ?case by (auto simp: x bs1_def)
  qed simp
  from this [of "cw_provide w i" "[]"] show ?thesis by (simp add: init_bindings_def)
qed

definition provider_of :: "runtime \<Rightarrow> req \<Rightarrow> string" where
  "provider_of rt q = the (map_of (rt_providers rt) (pt_name (rq_port q)))"

text \<open>A component is initialised only after the successful start of all it needs.\<close>

definition init_ok :: "cworld \<Rightarrow> runtime \<Rightarrow> call list \<Rightarrow> call \<Rightarrow> bool" where
  "init_ok w rt pre x \<longleftrightarrow> (case x of
     CInit i \<Rightarrow> \<forall>q \<in> set (rg_requires (rreg rt i)). \<not> rq_optional q \<longrightarrow> CStart (provider_of rt q) \<in> set pre \<and> cw_start w (provider_of rt q) = None
   | _ \<Rightarrow> True)"

text \<open>The state while a start is under way: \<open>P\<close> has been handled; \<open>rt0\<close> is the runtime before.\<close>

definition up_inv :: "cworld \<Rightarrow> runtime \<Rightarrow> string set \<Rightarrow> runtime \<Rightarrow> bool" where
  "up_inv w rt0 P rt \<longleftrightarrow> rt_order rt = rt_order rt0 \<and> rt_providers rt = rt_providers rt0
     \<and> (\<forall>i. map_option it_reg (map_of (rt_instances rt) i) = map_option it_reg (map_of (rt_instances rt0) i))
     \<and> (\<forall>i \<in> P. state_of rt i = Some (outcome w rt0 i))
     \<and> (\<forall>i. i \<notin> P \<longrightarrow> map_of (rt_instances rt) i = map_of (rt_instances rt0) i)
     \<and> set (rt_ports rt) = (\<Union>i \<in> {i \<in> P. healthy w rt0 i}. set (provided_names (rreg rt0 i)))
     \<and> (\<forall>i \<in> P. healthy w rt0 i \<longrightarrow> CStart i \<in> set (rt_log rt)) \<and> each_after (init_ok w rt0) (rt_log rt)"

lemma unmet_None: "unmet rt m = None \<longleftrightarrow> (\<forall>q \<in> set (rg_requires m). \<not> rq_optional q \<longrightarrow> state_of rt (provider_of rt q) = Some Running)"
  by (auto simp: unmet_def find_None_iff provider_of_def)

lemma run_component_reg: "run_component w i m ports = (m1, ports1, calls, e) \<Longrightarrow> it_reg m1 = it_reg m"
  by (auto simp: run_component_def Let_def split: option.splits)

lemma run_component_result:
  assumes "run_component w i m ports = (m1, ports1, calls, e)" "set (provided_names (it_reg m)) \<inter> set ports = {}"
  shows "(e = None \<longleftrightarrow> own_ok w i (it_reg m)) \<and> (own_ok w i (it_reg m) \<longrightarrow> set ports1 = set ports \<union> set (provided_names (it_reg m)))
    \<and> {n \<in> set ports1. n \<notin> set (provided_names (it_reg m))} = set ports
    \<and> (e = None \<longrightarrow> CStart i \<in> set calls) \<and> calls \<in> {[CFactory i], [CFactory i, CInit i], [CFactory i, CInit i, CStart i]}"
  using assms init_bindings_declared [of w i "it_reg m"]
  by (auto simp: run_component_def own_ok_def find_None_iff find_Some_iff split: option.splits)

lemma init_log_ok:
  assumes "each_after (init_ok w rt) log" "init_ok w rt log (CInit i)"
    "calls \<in> {[CFactory i], [CFactory i, CInit i], [CFactory i, CInit i, CStart i]}" "cleanup \<in> {[], [CStop i]}"
  shows "each_after (init_ok w rt) (log @ calls @ cleanup)"
proof -
  have s: "each_after (init_ok w rt) (xs @ [x])" if "each_after (init_ok w rt) xs" "x \<in> {CFactory i, CStart i, CStop i}" for xs x
    using that by (auto simp: each_after_snoc init_ok_def)
  have f: "each_after (init_ok w rt) (log @ [CFactory i])" using s assms(1) by blast
  have "init_ok w rt (log @ [CFactory i]) (CInit i)" using assms(2) by (auto simp: init_ok_def)
  then have i: "each_after (init_ok w rt) ((log @ [CFactory i]) @ [CInit i])" using f by (simp only: each_after_snoc)
  have "each_after (init_ok w rt) (log @ calls)" using assms(1,3) f i s [OF i, of "CStart i"] by auto
  then show ?thesis using assms(4) s [of "log @ calls" "CStop i"] by auto
qed

lemma start_failed_facts:
  "start_failed text w i e m = (m2, cleanup) \<Longrightarrow> it_reg m2 = it_reg m \<and> it_state m2 = Failed \<and> cleanup \<in> {[], [CStop i]}"
  by (auto simp: start_failed_def set_status_def Let_def split: if_splits)

lemma up_inv_step:
  assumes inv: "up_inv w rt0 P rt" and i: "i \<notin> P" "map_of (rt_instances rt0) i = Some m"
    and rt': "rt' = rt\<lparr>rt_instances := AList.update i m' (rt_instances rt), rt_ports := ports, rt_log := rt_log rt @ calls\<rparr>"
    and m': "it_reg m' = it_reg m" "it_state m' = outcome w rt0 i"
    and ports: "set ports = set (rt_ports rt) \<union> (if healthy w rt0 i then set (provided_names (rreg rt0 i)) else {})"
    and calls: "healthy w rt0 i \<Longrightarrow> CStart i \<in> set calls" "each_after (init_ok w rt0) (rt_log rt @ calls)"
  shows "up_inv w rt0 (insert i P) rt'"
proof -
  note I = inv [unfolded up_inv_def]
  have "set ports = (\<Union>j \<in> {j \<in> insert i P. healthy w rt0 j}. set (provided_names (rreg rt0 j)))"
    using I ports by (cases "healthy w rt0 i") auto
  moreover have "\<forall>j \<in> insert i P. healthy w rt0 j \<longrightarrow> CStart j \<in> set (rt_log rt @ calls)" using I calls(1) by auto
  moreover have "\<forall>j \<in> insert i P. state_of rt' j = Some (outcome w rt0 j)" using I m'(2) unfolding rt' state_of_def by (simp add: alist_simps)
  moreover have "\<forall>j. map_option it_reg (map_of (rt_instances rt') j) = map_option it_reg (map_of (rt_instances rt0) j)"
    using I m'(1) i(2) unfolding rt' by (simp add: alist_simps)
  moreover have "\<forall>j. j \<notin> insert i P \<longrightarrow> map_of (rt_instances rt') j = map_of (rt_instances rt0) j" using I unfolding rt' by (simp add: alist_simps)
  ultimately show ?thesis unfolding up_inv_def using I calls(2) by (simp add: rt')
qed

lemma unmet_iff:
  assumes inv: "up_inv w rt0 P rt" and needs: "\<And>q. q \<in> set (rg_requires (rreg rt0 i)) \<Longrightarrow> \<not> rq_optional q \<Longrightarrow> provider_of rt0 q \<in> P"
  shows "unmet rt (rreg rt0 i) = None \<longleftrightarrow> needs_met w rt0 i"
proof -
  note I = inv [unfolded up_inv_def]
  have run: "outcome w rt0 j = Running \<longleftrightarrow> healthy w rt0 j" for j by (simp add: outcome_def)
  have prov: "provider_of rt q = provider_of rt0 q" for q using I by (simp add: provider_of_def)
  show ?thesis using needs I run unfolding unmet_None prov needs_met_def provider_of_def [symmetric] by force
qed

lemma ports_disjoint:
  assumes "rt_wf rt0" "up_inv w rt0 P rt" "P \<subseteq> set (rt_order rt0)" "i \<in> set (rt_order rt0)" "i \<notin> P"
  shows "set (provided_names (rreg rt0 i)) \<inter> set (rt_ports rt) = {}"
proof (rule ccontr)
  assume "\<not> ?thesis"
  then obtain n j where "n \<in> set (provided_names (rreg rt0 i))" "j \<in> P" "n \<in> set (provided_names (rreg rt0 j))"
    using assms(2) unfolding up_inv_def by auto
  then have "map_of (rt_providers rt0) n = Some i" "map_of (rt_providers rt0) n = Some j" using assms(1,3,4) unfolding rt_wf_def by blast+
  with \<open>j \<in> P\<close> assms(5) show False by simp
qed

lemma start_component_up:
  assumes wf: "rt_wf rt0" and inv: "up_inv w rt0 P rt" and P: "P \<subseteq> set (rt_order rt0)"
    and i: "i \<in> set (rt_order rt0)" "i \<notin> P" "map_of (rt_instances rt0) i = Some m" "it_state m = Stopped"
    and needs: "\<And>q. q \<in> set (rg_requires (rreg rt0 i)) \<Longrightarrow> \<not> rq_optional q \<Longrightarrow> provider_of rt0 q \<in> P"
  shows "up_inv w rt0 (insert i P) (start_component text w i rt)"
proof -
  note I = inv [unfolded up_inv_def]
  have m: "map_of (rt_instances rt) i = Some m" using I i(2,3) by simp
  have reg: "rreg rt0 i = it_reg m" using i(3) by (simp add: rreg_def)
  have met: "unmet rt (it_reg m) = None \<longleftrightarrow> needs_met w rt0 i" using unmet_iff [OF inv, of i] needs by (simp add: reg)
  note disj = ports_disjoint [OF wf inv P i(1,2), unfolded reg]
  show ?thesis
  proof (cases "needs_met w rt0 i")
    case False
    with met obtain p where u: "unmet rt (it_reg m) = Some p" by auto
    have st: "start_component text w i rt = change i (set_status Blocked (''dependency unavailable: '' @ p)) rt"
      using m i(4) u by (simp add: start_component_def)
    from False have o: "outcome w rt0 i = Blocked" "\<not> healthy w rt0 i" by (simp_all add: outcome_def healthy_iff)
    show ?thesis unfolding st
      by (rule up_inv_step [OF inv i(2,3), where calls = "[]" and ports = "rt_ports rt" and m' = "set_status Blocked (''dependency unavailable: '' @ p) m"])
        (use o I m in \<open>simp_all add: change_def set_status_def\<close>)
  next
    case True
    let ?m = "set_status Starting [] (m\<lparr>it_context := True, it_canceled := False\<rparr>)"
    have rm: "it_reg ?m = it_reg m" by (simp add: set_status_def)
    obtain m1 ports calls e where r: "run_component w i ?m (rt_ports rt) = (m1, ports, calls, e)" by (cases "run_component w i ?m (rt_ports rt)")
    note res = run_component_result [OF r, unfolded rm, OF disj] and r1 = run_component_reg [OF r, unfolded rm]
    have pre: "init_ok w rt0 (rt_log rt) (CInit i)"
      using True I needs unfolding init_ok_def action.case call.case needs_met_def provider_of_def [symmetric] by (auto simp: healthy_iff own_ok_def)
    have h: "healthy w rt0 i \<longleftrightarrow> e = None" using True res by (simp add: healthy_iff reg)
    show ?thesis
    proof (cases e)
      case None
      then have st: "start_component text w i rt
          = rt\<lparr>rt_instances := AList.update i (set_status Running [] m1) (rt_instances rt), rt_ports := ports, rt_log := rt_log rt @ calls\<rparr>"
        using m i(4) True met r by (simp add: start_component_def)
      show ?thesis
        by (rule up_inv_step [OF inv i(2,3) st])
          (use None h r1 res reg I init_log_ok [OF _ pre, of calls "[]"] in \<open>auto simp: set_status_def outcome_def\<close>)
    next
      case (Some e')
      obtain m2 cleanup where f: "start_failed text w i e' m1 = (m2, cleanup)" by (cases "start_failed text w i e' m1")
      then have st: "start_component text w i rt = rt\<lparr>rt_instances := AList.update i m2 (rt_instances rt),
          rt_ports := filter (\<lambda>n. n \<notin> set (provided_names (it_reg m))) ports, rt_log := rt_log rt @ calls @ cleanup\<rparr>"
        using m i(4) True met r Some by (simp add: start_component_def)
      show ?thesis
        by (rule up_inv_step [OF inv i(2,3) st])
          (use Some h True r1 res reg I start_failed_facts [OF f] init_log_ok [OF _ pre, of calls cleanup] in \<open>auto simp: outcome_def\<close>)
    qed
  qed
qed

lemma start_fold_up:
  assumes "rt_wf rt0" "up_inv w rt0 {} rt" "\<And>i. i \<in> set (rt_order rt0) \<Longrightarrow> \<exists>m. map_of (rt_instances rt0) i = Some m \<and> it_state m = Stopped"
  shows "rt_order rt0 = ids @ rest \<Longrightarrow> up_inv w rt0 (set ids) (fold (start_component text w) ids rt)"
proof (induction ids arbitrary: rest rule: rev_induct)
  case (snoc i ids)
  then have inv: "up_inv w rt0 (set ids) (fold (start_component text w) ids rt)" by simp
  have o: "rt_order rt0 = ids @ i # rest" using snoc.prems by simp
  have io: "i \<in> set (rt_order rt0)" by (simp add: o)
  obtain m where m: "map_of (rt_instances rt0) i = Some m" "it_state m = Stopped" using assms(3) [OF io] by blast
  have before: "ports_before rt0 ids i" using assms(1) o unfolding rt_wf_def by (auto dest: each_after_split)
  have "provider_of rt0 q \<in> set ids" if "q \<in> set (rg_requires (rreg rt0 i))" "\<not> rq_optional q" for q
    using before that by (auto simp: ports_before_def port_met_def list_all_iff provider_of_def split: option.splits)
  moreover have "i \<notin> set ids" using assms(1) o by (auto simp: rt_wf_def)
  ultimately have "up_inv w rt0 (insert i (set ids)) (start_component text w i (fold (start_component text w) ids rt))"
    using o by (intro start_component_up [OF assms(1) inv _ io _ m]) (simp_all, blast)
  then show ?case by simp
qed (use assms(2) in simp)

text \<open>C25: starting a runtime isolates failures. A component ends up running exactly when its own construction, initialisation, port
  bindings and start succeed and all components providing its required ports run; one whose needs are met but that fails
  itself is reported as failed, and all others are blocked. No component is initialised before the successful start of
  everything it needs, and the bound ports are exactly those of the running components.\<close>

theorem start_isolates_failures:
  assumes "build url r account en vals = Inr rt" and "distinct (keys r)" and rt': "rt' = runtime_start text w rt"
  shows "(\<forall>i \<in> set (rt_order rt). state_of rt' i = Some (outcome w rt i))
    \<and> each_after (init_ok w rt) (rt_log rt')
    \<and> set (rt_ports rt') = (\<Union>i \<in> {i \<in> set (rt_order rt). healthy w rt i}. set (provided_names (rreg rt i)))"
proof -
  note b = build_wf [OF assms(1,2)]
  from build_unfold [OF assms(1)] have f: "\<not> rt_started rt" "\<not> rt_stopped rt" "\<not> rt_stopping rt" "rt_log rt = []" "rt_ports rt = []" by metis+
  then have "up_inv w rt {} (rt\<lparr>rt_started := True\<rparr>)" by (simp add: up_inv_def)
  with b have "up_inv w rt (set (rt_order rt)) (fold (start_component text w) (rt_order rt) (rt\<lparr>rt_started := True\<rparr>))"
    by (intro start_fold_up [where rest = "[]"]) (auto simp: fresh_inst_def)
  moreover have "rt' = fold (start_component text w) (rt_order rt) (rt\<lparr>rt_started := True\<rparr>)"
    using f by (simp add: rt' runtime_start_def start_locked_def)
  ultimately show ?thesis unfolding up_inv_def by blast
qed

definition demo_port :: port where
  "demo_port = \<lparr>pt_name = ''store'', pt_major = 1, pt_minor = 0, pt_type = Some ''Store'', pt_interface = True\<rparr>"

definition demo_registry :: registry where
  "demo_registry = [(''web'', \<lparr>rg_provides = [], rg_requires = [\<lparr>rq_port = demo_port, rq_optional = False\<rparr>], rg_config = [], rg_pages = []\<rparr>),
     (''db'', \<lparr>rg_provides = [demo_port], rg_requires = [], rg_config = [], rg_pages = []\<rparr>)]"

definition failing :: cworld where
  "failing = \<lparr>cw_new = (\<lambda>_. None), cw_provide = (\<lambda>i. if i = ''db'' then [(''store'', True)] else []), cw_init = (\<lambda>_. None),
     cw_start = (\<lambda>i. if i = ''db'' then Some (ErrMsg ''disk'') else None), cw_stop = (\<lambda>_. None), cw_close = None, cw_drain = (\<lambda>_. None), cw_runnables = (\<lambda>_. None)\<rparr>"

definition demo_build :: "runtime res" where
  "demo_build = build (\<lambda>_. None) demo_registry ''acc'' None []"

lemma demo_builds: "case demo_build of Inl _ \<Rightarrow> False | Inr rt \<Rightarrow> rt_order rt = [''db'', ''web'']
    \<and> map (state_of (runtime_start (\<lambda>_. []) failing rt)) [''db'', ''web''] = [Some Failed, Some Blocked]"
  by code_simp

theorem build_resolves_every_port_witness:
  "\<exists>rt. build (\<lambda>_. None) demo_registry ''acc'' None [] = Inr rt \<and> rt_order rt = [''db'', ''web''] \<and> each_after (ports_before rt) (rt_order rt)"
proof -
  obtain rt where rt: "build (\<lambda>_. None) demo_registry ''acc'' None [] = Inr rt" "rt_order rt = [''db'', ''web'']"
    using demo_builds by (auto simp: demo_build_def split: sum.splits)
  have "distinct (keys demo_registry)" by (simp add: demo_registry_def)
  from build_resolves_every_port [OF rt(1) this] rt show ?thesis by blast
qed

theorem start_isolates_failures_witness:
  "\<exists>rt rt'. build (\<lambda>_. None) demo_registry ''acc'' None [] = Inr rt \<and> rt' = runtime_start (\<lambda>_. []) failing rt \<and> state_of rt' ''web'' = Some Blocked
     \<and> outcome failing rt ''web'' = Blocked \<and> each_after (init_ok failing rt) (rt_log rt')"
proof -
  obtain rt where rt: "build (\<lambda>_. None) demo_registry ''acc'' None [] = Inr rt" "rt_order rt = [''db'', ''web'']"
    "state_of (runtime_start (\<lambda>_. []) failing rt) ''web'' = Some Blocked"
    using demo_builds by (auto simp: demo_build_def split: sum.splits)
  have d: "distinct (keys demo_registry)" by (simp add: demo_registry_def)
  note s = start_isolates_failures [OF rt(1) d refl, of "\<lambda>_. []" failing]
  have "state_of (runtime_start (\<lambda>_. []) failing rt) ''web'' = Some (outcome failing rt ''web'')" using s rt(2) by simp
  with rt s show ?thesis by auto
qed

section \<open>Stop\<close>

definition is_init :: "runtime \<Rightarrow> string \<Rightarrow> bool" where
  "is_init rt i \<longleftrightarrow> (case map_of (rt_instances rt) i of None \<Rightarrow> False | Some m \<Rightarrow> it_initialized m)"

definition consumes :: "runtime \<Rightarrow> string \<Rightarrow> string \<Rightarrow> bool" where
  "consumes rt c i \<longleftrightarrow> list_ex (\<lambda>q. map_of (rt_providers rt) (pt_name (rq_port q)) = Some i) (rg_requires (rreg rt c))"

text \<open>A component is stopped only after the successful stop of every initialised component that has one of its ports.\<close>

definition release_ok :: "cworld \<Rightarrow> runtime \<Rightarrow> call list \<Rightarrow> call \<Rightarrow> bool" where
  "release_ok w rt pre x \<longleftrightarrow> (\<exists>i. x = CStop i \<and> is_init rt i \<and> (\<forall>c \<in> set (rt_order rt). is_init rt c \<and> consumes rt c i \<longrightarrow> CStop c \<in> set pre \<and> cw_stop w c = None))"

lemma consumer_later:
  assumes "rt_wf rt" "rt_order rt = pre @ c # post" "consumes rt c i"
  shows "i \<in> set pre"
proof -
  have "ports_before rt pre c" using assms(1,2) unfolding rt_wf_def by (auto dest: each_after_split)
  with assms(3) show ?thesis by (auto simp: ports_before_def port_met_def consumes_def list_all_iff list_ex_iff split: option.splits)
qed

lemma release_loop_facts:
  "release_loop text w is rt = (rt', e) \<Longrightarrow> distinct is \<Longrightarrow>
     \<exists>k rest. is = k @ rest \<and> rt_log rt' = rt_log rt @ map CStop (filter (is_init rt) k) \<and> rt_stopped rt' = rt_stopped rt
       \<and> (\<forall>i. is_init rt' i \<longleftrightarrow> is_init rt i \<and> \<not> (i \<in> set k \<and> cw_stop w i = None))
       \<and> (\<forall>i \<in> set (butlast k). is_init rt i \<longrightarrow> cw_stop w i = None) \<and> (e = None \<longrightarrow> rest = [] \<and> (\<forall>i \<in> set k. is_init rt i \<longrightarrow> cw_stop w i = None))"
proof (induction "is" arbitrary: rt)
  case (Cons i ids)
  let ?good = "\<lambda>rt1. release_loop text w ids rt1 = (rt', e) \<and> rt_log rt1 = rt_log rt @ (if is_init rt i then [CStop i] else []) \<and> rt_stopped rt1 = rt_stopped rt
    \<and> (is_init rt i \<longrightarrow> cw_stop w i = None) \<and> (\<forall>j. is_init rt1 j \<longleftrightarrow> is_init rt j \<and> j \<noteq> i)"
  consider (fails) m e' where "map_of (rt_instances rt) i = Some m" "it_initialized m" "cw_stop w i = Some e'" | (goes) rt1 where "?good rt1"
  proof (cases "map_of (rt_instances rt) i")
    case None
    with Cons.prems(1) have "?good rt" by (auto simp: is_init_def)
    then show ?thesis by (rule that(2))
  next
    case (Some m)
    show ?thesis
    proof (cases "it_initialized m")
      case False
      with Some Cons.prems(1) have "?good (change i (set_status Stopped []) rt)" by (auto simp: is_init_def map_of_change set_status_def)
      then show ?thesis by (rule that(2))
    next
      case True
      show ?thesis
      proof (cases "cw_stop w i")
        case None
        with Some True Cons.prems(1) have "?good ((change i (\<lambda>m. set_status Stopped [] (m\<lparr>it_initialized := False\<rparr>)) (rt\<lparr>rt_log := rt_log rt @ [CStop i]\<rparr>))
            \<lparr>rt_ports := filter (\<lambda>n. n \<notin> set (provided_names (it_reg m))) (rt_ports rt)\<rparr>)"
          by (auto simp: is_init_def map_of_change set_status_def)
        then show ?thesis by (rule that(2))
      qed (use Some True that(1) in blast)
    qed
  qed
  then show ?case
  proof cases
    case fails
    with Cons.prems(1) have "rt_log rt' = rt_log rt @ [CStop i]" "e \<noteq> None" "rt_stopped rt' = rt_stopped rt" "\<forall>j. is_init rt' j = is_init rt j"
      by (auto simp: is_init_def map_of_change set_status_def split: option.splits if_splits)
    with fails show ?thesis by (intro exI [of _ "[i]"] exI [of _ ids]) (auto simp: is_init_def)
  next
    case (goes rt1)
    have "distinct ids" using Cons.prems(2) by simp
    from Cons.IH [OF conjunct1 [OF goes] this] obtain k rest where k: "ids = k @ rest" "rt_log rt' = rt_log rt1 @ map CStop (filter (is_init rt1) k)" "rt_stopped rt' = rt_stopped rt1"
      "\<forall>j. is_init rt' j \<longleftrightarrow> is_init rt1 j \<and> \<not> (j \<in> set k \<and> cw_stop w j = None)" "\<forall>j \<in> set (butlast k). is_init rt1 j \<longrightarrow> cw_stop w j = None"
      "e = None \<longrightarrow> rest = [] \<and> (\<forall>j \<in> set k. is_init rt1 j \<longrightarrow> cw_stop w j = None)" by blast
    have "i \<notin> set k" using Cons.prems(2) k(1) by auto
    from goes have g: "rt_log rt1 = rt_log rt @ (if is_init rt i then [CStop i] else [])" "rt_stopped rt1 = rt_stopped rt" "is_init rt i \<longrightarrow> cw_stop w i = None"
      "\<forall>j. is_init rt1 j \<longleftrightarrow> is_init rt j \<and> j \<noteq> i" by blast+
    have "filter (is_init rt1) k = filter (is_init rt) k" using g(4) \<open>i \<notin> set k\<close> by (intro filter_cong) auto
    then have log: "rt_log rt' = rt_log rt @ map CStop (filter (is_init rt) (i # k))" using k(2) g(1) by simp
    have inits: "\<forall>j. is_init rt' j \<longleftrightarrow> is_init rt j \<and> \<not> (j \<in> set (i # k) \<and> cw_stop w j = None)" 
    proof
      fix j show "is_init rt' j \<longleftrightarrow> is_init rt j \<and> \<not> (j \<in> set (i # k) \<and> cw_stop w j = None)"
        using spec [OF k(4), of j] spec [OF g(4), of j] g(3) by (cases "j = i") simp_all
    qed
    have "\<forall>j \<in> set (butlast (i # k)). is_init rt j \<longrightarrow> cw_stop w j = None"
    proof
      fix j assume "j \<in> set (butlast (i # k))"
      then have "j = i \<or> j \<in> set (butlast k)" by (auto split: if_splits)
      with k(5) g(3) spec [OF g(4), of j] show "is_init rt j \<longrightarrow> cw_stop w j = None" by blast
    qed
    moreover have "e = None \<longrightarrow> rest = [] \<and> (\<forall>j \<in> set (i # k). is_init rt j \<longrightarrow> cw_stop w j = None)"
      using k(6) g(3) by (simp add: g(4) [rule_format]) blast
    moreover have "i # ids = (i # k) @ rest" "rt_stopped rt' = rt_stopped rt" using k(1,3) g(2) by simp_all
    ultimately show ?thesis using log inits by blast
  qed
qed auto

lemma map_of_mapped: "map_of (map (\<lambda>(i, m). (i, f i m)) xs) i = map_option (f i) (map_of xs i)"
  by (induction xs) auto

lemma cancel_all_facts:
  "is_init (cancel_all rt) i = is_init rt i" "rt_log (cancel_all rt) = rt_log rt" "rt_order (cancel_all rt) = rt_order rt" "rt_stopped (cancel_all rt) = rt_stopped rt"
  by (auto simp: cancel_all_def is_init_def map_of_mapped set_status_def split: option.split)

lemma fail_all_facts: "is_init (fail_all d rt) i = is_init rt i" "rt_log (fail_all d rt) = rt_log rt" "rt_stopped (fail_all d rt) = rt_stopped rt"
  by (auto simp: fail_all_def is_init_def map_of_mapped set_status_def split: option.split)

lemma is_init_status [simp]: "is_init (change i (set_status st d) rt) j = is_init rt j"
  by (simp add: is_init_def map_of_change set_status_def split: option.split)

lemma drain_loop_facts:
  "drain_loop text w is rt = (rt', e) \<Longrightarrow> (\<forall>i. is_init rt' i = is_init rt i) \<and> rt_log rt' = rt_log rt \<and> rt_order rt' = rt_order rt \<and> rt_stopped rt' = rt_stopped rt
     \<and> (e = None \<longrightarrow> rt' = rt)"
proof (induction "is")
  case (Cons i ids)
  then show ?case by (auto split: option.splits if_splits)
qed simp

lemma filter_split: "filter P xs = pre @ x # post \<Longrightarrow> \<exists>ys zs. xs = ys @ x # zs \<and> pre = filter P ys \<and> P x"
proof (induction xs arbitrary: pre)
  case (Cons a xs)
  show ?case
  proof (cases "P a \<and> pre \<noteq> []")
    case True
    with Cons.prems obtain pre' where "pre = a # pre'" "filter P xs = pre' @ x # post" by (cases pre) auto
    with Cons.IH [of pre'] True show ?thesis by (metis append_Cons filter.simps(2))
  next
    case False
    show ?thesis
    proof (cases "P a")
      case True
      with False Cons.prems have "pre = []" "a = x" by auto
      with True show ?thesis by (intro exI [of _ "[]"] exI [of _ xs]) simp
    next
      case False
      with Cons.prems Cons.IH [of pre] obtain ys zs where "xs = ys @ x # zs" "pre = filter P ys" "P x" by auto
      with False show ?thesis by (intro exI [of _ "a # ys"] exI [of _ zs]) simp
    qed
  qed
qed simp

text \<open>Releasing in reverse start order puts consumers first.\<close>

lemma reverse_release_ok:
  assumes wf: "rt_wf rt" and k: "rev (rt_order rt) = k @ rest" and ok: "\<forall>i \<in> set (butlast k). is_init rt i \<longrightarrow> cw_stop w i = None"
  shows "each_after (release_ok w rt) (map CStop (filter (is_init rt) k))"
  unfolding each_after_def
proof (intro allI impI)
  fix pre x post assume sp: "map CStop (filter (is_init rt) k) = pre @ x # post"
  then obtain fpre i fpost where f: "filter (is_init rt) k = fpre @ i # fpost" "pre = map CStop fpre" "x = CStop i" by (auto simp: map_eq_append_conv map_eq_Cons_conv)
  from f(1) obtain k1 k2 where k1: "k = k1 @ i # k2" "fpre = filter (is_init rt) k1" "is_init rt i"
    using filter_split [OF f(1)] by blast
  have "CStop c \<in> set pre \<and> cw_stop w c = None" if c: "c \<in> set (rt_order rt)" "is_init rt c" "consumes rt c i" for c
  proof -
    obtain p q where o: "rt_order rt = p @ c # q" using c(1) by (meson split_list)
    have "i \<in> set p" using consumer_later [OF wf o c(3)] .
    then obtain p1 p2 where p: "p = p1 @ i # p2" by (meson split_list)
    have dist: "distinct (rt_order rt)" using wf by (simp add: rt_wf_def)
    have "rt_order rt = rev (k1 @ i # k2 @ rest)" using k k1(1) by (simp add: rev_swap)
    then have eq: "(rev rest @ rev k2) @ i # rev k1 = p1 @ i # (p2 @ c # q)" using o p by simp
    have "i \<notin> set p1" "i \<notin> set (p2 @ c # q)" using dist o p by auto
    then have "rev k1 = p2 @ c # q" using eq append_Cons_eq_iff [of i p1 "p2 @ c # q"] by metis
    then have "c \<in> set (rev k1)" by simp
    then have "c \<in> set k1" by simp
    moreover have "c \<in> set (butlast k)" using calculation k1(1) by (simp add: butlast_append)
    ultimately show ?thesis using ok c(2) f(2) k1(2) by auto
  qed
  then show "release_ok w rt pre x" using f(3) k1(3) by (auto simp: release_ok_def)
qed


text \<open>Starting keeps the port graph.\<close>

lemma rt_wf_cong:
  assumes "rt_order rt' = rt_order rt" "rt_providers rt' = rt_providers rt" "keys (rt_instances rt') = keys (rt_instances rt)"
    "\<And>i. i \<in> set (rt_order rt) \<Longrightarrow> rreg rt' i = rreg rt i" "rt_wf rt"
  shows "rt_wf rt'"
proof -
  have reg: "rreg rt' i = rreg rt i" if "map_of (rt_providers rt) n = Some i" for n i
    using assms(4,5) that unfolding rt_wf_def by blast
  have "ports_before rt' pre i" if "rt_order rt = pre @ i # post" for pre i post
  proof -
    have "ports_before rt pre i" using assms(5) that unfolding rt_wf_def by (auto dest: each_after_split)
    moreover have "rreg rt' i = rreg rt i" using assms(4) that by simp
    moreover have "port_met rt' pre q = port_met rt pre q" for q
    proof (cases "map_of (rt_providers rt) (pt_name (rq_port q))")
      case (Some j)
      then show ?thesis using reg [OF Some] by (simp add: port_met_def assms(2))
    qed (simp add: port_met_def assms(2))
    ultimately show ?thesis by (simp add: ports_before_def list_all_iff)
  qed
  then have "each_after (ports_before rt') (rt_order rt)" by (auto simp: each_after_def)
  moreover have "\<forall>i \<in> set (rt_order rt). \<forall>n \<in> set (provided_names (rreg rt' i)). map_of (rt_providers rt) n = Some i"
  proof (intro ballI)
    fix i n assume a: "i \<in> set (rt_order rt)" "n \<in> set (provided_names (rreg rt' i))"
    then have "n \<in> set (provided_names (rreg rt i))" using assms(4) [OF a(1)] by simp
    then show "map_of (rt_providers rt) n = Some i" using assms(5) a(1) unfolding rt_wf_def by blast
  qed
  moreover have "\<forall>n i. map_of (rt_providers rt) n = Some i \<longrightarrow> i \<in> set (rt_order rt) \<and> n \<in> set (provided_names (rreg rt' i))"
  proof (intro allI impI)
    fix n i assume a: "map_of (rt_providers rt) n = Some i"
    then show "i \<in> set (rt_order rt) \<and> n \<in> set (provided_names (rreg rt' i))" unfolding reg [OF a] using assms(5) unfolding rt_wf_def by blast
  qed
  ultimately show ?thesis using assms(5) [unfolded rt_wf_def] unfolding rt_wf_def assms(1,2,3) by blast
qed

lemma keys_update_member: "k \<in> set (keys al) \<Longrightarrow> keys (AList.update k v al) = keys al"
  by (simp add: AList.update_keys)

lemma start_component_cases:
  assumes "map_of (rt_instances rt) i = Some m"
  shows "start_component text w i rt = rt \<or> it_state m \<noteq> Running \<and> (\<exists>m' ports log. it_reg m' = it_reg m \<and> set log \<subseteq> {CFactory i, CInit i, CStart i, CStop i}
    \<and> start_component text w i rt = rt\<lparr>rt_instances := AList.update i m' (rt_instances rt), rt_ports := ports, rt_log := rt_log rt @ log\<rparr>)"
proof -
  let ?m = "set_status Starting [] (m\<lparr>it_context := True, it_canceled := False\<rparr>)"
  obtain m1 ports calls e where r: "run_component w i ?m (rt_ports rt) = (m1, ports, calls, e)" by (cases "run_component w i ?m (rt_ports rt)")
  have r1: "it_reg m1 = it_reg m" using run_component_reg [OF r] by (simp add: set_status_def)
  have c: "set calls \<subseteq> {CFactory i, CInit i, CStart i, CStop i}" using r by (auto simp: run_component_def split: option.splits)
  consider "it_state m = Running" | p where "it_state m \<noteq> Running" "unmet rt (it_reg m) = Some p" | "unmet rt (it_reg m) = None" "it_state m = Blocked"
    | "it_state m \<noteq> Running" "unmet rt (it_reg m) = None" "it_state m \<noteq> Blocked" "e = None"
    | e' where "it_state m \<noteq> Running" "unmet rt (it_reg m) = None" "it_state m \<noteq> Blocked" "e = Some e'"
    by (cases "unmet rt (it_reg m)"; cases e) blast+
  then show ?thesis
  proof cases
    case 2
    with assms show ?thesis
      by (intro disjI2 conjI exI [of _ "set_status Blocked (''dependency unavailable: '' @ p) m"] exI [of _ "rt_ports rt"] exI [of _ "[]"])
        (simp_all add: start_component_def change_def set_status_def)
  next
    case 4
    with assms r r1 c show ?thesis
      by (intro disjI2 conjI exI [of _ "set_status Running [] m1"] exI [of _ ports] exI [of _ calls]) (simp_all add: start_component_def set_status_def)
  next
    case (5 e')
    obtain m2 cleanup where f: "start_failed text w i e' m1 = (m2, cleanup)" by (cases "start_failed text w i e' m1")
    have st: "start_component text w i rt = rt\<lparr>rt_instances := AList.update i m2 (rt_instances rt),
        rt_ports := filter (\<lambda>n. n \<notin> set (provided_names (it_reg m))) ports, rt_log := rt_log rt @ calls @ cleanup\<rparr>"
      using 5 assms r f by (simp add: start_component_def)
    have "it_reg m2 = it_reg m" "set (calls @ cleanup) \<subseteq> {CFactory i, CInit i, CStart i, CStop i}" using start_failed_facts [OF f] r1 c by auto
    with st 5(1) show ?thesis by blast
  qed (use assms in \<open>simp_all add: start_component_def\<close>)
qed

lemma start_component_frame:
  "rt_order (start_component text w i rt) = rt_order rt \<and> rt_providers (start_component text w i rt) = rt_providers rt
     \<and> keys (rt_instances (start_component text w i rt)) = keys (rt_instances rt)
     \<and> (\<forall>j. map_option it_reg (map_of (rt_instances (start_component text w i rt)) j) = map_option it_reg (map_of (rt_instances rt) j))"
proof (cases "map_of (rt_instances rt) i")
  case None
  then show ?thesis by (simp add: start_component_def)
next
  case (Some m)
  have "keys (AList.update i x (rt_instances rt)) = keys (rt_instances rt)" for x using map_of_key [OF Some] by (intro keys_update_member) simp
  with start_component_cases [OF Some, of "text" w] Some show ?thesis by (elim disjE exE conjE) (simp_all add: alist_simps)
qed

lemma start_locked_frame:
  "rt_order (start_locked text w rt) = rt_order rt \<and> rt_providers (start_locked text w rt) = rt_providers rt
     \<and> keys (rt_instances (start_locked text w rt)) = keys (rt_instances rt)
     \<and> (\<forall>j. map_option it_reg (map_of (rt_instances (start_locked text w rt)) j) = map_option it_reg (map_of (rt_instances rt) j))"
proof -
  have "rt_order (fold (start_component text w) is rt) = rt_order rt \<and> rt_providers (fold (start_component text w) is rt) = rt_providers rt
     \<and> keys (rt_instances (fold (start_component text w) is rt)) = keys (rt_instances rt)
     \<and> (\<forall>j. map_option it_reg (map_of (rt_instances (fold (start_component text w) is rt)) j) = map_option it_reg (map_of (rt_instances rt) j))" for "is" and rt
    by (induction "is" arbitrary: rt) (simp_all add: start_component_frame)
  from this [of "rt_order rt" "rt\<lparr>rt_started := True\<rparr>"] show ?thesis by (simp add: start_locked_def)
qed

lemma start_locked_wf:
  assumes "rt_wf rt"
  shows "rt_wf (start_locked text w rt)"
proof (rule rt_wf_cong [OF _ _ _ _ assms])
  fix i assume "i \<in> set (rt_order rt)"
  then have "map_of (rt_instances rt) i \<noteq> None" using assms by (simp add: rt_wf_def map_of_eq_None_iff)
  then obtain m where "map_of (rt_instances rt) i = Some m" by blast
  moreover have "map_option it_reg (map_of (rt_instances (start_locked text w rt)) i) = map_option it_reg (map_of (rt_instances rt) i)"
    using start_locked_frame [of "text" w rt] by blast
  ultimately show "rreg (start_locked text w rt) i = rreg rt i" by (auto simp: rreg_def)
qed (use start_locked_frame [of "text" w rt] in blast)+

definition working :: cworld where
  "working = failing\<lparr>cw_start := (\<lambda>_. None)\<rparr>"

definition demo_started :: "runtime res" where
  "demo_started = (case build (\<lambda>_. None) demo_registry ''acc'' None [] of Inl e \<Rightarrow> Inl e | Inr rt \<Rightarrow> Inr (start_locked (\<lambda>_. []) working rt))"

lemma demo_stops: "case demo_started of Inl _ \<Rightarrow> False | Inr rt \<Rightarrow> \<not> rt_stopped rt \<and> snd (runtime_stop (\<lambda>_. []) working rt) = None
    \<and> rt_log (fst (runtime_stop (\<lambda>_. []) working rt)) = rt_log rt @ [CStop ''web'', CStop ''db'']"
  by code_simp


section \<open>Change of enablement\<close>

text \<open>The components that have to be restarted, as the least set.\<close>

inductive must_restart :: "runtime \<Rightarrow> runtime \<Rightarrow> string \<Rightarrow> bool" for rt desired where
  base: "affected_start rt desired i \<Longrightarrow> must_restart rt desired i"
| provider: "(i, m) \<in> set (rt_instances rt) \<Longrightarrow> q \<in> set (rg_requires (it_reg m)) \<Longrightarrow>
    map_of (rt_providers rt) (pt_name (rq_port q)) \<noteq> map_of (rt_providers desired) (pt_name (rq_port q)) \<Longrightarrow> must_restart rt desired i"
| closure: "(i, m) \<in> set (rt_instances rt) \<Longrightarrow> q \<in> set (rg_requires (it_reg m)) \<Longrightarrow>
    map_of (rt_providers rt) (pt_name (rq_port q)) = Some j \<Longrightarrow> must_restart rt desired j \<Longrightarrow> must_restart rt desired i"

lemma loses_port_iff:
  "loses_port rt desired aff m \<longleftrightarrow> (\<exists>q \<in> set (rg_requires (it_reg m)).
     map_of (rt_providers rt) (pt_name (rq_port q)) \<noteq> map_of (rt_providers desired) (pt_name (rq_port q))
     \<or> (\<exists>j. map_of (rt_providers rt) (pt_name (rq_port q)) = Some j \<and> aff j))"
  unfolding loses_port_def list_ex_iff Let_def by (intro bex_cong refl) (simp split: option.split)

lemma must_restart_key: "must_restart rt desired i \<Longrightarrow> \<exists>m. (i, m) \<in> set (rt_instances rt)"
  by (induction rule: must_restart.induct) (auto simp: affected_start_def dest: map_of_SomeD split: option.splits)

lemma affected_pass_sound:
  assumes "\<And>i. aff i \<Longrightarrow> must_restart rt desired i" "affected_pass rt desired aff i"
  shows "must_restart rt desired i"
proof -
  have "(\<And>i. aff i \<Longrightarrow> must_restart rt desired i) \<Longrightarrow> set ms \<subseteq> set (rt_instances rt) \<Longrightarrow>
      fold (\<lambda>(i, m) aff. if aff i \<or> \<not> loses_port rt desired aff m then aff else aff(i := True)) ms aff i \<Longrightarrow> must_restart rt desired i" for ms aff i
  proof (induction ms arbitrary: aff)
    case (Cons x ms)
    obtain j m where x: "x = (j, m)" by (cases x)
    let ?aff = "if aff j \<or> \<not> loses_port rt desired aff m then aff else aff(j := True)"
    have "must_restart rt desired k" if "?aff k" for k
    proof (cases "aff k")
      case True
      then show ?thesis by (rule Cons.prems(1))
    next
      case False
      with that have "k = j" "loses_port rt desired aff m" by (auto split: if_splits)
      moreover have "(j, m) \<in> set (rt_instances rt)" using Cons.prems(2) x by simp
      ultimately show ?thesis using Cons.prems(1) unfolding loses_port_iff by (meson must_restart.intros(2,3))
    qed
    moreover have "fold (\<lambda>(i, m) aff. if aff i \<or> \<not> loses_port rt desired aff m then aff else aff(i := True)) ms ?aff i" using Cons.prems(3) by (simp add: x)
    ultimately show ?case using Cons.IH [of ?aff] Cons.prems(2) by simp
  qed simp
  from this [of aff "rt_instances rt" i] assms show ?thesis by (simp add: affected_pass_def)
qed

lemma affected_pass_complete:
  assumes "(i, m) \<in> set (rt_instances rt)" "loses_port rt desired aff m"
  shows "affected_pass rt desired aff i"
proof -
  let ?f = "\<lambda>(i, m) aff. if aff i \<or> \<not> loses_port rt desired aff m then aff else aff(i := True)"
  have mono: "aff i \<Longrightarrow> fold ?f ms aff i" for ms aff i
  proof (induction ms arbitrary: aff)
    case (Cons x ms)
    show ?case unfolding fold.simps comp_apply by (rule Cons.IH) (simp add: Cons.prems split: prod.split)
  qed simp
  obtain ms ns where s: "rt_instances rt = ms @ (i, m) # ns" using assms(1) by (meson split_list)
  have "loses_port rt desired (fold ?f ms aff) m" using assms(2) mono [of aff _ ms] unfolding loses_port_iff by blast
  then have "?f (i, m) (fold ?f ms aff) i" by simp
  then have "fold ?f ns (?f (i, m) (fold ?f ms aff)) i" by (rule mono)
  then show ?thesis by (simp add: affected_pass_def s)
qed

lemma affected_loop_iff:
  "(\<And>i. aff i \<Longrightarrow> must_restart rt desired i) \<Longrightarrow> (\<And>i. affected_start rt desired i \<Longrightarrow> aff i) \<Longrightarrow>
     affected_loop rt desired aff i \<longleftrightarrow> must_restart rt desired i"
proof (induction rt desired aff arbitrary: i rule: affected_loop.induct)
  case (1 rt desired aff)
  let ?aff = "affected_pass rt desired aff"
  have sound: "must_restart rt desired k" if "?aff k" for k using affected_pass_sound [OF "1.prems"(1) that] .
  have start: "?aff k" if "affected_start rt desired k" for k using "1.prems"(2) [OF that] by (rule affected_pass_mono)
  show ?case
  proof (cases "list_ex (\<lambda>i. \<not> aff i \<and> ?aff i) (keys (rt_instances rt))")
    case True
    with "1.IH" [OF refl True sound start] show ?thesis by (subst affected_loop.simps) simp
  next
    case False
    have stable: "aff k" if "?aff k" "(k, m) \<in> set (rt_instances rt)" for k m using False that by (force simp: list_ex_iff)
    have "?aff k" if "must_restart rt desired k" for k
      using that
    proof induction
      case (base i)
      then show ?case by (rule start)
    next
      case (provider i m q)
      then show ?case by (intro affected_pass_complete [of i m]) (auto simp: loses_port_iff)
    next
      case (closure i m q j)
      obtain mj where "(j, mj) \<in> set (rt_instances rt)" using must_restart_key [OF closure.hyps(4)] by blast
      then have "aff j" using stable closure.IH by blast
      then have "loses_port rt desired aff m" unfolding loses_port_iff using closure.hyps(2,3) by blast
      with closure.hyps(1) show ?case by (rule affected_pass_complete)
    qed
    with sound False show ?thesis by (subst affected_loop.simps) auto
  qed
qed

lemma affected_iff: "affected rt desired i \<longleftrightarrow> must_restart rt desired i"
  unfolding affected_def by (rule affected_loop_iff) (auto intro: base)

fun call_id :: "call \<Rightarrow> string" where
  "call_id (CFactory i) = i" | "call_id (CInit i) = i" | "call_id (CStart i) = i" | "call_id (CStop i) = i"
| "call_id (CPrepare i) = i" | "call_id (CCommit i) = i" | "call_id (CReconfigure i) = i"

definition untouched :: "string \<Rightarrow> runtime \<Rightarrow> runtime \<Rightarrow> bool" where
  "untouched i rt rt' \<longleftrightarrow> map_of (rt_instances rt') i = map_of (rt_instances rt) i \<and> (\<exists>ext. rt_log rt' = rt_log rt @ ext \<and> i \<notin> call_id ` set ext)"

lemma untouched_refl: "untouched i rt rt"
  by (auto simp: untouched_def)

lemma untouched_trans: "untouched i a b \<Longrightarrow> untouched i b c \<Longrightarrow> untouched i a c"
  by (fastforce simp: untouched_def)

lemma stop_affected_untouched: "stop_affected w aff is rt = (rt', e) \<Longrightarrow> \<not> aff i \<Longrightarrow> untouched i rt rt'"
proof (induction "is" arbitrary: rt)
  case (Cons j js)
  show ?case
  proof (cases "map_of (rt_instances rt) j = None \<or> \<not> aff j")
    case True
    with Cons show ?thesis by (auto split: option.splits)
  next
    case False
    then obtain m where m: "map_of (rt_instances rt) j = Some m" "aff j" by (auto simp: not_None_eq)
    define rt1 where "rt1 = (if it_initialized m then rt\<lparr>rt_log := rt_log rt @ [CStop j]\<rparr> else rt)"
    define rt2 where "rt2 = (change j (\<lambda>m. set_status Stopped [] (m\<lparr>it_initialized := False\<rparr>)) rt1)
       \<lparr>rt_ports := filter (\<lambda>n. n \<notin> set (provided_names (it_reg m))) (rt_ports rt1)\<rparr>"
    have ij: "i \<noteq> j" using m(2) Cons.prems(2) by blast
    have t1: "untouched i rt rt1" using ij by (auto simp: untouched_def rt1_def)
    have t2: "untouched i rt rt2" using ij by (auto simp: untouched_def rt2_def rt1_def map_of_change)
    from Cons.prems(1) m have "rt' = rt \<or> rt' = rt1 \<or> stop_affected w aff js rt2 = (rt', e)"
      by (auto simp: rt1_def rt2_def split: option.splits if_splits)
    then show ?thesis using untouched_refl t1 t2 Cons.IH [OF _ Cons.prems(2), of rt2] untouched_trans by blast
  qed
qed (simp add: untouched_refl)

lemma start_locked_untouched:
  assumes "map_of (rt_instances rt) i = Some m" "it_state m = Running"
  shows "untouched i rt (start_locked text w rt)"
proof -
  have "untouched i rt0 (start_component text w j rt0)" if "map_of (rt_instances rt0) i = Some m" for rt0 j
  proof (cases "map_of (rt_instances rt0) j")
    case None
    then show ?thesis by (simp add: start_component_def untouched_refl)
  next
    case (Some mj)
    show ?thesis
    proof (cases "j = i")
      case True
      with that assms(2) show ?thesis by (simp add: start_component_def untouched_refl)
    next
      case False
      then show ?thesis using start_component_cases [OF Some, of "text" w] untouched_refl by (auto simp: untouched_def alist_simps) fastforce
    qed
  qed
  note one = this
  have "map_of (rt_instances rt0) i = Some m \<Longrightarrow> untouched i rt0 (fold (start_component text w) js rt0)" for rt0 js
  proof (induction js arbitrary: rt0)
    case (Cons j js)
    have "map_of (rt_instances (start_component text w j rt0)) i = Some m" using one [OF Cons.prems, of j] Cons.prems by (simp add: untouched_def)
    from untouched_trans [OF one [OF Cons.prems] Cons.IH [OF this]] show ?case by simp
  qed (simp add: untouched_refl)
  from this [of "rt\<lparr>rt_started := True\<rparr>" "rt_order rt"] assms(1) show ?thesis by (simp add: start_locked_def untouched_def)
qed

text \<open>Changing which components are enabled leaves the others alone. A component that runs, stays enabled, keeps the provider of
  each of its ports, and whose providers do so too, transitively, keeps its instance, state and configuration, and none
  of its functions is called, whether the change succeeds or not; its ports stay with the providers it was bound to.\<close>

theorem enablement_change_is_local:
  assumes "reconcileComponents text ctx w desired rt = (rt', errs)" and "map_of (rt_instances rt) i = Some m" and "\<not> must_restart rt desired i"
  shows "untouched i rt rt' \<and> map_of (rt_instances desired) i \<noteq> None
    \<and> (\<forall>q \<in> set (rg_requires (it_reg m)). map_of (rt_providers desired) (pt_name (rq_port q)) = map_of (rt_providers rt) (pt_name (rq_port q))
         \<and> (\<forall>j. map_of (rt_providers rt) (pt_name (rq_port q)) = Some j \<longrightarrow> \<not> must_restart rt desired j))"
proof -
  define aff where "aff = affected rt desired"
  have na: "\<not> aff i" using assms(3) by (simp add: aff_def affected_iff)
  have "\<not> affected_start rt desired i" using assms(3) base by blast
  then have st: "it_state m = Running" "map_of (rt_instances desired) i \<noteq> None" using assms(2) by (simp_all add: affected_start_def)
  have mem: "(i, m) \<in> set (rt_instances rt)" using assms(2) by (rule map_of_SomeD)
  have marked: "untouched i rt (mark_affected aff rt)" using na by (simp add: untouched_def mark_affected_def map_of_mapped map_option_case split: option.split)
  obtain rt1 e where s: "stop_affected w aff (rev (rt_order rt)) (mark_affected aff rt) = (rt1, e)" by fastforce
  have t1: "untouched i rt rt1" using marked stop_affected_untouched [OF s na] untouched_trans by blast
  have "untouched i rt1 (adopt aff desired rt1)" "map_of (rt_instances (adopt aff desired rt1)) i = Some m"
    using st(2) na t1 assms(2) by (auto simp: untouched_def adopt_def map_of_mapped)
  then have t2: "untouched i rt (start_locked text w (adopt aff desired rt1))"
    using start_locked_untouched st(1) t1 untouched_trans by blast
  have "untouched i rt rt'" using assms(1) s t1 t2 untouched_refl
    by (auto simp: reconcileComponents_def aff_def [symmetric] split: option.splits if_splits)
  moreover have "map_of (rt_providers desired) (pt_name (rq_port q)) = map_of (rt_providers rt) (pt_name (rq_port q))"
    and "map_of (rt_providers rt) (pt_name (rq_port q)) = Some j \<Longrightarrow> \<not> must_restart rt desired j" if "q \<in> set (rg_requires (it_reg m))" for q j
    using assms(3) provider [OF mem that, of desired] closure [OF mem that, of j desired] by metis+
  ultimately show ?thesis using st(2) by blast
qed

definition demo_desired :: "runtime res" where
  "demo_desired = build (\<lambda>_. None) demo_registry ''acc'' (Some [(''db'', True)]) []"

lemma demo_unaffected: "case (demo_started, demo_desired) of (Inr rt, Inr d) \<Rightarrow> \<not> affected rt d ''db'' \<and> affected rt d ''web''
    \<and> map_option it_state (map_of (rt_instances rt) ''db'') = Some Running | _ \<Rightarrow> False"
  by code_simp

theorem enablement_change_is_local_witness:
  "\<exists>rt desired. must_restart rt desired ''web'' \<and> \<not> must_restart rt desired ''db'' \<and> state_of rt ''db'' = Some Running
     \<and> untouched ''db'' rt (fst (reconcileComponents (\<lambda>_. []) None working desired rt))"
proof -
  obtain rt d where s: "demo_started = Inr rt" "demo_desired = Inr d" using demo_unaffected by (auto split: sum.splits)
  from demo_unaffected have a: "\<not> must_restart rt d ''db''" "must_restart rt d ''web''" and st: "map_option it_state (map_of (rt_instances rt) ''db'') = Some Running"
    unfolding s by (simp_all add: affected_iff)
  then obtain m where m: "map_of (rt_instances rt) ''db'' = Some m" by blast
  obtain rt' errs where r: "reconcileComponents (\<lambda>_. []) None working d rt = (rt', errs)" by fastforce
  from enablement_change_is_local [OF r m a(1)] r a st show ?thesis by (intro exI [of _ rt] exI [of _ d]) (simp add: state_of_def)
qed

end
