(* ===== verification/Forward_Rules.thy ===== *)
theory Forward_Rules
  imports Dependency_Order Target_Path
begin

text \<open>
  \<open>application/forward.rules\<close>: the policy that decides where a message is forwarded to. It builds an immutable snapshot
  from a list of rules and answers lookups from it.
\<close>

section \<open>Forward rules\<close>

text \<open>A chat reference is \<open>kind:id\<close> with a canonical positive id, or \<open>self\<close> as a target.\<close>

record forwardRule =
  rule_id :: string
  rule_name :: string
  rule_enabled :: bool
  rule_sources :: "string list"
  rule_targets :: "string list"
  rule_mode :: string
  rule_silent :: bool

record destination =
  dst_rule :: string
  dst_target :: string
  dst_mode :: string
  dst_silent :: bool

type_synonym routes = "(string \<times> destination list) list"

definition validRef :: "string \<Rightarrow> bool \<Rightarrow> bool" where
  "validRef ref self =
     (if self \<and> ref = ''self'' then True
      else case split_on (CHR '':'') ref of
             [kind, i] \<Rightarrow> kind \<in> {''user'', ''chat'', ''channel''}
               \<and> (case parse_int64 i of None \<Rightarrow> False | Some n \<Rightarrow> 0 < n \<and> fmt_int n = i)
           | _ \<Rightarrow> False)"

text \<open>\<open>utf8.RuneCountInString\<close>.\<close>

function rune_count :: "string \<Rightarrow> nat" where
  "rune_count s = (if s = [] then 0 else Suc (rune_count (drop (fst (decode_rune s)) s)))"
  by pat_completeness auto
termination
  by (relation "measure length") (auto simp: decode_rune_pos)

declare rune_count.simps [simp del]

definition routes_of :: "routes \<Rightarrow> string \<Rightarrow> destination list" where
  "routes_of next s = (case map_of next s of None \<Rightarrow> [] | Some ds \<Rightarrow> ds)"

definition dest :: "forwardRule \<Rightarrow> string \<Rightarrow> destination" where
  "dest r t = \<lparr>dst_rule = rule_id r, dst_target = t, dst_mode = rule_mode r, dst_silent = rule_silent r\<rparr>"

fun add_targets :: "forwardRule \<Rightarrow> string \<Rightarrow> string list \<Rightarrow> routes \<Rightarrow> routes res" where
  "add_targets r s [] next = Inr next"
| "add_targets r s (t # ts) next =
     (if \<not> validRef t True \<or> s = t then Inl (ErrMsg (''invalid target or forward to itself: '' @ t))
      else if \<not> rule_enabled r then add_targets r s ts next
      else if list_ex (\<lambda>d. dst_target d = t) (routes_of next s) then add_targets r s ts next
      else add_targets r s ts (AList.update s (routes_of next s @ [dest r t]) next))"

fun add_sources :: "forwardRule \<Rightarrow> string list \<Rightarrow> routes \<Rightarrow> routes res" where
  "add_sources r [] next = Inr next"
| "add_sources r (s # ss) next =
     (if \<not> validRef s False then Inl (ErrMsg (''invalid source: '' @ s))
      else case add_targets r s (rule_targets r) next of Inl e \<Rightarrow> Inl e | Inr next1 \<Rightarrow> add_sources r ss next1)"

definition check_rule :: "forwardRule \<Rightarrow> string list \<Rightarrow> err option" where
  "check_rule r ids =
     (if trim_space (rule_id r) = [] \<or> rule_id r \<in> set ids then Some (ErrMsg (''empty or duplicate rule id: '' @ rule_id r))
      else if 100 < rune_count (rule_name r) \<or> 500 < length (rule_sources r) \<or> 100 < length (rule_targets r)
      then Some (ErrMsg (rule_id r @ '': name or number of sources and targets too long''))
      else if rule_sources r = [] \<or> rule_targets r = [] then Some (ErrMsg (rule_id r @ '': sources and targets are required''))
      else if rule_mode r \<noteq> ''default'' \<and> rule_mode r \<noteq> ''clone'' then Some (ErrMsg (rule_id r @ '': invalid mode''))
      else None)"

fun add_rules :: "forwardRule list \<Rightarrow> string list \<Rightarrow> routes \<Rightarrow> routes res" where
  "add_rules [] ids next = Inr next"
| "add_rules (r # rs) ids next =
     (case check_rule r ids of
        Some e \<Rightarrow> Inl e
      | None \<Rightarrow> (case add_sources r (rule_sources r) next of Inl e \<Rightarrow> Inl e | Inr next1 \<Rightarrow> add_rules rs (rule_id r # ids) next1))"

text \<open>
  \<open>cycle\<close> is the search of \<^theory_text>\<open>Dependency_Order\<close> on the routes, where a target without routes has none
  (\<open>next[target]\<close> is nil): it becomes an entry with an empty list.
\<close>

definition route_graph :: "routes \<Rightarrow> graph" where
  "route_graph next = map (\<lambda>(s, ds). (s, map dst_target ds)) next
     @ map (\<lambda>t. (t, [])) (filter (\<lambda>t. map_of next t = None) (concat (map (\<lambda>(_, ds). map dst_target ds) next)))"

definition prepare_rules :: "forwardRule list \<Rightarrow> routes res" where
  "prepare_rules rules =
     (if 200 < length rules then Inl (ErrMsg ''at most 200 forward rules'')
      else case add_rules rules [] [] of
             Inl e \<Rightarrow> Inl e
           | Inr next \<Rightarrow>
               (case order_loop (route_graph next) (keys next) [] of
                  Inl _ \<Rightarrow> Inl (ErrMsg ''the forward rules form a cycle'')
                | Inr _ \<Rightarrow> Inr next))"

text \<open>\<open>Destinations\<close>: the current snapshot, nil before the first.\<close>

definition destinations :: "routes option \<Rightarrow> string \<Rightarrow> destination list" where
  "destinations current s = (case current of None \<Rightarrow> [] | Some next \<Rightarrow> routes_of next s)"

section \<open>The routes are those of the first matching rules\<close>

definition offers :: "forwardRule \<Rightarrow> string \<Rightarrow> string \<Rightarrow> bool" where
  "offers r s t \<longleftrightarrow> rule_enabled r \<and> s \<in> set (rule_sources r) \<and> t \<in> set (rule_targets r)"

text \<open>The pairs of the enabled rules in the order of the loops.\<close>

definition pairs :: "forwardRule \<Rightarrow> (string \<times> destination) list" where
  "pairs r = (if rule_enabled r then concat (map (\<lambda>s. map (\<lambda>t. (s, dest r t)) (rule_targets r)) (rule_sources r)) else [])"

definition first_of :: "(string \<times> destination) list \<Rightarrow> routes \<Rightarrow> bool" where
  "first_of es next \<longleftrightarrow> (\<forall>s. distinct (map dst_target (routes_of next s))
     \<and> (\<forall>d. d \<in> set (routes_of next s) \<longleftrightarrow> find (\<lambda>(s', d'). s' = s \<and> dst_target d' = dst_target d) es = Some (s, d)))"

lemma routes_of_update: "routes_of (AList.update s ds next) s' = (if s' = s then ds else routes_of next s')"
  by (simp add: routes_of_def alist_simps)

lemma find_append: "find P (xs @ ys) = (case find P xs of None \<Rightarrow> find P ys | Some x \<Rightarrow> Some x)"
  by (induction xs) auto

lemma first_of_known:
  assumes "first_of es next" "list_ex (\<lambda>d. dst_target d = dst_target d0) (routes_of next s)"
  shows "first_of (es @ [(s, d0)]) next"
proof -
  from assms obtain d1 where d1: "find (\<lambda>(s', d'). s' = s \<and> dst_target d' = dst_target d1) es = Some (s, d1)" "dst_target d1 = dst_target d0"
    by (auto simp: first_of_def list_ex_iff)
  have eq: "find (\<lambda>(s', d'). s' = s'' \<and> dst_target d' = dst_target d) (es @ [(s, d0)]) = find (\<lambda>(s', d'). s' = s'' \<and> dst_target d' = dst_target d) es" for s'' d
    using d1 by (cases "s'' = s \<and> dst_target d = dst_target d0") (auto simp: find_append split: option.split)
  show ?thesis unfolding first_of_def eq using assms(1) unfolding first_of_def .
qed

lemma first_of_new:
  assumes "first_of es next" "\<not> list_ex (\<lambda>d. dst_target d = dst_target d0) (routes_of next s)"
  shows "first_of (es @ [(s, d0)]) (AList.update s (routes_of next s @ [d0]) next)"
proof -
  have none: "find (\<lambda>(s', d'). s' = s \<and> dst_target d' = dst_target d0) es = None"
  proof (rule ccontr)
    assume "\<not> ?thesis"
    then obtain s1 d1 where f: "find (\<lambda>(s', d'). s' = s \<and> dst_target d' = dst_target d0) es = Some (s1, d1)" by auto
    then have e: "s1 = s" "dst_target d1 = dst_target d0" by (auto simp: find_Some_iff)
    with f have "find (\<lambda>(s', d'). s' = s \<and> dst_target d' = dst_target d1) es = Some (s, d1)" by simp
    then have "d1 \<in> set (routes_of next s)" using assms(1) unfolding first_of_def by blast
    with e(2) assms(2) show False by (auto simp: list_ex_iff)
  qed
  have old: "find (\<lambda>(s', d'). s' = s'' \<and> dst_target d' = dst_target d) (es @ [(s, d0)])
      = (if s'' = s \<and> dst_target d = dst_target d0 then Some (s, d0) else find (\<lambda>(s', d'). s' = s'' \<and> dst_target d' = dst_target d) es)" for s'' d
    using none by (auto simp: find_append split: option.split)
  show ?thesis unfolding first_of_def routes_of_update old
    using assms by (auto simp: first_of_def list_ex_iff)
qed

lemma add_targets_first:
  "add_targets r s ts next = Inr next' \<Longrightarrow> first_of es next \<Longrightarrow>
     first_of (es @ (if rule_enabled r then map (\<lambda>t. (s, dest r t)) ts else [])) next' \<and> list_all (\<lambda>t. validRef t True \<and> s \<noteq> t) ts"
proof (induction ts arbitrary: "next" es)
  case (Cons t ts)
  from Cons.prems(1) have ok: "validRef t True" "s \<noteq> t" by (auto split: if_splits)
  show ?case
  proof (cases "rule_enabled r")
    case False
    with Cons.IH [of "next" es] Cons.prems ok show ?thesis by simp
  next
    case True
    let ?next = "if list_ex (\<lambda>d. dst_target d = t) (routes_of next s) then next else AList.update s (routes_of next s @ [dest r t]) next"
    have "first_of (es @ [(s, dest r t)]) ?next"
      using first_of_known [OF Cons.prems(2), of "dest r t" s] first_of_new [OF Cons.prems(2), of "dest r t" s] by (simp add: dest_def)
    moreover have "add_targets r s ts ?next = Inr next'" using Cons.prems(1) ok True by (auto split: if_splits)
    ultimately show ?thesis using Cons.IH [of ?next "es @ [(s, dest r t)]"] True ok by simp
  qed
qed simp

lemma add_sources_first:
  "add_sources r ss next = Inr next' \<Longrightarrow> first_of es next \<Longrightarrow>
     first_of (es @ (if rule_enabled r then concat (map (\<lambda>s. map (\<lambda>t. (s, dest r t)) (rule_targets r)) ss) else [])) next'
     \<and> list_all (\<lambda>s. validRef s False \<and> list_all (\<lambda>t. validRef t True \<and> s \<noteq> t) (rule_targets r)) ss"
proof (induction ss arbitrary: "next" es)
  case (Cons s ss)
  from Cons.prems(1) obtain next1 where n: "validRef s False" "add_targets r s (rule_targets r) next = Inr next1" "add_sources r ss next1 = Inr next'"
    by (auto split: if_splits sum.splits)
  from add_targets_first [OF n(2) Cons.prems(2)]
  have t: "first_of (es @ (if rule_enabled r then map (\<lambda>t. (s, dest r t)) (rule_targets r) else [])) next1" "list_all (\<lambda>t. validRef t True \<and> s \<noteq> t) (rule_targets r)"
    by blast+
  from Cons.IH [OF n(3) t(1)] t(2) n(1) show ?case by (cases "rule_enabled r") simp_all
qed simp

lemma add_rules_first:
  "add_rules rs ids next = Inr next' \<Longrightarrow> first_of es next \<Longrightarrow>
     first_of (es @ concat (map pairs rs)) next'
     \<and> list_all (\<lambda>r. list_all (\<lambda>s. validRef s False \<and> list_all (\<lambda>t. validRef t True \<and> s \<noteq> t) (rule_targets r)) (rule_sources r)) rs"
proof (induction rs arbitrary: ids "next" es)
  case (Cons r rs)
  from Cons.prems(1) obtain next1 where n: "add_sources r (rule_sources r) next = Inr next1" "add_rules rs (rule_id r # ids) next1 = Inr next'"
    by (auto split: option.splits sum.splits)
  from add_sources_first [OF n(1) Cons.prems(2)] have f: "first_of (es @ pairs r) next1"
    "list_all (\<lambda>s. validRef s False \<and> list_all (\<lambda>t. validRef t True \<and> s \<noteq> t) (rule_targets r)) (rule_sources r)" unfolding pairs_def by blast+
  from Cons.IH [OF n(2) f(1)] f(2) show ?case by simp
qed simp

lemma find_pairs:
  "find (\<lambda>(s', d'). s' = s \<and> dst_target d' = t) (pairs r) = (if offers r s t then Some (s, dest r t) else None)"
proof (cases "offers r s t")
  case True
  have "(s, dest r t) \<in> set (pairs r)" using True by (auto simp: pairs_def offers_def)
  then have "find (\<lambda>(s', d'). s' = s \<and> dst_target d' = t) (pairs r) \<noteq> None" unfolding find_None_iff by (auto simp: dest_def)
  then obtain x where x: "find (\<lambda>(s', d'). s' = s \<and> dst_target d' = t) (pairs r) = Some x" by blast
  then have "x \<in> set (pairs r)" "fst x = s" "dst_target (snd x) = t" by (auto simp: find_Some_iff) (metis nth_mem)
  then have "x = (s, dest r t)" by (auto simp: pairs_def dest_def split: if_splits)
  with x True show ?thesis by simp
next
  case False
  then show ?thesis by (auto simp: find_None_iff pairs_def offers_def dest_def split: if_splits)
qed

lemma find_all_pairs:
  "find (\<lambda>(s', d'). s' = s \<and> dst_target d' = t) (concat (map pairs rs)) = map_option (\<lambda>r. (s, dest r t)) (find (\<lambda>r. offers r s t) rs)"
  by (induction rs) (auto simp: find_append find_pairs)

section \<open>No cycles\<close>

definition forwards :: "routes \<Rightarrow> (string \<times> string) set" where
  "forwards next = {(s, t). \<exists>d \<in> set (routes_of next s). dst_target d = t}"

lemma map_of_leafs: "map_of (map (\<lambda>t. (t, [])) ts) x = (if x \<in> set ts then Some [] else None)"
  by (induction ts) auto

lemma map_of_route_graph:
  "map_of (route_graph next) s = (case map_of next s of Some ds \<Rightarrow> Some (map dst_target ds)
     | None \<Rightarrow> if s \<in> set (concat (map (\<lambda>(_, ds). map dst_target ds) next)) then Some [] else None)"
proof -
  have "map_of (map (\<lambda>(s, ds). (s, map dst_target ds)) next) s = map_option (map dst_target) (map_of next s)" by (induction "next") auto
  then show ?thesis by (simp add: route_graph_def map_add_def map_of_leafs split: option.split)
qed

lemma requires_route_graph: "requires (route_graph next) s = map dst_target (routes_of next s)"
  by (simp add: requires_def map_of_route_graph routes_of_def split: option.split)

lemma depends_route_graph: "depends (route_graph next) = forwards next"
  unfolding depends_def requires_route_graph forwards_def by auto

lemma route_graph_closed:
  assumes "d \<in> set (requires (route_graph next) s)"
  shows "d \<in> set (keys (route_graph next))"
proof -
  obtain ds where "map_of next s = Some ds" "d \<in> dst_target ` set ds"
    using assms by (cases "map_of next s") (auto simp: requires_route_graph routes_of_def)
  then have "d \<in> set (concat (map (\<lambda>(_, ds). map dst_target ds) next))" by (fastforce dest: map_of_SomeD)
  then have "map_of (route_graph next) d \<noteq> None" by (simp add: map_of_route_graph split: option.split)
  then show ?thesis by (simp add: map_of_eq_None_iff)
qed

lemma leaf_no_routes: "s \<notin> set (keys next) \<Longrightarrow> requires (route_graph next) s = []"
  by (simp add: requires_route_graph routes_of_def map_of_eq_None_iff [THEN iffD2])

lemma accepts_iff_acyclic: "(\<exists>order. order_loop (route_graph next) (keys next) [] = Inr order) \<longleftrightarrow> acyclic (forwards next)"
proof (cases "order_loop (route_graph next) (keys next) []")
  case (Inl e)
  from order_loop_error [OF Inl] have "\<not> acyclic (forwards next)"
    using route_graph_closed unfolding depends_route_graph [symmetric] acyclic_def by (auto split: order_error.splits)
  with Inl show ?thesis by simp
next
  case (Inr order)
  from order_loop_ok [OF Inr] have o: "topological (route_graph next) order" "set (keys next) \<subseteq> set order" by auto
  have "s \<in> set order" if "requires (route_graph next) s \<noteq> []" for s using that leaf_no_routes [of s "next"] o(2) by blast
  from topological_acyclic_on [OF o(1) this] Inr show ?thesis by (simp add: depends_route_graph)
qed

text \<open>What the accepted rules route: for every source and target the first enabled rule that offers the pair.\<close>

definition routes_first :: "forwardRule list \<Rightarrow> routes \<Rightarrow> bool" where
  "routes_first rules next \<longleftrightarrow> (\<forall>s. distinct (map dst_target (routes_of next s))
     \<and> (\<forall>d. d \<in> set (routes_of next s) \<longleftrightarrow> (\<exists>r. find (\<lambda>r. offers r s (dst_target d)) rules = Some r \<and> d = dest r (dst_target d))))"

lemma add_rules_routes: "add_rules rules [] [] = Inr next \<Longrightarrow> routes_first rules next"
proof -
  assume a: "add_rules rules [] [] = Inr next"
  have "first_of [] []" by (simp add: first_of_def routes_of_def)
  from add_rules_first [OF a this] have "first_of (concat (map pairs rules)) next" by simp
  then show ?thesis unfolding routes_first_def first_of_def find_all_pairs by auto
qed

text \<open>C22: The forward rules never loop: an accepted rule set routes every message to the targets of the first enabled rule offering
  each source and target, to each target once, and no message can come back to a chat it passed; the only rule sets rejected
  besides malformed ones are those that would allow this.\<close>

theorem forward_rules_never_loop:
  "(case prepare_rules rules of Inl _ \<Rightarrow> True | Inr next \<Rightarrow> routes_first rules next \<and> acyclic (forwards next))
   \<and> (\<not> isl (prepare_rules rules) \<longleftrightarrow> length rules \<le> 200 \<and> (\<exists>next. add_rules rules [] [] = Inr next \<and> acyclic (forwards next)))"
proof (cases "add_rules rules [] []")
  case (Inl e)
  then show ?thesis by (simp add: prepare_rules_def)
next
  case (Inr "next")
  show ?thesis
  proof (cases "order_loop (route_graph next) (keys next) []")
    case Inl
    with Inr accepts_iff_acyclic [of "next"] show ?thesis by (simp add: prepare_rules_def)
  next
    case Inr1: (Inr order)
    with Inr accepts_iff_acyclic [of "next"] add_rules_routes [OF Inr] show ?thesis by (simp add: prepare_rules_def)
  qed
qed

end
