(* ===== verification/Filter_Rules.thy ===== *)
theory Filter_Rules
  imports Target_Path
begin

text \<open>
  \<open>application/filter.rules\<close>: the policy that decides from the name and size of a file whether it is downloaded, with the conversion of
  its bounds from megabytes to 64-bit byte counts.
\<close>

section \<open>The policy\<close>

record filterSettings =
  fs_include :: "string list"
  fs_exclude :: "string list"
  fs_min :: int
  fs_max :: int

datatype reason = Allowed | ExtensionExcluded | SizeExcluded

definition maxInt64 :: int where
  "maxInt64 = 2 ^ 63 - 1"

definition mb_unit :: int where
  "mb_unit = 1024 * 1024"

definition mbToBytes :: "int \<Rightarrow> int" where
  "mbToBytes mb = (if mb \<le> 0 then 0 else if mb > go_div maxInt64 mb_unit then maxInt64 else wrap64 (mb * mb_unit))"

definition normalizeExtension :: "string \<Rightarrow> string" where
  "normalizeExtension v =
     (let w = to_lower (trim_space v)
      in if w = [] \<or> hd w = CHR ''.'' then w else CHR ''.'' # w)"

definition prepare_filter :: "string list \<Rightarrow> string list \<Rightarrow> int \<Rightarrow> int \<Rightarrow> filterSettings res" where
  "prepare_filter include exclude minMB maxMB =
     (if 0 < maxMB \<and> maxMB < minMB then Inl (ErrMsg ''minimum file size exceeds maximum'')
      else Inr \<lparr>fs_include = map normalizeExtension include, fs_exclude = map normalizeExtension exclude, fs_min = mbToBytes minMB, fs_max = mbToBytes maxMB\<rparr>)"

text \<open>\<open>None\<close> is the policy before the first configuration.\<close>

definition shouldHandle :: "filterSettings option \<Rightarrow> string \<Rightarrow> int \<Rightarrow> bool \<times> reason" where
  "shouldHandle st name fsize =
     (case st of
        None \<Rightarrow> (False, SizeExcluded)
      | Some s \<Rightarrow>
          let ext = normalizeExtension (file_ext name)
          in if fs_include s \<noteq> [] \<and> ext \<notin> set (fs_include s) then (False, ExtensionExcluded)
             else if ext \<in> set (fs_exclude s) then (False, ExtensionExcluded)
             else if 0 < fs_min s \<and> fsize < fs_min s \<or> 0 < fs_max s \<and> fs_max s < fsize then (False, SizeExcluded)
             else (True, Allowed))"

section \<open>Correctness\<close>

text \<open>The conversion saturates instead of overflowing.\<close>

lemma mbToBytes_exact: "int64_ok mb \<Longrightarrow> mbToBytes mb = min maxInt64 (max 0 mb * mb_unit)"
proof -
  assume ok: "int64_ok mb"
  have q: "go_div maxInt64 mb_unit = 8796093022207" by (simp add: maxInt64_def mb_unit_def go_div_def)
  have "int64_ok (mb * mb_unit)" if "0 < mb" "mb \<le> 8796093022207" using that by (simp add: int64_ok_def mb_unit_def)
  then show ?thesis unfolding mbToBytes_def q by (auto simp: maxInt64_def mb_unit_def min_def max_def)
qed


lemma mbToBytes_pos: "int64_ok mb \<Longrightarrow> 0 < mbToBytes mb \<longleftrightarrow> 0 < mb"
  by (auto simp: mbToBytes_exact maxInt64_def mb_unit_def min_def max_def)

lemma mbToBytes_le: "int64_ok mb \<Longrightarrow> 0 < mb \<Longrightarrow> sz < maxInt64 \<Longrightarrow> mbToBytes mb \<le> sz \<longleftrightarrow> mb * mb_unit \<le> sz"
  by (auto simp: mbToBytes_exact min_def max_def)

lemma mbToBytes_ge: "int64_ok mb \<Longrightarrow> 0 < mb \<Longrightarrow> sz < maxInt64 \<Longrightarrow> sz \<le> mbToBytes mb \<longleftrightarrow> sz \<le> mb * mb_unit"
  by (auto simp: mbToBytes_exact min_def max_def)

text \<open>An accepted policy lets exactly the files through that it describes: the extension is listed, when a list is given, and not
  excluded, and the size lies within the bounds in units of 1024 * 1024 bytes, however large the bounds are; a bound of zero
  or less does not limit. A policy is rejected exactly when its lower bound exceeds its upper one.\<close>

theorem filter_decides_without_overflow:
  assumes "prepare_filter include exclude minMB maxMB = Inr s" and "int64_ok minMB" "int64_ok maxMB" "fsize < maxInt64"
  shows "fst (shouldHandle (Some s) name fsize) \<longleftrightarrow>
      (include = [] \<or> normalizeExtension (file_ext name) \<in> normalizeExtension ` set include) \<and> normalizeExtension (file_ext name) \<notin> normalizeExtension ` set exclude
    \<and> (0 < minMB \<longrightarrow> minMB * 1048576 \<le> fsize) \<and> (0 < maxMB \<longrightarrow> minMB \<le> maxMB \<and> fsize \<le> maxMB * 1048576)"
proof -
  have u: "mb_unit = 1048576" by (simp add: mb_unit_def)
  from assms(1) have s: "s = \<lparr>fs_include = map normalizeExtension include, fs_exclude = map normalizeExtension exclude, fs_min = mbToBytes minMB, fs_max = mbToBytes maxMB\<rparr>"
    and le: "0 < maxMB \<longrightarrow> minMB \<le> maxMB"
    by (auto simp: prepare_filter_def split: if_splits)
  have lo: "0 < mbToBytes minMB \<and> fsize < mbToBytes minMB \<longleftrightarrow> \<not> (0 < minMB \<longrightarrow> minMB * 1048576 \<le> fsize)"
    using mbToBytes_pos [OF assms(2)] mbToBytes_le [OF assms(2) _ assms(4)] by (auto simp: u not_le [symmetric])
  have hi: "0 < mbToBytes maxMB \<and> mbToBytes maxMB < fsize \<longleftrightarrow> \<not> (0 < maxMB \<longrightarrow> fsize \<le> maxMB * 1048576)"
    using mbToBytes_pos [OF assms(3)] mbToBytes_ge [OF assms(3) _ assms(4)] by (auto simp: u not_le [symmetric])
  show ?thesis using le unfolding s shouldHandle_def Let_def option.case filterSettings.simps lo hi by auto
qed

theorem filter_decides_without_overflow_witness:
  "\<exists>s. prepare_filter [''mp4''] [] 1 (2 ^ 62) = Inr s \<and> fst (shouldHandle (Some s) ''Clip.MP4'' 2000000) \<and> \<not> fst (shouldHandle (Some s) ''a.mkv'' 2000000)"
proof -
  obtain s where s: "prepare_filter [''mp4''] [] 1 (2 ^ 62) = Inr s" by (simp add: prepare_filter_def)
  have ok: "int64_ok 1" "int64_ok (2 ^ 62)" "(2000000::int) < maxInt64" by (simp_all add: int64_ok_def maxInt64_def)
  have e: "normalizeExtension (file_ext ''Clip.MP4'') = ''.mp4''" "normalizeExtension (file_ext ''a.mkv'') = ''.mkv''" "normalizeExtension ''mp4'' = ''.mp4''" by code_simp+
  show ?thesis
    using s filter_decides_without_overflow [OF s ok, of "''Clip.MP4''"] filter_decides_without_overflow [OF s ok, of "''a.mkv''"] by (simp add: e)
qed

end
