(* ===== verification/Naming_Rules.thy ===== *)
theory Naming_Rules
  imports Target_Path
begin

text \<open>
  \<open>application/naming.rules\<close>: file names from a template within a byte limit (\<open>filename.go\<close>), the shortening of message titles
  (\<open>directory.go\<close>) and the numbering that keeps the names of one batch apart (\<open>unique.go\<close>). The execution of the
  compiled template is a parameter, as a function of the title it is given; the Unicode table of Han characters and
  \<open>filepath.Clean\<close> are parameters too. A rune is represented by its UTF-8 bytes.
\<close>

section \<open>Titles\<close>

function runes :: "string \<Rightarrow> string list" where
  "runes s = (if s = [] then [] else
     (if fst (decode_rune s) = snd (decode_rune s) then take (fst (decode_rune s)) s else [CHR 0xEF, CHR 0xBF, CHR 0xBD])
       # runes (drop (fst (decode_rune s)) s))"
  by pat_completeness auto
termination
  by (relation "measure length") (auto simp: decode_rune_pos)

declare runes.simps [simp del]

definition titleMaxRunes :: int where "titleMaxRunes = 80"
definition titleHeadRunes :: int where "titleHeadRunes = 48"
definition titleTailRunes :: int where "titleTailRunes = 30"

definition title_marker :: "string list" where
  "title_marker = [''.'', ''.'', ''.'']"

definition limitFileNameRunes :: "string list \<Rightarrow> int \<Rightarrow> string list" where
  "limitFileNameRunes rs maxRunes =
     (if maxRunes \<le> 0 \<or> rs = [] then []
      else if int (length rs) \<le> maxRunes then rs
      else if maxRunes \<le> int (length title_marker) + 1 then take (nat maxRunes) rs
      else let available = maxRunes - int (length title_marker);
               tail = min titleTailRunes (go_div available 2);
               head0 = min titleHeadRunes (available - tail);
               head = (if head0 + tail < available then head0 + (available - head0 - tail) else head0)
           in take (nat head) rs @ title_marker @ drop (nat (int (length rs) - tail)) rs)"

definition in_chars :: "char \<Rightarrow> char \<Rightarrow> string \<Rightarrow> bool" where
  "in_chars lo hi r \<longleftrightarrow> length r = 1 \<and> lo \<le> hd r \<and> hd r \<le> hi"

definition isMessageTitleFilenameRune :: "(string \<Rightarrow> bool) \<Rightarrow> string \<Rightarrow> bool" where
  "isMessageTitleFilenameRune han r \<longleftrightarrow>
     in_chars CHR ''a'' CHR ''z'' r \<or> in_chars CHR ''A'' CHR ''Z'' r \<or> in_chars CHR ''0'' CHR ''9'' r \<or> han r"

definition untitled :: "string list" where
  "untitled = map (\<lambda>c. [c]) ''untitled''"

definition safeMessageTitle :: "(string \<Rightarrow> bool) \<Rightarrow> string \<Rightarrow> int \<Rightarrow> string list" where
  "safeMessageTitle han value maxRunes =
     (if maxRunes \<le> 0 then []
      else let v = trim_space value; rs = filter (isMessageTitleFilenameRune han) (runes v)
           in if v = [] \<or> rs = [] then limitFileNameRunes untitled maxRunes else limitFileNameRunes rs maxRunes)"

lemma length_title_marker: "int (length title_marker) = 3"
  by (simp add: title_marker_def)

text \<open>A title never has more runes than allowed, and a longer one is cut to exactly that number.\<close>

lemma limit_runes_length:
  assumes "0 \<le> maxRunes"
  shows "int (length (limitFileNameRunes rs maxRunes)) = min maxRunes (int (length rs))"
proof -
  consider "maxRunes \<le> 0 \<or> rs = []" | "0 < maxRunes" "rs \<noteq> []" "int (length rs) \<le> maxRunes" | "0 < maxRunes" "maxRunes < int (length rs)" "maxRunes \<le> 4"
    | "4 < maxRunes" "maxRunes < int (length rs)" by linarith
  then show ?thesis
  proof cases
    case 4
    define tl where "tl = min titleTailRunes (go_div (maxRunes - 3) 2)"
    have tl: "0 \<le> tl" "tl \<le> maxRunes - 3" using 4 by (simp_all add: tl_def titleTailRunes_def min_def) presburger
    have hd: "(if min titleHeadRunes (maxRunes - 3 - tl) + tl < maxRunes - 3 then min titleHeadRunes (maxRunes - 3 - tl) + (maxRunes - 3 - min titleHeadRunes (maxRunes - 3 - tl) - tl)
        else min titleHeadRunes (maxRunes - 3 - tl)) = maxRunes - 3 - tl" by (cases "titleHeadRunes \<le> maxRunes - 3 - tl") (simp_all add: min_def)
    have "rs \<noteq> []" using 4 by auto
    then have "limitFileNameRunes rs maxRunes = take (nat (maxRunes - 3 - tl)) rs @ title_marker @ drop (nat (int (length rs) - tl)) rs"
      unfolding limitFileNameRunes_def Let_def length_title_marker tl_def [symmetric] hd using 4 by (subst if_not_P, simp)+ simp
    then show ?thesis using 4 tl by (simp add: title_marker_def min_def)
  qed (use assms in \<open>auto simp: limitFileNameRunes_def title_marker_def\<close>)
qed

section \<open>File names\<close>

text \<open>\<open>strings.ReplaceAll\<close> of a doubled character by one, until none is left.\<close>

fun replace_pair :: "char \<Rightarrow> string \<Rightarrow> string" where
  "replace_pair c (a # b # xs) = (if a = c \<and> b = c then c # replace_pair c xs else a # replace_pair c (b # xs))"
| "replace_pair c xs = xs"

fun has_pair :: "char \<Rightarrow> string \<Rightarrow> bool" where
  "has_pair c (a # b # xs) \<longleftrightarrow> a = c \<and> b = c \<or> has_pair c (b # xs)"
| "has_pair c xs \<longleftrightarrow> False"

lemma replace_pair_le: "length (replace_pair c s) \<le> length s"
  by (induction c s rule: replace_pair.induct) auto

lemma replace_pair_less: "has_pair c s \<Longrightarrow> length (replace_pair c s) < length s"
proof (induction c s rule: replace_pair.induct)
  case (1 c a b xs)
  then show ?case using replace_pair_le [of c xs] by auto
qed auto

function collapse :: "char \<Rightarrow> string \<Rightarrow> string" where
  "collapse c s = (if has_pair c s then collapse c (replace_pair c s) else s)"
  by pat_completeness auto
termination
  by (relation "measure (\<lambda>(c, s). length s)") (auto simp: replace_pair_less)

declare collapse.simps [simp del]

definition appendExt :: "string \<Rightarrow> string \<Rightarrow> string" where
  "appendExt ext s =
     (case splitRenderedNameLeaf s of
        (pre, leaf) \<Rightarrow>
          let s1 = pre @ collapse (CHR ''_'') (collapse (CHR ''-'') leaf)
          in if ext \<noteq> [] \<and> \<not> suffix ext s1 then s1 @ ext else s1)"

definition render :: "(string \<Rightarrow> bool) \<Rightarrow> (string \<Rightarrow> string res) \<Rightarrow> string \<Rightarrow> string \<Rightarrow> int \<Rightarrow> string res" where
  "render han execute ext title m =
     (case execute (concat (safeMessageTitle han title m)) of
        Inl e \<Rightarrow> Inl (ErrWrap ''execute template'' e)
      | Inr s \<Rightarrow> Inr (appendExt ext s))"

definition leaf_len :: "string \<Rightarrow> int" where
  "leaf_len s = int (length (snd (splitRenderedNameLeaf s)))"

text \<open>The binary search for the longest title that fits.\<close>

function search_title :: "(int \<Rightarrow> string res) \<Rightarrow> int \<Rightarrow> int \<Rightarrow> int \<Rightarrow> string option \<Rightarrow> string option res" where
  "search_title rnd maxBytes low high best =
     (if low \<le> high
      then let mid = (low + high) div 2
           in case rnd mid of
                Inl e \<Rightarrow> Inl e
              | Inr c \<Rightarrow> if leaf_len c \<le> maxBytes then search_title rnd maxBytes (mid + 1) high (Some c)
                         else search_title rnd maxBytes low (mid - 1) best
      else Inr best)"
  by pat_completeness auto
termination
  by (relation "measure (\<lambda>(_, _, low, high, _). nat (high + 1 - low))") auto

declare search_title.simps [simp del]

definition hard_max :: "int \<Rightarrow> int" where
  "hard_max m = (if m \<le> 0 \<or> 255 < m then 255 else m)"

definition renderFileName :: "(string \<Rightarrow> bool) \<Rightarrow> (string \<Rightarrow> string res) \<Rightarrow> string \<Rightarrow> int \<Rightarrow> string \<Rightarrow> string \<Rightarrow> string res" where
  "renderFileName han execute pattern maxBytes fileName title =
     (let ext = file_ext fileName; rnd = render han execute ext title; m = hard_max maxBytes
      in case rnd titleMaxRunes of
           Inl e \<Rightarrow> Inl e
         | Inr rendered \<Rightarrow>
             if leaf_len rendered \<le> m then Inr rendered
             else if sublist ''{{ .I }}'' pattern
             then (case search_title rnd m 0 titleMaxRunes None of
                     Inl e \<Rightarrow> Inl e
                   | Inr (Some best) \<Rightarrow> Inr best
                   | Inr None \<Rightarrow> Inr (limitRenderedNameLeafBytes rendered m))
             else Inr (limitRenderedNameLeafBytes rendered m))"

lemma search_title_fits:
  "search_title rnd m low high best = Inr (Some c) \<Longrightarrow> pred_option (\<lambda>c. leaf_len c \<le> m) best \<Longrightarrow> leaf_len c \<le> m"
proof (induction rnd m low high best rule: search_title.induct)
  case (1 rnd m low high best)
  show ?case
  proof (cases "low \<le> high")
    case False
    with "1.prems" show ?thesis by (simp add: search_title.simps)
  next
    case True
    with "1.prems"(1) obtain x where x: "rnd ((low + high) div 2) = Inr x" by (subst (asm) search_title.simps) (auto split: sum.splits)
    show ?thesis
    proof (cases "leaf_len x \<le> m")
      case fits: True
      with "1.prems"(1) True x have "search_title rnd m ((low + high) div 2 + 1) high (Some x) = Inr (Some c)" by (subst (asm) search_title.simps) simp
      from "1.IH"(1) [OF True refl x fits this] fits show ?thesis by simp
    next
      case no: False
      with "1.prems"(1) True x have "search_title rnd m low ((low + high) div 2 - 1) best = Inr (Some c)" by (subst (asm) search_title.simps) simp
      from "1.IH"(2) [OF True refl x no this "1.prems"(2)] show ?thesis .
    qed
  qed
qed

lemma set_limit: "set (limitFileNameSegmentBytes name m) \<subseteq> set name"
proof -
  define leaf where "leaf = rev (takeWhile (\<lambda>c. c \<noteq> CHR ''/'') (rev name))"
  have leaf: "set leaf \<subseteq> set name" by (auto simp: leaf_def dest: set_takeWhileD)
  have ext: "set (file_ext name) \<subseteq> set name"
  proof
    fix c assume "c \<in> set (file_ext name)"
    then have "c \<in> set leaf" unfolding file_ext_def Let_def leaf_def [symmetric] by (auto split: if_splits dest: set_takeWhileD)
    with leaf show "c \<in> set name" by blast
  qed
  have t: "set (truncateBytesKeepingRunes s k) \<subseteq> set s" for s k by (auto simp: truncateBytesKeepingRunes_def simp del: truncate_loop.simps dest: in_set_takeD)
  have t1: "set (truncateBytesKeepingRunes (take n name) k) \<subseteq> set name" for n k by (rule order_trans [OF t set_take_subset])
  show ?thesis unfolding limitFileNameSegmentBytes_def Let_def using ext t [of name] t1 by simp
qed

lemma split_leaf: "splitRenderedNameLeaf s = (pre, leaf) \<Longrightarrow> s = pre @ leaf \<and> (\<forall>c \<in> set leaf. \<not> is_sep c) \<and> (pre = [] \<or> is_sep (last pre))"
proof -
  assume e: "splitRenderedNameLeaf s = (pre, leaf)"
  define k where "k = takeWhile (\<lambda>c. \<not> is_sep c) (rev s)"
  have "rev s = k @ dropWhile (\<lambda>c. \<not> is_sep c) (rev s)" by (simp add: k_def)
  then have s: "s = rev (dropWhile (\<lambda>c. \<not> is_sep c) (rev s)) @ rev k" by (metis rev_append rev_rev_ident)
  have leaf: "leaf = rev k" "pre = take (length s - length k) s" using e by (simp_all add: splitRenderedNameLeaf_def k_def)
  have pre: "pre = rev (dropWhile (\<lambda>c. \<not> is_sep c) (rev s))" unfolding leaf(2) by (subst (2) s) (use s in \<open>metis append_eq_conv_conj diff_add_inverse2 length_append length_rev\<close>)
  have "is_sep (hd (dropWhile (\<lambda>c. \<not> is_sep c) (rev s)))" if "pre \<noteq> []" using that hd_dropWhile [of "\<lambda>c. \<not> is_sep c" "rev s"] by (simp add: pre)
  then have "pre = [] \<or> is_sep (last pre)" by (auto simp: pre last_rev)
  moreover have "\<forall>c \<in> set leaf. \<not> is_sep c" by (auto simp: leaf k_def dest: set_takeWhileD)
  ultimately show ?thesis using s pre leaf(1) by simp
qed

lemma leaf_of: "(\<forall>c \<in> set leaf. \<not> is_sep c) \<Longrightarrow> pre = [] \<or> is_sep (last pre) \<Longrightarrow> snd (splitRenderedNameLeaf (pre @ leaf)) = leaf"
proof -
  assume a: "\<forall>c \<in> set leaf. \<not> is_sep c" "pre = [] \<or> is_sep (last pre)"
  have "takeWhile (\<lambda>c. \<not> is_sep c) (rev leaf @ rev pre) = rev leaf"
    using a by (cases pre rule: rev_cases) (auto simp: takeWhile_append)
  then show ?thesis by (simp add: splitRenderedNameLeaf_def)
qed

lemma limit_leaf_len: "0 \<le> m \<Longrightarrow> leaf_len (limitRenderedNameLeafBytes s m) \<le> m"
proof -
  assume m: "0 \<le> m"
  obtain pre leaf where sp: "splitRenderedNameLeaf s = (pre, leaf)" by fastforce
  note l = split_leaf [OF sp]
  have "snd (splitRenderedNameLeaf (pre @ limitFileNameSegmentBytes leaf m)) = limitFileNameSegmentBytes leaf m"
    using l set_limit [of leaf m] by (intro leaf_of) auto
  with limit_length [OF m, of leaf] show ?thesis by (simp add: leaf_len_def limitRenderedNameLeafBytes_def sp)
qed

text \<open>Whatever the template renders, a file name that is produced has at most the configured number of bytes, and never more than
  255; the search for a shorter title ends, and an error is only an error of the template.\<close>

theorem rendered_name_fits:
  assumes "renderFileName han execute pattern maxBytes fileName title = Inr name"
  shows "leaf_len name \<le> hard_max maxBytes \<and> hard_max maxBytes \<le> 255"
  using assms limit_leaf_len [of "hard_max maxBytes"] search_title_fits [of _ "hard_max maxBytes" 0 titleMaxRunes None]
  by (auto simp: renderFileName_def hard_max_def split: sum.splits option.splits if_splits)

theorem rendered_name_fits_witness:
  "\<exists>name. renderFileName (\<lambda>_. False) (\<lambda>i. Inr ''abcdefgh'') ''F'' 5 ''a'' ''hello'' = Inr name \<and> leaf_len name \<le> 5"
proof -
  have "\<not> isl (renderFileName (\<lambda>_. False) (\<lambda>i. Inr ''abcdefgh'') ''F'' 5 ''a'' ''hello'')" by code_simp
  then obtain name where n: "renderFileName (\<lambda>_. False) (\<lambda>i. Inr ''abcdefgh'') ''F'' 5 ''a'' ''hello'' = Inr name"
    by (metis isl_def obj_sumE)
  with rendered_name_fits [OF n] show ?thesis by (auto simp: hard_max_def)
qed

section \<open>Distinct names\<close>

record namingResult =
  nr_fileName :: string
  nr_dir :: string
  nr_out :: string
  nr_full :: string
  nr_maxBytes :: int

definition conflict_suffix :: "nat \<Rightarrow> string" where
  "conflict_suffix n = '' ('' @ fmt_nat n @ '')''"

definition candidate :: "string \<Rightarrow> int \<Rightarrow> nat \<Rightarrow> string" where
  "candidate original maximum n =
     (let ext = file_ext original; sfx = conflict_suffix n
      in truncateBytesKeepingRunes (take (length original - length ext) original) (nat (maximum - int (length sfx) - int (length ext))) @ sfx @ ext)"

definition path_key :: "(string \<Rightarrow> string) \<Rightarrow> string \<Rightarrow> string \<Rightarrow> string" where
  "path_key clean dir name = to_lower (clean (joinTargetPath dir [name]))"

text \<open>The loop over the sequence numbers, for at most \<open>fuel\<close> candidates; \<open>None\<close> when it is used up.\<close>

fun find_free :: "(string \<Rightarrow> string) \<Rightarrow> string list \<Rightarrow> string \<Rightarrow> string \<Rightarrow> int \<Rightarrow> string \<Rightarrow> nat \<Rightarrow> nat \<Rightarrow> string res option" where
  "find_free clean used dir original maximum cand n 0 = None"
| "find_free clean used dir original maximum cand n (Suc fuel) =
     (if path_key clean dir cand \<notin> set used then Some (Inr cand)
      else if int (length (conflict_suffix n) + length (file_ext original)) > maximum
      then Some (Inl (ErrMsg (''filename byte limit cannot fit a conflict suffix and extension for '' @ original)))
      else find_free clean used dir original maximum (candidate original maximum n) (Suc n) fuel)"

definition unique_max :: "int \<Rightarrow> namingResult \<Rightarrow> int" where
  "unique_max settingsMax r = (if nr_maxBytes r \<le> 0 \<or> nr_maxBytes r > 255 then settingsMax else nr_maxBytes r)"

text \<open>The loop over the results; as many candidates as there are taken keys, and two more, are enough (below).\<close>

fun unique_loop :: "(string \<Rightarrow> string) \<Rightarrow> (nat \<Rightarrow> ctx) \<Rightarrow> int \<Rightarrow> nat \<Rightarrow> string list \<Rightarrow> namingResult list \<Rightarrow> namingResult list res option" where
  "unique_loop clean ctxs smax i used [] = Some (Inr [])"
| "unique_loop clean ctxs smax i used (r # rs) =
     (case ctxs i of
        Some e \<Rightarrow> Some (Inl e)
      | None \<Rightarrow>
          (case find_free clean used (nr_dir r) (nr_out r) (unique_max smax r) (nr_out r) 2 (length used + 2) of
             None \<Rightarrow> None
           | Some (Inl e) \<Rightarrow> Some (Inl e)
           | Some (Inr c) \<Rightarrow>
               let r1 = r\<lparr>nr_out := c, nr_full := joinTargetPath (nr_dir r) [c], nr_fileName := fst (splitRenderedNameLeaf (nr_fileName r)) @ c\<rparr>
               in case unique_loop clean ctxs smax (Suc i) (path_key clean (nr_dir r) c # used) rs of
                    Some (Inr rs1) \<Rightarrow> Some (Inr (r1 # rs1))
                  | other \<Rightarrow> other))"

definition unique :: "(string \<Rightarrow> string) \<Rightarrow> (nat \<Rightarrow> ctx) \<Rightarrow> int option \<Rightarrow> namingResult list \<Rightarrow> namingResult list res option" where
  "unique clean ctxs settingsMax input =
     (case settingsMax of
        None \<Rightarrow> Some (Inl (ErrMsg ''naming component is not initialized''))
      | Some m \<Rightarrow> unique_loop clean ctxs m 0 [] input)"

text \<open>Candidates with different numbers differ, also without case.\<close>

lemma lower_special [simp]: "is_digit c \<Longrightarrow> lower c = c"
  by (auto simp: lower_def is_digit_def less_eq_char_def)

lemma to_lower_suffix: "to_lower (conflict_suffix n) = conflict_suffix n"
proof -
  have "map lower (fmt_nat n) = fmt_nat n" using fmt_nat_not_special by (intro map_idI) auto
  moreover have "lower (CHR '' '') = CHR '' ''" "lower (CHR ''('') = CHR ''(''" "lower (CHR '')'') = CHR '')''" by (simp_all add: lower_def less_eq_char_def)
  ultimately show ?thesis by (simp add: conflict_suffix_def to_lower_def)
qed

lemma conflict_suffix_inj:
  assumes "a @ conflict_suffix n = b @ conflict_suffix m"
  shows "n = m"
proof -
  have d: "takeWhile is_digit (rev (x @ '' ('' @ fmt_nat k)) = rev (fmt_nat k)" for x k
    using fmt_nat_digits [of k] by (simp add: takeWhile_append list_all_iff is_digit_def)
  from assms have "a @ '' ('' @ fmt_nat n = b @ '' ('' @ fmt_nat m" by (simp add: conflict_suffix_def)
  then have "rev (fmt_nat n) = rev (fmt_nat m)" using d [of a n] d [of b m] by metis
  then show ?thesis by (metis digits_val_fmt_nat rev_rev_ident)
qed

lemma candidate_inj: "to_lower (candidate original maximum n) = to_lower (candidate original maximum m) \<Longrightarrow> n = m"
proof -
  assume e: "to_lower (candidate original maximum n) = to_lower (candidate original maximum m)"
  obtain a b where "to_lower (candidate original maximum n) = a @ conflict_suffix n @ to_lower (file_ext original)"
    "to_lower (candidate original maximum m) = b @ conflict_suffix m @ to_lower (file_ext original)"
    using to_lower_suffix unfolding candidate_def Let_def by (auto simp: to_lower_def)
  with e have "a @ conflict_suffix n = b @ conflict_suffix m" by simp
  then show ?thesis by (rule conflict_suffix_inj)
qed

text \<open>Cleaning a path that ends in a plain name keeps the name apart from others.\<close>

definition plain :: "string \<Rightarrow> bool" where
  "plain w \<longleftrightarrow> \<not> dotted w \<and> list_all (\<lambda>c. \<not> is_sep c) w"

definition keeps_names :: "(string \<Rightarrow> string) \<Rightarrow> bool" where
  "keeps_names clean \<longleftrightarrow> (\<forall>dir a b. plain a \<longrightarrow> plain b \<longrightarrow> path_key clean dir a = path_key clean dir b \<longrightarrow> to_lower a = to_lower b)"

lemma set_file_ext: "set (file_ext name) \<subseteq> set name"
proof
  define leaf where "leaf = rev (takeWhile (\<lambda>c. c \<noteq> CHR ''/'') (rev name))"
  fix c assume "c \<in> set (file_ext name)"
  then have "c \<in> set leaf" unfolding file_ext_def Let_def leaf_def [symmetric] by (auto split: if_splits dest: set_takeWhileD)
  then show "c \<in> set name" by (auto simp: leaf_def dest: set_takeWhileD)
qed

lemma set_truncate: "set (truncateBytesKeepingRunes s k) \<subseteq> set s"
  by (auto simp: truncateBytesKeepingRunes_def simp del: truncate_loop.simps dest: in_set_takeD)

lemma candidate_plain:
  assumes "plain original"
  shows "plain (candidate original maximum n)"
proof -
  let ?c = "candidate original maximum n"
  have digits: "\<not> is_sep c" if "c \<in> set (fmt_nat n)" for c using fmt_nat_not_special [OF that] by (auto simp: is_sep_def is_digit_def)
  have "set (truncateBytesKeepingRunes (take k original) j) \<subseteq> set original" for k j by (rule order_trans [OF set_truncate set_take_subset])
  then have "set ?c \<subseteq> set original \<union> set (conflict_suffix n)" using set_file_ext [of original] unfolding candidate_def Let_def by auto
  moreover have "\<not> is_sep c" if "c \<in> set (conflict_suffix n)" for c using that digits by (auto simp: conflict_suffix_def is_sep_def)
  ultimately have "list_all (\<lambda>c. \<not> is_sep c) ?c" using assms by (auto simp: plain_def list_all_iff)
  moreover have "CHR ''('' \<in> set ?c" by (simp add: candidate_def conflict_suffix_def)
  then have "\<not> dotted ?c" by (auto simp: dotted_def)
  ultimately show ?thesis by (simp add: plain_def)
qed

lemma find_free_stuck:
  "find_free clean used dir original maximum cand n fuel = None \<Longrightarrow> j < fuel - 1 \<Longrightarrow> path_key clean dir (candidate original maximum (n + j)) \<in> set used"
proof (induction fuel arbitrary: cand n j)
  case (Suc fuel)
  then have r: "find_free clean used dir original maximum (candidate original maximum n) (Suc n) fuel = None" by (auto split: if_splits)
  show ?case
  proof (cases j)
    case 0
    with Suc.prems(2) obtain f where "fuel = Suc f" by (cases fuel) auto
    with r 0 show ?thesis by (auto split: if_splits)
  next
    case (Suc k)
    with Suc.prems(2) have "k < fuel - 1" by simp
    from Suc.IH [OF r this] Suc show ?thesis by simp
  qed
qed simp

lemma find_free_returns:
  assumes "keeps_names clean" "plain original"
  shows "find_free clean used dir original maximum cand 2 (length used + 2) \<noteq> None"
proof
  assume stuck: "find_free clean used dir original maximum cand 2 (length used + 2) = None"
  let ?k = "\<lambda>j. path_key clean dir (candidate original maximum (2 + j))"
  have "?k ` {..length used} \<subseteq> set used" using find_free_stuck [OF stuck] by auto
  moreover have "inj_on ?k {..length used}"
  proof (rule inj_onI)
    fix x y assume "?k x = ?k y"
    then have "to_lower (candidate original maximum (2 + x)) = to_lower (candidate original maximum (2 + y))"
      using assms(1) candidate_plain [OF assms(2)] unfolding keeps_names_def by blast
    then have "2 + x = 2 + y" by (rule candidate_inj)
    then show "x = y" by simp
  qed
  then have "card (?k ` {..length used}) = Suc (length used)" by (simp add: card_image)
  ultimately have "Suc (length used) \<le> card (set used)" by (metis List.finite_set card_mono)
  then show False using card_length [of used] by simp
qed

lemma find_free_fresh:
  "find_free clean used dir original maximum cand n fuel = Some (Inr c) \<Longrightarrow>
     path_key clean dir c \<notin> set used \<and> (c = cand \<or> int (length c) \<le> maximum)"
proof (induction fuel arbitrary: cand n)
  case (Suc fuel)
  show ?case
  proof (cases "path_key clean dir cand \<in> set used")
    case False
    with Suc.prems show ?thesis by auto
  next
    case True
    with Suc.prems have fit: "int (length (conflict_suffix n) + length (file_ext original)) \<le> maximum"
      and r: "find_free clean used dir original maximum (candidate original maximum n) (Suc n) fuel = Some (Inr c)" by (auto split: if_splits)
    have "int (length (candidate original maximum n)) \<le> maximum"
      using fit truncate_length [of "take (length original - length (file_ext original)) original" "nat (maximum - int (length (conflict_suffix n)) - int (length (file_ext original)))"]
      by (simp add: candidate_def)
    with Suc.IH [OF r] show ?thesis by auto
  qed
qed simp

definition result_key :: "(string \<Rightarrow> string) \<Rightarrow> namingResult \<Rightarrow> string" where
  "result_key clean r = path_key clean (nr_dir r) (nr_out r)"

definition renamed :: "int \<Rightarrow> namingResult \<Rightarrow> namingResult \<Rightarrow> bool" where
  "renamed smax r r' \<longleftrightarrow> nr_dir r' = nr_dir r \<and> nr_full r' = joinTargetPath (nr_dir r) [nr_out r']
     \<and> (nr_out r' = nr_out r \<or> int (length (nr_out r')) \<le> unique_max smax r)"

lemma unique_loop_ok:
  "keeps_names clean \<Longrightarrow> list_all (\<lambda>r. plain (nr_out r)) rs \<Longrightarrow>
     case unique_loop clean ctxs smax i used rs of
       None \<Rightarrow> False
     | Some (Inl e) \<Rightarrow> True
     | Some (Inr rs') \<Rightarrow> list_all2 (renamed smax) rs rs' \<and> distinct (map (result_key clean) rs') \<and> set (map (result_key clean) rs') \<inter> set used = {}"
proof (induction rs arbitrary: i used)
  case (Cons r rs)
  let ?find = "find_free clean used (nr_dir r) (nr_out r) (unique_max smax r) (nr_out r) 2 (length used + 2)"
  have "?find \<noteq> None" using Cons.prems by (intro find_free_returns) simp_all
  then obtain x where x: "?find = Some x" by blast
  show ?case
  proof (cases "ctxs i = None \<and> (\<exists>c. x = Inr c)")
    case False
    then show ?thesis using x by (cases "ctxs i"; cases x) simp_all
  next
    case True
    then obtain c where c: "ctxs i = None" "x = Inr c" by blast
    note f = find_free_fresh [OF x [unfolded c(2)]]
    let ?used = "path_key clean (nr_dir r) c # used"
    have IH: "case unique_loop clean ctxs smax (Suc i) ?used rs of None \<Rightarrow> False | Some (Inl e) \<Rightarrow> True
      | Some (Inr rs') \<Rightarrow> list_all2 (renamed smax) rs rs' \<and> distinct (map (result_key clean) rs') \<and> set (map (result_key clean) rs') \<inter> set ?used = {}"
      using Cons by simp
    show ?thesis using IH x c f by (auto simp: renamed_def result_key_def split: option.splits sum.splits)
  qed
qed simp

text \<open>The names of one batch are made distinct, and the search for a free name always ends. When the file names are plain and
  cleaning a path keeps plain names apart, \<open>Unique\<close> returns: either an error (the context ended, or the byte limit leaves no
  room for a number), or one result for each input, in order and in the same directory, no two of which name the same
  file without case; a changed name respects the byte limit.\<close>

theorem unique_names_are_distinct:
  assumes "keeps_names clean" and "list_all (\<lambda>r. plain (nr_out r)) input"
  shows "case unique clean ctxs (Some smax) input of
      None \<Rightarrow> False
    | Some (Inl e) \<Rightarrow> True
    | Some (Inr results) \<Rightarrow> list_all2 (renamed smax) input results \<and> distinct (map (result_key clean) results)"
  using unique_loop_ok [OF assms, where ctxs = ctxs and smax = smax and i = 0 and used = "[]"] by (auto simp: unique_def split: option.splits sum.splits)

text \<open>The hypothesis holds of paths that need no cleaning: a plain name is appended to what depends on the directory alone.\<close>

lemma join_plain: "\<exists>p. \<forall>a. plain a \<longrightarrow> joinTargetPath dir [a] = p @ a"
proof -
  define b1 where "b1 = trim_right is_sep dir"
  define b2 where "b2 = (if b1 = [] \<and> has_prefix dir ''/'' then ''/'' else b1)"
  have "joinTargetPath dir [a] = (if b2 = ''/'' then ''/'' else if b2 = [] then [] else b2 @ targetPathSeparator dir) @ a" if "plain a" for a
  proof -
    have "trim is_sep a = a" "\<not> dotted a" using that by (auto simp: plain_def list_all_iff intro: trim_sep_free)
    then show ?thesis unfolding joinTargetPath_def Let_def b1_def [symmetric] b2_def [symmetric] by auto
  qed
  then show ?thesis by blast
qed

lemma identity_keeps_names: "keeps_names (\<lambda>p. p)"
  unfolding keeps_names_def path_key_def
proof (intro allI impI)
  fix dir a b assume "plain a" "plain b" "to_lower (joinTargetPath dir [a]) = to_lower (joinTargetPath dir [b])"
  moreover obtain p where "\<forall>a. plain a \<longrightarrow> joinTargetPath dir [a] = p @ a" using join_plain by blast
  ultimately show "to_lower a = to_lower b" by (simp add: to_lower_def)
qed

definition demo_result :: "string \<Rightarrow> namingResult" where
  "demo_result name = \<lparr>nr_fileName = name, nr_dir = ''/d'', nr_out = name, nr_full = [], nr_maxBytes = 0\<rparr>"

theorem unique_names_are_distinct_witness:
  "\<exists>results. unique (\<lambda>p. p) (\<lambda>_. None) (Some 255) [demo_result ''a.b'', demo_result ''A.b''] = Some (Inr results)
     \<and> map nr_out results = [''a.b'', ''A (2).b''] \<and> distinct (map (result_key (\<lambda>p. p)) results)"
proof -
  have c: "case unique (\<lambda>p. p) (\<lambda>_. None) (Some 255) [demo_result ''a.b'', demo_result ''A.b''] of Some (Inr rs) \<Rightarrow> map nr_out rs = [''a.b'', ''A (2).b''] | _ \<Rightarrow> False"
    by code_simp
  have p: "list_all (\<lambda>r. plain (nr_out r)) [demo_result ''a.b'', demo_result ''A.b'']" by (simp add: demo_result_def plain_def dotted_def is_sep_def)
  from c unique_names_are_distinct [OF identity_keeps_names p, where ctxs = "\<lambda>_. None" and smax = 255] show ?thesis by (auto split: option.splits sum.splits)
qed

end
