(* ===== verification/Time_Sync.thy ===== *)
theory Time_Sync
  imports Prelude
begin

text \<open>
  \<open>application/time.sync\<close>: the choice of an NTP server and the calibration of the process clock. The answers of the probe and the
  context at each point it is read are parameters; the answers of the candidates, which are asked concurrently, arrive in
  any order.
\<close>

section \<open>Choosing a server\<close>

record sample =
  sm_offset :: duration
  sm_elapsed :: duration

definition better :: "string \<times> sample \<Rightarrow> string \<times> sample \<Rightarrow> bool" where
  "better a b \<longleftrightarrow> sm_elapsed (snd a) < sm_elapsed (snd b) \<or> sm_elapsed (snd a) = sm_elapsed (snd b) \<and> fst a < fst b"

definition pick_best :: "(string \<times> sample) list \<Rightarrow> (string \<times> sample) option" where
  "pick_best rs = fold (\<lambda>r best. case best of None \<Rightarrow> Some r | Some b \<Rightarrow> if better r b then Some r else Some b) rs None"

fun try_preferred :: "(nat \<Rightarrow> ctx) \<Rightarrow> (nat \<Rightarrow> sample option) \<Rightarrow> nat \<Rightarrow> nat \<Rightarrow> sample option res" where
  "try_preferred ctxs query i 0 = Inr None"
| "try_preferred ctxs query i (Suc n) =
     (case ctxs i of
        Some e \<Rightarrow> Inl e
      | None \<Rightarrow> (case query i of Some s \<Rightarrow> Inr (Some s) | None \<Rightarrow> try_preferred ctxs query (Suc i) n))"

text \<open>\<open>selectServer\<close>: \<open>arrived\<close> are the hosts that answered, in the order of the channel.\<close>

definition selectServer :: "(nat \<Rightarrow> ctx) \<Rightarrow> string \<Rightarrow> (nat \<Rightarrow> sample option) \<Rightarrow> (string \<times> sample) list \<Rightarrow> (string \<times> sample) res" where
  "selectServer ctxs preferred query arrived =
     (case (if preferred \<noteq> [] then try_preferred ctxs query 0 3 else Inr None) of
        Inl e \<Rightarrow> Inl e
      | Inr (Some s) \<Rightarrow> Inr (preferred, s)
      | Inr None \<Rightarrow>
          (case ctxs 3 of
             Some e \<Rightarrow> Inl e
           | None \<Rightarrow>
               (case ctxs 4 of
                  Some e \<Rightarrow> Inl e
                | None \<Rightarrow> (case pick_best arrived of None \<Rightarrow> Inl (ErrMsg ''no NTP server is reachable'') | Some r \<Rightarrow> Inr r))))"

text \<open>The hosts that answer: the candidates other than the preferred one for which the probe has a sample.\<close>

definition answers :: "string list \<Rightarrow> string \<Rightarrow> (string \<Rightarrow> sample option) \<Rightarrow> (string \<times> sample) list" where
  "answers candidates preferred probe = List.map_filter (\<lambda>h. if h = preferred then None else map_option (\<lambda>s. (h, s)) (probe h)) candidates"

section \<open>Calibration\<close>

record clockStatus =
  ck_server :: string
  ck_offset :: duration
  ck_synchronized :: bool
  ck_lastAttempt :: instant
  ck_lastSuccess :: instant
  ck_lastError :: string

definition synchronize :: "(err \<Rightarrow> string) \<Rightarrow> ctx \<Rightarrow> instant \<Rightarrow> instant \<Rightarrow> (string \<times> sample) res \<Rightarrow> clockStatus \<Rightarrow> clockStatus \<times> err option" where
  "synchronize text ctx now1 now2 selected st =
     (if ctx \<noteq> None then (st, None)
      else let st1 = st\<lparr>ck_lastAttempt := now1\<rparr>
           in case selected of
                Inl e \<Rightarrow> (st1\<lparr>ck_lastError := text e\<rparr>, Some e)
              | Inr (server, s) \<Rightarrow>
                  (st1\<lparr>ck_server := server, ck_offset := sm_offset s, ck_synchronized := True, ck_lastSuccess := now2, ck_lastError := []\<rparr>, None))"

definition clock_now :: "clockStatus \<Rightarrow> instant \<Rightarrow> instant" where
  "clock_now st wall = wall + ck_offset st"

section \<open>Correctness\<close>

lemma better_trans: "better a b \<Longrightarrow> better b c \<Longrightarrow> better a c"
  by (auto simp: better_def)

lemma better_total: "fst a \<noteq> fst b \<Longrightarrow> better a b \<or> better b a"
  by (auto simp: better_def)

lemma better_irrefl: "\<not> better a a"
  by (simp add: better_def)

lemma pick_best_snoc: "pick_best (rs @ [r]) = (case pick_best rs of None \<Rightarrow> Some r | Some b \<Rightarrow> if better r b then Some r else Some b)"
  by (simp add: pick_best_def)

lemma pick_best_least:
  "distinct (map fst rs) \<Longrightarrow> pick_best rs = Some b \<longleftrightarrow> b \<in> set rs \<and> (\<forall>r \<in> set rs. r = b \<or> better b r)"
proof (induction rs arbitrary: b rule: rev_induct)
  case Nil
  then show ?case by (simp add: pick_best_def)
next
  case (snoc r rs)
  have IH: "pick_best rs = Some c \<longleftrightarrow> c \<in> set rs \<and> (\<forall>r \<in> set rs. r = c \<or> better c r)" for c using snoc by simp
  have ne: "fst r \<noteq> fst x" if "x \<in> set rs" for x using snoc.prems that by (metis (no_types, lifting) distinct_append image_eqI list.set_map map_append disjoint_iff list.simps(9) list.set_intros(1))
  show ?case
  proof (cases "pick_best rs")
    case None
    have "rs = []"
    proof (cases rs rule: rev_cases)
      case (snoc ys y)
      with None show ?thesis by (auto simp: pick_best_snoc split: option.splits if_splits)
    qed
    then show ?thesis by (auto simp: pick_best_def)
  next
    case (Some c)
    then have c: "c \<in> set rs" "\<forall>r \<in> set rs. r = c \<or> better c r" using IH by blast+
    show ?thesis
    proof (cases "better r c")
      case True
      then have "\<forall>x \<in> set rs. better r x" using c(2) by (metis better_trans)
      then have "b = r \<longleftrightarrow> b \<in> set (rs @ [r]) \<and> (\<forall>x \<in> set (rs @ [r]). x = b \<or> better b x)" by (auto dest: better_trans simp: better_irrefl)
      with Some True show ?thesis by (auto simp: pick_best_snoc)
    next
      case False
      then have "better c r" using better_total [of r c] ne [OF c(1)] by blast
      moreover have "b = c" if "b \<in> set rs" "\<forall>x \<in> set rs. x = b \<or> better b x"
        using that c by (metis better_trans better_irrefl)
      ultimately have "b = c \<longleftrightarrow> b \<in> set (rs @ [r]) \<and> (\<forall>x \<in> set (rs @ [r]). x = b \<or> better b x)"
        using c by (auto dest: better_trans simp: better_irrefl)
      with Some False show ?thesis by (auto simp: pick_best_snoc)
    qed
  qed
qed

lemma pick_best_None: "pick_best rs = None \<longleftrightarrow> rs = []"
proof (cases rs rule: rev_cases)
  case (snoc ys y)
  then show ?thesis by (auto simp: pick_best_snoc split: option.split)
qed (simp add: pick_best_def)

lemma answers_mem: "(h, s) \<in> set (answers candidates preferred probe) \<longleftrightarrow> h \<in> set candidates \<and> h \<noteq> preferred \<and> probe h = Some s"
  by (induction candidates) (auto simp: answers_def map_filter_simps split: option.split if_splits)

lemma answers_distinct: "distinct candidates \<Longrightarrow> distinct (map fst (answers candidates preferred probe))"
proof (induction candidates)
  case (Cons h hs)
  have "h \<notin> fst ` set (answers hs preferred probe)" using Cons.prems answers_mem by fastforce
  with Cons show ?case by (auto simp: answers_def map_filter_simps split: option.split)
qed (simp add: answers_def map_filter_simps)

text \<open>While the context is alive, the preferred server is chosen as soon as one of its three attempts succeeds, and otherwise the
  candidate with the smallest round trip, the lexicographically first among equals, whatever the order in which the answers
  arrive; no server is chosen only when none answered.\<close>

theorem fastest_server_is_selected:
  assumes alive: "\<And>k. ctxs k = None" and c: "distinct candidates" and a: "mset arrived = mset (answers candidates preferred probe)"
  shows "case selectServer ctxs preferred query arrived of
      Inr (h, s) \<Rightarrow> preferred \<noteq> [] \<and> h = preferred \<and> Some s \<in> query ` {0, 1, 2}
        \<or> (preferred = [] \<or> query ` {0, 1, 2} = {None}) \<and> h \<in> set candidates \<and> h \<noteq> preferred \<and> probe h = Some s
          \<and> (\<forall>h' s'. h' \<in> set candidates \<longrightarrow> h' \<noteq> preferred \<longrightarrow> probe h' = Some s' \<longrightarrow> h' = h \<or> better (h, s) (h', s'))
    | Inl _ \<Rightarrow> (preferred = [] \<or> query ` {0, 1, 2} = {None}) \<and> (\<forall>h \<in> set candidates. h = preferred \<or> probe h = None)"
proof -
  define rest where "rest = (case pick_best arrived of None \<Rightarrow> Inl (ErrMsg ''no NTP server is reachable'') | Some r \<Rightarrow> Inr r)"
  have set: "set arrived = set (answers candidates preferred probe)" using a by (metis set_mset_mset)
  have dist: "distinct (map fst arrived)" using a answers_distinct [OF c] by (metis mset_map mset_eq_imp_distinct_iff)
  have r: "case rest of Inr (h, s) \<Rightarrow> h \<in> set candidates \<and> h \<noteq> preferred \<and> probe h = Some s
        \<and> (\<forall>h' s'. h' \<in> set candidates \<longrightarrow> h' \<noteq> preferred \<longrightarrow> probe h' = Some s' \<longrightarrow> h' = h \<or> better (h, s) (h', s'))
      | Inl _ \<Rightarrow> \<forall>h \<in> set candidates. h = preferred \<or> probe h = None"
  proof (cases "pick_best arrived")
    case None
    then have "answers candidates preferred probe = []" using pick_best_None set by (metis set_empty2)
    then show ?thesis using answers_mem [of _ _ candidates preferred probe] None by (auto simp: rest_def)
  next
    case (Some b)
    then have b: "b \<in> set arrived" "\<forall>r \<in> set arrived. r = b \<or> better b r" using pick_best_least [OF dist] by blast+
    obtain h s where hs: "b = (h, s)" by (cases b)
    have "h' = h \<or> better (h, s) (h', s')" if "h' \<in> set candidates" "h' \<noteq> preferred" "probe h' = Some s'" for h' s'
      using b(2) that set answers_mem [of h' s' candidates preferred probe] hs by blast
    then show ?thesis using Some b(1) hs set answers_mem [of h s candidates preferred probe] by (simp add: rest_def)
  qed
  have t: "try_preferred ctxs query 0 3 = Inr (case query 0 of Some s \<Rightarrow> Some s | None \<Rightarrow> (case query 1 of Some s \<Rightarrow> Some s | None \<Rightarrow> query 2))"
    using alive by (simp add: numeral_3_eq_3 numeral_2_eq_2 split: option.split)
  have "selectServer ctxs preferred query arrived
      = (if preferred \<noteq> [] then (case query 0 of Some s \<Rightarrow> Inr (preferred, s) | None \<Rightarrow> (case query 1 of Some s \<Rightarrow> Inr (preferred, s)
          | None \<Rightarrow> (case query 2 of Some s \<Rightarrow> Inr (preferred, s) | None \<Rightarrow> rest))) else rest)"
    using alive t by (auto simp: selectServer_def rest_def split: option.split)
  then show ?thesis using r by (cases "query 0"; cases "query 1"; cases "query 2"; cases rest) (auto split: if_splits)
qed

text \<open>A failed synchronisation keeps the calibration, and an ended context changes nothing.\<close>

lemma synchronize_keeps_offset:
  "snd (synchronize text ctx n1 n2 selected st) \<noteq> None \<or> ctx \<noteq> None \<Longrightarrow> clock_now (fst (synchronize text ctx n1 n2 selected st)) t = clock_now st t"
  by (auto simp: synchronize_def clock_now_def split: sum.splits)

end
