(* ===== verification/Local_Repository.thy ===== *)
theory Local_Repository
  imports Forward_Repository
begin

text \<open>
  \<open>ports.LocalDownloadRepository\<close> (\<open>interfaces/ports/local_download.go\<close>): the contract of the persistent local downloads as
  the local downloader uses it, and the proof that the repository of \<open>bsw/cdd/taskhub/local_repository.go\<close> and
  \<open>local_update.go\<close> keeps it.
\<close>

section \<open>The contract\<close>

text \<open>The methods as a client calls them, with the contexts and the clock of the call.\<close>

record 'st localRepo =
  lo_create :: "localDownloadRecord \<Rightarrow> 'st \<Rightarrow> localDownloadRecord res \<times> 'st"
  lo_get :: "string \<Rightarrow> 'st \<Rightarrow> localDownloadRecord option res"
  lo_records :: "'st \<Rightarrow> (string \<times> localDownloadRecord) list res \<times> 'st"
  lo_remove :: "string \<Rightarrow> 'st \<Rightarrow> unit res \<times> 'st"
  lo_update :: "string \<Rightarrow> (localDownloadRecord \<Rightarrow> localDownloadRecord option) \<Rightarrow> 'st \<Rightarrow> bool res \<times> 'st"
  lo_mark :: "string \<Rightarrow> 'st \<Rightarrow> unit res \<times> 'st"

text \<open>What \<open>Update\<close> writes when the callback turned \<open>cur\<close> into \<open>new\<close>.\<close>

definition stamped :: "string \<Rightarrow> instant \<Rightarrow> localDownloadRecord \<Rightarrow> localDownloadRecord \<Rightarrow> localDownloadRecord" where
  "stamped tid now cur new = new\<lparr>lr_state := normalizeDownloadState (lr_status new), lr_revision := (lr_revision cur + 1) mod 2 ^ 64,
     lr_id := tid, lr_updatedAt := now\<rparr>"

definition statuses :: "string set" where
  "statuses = {''queued'', ''active'', ''paused'', ''complete'', ''error'', ''removed''}"

text \<open>Records with a canonical status and numbers of Go's integer types, and changes that keep them so.\<close>

definition rec_ok :: "localDownloadRecord \<Rightarrow> bool" where
  "rec_ok r \<longleftrightarrow> lr_taskID r \<noteq> [] \<and> lr_status r \<in> statuses \<and> int64_ok (lr_total r) \<and> int64_ok (lr_completed r) \<and> int64_ok (lr_speed r)"

definition keeps_rec :: "(localDownloadRecord \<Rightarrow> localDownloadRecord option) \<Rightarrow> bool" where
  "keeps_rec change \<longleftrightarrow> (\<forall>r r'. rec_ok r \<longrightarrow> change r = Some r' \<longrightarrow> rec_ok r')"

locale local_repository =
  fixes repo :: "'st localRepo" and recs :: "'st \<Rightarrow> string \<rightharpoonup> localDownloadRecord" and ok :: "'st \<Rightarrow> bool"
  assumes get_law: "ok s \<Longrightarrow> lo_get repo tid s = Inr found \<Longrightarrow> found = recs s tid"
    and recs_valid: "ok s \<Longrightarrow> recs s tid = Some r \<Longrightarrow> rec_ok r \<and> lr_id r = tid \<and> tid \<noteq> []"
    and update_law: "ok s \<Longrightarrow> keeps_rec change \<Longrightarrow> lo_update repo tid change s = (upd, s') \<Longrightarrow>
      ok s' \<and> (if upd = Inr True
       then \<exists>cur new now. recs s tid = Some cur \<and> change cur = Some new \<and> downloadTransition (lr_status cur) (lr_status new)
              \<and> recs s' = (recs s)(tid := if (lr_revision cur + 1) mod 2 ^ 64 = 0 then None else Some (stamped tid now cur new))
       else recs s' = recs s)"
    and update_declined: "ok s \<Longrightarrow> lo_update repo tid change s = (Inr False, s') \<Longrightarrow> Option.bind (recs s tid) change = None"
    and records_law: "ok s \<Longrightarrow> lo_records repo s = (listed, s') \<Longrightarrow>
      ok s' \<and> recs s' = recs s \<and> (case listed of Inl e \<Rightarrow> True | Inr rs \<Rightarrow> distinct (map fst rs)
         \<and> (\<forall>i r. (i, r) \<in> set rs \<longleftrightarrow> recs s i = Some r))"
    and create_law: "ok s \<Longrightarrow> rec_ok r \<Longrightarrow> lo_create repo r s = (made, s') \<Longrightarrow>
      ok s' \<and> (case made of
         Inl e \<Rightarrow> recs s' = recs s
       | Inr r' \<Rightarrow> recs s (lr_id r) = Some r' \<and> recs s' = recs s
           \<or> recs s (lr_id r) = None \<and> recs s' = (recs s)(lr_id r \<mapsto> r') \<and> lr_status r' = lr_status r \<and> lr_startedAt r' = lr_startedAt r)"
    and remove_law: "ok s \<Longrightarrow> lo_remove repo tid s = (removed, s') \<Longrightarrow>
      ok s' \<and> recs s' = (if removed = Inr () then (recs s)(tid := None) else recs s)"
    and mark_law: "ok s \<Longrightarrow> lo_mark repo tid s = (marked, s') \<Longrightarrow> ok s' \<and> recs s' = recs s"

section \<open>The hub keeps the contract\<close>

definition local_repo :: "ctxEnd option \<Rightarrow> ctxEnd option \<Rightarrow> instant \<Rightarrow> (blob \<Rightarrow> string) \<Rightarrow> kv localRepo" where
  "local_repo c c' now version =
     \<lparr>lo_create = \<lambda>r. local_create version (ctx_err c) (ctx_err c') now r None, lo_get = local_get (ctx_err c),
      lo_records = local_records (ctx_err c) (ctx_err c'), lo_remove = local_remove (ctx_err c) (ctx_err c'),
      lo_update = local_update (ctx_err c) (ctx_err c') now, lo_mark = markDownloaded links (ctx_err c) (ctx_err c')\<rparr>"

definition recs_of :: "kv \<Rightarrow> string \<rightharpoonup> localDownloadRecord" where
  "recs_of s tid =
     (case s (localPrefix @ tid) of
        None \<Rightarrow> None
      | Some d \<Rightarrow> (case decodeLocalRecord tid d of Inl e \<Rightarrow> None | Inr r \<Rightarrow> Some r))"

lemma local_keys: "co_prefix local_tasks = localPrefix" "co_indexKey local_tasks = localIndex"
  by (simp_all add: hub_selectors hub_keys)

lemma local_index_key [simp]: "localPrefix @ tid \<noteq> localIndex" "localIndex \<noteq> localPrefix @ tid"
  by (simp_all add: hub_keys)

lemma normalize_status: "st \<in> statuses \<Longrightarrow> normalizeDownloadState st = st \<and> st \<noteq> downloadUnknown"
  unfolding statuses_def by (elim insertE emptyE) (simp_all add: normalizeDownloadState_def downloadUnknown_def, code_simp+)

lemma canonical_status: "st = normalizeDownloadState st' \<Longrightarrow> st \<noteq> downloadUnknown \<Longrightarrow> st \<in> statuses"
  using normalize_cases [of st'] by (auto simp: statuses_def)

definition recs_ok :: "kv \<Rightarrow> bool" where
  "recs_ok s \<longleftrightarrow> indexed local_tasks s \<and> s localPrefix = None \<and> (\<forall>tid r. recs_of s tid = Some r \<longrightarrow> lr_status r \<in> statuses)"

lemmas lo_scoped = lo.scoped_record [unfolded local_keys] lo.scoped_index [unfolded local_keys]

lemma decode_fields: "decodeLocalRecord tid d = Inr r \<Longrightarrow> local_fields_ok r"
  by (auto simp: decodeLocalRecord_def local_of_json_def local_fields_ok_def and_then_Inr field_uint64_def
      split: sum.splits if_splits option.splits json.splits dest!: field_int64_ok)

lemma recs_of_rec_ok: "recs_ok s \<Longrightarrow> recs_of s tid = Some r \<Longrightarrow> rec_ok r \<and> lr_id r = tid \<and> tid \<noteq> [] \<and> lr_state r = lr_status r"
proof -
  assume ok: "recs_ok s" and r: "recs_of s tid = Some r"
  then obtain d where d: "s (localPrefix @ tid) = Some d" "decodeLocalRecord tid d = Inr r"
    by (auto simp: recs_of_def split: option.splits sum.splits)
  have "lr_status r \<in> statuses" using ok r by (auto simp: recs_ok_def)
  moreover have "tid \<noteq> []" using ok d(1) by (auto simp: recs_ok_def)
  ultimately show ?thesis using decode_fields [OF d(2)] decodeLocalRecord_valid [OF d(2)]
    by (auto simp: rec_ok_def local_fields_ok_def local_valid_def)
qed

lemma recs_ok_same:
  assumes "recs_ok s" "indexed local_tasks s'" "\<forall>k. k \<noteq> localIndex \<longrightarrow> s' k = s k"
  shows "recs_ok s' \<and> recs_of s' = recs_of s"
proof -
  have "recs_of s' = recs_of s" using assms(3) by (simp add: recs_of_def fun_eq_iff)
  moreover have "s' localPrefix = s localPrefix" using assms(3) local_index_key(1) [of "[]"] by simp
  ultimately show ?thesis using assms(1,2) by (simp add: recs_ok_def)
qed

lemma recs_ok_put:
  assumes "recs_ok s" "indexed local_tasks s'" "rec_ok r" "lr_state r = lr_status r" "lr_revision r < 2 ^ 64" "lr_id r \<noteq> []"
    "\<forall>k. k \<noteq> localIndex \<longrightarrow> s' k = (s(localPrefix @ lr_id r \<mapsto> local_json r)) k"
  shows "recs_ok s' \<and> recs_of s' = (recs_of s)(lr_id r := if lr_revision r = 0 then None else Some r)"
proof -
  have f: "local_fields_ok r" using assms(3,5) by (simp add: rec_ok_def local_fields_ok_def)
  have st: "lr_status r \<in> statuses" "lr_taskID r \<noteq> []" using assms(3) by (simp_all add: rec_ok_def)
  have d: "decodeLocalRecord (lr_id r) (local_json r) = (if lr_revision r = 0 then Inl (ErrMsg ''invalid local download record identity or state'') else Inr r)"
    using decode_local_json [OF f, of "lr_id r"] normalize_status [OF st(1)] st(2) assms(4) by (simp add: local_valid_def)
  have m: "recs_of s' = (recs_of s)(lr_id r := if lr_revision r = 0 then None else Some r)"
    using assms(7) d by (auto simp: recs_of_def fun_eq_iff)
  moreover have "s' localPrefix = None" using assms(1,6,7) local_index_key(1) [of "[]"] by (simp add: recs_ok_def)
  ultimately show ?thesis using assms(1,2) st(1) by (auto simp: recs_ok_def split: if_splits)
qed

lemma stamped_simps [simp]:
  "lr_status (stamped tid now cur new) = lr_status new" "lr_id (stamped tid now cur new) = tid"
  "lr_revision (stamped tid now cur new) = (lr_revision cur + 1) mod 2 ^ 64" "lr_taskID (stamped tid now cur new) = lr_taskID new"
  "lr_total (stamped tid now cur new) = lr_total new" "lr_completed (stamped tid now cur new) = lr_completed new"
  "lr_startedAt (stamped tid now cur new) = lr_startedAt new" "lr_createdAt (stamped tid now cur new) = lr_createdAt new"
  "lr_path (stamped tid now cur new) = lr_path new" "lr_dir (stamped tid now cur new) = lr_dir new" "lr_out (stamped tid now cur new) = lr_out new"
  "lr_error (stamped tid now cur new) = lr_error new" "lr_speed (stamped tid now cur new) = lr_speed new"
  by (simp_all add: stamped_def)

lemma rec_ok_stamped [simp]: "rec_ok (stamped tid now cur new) \<longleftrightarrow> rec_ok new"
  by (simp add: rec_ok_def stamped_def)

lemma local_change_written:
  assumes "local_change now tid change data stamp = Inr (n, stamp', True)"
  obtains cur new where "decodeLocalRecord tid data = Inr cur" "change cur = Some new"
    "downloadTransition (lr_state cur) (normalizeDownloadState (lr_status new))" "n = Some (local_json (stamped tid now cur new))"
proof -
  from assms obtain cur where c: "decodeLocalRecord tid data = Inr cur" by (auto simp: local_change_def and_then_Inr)
  with assms show ?thesis by (auto simp: local_change_def and_then_Inr stamped_def split: option.splits if_splits intro: that [OF c])
qed

lemma local_change_declined:
  assumes "local_change now tid change data stamp = Inr (n, stamp', False)"
  obtains cur where "decodeLocalRecord tid data = Inr cur" "change cur = None" "n = Some data" "stamp' = stamp"
proof -
  from assms obtain cur where c: "decodeLocalRecord tid data = Inr cur" by (auto simp: local_change_def and_then_Inr)
  with assms show ?thesis by (auto simp: local_change_def and_then_Inr split: option.splits if_splits intro: that [OF c])
qed

lemma local_update_law:
  assumes ok: "recs_ok s" and ch: "keeps_rec change" and upd: "local_update ctx ctx' now tid change s = (upd, s')"
  shows "recs_ok s' \<and> (if upd = Inr True
       then \<exists>cur new now. recs_of s tid = Some cur \<and> change cur = Some new \<and> downloadTransition (lr_status cur) (lr_status new)
              \<and> recs_of s' = (recs_of s)(tid := if (lr_revision cur + 1) mod 2 ^ 64 = 0 then None else Some (stamped tid now cur new))
       else recs_of s' = recs_of s)"
proof -
  obtain x where m: "col_mutate local_tasks ctx ctx' tid (local_change now tid change) s = (x, s')"
    and res: "upd = (case x of Inl e \<Rightarrow> if errors_is e ErrNotFound then Inr False else Inl e | Inr b \<Rightarrow> Inr b)"
    using upd by (auto simp: local_update_def split: prod.splits sum.splits)
  have ind: "indexed local_tasks s'" using lo.mutate_keeps_indexed [OF m] ok by (simp add: recs_ok_def local_keys)
  show ?thesis
  proof (cases x)
    case (Inl e)
    with m have "s' = s" by (auto dest: lo.mutate_fails)
    with res Inl ok show ?thesis by auto
  next
    case (Inr b)
    with m have "col_mutate local_tasks ctx ctx' tid (local_change now tid change) s = (Inr b, s')" by simp
    then show ?thesis
    proof (cases rule: lo.mutate_cases)
      case (1 ix data n stamp)
      show ?thesis
      proof (cases b)
        case False
        with 1(5) have "n = Some data" by (auto elim: local_change_declined)
        with 1(4,6) have "\<forall>k. k \<noteq> localIndex \<longrightarrow> s' k = s k" by (auto simp: local_keys split: if_splits)
        with recs_ok_same [OF ok ind] res Inr False show ?thesis by simp
      next
        case True
        with 1(5) obtain cur new where c: "decodeLocalRecord tid data = Inr cur" "change cur = Some new"
          "downloadTransition (lr_state cur) (normalizeDownloadState (lr_status new))" "n = Some (local_json (stamped tid now cur new))"
          by (auto elim: local_change_written)
        have r: "recs_of s tid = Some cur" using 1(4) c(1) by (simp add: recs_of_def local_keys)
        note cur = recs_of_rec_ok [OF ok r]
        have new: "rec_ok new" using ch c(2) cur unfolding keeps_rec_def by blast
        then have st: "lr_status new \<in> statuses" by (simp add: rec_ok_def)
        have "\<forall>k. k \<noteq> localIndex \<longrightarrow> s' k = (s(localPrefix @ tid \<mapsto> local_json (stamped tid now cur new))) k"
          using 1(6) c(4) by (auto simp: local_keys split: if_splits)
        with recs_ok_put [OF ok ind, of "stamped tid now cur new"] new cur normalize_status [OF st]
        have "recs_ok s' \<and> recs_of s' = (recs_of s)(tid := if (lr_revision cur + 1) mod 2 ^ 64 = 0 then None else Some (stamped tid now cur new))"
          by (simp add: stamped_def [of tid now cur new, THEN arg_cong [where f = lr_state]])
        with r c(2,3) cur normalize_status [OF st] res Inr True show ?thesis by auto
      qed
    qed
  qed
qed

lemma local_update_declined:
  assumes ok: "recs_ok s" and upd: "local_update (ctx_err c) (ctx_err c') now tid change s = (Inr False, s')"
  shows "Option.bind (recs_of s tid) change = None"
proof (rule ccontr)
  assume "Option.bind (recs_of s tid) change \<noteq> None"
  then obtain cur new where r: "recs_of s tid = Some cur" "change cur = Some new" by (auto simp: bind_eq_Some_conv)
  then obtain d where d: "s (localPrefix @ tid) = Some d" "decodeLocalRecord tid d = Inr cur"
    by (auto simp: recs_of_def split: option.splits sum.splits)
  from ok obtain ix where ix: "col_index localIndex (\<lambda>k. kv_get None k s) = Inr ix"
    by (auto simp: recs_ok_def indexed_def index_is_def local_keys)
  then have ix: "col_index localIndex (col_get local_tasks None s) = Inr ix" using lo.col_index_scoped [of None s] by (simp add: local_keys)
  have m: "mutate_txn local_tasks None tid (local_change now tid change) s \<noteq> Inr (False, s'')
      \<and> (mutate_txn local_tasks None tid (local_change now tid change) s = Inl e \<longrightarrow> \<not> errors_is e ErrNotFound)" for s'' e
    using d r(2)
    by (auto simp: mutate_txn_def local_keys ix lo_scoped kv_get_def local_change_def mutate_next_def and_then_Inl
        and_then_Inr col_saveIndex_def kv_set_def split: if_splits)
  show False
    using upd m ctx_err_cases [of c] ctx_err_cases [of c']
    by (auto simp: local_update_def col_mutate_def col_run_def storage_update_def memory_update_def
        split: sum.splits option.splits if_splits prod.splits)
qed

lemma local_get_law:
  assumes ok: "recs_ok s" and g: "local_get (ctx_err c) tid s = Inr found"
  shows "found = recs_of s tid"
proof (cases "tid = []")
  case True
  with g ok show ?thesis by (simp add: local_get_def recs_of_def recs_ok_def)
next
  case False
  with g ctx_err_cases [of c] show ?thesis
    by (auto simp: local_get_def col_read_def local_keys lo_scoped kv_get_def recs_of_def and_then_Inr
        split: option.splits sum.splits if_splits)
qed

lemma decode_all_spec: "decode_all rs = Inr ds \<Longrightarrow> map fst ds = map fst rs \<and> (\<forall>i r. (i, r) \<in> set ds \<longleftrightarrow> (\<exists>d. (i, d) \<in> set rs \<and> decodeLocalRecord i d = Inr r))"
  by (induction rs arbitrary: ds rule: decode_all.induct) (auto simp: and_then_Inr)

lemma listed_records:
  assumes "distinct (keys ix)"
  shows "distinct (map fst (List.map_filter (\<lambda>(i, t). map_option (Pair i) (s (p i))) ix))"
    and "(i, d) \<in> set (List.map_filter (\<lambda>(i, t). map_option (Pair i) (s (p i))) ix) \<longleftrightarrow> i \<in> set (keys ix) \<and> s (p i) = Some d"
  using assms by (induction ix) (force simp: List.map_filter_def split: option.splits)+

lemma local_records_law:
  assumes ok: "recs_ok s" and rc: "local_records ctx ctx' s = (listed, s')"
  shows "recs_ok s' \<and> recs_of s' = recs_of s \<and> (case listed of Inl e \<Rightarrow> True | Inr rs \<Rightarrow> distinct (map fst rs)
         \<and> (\<forall>i r. (i, r) \<in> set rs \<longleftrightarrow> recs_of s i = Some r))"
proof -
  obtain q where q: "col_records local_tasks ctx ctx' s = (q, s')" and l: "listed = (case q of Inl e \<Rightarrow> Inl e | Inr rs \<Rightarrow> decode_all rs)"
    using rc by (auto simp: local_records_def split: prod.splits sum.splits)
  from lo.records_keeps_indexed [OF q] ok have ind: "indexed local_tasks s'" by (simp add: recs_ok_def)
  show ?thesis
  proof (cases q)
    case (Inl e)
    with q have "s' = s" by (auto simp: col_records_def dest: lo.run_fails)
    with ok l Inl show ?thesis by simp
  next
    case (Inr rs)
    with q have none: "ctx = None" "ctx' = None" by (auto simp: col_records_def dest: lo.run_succeeds)
    from ok obtain ix where ix: "index_is local_tasks s ix" by (auto simp: recs_ok_def indexed_def)
    from lo.records_eq [OF ix] q none Inr
    have rs: "rs = List.map_filter (\<lambda>(i, t). map_option (Pair i) (s (localPrefix @ i))) ix"
      and same: "\<forall>k. k \<noteq> localIndex \<longrightarrow> s' k = s k" by (auto simp: local_keys)
    have keep: "recs_ok s' \<and> recs_of s' = recs_of s" by (rule recs_ok_same [OF ok ind same])
    note dist = lo.index_is_distinct [OF ix]
    have mem: "(i, d) \<in> set rs \<longleftrightarrow> s (localPrefix @ i) = Some d" for i d
      using listed_records(2) [OF dist, of i d s "\<lambda>i. localPrefix @ i"] lo.index_listed [OF _ ix, of i] ok
      unfolding rs by (auto simp: recs_ok_def local_keys)
    show ?thesis
    proof (cases listed)
      case (Inr ds)
      with l \<open>q = Inr rs\<close> have "decode_all rs = Inr ds" by simp
      from decode_all_spec [OF this] have ds: "map fst ds = map fst rs"
        "\<And>i r. (i, r) \<in> set ds \<longleftrightarrow> (\<exists>d. s (localPrefix @ i) = Some d \<and> decodeLocalRecord i d = Inr r)" by (auto simp: mem)
      have "distinct (map fst ds)" unfolding ds(1) rs by (rule listed_records(1) [OF dist])
      with keep Inr ds(2) show ?thesis by (auto simp: recs_of_def split: option.splits sum.splits)
    qed (use keep in simp)
  qed
qed

lemma local_create_law:
  assumes ok: "recs_ok s" and r: "rec_ok r" and cr: "local_create version ctx ctx' now r None s = (made, s')"
  shows "recs_ok s' \<and> (case made of
         Inl e \<Rightarrow> recs_of s' = recs_of s
       | Inr r' \<Rightarrow> recs_of s (lr_id r) = Some r' \<and> recs_of s' = recs_of s
           \<or> recs_of s (lr_id r) = None \<and> recs_of s' = (recs_of s)(lr_id r \<mapsto> r') \<and> lr_status r' = lr_status r \<and> lr_startedAt r' = lr_startedAt r)"
proof (cases made)
  case (Inl e)
  with cr have "s' = s" by (auto simp: local_create_def dest: update_fails split: if_splits)
  with ok Inl show ?thesis by simp
next
  case (Inr r')
  with cr have c: "local_create version ctx ctx' now r None s = (Inr r', s')" and id: "lr_id r \<noteq> []"
    by (auto simp: local_create_def split: if_splits)
  from c show ?thesis
  proof (cases rule: create_cases)
    case (old data)
    then have "recs_of s (lr_id r) = Some r'" by (simp add: recs_of_def)
    with old Inr ok show ?thesis by simp
  next
    case (new ix)
    have st: "lr_status r \<in> statuses" "lr_taskID r \<noteq> []" using r by (simp_all add: rec_ok_def)
    then have ne: "lr_status r \<noteq> []" by (auto simp: statuses_def)
    have r': "rec_ok r'" "lr_state r' = lr_status r'" "lr_revision r' = 1" "lr_id r' = lr_id r" "lr_status r' = lr_status r" "lr_startedAt r' = lr_startedAt r"
      using r st ne normalize_status [OF st(1)] unfolding new(2) by (simp_all add: created_record_def local_save_record_def rec_ok_def)
    have "indexed local_tasks s'"
    proof (rule lo.indexed_saved)
      show "distinct (keys (AList.update (lr_id r) (lr_createdAt r') ix))" using lo.index_is_distinct [OF new(3)] by (simp add: distinct_update)
      show "s' (co_indexKey local_tasks) = Some (index_json (AList.update (lr_id r) (lr_createdAt r') ix))" by (simp add: new(4) local_keys)
      show "i \<in> set (keys (AList.update (lr_id r) (lr_createdAt r') ix))"
        if "s' (co_prefix local_tasks @ i) \<noteq> None" "co_prefix local_tasks @ i \<noteq> co_indexKey local_tasks" for i
        using that lo.index_listed [OF _ new(3), of i] ok by (auto simp: new(4) local_keys recs_ok_def alist_simps split: if_splits)
    qed
    with recs_ok_put [OF ok _ r'(1,2)] r' id new(4) have "recs_ok s' \<and> recs_of s' = (recs_of s)(lr_id r \<mapsto> r')" by (simp add: local_index_key)
    moreover have "recs_of s (lr_id r) = None" using new(1) by (simp add: recs_of_def)
    ultimately show ?thesis using Inr r' by simp
  qed
qed

lemma local_remove_law:
  assumes ok: "recs_ok s" and rm: "local_remove ctx ctx' tid s = (removed, s')"
  shows "recs_ok s' \<and> recs_of s' = (if removed = Inr () then (recs_of s)(tid := None) else recs_of s)"
proof (cases "tid = []")
  case True
  have "recs_of s [] = None" using ok by (simp add: recs_of_def recs_ok_def)
  with True rm ok show ?thesis by (auto simp: local_remove_def fun_upd_idem)
next
  case False
  with rm have p: "col_remove local_tasks ctx ctx' tid s = (removed, s')" by (simp add: local_remove_def)
  show ?thesis
  proof (cases removed)
    case (Inl e)
    with p ok show ?thesis by (auto simp: col_remove_def dest: lo.run_fails)
  next
    case (Inr x)
    with p have "remove_txn local_tasks None tid s = Inr (x, s')" by (auto simp: col_remove_def dest!: lo.run_succeeds)
    then have s': "\<forall>k. k \<noteq> localIndex \<longrightarrow> s' k = (s(localPrefix @ tid := None)) k"
      by (auto simp: remove_txn_def and_then_Inr local_keys lo_scoped kv_set_def kv_delete_def col_saveIndex_def)
    then have "recs_of s' = (recs_of s)(tid := None)" by (auto simp: recs_of_def fun_eq_iff)
    moreover have "s' localPrefix = None" using s' ok False local_index_key(1) [of "[]"] by (auto simp: recs_ok_def)
    ultimately show ?thesis using lo.remove_keeps_indexed [OF p] ok Inr by (auto simp: recs_ok_def split: if_splits)
  qed
qed

lemma mark_law:
  assumes ok: "recs_ok s" and m: "markDownloaded links ctx ctx' tid s = (marked, s')"
  shows "recs_ok s' \<and> recs_of s' = recs_of s"
proof -
  have same: "s' k = s k" if "\<not> has_prefix k linkPrefix" "k \<noteq> linkIndex" for k
  proof (cases marked)
    case (Inl e)
    with m have "s' = s" by (auto simp: markDownloaded_def dest: lk.mutate_fails)
    then show ?thesis by simp
  next
    case (Inr x)
    with m have "col_mutate links ctx ctx' tid (mark_downloaded tid) s = (Inr x, s')" by (simp add: markDownloaded_def)
    then show ?thesis
      using that by (cases rule: lk.mutate_cases) (auto simp: hub_selectors hub_keys split: if_splits)
  qed
  have "s' (localPrefix @ i) = s (localPrefix @ i)" "s' localIndex = s localIndex" for i
    using same [of "localPrefix @ i"] same [of localIndex] by (auto simp: hub_keys)
  moreover from this(1) [of "[]"] have "s' localPrefix = s localPrefix" by simp
  ultimately have "recs_of s' = recs_of s" "indexed local_tasks s' = indexed local_tasks s" "s' localPrefix = s localPrefix"
    using lo.index_is_cong [of s' s] by (auto simp: recs_of_def fun_eq_iff indexed_def local_keys)
  with ok show ?thesis by (simp add: recs_ok_def)
qed

interpretation lor: local_repository "local_repo c c' now version" recs_of recs_ok for c c' now version
proof
  fix s :: kv and tid found
  assume "recs_ok s" "lo_get (local_repo c c' now version) tid s = Inr found"
  then show "found = recs_of s tid" using local_get_law by (simp add: local_repo_def)
next
  fix s :: kv and tid r
  assume "recs_ok s" "recs_of s tid = Some r"
  from recs_of_rec_ok [OF this] show "rec_ok r \<and> lr_id r = tid \<and> tid \<noteq> []" by simp
next
  fix s s' :: kv and change tid upd
  assume "recs_ok s" "keeps_rec change" "lo_update (local_repo c c' now version) tid change s = (upd, s')"
  then show "recs_ok s' \<and> (if upd = Inr True
       then \<exists>cur new now. recs_of s tid = Some cur \<and> change cur = Some new \<and> downloadTransition (lr_status cur) (lr_status new)
              \<and> recs_of s' = (recs_of s)(tid := if (lr_revision cur + 1) mod 2 ^ 64 = 0 then None else Some (stamped tid now cur new))
       else recs_of s' = recs_of s)"
    using local_update_law [of s change "ctx_err c" "ctx_err c'" now tid upd s'] unfolding local_repo_def localRepo.simps by blast
next
  fix s s' :: kv and change tid
  assume "recs_ok s" "lo_update (local_repo c c' now version) tid change s = (Inr False, s')"
  then show "Option.bind (recs_of s tid) change = None" using local_update_declined [of s c c' now tid change s'] by (simp add: local_repo_def)
next
  fix s s' :: kv and listed
  assume "recs_ok s" "lo_records (local_repo c c' now version) s = (listed, s')"
  then show "recs_ok s' \<and> recs_of s' = recs_of s \<and> (case listed of Inl e \<Rightarrow> True | Inr rs \<Rightarrow> distinct (map fst rs)
         \<and> (\<forall>i r. (i, r) \<in> set rs \<longleftrightarrow> recs_of s i = Some r))"
    using local_records_law unfolding local_repo_def localRepo.simps by blast
next
  fix s s' :: kv and r made
  assume "recs_ok s" "rec_ok r" "lo_create (local_repo c c' now version) r s = (made, s')"
  then show "recs_ok s' \<and> (case made of
         Inl e \<Rightarrow> recs_of s' = recs_of s
       | Inr r' \<Rightarrow> recs_of s (lr_id r) = Some r' \<and> recs_of s' = recs_of s
           \<or> recs_of s (lr_id r) = None \<and> recs_of s' = (recs_of s)(lr_id r \<mapsto> r') \<and> lr_status r' = lr_status r \<and> lr_startedAt r' = lr_startedAt r)"
    using local_create_law unfolding local_repo_def localRepo.simps by blast
next
  fix s s' :: kv and tid removed
  assume "recs_ok s" "lo_remove (local_repo c c' now version) tid s = (removed, s')"
  then show "recs_ok s' \<and> recs_of s' = (if removed = Inr () then (recs_of s)(tid := None) else recs_of s)"
    using local_remove_law unfolding local_repo_def localRepo.simps by blast
next
  fix s s' :: kv and tid marked
  assume "recs_ok s" "lo_mark (local_repo c c' now version) tid s = (marked, s')"
  then show "recs_ok s' \<and> recs_of s' = recs_of s" using mark_law unfolding local_repo_def localRepo.simps by blast
qed

end
