(* ===== verification/Local_Worker.thy ===== *)
theory Local_Worker
  imports Local_Repository Target_Path
begin

text \<open>
  The local downloader of \<open>application/downloader.local\<close>: the execution of one download with its progress writer
  (\<open>worker.go\<close>, \<open>worker_writer.go\<close>, \<open>partial.go\<close>), the passes over all records at start and shutdown, and the queue that
  starts one execution per record (\<open>worker.go\<close>). An execution runs beside user commands and other goroutines; what they
  do to the store and the disk between two of its calls is an arbitrary function.
\<close>

section \<open>Changes of a record\<close>

definition ErrLocalDownloadPaused :: err where
  "ErrLocalDownloadPaused = ErrMsg ''local download paused''"

definition ErrLocalDownloadRemoved :: err where
  "ErrLocalDownloadRemoved = ErrMsg ''local download removed''"

definition shouldRunLocalDownload :: "string \<Rightarrow> bool" where
  "shouldRunLocalDownload st \<longleftrightarrow> st = ''queued'' \<or> st = ''error''"

definition shouldPauseForShutdown :: "string \<Rightarrow> bool" where
  "shouldPauseForShutdown st \<longleftrightarrow> \<not> (st = ''complete'' \<or> st = ''removed'' \<or> st = ''paused'')"

definition sameExecution :: "localDownloadRecord \<Rightarrow> localDownloadRecord \<Rightarrow> bool" where
  "sameExecution current previous =
     (if lr_createdAt current \<noteq> lr_createdAt previous then False
      else case (lr_startedAt current, lr_startedAt previous) of
             (Some a, Some b) \<Rightarrow> a = b
           | (a, b) \<Rightarrow> a = None \<and> b = None)"

text \<open>The callbacks that the worker passes to \<open>Update\<close>.\<close>

definition ld_shutdown :: "localDownloadRecord \<Rightarrow> localDownloadRecord option" where
  "ld_shutdown cur =
     (if \<not> shouldPauseForShutdown (lr_status cur) then None
      else Some (cur\<lparr>lr_status := ''paused'', lr_error := [], lr_speed := 0\<rparr>))"

definition ld_recover :: "localDownloadRecord \<Rightarrow> localDownloadRecord option" where
  "ld_recover cur =
     (if lr_status cur \<noteq> ''active'' then None else Some (cur\<lparr>lr_status := ''queued'', lr_error := []\<rparr>))"

definition ld_claim :: "localDownloadRecord \<Rightarrow> instant \<Rightarrow> int \<Rightarrow> localDownloadRecord \<Rightarrow> localDownloadRecord option" where
  "ld_claim r now compl cur =
     (if \<not> sameExecution cur r \<or> \<not> shouldRunLocalDownload (lr_status cur) then None
      else Some (cur\<lparr>lr_status := ''active'', lr_error := [], lr_startedAt := Some now, lr_speed := 0, lr_total := lr_total r,
                    lr_completed := compl\<rparr>))"

definition ld_live :: "localDownloadRecord \<Rightarrow> localDownloadRecord \<Rightarrow> bool" where
  "ld_live r cur \<longleftrightarrow> sameExecution cur r \<and> (lr_status cur = ''active'' \<or> shouldRunLocalDownload (lr_status cur))"

definition ld_complete :: "localDownloadRecord \<Rightarrow> localDownloadRecord \<Rightarrow> localDownloadRecord option" where
  "ld_complete r cur =
     (if \<not> ld_live r cur then None
      else Some (cur\<lparr>lr_status := ''complete'', lr_completed := lr_total r, lr_total := lr_total r, lr_error := [], lr_speed := 0\<rparr>))"

definition ld_error :: "string \<Rightarrow> localDownloadRecord \<Rightarrow> localDownloadRecord \<Rightarrow> localDownloadRecord option" where
  "ld_error cause r cur =
     (if \<not> ld_live r cur then None else Some (cur\<lparr>lr_status := ''error'', lr_error := cause, lr_speed := 0\<rparr>))"

definition ld_progress :: "localDownloadRecord \<Rightarrow> int \<Rightarrow> int \<Rightarrow> int \<Rightarrow> localDownloadRecord \<Rightarrow> localDownloadRecord option" where
  "ld_progress r compl tot speed cur =
     (if lr_status cur \<noteq> ''active'' \<or> \<not> sameExecution cur r then None
      else Some (cur\<lparr>lr_completed := compl, lr_total := if lr_total cur \<le> 0 then tot else lr_total cur, lr_speed := speed\<rparr>))"

section \<open>Files\<close>

text \<open>
  The disk maps paths to files and directories. A descriptor is identified with its path: a file that was unlinked
  meanwhile is not written.
\<close>

datatype entry = Dir | File string

type_synonym disk = "string \<rightharpoonup> entry"

text \<open>\<open>prepareInternalPartialFile\<close>: \<open>stat\<close> and \<open>trunc\<close> are the errors of the system calls other than a missing file.\<close>

definition preparePartialFile :: "err option \<Rightarrow> err option \<Rightarrow> string \<Rightarrow> int \<Rightarrow> disk \<Rightarrow> int res \<times> disk" where
  "preparePartialFile stat trunc path tot d =
     (case stat of
        Some e \<Rightarrow> (Inl e, d)
      | None \<Rightarrow>
          (case d path of
             None \<Rightarrow> (Inr 0, d)
           | Some Dir \<Rightarrow> (Inl (ErrMsg (path @ '' is a directory'')), d)
           | Some (File b) \<Rightarrow>
               if tot > 0 \<and> int (length b) > tot
               then (case trunc of
                       Some e \<Rightarrow> (Inl (ErrWrap ''truncate oversized partial file'' e), d)
                     | None \<Rightarrow> (Inr 0, d(path \<mapsto> File [])))
               else (Inr (int (length b)), d)))"

text \<open>\<open>os.OpenFile\<close> with \<open>O_CREATE\<close>, and a write at an offset, which fills a gap with zero bytes.\<close>

definition create_file :: "string \<Rightarrow> disk \<Rightarrow> disk" where
  "create_file path d = (if d path = None then d(path \<mapsto> File []) else d)"

definition write_at :: "string \<Rightarrow> nat \<Rightarrow> string \<Rightarrow> disk \<Rightarrow> disk" where
  "write_at path off p d =
     (case d path of
        Some (File b) \<Rightarrow> d(path \<mapsto> File (take off b @ replicate (off - length b) (CHR 0x00) @ p @ drop (off + length p) b))
      | _ \<Rightarrow> d)"

section \<open>One execution\<close>

record sourceInfo =
  si_id :: string
  si_fileSize :: int
  si_available :: bool

text \<open>
  One call of \<open>Write\<close> by the source: the bytes it passes, what the file answers when it does not accept all of them, whether
  a second has passed since the last save, and the speed that is measured.
\<close>

record chunk =
  wc_data :: string
  wc_fail :: "(nat \<times> err) option"
  wc_due :: bool
  wc_speed :: int

text \<open>
  Everything an execution is answered. \<open>xw_repo n\<close> is the repository in its \<open>n\<close>-th call, with the contexts and the clock of that
  call, and \<open>xw_env n\<close> what others did to store and disk before it. \<open>xw_stream\<close> is the result of \<open>Stream\<close> from the error with
  which \<open>Write\<close> refused, if it did.
\<close>

record 'st xworld =
  xw_repo :: "nat \<Rightarrow> 'st localRepo"
  xw_env :: "nat \<Rightarrow> 'st \<times> disk \<Rightarrow> 'st \<times> disk"
  xw_text :: "err \<Rightarrow> string"
  xw_dirOf :: "string \<Rightarrow> string"
  xw_hasSource :: bool
  xw_source :: "sourceInfo option res"
  xw_mkdir :: "err option"
  xw_stat :: "err option"
  xw_truncate :: "err option"
  xw_acquire :: "err option"
  xw_now :: instant
  xw_open :: "err option"
  xw_seek :: "err option"
  xw_chunks :: "chunk list"
  xw_stream :: "err option \<Rightarrow> err option"
  xw_close :: "err option"
  xw_speed :: int

datatype xevent = LeaseAcquired | LeaseReleased | Completed | Failed err

type_synonym 'st xstate = "'st \<times> disk"
type_synonym 'st xresult = "xevent list \<times> 'st xstate"

definition xw_update :: "'st xworld \<Rightarrow> nat \<Rightarrow> string \<Rightarrow> (localDownloadRecord \<Rightarrow> localDownloadRecord option) \<Rightarrow> 'st xstate \<Rightarrow> bool res \<times> 'st xstate" where
  "xw_update w n tid change st =
     (case xw_env w n st of (s, d) \<Rightarrow> (case lo_update (xw_repo w n) tid change s of (r, s') \<Rightarrow> (r, (s', d))))"

definition markComplete :: "'st xworld \<Rightarrow> nat \<Rightarrow> localDownloadRecord \<Rightarrow> 'st xstate \<Rightarrow> 'st xresult" where
  "markComplete w n r st =
     (case xw_update w n (lr_id r) (ld_complete r) st of
        (Inr True, st1) \<Rightarrow>
          (case xw_env w (Suc n) st1 of
             (s, d) \<Rightarrow> ([Completed], (snd (lo_mark (xw_repo w (Suc n)) (lr_taskID r) s), d)))
      | (_, st1) \<Rightarrow> ([], st1))"

definition markError :: "'st xworld \<Rightarrow> nat \<Rightarrow> localDownloadRecord \<Rightarrow> err \<Rightarrow> 'st xstate \<Rightarrow> 'st xresult" where
  "markError w n r cause st =
     (case xw_update w n (lr_id r) (ld_error (xw_text w cause) r) st of
        (Inr True, st1) \<Rightarrow> ([Failed cause], st1)
      | (_, st1) \<Rightarrow> ([], st1))"

text \<open>\<open>checkStatus\<close> of the progress writer; \<open>r\<close> is the record as it was claimed.\<close>

definition checkStatus :: "'st xworld \<Rightarrow> nat \<Rightarrow> localDownloadRecord \<Rightarrow> 'st \<Rightarrow> err option" where
  "checkStatus w n r s =
     (case lo_get (xw_repo w n) (lr_id r) s of
        Inl e \<Rightarrow> Some e
      | Inr None \<Rightarrow> Some ErrLocalDownloadRemoved
      | Inr (Some cur) \<Rightarrow>
          if \<not> sameExecution cur r then Some ErrLocalDownloadRemoved
          else if lr_status cur = ''paused'' then Some ErrLocalDownloadPaused
          else if lr_status cur = ''removed'' then Some ErrLocalDownloadRemoved
          else None)"

definition flush :: "'st xworld \<Rightarrow> nat \<Rightarrow> localDownloadRecord \<Rightarrow> int \<Rightarrow> int \<Rightarrow> 'st xstate \<Rightarrow> 'st xstate" where
  "flush w n r compl speed st = snd (xw_update w n (lr_id r) (ld_progress r compl (lr_total r) speed) st)"

text \<open>\<open>Write\<close> of the progress writer, as the calls \<open>n\<close> and \<open>n + 1\<close>; the result is the error, the bytes completed and the state.\<close>

definition write_chunk :: "'st xworld \<Rightarrow> nat \<Rightarrow> localDownloadRecord \<Rightarrow> chunk \<Rightarrow> int \<Rightarrow> 'st xstate \<Rightarrow> err option \<times> int \<times> 'st xstate" where
  "write_chunk w n r c compl st =
     (case xw_env w n st of
        (s, d) \<Rightarrow>
          (case checkStatus w n r s of
             Some e \<Rightarrow> (Some e, compl, (s, d))
           | None \<Rightarrow>
               let p = (case wc_fail c of None \<Rightarrow> wc_data c | Some (k, e) \<Rightarrow> take k (wc_data c));
                   d1 = write_at (lr_path r) (nat compl) p d;
                   compl1 = wrap64 (compl + int (length p));
                   er = map_option snd (wc_fail c)
               in if p \<noteq> [] \<and> (wc_due c \<or> compl1 \<ge> lr_total r)
                  then (er, compl1, flush w (Suc n) r compl1 (wc_speed c) (s, d1))
                  else (er, compl1, (s, d1))))"

text \<open>The source passes its chunks in turn and stops when one is refused.\<close>

fun stream_chunks :: "'st xworld \<Rightarrow> nat \<Rightarrow> localDownloadRecord \<Rightarrow> chunk list \<Rightarrow> int \<Rightarrow> 'st xstate \<Rightarrow> err option \<times> int \<times> 'st xstate" where
  "stream_chunks w n r [] compl st = (None, compl, st)"
| "stream_chunks w n r (c # cs) compl st =
     (case write_chunk w n r c compl st of
        (Some e, compl1, st1) \<Rightarrow> (Some e, compl1, st1)
      | (None, compl1, st1) \<Rightarrow> stream_chunks w (n + 2) r cs compl1 st1)"

text \<open>The part of \<open>Execute\<close> that holds the lease, from the opening of the file on.\<close>

definition download :: "'st xworld \<Rightarrow> localDownloadRecord \<Rightarrow> int \<Rightarrow> 'st xstate \<Rightarrow> 'st xresult" where
  "download w r compl st =
     (case xw_open w of
        Some e \<Rightarrow> markError w 5 r (ErrWrap ''open target file'' e) st
      | None \<Rightarrow>
          let st1 = (fst st, create_file (lr_path r) (snd st))
          in case xw_seek w of
               Some e \<Rightarrow> markError w 5 r (ErrWrap ''seek target file'' e) st1
             | None \<Rightarrow>
                 (case stream_chunks w 6 r (xw_chunks w) compl st1 of
                    (er, compl1, st2) \<Rightarrow>
                      let m = 6 + 2 * length (xw_chunks w);
                          er1 = (case xw_stream w er of None \<Rightarrow> xw_close w | Some e \<Rightarrow> Some e);
                          er2 = (if er1 = None \<and> compl1 \<noteq> lr_total r then Some ErrUnexpectedEOF else er1)
                      in case er2 of
                           None \<Rightarrow> markComplete w (m + 1) (r\<lparr>lr_completed := lr_total r\<rparr>) (flush w m r compl1 (xw_speed w) st2)
                         | Some e \<Rightarrow>
                             if errors_is e Canceled \<or> errors_is e ErrLocalDownloadPaused \<or> errors_is e ErrLocalDownloadRemoved then ([], st2)
                             else markError w m r e st2))"

text \<open>The part of \<open>Execute\<close> after the lookup of the source; the record that \<open>Update\<close> showed to the claim is the one it changed.\<close>

definition transfer :: "'st xworld \<Rightarrow> ('st \<Rightarrow> string \<rightharpoonup> localDownloadRecord) \<Rightarrow> localDownloadRecord \<Rightarrow> int \<Rightarrow> 'st xstate \<Rightarrow> 'st xresult" where
  "transfer w seen r compl st =
     (if compl \<ge> lr_total r then markComplete w 2 r st
      else case xw_acquire w of
             Some e \<Rightarrow> if errors_is e Canceled then ([], st) else markError w 2 r e st
           | None \<Rightarrow>
               (case xw_update w 4 (lr_id r) (ld_claim r (xw_now w) compl) st of
                  (Inr True, st1) \<Rightarrow>
                    (case Option.bind (seen (fst (xw_env w 4 st)) (lr_id r)) (ld_claim r (xw_now w) compl) of
                       None \<Rightarrow> ([LeaseAcquired, LeaseReleased], st1)
                     | Some claimed \<Rightarrow>
                         (case download w claimed compl st1 of (es, st2) \<Rightarrow> (LeaseAcquired # es @ [LeaseReleased], st2)))
                | (_, st1) \<Rightarrow> ([LeaseAcquired, LeaseReleased], st1)))"

definition target :: "'st xworld \<Rightarrow> localDownloadRecord \<Rightarrow> localDownloadRecord" where
  "target w r =
     (let r1 = (if lr_path r = [] then r\<lparr>lr_path := joinTargetPath (lr_dir r) [lr_out r]\<rparr> else r)
      in if lr_dir r1 = [] then r1\<lparr>lr_dir := xw_dirOf w (lr_path r1)\<rparr> else r1)"

definition resume :: "'st xworld \<Rightarrow> ('st \<Rightarrow> string \<rightharpoonup> localDownloadRecord) \<Rightarrow> localDownloadRecord \<Rightarrow> 'st xstate \<Rightarrow> 'st xresult" where
  "resume w seen r st =
     (case xw_mkdir w of
        Some e \<Rightarrow> markError w 1 r (ErrWrap ''create target directory'' e) st
      | None \<Rightarrow>
          (case xw_env w 1 st of
             (s, d) \<Rightarrow>
               (case preparePartialFile (xw_stat w) (xw_truncate w) (lr_path r) (lr_total r) d of
                  (Inl e, d1) \<Rightarrow> markError w 2 r e (s, d1)
                | (Inr compl, d1) \<Rightarrow> transfer w seen (r\<lparr>lr_completed := compl\<rparr>) compl (s, d1))))"

definition sized :: "sourceInfo \<Rightarrow> localDownloadRecord \<Rightarrow> localDownloadRecord" where
  "sized task r = (if si_fileSize task > 0 then r\<lparr>lr_total := si_fileSize task\<rparr> else r)"

definition execute_record :: "'st xworld \<Rightarrow> ('st \<Rightarrow> string \<rightharpoonup> localDownloadRecord) \<Rightarrow> localDownloadRecord \<Rightarrow> 'st xstate \<Rightarrow> 'st xresult" where
  "execute_record w seen r st =
     (if \<not> xw_hasSource w then markError w 1 r (ErrMsg ''download proxy is not initialized'') st
      else case xw_source w of
             Inl e \<Rightarrow> markError w 1 r e st
           | Inr None \<Rightarrow> markError w 1 r (ErrMsg ''download link record not found'') st
           | Inr (Some task) \<Rightarrow>
               if \<not> si_available task then markError w 1 r (ErrMsg ''download media is not available'') st
               else if lr_total (sized task r) \<le> 0 then markError w 1 (sized task r) (ErrMsg ''invalid file size'') st
               else resume w seen (target w (sized task r)) st)"

definition execute :: "'st xworld \<Rightarrow> ('st \<Rightarrow> string \<rightharpoonup> localDownloadRecord) \<Rightarrow> string \<Rightarrow> 'st xstate \<Rightarrow> 'st xresult" where
  "execute w seen tid st0 =
     (case xw_env w 0 st0 of
        (s, d) \<Rightarrow>
          (case lo_get (xw_repo w 0) tid s of
             Inl e \<Rightarrow> ([], (s, d))
           | Inr None \<Rightarrow> ([], (s, d))
           | Inr (Some r) \<Rightarrow>
               if \<not> shouldRunLocalDownload (lr_status r) then ([], (s, d)) else execute_record w seen r (s, d)))"

section \<open>Passes over all records\<close>

text \<open>\<open>Recover\<close>, \<open>PauseForShutdown\<close> and \<open>enqueuePending\<close>: one listing as call 0, then one call per record in the order of the listing.\<close>

definition xw_records :: "'st xworld \<Rightarrow> nat \<Rightarrow> 'st xstate \<Rightarrow> (string \<times> localDownloadRecord) list res \<times> 'st xstate" where
  "xw_records w n st = (case xw_env w n st of (s, d) \<Rightarrow> (case lo_records (xw_repo w n) s of (rs, s') \<Rightarrow> (rs, (s', d))))"

fun recover_pass :: "'st xworld \<Rightarrow> nat \<Rightarrow> (string \<times> localDownloadRecord) list \<Rightarrow> 'st xstate \<Rightarrow> err option \<times> 'st xstate" where
  "recover_pass w n [] st = (None, st)"
| "recover_pass w n ((i, r) # rs) st =
     (case xw_update w n (lr_id r) ld_recover st of
        (Inl e, st1) \<Rightarrow> (Some e, st1)
      | (Inr _, st1) \<Rightarrow> recover_pass w (Suc n) rs st1)"

definition recover :: "'st xworld \<Rightarrow> 'st xstate \<Rightarrow> err option \<times> 'st xstate" where
  "recover w st = (case xw_records w 0 st of (Inl e, st1) \<Rightarrow> (Some e, st1) | (Inr rs, st1) \<Rightarrow> recover_pass w 1 rs st1)"

fun shutdown_pass :: "'st xworld \<Rightarrow> nat \<Rightarrow> (string \<times> localDownloadRecord) list \<Rightarrow> string list \<Rightarrow> 'st xstate \<Rightarrow> string list \<times> err option \<times> 'st xstate" where
  "shutdown_pass w n [] paused st = (paused, None, st)"
| "shutdown_pass w n ((i, r) # rs) paused st =
     (case xw_update w n (lr_id r) ld_shutdown st of
        (Inl e, st1) \<Rightarrow> (paused, Some e, st1)
      | (Inr changed, st1) \<Rightarrow> shutdown_pass w (Suc n) rs (if changed then paused @ [lr_id r] else paused) st1)"

definition pauseForShutdown :: "'st xworld \<Rightarrow> 'st xstate \<Rightarrow> string list \<times> err option \<times> 'st xstate" where
  "pauseForShutdown w st =
     (case xw_records w 0 st of (Inl e, st1) \<Rightarrow> ([], Some e, st1) | (Inr rs, st1) \<Rightarrow> shutdown_pass w 1 rs [] st1)"

text \<open>The ids that \<open>enqueuePending\<close> hands to \<open>queueID\<close>.\<close>

definition pending_ids :: "'st xworld \<Rightarrow> 'st xstate \<Rightarrow> string list res \<times> 'st xstate" where
  "pending_ids w st =
     (case xw_records w 0 st of
        (Inl e, st1) \<Rightarrow> (Inl e, st1)
      | (Inr rs, st1) \<Rightarrow> (Inr (map (\<lambda>(i, r). lr_id r) (filter (\<lambda>(i, r). shouldRunLocalDownload (lr_status r)) rs)), st1))"

section \<open>What the worker may change\<close>

text \<open>The worker only touches records that run or wait to run.\<close>

definition worker_change :: "(localDownloadRecord \<Rightarrow> localDownloadRecord option) \<Rightarrow> bool" where
  "worker_change ch \<longleftrightarrow> keeps_rec ch \<and> (\<forall>cur new. ch cur = Some new \<longrightarrow> lr_status cur \<in> {''active'', ''queued'', ''error''} \<and> lr_path new = lr_path cur)"

lemma sameExecution_iff: "sameExecution a b \<longleftrightarrow> lr_createdAt a = lr_createdAt b \<and> lr_startedAt a = lr_startedAt b"
  by (auto simp: sameExecution_def split: option.splits)

lemmas ld_defs = ld_shutdown_def ld_recover_def ld_claim_def ld_complete_def ld_error_def ld_progress_def ld_live_def
  shouldRunLocalDownload_def shouldPauseForShutdown_def

lemma status_members [simp]:
  "''queued'' \<in> statuses" "''active'' \<in> statuses" "''paused'' \<in> statuses" "''complete'' \<in> statuses" "''error'' \<in> statuses" "''removed'' \<in> statuses"
  by (simp_all add: statuses_def)

lemma worker_changes [intro]:
  "int64_ok (lr_total r) \<Longrightarrow> int64_ok compl \<Longrightarrow> worker_change (ld_claim r now compl)"
  "int64_ok (lr_total r) \<Longrightarrow> worker_change (ld_complete r)"
  "worker_change (ld_error cause r)"
  "int64_ok tot \<Longrightarrow> int64_ok compl \<Longrightarrow> int64_ok speed \<Longrightarrow> worker_change (ld_progress r compl tot speed)"
  "worker_change ld_recover"
  by (auto simp: worker_change_def keeps_rec_def rec_ok_def ld_defs split: if_splits)

text \<open>Numbers of a world that have Go's integer type.\<close>

definition typed_world :: "'st xworld \<Rightarrow> bool" where
  "typed_world w \<longleftrightarrow> int64_ok (xw_speed w) \<and> (\<forall>c \<in> set (xw_chunks w). int64_ok (wc_speed c))
     \<and> (case xw_source w of Inr (Some task) \<Rightarrow> int64_ok (si_fileSize task) | _ \<Rightarrow> True)"

locale local_downloads =
  fixes repos :: "'st localRepo set" and recs :: "'st \<Rightarrow> string \<rightharpoonup> localDownloadRecord" and ok :: "'st \<Rightarrow> bool"
  assumes repo: "repo \<in> repos \<Longrightarrow> local_repository repo recs ok"
begin

text \<open>A predicate on stores that nobody else breaks and that the worker's own calls keep.\<close>

definition kept :: "'st xworld \<Rightarrow> ('st \<Rightarrow> bool) \<Rightarrow> bool" where
  "kept w I \<longleftrightarrow> typed_world w \<and> (\<forall>n. xw_repo w n \<in> repos) \<and> (\<forall>n s d. I s \<longrightarrow> I (fst (xw_env w n (s, d)))) \<and> (\<forall>s. I s \<longrightarrow> ok s)
     \<and> (\<forall>n tid ch s. I s \<longrightarrow> worker_change ch \<longrightarrow> I (snd (lo_update (xw_repo w n) tid ch s)))
     \<and> (\<forall>n tid s. I s \<longrightarrow> I (snd (lo_mark (xw_repo w n) tid s)))"

lemma env_keeps: "kept w I \<Longrightarrow> I (fst st) \<Longrightarrow> I (fst (xw_env w n st))"
  by (cases st) (auto simp: kept_def)

lemma update_keeps: "kept w I \<Longrightarrow> worker_change ch \<Longrightarrow> I (fst st) \<Longrightarrow> xw_update w n tid ch st = (r, st') \<Longrightarrow> I (fst st')"
proof -
  assume k: "kept w I" "worker_change ch" "I (fst st)" and u: "xw_update w n tid ch st = (r, st')"
  obtain s d where e: "xw_env w n st = (s, d)" by fastforce
  then have "I s" using env_keeps [OF k(1,3), of n] by simp
  then have "I (snd (lo_update (xw_repo w n) tid ch s))" using k(1,2) by (auto simp: kept_def)
  with u e show ?thesis by (auto simp: xw_update_def split: prod.splits)
qed

lemma markComplete_keeps:
  assumes "kept w I" "int64_ok (lr_total r)" "I (fst st)"
  shows "I (fst (snd (markComplete w n r st)))"
proof -
  obtain x st1 where u: "xw_update w n (lr_id r) (ld_complete r) st = (x, st1)" by (rule prod.exhaust)
  have i: "I (fst st1)" using update_keeps [OF assms(1) worker_changes(2) [OF assms(2)] assms(3) u] .
  obtain s d where e: "xw_env w (Suc n) st1 = (s, d)" by fastforce
  then have "I s" using env_keeps [OF assms(1) i, of "Suc n"] by simp
  then have "I (snd (lo_mark (xw_repo w (Suc n)) (lr_taskID r) s))" using assms(1) by (auto simp: kept_def)
  with i u e show ?thesis by (auto simp: markComplete_def split: sum.splits bool.splits)
qed

lemma markError_keeps:
  assumes "kept w I" "I (fst st)"
  shows "I (fst (snd (markError w n r cause st)))"
proof -
  obtain x st1 where u: "xw_update w n (lr_id r) (ld_error (xw_text w cause) r) st = (x, st1)" by (rule prod.exhaust)
  have "I (fst st1)" using update_keeps [OF assms(1) worker_changes(3) assms(2) u] .
  with u show ?thesis by (auto simp: markError_def split: sum.splits bool.splits)
qed

lemma flush_keeps:
  assumes "kept w I" "int64_ok (lr_total r)" "int64_ok compl" "int64_ok speed" "I (fst st)"
  shows "I (fst (flush w n r compl speed st))"
proof -
  obtain x st1 where u: "xw_update w n (lr_id r) (ld_progress r compl (lr_total r) speed) st = (x, st1)" by (rule prod.exhaust)
  have "I (fst st1)" using update_keeps [OF assms(1) worker_changes(4) [OF assms(2-4)] assms(5) u] .
  with u show ?thesis by (simp add: flush_def)
qed

lemma write_chunk_keeps:
  assumes "kept w I" "int64_ok (lr_total r)" "int64_ok (wc_speed c)" "I (fst st)"
  shows "I (fst (snd (snd (write_chunk w n r c compl st))))"
proof -
  obtain s d where e: "xw_env w n st = (s, d)" by fastforce
  then have "I s" using env_keeps [OF assms(1,4), of n] by simp
  with flush_keeps [OF assms(1,2) _ assms(3)] e show ?thesis by (auto simp: write_chunk_def split: option.splits)
qed

lemma stream_chunks_keeps:
  assumes "kept w I" "int64_ok (lr_total r)" "\<forall>c \<in> set cs. int64_ok (wc_speed c)" "I (fst st)"
  shows "I (fst (snd (snd (stream_chunks w n r cs compl st))))"
  using assms(3,4)
proof (induction cs arbitrary: n compl st)
  case (Cons c cs)
  obtain er compl1 st1 where wr: "write_chunk w n r c compl st = (er, compl1, st1)" by (cases "write_chunk w n r c compl st")
  have "I (fst st1)" using write_chunk_keeps [OF assms(1,2), of c st n compl] Cons.prems wr by simp
  with Cons wr show ?case by (auto split: option.splits)
qed simp

lemma download_keeps:
  assumes "kept w I" "int64_ok (lr_total r)" "I (fst st)"
  shows "I (fst (snd (download w r compl st)))"
proof -
  obtain er compl1 st2 where str: "stream_chunks w 6 r (xw_chunks w) compl (fst st, create_file (lr_path r) (snd st)) = (er, compl1, st2)"
    by (cases "stream_chunks w 6 r (xw_chunks w) compl (fst st, create_file (lr_path r) (snd st))")
  have t: "int64_ok (xw_speed w)" "\<forall>c \<in> set (xw_chunks w). int64_ok (wc_speed c)" using assms(1) by (auto simp: kept_def typed_world_def)
  have i: "I (fst st2)" using stream_chunks_keeps [OF assms(1,2) t(2), of "(fst st, create_file (lr_path r) (snd st))" 6 compl] assms(3) str by simp
  have fin: "I (fst (snd (markComplete w (Suc (6 + 2 * length (xw_chunks w))) (r\<lparr>lr_completed := lr_total r\<rparr>)
      (flush w (6 + 2 * length (xw_chunks w)) r (lr_total r) (xw_speed w) st2))))"
    by (rule markComplete_keeps [OF assms(1) _ flush_keeps [OF assms(1,2,2) t(1) i]]) (simp add: assms(2))
  show ?thesis
    using markError_keeps [OF assms(1) i] markError_keeps [OF assms(1), of "(fst st, create_file (lr_path r) (snd st))"]
      markError_keeps [OF assms(1) assms(3)] assms(3) i fin
    by (simp add: download_def str split: option.splits if_splits)
qed

lemma transfer_keeps:
  assumes "kept w I" "int64_ok (lr_total r)" "int64_ok compl" "I (fst st)"
  shows "I (fst (snd (transfer w seen r compl st)))"
proof -
  obtain x st1 where u: "xw_update w 4 (lr_id r) (ld_claim r (xw_now w) compl) st = (x, st1)" by (rule prod.exhaust)
  have i: "I (fst st1)" using update_keeps [OF assms(1) worker_changes(1) [OF assms(2,3)] assms(4) u] .
  have dl: "I (fst (snd (download w claimed compl st1)))" if "Option.bind found (ld_claim r (xw_now w) compl) = Some claimed" for found claimed
    by (rule download_keeps [OF assms(1) _ i]) (use that assms(2) in \<open>auto simp: ld_claim_def bind_eq_Some_conv split: if_splits\<close>)
  show ?thesis
  proof (cases "x = Inr True")
    case True
    with i dl markComplete_keeps [OF assms(1,2,4)] markError_keeps [OF assms(1,4)] assms(4) u show ?thesis
      by (cases "Option.bind (seen (fst (xw_env w 4 st)) (lr_id r)) (ld_claim r (xw_now w) compl)")
        (simp_all add: transfer_def case_prod_beta split: option.splits)
  next
    case False
    with i markComplete_keeps [OF assms(1,2,4)] markError_keeps [OF assms(1,4)] assms(4) u show ?thesis
      by (auto simp: transfer_def split: option.splits sum.splits bool.splits)
  qed
qed

lemma prepared_int64:
  "preparePartialFile stat trunc path tot d = (Inr compl, d') \<Longrightarrow> int64_ok tot \<Longrightarrow> 0 < tot \<Longrightarrow> int64_ok compl \<and> 0 \<le> compl \<and> compl \<le> tot"
  by (auto simp: preparePartialFile_def int64_ok_def split: option.splits entry.splits if_splits)

lemma found_valid:
  assumes "kept w I" "I s" "lo_get (xw_repo w n) tid s = Inr (Some r)"
  shows "recs s tid = Some r \<and> rec_ok r \<and> lr_id r = tid \<and> tid \<noteq> []"
proof -
  from assms(1) have rp: "local_repository (xw_repo w n) recs ok" by (auto simp: kept_def intro: repo)
  have o: "ok s" using assms(1,2) by (auto simp: kept_def)
  have "recs s tid = Some r" using local_repository.get_law [OF rp o assms(3)] by simp
  with local_repository.recs_valid [OF rp o] show ?thesis by blast
qed

lemma target_simps [simp]: "lr_total (target w r) = lr_total r" "lr_id (target w r) = lr_id r" "lr_createdAt (target w r) = lr_createdAt r"
  "lr_startedAt (target w r) = lr_startedAt r" "lr_taskID (target w r) = lr_taskID r" "lr_path r \<noteq> [] \<Longrightarrow> lr_path (target w r) = lr_path r"
  by (simp_all add: target_def)

lemma sized_simps [simp]: "lr_id (sized task r) = lr_id r" "lr_path (sized task r) = lr_path r" "lr_createdAt (sized task r) = lr_createdAt r"
  "lr_startedAt (sized task r) = lr_startedAt r" "lr_taskID (sized task r) = lr_taskID r" "0 < si_fileSize task \<Longrightarrow> lr_total (sized task r) = si_fileSize task"
  by (simp_all add: sized_def)

lemma resume_keeps:
  assumes k: "kept w I" and t: "int64_ok (lr_total r)" "0 < lr_total r" and i: "I (fst st)"
  shows "I (fst (snd (resume w seen r st)))"
proof -
  obtain s d where e: "xw_env w 1 st = (s, d)" by fastforce
  then have s: "I s" using env_keeps [OF k i, of 1] by simp
  obtain p d1 where p: "preparePartialFile (xw_stat w) (xw_truncate w) (lr_path r) (lr_total r) d = (p, d1)" by (rule prod.exhaust)
  have "I (fst (snd (transfer w seen (r\<lparr>lr_completed := compl\<rparr>) compl (s, d1))))" if "p = Inr compl" for compl
    by (rule transfer_keeps [OF k]) (use prepared_int64 [OF _ t, of _ _ _ _ compl d1] p that t s in simp_all)
  with e p s i markError_keeps [OF k] show ?thesis by (simp add: resume_def split: option.split sum.split)
qed

lemma execute_record_keeps:
  assumes k: "kept w I" and t: "int64_ok (lr_total r)" and i: "I (fst st)"
  shows "I (fst (snd (execute_record w seen r st)))"
proof (cases "\<exists>task. xw_source w = Inr (Some task)")
  case True
  then obtain task where src: "xw_source w = Inr (Some task)" by blast
  have "int64_ok (si_fileSize task)" using k src by (auto simp: kept_def typed_world_def)
  then have "int64_ok (lr_total (target w (sized task r)))" using t by (simp add: sized_def)
  from resume_keeps [OF k this _ i] markError_keeps [OF k i] src show ?thesis by (simp add: execute_record_def)
next
  case False
  with markError_keeps [OF k i] show ?thesis by (auto simp: execute_record_def split: sum.splits option.splits)
qed

theorem execute_keeps:
  assumes k: "kept w I" and i: "I (fst st)"
  shows "I (fst (snd (execute w seen tid st)))"
proof -
  obtain s d where e: "xw_env w 0 st = (s, d)" by fastforce
  then have s: "I s" using env_keeps [OF k i, of 0] by simp
  have "I (fst (snd (execute_record w seen r (s, d))))" if "lo_get (xw_repo w 0) tid s = Inr (Some r)" for r
    by (rule execute_record_keeps [OF k]) (use found_valid [OF k s that] s in \<open>simp_all add: rec_ok_def\<close>)
  with e s show ?thesis by (simp add: execute_def split: sum.split option.split)
qed

text \<open>The pass at start keeps the same predicates; so does listing when the predicate only looks at the records.\<close>

lemma records_keeps:
  assumes "kept w I" "\<forall>s s'. recs s' = recs s \<longrightarrow> ok s' \<longrightarrow> I s \<longrightarrow> I s'" "I (fst st)" "xw_records w n st = (rs, st')"
  shows "I (fst st')"
proof -
  obtain s d where e: "xw_env w n st = (s, d)" by fastforce
  then have s: "I s" using env_keeps [OF assms(1,3), of n] by simp
  from assms(1) have rp: "local_repository (xw_repo w n) recs ok" by (auto simp: kept_def intro: repo)
  obtain x s' where l: "lo_records (xw_repo w n) s = (x, s')" by fastforce
  from local_repository.records_law [OF rp _ l] s assms(1) have "ok s' \<and> recs s' = recs s" by (auto simp: kept_def)
  with assms(2,4) s e l show ?thesis by (auto simp: xw_records_def)
qed

lemma recover_pass_keeps: "kept w I \<Longrightarrow> I (fst st) \<Longrightarrow> recover_pass w n rs st = (r, st') \<Longrightarrow> I (fst st')"
proof (induction rs arbitrary: n st)
  case (Cons x rs)
  obtain i q where x: "x = (i, q)" by fastforce
  obtain y st1 where u: "xw_update w n (lr_id q) ld_recover st = (y, st1)" by (rule prod.exhaust)
  have "I (fst st1)" using update_keeps [OF Cons.prems(1) worker_changes(5) Cons.prems(2) u] .
  with Cons u x show ?case by (auto split: sum.splits)
qed simp

text \<open>Records that are paused, complete or removed are left alone.\<close>

definition held :: "string \<Rightarrow> string \<Rightarrow> 'st \<Rightarrow> bool" where
  "held status tid s \<longleftrightarrow> ok s \<and> (\<exists>r. recs s tid = Some r \<and> lr_status r = status)"

lemma repo_of: "\<forall>n. xw_repo w n \<in> repos \<Longrightarrow> local_repository (xw_repo w n) recs ok"
  by (simp add: repo)

lemma update_held:
  assumes "local_repository rp recs ok" "worker_change ch" "held status tid s" "status \<notin> {''active'', ''queued'', ''error''}"
  shows "held status tid (snd (lo_update rp i ch s))"
proof -
  obtain x s' where u: "lo_update rp i ch s = (x, s')" by fastforce
  have s: "ok s" "keeps_rec ch" using assms(2,3) by (auto simp: held_def worker_change_def)
  note law = local_repository.update_law [OF assms(1) s u]
  show ?thesis
  proof (cases "x = Inr True")
    case True
    with law obtain cur new now where l: "ok s'" "recs s i = Some cur" "ch cur = Some new"
      "recs s' = (recs s)(i := if (lr_revision cur + 1) mod 2 ^ 64 = 0 then None else Some (stamped i now cur new))" by auto
    have "lr_status cur \<in> {''active'', ''queued'', ''error''}" using assms(2) l(3) unfolding worker_change_def by blast
    with assms(3,4) l(2) have "i \<noteq> tid" by (auto simp: held_def)
    with assms(3) l(1,4) u show ?thesis by (simp add: held_def)
  next
    case False
    with law assms(3) u show ?thesis by (simp add: held_def)
  qed
qed

lemma held_kept:
  assumes "typed_world w" "\<forall>n. xw_repo w n \<in> repos" "status \<notin> {''active'', ''queued'', ''error''}"
    "\<forall>n s d. held status tid s \<longrightarrow> held status tid (fst (xw_env w n (s, d)))"
  shows "kept w (held status tid)"
  unfolding kept_def
proof (intro conjI allI impI)
  fix n i s assume h: "held status tid s"
  obtain x s' where m: "lo_mark (xw_repo w n) i s = (x, s')" by fastforce
  from local_repository.mark_law [OF repo_of [OF assms(2)] _ m] h show "held status tid (snd (lo_mark (xw_repo w n) i s))"
    by (auto simp: held_def m)
next
  show "held status tid (snd (lo_update (xw_repo w n) i ch s))" if "held status tid s" "worker_change ch" for n i ch s
    by (rule update_held [OF repo_of [OF assms(2)] that(2,1) assms(3)])
qed (use assms in \<open>auto simp: held_def\<close>)

text \<open>The pass at shutdown makes the other records \<open>paused\<close>, so it keeps those statuses too.\<close>

lemma keeps_shutdown: "keeps_rec ld_shutdown"
  by (auto simp: keeps_rec_def rec_ok_def ld_defs split: if_splits)

lemma shutdown_update_held:
  assumes "kept w (held status tid)" "status \<in> {''paused'', ''complete'', ''removed''}" "held status tid (fst st)" "xw_update w n i ld_shutdown st = (x, st')"
  shows "held status tid (fst st')"
proof -
  obtain s d where e: "xw_env w n st = (s, d)" by fastforce
  then have h: "held status tid s" using env_keeps [OF assms(1,3), of n] by simp
  from assms(1) have rp: "local_repository (xw_repo w n) recs ok" by (auto simp: kept_def intro: repo)
  obtain y s' where u: "lo_update (xw_repo w n) i ld_shutdown s = (y, s')" by fastforce
  have "ok s" using h by (simp add: held_def)
  from local_repository.update_law [OF rp this keeps_shutdown u] h assms(2) have "held status tid s'"
    by (auto simp: held_def ld_shutdown_def shouldPauseForShutdown_def split: if_splits)
  with assms(4) e u show ?thesis by (auto simp: xw_update_def)
qed

lemma shutdown_pass_held:
  assumes "kept w (held status tid)" "status \<in> {''paused'', ''complete'', ''removed''}"
  shows "held status tid (fst st) \<Longrightarrow> shutdown_pass w n rs ps st = (qs, er, st') \<Longrightarrow> held status tid (fst st')"
proof (induction rs arbitrary: n ps st)
  case (Cons x rs)
  obtain i q where x: "x = (i, q)" by fastforce
  obtain y st1 where u: "xw_update w n (lr_id q) ld_shutdown st = (y, st1)" by (rule prod.exhaust)
  from shutdown_update_held [OF assms Cons.prems(1) u] Cons u x show ?case by (auto split: sum.splits)
qed simp

lemma held_records: "\<forall>s s'. recs s' = recs s \<longrightarrow> ok s' \<longrightarrow> held status tid s \<longrightarrow> held status tid s'"
  by (simp add: held_def)

lemma shutdown_held:
  assumes "kept w (held status tid)" "status \<in> {''paused'', ''complete'', ''removed''}" "held status tid (fst st)"
  shows "held status tid (fst (snd (snd (pauseForShutdown w st))))"
proof -
  obtain x st1 where r: "xw_records w 0 st = (x, st1)" by (rule prod.exhaust)
  have h: "held status tid (fst st1)" by (rule records_keeps [OF assms(1) held_records assms(3) r])
  show ?thesis
  proof (cases x)
    case (Inr rs)
    obtain qs er st' where p: "shutdown_pass w 1 rs [] st1 = (qs, er, st')" by (cases "shutdown_pass w 1 rs [] st1")
    with shutdown_pass_held [OF assms(1,2) h p] r Inr show ?thesis by (simp add: pauseForShutdown_def)
  qed (use r h in \<open>simp add: pauseForShutdown_def\<close>)
qed

lemma recover_held:
  assumes "kept w (held status tid)" "held status tid (fst st)"
  shows "held status tid (fst (snd (recover w st)))"
proof -
  obtain x st1 where r: "xw_records w 0 st = (x, st1)" by (rule prod.exhaust)
  have h: "held status tid (fst st1)" by (rule records_keeps [OF assms(1) held_records assms(2) r])
  show ?thesis
  proof (cases x)
    case (Inr rs)
    obtain er st' where p: "recover_pass w 1 rs st1 = (er, st')" by (rule prod.exhaust)
    with recover_pass_keeps [OF assms(1) h p] r Inr show ?thesis by (simp add: recover_def)
  qed (use r h in \<open>simp add: recover_def\<close>)
qed

text \<open>A paused or removed record stops the writer before the next byte.\<close>

lemma write_refused:
  assumes "kept w (held status tid)" "status \<in> {''paused'', ''removed''}" "held status tid (fst st)" "lr_id r = tid"
  shows "fst (write_chunk w n r c compl st) \<noteq> None \<and> fst (snd (write_chunk w n r c compl st)) = compl \<and> snd (snd (write_chunk w n r c compl st)) = xw_env w n st"
proof -
  obtain s d where e: "xw_env w n st = (s, d)" by fastforce
  then have h: "held status tid s" using env_keeps [OF assms(1,3), of n] by simp
  from assms(1) have rp: "local_repository (xw_repo w n) recs ok" by (auto simp: kept_def intro: repo)
  have "checkStatus w n r s \<noteq> None"
  proof (cases "lo_get (xw_repo w n) tid s")
    case (Inr found)
    have "found = recs s tid" using local_repository.get_law [OF rp _ Inr] h by (simp add: held_def)
    with h Inr assms(2,4) show ?thesis by (auto simp: checkStatus_def held_def)
  qed (simp add: checkStatus_def assms(4))
  with e show ?thesis by (auto simp: write_chunk_def split: option.splits)
qed

end

section \<open>What is written\<close>

text \<open>Nobody else touches the file under \<open>path\<close>.\<close>

definition file_private :: "'st xworld \<Rightarrow> string \<Rightarrow> bool" where
  "file_private w path \<longleftrightarrow> (\<forall>n s d. snd (xw_env w n (s, d)) path = d path)"

lemma env_file: "file_private w path \<Longrightarrow> snd (xw_env w n st) path = snd st path"
  by (cases st) (simp add: file_private_def)

lemma update_file: "file_private w path \<Longrightarrow> snd (snd (xw_update w n tid ch st)) path = snd st path"
  using env_file [of w path n st] by (auto simp: xw_update_def split: prod.splits)

lemma flush_file: "file_private w path \<Longrightarrow> snd (flush w n r compl speed st) path = snd st path"
  by (simp add: flush_def update_file)

lemma mark_file:
  "file_private w path \<Longrightarrow> snd (snd (markComplete w n r st)) path = snd st path"
  "file_private w path \<Longrightarrow> snd (snd (markError w n r e st)) path = snd st path"
proof -
  assume f: "file_private w path"
  obtain x st1 where u: "xw_update w n (lr_id r) (ld_complete r) st = (x, st1)" by (rule prod.exhaust)
  show "snd (snd (markComplete w n r st)) path = snd st path"
    using update_file [OF f, of n "lr_id r" "ld_complete r" st] env_file [OF f, of "Suc n" st1] u
    by (auto simp: markComplete_def split: prod.splits sum.splits bool.splits)
next
  assume f: "file_private w path"
  obtain x st1 where u: "xw_update w n (lr_id r) (ld_error (xw_text w e) r) st = (x, st1)" by (rule prod.exhaust)
  show "snd (snd (markError w n r e st)) path = snd st path"
    using update_file [OF f, of n "lr_id r" "ld_error (xw_text w e) r" st] u by (auto simp: markError_def split: sum.splits bool.splits)
qed

text \<open>The file holds the first \<open>k\<close> bytes of the content.\<close>

definition holds :: "string \<Rightarrow> string \<Rightarrow> int \<Rightarrow> disk \<Rightarrow> bool" where
  "holds path content k d \<longleftrightarrow> 0 \<le> k \<and> k \<le> int (length content) \<and> d path = Some (File (take (nat k) content))"

lemma write_extends:
  assumes "holds path content k d" "prefix p (drop (nat k) content)"
  shows "holds path content (k + int (length p)) (write_at path (nat k) p d)"
proof -
  from assms(2) obtain rest where r: "drop (nat k) content = p @ rest" by (auto simp: prefix_def)
  have len: "int (length p) \<le> int (length content) - k"
    using arg_cong [OF r, of length] assms(1) by (simp add: holds_def) linarith
  have "take (nat k + length p) content = take (nat k) content @ p"
    using r by (simp add: take_add)
  then have "take (nat (k + int (length p))) content = take (nat k) content @ p" using assms(1) by (simp add: holds_def nat_add_distrib)
  with assms(1) len show ?thesis by (auto simp: holds_def write_at_def)
qed

lemma write_chunk_file:
  assumes f: "file_private w path" and r: "lr_path r = path" and h: "holds path content compl (snd st)" and len: "int64_ok (int (length content))"
    and p: "prefix (wc_data c) (drop (nat compl) content)" and wr: "write_chunk w n r c compl st = (er, compl1, st1)"
  shows "holds path content compl1 (snd st1) \<and> (er = None \<longrightarrow> compl1 = compl + int (length (wc_data c)))"
proof -
  obtain s d where e: "xw_env w n st = (s, d)" by fastforce
  with env_file [OF f, of n st] h have h1: "holds path content compl d" by (simp add: holds_def)
  define q where "q = (case wc_fail c of None \<Rightarrow> wc_data c | Some (k, e) \<Rightarrow> take k (wc_data c))"
  have "prefix q (wc_data c)" by (auto simp: q_def take_is_prefix split: option.splits)
  with p have "prefix q (drop (nat compl) content)" using prefix_order.trans by blast
  from write_extends [OF h1 this] have h2: "holds path content (compl + int (length q)) (write_at path (nat compl) q d)" .
  then have "int64_ok (compl + int (length q))" using len h by (auto simp: holds_def int64_ok_def)
  then have wrap: "wrap64 (compl + int (length q)) = compl + int (length q)" by simp
  have fl: "holds path content k (snd (flush w m r a b (s, d'))) = holds path content k d'" for k m a b d'
    using flush_file [OF f, of m r a b "(s, d')"] by (simp add: holds_def)
  show ?thesis
  proof (cases "checkStatus w n r s")
    case None
    have "holds path content compl1 (snd st1)" "compl1 = compl + int (length q)" "er = map_option snd (wc_fail c)"
      using wr e None h2 wrap unfolding write_chunk_def q_def [symmetric] r by (auto simp: fl split: if_splits)
    then show ?thesis by (auto simp: q_def)
  next
    case (Some e')
    with wr e have "er = Some e'" "compl1 = compl" "st1 = (s, d)" by (simp_all add: write_chunk_def)
    with h1 show ?thesis by simp
  qed
qed

lemma stream_chunks_file:
  assumes f: "file_private w path" and r: "lr_path r = path" and len: "int64_ok (int (length content))"
  shows "holds path content compl (snd st) \<Longrightarrow> prefix (concat (map wc_data cs)) (drop (nat compl) content) \<Longrightarrow>
    stream_chunks w n r cs compl st = (er, compl1, st1) \<Longrightarrow> holds path content compl1 (snd st1)
      \<and> (er = None \<longrightarrow> compl1 = compl + int (length (concat (map wc_data cs))))"
proof (induction cs arbitrary: n compl st)
  case (Cons c cs)
  obtain e1 k1 st' where wr: "write_chunk w n r c compl st = (e1, k1, st')" by (cases "write_chunk w n r c compl st")
  from Cons.prems(2) have p: "prefix (wc_data c) (drop (nat compl) content)" by (auto simp: prefix_def)
  note h = write_chunk_file [OF f r Cons.prems(1) len p wr]
  show ?case
  proof (cases e1)
    case None
    with h have k1: "k1 = compl + int (length (wc_data c))" by simp
    from Cons.prems(2) obtain rest where "drop (nat compl) content = wc_data c @ concat (map wc_data cs) @ rest" by (auto simp: prefix_def)
    moreover have "drop (nat k1) content = drop (length (wc_data c)) (drop (nat compl) content)"
      using Cons.prems(1) by (simp add: k1 holds_def nat_add_distrib add.commute)
    ultimately have "prefix (concat (map wc_data cs)) (drop (nat k1) content)" by simp
    from Cons.IH [OF _ this, of st' "n + 2"] h Cons.prems(3) wr None k1 show ?thesis by auto
  next
    case (Some e)
    with h Cons.prems(3) wr show ?thesis by auto
  qed
qed simp

text \<open>The bytes that are already there when a download resumes.\<close>

definition resumed :: "string \<Rightarrow> nat \<Rightarrow> disk \<Rightarrow> nat" where
  "resumed path tot d = (case d path of Some (File b) \<Rightarrow> if length b > tot then 0 else length b | _ \<Rightarrow> 0)"

text \<open>What is there is a beginning of the content, and the source delivers what follows it.\<close>

definition delivers :: "'st xworld \<Rightarrow> string \<Rightarrow> string \<Rightarrow> disk \<Rightarrow> bool" where
  "delivers w path content d \<longleftrightarrow> prefix (concat (map wc_data (xw_chunks w))) (drop (resumed path (length content) d) content)
     \<and> (case d path of Some (File b) \<Rightarrow> length content < length b \<or> prefix b content | _ \<Rightarrow> True)"

lemma prepared_file:
  assumes "delivers w path content d" "content \<noteq> []" "preparePartialFile st tr path (int (length content)) d = (Inr compl, d1)"
  shows "holds path content compl (create_file path d1) \<and> compl = int (resumed path (length content) d)
    \<and> (compl = int (length content) \<longrightarrow> d1 path = Some (File content))"
proof (cases "d path")
  case None
  with assms show ?thesis by (auto simp: preparePartialFile_def create_file_def holds_def resumed_def split: option.splits)
next
  case (Some en)
  with assms(3) obtain b where b: "en = File b" by (cases en) (auto simp: preparePartialFile_def split: option.splits)
  show ?thesis
  proof (cases "length content < length b")
    case True
    with Some b assms(2,3) show ?thesis
      by (auto simp: preparePartialFile_def create_file_def holds_def resumed_def split: option.splits)
  next
    case False
    with assms(1) Some b obtain rest where c: "content = b @ rest" by (auto simp: delivers_def prefix_def)
    from False Some b assms(3) have "compl = int (length b)" "d1 = d" by (auto simp: preparePartialFile_def split: option.splits if_splits)
    with False Some b c show ?thesis by (simp add: create_file_def holds_def resumed_def)
  qed
qed

lemma markError_events: "Completed \<notin> set (fst (markError w n r e st))"
  by (auto simp: markError_def split: prod.splits sum.splits bool.splits)

lemma delivers_cong: "d' path = d path \<Longrightarrow> delivers w path content d' = delivers w path content d"
  by (simp add: delivers_def resumed_def)

lemma download_completed:
  assumes f: "file_private w path" and r: "lr_path r = path" "lr_total r = int (length content)" and len: "int64_ok (int (length content))"
    and h: "holds path content compl (create_file path (snd st))" and p: "prefix (concat (map wc_data (xw_chunks w))) (drop (nat compl) content)"
    and c: "Completed \<in> set (fst (download w r compl st))"
  shows "snd (snd (download w r compl st)) path = Some (File content)"
proof -
  let ?st1 = "(fst st, create_file (lr_path r) (snd st))" and ?m = "6 + 2 * length (xw_chunks w)"
  obtain er compl1 st2 where str: "stream_chunks w 6 r (xw_chunks w) compl ?st1 = (er, compl1, st2)"
    by (cases "stream_chunks w 6 r (xw_chunks w) compl ?st1")
  have h2: "holds path content compl1 (snd st2)" using stream_chunks_file [OF f r(1) len _ p str] h r(1) by simp
  from c have none: "xw_open w = None" "xw_seek w = None" and dl: "download w r compl st
      = markComplete w (?m + 1) (r\<lparr>lr_completed := lr_total r\<rparr>) (flush w ?m r compl1 (xw_speed w) st2)" and full: "compl1 = lr_total r"
    using markError_events [of w] by (auto simp: download_def str split: option.splits if_splits)
  from h2 full r(2) have "snd st2 path = Some (File content)" by (simp add: holds_def)
  then show ?thesis unfolding dl using mark_file(1) [OF f] flush_file [OF f] by simp
qed

lemma transfer_completed:
  assumes f: "file_private w path" and r: "lr_total r = int (length content)" and len: "int64_ok (int (length content))"
    and cl: "\<And>cur. seen (fst (xw_env w 4 st)) (lr_id r) = Some cur \<Longrightarrow> lr_path cur = path"
    and h: "holds path content compl (create_file path (snd st))" "compl = int (length content) \<longrightarrow> snd st path = Some (File content)"
    and p: "prefix (concat (map wc_data (xw_chunks w))) (drop (nat compl) content)"
    and c: "Completed \<in> set (fst (transfer w seen r compl st))"
  shows "snd (snd (transfer w seen r compl st)) path = Some (File content)"
proof (cases "compl \<ge> lr_total r")
  case True
  with h r have "snd st path = Some (File content)" by (simp add: holds_def)
  with True mark_file(1) [OF f] show ?thesis by (simp add: transfer_def)
next
  case False
  obtain x st1 where u: "xw_update w 4 (lr_id r) (ld_claim r (xw_now w) compl) st = (x, st1)" by (rule prod.exhaust)
  from c False u obtain claimed where b: "Option.bind (seen (fst (xw_env w 4 st)) (lr_id r)) (ld_claim r (xw_now w) compl) = Some claimed"
    and x: "x = Inr True" and a: "xw_acquire w = None"
    using markError_events [of w] by (auto simp: transfer_def split: option.splits sum.splits bool.splits if_splits)
  from b cl have cp: "lr_path claimed = path" "lr_total claimed = int (length content)" using r
    by (auto simp: bind_eq_Some_conv ld_claim_def split: if_splits)
  have "snd st1 path = snd st path" using update_file [OF f, of 4 "lr_id r" "ld_claim r (xw_now w) compl" st] u by simp
  with h(1) have h1: "holds path content compl (create_file path (snd st1))" by (auto simp: holds_def create_file_def split: if_splits)
  from c False u b x a have "Completed \<in> set (fst (download w claimed compl st1))" by (auto simp: transfer_def split: prod.splits)
  from download_completed [OF f cp len h1 p this] False u b x a show ?thesis by (simp add: transfer_def case_prod_beta)
qed

context local_downloads
begin

lemma execute_completed:
  assumes k: "kept w I" and ip: "\<And>s r. I s \<Longrightarrow> recs s tid = Some r \<Longrightarrow> lr_path r = path" and path: "path \<noteq> []" and f: "file_private w path"
    and src: "xw_source w = Inr (Some task)" "si_fileSize task = int (length content)" "content \<noteq> []"
    and dv: "delivers w path content (snd st)" and i: "I (fst st)" and c: "Completed \<in> set (fst (execute w recs tid st))"
  shows "snd (snd (execute w recs tid st)) path = Some (File content)"
proof -
  have len: "int64_ok (int (length content))" using k src by (auto simp: kept_def typed_world_def)
  obtain s d where e: "xw_env w 0 st = (s, d)" by fastforce
  then have s: "I s" "d path = snd st path" using env_keeps [OF k i, of 0] env_file [OF f, of 0 st] by simp_all
  from c e obtain r where g: "lo_get (xw_repo w 0) tid s = Inr (Some r)" and ex: "execute w recs tid st = execute_record w recs r (s, d)"
    by (auto simp: execute_def split: sum.splits option.splits if_splits)
  let ?r = "target w (sized task r)"
  from found_valid [OF k s(1) g] have fv: "recs s tid = Some r" "lr_id r = tid" by auto
  from ip [OF s(1) fv(1)] path have rp: "lr_path ?r = path" "lr_total ?r = int (length content)" "lr_id ?r = tid" using src fv(2) by simp_all
  obtain s1 d1 where e1: "xw_env w 1 (s, d) = (s1, d1)" by fastforce
  then have s1: "I s1" "d1 path = snd st path" using env_keeps [OF k, of "(s, d)" 1] env_file [OF f, of 1 "(s, d)"] s by simp_all
  from c ex src have rs: "execute w recs tid st = resume w recs ?r (s, d)"
    using markError_events [of w 1] by (auto simp: execute_record_def split: if_splits)
  obtain q d2 where pq: "preparePartialFile (xw_stat w) (xw_truncate w) path (int (length content)) d1 = (q, d2)" by (rule prod.exhaust)
  from c rs e1 pq rp obtain compl where q: "q = Inr compl" and tr: "execute w recs tid st = transfer w recs (?r\<lparr>lr_completed := compl\<rparr>) compl (s1, d2)"
    using markError_events [of w] by (auto simp: resume_def split: option.splits sum.splits)
  from dv s1(2) have dv1: "delivers w path content d1" using delivers_cong [of d1 path "snd st" w content] by blast
  from prepared_file [OF dv1 src(3) pq [unfolded q]] have h: "holds path content compl (create_file path d2)"
    "compl = int (resumed path (length content) d1)" "compl = int (length content) \<longrightarrow> d2 path = Some (File content)" by auto
  show ?thesis unfolding tr
  proof (rule transfer_completed [OF f _ len])
    fix cur assume "recs (fst (xw_env w 4 (s1, d2))) (lr_id (?r\<lparr>lr_completed := compl\<rparr>)) = Some cur"
    with env_keeps [OF k, of "(s1, d2)" 4] s1(1) rp(3) show "lr_path cur = path" by (auto intro: ip)
  qed (use rp h dv1 c tr in \<open>simp_all add: delivers_def\<close>)
qed

end

section \<open>An undisturbed download\<close>

text \<open>A repository whose calls are answered.\<close>

locale live_local_repository = local_repository +
  assumes get_live: "ok s \<Longrightarrow> recs s tid = Some r \<Longrightarrow> lo_get repo tid s = Inr (Some r)"
    and update_live: "ok s \<Longrightarrow> recs s tid = Some cur \<Longrightarrow> change cur = Some new \<Longrightarrow> rec_ok new \<Longrightarrow>
      downloadTransition (lr_status cur) (lr_status new) \<Longrightarrow> \<exists>s'. lo_update repo tid change s = (Inr True, s')"

interpretation lorl: live_local_repository "local_repo None None now version" recs_of recs_ok for now version
proof
  fix s :: kv and tid r
  assume ok: "recs_ok s" and r: "recs_of s tid = Some r"
  from recs_of_rec_ok [OF ok r] have "tid \<noteq> []" by simp
  with r show "lo_get (local_repo None None now version) tid s = Inr (Some r)"
    by (auto simp: local_repo_def local_get_def col_read_def local_keys lo_scoped kv_get_def recs_of_def split: option.splits sum.splits)
next
  fix s :: kv and tid cur change new
  assume ok: "recs_ok s" and r: "recs_of s tid = Some cur" "change cur = Some new" "rec_ok new" "downloadTransition (lr_status cur) (lr_status new)"
  from ok obtain ix where ix: "index_is local_tasks s ix" by (auto simp: recs_ok_def indexed_def)
  from r(1) obtain d where d: "s (co_prefix local_tasks @ tid) = Some d" "decodeLocalRecord tid d = Inr cur"
    by (auto simp: recs_of_def local_keys split: option.splits sum.splits)
  have st: "normalizeDownloadState (lr_status new) = lr_status new" "lr_state cur = lr_status cur"
    using normalize_status [of "lr_status new"] r(3) recs_of_rec_ok [OF ok r(1)] by (simp_all add: rec_ok_def)
  obtain b where b: "local_change now tid change d (stamp_of ix tid) = Inr (Some (local_json b), stamp_of ix tid, True)"
    using d(2) r(2,4) st by (auto simp: local_change_def)
  from lo.mutate_runs [of s ix tid d "local_change now tid change" "local_json b" "stamp_of ix tid" True] ix d(1) b show "\<exists>s'. lo_update (local_repo None None now version) tid change s = (Inr True, s')"
    by (auto simp: local_repo_def local_update_def local_json_def json_valid_def)
qed

definition full_chunk :: "chunk \<Rightarrow> bool" where
  "full_chunk c \<longleftrightarrow> wc_fail c = None"

definition undisturbed :: "'st xworld \<Rightarrow> bool" where
  "undisturbed w \<longleftrightarrow> typed_world w \<and> xw_hasSource w \<and> xw_mkdir w = None \<and> xw_stat w = None \<and> xw_truncate w = None \<and> xw_acquire w = None \<and> xw_open w = None
     \<and> xw_seek w = None \<and> list_all full_chunk (xw_chunks w) \<and> xw_stream w None = None \<and> xw_close w = None"

context local_downloads
begin

definition quiet :: "'st xworld \<Rightarrow> string \<Rightarrow> bool" where
  "quiet w tid \<longleftrightarrow> (\<forall>n. live_local_repository (xw_repo w n) recs ok)
     \<and> (\<forall>n s d. ok s \<longrightarrow> ok (fst (xw_env w n (s, d))) \<and> recs (fst (xw_env w n (s, d))) tid = recs s tid)"

lemma quiet_env: "quiet w tid \<Longrightarrow> ok (fst st) \<Longrightarrow> ok (fst (xw_env w n st)) \<and> recs (fst (xw_env w n st)) tid = recs (fst st) tid"
  by (cases st) (auto simp: quiet_def)

lemma quiet_update:
  assumes q: "quiet w tid" and s: "ok (fst st)" "recs (fst st) tid = Some cur" and ch: "worker_change ch" "ch cur = Some new"
    and tr: "downloadTransition (lr_status cur) (lr_status new)" and rev: "lr_revision cur + 1 < 2 ^ 64"
  shows "\<exists>st' now. xw_update w n tid ch st = (Inr True, st') \<and> ok (fst st') \<and> recs (fst st') tid = Some (stamped tid now cur new)"
proof -
  obtain s1 d where e: "xw_env w n st = (s1, d)" by fastforce
  with quiet_env [OF q s(1), of n] s(2) have s1: "ok s1" "recs s1 tid = Some cur" by simp_all
  from q have lv: "live_local_repository (xw_repo w n) recs ok" by (simp add: quiet_def)
  then have rp: "local_repository (xw_repo w n) recs ok" by (simp add: live_local_repository_def)
  have kr: "keeps_rec ch" "rec_ok new" using ch local_repository.recs_valid [OF rp s1] unfolding worker_change_def keeps_rec_def by blast+
  obtain s' where u: "lo_update (xw_repo w n) tid ch s1 = (Inr True, s')"
    using live_local_repository.update_live [of "xw_repo w n" recs ok s1 tid cur ch new] lv s1 ch(2) kr(2) tr by blast
  from local_repository.update_law [OF rp s1(1) kr(1) u] s1(2) ch(2) rev
  obtain now where "ok s'" "recs s' tid = Some (stamped tid now cur new)" by auto
  with e u show ?thesis by (auto simp: xw_update_def)
qed

text \<open>While it runs, the record is active and belongs to the execution; \<open>k\<close> more changes do not wrap its revision.\<close>

definition running :: "string \<Rightarrow> localDownloadRecord \<Rightarrow> nat \<Rightarrow> 'st \<Rightarrow> bool" where
  "running tid r k s \<longleftrightarrow> ok s \<and> (\<exists>cur. recs s tid = Some cur \<and> lr_status cur = ''active'' \<and> sameExecution cur r \<and> lr_revision cur + k < 2 ^ 64)"

lemma transition_self [simp]: "downloadTransition a a"
  by (simp add: downloadTransition_def)

lemma running_less: "running tid r k s \<Longrightarrow> k' \<le> k \<Longrightarrow> running tid r k' s"
  by (auto simp: running_def)

lemma flush_running:
  assumes "quiet w tid" "lr_id r = tid" "int64_ok (lr_total r)" "int64_ok compl" "int64_ok speed" "running tid r (Suc k) (fst st)"
  shows "running tid r k (fst (flush w n r compl speed st))"
proof -
  from assms(6) obtain cur where c: "ok (fst st)" "recs (fst st) tid = Some cur" "lr_status cur = ''active''" "sameExecution cur r" "lr_revision cur + Suc k < 2 ^ 64"
    by (auto simp: running_def)
  obtain new where new: "ld_progress r compl (lr_total r) speed cur = Some new" "lr_status new = ''active''" "sameExecution new r"
    using c(3,4) by (auto simp: ld_progress_def sameExecution_iff)
  have tr: "downloadTransition (lr_status cur) (lr_status new)" "lr_revision cur + 1 < 2 ^ 64" using new(2) c(3,5) by simp_all
  from quiet_update [OF assms(1) c(1,2) worker_changes(4) [OF assms(3-5)] new(1) tr, of n]
  obtain st' now where u: "xw_update w n tid (ld_progress r compl (lr_total r) speed) st = (Inr True, st')" "ok (fst st')"
    "recs (fst st') tid = Some (stamped tid now cur new)" by auto
  with new c(5) assms(2) show ?thesis by (auto simp: flush_def running_def sameExecution_iff)
qed

lemma write_chunk_running:
  assumes q: "quiet w tid" and r: "lr_id r = tid" "int64_ok (lr_total r)" and c: "int64_ok (wc_speed c)" "full_chunk c" and s: "running tid r (Suc k) (fst st)"
  shows "\<exists>st1. write_chunk w n r c compl st = (None, wrap64 (compl + int (length (wc_data c))), st1) \<and> running tid r k (fst st1)"
proof -
  obtain s1 d where e: "xw_env w n st = (s1, d)" by fastforce
  from s have "ok (fst st)" by (simp add: running_def)
  from quiet_env [OF q this, of n] e s have s1: "running tid r (Suc k) s1" by (simp add: running_def)
  then obtain cur where cur: "ok s1" "recs s1 tid = Some cur" "lr_status cur = ''active''" "sameExecution cur r" by (auto simp: running_def)
  from q have lv: "live_local_repository (xw_repo w n) recs ok" by (simp add: quiet_def)
  have chk: "checkStatus w n r s1 = None" using live_local_repository.get_live [OF lv cur(1,2)] cur(3,4) r(1) by (simp add: checkStatus_def)
  have fl: "running tid r k (fst (flush w (Suc n) r (wrap64 (compl + int (length (wc_data c)))) (wc_speed c) (s1, d')))" for d'
    by (rule flush_running [OF q r _ c(1)]) (use s1 in simp_all)
  from c(2) have "wc_fail c = None" by (simp add: full_chunk_def)
  with e chk obtain st1 where "write_chunk w n r c compl st = (None, wrap64 (compl + int (length (wc_data c))), st1)"
    "(\<exists>d'. st1 = flush w (Suc n) r (wrap64 (compl + int (length (wc_data c)))) (wc_speed c) (s1, d')) \<or> fst st1 = s1"
    by (simp add: write_chunk_def del: split_paired_Ex) (metis fst_conv)
  with fl running_less [OF s1, of k] show ?thesis by auto
qed

lemma stream_running:
  assumes q: "quiet w tid" and r: "lr_id r = tid" "int64_ok (lr_total r)"
  shows "\<forall>c \<in> set cs. int64_ok (wc_speed c) \<Longrightarrow> list_all full_chunk cs \<Longrightarrow> running tid r (length cs + k) (fst st) \<Longrightarrow>
    \<exists>compl1 st1. stream_chunks w n r cs compl st = (None, compl1, st1) \<and> running tid r k (fst st1)"
proof (induction cs arbitrary: n compl st)
  case (Cons c cs)
  from write_chunk_running [OF q r, of c "length cs + k" st n compl] Cons.prems
  obtain st1 where "write_chunk w n r c compl st = (None, wrap64 (compl + int (length (wc_data c))), st1)" "running tid r (length cs + k) (fst st1)" by auto
  with Cons.IH [of st1 "n + 2" "wrap64 (compl + int (length (wc_data c)))"] Cons.prems show ?case by simp
qed simp

text \<open>The final state: complete, with all bytes accounted for.\<close>

definition finished :: "string \<Rightarrow> int \<Rightarrow> 'st \<Rightarrow> bool" where
  "finished tid tot s \<longleftrightarrow> ok s \<and> (\<exists>r. recs s tid = Some r \<and> lr_status r = ''complete'' \<and> lr_completed r = tot \<and> lr_total r = tot)"

lemma markComplete_finishes:
  assumes q: "quiet w tid" and r: "lr_id r = tid" "int64_ok (lr_total r)"
    and s: "ok (fst st)" "recs (fst st) tid = Some cur" "ld_live r cur" "lr_revision cur + 1 < 2 ^ 64"
  shows "fst (markComplete w n r st) = [Completed] \<and> finished tid (lr_total r) (fst (snd (markComplete w n r st)))"
proof -
  obtain new where new: "ld_complete r cur = Some new" "lr_status new = ''complete''" "lr_completed new = lr_total r" "lr_total new = lr_total r"
    using s(3) by (simp add: ld_complete_def)
  have tr: "downloadTransition (lr_status cur) (lr_status new)"
    using s(3) new(2) by (auto simp: ld_live_def shouldRunLocalDownload_def downloadTransition_def downloadUnknown_def)
  from quiet_update [OF q s(1,2) worker_changes(2) [OF r(2)] new(1) tr s(4), of n]
  obtain st1 now where u: "xw_update w n tid (ld_complete r) st = (Inr True, st1)" "ok (fst st1)" "recs (fst st1) tid = Some (stamped tid now cur new)" by auto
  obtain s2 d where e: "xw_env w (Suc n) st1 = (s2, d)" by fastforce
  with quiet_env [OF q u(2), of "Suc n"] u(3) have s2: "ok s2" "recs s2 tid = Some (stamped tid now cur new)" by simp_all
  from q have rp: "local_repository (xw_repo w (Suc n)) recs ok" by (simp add: quiet_def live_local_repository_def)
  obtain y s3 where m: "lo_mark (xw_repo w (Suc n)) (lr_taskID r) s2 = (y, s3)" by fastforce
  from local_repository.mark_law [OF rp s2(1) m] s2(2) new have "finished tid (lr_total r) s3" by (simp add: finished_def)
  with u e m r(1) show ?thesis by (simp add: markComplete_def)
qed

lemma download_finishes:
  assumes q: "quiet w tid" and w: "undisturbed w" and r: "lr_id r = tid" "lr_path r = path" "lr_total r = int (length content)"
    and len: "int64_ok (int (length content))" and f: "file_private w path" and s: "running tid r (length (xw_chunks w) + 2) (fst st)"
    and h: "holds path content compl (create_file path (snd st))" and p: "concat (map wc_data (xw_chunks w)) = drop (nat compl) content"
  shows "fst (download w r compl st) = [Completed] \<and> finished tid (int (length content)) (fst (snd (download w r compl st)))"
proof -
  let ?st1 = "(fst st, create_file (lr_path r) (snd st))" and ?m = "6 + 2 * length (xw_chunks w)"
  have t: "int64_ok (lr_total r)" "\<forall>c \<in> set (xw_chunks w). int64_ok (wc_speed c)" "list_all full_chunk (xw_chunks w)" "int64_ok (xw_speed w)"
    using w len r(3) by (simp_all add: undisturbed_def typed_world_def)
  from stream_running [OF q r(1) t(1) t(2,3), of 2 ?st1 6 compl] s
  obtain compl1 st2 where str: "stream_chunks w 6 r (xw_chunks w) compl ?st1 = (None, compl1, st2)" "running tid r 2 (fst st2)" by auto
  have "prefix (concat (map wc_data (xw_chunks w))) (drop (nat compl) content)" using p by simp
  from stream_chunks_file [OF f r(2) len _ this str(1)] h r(2) have "compl1 = compl + int (length (drop (nat compl) content))" using p by simp
  then have full: "compl1 = lr_total r" using h r(3) by (auto simp: holds_def)
  have "running tid r 1 (fst (flush w ?m r compl1 (xw_speed w) st2))"
    by (rule flush_running [OF q r(1) t(1) _ t(4)]) (use str(2) full t(1) in \<open>simp_all add: numeral_2_eq_2\<close>)
  then obtain cur where cur: "ok (fst (flush w ?m r compl1 (xw_speed w) st2))" "recs (fst (flush w ?m r compl1 (xw_speed w) st2)) tid = Some cur"
    "lr_status cur = ''active''" "sameExecution cur r" "lr_revision cur + 1 < 2 ^ 64" by (auto simp: running_def)
  have "ld_live (r\<lparr>lr_completed := lr_total r\<rparr>) cur" using cur(3,4) by (simp add: ld_live_def sameExecution_iff)
  from markComplete_finishes [OF q _ _ cur(1,2) this cur(5), of "?m + 1"] r t(1) w str(1) full show ?thesis
    by (simp add: download_def undisturbed_def)
qed

lemma transfer_finishes:
  assumes q: "quiet w tid" and w: "undisturbed w" and r: "lr_id r = tid" "lr_total r = int (length content)"
    and len: "int64_ok (int (length content))" and f: "file_private w path"
    and s: "ok (fst st)" "recs (fst st) tid = Some cur" "shouldRunLocalDownload (lr_status cur)" "sameExecution cur r" "lr_path cur = path"
      "lr_revision cur + (length (xw_chunks w) + 3) < 2 ^ 64"
    and h: "holds path content compl (create_file path (snd st))" and p: "concat (map wc_data (xw_chunks w)) = drop (nat compl) content"
  shows "Completed \<in> set (fst (transfer w recs r compl st)) \<and> finished tid (int (length content)) (fst (snd (transfer w recs r compl st)))"
proof (cases "compl \<ge> lr_total r")
  case True
  have "ld_live r cur" using s(3,4) by (simp add: ld_live_def)
  from markComplete_finishes [OF q r(1) _ s(1,2) this, of 2] r(2) len s(6) True show ?thesis by (simp add: transfer_def)
next
  case False
  let ?ch = "ld_claim r (xw_now w) compl"
  obtain new where new: "?ch cur = Some new" "lr_status new = ''active''" "lr_id new = lr_id cur" "lr_path new = path" "lr_total new = lr_total r"
    "lr_startedAt new = Some (xw_now w)"
    using s(3,4,5) by (simp add: ld_claim_def)
  have c64: "int64_ok (lr_total r)" "int64_ok compl" using r(2) len h by (auto simp: holds_def int64_ok_def)
  have tr: "downloadTransition (lr_status cur) (lr_status new)" "lr_revision cur + 1 < 2 ^ 64"
    using s(3,6) new(2) by (auto simp: shouldRunLocalDownload_def downloadTransition_def downloadUnknown_def)
  from quiet_update [OF q s(1,2) worker_changes(1) [OF c64] new(1) tr, of 4]
  obtain st1 now where u: "xw_update w 4 tid ?ch st = (Inr True, st1)" "ok (fst st1)" "recs (fst st1) tid = Some (stamped tid now cur new)" by auto
  have "running tid new (length (xw_chunks w) + 2) (fst st1)" using u(2,3) new(2) s(6) by (auto simp: running_def sameExecution_iff)
  have "snd st1 path = snd st path" using update_file [OF f, of 4 tid ?ch st] u(1) by simp
  with h have h1: "holds path content compl (create_file path (snd st1))" by (auto simp: holds_def create_file_def split: if_splits)
  from q have rp: "local_repository (xw_repo w 4) recs ok" by (simp add: quiet_def live_local_repository_def)
  have id: "lr_id new = tid" using local_repository.recs_valid [OF rp s(1,2)] new(3) by simp
  have seen: "recs (fst (xw_env w 4 st)) tid = Some cur" using quiet_env [OF q s(1), of 4] s(2) by simp
  from download_finishes [OF q w id new(4) _ len f \<open>running tid new _ _\<close> h1 p] new(5) r(2)
  have "fst (download w new compl st1) = [Completed] \<and> finished tid (int (length content)) (fst (snd (download w new compl st1)))" by simp
  with False u(1) seen new(1) r(1) w show ?thesis by (auto simp: transfer_def undisturbed_def case_prod_beta)
qed

lemma execute_finishes:
  assumes q: "quiet w tid" and w: "undisturbed w" and f: "file_private w path" and path: "path \<noteq> []"
    and src: "xw_source w = Inr (Some task)" "si_available task" "si_fileSize task = int (length content)" "content \<noteq> []"
    and s: "ok (fst st)" "recs (fst st) tid = Some r" "shouldRunLocalDownload (lr_status r)" "lr_path r = path"
      "lr_revision r + (length (xw_chunks w) + 3) < 2 ^ 64"
    and dv: "delivers w path content (snd st)" "snd st path \<noteq> Some Dir"
      "concat (map wc_data (xw_chunks w)) = drop (resumed path (length content) (snd st)) content"
  shows "Completed \<in> set (fst (execute w recs tid st)) \<and> finished tid (int (length content)) (fst (snd (execute w recs tid st)))"
proof -
  have len: "int64_ok (int (length content))" using w src by (auto simp: undisturbed_def typed_world_def)
  obtain s0 d0 where e: "xw_env w 0 st = (s0, d0)" by fastforce
  with quiet_env [OF q s(1), of 0] env_file [OF f, of 0 st] s(2) have s0: "ok s0" "recs s0 tid = Some r" "d0 path = snd st path" by simp_all
  from q have lv: "live_local_repository (xw_repo w 0) recs ok" by (simp add: quiet_def)
  from live_local_repository.get_live [OF lv s0(1,2)] have g: "lo_get (xw_repo w 0) tid s0 = Inr (Some r)" .
  from lv have "local_repository (xw_repo w 0) recs ok" by (simp add: live_local_repository_def)
  from local_repository.recs_valid [OF this s0(1,2)] have id: "lr_id r = tid" by simp
  let ?r = "target w (sized task r)"
  have rp: "lr_path ?r = path" "lr_total ?r = int (length content)" "lr_id ?r = tid" "sameExecution r ?r"
    using s(4) path src id by (simp_all add: sameExecution_iff)
  obtain s1 d1 where e1: "xw_env w 1 (s0, d0) = (s1, d1)" by fastforce
  with quiet_env [OF q, of "(s0, d0)" 1] env_file [OF f, of 1 "(s0, d0)"] s0 have s1: "ok s1" "recs s1 tid = Some r" "d1 path = snd st path" by simp_all
  have dv1: "delivers w path content d1" using dv(1) delivers_cong [of d1 path "snd st" w content] s1(3) by blast
  have "d1 path \<noteq> Some Dir" using dv(2) s1(3) by simp
  then have "\<exists>compl d2. preparePartialFile (xw_stat w) (xw_truncate w) path (int (length content)) d1 = (Inr compl, d2)"
    using w by (cases "d1 path") (auto simp: preparePartialFile_def undisturbed_def split: entry.split)
  then obtain compl d2 where p: "preparePartialFile (xw_stat w) (xw_truncate w) path (int (length content)) d1 = (Inr compl, d2)" by blast
  from prepared_file [OF dv1 src(4) p] have h: "holds path content compl (create_file path d2)" "nat compl = resumed path (length content) d1" by auto
  have r1: "resumed path (length content) d1 = resumed path (length content) (snd st)" using s1(3) by (simp add: resumed_def)
  have "concat (map wc_data (xw_chunks w)) = drop (nat compl) content" using dv(3) h(2) r1 by simp
  from transfer_finishes [OF q w _ _ len f _ _ s(3) _ s(4,5) _ this, of "?r\<lparr>lr_completed := compl\<rparr>" "(s1, d2)"] rp s1 h(1)
  have "Completed \<in> set (fst (transfer w recs (?r\<lparr>lr_completed := compl\<rparr>) compl (s1, d2)))
    \<and> finished tid (int (length content)) (fst (snd (transfer w recs (?r\<lparr>lr_completed := compl\<rparr>) compl (s1, d2))))"
    by (simp add: sameExecution_iff)
  moreover have "execute w recs tid st = transfer w recs (?r\<lparr>lr_completed := compl\<rparr>) compl (s1, d2)"
    using e g s(3) src w e1 p rp by (simp add: execute_def execute_record_def resume_def undisturbed_def)
  ultimately show ?thesis by simp
qed

end

section \<open>The worker on the task hub\<close>

definition hub_local_repos :: "kv localRepo set" where
  "hub_local_repos = {rp. \<exists>c c' now version. rp = local_repo c c' now version}"

interpretation ld: local_downloads hub_local_repos recs_of recs_ok
  by (rule local_downloads.intro) (auto simp: hub_local_repos_def lor.local_repository_axioms)

text \<open>The record of a download is in a status, or keeps its file under a path.\<close>

definition in_status :: "string \<Rightarrow> string \<Rightarrow> kv \<Rightarrow> bool" where
  "in_status status tid s \<longleftrightarrow> recs_ok s \<and> (\<exists>r. recs_of s tid = Some r \<and> lr_status r = status)"

definition at_path :: "string \<Rightarrow> string \<Rightarrow> kv \<Rightarrow> bool" where
  "at_path path tid s \<longleftrightarrow> recs_ok s \<and> (\<forall>r. recs_of s tid = Some r \<longrightarrow> lr_path r = path)"

lemma in_status_held: "in_status = ld.held"
  by (simp add: fun_eq_iff in_status_def ld.held_def)

lemma at_path_update:
  assumes "rp \<in> hub_local_repos" "worker_change ch" "at_path path tid s"
  shows "at_path path tid (snd (lo_update rp i ch s))"
proof -
  obtain x s' where u: "lo_update rp i ch s = (x, s')" by fastforce
  have o: "recs_ok s" "keeps_rec ch" using assms(2,3) by (auto simp: at_path_def worker_change_def)
  note law = local_repository.update_law [OF ld.repo [OF assms(1)] o u]
  show ?thesis
  proof (cases "x = Inr True")
    case True
    with law obtain cur new now where l: "recs_ok s'" "recs_of s i = Some cur" "ch cur = Some new"
      "recs_of s' = (recs_of s)(i := if (lr_revision cur + 1) mod 2 ^ 64 = 0 then None else Some (stamped i now cur new))" by auto
    have "lr_path new = lr_path cur" using assms(2) l(3) unfolding worker_change_def by blast
    with assms(3) l u show ?thesis by (auto simp: at_path_def split: if_splits)
  next
    case False
    with law assms(3) u show ?thesis by (simp add: at_path_def)
  qed
qed

lemma at_path_kept:
  assumes "typed_world w" "\<forall>n. xw_repo w n \<in> hub_local_repos" "\<forall>n s d. at_path path tid s \<longrightarrow> at_path path tid (fst (xw_env w n (s, d)))"
  shows "ld.kept w (at_path path tid)"
  unfolding ld.kept_def
proof (intro conjI allI impI)
  fix n i s assume h: "at_path path tid s"
  obtain x s' where m: "lo_mark (xw_repo w n) i s = (x, s')" by fastforce
  from local_repository.mark_law [OF ld.repo_of [OF assms(2)] _ m] h show "at_path path tid (snd (lo_mark (xw_repo w n) i s))"
    by (auto simp: at_path_def m)
next
  show "at_path path tid (snd (lo_update (xw_repo w n) i ch s))" if "at_path path tid s" "worker_change ch" for n i ch s
    using at_path_update that assms(2) by blast
qed (use assms in \<open>auto simp: at_path_def\<close>)

text \<open>Every execution takes at most one lease and gives it back.\<close>

definition leases :: "xevent list \<Rightarrow> xevent list" where
  "leases es = filter (\<lambda>e. e = LeaseAcquired \<or> e = LeaseReleased) es"

lemma mark_leases [simp]: "leases (fst (markComplete w n r st)) = []" "leases (fst (markError w n r e st)) = []"
  by (auto simp: markComplete_def markError_def leases_def split: prod.splits sum.splits bool.splits)

lemma download_leases [simp]: "leases (fst (download w r compl st)) = []"
  by (auto simp: download_def leases_def [of "[]"] split: option.split prod.split)

lemma transfer_leases: "leases (fst (transfer w seen r compl st)) \<in> {[], [LeaseAcquired, LeaseReleased]}"
proof -
  have "leases (LeaseAcquired # fst (download w q k st') @ [LeaseReleased]) = LeaseAcquired # leases (fst (download w q k st')) @ [LeaseReleased]" for q k st'
    by (simp add: leases_def)
  moreover have "leases [LeaseAcquired, LeaseReleased] = [LeaseAcquired, LeaseReleased]" "leases [] = []" by (simp_all add: leases_def)
  ultimately show ?thesis by (simp add: transfer_def case_prod_beta split: option.split sum.split bool.split)
qed

lemma execute_leases: "leases (fst (execute w seen tid st)) \<in> {[], [LeaseAcquired, LeaseReleased]}"
proof -
  have n: "leases [] = []" by (simp add: leases_def)
  have "leases (fst (resume w seen r st')) \<in> {[], [LeaseAcquired, LeaseReleased]}" for r st'
    using transfer_leases [of w seen] by (auto simp: resume_def split: option.split prod.split sum.split)
  then show ?thesis by (simp add: execute_def execute_record_def n split: option.split prod.split sum.split)
qed

text \<open>C7: a download that the worker reports as complete is on disk in full. Suppose nobody else writes the file and other
  parties, who may otherwise change the store at will between any two calls of the execution, leave the path in the
  record; suppose the file starts with a beginning of the content (or is longer and is cut) and the source passes bytes
  of the content from there on, possibly fewer than it should and with any failures of calls in between. If the
  execution marks the record complete, the file is exactly the content. In any case the execution takes at most one lease and
  returns it.\<close>

theorem completed_download_is_the_file:
  assumes "typed_world w" "\<forall>n. xw_repo w n \<in> hub_local_repos"
    and "\<forall>n s d. at_path path tid s \<longrightarrow> at_path path tid (fst (xw_env w n (s, d)))" "at_path path tid (fst st)" "path \<noteq> []" "file_private w path"
    and "xw_source w = Inr (Some task)" "si_fileSize task = int (length content)" "content \<noteq> []" "delivers w path content (snd st)"
  shows "(Completed \<in> set (fst (execute w recs_of tid st)) \<longrightarrow> snd (snd (execute w recs_of tid st)) path = Some (File content))
    \<and> leases (fst (execute w recs_of tid st)) \<in> {[], [LeaseAcquired, LeaseReleased]}"
proof -
  have "snd (snd (execute w recs_of tid st)) path = Some (File content)" if "Completed \<in> set (fst (execute w recs_of tid st))"
    by (rule ld.execute_completed [OF at_path_kept [OF assms(1-3)] _ assms(5-10,4) that]) (simp add: at_path_def)
  with execute_leases show ?thesis by blast
qed

text \<open>C12: an undisturbed download finishes. When the record is queued or failed before, the calls of store, disk and source succeed, the source
  delivers what is missing of the content, and no one else touches this record and this file, one execution leaves the record
  complete with all bytes counted and the whole content in the file, whether it started from nothing, resumed a part or
  cut a file that was too long.\<close>

theorem undisturbed_download_finishes:
  assumes "undisturbed w" "\<forall>n. \<exists>now version. xw_repo w n = local_repo None None now version"
    and "\<forall>n s d. recs_ok s \<longrightarrow> recs_ok (fst (xw_env w n (s, d))) \<and> recs_of (fst (xw_env w n (s, d))) tid = recs_of s tid" "file_private w path"
    and "xw_source w = Inr (Some task)" "si_available task" "si_fileSize task = int (length content)" "content \<noteq> []"
    and "recs_ok (fst st)" "recs_of (fst st) tid = Some r" "shouldRunLocalDownload (lr_status r)" "lr_path r = path" "path \<noteq> []"
    and "lr_revision r + (length (xw_chunks w) + 3) < 2 ^ 64"
    and "snd st path \<noteq> Some Dir" "delivers w path content (snd st)"
    and "concat (map wc_data (xw_chunks w)) = drop (resumed path (length content) (snd st)) content"
  shows "(\<exists>r'. recs_of (fst (snd (execute w recs_of tid st))) tid = Some r' \<and> lr_status r' = ''complete''
      \<and> lr_completed r' = int (length content) \<and> lr_total r' = int (length content))
    \<and> snd (snd (execute w recs_of tid st)) path = Some (File content)"
proof -
  have q: "ld.quiet w tid" using assms(2,3) lorl.live_local_repository_axioms unfolding ld.quiet_def by metis
  note fin = ld.execute_finishes [OF q assms(1,4,13,5-12,14,16,15,17)]
  have repos: "\<forall>n. xw_repo w n \<in> hub_local_repos" using assms(2) unfolding hub_local_repos_def by blast
  have env: "\<forall>n s d. at_path path tid s \<longrightarrow> at_path path tid (fst (xw_env w n (s, d)))" using assms(3) by (auto simp: at_path_def)
  have w: "typed_world w" "at_path path tid (fst st)" using assms(1,9,10,12) by (auto simp: undisturbed_def at_path_def)
  have "snd (snd (execute w recs_of tid st)) path = Some (File content)"
    by (rule ld.execute_completed [OF at_path_kept [OF w(1) repos env] _ assms(13,4,5,7,8,16) w(2)]) (use fin in \<open>simp_all add: at_path_def\<close>)
  with fin show ?thesis by (simp add: ld.finished_def)
qed


subsection \<open>A concrete download\<close>

definition demo_local :: "string \<Rightarrow> localDownloadRecord" where
  "demo_local status = \<lparr>lr_state = [], lr_revision = 0, lr_id = ''a'', lr_taskID = ''a'', lr_fileName = ''f'', lr_dir = ''/d'', lr_out = ''f'',
     lr_path = ''/d/f'', lr_total = 10, lr_completed = 0, lr_status = status, lr_error = [], lr_speed = 0, lr_startedAt = None,
     lr_createdAt = 7, lr_updatedAt = 0\<rparr>"

definition demo_chunk :: "string \<Rightarrow> bool \<Rightarrow> chunk" where
  "demo_chunk data due = \<lparr>wc_data = data, wc_fail = None, wc_due = due, wc_speed = 5\<rparr>"

definition demo_world :: "kv xworld" where
  "demo_world = \<lparr>xw_repo = \<lambda>n. local_repo None None (int n) (\<lambda>_. []), xw_env = \<lambda>n st. st, xw_text = \<lambda>_. [], xw_dirOf = \<lambda>p. p, xw_hasSource = True,
     xw_source = Inr (Some \<lparr>si_id = ''a'', si_fileSize = 10, si_available = True\<rparr>), xw_mkdir = None, xw_stat = None, xw_truncate = None,
     xw_acquire = None, xw_now = 20, xw_open = None, xw_seek = None, xw_chunks = [demo_chunk ''lo'' True, demo_chunk ''world'' False],
     xw_stream = \<lambda>e. e, xw_close = None, xw_speed = 5\<rparr>"

definition demo_disk :: disk where
  "demo_disk = [''/d/f'' \<mapsto> File ''hel'']"

lemma recs_ok_empty: "recs_ok Map.empty"
  by (simp add: recs_ok_def recs_of_def lo.indexed_empty)

lemma demo_store:
  assumes "status \<in> statuses"
  shows "\<exists>s r. recs_ok s \<and> recs_of s ''a'' = Some r \<and> lr_status r = status \<and> lr_path r = ''/d/f'' \<and> lr_revision r = 1"
proof -
  have ne: "status \<noteq> []" using assms by (auto simp: statuses_def)
  have "\<exists>s. local_create (\<lambda>_. []) None None 9 (demo_local status) None Map.empty = (Inr (created_record 9 (demo_local status)), s)"
    using ne by (simp add: local_create_def storage_update_def memory_update_def create_txn_def kv_get_def kv_set_def col_index_def
      col_saveIndex_def hub_selectors scoped_get_def scoped_set_def scope_check_def in_hub_scope created_record_def
      local_save_record_def demo_local_def)
  then obtain s where s: "local_create (\<lambda>_. []) None None 9 (demo_local status) None Map.empty = (Inr (created_record 9 (demo_local status)), s)" by blast
  have "rec_ok (demo_local status)" using assms by (simp add: rec_ok_def demo_local_def int64_ok_def)
  from local_create_law [OF recs_ok_empty this s] have "recs_ok s" "recs_of s ''a'' = Some (created_record 9 (demo_local status))"
    by (auto simp: recs_of_def demo_local_def split: if_splits)
  moreover have "lr_status (created_record 9 (demo_local status)) = status" "lr_path (created_record 9 (demo_local status)) = ''/d/f''"
    "lr_revision (created_record 9 (demo_local status)) = 1"
    using ne by (simp_all add: created_record_def local_save_record_def demo_local_def)
  ultimately show ?thesis by blast
qed

lemma demo_facts:
  "undisturbed demo_world" "typed_world demo_world" "\<forall>n. \<exists>now version. xw_repo demo_world n = local_repo None None now version"
  "\<forall>n. xw_repo demo_world n \<in> hub_local_repos" "xw_env demo_world = (\<lambda>n st. st)" "file_private demo_world ''/d/f''"
  "xw_source demo_world = Inr (Some \<lparr>si_id = ''a'', si_fileSize = 10, si_available = True\<rparr>)" "length (xw_chunks demo_world) = 2"
  "delivers demo_world ''/d/f'' ''helloworld'' demo_disk"
  "concat (map wc_data (xw_chunks demo_world)) = drop (resumed ''/d/f'' (length ''helloworld'') demo_disk) ''helloworld''"
  by (auto simp: undisturbed_def typed_world_def demo_world_def demo_chunk_def full_chunk_def int64_ok_def file_private_def hub_local_repos_def
      delivers_def demo_disk_def resumed_def)

theorem undisturbed_download_finishes_witness:
  "\<exists>s r'. recs_of (fst (snd (execute demo_world recs_of ''a'' (s, demo_disk)))) ''a'' = Some r' \<and> lr_status r' = ''complete''
    \<and> snd (snd (execute demo_world recs_of ''a'' (s, demo_disk))) ''/d/f'' = Some (File ''helloworld'')"
proof -
  obtain s r where s: "recs_ok s" "recs_of s ''a'' = Some r" "lr_status r = ''queued''" "lr_path r = ''/d/f''" "lr_revision r = 1"
    using demo_store [of "''queued''"] by auto
  have "\<exists>r'. recs_of (fst (snd (execute demo_world recs_of ''a'' (s, demo_disk)))) ''a'' = Some r' \<and> lr_status r' = ''complete''
    \<and> snd (snd (execute demo_world recs_of ''a'' (s, demo_disk))) ''/d/f'' = Some (File ''helloworld'')"
    using undisturbed_download_finishes [OF demo_facts(1,3) _ demo_facts(6,7), where content = "''helloworld''" and st = "(s, demo_disk)" and r = r and tid = "''a''"]
      s demo_facts(5,8,9,10) by (auto simp: shouldRunLocalDownload_def demo_disk_def)
  then show ?thesis by blast
qed

theorem completed_download_is_the_file_witness:
  "\<exists>s. Completed \<in> set (fst (execute demo_world recs_of ''a'' (s, demo_disk)))
    \<and> snd (snd (execute demo_world recs_of ''a'' (s, demo_disk))) ''/d/f'' = Some (File ''helloworld'')"
proof -
  obtain s r where s: "recs_ok s" "recs_of s ''a'' = Some r" "lr_status r = ''queued''" "lr_path r = ''/d/f''" "lr_revision r = 1"
    using demo_store [of "''queued''"] by auto
  have "ld.quiet demo_world ''a''" using demo_facts(3,5) lorl.live_local_repository_axioms unfolding ld.quiet_def by (metis fst_conv)
  from ld.execute_finishes [OF this demo_facts(1,6) _ demo_facts(7), where content = "''helloworld''" and st = "(s, demo_disk)" and r = r]
    s demo_facts(8,9,10) have c: "Completed \<in> set (fst (execute demo_world recs_of ''a'' (s, demo_disk)))"
    by (auto simp: shouldRunLocalDownload_def demo_disk_def)
  moreover have "at_path ''/d/f'' ''a'' s" using s by (simp add: at_path_def)
  ultimately have "snd (snd (execute demo_world recs_of ''a'' (s, demo_disk))) ''/d/f'' = Some (File ''helloworld'')"
    using completed_download_is_the_file [OF demo_facts(2,4), where path = "''/d/f''" and tid = "''a''" and content = "''helloworld''" and st = "(s, demo_disk)"]
      demo_facts(5,6,7,9) by simp
  with c show ?thesis by blast
qed


end
