(* ===== verification/Local_Control.thy ===== *)
theory Local_Control
  imports Local_Worker
begin

text \<open>
  User commands of the local downloader (\<open>application/downloader.local/controller.go\<close>): pause, start, delete and their variants for all
  downloads, the listing that refreshes records from the disk, and the counts. They run beside the executions of
  \<open>Local_Worker\<close>; the world of a command gives the answers of its calls and what others do between them.
\<close>

section \<open>Commands\<close>

record localResult =
  lx_matched :: nat
  lx_changed :: nat
  lx_skipped :: nat
  lx_errors :: "string list"

definition lx_none :: localResult where
  "lx_none = \<lparr>lx_matched = 0, lx_changed = 0, lx_skipped = 0, lx_errors = []\<rparr>"

fun unique_local_ids :: "string list \<Rightarrow> string list \<Rightarrow> string list" where
  "unique_local_ids seen [] = []"
| "unique_local_ids seen (i # is) =
     (let j = trim_space i
      in if j = [] \<or> j \<in> set seen then unique_local_ids seen is else j # unique_local_ids (j # seen) is)"

abbreviation uniqueLocalDownloadIDs :: "string list \<Rightarrow> string list" where
  "uniqueLocalDownloadIDs is \<equiv> unique_local_ids [] is"

definition ctl_pause :: "localDownloadRecord \<Rightarrow> localDownloadRecord option" where
  "ctl_pause r =
     (if lr_status r = ''complete'' \<or> lr_status r = ''removed'' \<or> lr_status r = ''paused'' then None
      else Some (r\<lparr>lr_status := ''paused'', lr_error := []\<rparr>))"

definition ctl_start :: "localDownloadRecord \<Rightarrow> localDownloadRecord option" where
  "ctl_start r =
     (if lr_status r = ''complete'' \<or> lr_status r = ''removed'' then None
      else Some (r\<lparr>lr_status := ''queued'', lr_startedAt := None, lr_error := []\<rparr>))"

definition ctl_remove :: "localDownloadRecord \<Rightarrow> localDownloadRecord" where
  "ctl_remove r = (if lr_status r \<noteq> ''complete'' then r\<lparr>lr_status := ''removed''\<rparr> else r)"

fun updateStatuses :: "'st xworld \<Rightarrow> nat \<Rightarrow> (localDownloadRecord \<Rightarrow> localDownloadRecord option) \<Rightarrow> string list \<Rightarrow> localResult \<Rightarrow> 'st xstate
    \<Rightarrow> localResult \<times> 'st xstate" where
  "updateStatuses w n upd [] res st = (res, st)"
| "updateStatuses w n upd (i # is) res st =
     (case xw_update w n i upd st of
        (Inl e, st1) \<Rightarrow> updateStatuses w (Suc n) upd is (res\<lparr>lx_errors := lx_errors res @ [i @ '': '' @ xw_text w e]\<rparr>) st1
      | (Inr True, st1) \<Rightarrow> updateStatuses w (Suc n) upd is (res\<lparr>lx_matched := Suc (lx_matched res), lx_changed := Suc (lx_changed res)\<rparr>) st1
      | (Inr False, st1) \<Rightarrow> updateStatuses w (Suc n) upd is (res\<lparr>lx_skipped := Suc (lx_skipped res)\<rparr>) st1)"

definition controller_pause :: "'st xworld \<Rightarrow> nat \<Rightarrow> string list \<Rightarrow> 'st xstate \<Rightarrow> localResult \<times> 'st xstate" where
  "controller_pause w n is st = updateStatuses w n ctl_pause (uniqueLocalDownloadIDs is) lx_none st"

definition controller_start :: "'st xworld \<Rightarrow> nat \<Rightarrow> string list \<Rightarrow> 'st xstate \<Rightarrow> localResult \<times> 'st xstate" where
  "controller_start w n is st = updateStatuses w n ctl_start (uniqueLocalDownloadIDs is) lx_none st"

text \<open>
  One id of \<open>Delete\<close>, as the calls \<open>n\<close> to \<open>n + 2\<close>. \<open>rm\<close> is the error of \<open>os.Remove\<close> other than a missing file; the record that the callback
  leaves behind is the one that \<open>Update\<close> showed to it.
\<close>

definition deleteOne :: "'st xworld \<Rightarrow> ('st \<Rightarrow> string \<rightharpoonup> localDownloadRecord) \<Rightarrow> err option \<Rightarrow> nat \<Rightarrow> string \<Rightarrow> localResult \<Rightarrow> 'st xstate \<Rightarrow> localResult \<times> 'st xstate" where
  "deleteOne w seen rm n i res st =
     (let failed = (\<lambda>r e. r\<lparr>lx_errors := lx_errors r @ [i @ '': '' @ xw_text w e]\<rparr>)
      in case xw_env w n st of
           (s, d) \<Rightarrow>
             (case lo_get (xw_repo w n) i s of
                Inl e \<Rightarrow> (failed res e, (s, d))
              | Inr None \<Rightarrow> (res\<lparr>lx_skipped := Suc (lx_skipped res)\<rparr>, (s, d))
              | Inr (Some r0) \<Rightarrow>
                  let res1 = res\<lparr>lx_matched := Suc (lx_matched res)\<rparr>
                  in case xw_update w (Suc n) i (\<lambda>r. Some (ctl_remove r)) (s, d) of
                       (Inl e, st1) \<Rightarrow> (failed res1 e, st1)
                     | (Inr False, st1) \<Rightarrow> (res1\<lparr>lx_skipped := Suc (lx_skipped res1)\<rparr>, st1)
                     | (Inr True, st1) \<Rightarrow>
                         let r = (case seen (fst (xw_env w (Suc n) (s, d))) i of None \<Rightarrow> r0 | Some cur \<Rightarrow> ctl_remove cur);
                             unlink = (lr_status r \<noteq> ''complete'' \<and> lr_path r \<noteq> [])
                         in if unlink \<and> rm \<noteq> None then (failed res1 (ErrWrap ''delete partial file'' (the rm)), st1)
                            else let st2 = (if unlink then (fst st1, (snd st1)(lr_path r := None)) else st1)
                                 in case xw_env w (Suc (Suc n)) st2 of
                                      (s3, d3) \<Rightarrow>
                                        (case lo_remove (xw_repo w (Suc (Suc n))) i s3 of
                                           (Inl e, s4) \<Rightarrow> (failed res1 e, (s4, d3))
                                         | (Inr _, s4) \<Rightarrow> (res1\<lparr>lx_changed := Suc (lx_changed res1)\<rparr>, (s4, d3)))))"

fun deleteAll :: "'st xworld \<Rightarrow> ('st \<Rightarrow> string \<rightharpoonup> localDownloadRecord) \<Rightarrow> (nat \<Rightarrow> err option) \<Rightarrow> nat \<Rightarrow> string list \<Rightarrow> localResult \<Rightarrow> 'st xstate \<Rightarrow> localResult \<times> 'st xstate" where
  "deleteAll w seen rm n [] res st = (res, st)"
| "deleteAll w seen rm n (i # is) res st =
     (case deleteOne w seen (rm n) n i res st of (res1, st1) \<Rightarrow> deleteAll w seen rm (n + 3) is res1 st1)"

definition controller_delete :: "'st xworld \<Rightarrow> ('st \<Rightarrow> string \<rightharpoonup> localDownloadRecord) \<Rightarrow> (nat \<Rightarrow> err option) \<Rightarrow> nat \<Rightarrow> string list \<Rightarrow> 'st xstate \<Rightarrow> localResult \<times> 'st xstate" where
  "controller_delete w seen rm n is st = deleteAll w seen rm n (uniqueLocalDownloadIDs is) lx_none st"

definition ids_with :: "(string \<Rightarrow> bool) \<Rightarrow> (string \<times> localDownloadRecord) list \<Rightarrow> string list" where
  "ids_with P rs = map (\<lambda>(i, r). lr_id r) (filter (\<lambda>(i, r). P (lr_status r)) rs)"

definition pauseAll :: "'st xworld \<Rightarrow> 'st xstate \<Rightarrow> localResult res \<times> 'st xstate" where
  "pauseAll w st =
     (case xw_records w 0 st of
        (Inl e, st1) \<Rightarrow> (Inl e, st1)
      | (Inr rs, st1) \<Rightarrow>
          (case controller_pause w 1 (ids_with (\<lambda>x. x = ''queued'' \<or> x = ''active'' \<or> x = ''error'') rs) st1 of (res, st2) \<Rightarrow> (Inr res, st2)))"

definition startAll :: "'st xworld \<Rightarrow> 'st xstate \<Rightarrow> localResult res \<times> 'st xstate" where
  "startAll w st =
     (case xw_records w 0 st of
        (Inl e, st1) \<Rightarrow> (Inl e, st1)
      | (Inr rs, st1) \<Rightarrow>
          (case controller_start w 1 (ids_with (\<lambda>x. x = ''paused'' \<or> x = ''error'') rs) st1 of (res, st2) \<Rightarrow> (Inr res, st2)))"

definition deleteAllByStatus :: "'st xworld \<Rightarrow> ('st \<Rightarrow> string \<rightharpoonup> localDownloadRecord) \<Rightarrow> (nat \<Rightarrow> err option) \<Rightarrow> string list \<Rightarrow> 'st xstate \<Rightarrow> localResult res \<times> 'st xstate" where
  "deleteAllByStatus w seen rm given st =
     (let wanted = map (\<lambda>x. to_lower (trim_space x)) (if given = [] then [''complete'', ''error''] else given)
      in case xw_records w 0 st of
           (Inl e, st1) \<Rightarrow> (Inl e, st1)
         | (Inr rs, st1) \<Rightarrow>
             (case controller_delete w seen rm 1 (ids_with (\<lambda>x. x \<in> set wanted) rs) st1 of (res, st2) \<Rightarrow> (Inr res, st2)))"

definition changeTasks :: "'st xworld \<Rightarrow> ('st \<Rightarrow> string \<rightharpoonup> localDownloadRecord) \<Rightarrow> (nat \<Rightarrow> err option) \<Rightarrow> string \<Rightarrow> string list \<Rightarrow> 'st xstate \<Rightarrow> localResult res \<times> 'st xstate" where
  "changeTasks w seen rm action is st =
     (if action = ''pause'' then (case controller_pause w 0 is st of (res, st1) \<Rightarrow> (Inr res, st1))
      else if action = ''resume'' then (case controller_start w 0 is st of (res, st1) \<Rightarrow> (Inr res, st1))
      else if action = ''delete'' then (case controller_delete w seen rm 0 is st of (res, st1) \<Rightarrow> (Inr res, st1))
      else (Inl (ErrMsg (''unsupported local action '' @ action)), st))"

section \<open>Listing\<close>

text \<open>\<open>refreshRecordFromDisk\<close>: \<open>stat\<close> is the error of \<open>os.Stat\<close> other than a missing file; the callback changes the size even when it reports no change.\<close>

definition disk_size :: "int \<Rightarrow> localDownloadRecord \<Rightarrow> int" where
  "disk_size fsize cur = (if lr_total cur > 0 \<and> fsize > lr_total cur then lr_total cur else fsize)"

definition ctl_refreshed :: "int \<Rightarrow> localDownloadRecord \<Rightarrow> localDownloadRecord" where
  "ctl_refreshed fsize cur =
     (if lr_status cur = ''removed'' then cur
      else let k = disk_size fsize cur; cur1 = cur\<lparr>lr_completed := k\<rparr>
           in if lr_total cur > 0 \<and> k \<ge> lr_total cur \<and> lr_status cur \<noteq> ''paused'' \<and> lr_status cur \<noteq> ''complete''
              then cur1\<lparr>lr_status := ''complete'', lr_error := []\<rparr> else cur1)"

definition ctl_refresh :: "int \<Rightarrow> localDownloadRecord \<Rightarrow> localDownloadRecord option" where
  "ctl_refresh fsize cur =
     (if lr_status cur = ''removed'' then None
      else if lr_completed cur \<noteq> disk_size fsize cur \<or> lr_status (ctl_refreshed fsize cur) \<noteq> lr_status cur then Some (ctl_refreshed fsize cur)
      else None)"

definition refreshRecordFromDisk :: "'st xworld \<Rightarrow> ('st \<Rightarrow> string \<rightharpoonup> localDownloadRecord) \<Rightarrow> err option \<Rightarrow> nat \<Rightarrow> localDownloadRecord \<Rightarrow> 'st xstate \<Rightarrow> localDownloadRecord \<times> 'st xstate" where
  "refreshRecordFromDisk w seen stat n r st =
     (if lr_path r = [] then (r, st)
      else case (stat, snd st (lr_path r)) of
             (None, Some (File b)) \<Rightarrow>
               (case xw_update w n (lr_id r) (ctl_refresh (int (length b))) st of
                  (res, st1) \<Rightarrow>
                    let r1 = (case seen (fst (xw_env w n st)) (lr_id r) of None \<Rightarrow> r | Some cur \<Rightarrow> ctl_refreshed (int (length b)) cur)
                    in if res = Inr True \<and> lr_status r1 = ''complete''
                       then (case xw_env w (Suc n) st1 of (s, d) \<Rightarrow> (r1, (snd (lo_mark (xw_repo w (Suc n)) (lr_taskID r1) s), d)))
                       else (r1, st1))
           | _ \<Rightarrow> (r, st))"

fun refresh_all :: "'st xworld \<Rightarrow> ('st \<Rightarrow> string \<rightharpoonup> localDownloadRecord) \<Rightarrow> (nat \<Rightarrow> err option) \<Rightarrow> nat \<Rightarrow> (string \<times> localDownloadRecord) list \<Rightarrow> 'st xstate
    \<Rightarrow> localDownloadRecord list \<times> 'st xstate" where
  "refresh_all w seen stat n [] st = ([], st)"
| "refresh_all w seen stat n ((i, r) # rs) st =
     (case refreshRecordFromDisk w seen (stat n) n r st of
        (r1, st1) \<Rightarrow> (case refresh_all w seen stat (n + 2) rs st1 of (rs1, st2) \<Rightarrow> (r1 # rs1, st2)))"

text \<open>\<open>List\<close>, newest first; the fields that are computed for display are left out.\<close>

definition controller_list :: "'st xworld \<Rightarrow> ('st \<Rightarrow> string \<rightharpoonup> localDownloadRecord) \<Rightarrow> (nat \<Rightarrow> err option) \<Rightarrow> 'st xstate \<Rightarrow> localDownloadRecord list res \<times> 'st xstate" where
  "controller_list w seen stat st =
     (case xw_records w 0 st of
        (Inl e, st1) \<Rightarrow> (Inl e, st1)
      | (Inr rs, st1) \<Rightarrow>
          (case refresh_all w seen stat 1 rs st1 of (rs1, st2) \<Rightarrow> (Inr (sort_key (\<lambda>r. - lr_createdAt r) rs1), st2)))"

record localOverview =
  ov_total :: nat
  ov_active :: nat
  ov_queued :: nat
  ov_paused :: nat
  ov_complete :: nat
  ov_error :: nat

definition overview_add :: "string \<Rightarrow> localOverview \<Rightarrow> localOverview" where
  "overview_add status ov =
     (let o1 = ov\<lparr>ov_total := Suc (ov_total ov)\<rparr>
      in if status = ''active'' then o1\<lparr>ov_active := Suc (ov_active ov)\<rparr>
         else if status = ''queued'' then o1\<lparr>ov_queued := Suc (ov_queued ov)\<rparr>
         else if status = ''paused'' then o1\<lparr>ov_paused := Suc (ov_paused ov)\<rparr>
         else if status = ''complete'' then o1\<lparr>ov_complete := Suc (ov_complete ov)\<rparr>
         else if status = ''error'' then o1\<lparr>ov_error := Suc (ov_error ov)\<rparr>
         else o1)"

definition controller_overview :: "'st xworld \<Rightarrow> 'st xstate \<Rightarrow> localOverview res \<times> 'st xstate" where
  "controller_overview w st =
     (case xw_records w 0 st of
        (Inl e, st1) \<Rightarrow> (Inl e, st1)
      | (Inr rs, st1) \<Rightarrow>
          (Inr (fold (\<lambda>(i, r). overview_add (lr_status r)) rs
            \<lparr>ov_total = 0, ov_active = 0, ov_queued = 0, ov_paused = 0, ov_complete = 0, ov_error = 0\<rparr>), st1))"

section \<open>A replaced execution is fenced off\<close>

text \<open>A change that only applies to the record of one execution.\<close>

definition owned_by :: "localDownloadRecord \<Rightarrow> (localDownloadRecord \<Rightarrow> localDownloadRecord option) \<Rightarrow> bool" where
  "owned_by r ch \<longleftrightarrow> keeps_rec ch \<and> (\<forall>cur new. ch cur = Some new \<longrightarrow> sameExecution cur r)"

lemma owned_changes:
  "int64_ok (lr_total r) \<Longrightarrow> owned_by r (ld_complete (r\<lparr>lr_completed := k\<rparr>))" "owned_by r (ld_error cause r)"
  "int64_ok (lr_total r) \<Longrightarrow> int64_ok compl \<Longrightarrow> int64_ok speed \<Longrightarrow> owned_by r (ld_progress r compl (lr_total r) speed)"
  by (auto simp: owned_by_def keeps_rec_def rec_ok_def ld_defs sameExecution_iff split: if_splits)

context local_downloads
begin

text \<open>The record of the execution is gone or belongs to another one, and the records satisfy \<open>P\<close>.\<close>

definition foreign :: "localDownloadRecord \<Rightarrow> ((string \<rightharpoonup> localDownloadRecord) \<Rightarrow> bool) \<Rightarrow> 'st \<Rightarrow> bool" where
  "foreign r P s \<longleftrightarrow> ok s \<and> P (recs s) \<and> (\<forall>cur. recs s (lr_id r) = Some cur \<longrightarrow> \<not> sameExecution cur r)"

definition foreign_world :: "'st xworld \<Rightarrow> localDownloadRecord \<Rightarrow> ((string \<rightharpoonup> localDownloadRecord) \<Rightarrow> bool) \<Rightarrow> bool" where
  "foreign_world w r P \<longleftrightarrow> (\<forall>n. xw_repo w n \<in> repos) \<and> (\<forall>n s d. foreign r P s \<longrightarrow> foreign r P (fst (xw_env w n (s, d))))"

lemma foreign_env: "foreign_world w r P \<Longrightarrow> foreign r P (fst st) \<Longrightarrow> foreign r P (fst (xw_env w n st))"
  by (cases st) (auto simp: foreign_world_def)

lemma foreign_update:
  assumes "foreign_world w r P" "owned_by r ch" "foreign r P (fst st)" "xw_update w n (lr_id r) ch st = (x, st')"
  shows "x \<noteq> Inr True \<and> foreign r P (fst st')"
proof -
  obtain s d where e: "xw_env w n st = (s, d)" by fastforce
  then have s: "foreign r P s" using foreign_env [OF assms(1,3), of n] by simp
  obtain y s' where u: "lo_update (xw_repo w n) (lr_id r) ch s = (y, s')" by fastforce
  from assms(1) have rp: "local_repository (xw_repo w n) recs ok" by (auto simp: foreign_world_def intro: repo)
  have o: "ok s" "keeps_rec ch" using s assms(2) by (simp_all add: foreign_def owned_by_def)
  note law = local_repository.update_law [OF rp o u]
  have "y \<noteq> Inr True"
  proof
    assume "y = Inr True"
    with law obtain cur new where "recs s (lr_id r) = Some cur" "ch cur = Some new" by auto
    moreover from this(2) assms(2) have "sameExecution cur r" unfolding owned_by_def by blast
    ultimately show False using s by (simp add: foreign_def)
  qed
  with law s assms(4) e u show ?thesis by (auto simp: xw_update_def foreign_def)
qed

lemma foreign_mark:
  assumes "foreign_world w r P" "foreign r P (fst st)"
  shows "int64_ok (lr_total r) \<Longrightarrow> fst (markComplete w n (r\<lparr>lr_completed := k\<rparr>) st) = [] \<and> foreign r P (fst (snd (markComplete w n (r\<lparr>lr_completed := k\<rparr>) st)))"
    and "fst (markError w n r e st) = [] \<and> foreign r P (fst (snd (markError w n r e st)))"
proof -
  obtain x st' where u: "xw_update w n (lr_id r) (ld_complete (r\<lparr>lr_completed := k\<rparr>)) st = (x, st')" by (rule prod.exhaust)
  show "fst (markComplete w n (r\<lparr>lr_completed := k\<rparr>) st) = [] \<and> foreign r P (fst (snd (markComplete w n (r\<lparr>lr_completed := k\<rparr>) st)))" if "int64_ok (lr_total r)"
    using foreign_update [OF assms(1) owned_changes(1) [OF that] assms(2) u] u by (auto simp: markComplete_def split: sum.splits bool.splits)
next
  obtain x st' where u: "xw_update w n (lr_id r) (ld_error (xw_text w e) r) st = (x, st')" by (rule prod.exhaust)
  show "fst (markError w n r e st) = [] \<and> foreign r P (fst (snd (markError w n r e st)))"
    using foreign_update [OF assms(1) owned_changes(2) assms(2) u] u by (auto simp: markError_def split: sum.splits bool.splits)
qed

lemma foreign_write:
  assumes "foreign_world w r P" "foreign r P (fst st)"
  shows "\<exists>e. write_chunk w n r c compl st = (Some e, compl, xw_env w n st)"
proof -
  obtain s d where e: "xw_env w n st = (s, d)" by fastforce
  then have s: "foreign r P s" using foreign_env [OF assms, of n] by simp
  from assms(1) have rp: "local_repository (xw_repo w n) recs ok" by (auto simp: foreign_world_def intro: repo)
  have "checkStatus w n r s \<noteq> None"
  proof (cases "lo_get (xw_repo w n) (lr_id r) s")
    case (Inr found)
    have "found = recs s (lr_id r)" using local_repository.get_law [OF rp _ Inr] s by (simp add: foreign_def)
    with s Inr show ?thesis by (auto simp: checkStatus_def foreign_def split: option.split)
  qed (simp add: checkStatus_def)
  with e show ?thesis by (auto simp: write_chunk_def)
qed

lemma foreign_stream:
  assumes "foreign_world w r P" "foreign r P (fst st)" "file_private w (lr_path r)"
  shows "\<exists>er st'. stream_chunks w n r cs compl st = (er, compl, st') \<and> foreign r P (fst st') \<and> snd st' (lr_path r) = snd st (lr_path r)"
proof (cases cs)
  case Nil
  with assms show ?thesis by simp
next
  case (Cons c cs')
  from foreign_write [OF assms(1,2), of n c compl] obtain e where "write_chunk w n r c compl st = (Some e, compl, xw_env w n st)" by blast
  with Cons foreign_env [OF assms(1,2), of n] env_file [OF assms(3), of n st] show ?thesis by simp
qed

lemma foreign_download:
  assumes w: "foreign_world w r P" "foreign r P (fst st)" and f: "file_private w (lr_path r)" and t: "int64_ok (lr_total r)" "int64_ok (xw_speed w)"
  shows "fst (download w r compl st) = [] \<and> foreign r P (fst (snd (download w r compl st)))
    \<and> snd (snd (download w r compl st)) (lr_path r) \<in> {snd st (lr_path r), create_file (lr_path r) (snd st) (lr_path r)}"
proof -
  let ?st1 = "(fst st, create_file (lr_path r) (snd st))"
  have w1: "foreign r P (fst ?st1)" using w(2) by simp
  obtain er st2 where str: "stream_chunks w 6 r (xw_chunks w) compl ?st1 = (er, compl, st2)" "foreign r P (fst st2)"
    "snd st2 (lr_path r) = create_file (lr_path r) (snd st) (lr_path r)"
    using foreign_stream [OF w(1) w1 f, of 6 "xw_chunks w" compl] by auto
  have fl: "foreign r P (fst (flush w m r (lr_total r) (xw_speed w) st2))" for m
  proof -
    obtain x st' where u: "xw_update w m (lr_id r) (ld_progress r (lr_total r) (lr_total r) (xw_speed w)) st2 = (x, st')" by (rule prod.exhaust)
    from foreign_update [OF w(1) owned_changes(3) [OF t(1,1,2)] str(2) u] u show ?thesis by (simp add: flush_def)
  qed
  show ?thesis
    using foreign_mark(2) [OF w] foreign_mark(2) [OF w(1) w1] foreign_mark(2) [OF w(1) str(2)] foreign_mark(1) [OF w(1) fl t(1)] str
      mark_file(1) [OF f] mark_file(2) [OF f] flush_file [OF f]
    by (simp add: download_def split: option.split)
qed

end

definition replaced :: "localDownloadRecord \<Rightarrow> ((string \<rightharpoonup> localDownloadRecord) \<Rightarrow> bool) \<Rightarrow> kv \<Rightarrow> bool" where
  "replaced r P s \<longleftrightarrow> recs_ok s \<and> P (recs_of s) \<and> (\<forall>cur. recs_of s (lr_id r) = Some cur \<longrightarrow> \<not> sameExecution cur r)"



section \<open>Which commands move a settled download\<close>

text \<open>A change that leaves records of a status in that status.\<close>

definition spares :: "string \<Rightarrow> (localDownloadRecord \<Rightarrow> localDownloadRecord option) \<Rightarrow> bool" where
  "spares status ch \<longleftrightarrow> keeps_rec ch \<and> (\<forall>cur new. ch cur = Some new \<longrightarrow> lr_status cur = status \<longrightarrow> lr_status new = status \<and> lr_revision new = lr_revision cur)"

lemma spared_changes:
  "status \<in> {''paused'', ''complete'', ''removed''} \<Longrightarrow> spares status ctl_pause"
  "status \<in> {''complete'', ''removed''} \<Longrightarrow> spares status ctl_start"
  "status \<in> {''paused'', ''complete'', ''removed''} \<Longrightarrow> int64_ok fsize \<Longrightarrow> spares status (ctl_refresh fsize)"
  by (auto simp: spares_def keeps_rec_def rec_ok_def ctl_pause_def ctl_start_def ctl_refresh_def ctl_refreshed_def disk_size_def split: if_splits)

text \<open>The status, as long as the revision of the record has not wrapped to zero, which makes it unreadable.\<close>

definition settled :: "string \<Rightarrow> string \<Rightarrow> kv \<Rightarrow> bool" where
  "settled status tid s \<longleftrightarrow> recs_ok s \<and> (\<forall>r. recs_of s tid = Some r \<longrightarrow> lr_status r = status)"

lemma spared_update:
  assumes "\<forall>n. xw_repo w n \<in> hub_local_repos" "\<forall>n s d. settled status tid s \<longrightarrow> settled status tid (fst (xw_env w n (s, d)))"
    and "spares status ch" "settled status tid (fst st)" "xw_update w n i ch st = (x, st')"
  shows "settled status tid (fst st')"
proof -
  obtain s d where e: "xw_env w n st = (s, d)" by fastforce
  have s: "settled status tid s" using assms(2,4) e by (metis fst_conv prod.collapse)
  obtain y s' where u: "lo_update (xw_repo w n) i ch s = (y, s')" by fastforce
  have o: "recs_ok s" "keeps_rec ch" using s assms(3) by (simp_all add: settled_def spares_def)
  note law = local_repository.update_law [OF ld.repo_of [OF assms(1)] o u]
  have "settled status tid s'"
  proof (cases "y = Inr True")
    case True
    with law obtain cur new now where l: "recs_ok s'" "recs_of s i = Some cur" "ch cur = Some new"
      "recs_of s' = (recs_of s)(i := if (lr_revision cur + 1) mod 2 ^ 64 = 0 then None else Some (stamped i now cur new))" by auto
    have "lr_status cur = status \<longrightarrow> lr_status new = status" using assms(3) l(3) unfolding spares_def by blast
    with s l show ?thesis by (auto simp: settled_def split: if_splits)
  next
    case False
    with law s show ?thesis by (simp add: settled_def)
  qed
  with assms(5) e u show ?thesis by (auto simp: xw_update_def)
qed

lemma spared_records:
  assumes "\<forall>n. xw_repo w n \<in> hub_local_repos" "\<forall>n s d. settled status tid s \<longrightarrow> settled status tid (fst (xw_env w n (s, d)))"
    and "settled status tid (fst st)" "xw_records w n st = (x, st')"
  shows "settled status tid (fst st')"
proof -
  obtain s d where e: "xw_env w n st = (s, d)" by fastforce
  have s: "settled status tid s" using assms(2,3) e by (metis fst_conv prod.collapse)
  obtain y s' where u: "lo_records (xw_repo w n) s = (y, s')" by fastforce
  from local_repository.records_law [OF ld.repo_of [OF assms(1)] _ u] s have "settled status tid s'" by (auto simp: settled_def)
  with assms(4) e u show ?thesis by (auto simp: xw_records_def)
qed

lemma spared_statuses:
  assumes "\<forall>n. xw_repo w n \<in> hub_local_repos" "\<forall>n s d. settled status tid s \<longrightarrow> settled status tid (fst (xw_env w n (s, d)))" "spares status ch"
  shows "settled status tid (fst st) \<Longrightarrow> settled status tid (fst (snd (updateStatuses w n ch is res st)))"
proof (induction "is" arbitrary: n res st)
  case (Cons i "is")
  obtain x st' where u: "xw_update w n i ch st = (x, st')" by (rule prod.exhaust)
  from spared_update [OF assms Cons.prems u] Cons.IH u show ?case by (auto split: sum.split bool.split)
qed simp

text \<open>Files whose size fits the type of \<open>Size\<close>.\<close>

definition small_files :: "disk \<Rightarrow> bool" where
  "small_files d \<longleftrightarrow> (\<forall>path b. d path = Some (File b) \<longrightarrow> int64_ok (int (length b)))"

lemma spared_refresh:
  assumes "\<forall>n. xw_repo w n \<in> hub_local_repos" "\<forall>n s d. settled status tid s \<longrightarrow> settled status tid (fst (xw_env w n (s, d)))"
    and "status \<in> {''paused'', ''complete'', ''removed''}" "small_files (snd st)" "settled status tid (fst st)"
  shows "settled status tid (fst (snd (refreshRecordFromDisk w seen stat n r st)))"
proof (cases "\<exists>b. lr_path r \<noteq> [] \<and> stat = None \<and> snd st (lr_path r) = Some (File b)")
  case True
  then obtain b where b: "lr_path r \<noteq> []" "stat = None" "snd st (lr_path r) = Some (File b)" by blast
  obtain x st1 where u: "xw_update w n (lr_id r) (ctl_refresh (int (length b))) st = (x, st1)" by (rule prod.exhaust)
  have s1: "settled status tid (fst st1)"
    by (rule spared_update [OF assms(1,2) spared_changes(3) [OF assms(3)] assms(5) u]) (use assms(4) b(3) in \<open>auto simp: small_files_def\<close>)
  obtain s d where e: "xw_env w (Suc n) st1 = (s, d)" by fastforce
  have s: "settled status tid s" using assms(2) s1 e by (metis fst_conv prod.collapse)
  have m: "settled status tid (snd (lo_mark (xw_repo w (Suc n)) i s))" for i
  proof -
    obtain y s' where y: "lo_mark (xw_repo w (Suc n)) i s = (y, s')" by fastforce
    from local_repository.mark_law [OF ld.repo_of [OF assms(1)] _ y] s show ?thesis by (auto simp: settled_def y)
  qed
  show ?thesis using b u e s1 m by (simp add: refreshRecordFromDisk_def)
next
  case False
  then have "refreshRecordFromDisk w seen stat n r st = (r, st)" by (auto simp: refreshRecordFromDisk_def split: option.split entry.split)
  with assms(5) show ?thesis by simp
qed

lemma refresh_small:
  assumes "\<forall>n s d. small_files d \<longrightarrow> small_files (snd (xw_env w n (s, d)))" "small_files (snd st)"
  shows "small_files (snd (snd (refreshRecordFromDisk w seen stat n r st)))"
proof -
  have e: "small_files (snd st') \<Longrightarrow> small_files (snd (xw_env w m st'))" for m st' using assms(1) by (cases st') auto
  have u: "small_files (snd (snd (xw_update w n i ch st)))" for i ch using e [OF assms(2), of n] by (simp add: xw_update_def case_prod_beta)
  show ?thesis using assms(2) u e [OF u, of "Suc n"]
    by (auto simp: refreshRecordFromDisk_def case_prod_beta split: option.split entry.split)
qed

lemma spared_refresh_all:
  assumes "\<forall>n. xw_repo w n \<in> hub_local_repos" "\<forall>n s d. settled status tid s \<longrightarrow> settled status tid (fst (xw_env w n (s, d)))"
    and "\<forall>n s d. small_files d \<longrightarrow> small_files (snd (xw_env w n (s, d)))" "status \<in> {''paused'', ''complete'', ''removed''}"
  shows "small_files (snd st) \<Longrightarrow> settled status tid (fst st) \<Longrightarrow> settled status tid (fst (snd (refresh_all w seen stat n rs st)))"
proof (induction rs arbitrary: n st)
  case (Cons x rs)
  obtain i r where x: "x = (i, r)" by fastforce
  let ?q = "refreshRecordFromDisk w seen (stat n) n r st"
  have "small_files (snd (snd ?q))" by (rule refresh_small [OF assms(3) Cons.prems(1)])
  moreover have "settled status tid (fst (snd ?q))" by (rule spared_refresh [OF assms(1,2,4) Cons.prems])
  ultimately have "settled status tid (fst (snd (refresh_all w seen stat (n + 2) rs (snd ?q))))" by (rule Cons.IH)
  then show ?case by (simp add: x case_prod_beta)
qed simp

text \<open>A paused download is only moved by start and delete, and a complete or removed one only by delete. As long as the other parties
  leave such a record in its status, pausing any downloads, pausing all of them and listing them (which updates sizes from the
  disk and completes downloads whose file is full) leave it there; and so does starting any or all downloads, unless it is
  paused.\<close>

theorem only_start_and_delete_move_settled_downloads:
  assumes "\<forall>n. xw_repo w n \<in> hub_local_repos" "\<forall>n s d. settled status tid s \<longrightarrow> settled status tid (fst (xw_env w n (s, d)))"
    and "\<forall>n s d. small_files d \<longrightarrow> small_files (snd (xw_env w n (s, d)))" "status \<in> {''paused'', ''complete'', ''removed''}"
    and "small_files (snd st)" "settled status tid (fst st)"
  shows "settled status tid (fst (snd (controller_pause w n is st))) \<and> settled status tid (fst (snd (pauseAll w st)))
    \<and> settled status tid (fst (snd (controller_list w recs_of stat st)))
    \<and> (status \<noteq> ''paused'' \<longrightarrow> settled status tid (fst (snd (controller_start w n is st))) \<and> settled status tid (fst (snd (startAll w st))))"
proof -
  obtain x st1 where rec: "xw_records w 0 st = (x, st1)" by (rule prod.exhaust)
  have s1: "settled status tid (fst st1)" by (rule spared_records [OF assms(1,2,6) rec])
  have "small_files (snd (xw_env w 0 st))" using assms(3,5) by (cases st) auto
  then have d1: "small_files (snd st1)" using rec by (auto simp: xw_records_def split: prod.splits)
  have p: "settled status tid (fst (snd (controller_pause w m js st')))" if "settled status tid (fst st')" for m js st'
    unfolding controller_pause_def by (rule spared_statuses [OF assms(1,2) spared_changes(1) [OF assms(4)] that])
  have s: "settled status tid (fst (snd (controller_start w m js st')))" if "settled status tid (fst st')" "status \<noteq> ''paused''" for m js st'
    unfolding controller_start_def by (rule spared_statuses [OF assms(1,2) spared_changes(2) that(1)]) (use assms(4) that(2) in simp)
  have "settled status tid (fst (snd (pauseAll w st)))" using p [OF s1] s1 rec by (simp add: pauseAll_def case_prod_beta split: sum.split)
  moreover have "settled status tid (fst (snd (controller_list w recs_of stat st)))"
    using spared_refresh_all [OF assms(1-4) d1 s1] s1 rec by (simp add: controller_list_def case_prod_beta split: sum.split)
  moreover have "settled status tid (fst (snd (startAll w st)))" if "status \<noteq> ''paused''"
    using s [OF s1 that] s1 rec by (simp add: startAll_def case_prod_beta split: sum.split)
  ultimately show ?thesis using p s assms(6) by blast
qed

theorem only_start_and_delete_move_settled_downloads_witness:
  "\<exists>s. recs_of s ''a'' \<noteq> None \<and> settled ''paused'' ''a'' (fst (snd (pauseAll demo_world (s, demo_disk))))
    \<and> settled ''paused'' ''a'' (fst (snd (controller_list demo_world recs_of (\<lambda>_. None) (s, demo_disk))))"
proof -
  obtain s r where s: "recs_ok s" "recs_of s ''a'' = Some r" "lr_status r = ''paused''"
    using demo_store [of "''paused''"] by auto
  have "settled ''paused'' ''a'' s" using s by (simp add: settled_def)
  moreover have "small_files demo_disk" by (auto simp: small_files_def demo_disk_def int64_ok_def split: if_splits)
  ultimately have "settled ''paused'' ''a'' (fst (snd (pauseAll demo_world (s, demo_disk))))
    \<and> settled ''paused'' ''a'' (fst (snd (controller_list demo_world recs_of (\<lambda>_. None) (s, demo_disk))))"
    using only_start_and_delete_move_settled_downloads [OF demo_facts(4), of "''paused''" "''a''" "(s, demo_disk)" 0 "[]" "\<lambda>_. None"] demo_facts(5) by simp
  with s(2) show ?thesis by blast
qed

section \<open>Deletion\<close>

lemma keeps_remove: "keeps_rec (\<lambda>r. Some (ctl_remove r))"
  by (auto simp: keeps_rec_def rec_ok_def ctl_remove_def)

text \<open>A download that \<open>Delete\<close> counts as changed has no record any more, and its file is gone unless it was complete.\<close>

theorem deleted_download_is_gone:
  assumes w: "\<forall>n. xw_repo w n \<in> hub_local_repos" "\<forall>n s d. recs_ok s \<longrightarrow> recs_ok (fst (xw_env w n (s, d)))" "\<forall>p. file_private w p"
    and s: "recs_ok (fst st)" and del: "deleteOne w recs_of rm n i res st = (res', st')" "lx_changed res' \<noteq> lx_changed res"
  shows "recs_of (fst st') i = None \<and> (\<exists>cur. recs_of (fst (xw_env w (Suc n) (xw_env w n st))) i = Some cur
    \<and> (lr_status cur = ''complete'' \<or> lr_path cur = [] \<or> snd st' (lr_path cur) = None))"
proof -
  obtain s0 d0 where e0: "xw_env w n st = (s0, d0)" by fastforce
  obtain s1 d1 where e1: "xw_env w (Suc n) (s0, d0) = (s1, d1)" by fastforce
  have ok: "recs_ok s0" "recs_ok s1" using w(2) s e0 e1 by (metis fst_conv prod.collapse)+
  obtain y s2 where u: "lo_update (xw_repo w (Suc n)) i (\<lambda>r. Some (ctl_remove r)) s1 = (y, s2)" by fastforce
  from e0 e1 u have xu: "xw_update w (Suc n) i (\<lambda>r. Some (ctl_remove r)) (s0, d0) = (y, (s2, d1))" by (simp add: xw_update_def)
  from del e0 xu obtain r0 where g: "lo_get (xw_repo w n) i s0 = Inr (Some r0)" and y: "y = Inr True"
    by (auto simp: deleteOne_def split: sum.splits option.splits bool.splits)
  from local_repository.update_law [OF ld.repo_of [OF w(1)] ok(2) keeps_remove u] y obtain cur where cur: "recs_of s1 i = Some cur" "recs_ok s2" by auto
  define unl where "unl \<longleftrightarrow> lr_status (ctl_remove cur) \<noteq> ''complete'' \<and> lr_path (ctl_remove cur) \<noteq> []"
  have unl: "unl \<longleftrightarrow> lr_status cur \<noteq> ''complete'' \<and> lr_path cur \<noteq> []" and path: "lr_path (ctl_remove cur) = lr_path cur"
    by (auto simp: unl_def ctl_remove_def)
  let ?d2 = "if unl then d1(lr_path cur := None) else d1"
  obtain s3 d3 where e3: "xw_env w (Suc (Suc n)) (s2, ?d2) = (s3, d3)" by fastforce
  have ok3: "recs_ok s3" using w(2) cur(2) e3 by (metis fst_conv)
  obtain z s4 where rm4: "lo_remove (xw_repo w (Suc (Suc n))) i s3 = (z, s4)" by fastforce
  have z: "z = Inr () \<and> st' = (s4, d3)"
  proof (cases unl)
    case True
    then have "lr_status (ctl_remove cur) \<noteq> ''complete''" "lr_path cur \<noteq> []" "xw_env w (Suc (Suc n)) (s2, d1(lr_path cur := None)) = (s3, d3)"
      using e3 by (simp_all add: unl_def path)
    with del e0 xu g y e1 cur(1) rm4 show ?thesis by (auto simp: deleteOne_def path split: sum.splits if_splits)
  next
    case False
    then have "lr_status (ctl_remove cur) = ''complete'' \<or> lr_path cur = []" "xw_env w (Suc (Suc n)) (s2, d1) = (s3, d3)"
      using e3 by (auto simp: unl_def path)
    with del e0 xu g y e1 cur(1) rm4 show ?thesis by (auto simp: deleteOne_def path split: sum.splits if_splits)
  qed
  from local_repository.remove_law [OF ld.repo_of [OF w(1)] ok3 rm4] z have "recs_of s4 i = None" by simp
  moreover have "lr_status cur = ''complete'' \<or> lr_path cur = [] \<or> d3 (lr_path cur) = None"
  proof (cases unl)
    case True
    have "d3 (lr_path cur) = ?d2 (lr_path cur)" using w(3) env_file [of w "lr_path cur" "Suc (Suc n)" "(s2, ?d2)"] e3 by simp
    with True show ?thesis by simp
  qed (use unl in blast)
  ultimately show ?thesis using e0 e1 cur(1) z by auto
qed

end
