(* ===== verification/Local_Queue.thy ===== *)
theory Local_Queue
  imports Prelude
begin

text \<open>
  The queue of the local downloader (\<open>application/downloader.local/worker.go\<close>): \<open>Start\<close>, \<open>Stop\<close>, the loop of the worker and \<open>queueID\<close>, which
  the scanner, the start and every submission call. The execution of a download is a goroutine; what it does is the subject
  of \<open>Local_Worker\<close>.
\<close>

section \<open>State\<close>

definition localDownloadQueueSize :: nat where
  "localDownloadQueueSize = 100"

text \<open>
  \<open>lq_queue\<close> is what the current channel holds and \<open>lq_gen\<close> identifies it: a goroutine that is between the two critical sections of
  \<open>queueID\<close> holds the channel it read there, and an id. \<open>lq_loop\<close> is the goroutine of the loop, which waits in \<open>select\<close>, has received an
  id, or waits for the executions after its context ended. \<open>lq_exec\<close> are the goroutines in \<open>Execute\<close>.
\<close>

datatype loopState = Selecting | Received string | Draining

record localQueue =
  lq_running :: bool
  lq_canceled :: bool
  lq_gen :: nat
  lq_queue :: "string list"
  lq_queued :: "string set"
  lq_active :: "string set"
  lq_senders :: "(string \<times> nat) list"
  lq_loop :: "loopState option"
  lq_exec :: "string list"

definition lq_new :: localQueue where
  "lq_new = \<lparr>lq_running = False, lq_canceled = False, lq_gen = 0, lq_queue = [], lq_queued = {}, lq_active = {}, lq_senders = [], lq_loop = None, lq_exec = []\<rparr>"

section \<open>Critical sections\<close>

definition lq_start :: "localQueue \<Rightarrow> localQueue" where
  "lq_start q =
     (if lq_running q then q
      else q\<lparr>lq_running := True, lq_canceled := False, lq_gen := Suc (lq_gen q), lq_queue := [], lq_queued := {}, lq_active := {}, lq_loop := Some Selecting\<rparr>)"

text \<open>\<open>Stop\<close> cancels the context; it then waits for the goroutine of the loop to end. The context may also end by itself.\<close>

definition lq_stop :: "localQueue \<Rightarrow> localQueue" where
  "lq_stop q = (if lq_running q then q\<lparr>lq_canceled := True\<rparr> else q)"

definition queueID_enter :: "string \<Rightarrow> localQueue \<Rightarrow> localQueue" where
  "queueID_enter i q =
     (if \<not> lq_running q then q
      else if i \<in> lq_queued q then q
      else if i \<in> lq_active q then q
      else q\<lparr>lq_queued := insert i (lq_queued q), lq_senders := (i, lq_gen q) # lq_senders q\<rparr>)"

text \<open>
  The second half of \<open>queueID\<close>: a send that does not block. \<open>room\<close> tells whether a channel other than the current one, which
  nobody receives from any more, has room.
\<close>

definition queueID_send :: "string \<Rightarrow> nat \<Rightarrow> bool \<Rightarrow> localQueue \<Rightarrow> localQueue" where
  "queueID_send i g room q =
     (let q1 = q\<lparr>lq_senders := remove1 (i, g) (lq_senders q)\<rparr>
      in if g = lq_gen q \<and> lq_running q
         then (if length (lq_queue q) < localDownloadQueueSize then q1\<lparr>lq_queue := lq_queue q @ [i]\<rparr> else q1\<lparr>lq_queued := lq_queued q - {i}\<rparr>)
         else if room then q1 else q1\<lparr>lq_queued := lq_queued q - {i}\<rparr>)"

definition markRunning :: "string \<Rightarrow> localQueue \<Rightarrow> bool \<times> localQueue" where
  "markRunning i q =
     (let q1 = q\<lparr>lq_queued := lq_queued q - {i}\<rparr>
      in if i = [] then (False, q1)
         else if i \<in> lq_active q then (False, q1)
         else (True, q1\<lparr>lq_active := insert i (lq_active q)\<rparr>))"

definition markStopped :: "string \<Rightarrow> localQueue \<Rightarrow> localQueue" where
  "markStopped i q = q\<lparr>lq_active := lq_active q - {i}\<rparr>"

definition lq_dispatch :: "string \<Rightarrow> localQueue \<Rightarrow> localQueue" where
  "lq_dispatch i q =
     (case markRunning i q of
        (False, q1) \<Rightarrow> q1\<lparr>lq_loop := Some Selecting\<rparr>
      | (True, q1) \<Rightarrow> q1\<lparr>lq_loop := Some Selecting, lq_exec := i # lq_exec q\<rparr>)"

text \<open>The deferred function of the goroutine that \<open>Start\<close> created.\<close>

definition lq_exit :: "localQueue \<Rightarrow> localQueue" where
  "lq_exit q = q\<lparr>lq_running := False, lq_queue := [], lq_queued := {}, lq_active := {}, lq_loop := None\<rparr>"

inductive lq_step :: "localQueue \<Rightarrow> localQueue \<Rightarrow> bool" where
  start: "lq_step q (lq_start q)"
| stop: "lq_step q (lq_stop q)"
| enter: "lq_step q (queueID_enter i q)"
| send: "(i, g) \<in> set (lq_senders q) \<Longrightarrow> lq_step q (queueID_send i g room q)"
| receive: "lq_loop q = Some Selecting \<Longrightarrow> lq_queue q = i # is \<Longrightarrow> lq_step q (q\<lparr>lq_queue := is, lq_loop := Some (Received i)\<rparr>)"
| dispatch: "lq_loop q = Some (Received i) \<Longrightarrow> lq_step q (lq_dispatch i q)"
| leave: "i \<in> set (lq_exec q) \<Longrightarrow> lq_step q (markStopped i (q\<lparr>lq_exec := remove1 i (lq_exec q)\<rparr>))"
| drain: "lq_loop q = Some Selecting \<Longrightarrow> lq_canceled q \<Longrightarrow> lq_step q (q\<lparr>lq_loop := Some Draining\<rparr>)"
| exit: "lq_loop q = Some Draining \<Longrightarrow> lq_exec q = [] \<Longrightarrow> lq_step q (lq_exit q)"

section \<open>Single flight\<close>

text \<open>An id that counts as queued is in the channel, held by the loop, or about to be sent to the channel.\<close>

definition on_its_way :: "localQueue \<Rightarrow> string \<Rightarrow> bool" where
  "on_its_way q i \<longleftrightarrow> i \<in> set (lq_queue q) \<or> lq_loop q = Some (Received i) \<or> (i, lq_gen q) \<in> set (lq_senders q)"

definition lq_inv :: "localQueue \<Rightarrow> bool" where
  "lq_inv q \<longleftrightarrow> lq_active q = set (lq_exec q) \<and> distinct (lq_exec q) \<and> [] \<notin> lq_active q \<and> length (lq_queue q) \<le> localDownloadQueueSize
     \<and> (lq_running q \<longleftrightarrow> lq_loop q \<noteq> None) \<and> (\<not> lq_running q \<longrightarrow> lq_exec q = [] \<and> lq_queue q = [] \<and> lq_queued q = {})
     \<and> (\<forall>i \<in> lq_queued q. on_its_way q i) \<and> (\<forall>(i, g) \<in> set (lq_senders q). g \<le> lq_gen q)"

lemmas lq_defs = lq_start_def lq_stop_def queueID_enter_def queueID_send_def markRunning_def markStopped_def lq_dispatch_def lq_exit_def

lemma on_its_way_send: "on_its_way q j \<Longrightarrow> j \<noteq> i \<Longrightarrow> on_its_way (q\<lparr>lq_senders := remove1 (i, g) (lq_senders q)\<rparr>) j"
  by (auto simp: on_its_way_def)

lemma lq_inv_step: "lq_step q q' \<Longrightarrow> lq_inv q \<Longrightarrow> lq_inv q'"
proof (induction rule: lq_step.induct)
  case (start q)
  then show ?case by (auto simp: lq_inv_def lq_start_def on_its_way_def)
next
  case (stop q)
  then show ?case by (auto simp: lq_inv_def lq_stop_def on_its_way_def)
next
  case (enter q i)
  then show ?case by (auto simp: lq_inv_def queueID_enter_def on_its_way_def)
next
  case (send i g q room)
  let ?q1 = "q\<lparr>lq_senders := remove1 (i, g) (lq_senders q)\<rparr>"
  have older: "\<forall>(j, h) \<in> set (remove1 (i, g) (lq_senders q)). h \<le> lq_gen q"
    using send(2) set_remove1_subset [of "(i, g)" "lq_senders q"] by (auto simp: lq_inv_def)
  have way: "on_its_way ?q1 j" if "j \<in> lq_queued q" "j \<noteq> i \<or> g \<noteq> lq_gen q" for j
    using send(2) that by (auto simp: lq_inv_def on_its_way_def)
  consider "g = lq_gen q" "lq_running q" "length (lq_queue q) < localDownloadQueueSize" | "g = lq_gen q" "lq_running q" "\<not> length (lq_queue q) < localDownloadQueueSize"
    | "g \<noteq> lq_gen q \<or> \<not> lq_running q" by blast
  then show ?case
  proof cases
    case 1
    have "on_its_way (?q1\<lparr>lq_queue := lq_queue q @ [i]\<rparr>) j" if "j \<in> lq_queued q" for j
      using way [OF that] by (cases "j = i") (auto simp: on_its_way_def)
    with 1 send(2) older show ?thesis by (auto simp: lq_inv_def queueID_send_def)
  next
    case 2
    have "on_its_way (?q1\<lparr>lq_queued := lq_queued q - {i}\<rparr>) j" if "j \<in> lq_queued q - {i}" for j
      using way [of j] that by (simp add: on_its_way_def)
    with 2 send(2) older show ?thesis by (auto simp: lq_inv_def queueID_send_def)
  next
    case 3
    have "on_its_way (?q1\<lparr>lq_queued := Q\<rparr>) j" if "j \<in> lq_queued q" for j Q
      using way [OF that] 3 send(2) that by (auto simp: on_its_way_def lq_inv_def)
    moreover have "on_its_way ?q1 j" if "j \<in> lq_queued q" for j
      using way [OF that] 3 send(2) that by (auto simp: lq_inv_def)
    ultimately show ?thesis using 3 send(2) older by (auto simp: lq_inv_def queueID_send_def)
  qed
next
  case (receive q i "is")
  then show ?case by (auto simp: lq_inv_def on_its_way_def)
next
  case (dispatch q i)
  then show ?case by (auto simp: lq_inv_def lq_dispatch_def markRunning_def on_its_way_def)
next
  case (leave i q)
  then show ?case by (auto simp: lq_inv_def markStopped_def on_its_way_def)
next
  case (drain q)
  then show ?case by (auto simp: lq_inv_def on_its_way_def)
next
  case (exit q)
  then show ?case by (auto simp: lq_inv_def lq_exit_def on_its_way_def)
qed

interpretation lqi: invariant_proof "\<lambda>q. q = lq_new" lq_step lq_inv
proof
  show "lq_inv q" if "q = lq_new" for q using that by (simp add: lq_inv_def lq_new_def)
  show "lq_inv q'" if "lq_inv q" "lq_step q q'" for q q' using lq_inv_step that by blast
qed

text \<open>Progress: a goroutine that is not an execution can proceed as long as an id counts as queued.\<close>

inductive lq_moves :: "localQueue \<Rightarrow> bool" where
  "(i, g) \<in> set (lq_senders q) \<Longrightarrow> lq_moves q"
| "lq_loop q = Some Selecting \<Longrightarrow> lq_queue q \<noteq> [] \<Longrightarrow> lq_moves q"
| "lq_loop q = Some (Received i) \<Longrightarrow> lq_moves q"


definition demo_queue :: localQueue where
  "demo_queue = lq_dispatch ''a'' ((queueID_send ''a'' 1 True (queueID_enter ''a'' (lq_start lq_new)))\<lparr>lq_queue := [], lq_loop := Some (Received ''a'')\<rparr>)"


end
