(* ===== verification/Download_Pipeline.thy ===== *)
theory Download_Pipeline
  imports Naming_Rules Filter_Rules
begin

text \<open>
  The submission of downloads (\<open>application/download.control\<close>): the router that tries executors in order (\<open>router.go\<close>), the
  choice of executors from the configuration (\<open>config.go\<close>), the pipeline that filters, names and submits the media of one
  message (\<open>pipeline.go\<close>) with its pool of workers, and the service that drains its calls (\<open>plugin.go\<close>).
  Executors, source and file system are adapters that may also panic; what they answer is part of the world of a call.
\<close>

section \<open>Data\<close>

definition ErrDownloadNotAccepted :: err where
  "ErrDownloadNotAccepted = ErrMsg ''download was not accepted''"

definition DefaultAccount :: string where "DefaultAccount = ''default''"
definition localExecutor :: string where "localExecutor = ''local''"
definition aria2Executor :: string where "aria2Executor = ''aria2''"
definition httpExecutor :: string where "httpExecutor = ''http''"

record namingData =
  nd_dialogID :: int
  nd_directoryID :: string
  nd_peerName :: string
  nd_messageID :: int
  nd_triggerMessageID :: int
  nd_messageDate :: int
  nd_caption :: string
  nd_messageTitle :: string
  nd_albumID :: string
  nd_fileName :: string
  nd_fileSize :: int
  nd_downloadedAt :: instant

record downloadMedia =
  dm_token :: string
  dm_data :: namingData

record downloadRoute =
  rt_executors :: "string list"
  rt_localRoot :: string

record downloadSubmission =
  sm_account :: string
  sm_taskID :: string
  sm_url :: string
  sm_dir :: string
  sm_out :: string
  sm_full :: string

record downloadResult =
  dr_account :: string
  dr_target :: string
  dr_id :: string
  dr_skipped :: bool

definition no_result :: downloadResult where
  "no_result = \<lparr>dr_account = [], dr_target = [], dr_id = [], dr_skipped = False\<rparr>"

text \<open>A call of an adapter returns or panics.\<close>

datatype 'a answer = Returned 'a | Panicked string

type_synonym answered = "(downloadResult \<times> err option) answer"

text \<open>\<open>errors.Join\<close> of two errors that may be nil.\<close>

fun errs_join :: "err option \<Rightarrow> err option \<Rightarrow> err option" where
  "errs_join None b = b"
| "errs_join a None = a"
| "errs_join (Some a) (Some b) = Some (ErrJoin a b)"

definition not_accepted :: "err option \<Rightarrow> bool" where
  "not_accepted e \<longleftrightarrow> (case e of None \<Rightarrow> False | Some x \<Rightarrow> errors_is x ErrDownloadNotAccepted)"

text \<open>The text of an error, where one is formatted into another with \<open>%v\<close>.\<close>

fun err_text :: "err \<Rightarrow> string" where
  "err_text ErrNotFound = ''key not found''"
| "err_text Canceled = ''context canceled''"
| "err_text DeadlineExceeded = ''context deadline exceeded''"
| "err_text ErrEOF = ''EOF''"
| "err_text ErrUnexpectedEOF = ''unexpected EOF''"
| "err_text ErrShortWrite = ''short write''"
| "err_text (ErrMsg m) = m"
| "err_text (ErrWrap m e) = m @ '': '' @ err_text e"
| "err_text (ErrJoin a b) = err_text a @ [CHR 0x0A] @ err_text b"

definition nil_text :: "err option \<Rightarrow> string" where
  "nil_text e = (case e of None \<Rightarrow> ''<nil>'' | Some x \<Rightarrow> err_text x)"

section \<open>Router\<close>

text \<open>An executor acts on a state of the caller; a nil executor is \<open>None\<close>. \<open>ctxs i\<close> is the context when the loop looks at it for the \<open>i\<close>-th time.\<close>

type_synonym 's executor = "string \<times> (downloadSubmission \<Rightarrow> 's \<Rightarrow> answered \<times> 's)"

fun router_loop :: "(nat \<Rightarrow> ctx) \<Rightarrow> nat \<Rightarrow> 's executor option list \<Rightarrow> downloadSubmission \<Rightarrow> err option \<Rightarrow> 's \<Rightarrow> answered \<times> 's" where
  "router_loop ctxs i [] request rejected s =
     (Returned (no_result, Some (case rejected of None \<Rightarrow> ErrDownloadNotAccepted | Some e \<Rightarrow> e)), s)"
| "router_loop ctxs i (ex # exs) request rejected s =
     (case ctxs i of
        Some e \<Rightarrow> (Returned (no_result, Some e), s)
      | None \<Rightarrow>
          (case ex of
             None \<Rightarrow> router_loop ctxs (Suc i) exs request rejected s
           | Some (name, submit) \<Rightarrow>
               (case submit request s of
                  (Panicked p, s1) \<Rightarrow> (Panicked p, s1)
                | (Returned (r, None), s1) \<Rightarrow> (Returned (r, None), s1)
                | (Returned (r, Some e), s1) \<Rightarrow>
                    if \<not> errors_is e ErrDownloadNotAccepted then (Returned (r, Some e), s1)
                    else if dr_id r \<noteq> [] then (Returned (r, Some e), s1)
                    else router_loop ctxs (Suc i) exs request (errs_join rejected (Some (ErrWrap name e))) s1)))"

definition newRouter_account :: "string \<Rightarrow> string" where
  "newRouter_account account = (if account = [] then DefaultAccount else account)"

definition router_submit :: "string \<Rightarrow> (nat \<Rightarrow> ctx) \<Rightarrow> 's executor option list \<Rightarrow> downloadSubmission \<Rightarrow> 's \<Rightarrow> answered \<times> 's" where
  "router_submit account ctxs exs request s =
     (if sm_account request \<noteq> newRouter_account account then (Returned (no_result, Some (ErrMsg ''download account mismatch'')), s)
      else router_loop ctxs 0 exs request None s)"

text \<open>The executor that only exposes the link.\<close>

definition linkExecutor_submit :: "ctx \<Rightarrow> downloadSubmission \<Rightarrow> downloadResult \<times> err option" where
  "linkExecutor_submit c request =
     (case c of
        Some e \<Rightarrow> (no_result, Some e)
      | None \<Rightarrow>
          if sm_url request = [] \<or> sm_taskID request = [] then (no_result, Some (ErrWrap ''download link is unavailable'' ErrDownloadNotAccepted))
          else (\<lparr>dr_account = sm_account request, dr_target = httpExecutor, dr_id = sm_taskID request, dr_skipped = False\<rparr>, None))"

section \<open>Configuration\<close>

text \<open>\<open>PrepareConfig\<close> after the typed reads; \<open>seen\<close> are the names before this one.\<close>

fun check_executors :: "string list \<Rightarrow> string list \<Rightarrow> err option" where
  "check_executors seen [] = None"
| "check_executors seen (name # names) =
     (if name \<notin> {localExecutor, aria2Executor, httpExecutor} \<or> name \<in> set seen then Some (ErrMsg (''invalid or duplicate download executor '' @ name))
      else if name = httpExecutor \<and> names \<noteq> [] then Some (ErrMsg ''http must be the final executor'')
      else check_executors (name # seen) names)"

definition is_abs :: "string \<Rightarrow> bool" where
  "is_abs p \<longleftrightarrow> has_prefix p ''/''"

definition prepare_route :: "ctx \<Rightarrow> string list \<Rightarrow> string \<Rightarrow> downloadRoute res" where
  "prepare_route c executors localRoot =
     (case c of
        Some e \<Rightarrow> Inl e
      | None \<Rightarrow>
          if executors = [] then Inl (ErrMsg ''executors cannot be empty'')
          else case check_executors [] executors of
                 Some e \<Rightarrow> Inl e
               | None \<Rightarrow>
                   let selected = hd executors # (if hd executors \<noteq> httpExecutor \<and> httpExecutor \<in> set executors then [httpExecutor] else []);
                       root = trim_space localRoot
                   in if root \<noteq> [] \<and> \<not> is_abs root then Inl (ErrMsg ''local_root must be empty or an absolute local path'')
                      else Inr \<lparr>rt_executors = selected, rt_localRoot = root\<rparr>)"

text \<open>\<open>filepath.Clean\<close> on slash-separated paths, and the local root that stands beside the executable by default.\<close>

fun clean_parts :: "bool \<Rightarrow> string list \<Rightarrow> string list \<Rightarrow> string list" where
  "clean_parts rooted acc [] = rev acc"
| "clean_parts rooted acc (p # ps) =
     (if p = [] \<or> p = ''.'' then clean_parts rooted acc ps
      else if p = ''..'' then
        (case acc of
           q # qs \<Rightarrow> if q \<noteq> ''..'' then clean_parts rooted qs ps else clean_parts rooted (p # acc) ps
         | [] \<Rightarrow> if rooted then clean_parts rooted [] ps else clean_parts rooted [p] ps)
      else clean_parts rooted (p # acc) ps)"

definition fp_clean :: "string \<Rightarrow> string" where
  "fp_clean p =
     (let body = join ''/'' (clean_parts (is_abs p) [] (split_on (CHR ''/'') p))
      in if is_abs p then ''/'' @ body else if body = [] then ''.'' else body)"

definition fp_dir :: "string \<Rightarrow> string" where
  "fp_dir p = fp_clean (rev (dropWhile (\<lambda>c. c \<noteq> CHR ''/'') (rev p)))"

definition fp_join :: "string list \<Rightarrow> string" where
  "fp_join ps = (let qs = filter (\<lambda>p. p \<noteq> []) ps in if qs = [] then [] else fp_clean (join ''/'' qs))"

definition targetpath_localRoot :: "string res \<Rightarrow> string \<Rightarrow> string res" where
  "targetpath_localRoot executable configured =
     (case (if trim_space configured = []
            then (case executable of Inl e \<Rightarrow> Inl (ErrWrap ''locate executable for local downloads'' e) | Inr x \<Rightarrow> Inr (fp_join [fp_dir x, ''download'']))
            else Inr (trim_space configured)) of
        Inl e \<Rightarrow> Inl e
      | Inr root \<Rightarrow> if \<not> is_abs root then Inl (ErrMsg ''local download root must be empty or absolute'') else Inr (fp_clean root))"

definition cleanTargetRoot :: "string \<Rightarrow> string" where
  "cleanTargetRoot given =
     (let root = trim_space given
      in if root = [] then [] else if looksWindowsPath root then fp_clean root else pathCleanSlash root)"

section \<open>Plans\<close>

record downloadPlan =
  pn_media :: downloadMedia
  pn_local :: namingResult
  pn_remote :: namingResult
  pn_localError :: "err option"
  pn_remoteError :: "err option"
  pn_fileName :: string

definition no_naming :: namingResult where
  "no_naming = \<lparr>nr_fileName = [], nr_dir = [], nr_out = [], nr_full = [], nr_maxBytes = 0\<rparr>"

record downloadSummary =
  su_link :: string
  su_peerID :: int
  su_messageID :: int
  su_total :: nat
  su_queued :: nat
  su_skipped :: nat
  su_failed :: nat
  su_uncertain :: nat
  su_links :: "(string \<times> string) list"

text \<open>
  The naming policy and the filter that a connection lends to a batch. \<open>np_render i\<close> is the answer for the \<open>i\<close>-th medium, from the base
  directory and its metadata; \<open>bw_ctx i\<close> is the context when the loop reaches that medium.
\<close>

record batchWorld =
  bw_ctx :: "nat \<Rightarrow> ctx"
  bw_filter :: "string \<Rightarrow> int \<Rightarrow> bool \<times> reason"
  bw_render :: "nat \<Rightarrow> string \<Rightarrow> namingData \<Rightarrow> namingResult \<times> err option"
  bw_unique :: "namingResult list \<Rightarrow> namingResult list \<times> err option"
  bw_remoteRoot :: string
  bw_skipSame :: bool
  bw_limit :: int
  bw_hasExecutor :: "string \<Rightarrow> bool"

definition uses_remote :: "downloadRoute \<Rightarrow> bool" where
  "uses_remote route \<longleftrightarrow> aria2Executor \<in> set (rt_executors route) \<or> httpExecutor \<in> set (rt_executors route)"

definition make_plan :: "batchWorld \<Rightarrow> nat \<Rightarrow> downloadRoute \<Rightarrow> downloadMedia \<Rightarrow> downloadPlan" where
  "make_plan w i route item =
     (let (loc, locErr) = (if localExecutor \<in> set (rt_executors route) then bw_render w i (rt_localRoot route) (dm_data item) else (no_naming, None));
          (rem, remErr) = (if uses_remote route then bw_render w i (cleanTargetRoot (bw_remoteRoot w)) (dm_data item) else (no_naming, None))
      in \<lparr>pn_media = item, pn_local = loc, pn_remote = rem, pn_localError = locErr, pn_remoteError = remErr,
          pn_fileName = if nr_fileName loc = [] then nr_fileName rem else nr_fileName loc\<rparr>)"

definition unlucky :: "err \<Rightarrow> downloadSummary \<times> err option \<Rightarrow> downloadSummary \<times> err option" where
  "unlucky e acc = (case acc of (su, fails) \<Rightarrow> (su\<lparr>su_failed := Suc (su_failed su)\<rparr>, errs_join fails (Some e)))"

text \<open>The loop of \<open>prepareBatch\<close>: the plans it makes, and the summary with the errors it joined.\<close>

fun plan_loop :: "batchWorld \<Rightarrow> nat \<Rightarrow> downloadRoute \<Rightarrow> downloadMedia list \<Rightarrow> downloadSummary \<times> err option \<Rightarrow> downloadPlan list \<times> downloadSummary \<times> err option" where
  "plan_loop w i route [] acc = ([], acc)"
| "plan_loop w i route (item # items) acc =
     (case bw_ctx w i of
        Some e \<Rightarrow> plan_loop w (Suc i) route items (unlucky e acc)
      | None \<Rightarrow>
          (case bw_filter w (nd_fileName (dm_data item)) (nd_fileSize (dm_data item)) of
             (False, reason) \<Rightarrow>
               if reason = ExtensionExcluded \<or> reason = SizeExcluded
               then plan_loop w (Suc i) route items (case acc of (su, fails) \<Rightarrow> (su\<lparr>su_skipped := Suc (su_skipped su)\<rparr>, fails))
               else plan_loop w (Suc i) route items (unlucky (ErrMsg ''filter unavailable'') acc)
           | (True, _) \<Rightarrow>
               if dm_token item = [] \<or> nd_messageID (dm_data item) \<le> 0 \<or> nd_fileSize (dm_data item) < 0
               then plan_loop w (Suc i) route items (unlucky (ErrMsg ''invalid download media metadata'') acc)
               else let p = make_plan w i route item
                    in if pn_fileName p = []
                       then plan_loop w (Suc i) route items
                              (unlucky (case errs_join (pn_localError p) (pn_remoteError p) of None \<Rightarrow> ErrMsg ''prepare message'' | Some e \<Rightarrow> ErrWrap ''prepare message'' e) acc)
                       else (case plan_loop w (Suc i) route items acc of (ps, acc1) \<Rightarrow> (p # ps, acc1))))"

text \<open>The names that \<open>Unique\<close> chose go back to the plans whose local name was rendered.\<close>

fun assign_names :: "err option \<Rightarrow> namingResult list \<Rightarrow> downloadPlan list \<Rightarrow> downloadPlan list" where
  "assign_names e us [] = []"
| "assign_names e us (p # ps) =
     (if pn_localError p \<noteq> None then p # assign_names e us ps
      else case (e, us) of
             (None, u # us1) \<Rightarrow> p\<lparr>pn_local := u, pn_fileName := nr_fileName u\<rparr> # assign_names e us1 ps
           | (_, _) \<Rightarrow> p\<lparr>pn_localError := e\<rparr> # assign_names e us ps)"

definition prepareBatch :: "batchWorld \<Rightarrow> downloadMedia list \<Rightarrow> downloadRoute \<Rightarrow> downloadSummary \<Rightarrow> downloadPlan list \<times> downloadSummary \<times> err option" where
  "prepareBatch w media route su =
     (case plan_loop w 0 route media (su, None) of
        (plans, su1, fails) \<Rightarrow>
          if localExecutor \<notin> set (rt_executors route) then (plans, su1, fails)
          else let targets = map pn_local (filter (\<lambda>p. pn_localError p = None) plans)
               in if targets = [] then (plans, su1, fails)
                  else (case bw_unique w targets of
                          (us, e) \<Rightarrow>
                            let e1 = (if e = None \<and> length us \<noteq> length targets then Some (ErrMsg ''naming returned an invalid target count'') else e)
                            in (assign_names e1 us plans, su1, fails)))"

section \<open>One submission\<close>

text \<open>
  What the adapters answer while one plan is submitted. The context is looked at on entry (0), before the \<open>j\<close>-th executor (\<open>2 j + 1\<close>)
  and inside it (\<open>2 j + 2\<close>). The state of a submission is the flag \<open>enteredExecutor\<close> and the executors that were entered, with what was
  submitted and what they answered.
\<close>

record planWorld =
  pw_ctx :: "nat \<Rightarrow> ctx"
  pw_register :: "string \<Rightarrow> string \<Rightarrow> (string \<times> err option) answer"
  pw_url :: "string \<Rightarrow> (string \<times> err option) answer"
  pw_same :: "nat \<Rightarrow> string \<Rightarrow> int \<Rightarrow> (bool \<times> err option) answer"
  pw_mkdir :: "nat \<Rightarrow> string \<Rightarrow> err option answer"
  pw_submit :: "nat \<Rightarrow> string \<Rightarrow> downloadSubmission \<Rightarrow> answered"

record entry =
  en_name :: string
  en_request :: downloadSubmission
  en_answer :: answered

type_synonym submitState = "bool \<times> entry list"

definition rejectedTarget :: "err \<Rightarrow> err" where
  "rejectedTarget e = ErrWrap (''download target unavailable: '' @ err_text e) ErrDownloadNotAccepted"

definition enter :: "batchWorld \<Rightarrow> planWorld \<Rightarrow> nat \<Rightarrow> string \<Rightarrow> downloadSubmission \<Rightarrow> submitState \<Rightarrow> answered \<times> submitState" where
  "enter b w j name request s =
     (if bw_hasExecutor b name
      then case pw_ctx w (2 * j + 2) of
             Some e \<Rightarrow> (Returned (no_result, Some (ErrJoin e ErrDownloadNotAccepted)), s)
           | None \<Rightarrow>
               let ans = pw_submit w j name request;
                   es = snd s @ [\<lparr>en_name = name, en_request = request, en_answer = ans\<rparr>]
               in (case ans of
                     Panicked p \<Rightarrow> (ans, (True, es))
                   | Returned (r, e) \<Rightarrow> (ans, (\<not> (not_accepted e \<and> dr_id r = []), es)))
      else (Returned (no_result, Some ErrDownloadNotAccepted), s))"

definition batchExecutor :: "batchWorld \<Rightarrow> planWorld \<Rightarrow> string \<Rightarrow> downloadPlan \<Rightarrow> string \<Rightarrow> string \<Rightarrow> err option \<Rightarrow> nat \<Rightarrow> string \<Rightarrow> downloadSubmission \<Rightarrow> submitState \<Rightarrow> answered \<times> submitState" where
  "batchExecutor b w account plan tid url urlErr j name request s =
     (let refuse = (\<lambda>e. (Returned (no_result, Some e), s))
      in if name = localExecutor
         then (case pn_localError plan of
                 Some e \<Rightarrow> refuse (rejectedTarget e)
               | None \<Rightarrow>
                   (case (if bw_skipSame b then pw_same w j (nr_full (pn_local plan)) (nd_fileSize (dm_data (pn_media plan))) else Returned (False, None)) of
                      Panicked p \<Rightarrow> (Panicked p, s)
                    | Returned (_, Some e) \<Rightarrow> refuse (rejectedTarget e)
                    | Returned (True, None) \<Rightarrow> (Returned (\<lparr>dr_account = account, dr_target = name, dr_id = tid, dr_skipped = True\<rparr>, None), s)
                    | Returned (False, None) \<Rightarrow>
                        if \<not> bw_hasExecutor b name then refuse ErrDownloadNotAccepted
                        else (case pw_mkdir w j (nr_dir (pn_local plan)) of
                                Panicked p \<Rightarrow> (Panicked p, s)
                              | Returned (Some e) \<Rightarrow> refuse (rejectedTarget e)
                              | Returned None \<Rightarrow>
                                  enter b w j name
                                    (request\<lparr>sm_dir := nr_dir (pn_local plan), sm_out := nr_out (pn_local plan), sm_full := nr_full (pn_local plan)\<rparr>) s)))
         else if urlErr \<noteq> None \<or> url = [] then refuse (rejectedTarget (ErrMsg (''download URL unavailable: '' @ nil_text urlErr)))
         else if name = httpExecutor then (Returned (linkExecutor_submit (pw_ctx w (2 * j + 2)) request), s)
         else (case pn_remoteError plan of
                 Some e \<Rightarrow> refuse (rejectedTarget e)
               | None \<Rightarrow>
                   enter b w j name
                     (request\<lparr>sm_dir := nr_dir (pn_remote plan), sm_out := nr_out (pn_remote plan), sm_full := nr_full (pn_remote plan)\<rparr>) s))"

definition batchExecutors :: "batchWorld \<Rightarrow> planWorld \<Rightarrow> string \<Rightarrow> downloadPlan \<Rightarrow> string \<Rightarrow> string \<Rightarrow> err option \<Rightarrow> string list \<Rightarrow> submitState executor list" where
  "batchExecutors b w account plan tid url urlErr names =
     map (\<lambda>(j, name). (name, batchExecutor b w account plan tid url urlErr j name)) (enumerate 0 names)"

record outcome =
  oc_result :: downloadResult
  oc_link :: "(string \<times> string) option"
  oc_err :: "err option"

text \<open>The deferred function of \<open>submitPrepared\<close>: \<open>entered\<close> tells whether an executor was entered that did not reject.\<close>

definition recovered :: "bool \<Rightarrow> string \<Rightarrow> outcome" where
  "recovered entered p =
     (let e = ErrMsg (''download adapter panic: '' @ p)
      in \<lparr>oc_result = no_result, oc_link = None, oc_err = Some (if entered then e else ErrJoin e ErrDownloadNotAccepted)\<rparr>)"

text \<open>The end of \<open>submitPrepared\<close>, on the answer of the router, the flag and the executors that were entered.\<close>

definition finish_submission :: "downloadPlan \<Rightarrow> string \<Rightarrow> answered \<times> submitState \<Rightarrow> outcome \<times> entry list" where
  "finish_submission plan url x =
     (case x of
        (Panicked p, (entered, es)) \<Rightarrow> (recovered entered p, es)
      | (Returned (r, er), (entered, es)) \<Rightarrow>
          (\<lparr>oc_result = r,
            oc_link = if dr_target r = httpExecutor \<and> er = None then Some (pn_fileName plan, url) else None,
            oc_err = if er \<noteq> None \<and> \<not> entered then errs_join er (Some ErrDownloadNotAccepted) else er\<rparr>, es))"

definition submitPrepared :: "batchWorld \<Rightarrow> string \<Rightarrow> downloadRoute \<Rightarrow> planWorld \<Rightarrow> downloadPlan \<Rightarrow> outcome \<times> entry list" where
  "submitPrepared b account route w plan =
     (let failed = (\<lambda>e. \<lparr>oc_result = no_result, oc_link = None, oc_err = Some e\<rparr>)
      in case pw_ctx w 0 of
           Some e \<Rightarrow> (failed (ErrJoin e ErrDownloadNotAccepted), [])
         | None \<Rightarrow>
             (case pw_register w (dm_token (pn_media plan)) (pn_fileName plan) of
                Panicked p \<Rightarrow> (recovered False p, [])
              | Returned (tid, e) \<Rightarrow>
                  if e \<noteq> None \<or> tid = [] then (failed (ErrWrap (''register download source: '' @ nil_text e) ErrDownloadNotAccepted), [])
                  else (case (if uses_remote route then pw_url w tid else Returned ([], None)) of
                          Panicked p \<Rightarrow> (recovered False p, [])
                        | Returned (url, urlErr) \<Rightarrow>
                            finish_submission plan url
                              (router_submit account (\<lambda>j. pw_ctx w (2 * j + 1))
                                 (map Some (batchExecutors b w account plan tid url urlErr (rt_executors route)))
                                 \<lparr>sm_account = account, sm_taskID = tid, sm_url = url, sm_dir = [], sm_out = [], sm_full = []\<rparr> (False, [])))))"

section \<open>A batch\<close>

text \<open>How an outcome is counted.\<close>

datatype verdict = Skipped | Queued | Failed | Uncertain

definition verdict_of :: "outcome \<Rightarrow> verdict" where
  "verdict_of oc =
     (if dr_skipped (oc_result oc) then Skipped
      else if oc_err oc = None \<or> dr_id (oc_result oc) \<noteq> [] then Queued
      else if errors_is (the (oc_err oc)) ErrDownloadNotAccepted then Failed
      else Uncertain)"

definition count_outcome :: "downloadPlan \<times> outcome \<Rightarrow> downloadSummary \<times> err option \<Rightarrow> downloadSummary \<times> err option" where
  "count_outcome x acc =
     (case (x, acc) of
        ((plan, oc), (su, fails)) \<Rightarrow>
          let su1 = (case verdict_of oc of
                       Skipped \<Rightarrow> su\<lparr>su_skipped := Suc (su_skipped su)\<rparr>
                     | Queued \<Rightarrow> su\<lparr>su_queued := Suc (su_queued su)\<rparr>
                     | Failed \<Rightarrow> su\<lparr>su_failed := Suc (su_failed su)\<rparr>
                     | Uncertain \<Rightarrow> su\<lparr>su_uncertain := Suc (su_uncertain su)\<rparr>);
              su2 = (case oc_link oc of Some (n, u) \<Rightarrow> if u \<noteq> [] then su1\<lparr>su_links := su_links su @ [(n, u)]\<rparr> else su1 | None \<Rightarrow> su1)
          in (su2, errs_join fails (map_option (ErrWrap (nd_fileName (dm_data (pn_media plan)))) (oc_err oc))))"

definition batchRoute :: "string res \<Rightarrow> downloadRoute res \<Rightarrow> downloadRoute res" where
  "batchRoute executable routed =
     (case routed of
        Inl e \<Rightarrow> Inl e
      | Inr route \<Rightarrow>
          if rt_executors route = [] then Inl (ErrMsg ''download executor list is empty'')
          else if localExecutor \<in> set (rt_executors route)
          then (case targetpath_localRoot executable (rt_localRoot route) of
                  Inl e \<Rightarrow> Inl e
                | Inr root \<Rightarrow> Inr (route\<lparr>rt_localRoot := root\<rparr>))
          else Inr route)"

record downloadIntent =
  di_account :: string
  di_peerID :: int
  di_messageID :: int
  di_link :: string

text \<open>
  \<open>SubmitBatch\<close>. \<open>begun\<close> is the result of \<open>begin\<close>, \<open>resources\<close> tells whether source, filter, naming and files are there, \<open>routed\<close> is the answer of the
  routing port, and \<open>collected\<close> the media that the source found, with whether it also gave a registration. \<open>worlds j\<close> answers the
  submission of the \<open>j\<close>-th plan. The result holds the summary, the error and the executors that each submission entered.
\<close>

definition submit_all :: "batchWorld \<Rightarrow> string \<Rightarrow> downloadRoute \<Rightarrow> (nat \<Rightarrow> planWorld) \<Rightarrow> downloadPlan list \<Rightarrow> (outcome \<times> entry list) list" where
  "submit_all b account route worlds plans = map (\<lambda>(j, p). submitPrepared b account route (worlds j) p) (enumerate 0 plans)"

definition submitBatch :: "unit res \<Rightarrow> string \<Rightarrow> bool \<Rightarrow> string res \<Rightarrow> downloadRoute res \<Rightarrow> (downloadMedia list \<times> bool) res \<Rightarrow> batchWorld \<Rightarrow> (nat \<Rightarrow> planWorld)
    \<Rightarrow> downloadIntent \<Rightarrow> downloadSummary \<times> err option \<times> entry list list" where
  "submitBatch begun account resources executable routed collected b worlds request =
     (let su = \<lparr>su_link = di_link request, su_peerID = di_peerID request, su_messageID = di_messageID request, su_total = 0, su_queued = 0,
                su_skipped = 0, su_failed = 0, su_uncertain = 0, su_links = []\<rparr>
      in case begun of
           Inl e \<Rightarrow> (su, Some e, [])
         | Inr _ \<Rightarrow>
             if di_account request \<noteq> account \<or> di_messageID request \<le> 0 then (su, Some (ErrMsg ''invalid download intent account or message''), [])
             else if \<not> resources then (su, Some (ErrMsg ''download pipeline resources are unavailable''), [])
             else (case batchRoute executable routed of
                     Inl e \<Rightarrow> (su, Some e, [])
                   | Inr route \<Rightarrow>
                       (case collected of
                          Inl e \<Rightarrow> (su, Some e, [])
                        | Inr (media, registration) \<Rightarrow>
                            let su1 = su\<lparr>su_total := length media\<rparr>
                            in if media = [] then (su1, None, [])
                               else if \<not> registration then (su1\<lparr>su_failed := length media\<rparr>, Some (ErrMsg ''download source registration is unavailable''), [])
                               else (case prepareBatch b media route su1 of
                                       (plans, su2, fails) \<Rightarrow>
                                         let outs = submit_all b account route worlds plans
                                         in (case fold count_outcome (zip plans (map fst outs)) (su2, fails) of
                                               (su3, e) \<Rightarrow> (su3, e, map snd outs))))))"

section \<open>The pool of workers\<close>

text \<open>
  The workers of \<open>SubmitBatch\<close> take indexes from a closed channel. \<open>pl_busy\<close> are the indexes being worked on and \<open>pl_idle\<close> the workers that
  wait for the channel; the answer for an index is \<open>f i\<close>, whenever it is computed.
\<close>

record 'a pool =
  pl_queue :: "nat list"
  pl_busy :: "nat list"
  pl_idle :: nat
  pl_out :: "nat \<rightharpoonup> 'a"

definition pool_workers :: "int \<Rightarrow> nat \<Rightarrow> nat" where
  "pool_workers limit n = nat (min (max 1 limit) (int n))"

definition pool_start :: "int \<Rightarrow> nat \<Rightarrow> 'a pool" where
  "pool_start limit n = \<lparr>pl_queue = [0..<n], pl_busy = [], pl_idle = pool_workers limit n, pl_out = Map.empty\<rparr>"

inductive pool_step :: "(nat \<Rightarrow> 'a) \<Rightarrow> 'a pool \<Rightarrow> 'a pool \<Rightarrow> bool" for f where
  take_index: "pl_queue p = i # is \<Longrightarrow> pl_idle p = Suc k \<Longrightarrow>
     pool_step f p (p\<lparr>pl_queue := is, pl_busy := i # pl_busy p, pl_idle := k\<rparr>)"
| finish_index: "i \<in> set (pl_busy p) \<Longrightarrow>
     pool_step f p (p\<lparr>pl_busy := remove1 i (pl_busy p), pl_idle := Suc (pl_idle p), pl_out := (pl_out p)(i \<mapsto> f i)\<rparr>)"
| worker_leaves: "pl_queue p = [] \<Longrightarrow> pl_idle p = Suc k \<Longrightarrow> pool_step f p (p\<lparr>pl_idle := k\<rparr>)"

text \<open>\<open>Wait\<close> returns when no worker is left.\<close>

definition pool_done :: "'a pool \<Rightarrow> bool" where
  "pool_done p \<longleftrightarrow> pl_idle p = 0 \<and> pl_busy p = []"

definition pool_inv :: "int \<Rightarrow> nat \<Rightarrow> (nat \<Rightarrow> 'a) \<Rightarrow> 'a pool \<Rightarrow> bool" where
  "pool_inv limit n f p \<longleftrightarrow> distinct (pl_queue p @ pl_busy p) \<and> set (pl_queue p @ pl_busy p) \<inter> dom (pl_out p) = {}
     \<and> set (pl_queue p @ pl_busy p) \<union> dom (pl_out p) = {0..<n} \<and> (\<forall>i v. pl_out p i = Some v \<longrightarrow> v = f i)
     \<and> pl_idle p + length (pl_busy p) \<le> pool_workers limit n
     \<and> (pl_queue p \<noteq> [] \<longrightarrow> pl_idle p + length (pl_busy p) = pool_workers limit n)"

lemma length_remove1_Suc: "x \<in> set xs \<Longrightarrow> length xs = Suc (length (remove1 x xs))"
  using length_pos_if_in_set [of x xs] by (simp add: length_remove1)

interpretation wp: invariant_proof "\<lambda>p. p = pool_start limit n" "pool_step f" "pool_inv limit n f" for limit n f
proof
  show "pool_inv limit n f p" if "p = pool_start limit n" for p using that by (auto simp: pool_inv_def pool_start_def)
next
  fix p q assume "pool_inv limit n f p" "pool_step f p q"
  from this(2,1) show "pool_inv limit n f q"
  proof cases
    case (finish_index i)
    assume inv: "pool_inv limit n f p"
    note length_remove1_Suc [OF finish_index(2)]
    with inv finish_index show ?thesis by (auto simp: pool_inv_def distinct_remove1 set_remove1_eq)
  qed (auto simp: pool_inv_def)
qed

lemma pool_workers_pos: "0 < n \<Longrightarrow> 0 < pool_workers limit n" by (simp add: pool_workers_def)

lemma pool_progress: "pool_inv limit n f p \<Longrightarrow> \<not> pool_done p \<Longrightarrow> \<exists>q. pool_step f p q"
proof -
  assume inv: "pool_inv limit n f p" and nd: "\<not> pool_done p"
  show ?thesis
  proof (cases "pl_busy p")
    case Nil
    with nd obtain k where k: "pl_idle p = Suc k" by (cases "pl_idle p") (auto simp: pool_done_def)
    show ?thesis
    proof (cases "pl_queue p")
      case Nil
      with k show ?thesis by (blast intro: pool_step.worker_leaves)
    next
      case (Cons i "is")
      with k show ?thesis by (blast intro: pool_step.take_index)
    qed
  next
    case (Cons i "is")
    then have "i \<in> set (pl_busy p)" by simp
    then show ?thesis using pool_step.finish_index [of i p f] by blast
  qed
qed

definition pool_work :: "'a pool \<Rightarrow> nat" where
  "pool_work p = 3 * length (pl_queue p) + 2 * length (pl_busy p) + pl_idle p"

lemma pool_step_work: "pool_step f p q \<Longrightarrow> pool_work q < pool_work p"
proof (induction rule: pool_step.cases)
  case (finish_index i p)
  with length_remove1_Suc [of i "pl_busy p"] show ?case by (simp add: pool_work_def)
qed (auto simp: pool_work_def)

lemma pool_done_out: "pool_inv limit n f p \<Longrightarrow> pool_done p \<Longrightarrow> pl_out p i = (if i < n then Some (f i) else None)"
proof -
  assume inv: "pool_inv limit n f p" and d: "pool_done p"
  have "pl_queue p = []"
  proof (rule ccontr)
    assume q: "pl_queue p \<noteq> []"
    with inv have "0 < n" by (auto simp: pool_inv_def neq_Nil_conv)
    with q inv d pool_workers_pos [of n limit] show False by (simp add: pool_inv_def pool_done_def)
  qed
  then have dom: "dom (pl_out p) = {0..<n}" using inv d by (simp add: pool_inv_def pool_done_def)
  show ?thesis
  proof (cases "i < n")
    case True
    with dom obtain v where "pl_out p i = Some v" by (metis atLeastLessThan_iff domD zero_le)
    with inv True show ?thesis by (simp add: pool_inv_def)
  next
    case False
    with dom have "i \<notin> dom (pl_out p)" by simp
    with False show ?thesis by (simp add: domIff)
  qed
qed

section \<open>At most one download per file\<close>

text \<open>An answer that rules out that a download was created.\<close>

definition definite :: "answered \<Rightarrow> bool" where
  "definite ans = (case ans of Panicked p \<Rightarrow> False | Returned (r, e) \<Rightarrow> not_accepted e \<and> dr_id r = [])"

text \<open>What the flag says about the executors that were entered.\<close>

definition flag_ok :: "submitState \<Rightarrow> bool" where
  "flag_ok s \<longleftrightarrow> (if fst s then snd s \<noteq> [] \<and> list_all (\<lambda>e. definite (en_answer e)) (butlast (snd s)) \<and> \<not> definite (en_answer (last (snd s)))
                   else list_all (\<lambda>e. definite (en_answer e)) (snd s))"

text \<open>
  An executor of the pipeline that starts without a pending acceptance leaves the flag right, sets it only with an answer that may mean
  acceptance, and otherwise rejects, skips or offers the link.
\<close>

definition harmless :: "answered \<Rightarrow> bool" where
  "harmless ans = (case ans of Panicked p \<Rightarrow> True | Returned (r, None) \<Rightarrow> dr_skipped r \<or> dr_target r = httpExecutor | Returned (r, Some e) \<Rightarrow> r = no_result)"

definition careful :: "(downloadSubmission \<Rightarrow> submitState \<Rightarrow> answered \<times> submitState) \<Rightarrow> bool" where
  "careful submit \<longleftrightarrow> (\<forall>request s ans s'. submit request s = (ans, s') \<longrightarrow> \<not> fst s \<longrightarrow> flag_ok s \<longrightarrow>
     flag_ok s' \<and> (if fst s' then \<not> definite ans else definite ans \<or> harmless ans))"

lemma carefulD:
  "careful submit \<Longrightarrow> submit request s = (ans, s') \<Longrightarrow> \<not> fst s \<Longrightarrow> flag_ok s \<Longrightarrow>
     flag_ok s' \<and> (if fst s' then \<not> definite ans else definite ans \<or> harmless ans)"
  unfolding careful_def by (elim allE impE)

lemma enter_flag:
  "enter b w j name request s = (ans, s') \<Longrightarrow> \<not> fst s \<Longrightarrow> flag_ok s \<Longrightarrow>
     flag_ok s' \<and> (if fst s' then \<not> definite ans else definite ans \<or> harmless ans)"
  by (auto simp: enter_def flag_ok_def definite_def harmless_def Let_def split: if_splits option.splits answer.splits prod.splits)

lemma refuse_flag: "\<not> fst s \<Longrightarrow> flag_ok s \<Longrightarrow> harmless ans \<Longrightarrow> flag_ok s \<and> (if fst s then \<not> definite ans else definite ans \<or> harmless ans)"
  by simp

lemma link_harmless: "harmless (Returned (linkExecutor_submit c request))"
  by (auto simp: linkExecutor_submit_def harmless_def split: option.splits)

lemma batchExecutor_careful: "careful (batchExecutor b w account plan tid url urlErr j name)"
  unfolding careful_def
proof (intro allI impI)
  fix request s ans s' assume e: "batchExecutor b w account plan tid url urlErr j name request s = (ans, s')" and s: "\<not> fst s" "flag_ok s"
  have "harmless ans \<and> s' = s \<or> (\<exists>req. enter b w j name req s = (ans, s'))"
    using e link_harmless [of "pw_ctx w (2 * j + 2)" request] unfolding batchExecutor_def Let_def
    by (fastforce simp: harmless_def split: if_splits option.splits answer.splits prod.splits bool.splits)
  then show "flag_ok s' \<and> (if fst s' then \<not> definite ans else definite ans \<or> harmless ans)"
  proof (elim disjE exE conjE)
    show ?thesis if "enter b w j name req s = (ans, s')" for req by (rule enter_flag [OF that s])
  qed (use s in simp)
qed

lemma router_loop_careful:
  assumes "\<forall>x \<in> set exs. case x of None \<Rightarrow> True | Some (name, submit) \<Rightarrow> careful submit" "\<not> fst s" "flag_ok s"
    and "router_loop ctxs i exs request rejected s = (ans, s')"
  shows "flag_ok s' \<and> (if fst s' then \<not> definite ans else harmless ans)"
  using assms
proof (induction exs arbitrary: i rejected s)
  case (Cons x xs)
  show ?case
  proof (cases "ctxs i = None \<and> x \<noteq> None")
    case True
    then obtain name submit where x: "x = Some (name, submit)" by (cases x) auto
    obtain a s1 where a: "submit request s = (a, s1)" by (rule prod.exhaust)
    have "careful submit" using Cons.prems(1) x by simp
    from carefulD [OF this a Cons.prems(2,3)] have c: "flag_ok s1" "if fst s1 then \<not> definite a else definite a \<or> harmless a" by auto
    show ?thesis
    proof (cases "definite a")
      case False
      with Cons.prems(4) True x a have "ans = a" "s' = s1"
        by (auto simp: definite_def not_accepted_def split: answer.splits prod.splits option.splits if_splits)
      with c False show ?thesis by auto
    next
      case d: True
      then obtain r e where r: "a = Returned (r, Some e)" "errors_is e ErrDownloadNotAccepted" "dr_id r = []"
        by (auto simp: definite_def not_accepted_def split: answer.splits prod.splits option.splits)
      with Cons.prems(4) True x a have l: "router_loop ctxs (Suc i) xs request (errs_join rejected (Some (ErrWrap name e))) s1 = (ans, s')" by simp
      have "\<not> fst s1" using c(2) d by (auto split: if_splits)
      from Cons.IH [OF _ this c(1) l] Cons.prems(1) show ?thesis by simp
    qed
  next
    case False
    show ?thesis
    proof (cases "ctxs i")
      case None
      with False have "x = None" by blast
      with None Cons.prems(4) have "router_loop ctxs (Suc i) xs request rejected s = (ans, s')" by simp
      with Cons.IH [OF _ Cons.prems(2,3)] Cons.prems(1) show ?thesis by simp
    next
      case (Some e)
      with Cons.prems show ?thesis by (auto simp: harmless_def)
    qed
  qed
qed (auto simp: harmless_def)

text \<open>What the outcome of a submission says about the executors that were entered.\<close>

definition outcome_ok :: "outcome \<Rightarrow> submitState \<Rightarrow> bool" where
  "outcome_ok oc s \<longleftrightarrow> flag_ok s
     \<and> (if fst s then \<not> (not_accepted (oc_err oc) \<and> dr_id (oc_result oc) = [])
        else (if oc_err oc = None then dr_skipped (oc_result oc) \<or> oc_link oc \<noteq> None else not_accepted (oc_err oc) \<and> oc_result oc = no_result))"

lemma not_accepted_join: "not_accepted (errs_join (Some e) (Some ErrDownloadNotAccepted))" "not_accepted (Some (ErrJoin e ErrDownloadNotAccepted))"
  "not_accepted (Some (ErrWrap m ErrDownloadNotAccepted))" "not_accepted (Some ErrDownloadNotAccepted)"
  by (simp_all add: not_accepted_def ErrDownloadNotAccepted_def)

lemma recovered_ok: "flag_ok s \<Longrightarrow> outcome_ok (recovered (fst s) p) s"
  by (simp add: outcome_ok_def recovered_def Let_def not_accepted_join not_accepted_def ErrDownloadNotAccepted_def)

lemma router_careful:
  assumes "router_submit account ctxs (map Some (batchExecutors b w account plan tid url urlErr names)) request (False, []) = (ans, s)"
  shows "flag_ok s \<and> (if fst s then \<not> definite ans else harmless ans)"
proof (cases "sm_account request = newRouter_account account")
  case False
  with assms show ?thesis by (auto simp: router_submit_def flag_ok_def harmless_def)
next
  case True
  with assms show ?thesis unfolding router_submit_def
    by (intro router_loop_careful [where s = "(False, [])"]) (auto simp: batchExecutors_def batchExecutor_careful flag_ok_def)
qed

lemma finish_ok:
  assumes "flag_ok st" "if fst st then \<not> definite ans else harmless ans" "finish_submission plan url (ans, st) = (oc, es)"
  shows "\<exists>f. outcome_ok oc (f, es)"
proof -
  obtain f es1 where st: "st = (f, es1)" by (rule prod.exhaust)
  show ?thesis
  proof (cases ans)
    case (Panicked p)
    with assms(3) st have "oc = recovered f p" "es = es1" by (auto simp: finish_submission_def)
    with recovered_ok [OF assms(1)] st show ?thesis by auto
  next
    case (Returned x)
    obtain q er where x: "x = (q, er)" by (rule prod.exhaust)
    have "outcome_ok oc (f, es)"
      using Returned x st assms by (cases er) (auto simp: finish_submission_def outcome_ok_def definite_def harmless_def not_accepted_join split: if_splits)
    then show ?thesis by blast
  qed
qed

lemma submitPrepared_ok: "submitPrepared b account route w plan = (oc, es) \<Longrightarrow> \<exists>f. outcome_ok oc (f, es)"
proof -
  assume sub: "submitPrepared b account route w plan = (oc, es)"
  have nil: "flag_ok (False, [])" by (simp add: flag_ok_def)
  have early: "outcome_ok \<lparr>oc_result = no_result, oc_link = None, oc_err = Some e\<rparr> (False, [])" if "not_accepted (Some e)" for e
    using that by (simp add: outcome_ok_def flag_ok_def)
  show ?thesis
  proof (cases "pw_ctx w 0")
    case (Some e)
    with sub early [OF not_accepted_join(2)] show ?thesis by (auto simp: submitPrepared_def)
  next
    case alive: None
    show ?thesis
    proof (cases "pw_register w (dm_token (pn_media plan)) (pn_fileName plan)")
      case (Panicked p)
      with sub alive recovered_ok [OF nil, of p] show ?thesis by (auto simp: submitPrepared_def)
    next
      case (Returned x)
      obtain tid e where x: "x = (tid, e)" by (rule prod.exhaust)
      show ?thesis
      proof (cases "e \<noteq> None \<or> tid = []")
        case True
        with sub alive Returned x early [OF not_accepted_join(3)] show ?thesis by (auto simp: submitPrepared_def)
      next
        case registered: False
        show ?thesis
        proof (cases "if uses_remote route then pw_url w tid else Returned ([], None)")
          case (Panicked p)
          with sub alive Returned x registered recovered_ok [OF nil, of p] show ?thesis by (auto simp: submitPrepared_def)
        next
          case url: (Returned y)
          obtain u ue where y: "y = (u, ue)" by (rule prod.exhaust)
          let ?r = "router_submit account (\<lambda>j. pw_ctx w (2 * j + 1)) (map Some (batchExecutors b w account plan tid u ue (rt_executors route)))
            \<lparr>sm_account = account, sm_taskID = tid, sm_url = u, sm_dir = [], sm_out = [], sm_full = []\<rparr> (False, [])"
          obtain ans st where r: "?r = (ans, st)" by (rule prod.exhaust)
          with sub alive Returned x registered url y have "finish_submission plan u (ans, st) = (oc, es)" by (simp add: submitPrepared_def)
          then show ?thesis using finish_ok router_careful [OF r] by blast
        qed
      qed
    qed
  qed
qed

text \<open>The link is not a download, so the executor \<open>http\<close> is never entered, and each other name of the route at most once.\<close>

lemma batchExecutor_entries:
  "length (snd (snd (batchExecutor b w account plan tid url urlErr j name request s))) \<le> length (snd s) + (if name = httpExecutor then 0 else 1)"
proof -
  have e: "length (snd (snd (enter b w j name req s))) \<le> Suc (length (snd s))" for req
    by (auto simp: enter_def Let_def split: option.splits answer.splits prod.splits)
  have "httpExecutor \<noteq> localExecutor" by (simp add: httpExecutor_def localExecutor_def)
  with e show ?thesis unfolding batchExecutor_def Let_def
    by (auto split: option.splits answer.splits prod.splits bool.splits)
qed

lemma router_loop_entries:
  assumes "\<forall>(name, submit) \<in> set exs. \<forall>req s. length (snd (snd (submit req s))) \<le> length (snd s) + (if name = httpExecutor then 0 else 1)"
  shows "length (snd (snd (router_loop ctxs i (map Some exs) request rejected s))) \<le> length (snd s) + length (filter (\<lambda>n. n \<noteq> httpExecutor) (map fst exs))"
  using assms
proof (induction exs arbitrary: i rejected s)
  case (Cons x xs)
  obtain name submit where x: "x = (name, submit)" by (rule prod.exhaust)
  obtain a s1 where a: "submit request s = (a, s1)" by (rule prod.exhaust)
  from Cons.prems x have "length (snd (snd (submit request s))) \<le> length (snd s) + (if name = httpExecutor then 0 else 1)" by (cases s) simp
  with a have l: "length (snd s1) \<le> length (snd s) + (if name = httpExecutor then 0 else 1)" by simp
  define B where "B = length (snd s) + length (filter (\<lambda>n. n \<noteq> httpExecutor) (map fst (x # xs)))"
  have "length (snd (snd (router_loop ctxs (Suc i) (map Some xs) request rej s1))) \<le> length (snd s1) + length (filter (\<lambda>n. n \<noteq> httpExecutor) (map fst xs))" for rej
    using Cons.IH Cons.prems by simp
  moreover have le: "length (snd s1) + length (filter (\<lambda>n. n \<noteq> httpExecutor) (map fst xs)) \<le> B" using l x by (simp add: B_def split: if_splits)
  ultimately have step: "length (snd (snd (router_loop ctxs (Suc i) (map Some xs) request rej s1))) \<le> B" for rej using order_trans by blast
  have "length (snd (snd (router_loop ctxs i (map Some (x # xs)) request rejected s))) \<le> B"
  proof (cases "ctxs i")
    case (Some e)
    then show ?thesis by (simp add: B_def)
  next
    case None
    have l1: "length (snd s1) \<le> B" using le by simp
    show ?thesis
    proof (cases a)
      case (Panicked p)
      with None x a l1 show ?thesis by simp
    next
      case (Returned y)
      obtain r e where "y = (r, e)" by (rule prod.exhaust)
      with None x a l1 Returned show ?thesis by (cases e) (simp_all add: step)
    qed
  qed
  then show ?case by (simp only: B_def)
qed simp

lemma submitPrepared_entries: "length (snd (submitPrepared b account route w plan)) \<le> length (filter (\<lambda>n. n \<noteq> httpExecutor) (rt_executors route))"
proof -
  have "length (snd (snd (router_submit account ctxs (map Some (batchExecutors b w account plan tid url urlErr names)) request (False, []))))
      \<le> length (filter (\<lambda>n. n \<noteq> httpExecutor) names)" for ctxs tid url urlErr request names
  proof -
    have "map fst (batchExecutors b w account plan tid url urlErr names) = names" by (simp add: batchExecutors_def case_prod_beta comp_def)
    moreover have "\<forall>(name, submit) \<in> set (batchExecutors b w account plan tid url urlErr names). \<forall>req s. length (snd (snd (submit req s))) \<le> length (snd s) + (if name = httpExecutor then 0 else 1)"
      unfolding batchExecutors_def using batchExecutor_entries [of b w account plan tid url urlErr] by auto
    ultimately show ?thesis
      using router_loop_entries [of "batchExecutors b w account plan tid url urlErr names" ctxs 0 request None "(False, [])"] by (simp add: router_submit_def)
  qed
  moreover have "snd (finish_submission plan url x) = snd (snd x)" for url x
    by (auto simp: finish_submission_def split: prod.splits answer.splits)
  ultimately show ?thesis unfolding submitPrepared_def Let_def by (auto split: option.splits answer.splits prod.splits)
qed

text \<open>C6: a file is never handed to a second downloader while a first one may have accepted it, and the report about it is honest. Whatever source, file system and
  executors answer, or panic, and whenever the context ends: every executor that was entered before the last one rejected
  definitely; a file is reported as failed only if all of them did, so a retry cannot download it twice; it is reported as
  uncertain only if the last one entered may have accepted; and it is reported as queued only if the last one entered may have
  accepted or a link is offered. No more executors are entered than the route has downloaders.\<close>

theorem one_download_per_file:
  "case submitPrepared b account route w plan of
     (oc, es) \<Rightarrow> list_all (\<lambda>e. definite (en_answer e)) (butlast es) \<and> length es \<le> length (filter (\<lambda>n. n \<noteq> httpExecutor) (rt_executors route))
       \<and> (case verdict_of oc of
            Failed \<Rightarrow> list_all (\<lambda>e. definite (en_answer e)) es
          | Uncertain \<Rightarrow> es \<noteq> [] \<and> \<not> definite (en_answer (last es))
          | Queued \<Rightarrow> (if oc_link oc = None then es \<noteq> [] \<and> \<not> definite (en_answer (last es)) else True)
          | Skipped \<Rightarrow> True)"
proof -
  obtain oc es where sub: "submitPrepared b account route w plan = (oc, es)" by (rule prod.exhaust)
  then obtain f where ok: "outcome_ok oc (f, es)" using submitPrepared_ok by blast
  have "list_all (\<lambda>e. definite (en_answer e)) (butlast es)"
    using ok by (cases f) (auto simp: outcome_ok_def flag_ok_def list_all_iff dest: in_set_butlastD)
  with ok sub submitPrepared_entries [of b account route w plan] show ?thesis
    by (auto simp: outcome_ok_def flag_ok_def verdict_of_def not_accepted_def no_result_def split: verdict.split option.splits if_splits)
qed

section \<open>Every file is accounted for\<close>

definition counted :: "downloadSummary \<Rightarrow> nat" where
  "counted su = su_queued su + su_skipped su + su_failed su + su_uncertain su"

text \<open>No error was collected as long as nothing failed.\<close>

definition honest :: "downloadSummary \<times> err option \<Rightarrow> bool" where
  "honest x \<longleftrightarrow> snd x = None \<longrightarrow> su_failed (fst x) = 0 \<and> su_uncertain (fst x) = 0"

lemma errs_join_None [simp]: "errs_join a b = None \<longleftrightarrow> a = None \<and> b = None"
  by (cases "(a, b)" rule: errs_join.cases) simp_all

lemma unlucky_counts: "counted (fst (unlucky e acc)) = Suc (counted (fst acc))" "su_total (fst (unlucky e acc)) = su_total (fst acc)" "honest (unlucky e acc)"
  by (auto simp: unlucky_def counted_def honest_def split: prod.split)

lemma plan_loop_counts:
  "plan_loop w i route items acc = (ps, acc') \<Longrightarrow>
     counted (fst acc') + length ps = counted (fst acc) + length items \<and> su_total (fst acc') = su_total (fst acc) \<and> (honest acc \<longrightarrow> honest acc')"
proof (induction items arbitrary: i acc ps acc')
  case (Cons item items)
  obtain b reason where f: "bw_filter w (nd_fileName (dm_data item)) (nd_fileSize (dm_data item)) = (b, reason)" by (rule prod.exhaust)
  obtain su fails where acc: "acc = (su, fails)" by (rule prod.exhaust)
  have skip: "counted (su\<lparr>su_skipped := Suc (su_skipped su)\<rparr>) = Suc (counted su)" "honest (su\<lparr>su_skipped := Suc (su_skipped su)\<rparr>, fails) = honest acc"
    by (simp_all add: counted_def honest_def acc)
  obtain ps1 acc1 where r: "plan_loop w (Suc i) route items acc = (ps1, acc1)" by (rule prod.exhaust)
  show ?case
  proof (cases "\<exists>e. plan_loop w i route (item # items) acc = plan_loop w (Suc i) route items (unlucky e acc)")
    case True
    then obtain e where "plan_loop w (Suc i) route items (unlucky e acc) = (ps, acc')" using Cons.prems by auto
    from Cons.IH [OF this] show ?thesis by (simp add: unlucky_counts)
  next
    case False
    with Cons.prems have lucky: "\<forall>e. plan_loop w (Suc i) route items (unlucky e acc) \<noteq> (ps, acc')" by metis
    show ?thesis
    proof (cases b)
      case False
      with lucky f acc Cons.prems have "plan_loop w (Suc i) route items (su\<lparr>su_skipped := Suc (su_skipped su)\<rparr>, fails) = (ps, acc')"
        by (auto split: option.splits if_splits)
      from Cons.IH [OF this] skip acc show ?thesis by simp
    next
      case True
      with lucky f r Cons.prems have "ps = make_plan w i route item # ps1" "acc' = acc1"
        by (auto simp: Let_def split: option.splits if_splits)
      with Cons.IH [OF r] show ?thesis by simp
    qed
  qed
qed simp

lemma assign_names_length [simp]: "length (assign_names e us ps) = length ps"
  by (induction e us ps rule: assign_names.induct) (auto split: option.splits list.splits)

lemma prepareBatch_counts:
  "prepareBatch w media route su = (plans, su', fails) \<Longrightarrow> counted su = 0 \<Longrightarrow>
     counted su' + length plans = length media \<and> su_total su' = su_total su \<and> honest (su', fails)"
  using plan_loop_counts [of w 0 route media "(su, None)"]
  by (fastforce simp: prepareBatch_def honest_def counted_def Let_def split: prod.splits if_splits)

lemma count_outcome_counts:
  "counted (fst (count_outcome x acc)) = Suc (counted (fst acc))" "su_total (fst (count_outcome x acc)) = su_total (fst acc)"
  "honest acc \<Longrightarrow> honest (count_outcome x acc)"
  by (auto simp: count_outcome_def counted_def honest_def verdict_of_def Let_def split: prod.splits verdict.split option.splits if_splits)

lemma fold_counts:
  "counted (fst (fold count_outcome xs acc)) = counted (fst acc) + length xs \<and> su_total (fst (fold count_outcome xs acc)) = su_total (fst acc)
     \<and> (honest acc \<longrightarrow> honest (fold count_outcome xs acc))"
  by (induction xs arbitrary: acc) (simp_all add: count_outcome_counts)

definition fair :: "downloadSummary \<times> err option \<times> entry list list \<Rightarrow> bool" where
  "fair x = (case x of (su, e, ess) \<Rightarrow> su_total su = counted su \<and> (e = None \<longrightarrow> su_failed su = 0 \<and> su_uncertain su = 0))"

lemma submitted_fair:
  assumes "su_total su1 = length media" "counted su1 = 0"
  shows "fair (case prepareBatch b media route su1 of
      (plans, su2, fails) \<Rightarrow>
        case fold count_outcome (zip plans (map fst (submit_all b account route worlds plans))) (su2, fails) of
          (su3, e) \<Rightarrow> (su3, e, map snd (submit_all b account route worlds plans)))"
proof (cases "prepareBatch b media route su1")
  case (fields plans su2 fails)
  let ?xs = "zip plans (map fst (submit_all b account route worlds plans))"
  have "length ?xs = length plans" by (simp add: submit_all_def)
  with prepareBatch_counts [OF fields assms(2)] fold_counts [of ?xs "(su2, fails)"] assms(1) fields show ?thesis
    by (simp add: fair_def honest_def case_prod_beta)
qed

text \<open>C16: no file of a message is lost or counted twice. Whatever the adapters answer, the summary of a batch counts every medium that the source found exactly
  once, as queued, skipped, failed or uncertain, and when the batch returns no error nothing failed and nothing is uncertain.\<close>

theorem batch_accounts_for_every_file:
  "case submitBatch begun account resources executable routed collected b worlds request of
     (su, e, ess) \<Rightarrow> su_total su = counted su \<and> (if e = None then su_failed su = 0 \<and> su_uncertain su = 0 else True)"
proof -
  have "fair (submitBatch begun account resources executable routed collected b worlds request)"
    unfolding submitBatch_def Let_def
    by (simp add: submitted_fair counted_def split: sum.split prod.split) (simp add: fair_def counted_def)
  then show ?thesis by (auto simp: fair_def)
qed


text \<open>The configuration chooses one downloader. \<open>PrepareConfig\<close> accepts exactly the lists of distinct known executors with the link at the end and an empty
  or absolute root, and keeps the first choice with the link as its only fallback; with such a route a file is handed to one downloader at most.\<close>

theorem configured_route_has_one_downloader:
  "case prepare_route alive executors root of
     Inr route \<Rightarrow> executors \<noteq> [] \<and> distinct executors \<and> set executors \<subseteq> {localExecutor, aria2Executor, httpExecutor} \<and> httpExecutor \<notin> set (butlast executors)
        \<and> rt_executors route \<in> {[hd executors], [hd executors, httpExecutor]} \<and> length (snd (submitPrepared b account route w plan)) \<le> 1
   | Inl e \<Rightarrow> \<not> (executors \<noteq> [] \<and> distinct executors \<and> set executors \<subseteq> {localExecutor, aria2Executor, httpExecutor} \<and> httpExecutor \<notin> set (butlast executors)
        \<and> (trim_space root = [] \<or> is_abs (trim_space root)))"
proof -
  have c: "check_executors seen names = None \<longleftrightarrow> distinct names \<and> set names \<inter> set seen = {} \<and> set names \<subseteq> {localExecutor, aria2Executor, httpExecutor} \<and> httpExecutor \<notin> set (butlast names)" for seen names
    by (induction seen names rule: check_executors.induct) auto
  have "length (snd (submitPrepared b account route w plan)) \<le> 1" if "rt_executors route \<in> {[x], [x, httpExecutor]}" for x route
    using submitPrepared_entries [of b account route w plan] that by (auto split: if_splits)
  then show ?thesis using c [of "[]" executors]
    by (auto simp: prepare_route_def Let_def split: option.splits if_splits)
qed

section \<open>Distinct targets\<close>

text \<open>Cleaning a path keeps its last component when that is an ordinary name.\<close>

lemma split_on_single: "c \<notin> set a \<Longrightarrow> split_on c a = [a]"
  by (induction a) auto

lemma split_on_snoc: "c \<notin> set a \<Longrightarrow> split_on c (p @ c # a) = split_on c p @ [a]"
proof (induction p)
  case (Cons x p)
  moreover have "split_on c p \<noteq> []" by (induction p) (auto split: list.splits)
  ultimately show ?case by (auto split: list.splits)
qed (simp add: split_on_single)

lemma split_on_leaf: "\<exists>xs r. (r = [] \<or> p \<noteq> [] \<and> last r = last p) \<and> c \<notin> set r \<and> (\<forall>a. c \<notin> set a \<longrightarrow> split_on c (p @ a) = xs @ [r @ a])"
proof (cases "c \<in> set p")
  case True
  then obtain q r where p: "p = q @ c # r" "c \<notin> set r" by (meson split_list_last)
  then have "split_on c (p @ a) = split_on c q @ [r @ a]" if "c \<notin> set a" for a using that split_on_snoc [of c "r @ a" q] by simp
  with p show ?thesis by (intro exI [of _ "split_on c q"] exI [of _ r]) auto
next
  case False
  then show ?thesis by (intro exI [of _ "[]"] exI [of _ p]) (auto simp: split_on_single)
qed

lemma clean_parts_snoc: "\<not> dotted z \<Longrightarrow> clean_parts rooted acc (xs @ [z]) = clean_parts rooted acc xs @ [z]"
  by (induction rooted acc xs rule: clean_parts.induct) (auto simp: dotted_def split: list.splits)

lemma join_snoc: "join sep (ys @ [z]) = (if ys = [] then z else join sep ys @ sep @ z)"
  by (induction sep ys rule: join.induct) auto

lemma plain_no_slash: "plain a \<Longrightarrow> CHR ''/'' \<notin> set a"
  by (auto simp: plain_def list_all_iff is_sep_def)

lemma fp_clean_leaf:
  assumes "p = [] \<or> is_sep (last p)"
  shows "\<exists>q. \<forall>a. plain a \<longrightarrow> fp_clean (p @ a) = q @ a"
proof -
  obtain xs r where r: "r = [] \<or> p \<noteq> [] \<and> last r = last p" "CHR ''/'' \<notin> set r"
    and sp: "\<forall>a. CHR ''/'' \<notin> set a \<longrightarrow> split_on (CHR ''/'') (p @ a) = xs @ [r @ a]" using split_on_leaf [of p "CHR ''/''"] by auto
  define ys where "ys = clean_parts (is_abs p) [] xs"
  have "fp_clean (p @ a) = ((if is_abs p then ''/'' else []) @ (if ys = [] then [] else join ''/'' ys @ ''/'') @ r) @ a" if a: "plain a" for a
  proof -
    have "\<not> dotted (r @ a)"
    proof (cases "r = []")
      case False
      with r assms last_in_set [of r] have "last r = CHR 0x5C" by (auto simp: is_sep_def)
      with False have "CHR 0x5C \<in> set (r @ a)" by (metis last_in_set UnCI set_append)
      moreover have "set (r @ a) \<subseteq> {CHR ''.''}" if "dotted (r @ a)" using that unfolding dotted_def by (elim disjE) (simp_all only: set_simps empty_subsetI, simp_all)
      ultimately show ?thesis by auto
    qed (use a in \<open>simp add: plain_def\<close>)
    moreover from this have "r @ a \<noteq> []" by (auto simp: dotted_def)
    moreover have "is_abs (p @ a) = is_abs p" using plain_no_slash [OF a] a by (cases p; cases a) (auto simp: is_abs_def plain_def dotted_def)
    ultimately show ?thesis using sp plain_no_slash [OF a]
      by (auto simp: fp_clean_def ys_def [symmetric] clean_parts_snoc join_snoc)
  qed
  then show ?thesis by blast
qed

lemma join_plain_sep: "\<exists>p. (p = [] \<or> is_sep (last p)) \<and> (\<forall>a. plain a \<longrightarrow> joinTargetPath dir [a] = p @ a)"
proof -
  define b2 where "b2 = (if trim_right is_sep dir = [] \<and> has_prefix dir ''/'' then ''/'' else trim_right is_sep dir)"
  define p where "p = (if b2 = ''/'' then ''/'' else if b2 = [] then [] else b2 @ targetPathSeparator dir)"
  have "joinTargetPath dir [a] = p @ a" if "plain a" for a
  proof -
    have "trim is_sep a = a" "\<not> dotted a" using that by (auto simp: plain_def list_all_iff intro: trim_sep_free)
    then show ?thesis unfolding joinTargetPath_def Let_def b2_def [symmetric] p_def by auto
  qed
  moreover have "p = [] \<or> is_sep (last p)" by (auto simp: p_def targetPathSeparator_def is_sep_def)
  ultimately show ?thesis by blast
qed

lemma fp_clean_keeps_names: "keeps_names fp_clean"
  unfolding keeps_names_def path_key_def
proof (intro allI impI)
  fix dir a b assume ab: "plain a" "plain b" "to_lower (fp_clean (joinTargetPath dir [a])) = to_lower (fp_clean (joinTargetPath dir [b]))"
  obtain p where p: "p = [] \<or> is_sep (last p)" "\<forall>a. plain a \<longrightarrow> joinTargetPath dir [a] = p @ a" using join_plain_sep by blast
  obtain q where "\<forall>a. plain a \<longrightarrow> fp_clean (p @ a) = q @ a" using fp_clean_leaf [OF p(1)] by blast
  with p ab show "to_lower a = to_lower b" by (simp add: to_lower_def)
qed

text \<open>The promise of \<open>ports.NamingRules\<close> that the pipeline relies on, and the naming rules of the application as its provider.\<close>

definition target_key :: "string \<Rightarrow> string" where
  "target_key full = to_lower (fp_clean full)"

locale naming_port =
  fixes unique_names :: "namingResult list \<Rightarrow> namingResult list \<times> err option" and fits :: "namingResult \<Rightarrow> bool"
  assumes unique_law: "list_all fits ts \<Longrightarrow> unique_names ts = (us, None) \<Longrightarrow> length us = length ts \<and> distinct (map (\<lambda>u. target_key (nr_full u)) us)"
begin

lemma assigned_distinct:
  assumes "list_all (\<lambda>p. pn_localError p = None \<longrightarrow> fits (pn_local p)) plans" "unique_names (map pn_local (filter (\<lambda>p. pn_localError p = None) plans)) = (us, e)"
    and "e1 = (if e = None \<and> length us \<noteq> length (filter (\<lambda>p. pn_localError p = None) plans) then Some e0 else e)"
  shows "distinct (map (\<lambda>p. target_key (nr_full (pn_local p))) (filter (\<lambda>p. pn_localError p = None) (assign_names e1 us plans)))"
proof (cases e1)
  case None
  then have e: "e = None" and len: "length us = length (filter (\<lambda>p. pn_localError p = None) plans)" using assms(3) by (auto split: if_splits)
  have a: "map pn_local (filter (\<lambda>p. pn_localError p = None) (assign_names None vs ps)) = vs" if "length vs = length (filter (\<lambda>p. pn_localError p = None) ps)" for vs ps
    using that by (induction ps arbitrary: vs) (auto simp: length_Suc_conv)
  have "list_all fits (map pn_local (filter (\<lambda>p. pn_localError p = None) plans))" using assms(1) by (auto simp: list_all_iff)
  from unique_law [OF this] assms(2) e have "distinct (map (\<lambda>u. target_key (nr_full u)) us)" by simp
  then have "distinct (map (\<lambda>u. target_key (nr_full u)) (map pn_local (filter (\<lambda>p. pn_localError p = None) (assign_names None us plans))))" using a [OF len] by simp
  with None show ?thesis by (simp add: comp_def)
next
  case (Some x)
  have "filter (\<lambda>p. pn_localError p = None) (assign_names (Some x) vs ps) = []" for vs ps
    by (induction "Some x" vs ps rule: assign_names.induct) auto
  with Some show ?thesis by simp
qed

lemma plan_loop_fits:
  assumes "\<forall>i base d r. bw_render w i base d = (r, None) \<longrightarrow> fits r" "localExecutor \<in> set (rt_executors route)"
  shows "list_all (\<lambda>p. pn_localError p = None \<longrightarrow> fits (pn_local p)) (fst (plan_loop w i route items acc))"
proof (induction items arbitrary: i acc)
  case (Cons item items)
  have "pn_localError (make_plan w i route item) = None \<longrightarrow> fits (pn_local (make_plan w i route item))"
    using assms by (auto simp: make_plan_def Let_def split: prod.splits)
  moreover obtain b reason where "bw_filter w (nd_fileName (dm_data item)) (nd_fileSize (dm_data item)) = (b, reason)" by (rule prod.exhaust)
  moreover have "fst (case plan_loop w j route items acc of (ps, acc1) \<Rightarrow> (p # ps, acc1)) = p # fst (plan_loop w j route items acc)" for p j by (simp add: case_prod_beta)
  ultimately show ?case using Cons by (cases b) (simp_all add: Let_def split: option.split)
qed simp

lemma prepared_distinct:
  assumes "bw_unique w = unique_names" "\<forall>i base d r. bw_render w i base d = (r, None) \<longrightarrow> fits r" "localExecutor \<in> set (rt_executors route)"
    and "prepareBatch w media route su = (plans, su', fails)"
  shows "distinct (map (\<lambda>p. target_key (nr_full (pn_local p))) (filter (\<lambda>p. pn_localError p = None) plans))"
proof (cases "plan_loop w 0 route media (su, None)")
  case (fields ps su1 fs)
  have fit: "list_all (\<lambda>p. pn_localError p = None \<longrightarrow> fits (pn_local p)) ps" using plan_loop_fits [OF assms(2,3), of 0 media "(su, None)"] fields by simp
  obtain us e where u: "unique_names (map pn_local (filter (\<lambda>p. pn_localError p = None) ps)) = (us, e)" by (rule prod.exhaust)
  show ?thesis
  proof (cases "filter (\<lambda>p. pn_localError p = None) ps = []")
    case True
    then have "plans = ps" using assms(3,4) fields by (simp add: prepareBatch_def)
    with True show ?thesis by simp
  next
    case False
    with assms(1,3,4) fields u have "plans = assign_names (if e = None \<and> length us \<noteq> length (filter (\<lambda>p. pn_localError p = None) ps) then Some (ErrMsg ''naming returned an invalid target count'') else e) us ps"
      by (auto simp: prepareBatch_def Let_def)
    with assigned_distinct [OF fit u refl, of "ErrMsg ''naming returned an invalid target count''"] show ?thesis by simp
  qed
qed

end

definition naming_unique :: "(nat \<Rightarrow> ctx) \<Rightarrow> int option \<Rightarrow> namingResult list \<Rightarrow> namingResult list \<times> err option" where
  "naming_unique ctxs settingsMax ts =
     (case unique fp_clean ctxs settingsMax ts of
        Some (Inr us) \<Rightarrow> (us, None)
      | Some (Inl e) \<Rightarrow> ([], Some e)
      | None \<Rightarrow> ([], Some (ErrMsg ''no unused name'')))"

lemma renamed_key: "renamed smax r u \<Longrightarrow> result_key fp_clean u = target_key (nr_full u)"
  by (simp add: renamed_def result_key_def path_key_def target_key_def)

interpretation nu: naming_port "naming_unique ctxs settingsMax" "\<lambda>r. plain (nr_out r)" for ctxs settingsMax
proof
  fix ts us assume p: "list_all (\<lambda>r. plain (nr_out r)) ts" and u: "naming_unique ctxs settingsMax ts = (us, None)"
  then obtain m where m: "settingsMax = Some m" "unique_loop fp_clean ctxs m 0 [] ts = Some (Inr us)"
    by (auto simp: naming_unique_def unique_def split: option.splits sum.splits)
  from unique_loop_ok [OF fp_clean_keeps_names p, where ctxs = ctxs and smax = m and i = 0 and used = "[]"] m(2)
  have r: "list_all2 (renamed m) ts us" "distinct (map (result_key fp_clean) us)" by auto
  have "\<forall>u \<in> set us. \<exists>t. renamed m t u" using r(1) by (metis in_set_conv_nth list_all2_conv_all_nth)
  then have "map (result_key fp_clean) us = map (\<lambda>u. target_key (nr_full u)) us" by (auto dest: renamed_key)
  with r show "length us = length ts \<and> distinct (map (\<lambda>u. target_key (nr_full u)) us)" by (simp add: list_all2_lengthD)
qed

text \<open>What is handed to the local downloader is the target of the plan, which was rendered without an error.\<close>

definition entry_of :: "downloadPlan \<Rightarrow> string list \<Rightarrow> entry \<Rightarrow> bool" where
  "entry_of plan names e \<longleftrightarrow> en_name e \<in> set names
     \<and> (en_name e = localExecutor \<longrightarrow> pn_localError plan = None \<and> sm_full (en_request e) = nr_full (pn_local plan))"

lemma enter_entry:
  assumes "name \<in> set names" "name = localExecutor \<longrightarrow> pn_localError plan = None \<and> sm_full request = nr_full (pn_local plan)"
    and "list_all (entry_of plan names) (snd s)"
  shows "list_all (entry_of plan names) (snd (snd (enter b w j name request s)))"
  using assms by (auto simp: enter_def entry_of_def Let_def split: option.splits answer.splits prod.splits)

lemma batchExecutor_entry:
  assumes "name \<in> set names" "list_all (entry_of plan names) (snd s)"
  shows "list_all (entry_of plan names) (snd (snd (batchExecutor b w account plan tid url urlErr j name request s)))"
  using assms unfolding batchExecutor_def Let_def
  by (auto split: option.split answer.split prod.split bool.split intro!: enter_entry)

lemma router_loop_keeps:
  assumes "\<forall>(name, submit) \<in> set exs. \<forall>req s. P s \<longrightarrow> P (snd (submit req s))" "P s"
  shows "P (snd (router_loop ctxs i (map Some exs) request rejected s))"
  using assms
proof (induction exs arbitrary: i rejected s)
  case (Cons x xs)
  obtain name submit where x: "x = (name, submit)" by (rule prod.exhaust)
  obtain a s1 where a: "submit request s = (a, s1)" by (rule prod.exhaust)
  have "P (snd (submit request s))" using Cons.prems x by simp
  with a have s1: "P s1" by simp
  have step: "P (snd (router_loop ctxs (Suc i) (map Some xs) request rej s1))" for rej using Cons.IH [OF _ s1] Cons.prems(1) by simp
  show ?case
  proof (cases a)
    case (Returned y)
    obtain r e where "y = (r, e)" by (rule prod.exhaust)
    with x a s1 Returned Cons.prems(2) show ?thesis by (cases e) (simp_all add: step split: option.split)
  qed (use x a s1 Cons.prems(2) in \<open>simp split: option.split\<close>)
qed simp

lemma submitPrepared_entry: "list_all (entry_of plan (rt_executors route)) (snd (submitPrepared b account route w plan))"
proof -
  have "list_all (entry_of plan names) (snd (snd (router_submit account ctxs (map Some (batchExecutors b w account plan tid url urlErr names)) request (False, []))))" for ctxs tid url urlErr request names
  proof -
    have "name \<in> set names" if "(j, name) \<in> set (enumerate 0 names)" for j name using that by (metis enumerate_eq_zip set_zip_rightD)
    then have "\<forall>(name, submit) \<in> set (batchExecutors b w account plan tid url urlErr names). \<forall>req s. list_all (entry_of plan names) (snd s) \<longrightarrow> list_all (entry_of plan names) (snd (snd (submit req s)))"
      unfolding batchExecutors_def by (auto intro!: batchExecutor_entry)
    from router_loop_keeps [OF this, of "(False, [])"] show ?thesis by (simp add: router_submit_def)
  qed
  moreover have "snd (finish_submission plan url x) = snd (snd x)" for url x
    by (auto simp: finish_submission_def split: prod.splits answer.splits)
  ultimately show ?thesis unfolding submitPrepared_def Let_def by (auto split: option.splits answer.splits prod.splits)
qed

lemma distinct_filter_nth:
  "distinct (map f (filter P xs)) \<Longrightarrow> i < length xs \<Longrightarrow> j < length xs \<Longrightarrow> i \<noteq> j \<Longrightarrow> P (xs ! i) \<Longrightarrow> P (xs ! j) \<Longrightarrow> f (xs ! i) \<noteq> f (xs ! j)"
proof (induction xs arbitrary: i j)
  case (Cons x xs)
  have "f x \<noteq> f (xs ! k) \<and> f (xs ! k) \<noteq> f x" if "P x" "k < length xs" "P (xs ! k)" for k using Cons.prems(1) that by (auto simp: image_iff)
  with Cons show ?case by (cases i; cases j) (auto split: if_splits)
qed simp

text \<open>C15: the files of a batch never share a target. With the application's naming rules, when rendered names are plain, no two submissions of one
  batch hand the same path to the local downloader, even on a file system that ignores case, whatever names the media had and whatever else fails.\<close>

theorem batch_targets_never_collide:
  assumes "bw_unique b = naming_unique ctxs settingsMax" "\<forall>i base d r. bw_render b i base d = (r, None) \<longrightarrow> plain (nr_out r)"
    and "prepareBatch b media route su = (plans, su', fails)" "j < length plans" "k < length plans" "j \<noteq> k"
    and "x \<in> set (snd (submit_all b account route worlds plans ! j))" "y \<in> set (snd (submit_all b account route worlds plans ! k))"
    and "en_name x = localExecutor" "en_name y = localExecutor"
  shows "to_lower (fp_clean (sm_full (en_request x))) \<noteq> to_lower (fp_clean (sm_full (en_request y)))"
proof -
  have e: "entry_of (plans ! i) (rt_executors route) z" if "i < length plans" "z \<in> set (snd (submit_all b account route worlds plans ! i))" for i z
    using submitPrepared_entry [of "plans ! i" route b account "worlds i"] that by (auto simp: submit_all_def nth_enumerate_eq list_all_iff)
  have x: "localExecutor \<in> set (rt_executors route)" "pn_localError (plans ! j) = None" "sm_full (en_request x) = nr_full (pn_local (plans ! j))"
    using e [OF assms(4,7)] assms(9) by (auto simp: entry_of_def)
  have y: "pn_localError (plans ! k) = None" "sm_full (en_request y) = nr_full (pn_local (plans ! k))" using e [OF assms(5,8)] assms(10) by (auto simp: entry_of_def)
  from distinct_filter_nth [OF nu.prepared_distinct [OF assms(1,2) x(1) assms(3)] assms(4-6)] x y show ?thesis by (simp add: target_key_def)
qed

subsection \<open>A concrete batch\<close>

definition demo_media :: "int \<Rightarrow> downloadMedia" where
  "demo_media n = \<lparr>dm_token = ''t'', dm_data = \<lparr>nd_dialogID = 1, nd_directoryID = [], nd_peerName = [], nd_messageID = n, nd_triggerMessageID = n, nd_messageDate = 0,
     nd_caption = [], nd_messageTitle = [], nd_albumID = [], nd_fileName = ''A'', nd_fileSize = 5, nd_downloadedAt = 0\<rparr>\<rparr>"

definition demo_route :: downloadRoute where
  "demo_route = \<lparr>rt_executors = [localExecutor], rt_localRoot = ''/r''\<rparr>"

definition demo_batch :: batchWorld where
  "demo_batch = \<lparr>bw_ctx = \<lambda>_. None, bw_filter = shouldHandle (Some \<lparr>fs_include = [], fs_exclude = [], fs_min = 0, fs_max = 0\<rparr>),
     bw_render = \<lambda>_ base _. (\<lparr>nr_fileName = ''A'', nr_dir = base, nr_out = ''A'', nr_full = base @ ''/A'', nr_maxBytes = 0\<rparr>, None),
     bw_unique = naming_unique (\<lambda>_. None) (Some 255), bw_remoteRoot = [], bw_skipSame = False, bw_limit = 2, bw_hasExecutor = \<lambda>_. True\<rparr>"

definition demo_plan_world :: planWorld where
  "demo_plan_world = \<lparr>pw_ctx = \<lambda>_. None, pw_register = \<lambda>_ _. Returned (''i'', None), pw_url = \<lambda>_. Returned ([], None), pw_same = \<lambda>_ _ _. Returned (False, None),
     pw_mkdir = \<lambda>_ _. Returned None,
     pw_submit = \<lambda>_ name q. Returned (\<lparr>dr_account = sm_account q, dr_target = name, dr_id = sm_taskID q, dr_skipped = False\<rparr>, None)\<rparr>"

definition no_summary :: downloadSummary where
  "no_summary = \<lparr>su_link = [], su_peerID = 0, su_messageID = 1, su_total = 2, su_queued = 0, su_skipped = 0, su_failed = 0, su_uncertain = 0, su_links = []\<rparr>"

definition demo_plans :: "downloadPlan list" where
  "demo_plans = fst (prepareBatch demo_batch [demo_media 1, demo_media 2] demo_route no_summary)"

definition demo_submitted :: "(outcome \<times> entry list) list" where
  "demo_submitted = submit_all demo_batch ''d'' demo_route (\<lambda>_. demo_plan_world) demo_plans"

lemma demo_entries: "map (\<lambda>x. map (\<lambda>e. (en_name e, sm_full (en_request e))) (snd x)) demo_submitted = [[(localExecutor, ''/r/A'')], [(localExecutor, ''/r/A (2)'')]]" "length demo_plans = 2"
  by code_simp+

theorem batch_targets_never_collide_witness:
  "\<exists>x y. snd (demo_submitted ! 0) = [x] \<and> snd (demo_submitted ! 1) = [y] \<and> en_name x = localExecutor \<and> en_name y = localExecutor
     \<and> to_lower (fp_clean (sm_full (en_request x))) \<noteq> to_lower (fp_clean (sm_full (en_request y)))"
proof -
  have "length demo_submitted = 2" using arg_cong [OF demo_entries(1), of length] by simp
  then obtain u v where uv: "demo_submitted = [u, v]" by (auto simp: numeral_2_eq_2 length_Suc_conv)
  from demo_entries(1) [unfolded uv] have "map (\<lambda>e. (en_name e, sm_full (en_request e))) (snd u) = [(localExecutor, ''/r/A'')]"
    "map (\<lambda>e. (en_name e, sm_full (en_request e))) (snd v) = [(localExecutor, ''/r/A (2)'')]" by simp_all
  then obtain x y where xy: "snd (demo_submitted ! 0) = [x]" "snd (demo_submitted ! 1) = [y]" "en_name x = localExecutor" "en_name y = localExecutor"
    unfolding uv map_eq_Cons_conv map_is_Nil_conv by auto
  obtain su fails where pb: "prepareBatch demo_batch [demo_media 1, demo_media 2] demo_route no_summary = (demo_plans, su, fails)"
    unfolding demo_plans_def by (metis prod.collapse)
  have "bw_unique demo_batch = naming_unique (\<lambda>_. None) (Some 255)" "\<forall>i base d r. bw_render demo_batch i base d = (r, None) \<longrightarrow> plain (nr_out r)"
    by (auto simp: demo_batch_def plain_def dotted_def is_sep_def)
  from batch_targets_never_collide [OF this pb, of 0 1 x "''d''" "\<lambda>_. demo_plan_world" y] xy demo_entries(2) show ?thesis
    unfolding demo_submitted_def by auto
qed


end
