(* ===== verification/Download_Control.thy ===== *)
theory Download_Control
  imports Download_Pipeline Local_Control
begin

text \<open>
  The rest of \<open>application/download.control\<close>: the calls that the service admits and drains (\<open>plugin.go\<close>), the choice of tasks that a user command
  acts on (\<open>service.go\<close>), the removal of a link (\<open>links.go\<close>) and the resubmission of saved links (\<open>catalog.go\<close>). Backends, executors and
  repositories are ports; their answers are parameters.
\<close>

section \<open>Admission and draining\<close>

text \<open>\<open>sv_active\<close> is the counter of the wait group, \<open>sv_stopped\<close> tells that \<open>Stop\<close> has returned without an error.\<close>

record downloadService =
  sv_account :: string
  sv_closed :: bool
  sv_ended :: bool
  sv_active :: nat
  sv_stopped :: bool

definition service_new :: "string \<Rightarrow> downloadService" where
  "service_new account = \<lparr>sv_account = newRouter_account account, sv_closed = False, sv_ended = False, sv_active = 0, sv_stopped = False\<rparr>"

definition service_begin :: "ctx \<Rightarrow> downloadService \<Rightarrow> unit res \<times> downloadService" where
  "service_begin c s =
     (case c of
        Some e \<Rightarrow> (Inl e, s)
      | None \<Rightarrow>
          if sv_closed s \<or> sv_ended s then (Inl (ErrMsg ''download control is stopped''), s)
          else (Inr (), s\<lparr>sv_active := Suc (sv_active s)\<rparr>))"

definition service_done :: "downloadService \<Rightarrow> downloadService" where
  "service_done s = s\<lparr>sv_active := sv_active s - 1\<rparr>"

definition service_close :: "downloadService \<Rightarrow> downloadService" where
  "service_close s = s\<lparr>sv_closed := True, sv_ended := True\<rparr>"

text \<open>The parent context of the service may end by itself. \<open>Stop\<close> returns nil when the wait group is empty.\<close>

inductive service_step :: "downloadService \<Rightarrow> downloadService \<Rightarrow> bool" where
  call: "service_step s (snd (service_begin c s))"
| return: "0 < sv_active s \<Longrightarrow> service_step s (service_done s)"
| parent_ends: "service_step s (s\<lparr>sv_ended := True\<rparr>)"
| close: "service_step s (service_close s)"
| stopped: "sv_closed s \<Longrightarrow> sv_active s = 0 \<Longrightarrow> service_step s (s\<lparr>sv_stopped := True\<rparr>)"

interpretation dcs: invariant_proof "\<lambda>s. \<exists>account. s = service_new account" service_step "\<lambda>s. sv_stopped s \<longrightarrow> sv_closed s \<and> sv_active s = 0"
proof
  fix s t assume "sv_stopped s \<longrightarrow> sv_closed s \<and> sv_active s = 0" "service_step s t"
  from this(2,1) show "sv_stopped t \<longrightarrow> sv_closed t \<and> sv_active t = 0"
    by cases (auto simp: service_begin_def service_done_def service_close_def split: option.splits)
qed (auto simp: service_new_def)

text \<open>After \<open>Stop\<close> returned no call is in progress, none is admitted, and as long as calls return \<open>Stop\<close> can return.\<close>

theorem stopped_service_is_drained:
  assumes "reach (\<lambda>s. \<exists>account. s = service_new account) service_step s"
  shows "(sv_stopped s \<longrightarrow> sv_active s = 0 \<and> (\<exists>e. service_begin c s = (Inl e, s)))
    \<and> (sv_closed s \<longrightarrow> (\<exists>t. service_step s t \<and> (if sv_active s = 0 then sv_stopped t else sv_active t < sv_active s)))"
proof -
  have inv: "sv_stopped s \<longrightarrow> sv_closed s \<and> sv_active s = 0" using dcs.reach_inv [OF assms] .
  have "\<exists>t. service_step s t \<and> (if sv_active s = 0 then sv_stopped t else sv_active t < sv_active s)" if c: "sv_closed s"
  proof (cases "sv_active s = 0")
    case True
    with c service_step.stopped [of s] show ?thesis by (intro exI [of _ "s\<lparr>sv_stopped := True\<rparr>"]) simp
  next
    case False
    with service_step.return [of s] show ?thesis by (intro exI [of _ "service_done s"]) (simp add: service_done_def)
  qed
  with inv show ?thesis by (auto simp: service_begin_def split: option.splits)
qed

section \<open>User commands\<close>

record downloadTask =
  dt_id :: string
  dt_status :: string

record downloadAction =
  da_account :: string
  da_executor :: string
  da_action :: string
  da_ids :: "string list"
  da_statuses :: "string list"

definition has_suffix :: "string \<Rightarrow> string \<Rightarrow> bool" where
  "has_suffix s sfx \<longleftrightarrow> length sfx \<le> length s \<and> drop (length s - length sfx) s = sfx"

definition parse_action :: "string \<Rightarrow> bool \<times> string" where
  "parse_action given =
     (let a = to_lower (trim_space given); all = has_suffix a ''_all'';
          a1 = (if all then take (length a - 4) a else a)
      in (all, if a1 = ''start'' then ''resume'' else a1))"

definition eligible :: "string \<Rightarrow> string list \<Rightarrow> string \<Rightarrow> bool" where
  "eligible action sts status \<longleftrightarrow> action = ''delete'' \<and> status \<in> set sts
     \<or> action = ''pause'' \<and> status \<in> {''active'', ''queued'', ''waiting'', ''error''} \<or> action = ''resume'' \<and> status \<in> {''paused'', ''error''}"

definition wanted_statuses :: "string \<Rightarrow> string list \<Rightarrow> string list" where
  "wanted_statuses action given =
     (let sts = map (\<lambda>s. to_lower (trim_space s)) given
      in if action = ''delete'' \<and> sts = [] then [''complete'', ''error''] else sts)"

fun unique_ids :: "string list \<Rightarrow> string list \<Rightarrow> string list" where
  "unique_ids seen [] = []"
| "unique_ids seen (i # is) =
     (let j = trim_space i in if j \<noteq> [] \<and> j \<notin> set seen then j # unique_ids (j # seen) is else unique_ids seen is)"

text \<open>\<open>backend\<close>: the names of the executors with a backend stand for the map.\<close>

definition service_backend :: "ctx \<Rightarrow> string list \<Rightarrow> string \<Rightarrow> unit res" where
  "service_backend c known executor =
     (case c of
        Some e \<Rightarrow> Inl e
      | None \<Rightarrow> if executor \<in> set known then Inr () else Inl (ErrMsg (''download executor '' @ executor @ '' is unavailable'')))"

text \<open>
  \<open>Control\<close>: \<open>tasks\<close> is the answer of \<open>ListTasks\<close> and \<open>change\<close> that of \<open>ChangeTasks\<close>, from the action and the ids. The first component is the call
  of \<open>ChangeTasks\<close>, if it is made.
\<close>

definition control :: "unit res \<Rightarrow> string \<Rightarrow> ctx \<Rightarrow> string list \<Rightarrow> downloadTask list res \<Rightarrow> (string \<Rightarrow> string list \<Rightarrow> 'r res) \<Rightarrow> 'r \<Rightarrow> downloadAction
    \<Rightarrow> (string \<times> string list) option \<times> 'r res" where
  "control begun account c known tasks change none request =
     (case begun of
        Inl e \<Rightarrow> (None, Inl e)
      | Inr _ \<Rightarrow>
          if da_account request \<noteq> account then (None, Inl (ErrMsg ''download account mismatch''))
          else (case service_backend c known (da_executor request) of
                  Inl e \<Rightarrow> (None, Inl e)
                | Inr _ \<Rightarrow>
                    (case parse_action (da_action request) of
                       (all, action) \<Rightarrow>
                         if action \<notin> {''pause'', ''resume'', ''delete''} then (None, Inl (ErrMsg (''unsupported download action '' @ da_action request)))
                         else (case (if all
                                     then (case tasks of
                                             Inl e \<Rightarrow> Inl e
                                           | Inr ts \<Rightarrow> Inr (map dt_id (filter (\<lambda>t. eligible action (wanted_statuses action (da_statuses request)) (dt_status t)) ts)))
                                     else Inr (da_ids request)) of
                                 Inl e \<Rightarrow> (None, Inl e)
                               | Inr ids \<Rightarrow>
                                   let us = unique_ids [] ids
                                   in if us = [] then (None, Inr none) else (Some (action, us), change action us)))))"

lemma service_backend_known: "service_backend c known executor = Inr u \<Longrightarrow> executor \<in> set known"
  by (auto simp: service_backend_def split: option.splits if_splits)

lemma unique_ids_props: "distinct (unique_ids seen is) \<and> set (unique_ids seen is) = trim_space ` set is - {[]} - set seen"
  by (induction seen "is" rule: unique_ids.induct) (auto simp: Let_def)

text \<open>A command acts on what was asked for and on nothing else: only known actions reach the backend, with distinct ids that were named, or, for all
  tasks, with the ids of listed tasks in a status that the action applies to.\<close>

theorem control_selects_the_tasks:
  assumes "control begun account c known tasks change none request = (Some (action, ids), r)"
  shows "action \<in> {''pause'', ''resume'', ''delete''} \<and> da_account request = account \<and> da_executor request \<in> set known \<and> begun = Inr () \<and> distinct ids \<and> ids \<noteq> [] \<and> r = change action ids
    \<and> (if fst (parse_action (da_action request))
       then \<exists>ts. tasks = Inr ts \<and> set ids = trim_space ` dt_id ` {t \<in> set ts. eligible action (wanted_statuses action (da_statuses request)) (dt_status t)} - {[]}
       else set ids = trim_space ` set (da_ids request) - {[]})"
  using assms unfolding control_def Let_def
  by (auto split: sum.splits if_splits prod.splits dest: service_backend_known simp: unique_ids_props image_image)

section \<open>Removal of a link\<close>

definition validLinkID :: "string \<Rightarrow> bool" where
  "validLinkID i \<longleftrightarrow> i \<noteq> [] \<and> i \<noteq> ''index'' \<and> CHR ''/'' \<notin> set i \<and> CHR 0x5C \<notin> set i"

text \<open>\<open>LinkControl.Remove\<close> on the state of its two ports: \<open>changed\<close> is \<open>ChangeTasks\<close> with the action \<open>delete\<close>, \<open>remove\<close> is \<open>Remove\<close> of the link repository.
  An error of either comes with an empty result.\<close>

definition linkControl_remove :: "ctx \<Rightarrow> string \<Rightarrow> bool \<Rightarrow> (string list \<Rightarrow> 's \<Rightarrow> localResult res \<times> 's) \<Rightarrow> (string \<Rightarrow> 's \<Rightarrow> nat res \<times> 's)
    \<Rightarrow> string \<Rightarrow> string \<Rightarrow> 's \<Rightarrow> (nat \<times> err option) \<times> 's" where
  "linkControl_remove c own configured change remove account given s =
     (if account \<noteq> own then ((0, Some (ErrMsg ''download link account mismatch'')), s)
      else case c of
             Some e \<Rightarrow> ((0, Some e), s)
           | None \<Rightarrow>
               let i = trim_space given
               in if \<not> validLinkID i then ((0, Some (ErrMsg ''invalid download link id'')), s)
                  else if \<not> configured then ((0, Some (ErrMsg ''download link storage is not configured'')), s)
                  else (case change [i] s of
                          (Inl e, s1) \<Rightarrow> ((0, Some e), s1)
                        | (Inr result, s1) \<Rightarrow>
                            if lx_errors result \<noteq> [] then ((lx_changed result, Some (ErrMsg (join ''; '' (lx_errors result)))), s1)
                            else (case remove i s1 of
                                    (Inl e, s2) \<Rightarrow> ((lx_changed result, Some e), s2)
                                  | (Inr n, s2) \<Rightarrow> ((lx_changed result + n, None), s2))))"

text \<open>The ports of the application: the controller of the local downloader and the link repository of the hub.\<close>

definition hub_link_remove :: "ctx \<Rightarrow> ctx \<Rightarrow> string \<Rightarrow> kv xstate \<Rightarrow> nat res \<times> kv xstate" where
  "hub_link_remove c c' i st = (case link_remove c c' i (fst st) of (n, s) \<Rightarrow> (n, (s, snd st)))"

lemma delete_one_gone:
  assumes w: "\<forall>n. xw_repo w n \<in> hub_local_repos" "\<forall>n st. xw_env w n st = st" and s: "recs_ok (fst st)"
    and del: "deleteOne w recs_of rm n i res st = (res', st')" "lx_errors res' = []"
  shows "recs_of (fst st') i = None"
proof -
  obtain s0 d0 where st: "st = (s0, d0)" by (rule prod.exhaust)
  obtain y s2 where u: "lo_update (xw_repo w (Suc n)) i (\<lambda>r. Some (ctl_remove r)) s0 = (y, s2)" by (rule prod.exhaust)
  have xu: "xw_update w (Suc n) i (\<lambda>r. Some (ctl_remove r)) (s0, d0) = (y, (s2, d0))" using u w(2) by (simp add: xw_update_def)
  note repo = ld.repo_of [OF w(1)]
  note upd = local_repository.update_law [OF repo _ keeps_remove u]
  show ?thesis
  proof (cases "lo_get (xw_repo w n) i s0")
    case (Inl e)
    with del st w(2) show ?thesis by (auto simp: deleteOne_def Let_def)
  next
    case (Inr found)
    have found: "found = recs_of s0 i" using local_repository.get_law [OF repo _ Inr] s st by simp
    show ?thesis
    proof (cases "found = None \<or> y = Inr False")
      case True
      have "recs_of s2 i = None" if "y = Inr False"
        using that local_repository.update_declined [OF repo _ u [unfolded that]] upd s st by (cases "recs_of s0 i") auto
      with True found Inr del st w(2) xu show ?thesis by (auto simp: deleteOne_def Let_def split: option.splits if_splits)
    next
      case False
      then obtain r0 where r0: "found = Some r0" by auto
      with False del st w(2) xu Inr have "y = Inr True" by (cases y) (auto simp: deleteOne_def Let_def split: if_splits)
      with upd s st have ok: "recs_ok s2" by auto
      from r0 Inr del st w(2) xu \<open>y = Inr True\<close> obtain z s4 d3 where rm4: "lo_remove (xw_repo w (Suc (Suc n))) i s2 = (z, s4)" and z: "z = Inr ()" "st' = (s4, d3)"
        by (auto simp: deleteOne_def Let_def split: if_splits prod.splits sum.splits)
      from local_repository.remove_law [OF repo ok rm4] z show ?thesis by simp
    qed
  qed
qed

lemma trim_idem: "trim p (trim p x) = trim p x"
proof -
  have l: "trim_left p (trim_left p y) = trim_left p y" for y by (simp add: trim_left_def)
  have "trim_left p (trim_right p (trim_left p y)) = trim_right p (trim_left p y)" for y
  proof (cases "trim_left p y")
    case (Cons a z)
    then have "\<not> p a" unfolding trim_left_def by (metis dropWhile_eq_Cons_conv)
    then have "\<exists>u. trim_right p (trim_left p y) = a # u" unfolding Cons trim_right_def
      by (induction z rule: rev_induct) (auto, metis rev_rev_ident)
    with \<open>\<not> p a\<close> show ?thesis by (auto simp: trim_left_def)
  next
    case Nil
    show ?thesis unfolding Nil by (simp add: trim_left_def trim_right_def)
  qed
  moreover have "trim_right p (trim_right p y) = trim_right p y" for y by (simp add: trim_right_def)
  ultimately show ?thesis by (simp add: trim_def)
qed

lemma link_remove_success:
  assumes "link_remove c c' i s = (Inr n, s')"
  shows "s' (linkPrefix @ i) = None \<and> (\<forall>k. s' (localPrefix @ k) = None \<or> s' (localPrefix @ k) = s (localPrefix @ k))"
proof -
  from assms have t: "storage_update c (\<lambda>ctx. memory_update ctx c') (link_remove_txn c i) s = (Inr n, s')" by (auto simp: link_remove_def split: if_splits)
  from update_succeeds [OF t] obtain ai where ai: "index_is aria2 s ai"
    unfolding link_remove_txn_def by (auto simp: and_then_Inr raw_index)
  have "localPrefix @ k \<noteq> linkPrefix @ i" "localPrefix @ k \<noteq> linkIndex" "localPrefix @ k \<noteq> aria2Index" for k by (simp_all add: hub_keys)
  with link_remove_is_complete [OF assms ai] show ?thesis by auto
qed

text \<open>C38: a removed link leaves nothing behind. When nobody else writes the store meanwhile and \<open>LinkControl.Remove\<close> reports success, the link has no
  record in the hub and no local download of the same id is left, whatever the context, the files and the earlier state were; an id that could
  name a key of the store itself is refused.\<close>

theorem removed_link_leaves_nothing:
  assumes "\<forall>n. xw_repo w n \<in> hub_local_repos" "\<forall>n st. xw_env w n st = st" "recs_ok (fst st)"
    and "linkControl_remove c own configured (changeTasks w recs_of rm ''delete'') (hub_link_remove c2 c3) account given st = ((n, None), st')"
  shows "fst st' (linkPrefix @ trim_space given) = None \<and> recs_of (fst st') (trim_space given) = None \<and> validLinkID (trim_space given) \<and> account = own"
proof -
  let ?i = "trim_space given"
  obtain y st1 where ch: "changeTasks w recs_of rm ''delete'' [?i] st = (y, st1)" by (rule prod.exhaust)
  obtain z st2 where lr: "hub_link_remove c2 c3 ?i st1 = (z, st2)" by (rule prod.exhaust)
  from assms(4) ch lr obtain result m where v: "account = own" "validLinkID ?i" "y = Inr result" "lx_errors result = []" "z = Inr m" "st' = st2"
    by (auto simp: linkControl_remove_def Let_def split: if_splits option.splits sum.splits)
  have "deleteOne w recs_of (rm 0) 0 ?i lx_none st = (result, st1)"
    using ch v(2,3) by (auto simp: changeTasks_def controller_delete_def trim_idem validLinkID_def Let_def split: prod.splits)
  from delete_one_gone [OF assms(1-3) this v(4)] have gone: "recs_of (fst st1) ?i = None" .
  from lr v(5,6) have "link_remove c2 c3 ?i (fst st1) = (Inr m, fst st')" by (auto simp: hub_link_remove_def split: prod.splits)
  from link_remove_success [OF this] have k: "fst st' (linkPrefix @ ?i) = None" "fst st' (localPrefix @ ?i) = None \<or> fst st' (localPrefix @ ?i) = fst st1 (localPrefix @ ?i)" by auto
  have "recs_of (fst st') ?i = None" using k(2) gone unfolding recs_of_def by (auto split: option.splits)
  with k v show ?thesis by blast
qed

definition demo_links :: kv where
  "demo_links = [linkPrefix @ ''x'' \<mapsto> Doc (JObj [])]"

theorem removed_link_leaves_nothing_witness:
  "\<exists>st'. linkControl_remove None ''d'' True (changeTasks demo_world recs_of (\<lambda>_. None) ''delete'') (hub_link_remove None None) ''d'' ''x'' (demo_links, demo_disk) = ((1, None), st')
     \<and> demo_links (linkPrefix @ ''x'') \<noteq> None \<and> fst st' (linkPrefix @ ''x'') = None"
proof -
  have t: "trim_space ''x'' = ''x''" by (simp add: trim_def trim_left_def trim_right_def is_space_def)
  have ok: "recs_ok demo_links" using lo.index_is_cong [of demo_links Map.empty] recs_ok_empty
    by (auto simp: recs_ok_def recs_of_def indexed_def demo_links_def local_keys hub_keys)
  have get: "lo_get (xw_repo demo_world 0) ''x'' demo_links = Inr None"
    by (simp add: demo_world_def local_repo_def local_get_def demo_links_def scoped_get_def scope_check_def in_hub_scope kv_get_def hub_keys hub_selectors col_read_def)
  have "changeTasks demo_world recs_of (\<lambda>_. None) ''delete'' [''x''] (demo_links, demo_disk) = (Inr (lx_none\<lparr>lx_skipped := 1\<rparr>), (demo_links, demo_disk))"
    using get demo_facts(5) by (simp add: changeTasks_def controller_delete_def t deleteOne_def lx_none_def)
  moreover have "\<exists>s'. link_remove None None ''x'' demo_links = (Inr 1, s')"
    by (simp add: demo_links_def link_remove_def storage_update_def memory_update_def link_remove_txn_def kv_get_def kv_set_def kv_delete_def col_index_def col_saveIndex_def)
  ultimately obtain s' where r: "linkControl_remove None ''d'' True (changeTasks demo_world recs_of (\<lambda>_. None) ''delete'') (hub_link_remove None None) ''d'' ''x'' (demo_links, demo_disk) = ((1, None), (s', demo_disk))"
    by (auto simp: linkControl_remove_def t validLinkID_def hub_link_remove_def lx_none_def)
  from removed_link_leaves_nothing [OF demo_facts(4) _ _ r] demo_facts(5) ok t r show ?thesis by (auto simp: demo_links_def)
qed

section \<open>Resubmission of saved links\<close>

record linkResult =
  lk_ok :: bool
  lk_added :: nat
  lk_skipped :: nat
  lk_errors :: "string list"

text \<open>
  The answers that \<open>Catalog.Submit\<close> gets for the \<open>i\<close>-th id: the context, the local executor, and for aria2 the limit, the new task and its record.
  \<open>cw_decode\<close> reads id and file name of a stored link and \<open>cw_hasMedia\<close> is \<open>hasPersistentDownloadMedia\<close>; both decode JSON.
\<close>

record 'd catalogWorld =
  cw_ctx :: "nat \<Rightarrow> ctx"
  cw_records :: "string \<rightharpoonup> 'd"
  cw_decode :: "'d \<Rightarrow> (string \<times> string) res"
  cw_hasMedia :: "'d \<Rightarrow> bool"
  cw_noMedia :: "string \<Rightarrow> string"
  cw_mode :: string
  cw_hasLocal :: bool
  cw_hasRemote :: bool
  cw_local :: "nat \<Rightarrow> string \<Rightarrow> err option"
  cw_setMax :: "nat \<Rightarrow> err option"
  cw_addURI :: "nat \<Rightarrow> string \<Rightarrow> string \<times> err option"
  cw_addRecord :: "nat \<Rightarrow> string \<Rightarrow> err option"

definition skip_link :: "string list \<Rightarrow> linkResult \<Rightarrow> linkResult" where
  "skip_link es r = r\<lparr>lk_skipped := Suc (lk_skipped r), lk_errors := lk_errors r @ es\<rparr>"

definition id_error :: "string \<Rightarrow> string \<Rightarrow> string" where
  "id_error i msg = i @ '': '' @ msg"

definition appendLocalDownloadError :: "'d catalogWorld \<Rightarrow> string \<Rightarrow> 'd \<Rightarrow> err \<Rightarrow> string" where
  "appendLocalDownloadError w i data e =
     (if sublist ''restore persistent download task'' (err_text e) \<and> \<not> cw_hasMedia w data then cw_noMedia w i else id_error i (err_text e))"

text \<open>One link with a record; the first component tells whether the limit of aria2 is set by now, the last whether the executor was asked.\<close>

definition submit_link :: "'d catalogWorld \<Rightarrow> nat \<Rightarrow> bool \<Rightarrow> string \<Rightarrow> 'd \<Rightarrow> linkResult \<Rightarrow> bool \<times> linkResult \<times> bool" where
  "submit_link w k configured i data r =
     (if cw_mode w = localExecutor
      then (case cw_local w k i of
              Some e \<Rightarrow> (configured, skip_link [appendLocalDownloadError w i data e] r, True)
            | None \<Rightarrow> (configured, r\<lparr>lk_added := Suc (lk_added r)\<rparr>, True))
      else case (if configured then None else cw_setMax w k) of
             Some e \<Rightarrow> (configured, skip_link [id_error i (''configure aria2 max concurrent downloads: '' @ err_text e)] r, False)
           | None \<Rightarrow>
               (case cw_addURI w k i of
                  (gid, Some e) \<Rightarrow> (True, skip_link [id_error i (err_text e)] r, True)
                | (gid, None) \<Rightarrow>
                    if gid = [] then (True, skip_link [id_error i ''aria2 returned empty gid''] r, True)
                    else let r1 = r\<lparr>lk_added := Suc (lk_added r)\<rparr>
                         in (case cw_addRecord w k gid of
                               Some e \<Rightarrow> (True, r1\<lparr>lk_errors := lk_errors r @ [id_error i (''aria2 accepted gid '' @ gid @ '' but persist aria2 record failed: '' @ err_text e)]\<rparr>, True)
                             | None \<Rightarrow> (True, r1, True))))"

fun catalog_loop :: "'d catalogWorld \<Rightarrow> nat \<Rightarrow> bool \<Rightarrow> string list \<Rightarrow> string list \<Rightarrow> linkResult \<Rightarrow> linkResult \<times> string list" where
  "catalog_loop w k configured seen [] r = (r, [])"
| "catalog_loop w k configured seen (given # is) r =
     (case cw_ctx w k of
        Some e \<Rightarrow> (r\<lparr>lk_errors := lk_errors r @ [err_text e]\<rparr>, [])
      | None \<Rightarrow>
          let i = trim_space given
          in if i = [] then catalog_loop w (Suc k) configured seen is r
             else if \<not> validLinkID i then catalog_loop w (Suc k) configured seen is (skip_link [id_error i ''reserved download metadata key''] r)
             else if i \<in> set seen then catalog_loop w (Suc k) configured seen is (skip_link [] r)
             else (case cw_records w i of
                     None \<Rightarrow> catalog_loop w (Suc k) configured (i # seen) is (skip_link [id_error i ''link record not found''] r)
                   | Some data \<Rightarrow>
                       (case cw_decode w data of
                          Inl e \<Rightarrow> catalog_loop w (Suc k) configured (i # seen) is (skip_link [id_error i (err_text e)] r)
                        | Inr (tid, name) \<Rightarrow>
                            if tid \<noteq> i then catalog_loop w (Suc k) configured (i # seen) is (skip_link [id_error i ''record id mismatch''] r)
                            else (case submit_link w k configured i data r of
                                    (conf, r1, asked) \<Rightarrow>
                                      (case catalog_loop w (Suc k) conf (i # seen) is r1 of (r2, calls) \<Rightarrow> (r2, if asked then i # calls else calls))))))"

definition catalog_submit :: "unit res \<Rightarrow> unit res \<Rightarrow> 'd catalogWorld \<Rightarrow> string list \<Rightarrow> linkResult \<times> string list" where
  "catalog_submit validated submission w is =
     (let refuse = (\<lambda>m. (\<lparr>lk_ok = False, lk_added = 0, lk_skipped = 0, lk_errors = [m]\<rparr>, []))
      in case validated of
           Inl e \<Rightarrow> refuse (err_text e)
         | Inr _ \<Rightarrow>
             (case submission of
                Inl e \<Rightarrow> refuse (err_text e)
              | Inr _ \<Rightarrow>
                  if cw_mode w \<noteq> localExecutor \<and> cw_mode w \<noteq> aria2Executor then refuse ''unsupported download executor''
                  else if cw_mode w = localExecutor \<and> \<not> cw_hasLocal w \<or> cw_mode w \<noteq> localExecutor \<and> \<not> cw_hasRemote w then refuse ''download executor is not configured''
                  else (case catalog_loop w 0 False [] is \<lparr>lk_ok = True, lk_added = 0, lk_skipped = 0, lk_errors = []\<rparr> of
                          (r, calls) \<Rightarrow> (r\<lparr>lk_ok := (lk_errors r = [])\<rparr>, calls))))"

definition catalog_validate :: "string \<Rightarrow> bool \<Rightarrow> ctx \<Rightarrow> string \<Rightarrow> unit res" where
  "catalog_validate own source c account =
     (if account \<noteq> own then Inl (ErrMsg ''download catalog account mismatch'')
      else case c of
             Some e \<Rightarrow> Inl e
           | None \<Rightarrow> if source then Inr () else Inl (ErrMsg ''download catalog is not configured''))"

text \<open>The ids of saved links that can be submitted.\<close>

definition saved_link :: "'d catalogWorld \<Rightarrow> string \<Rightarrow> bool" where
  "saved_link w i \<longleftrightarrow> validLinkID i \<and> (\<exists>data name. cw_records w i = Some data \<and> cw_decode w data = Inr (i, name))"

lemma submit_link_added:
  "submit_link w k configured i data r = (conf, r1, asked) \<Longrightarrow> lk_added r1 \<le> lk_added r + (if asked then 1 else 0) \<and> (cw_mode w = localExecutor \<longrightarrow> asked)"
  by (auto simp: submit_link_def skip_link_def Let_def split: if_splits option.splits prod.splits)

lemma skip_link_added [simp]: "lk_added (skip_link es r) = lk_added r"
  by (simp add: skip_link_def)

definition saved_among :: "'d catalogWorld \<Rightarrow> string list \<Rightarrow> string list \<Rightarrow> string set" where
  "saved_among w is seen = {i \<in> trim_space ` set is. saved_link w i} - set seen"

lemma saved_among_Cons:
  "\<not> saved_link w (trim_space g) \<or> trim_space g \<in> set seen \<Longrightarrow> saved_among w (g # is) seen = saved_among w is seen"
  "\<not> saved_link w (trim_space g) \<Longrightarrow> saved_among w (g # is) seen = saved_among w is (trim_space g # seen)"
  "saved_link w (trim_space g) \<Longrightarrow> trim_space g \<notin> set seen \<Longrightarrow> saved_among w (g # is) seen = insert (trim_space g) (saved_among w is (trim_space g # seen))"
  by (auto simp: saved_among_def)

definition loop_ok :: "'d catalogWorld \<Rightarrow> string list \<Rightarrow> string list \<Rightarrow> nat \<Rightarrow> linkResult \<times> string list \<Rightarrow> bool" where
  "loop_ok w is seen added x \<longleftrightarrow> distinct (snd x) \<and> set (snd x) \<subseteq> saved_among w is seen \<and> lk_added (fst x) \<le> added + length (snd x)
     \<and> (cw_mode w = localExecutor \<and> (\<forall>j. cw_ctx w j = None) \<longrightarrow> set (snd x) = saved_among w is seen)"

lemma catalog_loop_ok: "loop_ok w is seen (lk_added r) (catalog_loop w k configured seen is r)"
proof (induction "is" arbitrary: k configured seen r)
  case Nil
  then show ?case by (simp add: loop_ok_def saved_among_def)
next
  case (Cons given "is")
  let ?i = "trim_space given"
  have same: "loop_ok w (given # is) seen (lk_added r) (catalog_loop w k configured seen is r')"
    if "\<not> saved_link w ?i \<or> ?i \<in> set seen" "lk_added r' = lk_added r" for k configured r'
    using Cons.IH [of seen r' k configured] that by (simp add: loop_ok_def saved_among_Cons(1))
  have bad: "loop_ok w (given # is) seen (lk_added r) (catalog_loop w k configured (?i # seen) is r')"
    if "\<not> saved_link w ?i" "lk_added r' = lk_added r" for k configured r'
    using Cons.IH [of "?i # seen" r' k configured] that by (simp add: loop_ok_def saved_among_Cons(2))
  show ?case
  proof (cases "cw_ctx w k = None \<and> validLinkID ?i \<and> ?i \<notin> set seen")
    case False
    show ?thesis
    proof (cases "cw_ctx w k")
      case (Some e)
      then show ?thesis by (auto simp: loop_ok_def)
    next
      case None
      with False have "\<not> saved_link w ?i \<or> ?i \<in> set seen" "\<not> validLinkID ?i \<or> ?i \<in> set seen" by (auto simp: saved_link_def)
      with None same show ?thesis by (simp add: Let_def)
    qed
  next
    case ok: True
    then have ne: "?i \<noteq> []" by (simp add: validLinkID_def)
    show ?thesis
    proof (cases "saved_link w ?i")
      case False
      with ok ne bad show ?thesis by (auto simp: saved_link_def Let_def split: option.split sum.split)
    next
      case True
      then obtain data name where d: "cw_records w ?i = Some data" "cw_decode w data = Inr (?i, name)" by (auto simp: saved_link_def)
      obtain conf r1 asked where s: "submit_link w k configured ?i data r = (conf, r1, asked)" by (rule prod_cases3)
      obtain r2 calls where l: "catalog_loop w (Suc k) conf (?i # seen) is r1 = (r2, calls)" by (rule prod.exhaust)
      from ok ne d s l have "catalog_loop w k configured seen (given # is) r = (r2, if asked then ?i # calls else calls)" by (simp add: Let_def)
      with Cons.IH [of "?i # seen" r1 "Suc k" conf] l submit_link_added [OF s] ok True show ?thesis
        by (auto simp: loop_ok_def saved_among_Cons(3)) (auto simp: saved_among_def)
    qed
  qed
qed

text \<open>Every saved link that was asked for is handed to the executor at most once, nothing else is, and no more are counted as added than were handed over; the local executor is asked
  for every one of them as long as the context lives.\<close>

theorem catalog_submits_each_link_once:
  "case catalog_submit validated submission w is of
     (r, calls) \<Rightarrow> distinct calls \<and> set calls \<subseteq> {i \<in> trim_space ` set is. saved_link w i} \<and> lk_added r \<le> length calls \<and> (lk_ok r \<longleftrightarrow> lk_errors r = [])
       \<and> (if validated = Inr () \<and> submission = Inr () \<and> cw_mode w = localExecutor \<and> cw_hasLocal w \<and> (\<forall>j. cw_ctx w j = None)
          then set calls = {i \<in> trim_space ` set is. saved_link w i} else True)"
proof -
  obtain r calls where c: "catalog_loop w 0 False [] is \<lparr>lk_ok = True, lk_added = 0, lk_skipped = 0, lk_errors = []\<rparr> = (r, calls)" by (rule prod.exhaust)
  from catalog_loop_ok [of w "is" "[]" "\<lparr>lk_ok = True, lk_added = 0, lk_skipped = 0, lk_errors = []\<rparr>" 0 False] c
  have "loop_ok w is [] 0 (r, calls)" by simp
  then show ?thesis using c unfolding catalog_submit_def Let_def
    by (auto simp: loop_ok_def saved_among_def split: sum.split)
qed

end
