(* ===== verification/Aria2_Control.thy ===== *)
theory Aria2_Control
  imports Aria2_Hub
begin

text \<open>
  Commands to aria2 (\<open>application/downloader.aria2/control_operation.go\<close>): a command reserves the record in the repository, asks aria2 for the
  status, sends at most one call and reports the result to the repository, which fences off observations meanwhile. The answers of aria2 are
  parameters, and what others do to the store between reservation and report is an arbitrary function.
\<close>

section \<open>Commands\<close>

datatype aria2Cmd = CmdPause | CmdForcePause | CmdUnpause | CmdRemove | CmdRemoveResult

text \<open>The answers of aria2 to \<open>TellStatus\<close> and to the command, and the store as the report finds it.\<close>

record 's rpcWorld =
  rp_tell :: "string res"
  rp_call :: "aria2Cmd \<Rightarrow> err option"
  rp_env :: "'s \<Rightarrow> 's"

definition normalizedAria2Status :: "string \<Rightarrow> string" where
  "normalizedAria2Status given = (let st = trim_space given in if st = [] then ''active'' else st)"

text \<open>What the body of a command decides: the result, the error, the lease with its owner, the status and removal to report, and the call to aria2.\<close>

record decision =
  dc_changed :: bool
  dc_err :: "err option"
  dc_lease :: aria2Record
  dc_status :: string
  dc_remove :: bool
  dc_cmds :: "aria2Cmd list"

definition sent :: "'s rpcWorld \<Rightarrow> aria2Record \<Rightarrow> aria2Cmd \<Rightarrow> string \<Rightarrow> bool \<Rightarrow> decision" where
  "sent w lease cmd status rm =
     (case rp_call w cmd of
        None \<Rightarrow> \<lparr>dc_changed = True, dc_err = None, dc_lease = lease, dc_status = status, dc_remove = rm, dc_cmds = [cmd]\<rparr>
      | Some e \<Rightarrow> \<lparr>dc_changed = False, dc_err = Some e, dc_lease = lease, dc_status = [], dc_remove = False, dc_cmds = [cmd]\<rparr>)"

definition control_body :: "'s rpcWorld \<Rightarrow> aria2Record \<Rightarrow> aria2Record \<Rightarrow> string \<Rightarrow> bool \<Rightarrow> string \<Rightarrow> decision" where
  "control_body w r lease action force owner =
     (let quiet = (\<lambda>ch e l st. \<lparr>dc_changed = ch, dc_err = e, dc_lease = l, dc_status = st, dc_remove = False, dc_cmds = []\<rparr>)
      in case rp_tell w of
           Inl e \<Rightarrow> quiet False (Some e) lease []
         | Inr st \<Rightarrow>
             if action = ''pause''
             then (if st \<in> {''paused'', ''complete'', ''error''}
                   then quiet (owner = [] \<and> ar_pauseOwner r \<noteq> [] \<and> st = ''paused'') None
                          (if owner \<noteq> [] then lease\<lparr>ar_pauseOwner := ar_pauseOwner r\<rparr> else lease) st
                   else sent w lease (if force then CmdForcePause else CmdPause) ''paused'' False)
             else if action = ''resume''
             then (if st \<noteq> ''paused'' then quiet False None lease (normalizedAria2Status st) else sent w lease CmdUnpause ''waiting'' False)
             else if action = ''delete''
             then sent w lease (if st \<in> {''complete'', ''error'', ''removed''} then CmdRemoveResult else CmdRemove) [] True
             else quiet False (Some (ErrMsg (''unsupported aria2 action '' @ action))) lease [])"

text \<open>\<open>performOwnedControl\<close> on the two operations of the repository; the deferred report joins its error.\<close>

definition finish_report :: "bool res \<Rightarrow> err option" where
  "finish_report x = (case x of Inl e \<Rightarrow> Some e | Inr True \<Rightarrow> None | Inr False \<Rightarrow> Some (ErrMsg ''aria2 control result superseded by another update''))"

definition owner_of_lease :: "aria2Record \<Rightarrow> string \<Rightarrow> string" where
  "owner_of_lease r owner = (if owner \<noteq> [] \<and> ar_status r = ''paused'' \<and> ar_pauseOwner r = [] then [] else owner)"

fun joined :: "err option \<Rightarrow> err option \<Rightarrow> err option" where
  "joined None b = b"
| "joined a None = a"
| "joined (Some a) (Some b) = Some (ErrJoin a b)"

definition performOwnedControl :: "(aria2Record \<Rightarrow> 's \<Rightarrow> (aria2Record \<times> bool) res \<times> 's) \<Rightarrow> (aria2Record \<Rightarrow> string \<Rightarrow> bool \<Rightarrow> 's \<Rightarrow> bool res \<times> 's)
    \<Rightarrow> 's rpcWorld \<Rightarrow> aria2Record \<Rightarrow> string \<Rightarrow> bool \<Rightarrow> string \<Rightarrow> 's \<Rightarrow> (bool \<times> err option) \<times> aria2Cmd list \<times> 's" where
  "performOwnedControl reserve finish w r action force owner s =
     (case reserve r s of
        (Inl e, s1) \<Rightarrow> ((False, Some e), [], s1)
      | (Inr (lease0, False), s1) \<Rightarrow> ((False, Some (ErrMsg ''aria2 task changed or another control is in progress'')), [], s1)
      | (Inr (lease0, True), s1) \<Rightarrow>
          let d = control_body w r (lease0\<lparr>ar_pauseOwner := owner_of_lease r owner\<rparr>) action force owner
          in (case finish (dc_lease d) (dc_status d) (dc_remove d) (rp_env w s1) of
                (x, s2) \<Rightarrow> ((dc_changed d, joined (dc_err d) (finish_report x)), dc_cmds d, s2)))"

definition performControl :: "(aria2Record \<Rightarrow> 's \<Rightarrow> (aria2Record \<times> bool) res \<times> 's) \<Rightarrow> (aria2Record \<Rightarrow> string \<Rightarrow> bool \<Rightarrow> 's \<Rightarrow> bool res \<times> 's)
    \<Rightarrow> 's rpcWorld \<Rightarrow> aria2Record \<Rightarrow> string \<Rightarrow> bool \<Rightarrow> 's \<Rightarrow> (bool \<times> err option) \<times> aria2Cmd list \<times> 's" where
  "performControl reserve finish w r action force s = performOwnedControl reserve finish w r action force [] s"

text \<open>\<open>controlOne\<close>: only records of this account are controlled.\<close>

definition controlOne :: "(aria2Record \<Rightarrow> 's \<Rightarrow> (aria2Record \<times> bool) res \<times> 's) \<Rightarrow> (aria2Record \<Rightarrow> string \<Rightarrow> bool \<Rightarrow> 's \<Rightarrow> bool res \<times> 's)
    \<Rightarrow> ('s \<Rightarrow> (string \<times> aria2Record) list res \<times> 's) \<Rightarrow> 's rpcWorld \<Rightarrow> bool \<Rightarrow> string \<Rightarrow> string \<Rightarrow> 's \<Rightarrow> err option \<times> aria2Cmd list \<times> 's" where
  "controlOne reserve finish records w available gid action s =
     (if \<not> available then (Some (ErrMsg ''aria2 controller is unavailable''), [], s)
      else case records s of
             (Inl e, s1) \<Rightarrow> (Some e, [], s1)
           | (Inr rs, s1) \<Rightarrow>
               (case map_of rs gid of
                  None \<Rightarrow> (Some (ErrMsg ''aria2 task is not registered to this account''), [], s1)
                | Some r \<Rightarrow> (case performControl reserve finish w r action False s1 of ((ch, e), cmds, s2) \<Rightarrow> (e, cmds, s2))))"

section \<open>The repository under control\<close>

text \<open>What a command relies on: a reservation is of the record that the caller saw and nobody controls, and an accepted report finishes it.\<close>

locale control_repository =
  fixes reserve :: "aria2Record \<Rightarrow> 's \<Rightarrow> (aria2Record \<times> bool) res \<times> 's"
    and finish :: "aria2Record \<Rightarrow> string \<Rightarrow> bool \<Rightarrow> 's \<Rightarrow> bool res \<times> 's"
    and recs :: "'s \<Rightarrow> string \<rightharpoonup> aria2Record"
  assumes reserve_law: "reserve r s = (Inr (lease, True), s') \<Longrightarrow> ar_revision r + 1 < 2 ^ 64 \<Longrightarrow>
      \<exists>cur until. recs s (ar_gid r) = Some cur \<and> ar_revision cur = ar_revision r \<and> ar_taskID cur = ar_taskID r \<and> \<not> ar_deleted cur
        \<and> lease = cur\<lparr>ar_revision := revision_succ (ar_revision cur), ar_controlUntil := until\<rparr> \<and> ar_gid cur = ar_gid r \<and> recs s' (ar_gid r) = Some lease"
    and finish_law: "finish lease status rm s = (Inr True, s') \<Longrightarrow> ar_revision lease + 1 < 2 ^ 64 \<Longrightarrow>
      \<exists>cur. recs s (ar_gid lease) = Some cur \<and> ar_revision cur = ar_revision lease \<and> recs s' (ar_gid lease) = Some (finished cur lease status rm)"
begin

text \<open>A command that reports success sent at most the one call it was asked for, under a lease of the record as the caller saw it, and the record was finished with its result.\<close>

lemma control_acknowledged:
  assumes "performOwnedControl reserve finish w r action force owner s = ((changed, None), cmds, s')" "ar_revision r + 2 < 2 ^ 64"
  shows "\<exists>lease s1 cur d. reserve r s = (Inr (lease, True), s1) \<and> recs (rp_env w s1) (ar_gid r) = Some cur \<and> ar_revision cur = revision_succ (ar_revision r)
     \<and> d = control_body w r (lease\<lparr>ar_pauseOwner := owner_of_lease r owner\<rparr>) action force owner \<and> dc_err d = None \<and> cmds = dc_cmds d \<and> changed = dc_changed d
     \<and> recs s' (ar_gid r) = Some (finished cur (dc_lease d) (dc_status d) (dc_remove d))"
proof -
  have jn: "joined a b = None \<longleftrightarrow> a = None \<and> b = None" for a b by (cases "(a, b)" rule: joined.cases) simp_all
  from assms(1) obtain lease s1 where rv: "reserve r s = (Inr (lease, True), s1)"
    by (auto simp: performOwnedControl_def split: prod.splits sum.splits bool.splits)
  define d where "d = control_body w r (lease\<lparr>ar_pauseOwner := owner_of_lease r owner\<rparr>) action force owner"
  obtain x s2 where fx: "finish (dc_lease d) (dc_status d) (dc_remove d) (rp_env w s1) = (x, s2)" by (rule prod.exhaust)
  from assms(1) rv fx have "dc_err d = None" "finish_report x = None" "cmds = dc_cmds d" "changed = dc_changed d" "s' = s2"
    by (auto simp: performOwnedControl_def d_def [symmetric] Let_def jn)
  moreover from this(2) have "x = Inr True" by (auto simp: finish_report_def split: sum.splits bool.splits)
  moreover obtain cur0 until where c0: "lease = cur0\<lparr>ar_revision := revision_succ (ar_revision cur0), ar_controlUntil := until\<rparr>" "ar_revision cur0 = ar_revision r" "ar_gid cur0 = ar_gid r"
    using reserve_law [OF rv] assms(2) by auto
  have "ar_gid (dc_lease d) = ar_gid r" "ar_revision (dc_lease d) = revision_succ (ar_revision r)"
    using c0 by (auto simp: d_def control_body_def sent_def Let_def split: sum.splits option.splits)
  moreover have "revision_succ (ar_revision r) + 1 < 2 ^ 64" using assms(2) by (simp add: revision_succ_def)
  ultimately have "\<exists>cur. recs (rp_env w s1) (ar_gid r) = Some cur \<and> ar_revision cur = revision_succ (ar_revision r)
      \<and> recs s' (ar_gid r) = Some (finished cur (dc_lease d) (dc_status d) (dc_remove d))"
    using finish_law [of "dc_lease d" "dc_status d" "dc_remove d" "rp_env w s1" s2] fx by simp
  with rv \<open>dc_err d = None\<close> \<open>cmds = dc_cmds d\<close> \<open>changed = dc_changed d\<close> show ?thesis unfolding d_def by blast
qed

end

section \<open>The hub as the repository\<close>

definition aria2_recs :: "kv \<Rightarrow> string \<rightharpoonup> aria2Record" where
  "aria2_recs s gid =
     (case s (aria2Prefix @ gid) of
        None \<Rightarrow> None
      | Some data \<Rightarrow> (case decodeAria2Record data gid of Inl e \<Rightarrow> None | Inr r \<Rightarrow> Some r))"

lemma aria2_recs_Some: "aria2_recs s gid = Some r \<longleftrightarrow> (\<exists>data. s (aria2Prefix @ gid) = Some data \<and> decodeAria2Record data gid = Inr r)"
  by (auto simp: aria2_recs_def split: option.splits sum.splits)

lemma finished_valid: "aria2_valid gid r \<Longrightarrow> ar_revision r + 1 < 2 ^ 64 \<Longrightarrow> aria2_valid gid (finished r lease status rm)"
  using finished_versioned [of gid r lease status rm] unfolding aria2_valid_def by (auto simp: revision_succ_def)

lemma reserve_recs:
  assumes "reserveControl c c' now0 now now' r until s = (Inr (lease, True), s')" "ar_revision r + 1 < 2 ^ 64"
  shows "\<exists>cur until'. aria2_recs s (ar_gid r) = Some cur \<and> ar_revision cur = ar_revision r \<and> ar_taskID cur = ar_taskID r \<and> \<not> ar_deleted cur
    \<and> lease = cur\<lparr>ar_revision := revision_succ (ar_revision cur), ar_controlUntil := until'\<rparr> \<and> ar_gid cur = ar_gid r \<and> aria2_recs s' (ar_gid r) = Some lease"
proof -
  from assms(1) have "col_mutate aria2 c c' (ar_gid r) (reserve_change now now' r until) s = (Inr (lease, True), s')"
    by (auto simp: reserveControl_def split: if_splits prod.splits sum.splits)
  then show ?thesis
  proof (cases rule: ar.mutate_cases)
    case (1 ix data n stamp)
    from 1(5) obtain raw cur where cur: "unmarshal_object data = Inr raw" "aria2_of_json raw = Inr cur" "aria2_valid (ar_gid r) cur"
      "ar_revision cur = ar_revision r" "ar_taskID cur = ar_taskID r" "\<not> ar_deleted cur"
      "lease = cur\<lparr>ar_revision := revision_succ (ar_revision cur), ar_controlUntil := until\<rparr>"
      "n = Some (Doc (JObj (put_fields [(''revision'', JNum (int (revision_succ (ar_revision cur)))), (''control_until'', JTime until)] raw)))"
      by (auto simp: reserve_change_def and_then_Inr decodeAria2Record_iff Let_def split: if_splits)
    have "aria2_valid (ar_gid r) lease" using cur(3,4,7) assms(2) by (auto simp: aria2_valid_def revision_succ_def)
    with cur reserved_of_json [OF cur(2), of "ar_revision cur" until] distinct_unmarshal [OF cur(1)]
    have "decodeAria2Record (the n) (ar_gid r) = Inr lease" by (simp add: decodeAria2Record_iff)
    moreover have "s' (aria2Prefix @ ar_gid r) = n" using 1(6) cur(8) by (auto simp: aria2_keys split: if_splits)
    ultimately have "aria2_recs s' (ar_gid r) = Some lease" using cur(8) by (auto simp: aria2_recs_Some)
    moreover have "aria2_recs s (ar_gid r) = Some cur" using 1(4) cur(1-3) by (auto simp: aria2_recs_Some aria2_keys decodeAria2Record_iff)
    moreover have "ar_gid cur = ar_gid r" using cur(3) by (simp add: aria2_valid_def)
    ultimately show ?thesis using cur by blast
  qed
qed

lemma finish_recs:
  assumes "finishControl c c' now' lease status rm s = (Inr True, s')" "ar_revision lease + 1 < 2 ^ 64"
  shows "\<exists>cur. aria2_recs s (ar_gid lease) = Some cur \<and> ar_revision cur = ar_revision lease \<and> aria2_recs s' (ar_gid lease) = Some (finished cur lease status rm)"
proof -
  from assms(1) have "col_mutate aria2 c c' (ar_gid lease) (finish_change now' lease status rm) s = (Inr True, s')"
    by (auto simp: finishControl_def split: if_splits prod.splits sum.splits)
  then show ?thesis
  proof (cases rule: ar.mutate_cases)
    case (1 ix data n stamp)
    from 1(5) obtain raw cur where cur: "unmarshal_object data = Inr raw" "aria2_of_json raw = Inr cur" "aria2_valid (ar_gid lease) cur"
      "ar_revision cur = ar_revision lease" "n = Some (Doc (JObj (finish_fields cur lease status rm raw)))"
      by (auto simp: finish_change_def and_then_Inr decodeAria2Record_iff split: if_splits)
    have "decodeAria2Record (the n) (ar_gid lease) = Inr (finished cur lease status rm)"
      using finished_of_json [OF cur(2)] distinct_finish [OF distinct_unmarshal [OF cur(1)]] finished_valid [OF cur(3)] cur(4,5) assms(2) by (simp add: decodeAria2Record_iff)
    moreover have "s' (aria2Prefix @ ar_gid lease) = n" using 1(6) cur(5) by (auto simp: aria2_keys split: if_splits)
    ultimately have "aria2_recs s' (ar_gid lease) = Some (finished cur lease status rm)" using cur(5) by (auto simp: aria2_recs_Some)
    moreover have "aria2_recs s (ar_gid lease) = Some cur" using 1(4) cur(1-3) by (auto simp: aria2_recs_Some aria2_keys decodeAria2Record_iff)
    ultimately show ?thesis using cur by blast
  qed
qed

abbreviation hub_reserve :: "ctx \<Rightarrow> ctx \<Rightarrow> instant \<Rightarrow> instant \<Rightarrow> instant \<Rightarrow> instant \<Rightarrow> aria2Record \<Rightarrow> kv \<Rightarrow> (aria2Record \<times> bool) res \<times> kv" where
  "hub_reserve c c' now0 now now' until r \<equiv> reserveControl c c' now0 now now' r until"

interpretation hc: control_repository "hub_reserve c c' now0 now now' until" "finishControl c2 c3 now2" aria2_recs for c c' now0 now now' until c2 c3 now2
  by unfold_locales (rule reserve_recs finish_recs; assumption)+

text \<open>The report of a call that was sent fits the call.\<close>

definition report_ok :: "aria2Record \<Rightarrow> decision \<Rightarrow> bool" where
  "report_ok lease d \<longleftrightarrow> length (dc_cmds d) \<le> 1 \<and> (dc_err d = None \<longrightarrow>
     (CmdPause \<in> set (dc_cmds d) \<or> CmdForcePause \<in> set (dc_cmds d) \<longrightarrow> dc_status d = ''paused'' \<and> \<not> dc_remove d \<and> dc_lease d = lease)
     \<and> (CmdUnpause \<in> set (dc_cmds d) \<longrightarrow> dc_status d = ''waiting'' \<and> \<not> dc_remove d)
     \<and> (CmdRemove \<in> set (dc_cmds d) \<or> CmdRemoveResult \<in> set (dc_cmds d) \<longrightarrow> dc_remove d))"

lemma sent_report:
  "report_ok lease (sent w lease CmdPause ''paused'' False)" "report_ok lease (sent w lease CmdForcePause ''paused'' False)" "report_ok lease (sent w lease CmdUnpause ''waiting'' False)"
  "report_ok lease (sent w lease CmdRemove [] True)" "report_ok lease (sent w lease CmdRemoveResult [] True)"
  by (simp_all add: report_ok_def sent_def split: option.split)

lemma control_body_report: "report_ok lease (control_body w r lease action force owner)"
proof -
  have quiet: "report_ok lease \<lparr>dc_changed = ch, dc_err = e, dc_lease = l, dc_status = st, dc_remove = rm, dc_cmds = []\<rparr>" for ch e l st rm by (simp add: report_ok_def)
  show ?thesis unfolding control_body_def Let_def by (simp add: quiet sent_report split: sum.split)
qed

lemma finished_cases:
  "ar_controlUntil (finished cur l st rm) = 0" "ar_revision (finished cur l st rm) = revision_succ (ar_revision cur)" "rm \<Longrightarrow> ar_deleted (finished cur l st rm)"
  "normalizeDownloadState (ar_status cur) \<notin> {''complete'', ''removed''} \<Longrightarrow> ar_status (finished cur l ''paused'' False) = ''paused'' \<and> ar_pauseOwner (finished cur l ''paused'' False) = ar_pauseOwner l"
  "normalizeDownloadState (ar_status cur) \<notin> {''complete'', ''removed''} \<Longrightarrow> ar_status (finished cur l ''waiting'' False) = ''waiting'' \<and> ar_pauseOwner (finished cur l ''waiting'' False) = []"
proof -
  have n: "normalizeDownloadState ''paused'' = ''paused''" "normalizeDownloadState ''waiting'' = ''queued''" by code_simp+
  have t: "downloadTransition (normalizeDownloadState (ar_status cur)) x" if "normalizeDownloadState (ar_status cur) \<notin> {''complete'', ''removed''}" "x \<in> {''paused'', ''queued''}" for x
    using that by (auto simp: downloadTransition_def downloadUnknown_def)
  show "ar_controlUntil (finished cur l st rm) = 0" "ar_revision (finished cur l st rm) = revision_succ (ar_revision cur)" "rm \<Longrightarrow> ar_deleted (finished cur l st rm)"
    by (simp_all add: finished_def Let_def)
  show "normalizeDownloadState (ar_status cur) \<notin> {''complete'', ''removed''} \<Longrightarrow> ar_status (finished cur l ''paused'' False) = ''paused'' \<and> ar_pauseOwner (finished cur l ''paused'' False) = ar_pauseOwner l"
    "normalizeDownloadState (ar_status cur) \<notin> {''complete'', ''removed''} \<Longrightarrow> ar_status (finished cur l ''waiting'' False) = ''waiting'' \<and> ar_pauseOwner (finished cur l ''waiting'' False) = []"
    using n t by (simp_all add: finished_def)
qed

text \<open>A pause that runs through, by any owner.\<close>

definition sample_rpc :: "kv rpcWorld" where
  "sample_rpc = \<lparr>rp_tell = Inr ''active'', rp_call = \<lambda>_. None, rp_env = \<lambda>s. s\<rparr>"

definition sample_lease :: aria2Record where
  "sample_lease = sample_aria2\<lparr>ar_revision := revision_succ 3, ar_controlUntil := 100\<rparr>"

lemma sample_paused:
  "\<exists>s1 s2. hub_reserve None None 1 1 1 100 sample_aria2 sample_aria2_store = (Inr (sample_lease, True), s1) \<and> aria2_recs s1 ''g'' = Some sample_lease
     \<and> performOwnedControl (hub_reserve None None 1 1 1 100) (finishControl None None 2) sample_rpc sample_aria2 ''pause'' False owner sample_aria2_store = ((True, None), [CmdPause], s2)"
proof -
  note f = sample_aria2_facts
  let ?b = "Doc (JObj (put_fields [(''revision'', JNum (int (revision_succ 3))), (''control_until'', JTime 100)] (aria2_fields sample_aria2)))"
  have "reserve_change 1 1 sample_aria2 100 (Doc (JObj (aria2_fields sample_aria2))) t = Inr (Some ?b, 1, sample_lease, True)" for t
    by (simp add: reserve_change_def f sample_lease_def)
  then have "\<exists>s1. col_mutate aria2 None None ''g'' (reserve_change 1 1 sample_aria2 100) sample_aria2_store = (Inr (sample_lease, True), s1)"
    by (intro ar.mutate_runs [OF f(12), where b = ?b]) (simp_all add: aria2_keys f json_valid_def)
  then obtain s1 where m: "col_mutate aria2 None None ''g'' (reserve_change 1 1 sample_aria2 100) sample_aria2_store = (Inr (sample_lease, True), s1)" by blast
  then have r: "hub_reserve None None 1 1 1 100 sample_aria2 sample_aria2_store = (Inr (sample_lease, True), s1)" by (simp add: reserveControl_def f)
  have "indexed aria2 sample_aria2_store" unfolding indexed_def using f(12)
    by (intro exI [of _ "[(''g'', 5)]"]) (auto simp: aria2_keys sample_aria2_store_def hub_keys split: if_splits)
  with ar.mutate_keeps_indexed [OF m] have "indexed aria2 s1" by (simp add: aria2_keys hub_keys)
  then obtain ix where ix: "index_is aria2 s1 ix" by (auto simp: indexed_def)
  from reserve_recs [OF r] f(2,4) have rec: "aria2_recs s1 ''g'' = Some sample_lease" by auto
  then obtain data where data: "s1 (aria2Prefix @ ''g'') = Some data" "decodeAria2Record data ''g'' = Inr sample_lease" by (auto simp: aria2_recs_Some)
  then obtain raw where raw: "unmarshal_object data = Inr raw" by (auto simp: decodeAria2Record_iff)
  let ?l = "sample_lease\<lparr>ar_pauseOwner := owner_of_lease sample_aria2 owner\<rparr>"
  have "finish_change 2 ?l ''paused'' False data t = Inr (Some (Doc (JObj (finish_fields sample_lease ?l ''paused'' False raw))), 2, True)" for t
    using data(2) raw by (simp add: finish_change_def f(2) sample_lease_def)
  then have "\<exists>s2. col_mutate aria2 None None ''g'' (finish_change 2 ?l ''paused'' False) s1 = (Inr True, s2)"
    by (intro ar.mutate_runs [OF ix, where data = data and b = "Doc (JObj (finish_fields sample_lease ?l ''paused'' False raw))"]) (simp_all add: aria2_keys data(1) json_valid_def)
  then obtain s2 where "finishControl None None 2 ?l ''paused'' False s1 = (Inr True, s2)" by (auto simp: finishControl_def f(2) sample_lease_def)
  then have "performOwnedControl (hub_reserve None None 1 1 1 100) (finishControl None None 2) sample_rpc sample_aria2 ''pause'' False owner sample_aria2_store = ((True, None), [CmdPause], s2)"
    using r by (simp add: performOwnedControl_def control_body_def sent_def finish_report_def sample_rpc_def)
  with r rec show ?thesis by blast
qed



end
