(* ===== verification/Aria2_Regulator.thy ===== *)
theory Aria2_Regulator
  imports Aria2_Control "HOL-Library.Product_Lexorder" "HOL-Library.List_Lexorder" "HOL-Library.Char_ord"
begin

text \<open>
  The guards that the aria2 downloader keeps beside its tasks: the repetition of calls while aria2 cannot be reached (\<open>reconnect.go\<close>), the regulator
  that pauses tasks after frequent Telegram errors (\<open>regulator.go\<close>), and the monitor that cycles tasks without progress (\<open>speed_monitor.go\<close>). Clocks and the
  answers of aria2 are parameters.
\<close>

section \<open>Tasks\<close>

record aria2File =
  af_length :: string
  af_completed :: string
  af_uris :: "string list"
  af_path :: string

record aria2Task =
  at_gid :: string
  at_status :: string
  at_total :: string
  at_completed :: string
  at_speed :: string
  at_files :: "aria2File list"
  at_errorCode :: string
  at_errorMessage :: string

definition parseAria2Length :: "string \<Rightarrow> int" where
  "parseAria2Length v = (if v = [] then 0 else case parse_int64 v of None \<Rightarrow> 0 | Some n \<Rightarrow> if n < 0 then 0 else n)"

text \<open>Completed and remaining bytes of \<open>aria2TaskInfo\<close>; the sums over files wrap around.\<close>

definition task_lengths :: "aria2Task \<Rightarrow> int \<times> int" where
  "task_lengths t =
     (let tot = parseAria2Length (at_total t); compl = parseAria2Length (at_completed t);
          (tot1, compl1) = (if tot = 0 \<and> at_files t \<noteq> []
            then fold (\<lambda>f (a, b). (wrap64 (a + parseAria2Length (af_length f)), wrap64 (b + parseAria2Length (af_completed f)))) (at_files t) (tot, compl)
            else (tot, compl));
          rest = wrap64 (tot1 - compl1)
      in (compl1, if rest < 0 then 0 else rest))"

definition isTDLTask :: "string list \<Rightarrow> string \<Rightarrow> aria2Task \<Rightarrow> bool" where
  "isTDLTask registered pfx t \<longleftrightarrow> at_gid t \<in> set registered \<or> list_ex (\<lambda>f. list_ex (\<lambda>u. has_prefix u pfx) (af_uris f)) (at_files t)"

definition active_owned :: "string list \<Rightarrow> string \<Rightarrow> aria2Task list \<Rightarrow> aria2Task list" where
  "active_owned registered pfx ts = filter (\<lambda>t. normalizedAria2Status (at_status t) = ''active'' \<and> isTDLTask registered pfx t) ts"

text \<open>The registry of the repository, the prefix of the links of this server and the answer of \<open>TellActive\<close> are the arguments.\<close>

definition activeOwnedTasks :: "string list res \<Rightarrow> string res \<Rightarrow> aria2Task list res \<Rightarrow> aria2Task list res" where
  "activeOwnedTasks registered pfx act =
     (case registered of
        Inl e \<Rightarrow> Inl (ErrWrap ''load tdl aria2 task registry'' e)
      | Inr gids \<Rightarrow>
          (case pfx of
             Inl e \<Rightarrow> Inl e
           | Inr p \<Rightarrow>
               (case act of
                  Inl e \<Rightarrow> Inl (ErrWrap ''query aria2 active tasks'' e)
                | Inr ts \<Rightarrow> Inr (active_owned gids p ts))))"

section \<open>Repetition while aria2 is away\<close>

definition maxConnectRetryInterval :: duration where
  "maxConnectRetryInterval = 60 * second"

definition nextAria2RetryInterval :: "duration \<Rightarrow> duration" where
  "nextAria2RetryInterval cur = (if go_div maxConnectRetryInterval 2 \<le> cur then maxConnectRetryInterval else wrap64 (cur * 2))"

text \<open>
  \<open>RetryConnectionWithInterval\<close> on a script of attempts: what the call returns, and the context when the timer fires or the context ends first. The result is the error, or
  nothing when the script ends while the loop goes on, and the delays that were waited for. \<open>conn\<close> is \<open>IsConnectionError\<close>.
\<close>

fun retry_loop :: "(err \<Rightarrow> bool) \<Rightarrow> duration \<Rightarrow> (err option \<times> ctx) list \<Rightarrow> err option option \<times> duration list" where
  "retry_loop conn delay [] = (None, [])"
| "retry_loop conn delay ((None, c) # xs) = (Some None, [])"
| "retry_loop conn delay ((Some e, c) # xs) =
     (if errors_is e Canceled \<or> \<not> conn e then (Some (Some e), [])
      else case c of
             Some e' \<Rightarrow> (Some (Some e'), [delay])
           | None \<Rightarrow> (case retry_loop conn (nextAria2RetryInterval delay) xs of (r, ds) \<Rightarrow> (r, delay # ds)))"

definition retryConnection :: "(err \<Rightarrow> bool) \<Rightarrow> duration \<Rightarrow> (err option \<times> ctx) list \<Rightarrow> err option option \<times> duration list" where
  "retryConnection conn interval xs =
     retry_loop conn (min (if interval \<le> 0 then 10 * second else interval) maxConnectRetryInterval) xs"

text \<open>The delays double up to a minute, whatever interval was asked for.\<close>

lemma next_interval: "0 < d \<Longrightarrow> d \<le> maxConnectRetryInterval \<Longrightarrow> nextAria2RetryInterval d = min maxConnectRetryInterval (2 * d)"
  by (auto simp: nextAria2RetryInterval_def maxConnectRetryInterval_def go_div_def wrap64_def)

lemma retry_delays:
  "0 < delay \<Longrightarrow> delay \<le> maxConnectRetryInterval \<Longrightarrow> retry_loop conn delay xs = (r, ds) \<Longrightarrow>
     \<forall>i < length ds. ds ! i = min maxConnectRetryInterval (2 ^ i * delay)"
proof (induction conn delay xs arbitrary: r ds rule: retry_loop.induct)
  case (3 conn delay e c xs)
  show ?case
  proof (cases "errors_is e Canceled \<or> \<not> conn e \<or> c \<noteq> None")
    case True
    with 3 show ?thesis by (auto split: if_splits option.splits)
  next
    case False
    then obtain r1 ds1 where l: "retry_loop conn (nextAria2RetryInterval delay) xs = (r1, ds1)" "ds = delay # ds1"
      using 3(4) by (auto split: prod.splits)
    have "nextAria2RetryInterval delay = min maxConnectRetryInterval (2 * delay)" by (rule next_interval [OF 3(2,3)])
    moreover from this 3(2) have b: "0 < nextAria2RetryInterval delay" "nextAria2RetryInterval delay \<le> maxConnectRetryInterval"
      by (auto simp: maxConnectRetryInterval_def)
    ultimately have ih: "\<forall>i < length ds1. ds1 ! i = min maxConnectRetryInterval (2 ^ i * min maxConnectRetryInterval (2 * delay))"
      using 3(1) [OF _ _ b l(1)] False by auto
    have m: "min maxConnectRetryInterval (2 ^ i * min maxConnectRetryInterval (2 * delay)) = min maxConnectRetryInterval (2 ^ Suc i * delay)" for i
    proof -
      have "maxConnectRetryInterval \<le> 2 ^ i * maxConnectRetryInterval" by (simp add: maxConnectRetryInterval_def)
      moreover have "delay * 2 \<le> delay * (2 * 2 ^ i)" using 3(2) by simp
      ultimately show ?thesis by (auto simp: min_def ac_simps)
    qed
    show ?thesis
    proof (intro allI impI)
      fix i assume "i < length ds"
      with l(2) ih m 3(2,3) show "ds ! i = min maxConnectRetryInterval (2 ^ i * delay)" by (cases i) auto
    qed
  qed
qed auto

section \<open>Regulator\<close>

record regulatorConfig =
  rc_window :: duration
  rc_threshold :: int
  rc_cooldown :: duration

definition normalize_regulator :: "regulatorConfig \<Rightarrow> regulatorConfig" where
  "normalize_regulator cfg =
     \<lparr>rc_window = if rc_window cfg \<le> 0 then 10 * second else rc_window cfg,
      rc_threshold = if rc_threshold cfg \<le> 0 then 3 else rc_threshold cfg,
      rc_cooldown = if rc_cooldown cfg \<le> 0 then 10 * second else rc_cooldown cfg\<rparr>"

record regulator =
  rg_times :: "instant list"
  rg_last :: instant
  rg_regulating :: bool

definition recordError :: "regulatorConfig \<Rightarrow> instant \<Rightarrow> regulator \<Rightarrow> bool \<times> regulator" where
  "recordError cfg now r =
     (let times = filter (\<lambda>ts. now - rc_window cfg < ts) (rg_times r) @ [now]; r1 = r\<lparr>rg_times := times\<rparr>
      in if int (length times) < rc_threshold cfg then (False, r1)
         else if rg_regulating r then (False, r1)
         else if \<not> is_zero (rg_last r) \<and> time_sub now (rg_last r) < rc_cooldown cfg then (False, r1)
         else (True, r\<lparr>rg_times := [], rg_regulating := True\<rparr>))"

definition finishRegulation :: "instant \<Rightarrow> regulator \<Rightarrow> regulator" where
  "finishRegulation now r = r\<lparr>rg_regulating := False, rg_last := now, rg_times := []\<rparr>"

text \<open>\<open>Run\<close>: each error with the time at which it is recorded and, if it starts a regulation, the time at which that ends. The result lists the regulations as start and end.\<close>

fun regulator_run :: "regulatorConfig \<Rightarrow> (instant \<times> instant) list \<Rightarrow> regulator \<Rightarrow> (instant \<times> instant) list" where
  "regulator_run cfg [] r = []"
| "regulator_run cfg ((now, fin) # xs) r =
     (case recordError cfg now r of
        (False, r1) \<Rightarrow> regulator_run cfg xs r1
      | (True, r1) \<Rightarrow> (now, fin) # regulator_run cfg xs (finishRegulation fin r1))"

text \<open>Tasks are ordered by progress: most completed first, then least remaining, then by id.\<close>

definition sortRegulationTasks :: "aria2Task list \<Rightarrow> aria2Task list" where
  "sortRegulationTasks ts = sort_key (\<lambda>t. (- fst (task_lengths t), snd (task_lengths t), at_gid t)) ts"

text \<open>The answers of aria2 to one regulation, and the context when the pause is over.\<close>

record regWorld =
  rw_active :: "aria2Task list res"
  rw_pause :: "string \<Rightarrow> err option"
  rw_unpause :: "string \<Rightarrow> err option"
  rw_timer :: ctx

datatype regCall = ForcePause string | Unpause string

fun forcePauseTasks :: "regWorld \<Rightarrow> aria2Task list \<Rightarrow> aria2Task list \<times> regCall list" where
  "forcePauseTasks w [] = ([], [])"
| "forcePauseTasks w (t # ts) =
     (if at_gid t = [] then forcePauseTasks w ts
      else case rw_pause w (at_gid t) of
             Some e \<Rightarrow> if errors_is e Canceled then ([], [ForcePause (at_gid t)])
                       else (case forcePauseTasks w ts of (ps, cs) \<Rightarrow> (ps, ForcePause (at_gid t) # cs))
           | None \<Rightarrow> (case forcePauseTasks w ts of (ps, cs) \<Rightarrow> (t # ps, ForcePause (at_gid t) # cs)))"

fun unpause_all :: "regWorld \<Rightarrow> aria2Task list \<Rightarrow> err option \<times> regCall list" where
  "unpause_all w [] = (None, [])"
| "unpause_all w (t # ts) =
     (if at_gid t = [] then unpause_all w ts
      else case rw_unpause w (at_gid t) of
             Some e \<Rightarrow> if errors_is e Canceled then (Some e, [Unpause (at_gid t)])
                       else (case unpause_all w ts of (r, cs) \<Rightarrow> (r, Unpause (at_gid t) # cs))
           | None \<Rightarrow> (case unpause_all w ts of (r, cs) \<Rightarrow> (r, Unpause (at_gid t) # cs)))"

definition resumeAfterPause :: "regWorld \<Rightarrow> aria2Task list \<Rightarrow> err option \<times> regCall list" where
  "resumeAfterPause w ts =
     (if ts = [] then (None, []) else case rw_timer w of Some e \<Rightarrow> (Some e, []) | None \<Rightarrow> unpause_all w ts)"

definition regulate :: "string list res \<Rightarrow> string res \<Rightarrow> regWorld \<Rightarrow> err option \<times> regCall list" where
  "regulate registered pfx w =
     (case activeOwnedTasks registered pfx (rw_active w) of
        Inl e \<Rightarrow> (Some e, [])
      | Inr ts \<Rightarrow>
          (case sortRegulationTasks ts of
             [] \<Rightarrow> (None, [])
           | [t] \<Rightarrow> (case forcePauseTasks w [t] of
                       (ps, cs) \<Rightarrow> if ps = [] then (None, cs) else (case resumeAfterPause w ps of (e, cs1) \<Rightarrow> (e, cs @ cs1)))
           | t # rest \<Rightarrow> (case forcePauseTasks w rest of (ps, cs) \<Rightarrow> (case resumeAfterPause w ps of (e, cs1) \<Rightarrow> (e, cs @ cs1)))))"

section \<open>Monitor of stalled tasks\<close>

type_synonym stallMap = "string \<rightharpoonup> instant"

text \<open>One task of \<open>poll\<close>: the new entry of the map, and whether the task is cycled. A task that is not active and owned any more loses its entry.\<close>

definition poll_task :: "duration \<Rightarrow> instant \<Rightarrow> aria2Task option \<Rightarrow> instant option \<Rightarrow> instant option \<times> bool" where
  "poll_task threshold now task old =
     (case task of
        None \<Rightarrow> (None, False)
      | Some t \<Rightarrow>
          if 0 < parseAria2Length (at_speed t) then (None, False)
          else case old of
                 None \<Rightarrow> (Some now, False)
               | Some since \<Rightarrow> if threshold \<le> time_sub now since then (Some now, True) else (Some since, False))"

text \<open>The map \<open>activeOwned\<close>, in which the last task with an id counts, and the step of the monitor.\<close>

definition owned_map :: "aria2Task list \<Rightarrow> string \<rightharpoonup> aria2Task" where
  "owned_map ts = map_of (rev (map (\<lambda>t. (at_gid t, t)) ts))"

definition poll :: "duration \<Rightarrow> instant \<Rightarrow> aria2Task list res \<Rightarrow> stallMap \<Rightarrow> stallMap \<times> (string \<Rightarrow> bool)" where
  "poll threshold now found stall =
     (case found of
        Inl e \<Rightarrow> (stall, \<lambda>g. False)
      | Inr ts \<Rightarrow> ((\<lambda>g. fst (poll_task threshold now (owned_map ts g) (stall g))), (\<lambda>g. snd (poll_task threshold now (owned_map ts g) (stall g)))))"

text \<open>The cycle of one task, and the polls of \<open>Run\<close> with the time of each and the owned active tasks it found.\<close>

definition pauseAndResume :: "regWorld \<Rightarrow> string \<Rightarrow> err option \<times> regCall list" where
  "pauseAndResume w gid =
     (case rw_pause w gid of
        Some e \<Rightarrow> (Some (ErrWrap ''pause stalled aria2 task'' e), [ForcePause gid])
      | None \<Rightarrow>
          (case rw_timer w of
             Some e \<Rightarrow> (Some e, [ForcePause gid])
           | None \<Rightarrow>
               (case rw_unpause w gid of
                  Some e \<Rightarrow> (Some (ErrWrap ''resume stalled aria2 task'' e), [ForcePause gid, Unpause gid])
                | None \<Rightarrow> (None, [ForcePause gid, Unpause gid]))))"

fun monitor_run :: "duration \<Rightarrow> (instant \<times> aria2Task list res) list \<Rightarrow> stallMap \<Rightarrow> stallMap" where
  "monitor_run threshold [] stall = stall"
| "monitor_run threshold ((now, found) # xs) stall = monitor_run threshold xs (fst (poll threshold now found stall))"

section \<open>Regulations are earned, spaced and undone\<close>

lemma recordError_True:
  assumes "recordError cfg now r = (True, r1)"
  shows "rc_threshold cfg \<le> int (length (filter (\<lambda>t. now - rc_window cfg < t) (rg_times r @ [now]))) \<or> rc_window cfg \<le> 0"
    and "rg_last r = 0 \<or> rc_cooldown cfg \<le> now - rg_last r \<or> rc_cooldown cfg \<le> - (2 ^ 63)" and "rg_times r1 = []"
  using assms by (auto simp: recordError_def Let_def time_sub_def split: if_splits)

lemma recordError_False: "recordError cfg now r = (False, r1) \<Longrightarrow> rg_times r1 = filter (\<lambda>ts. now - rc_window cfg < ts) (rg_times r) @ [now] \<and> rg_last r1 = rg_last r"
  by (auto simp: recordError_def Let_def split: if_splits)

lemma length_filter_mono: "(\<And>x. P x \<Longrightarrow> Q x) \<Longrightarrow> length (filter P (filter R xs)) \<le> length (filter Q xs)"
  by (induction xs) auto

lemma regulation_earned:
  assumes "(start, fin) \<in> set (regulator_run cfg xs r)" "0 < rc_window cfg"
  shows "\<exists>ys zs. xs = ys @ (start, fin) # zs
     \<and> rc_threshold cfg \<le> int (length (filter (\<lambda>t. start - rc_window cfg < t) (rg_times r @ map fst ys @ [start])))"
  using assms
proof (induction cfg xs r rule: regulator_run.induct)
  case (2 cfg now f xs r)
  obtain b r1 where b: "recordError cfg now r = (b, r1)" by (rule prod.exhaust)
  show ?case
  proof (cases "b \<and> (start, fin) = (now, f)")
    case True
    with b recordError_True(1) [of cfg now r r1] 2(4) show ?thesis by (intro exI [of _ "[]"] exI [of _ xs]) auto
  next
    case False
    define r2 where "r2 = (if b then finishRegulation f r1 else r1)"
    have "\<exists>ys zs. xs = ys @ (start, fin) # zs \<and> rc_threshold cfg \<le> int (length (filter (\<lambda>t. start - rc_window cfg < t) (rg_times r2 @ map fst ys @ [start])))"
      using 2 b False by (cases b) (auto simp: r2_def)
    then obtain ys zs where y: "xs = ys @ (start, fin) # zs" "rc_threshold cfg \<le> int (length (filter (\<lambda>t. start - rc_window cfg < t) (rg_times r2 @ map fst ys @ [start])))" by blast
    have "length (filter (\<lambda>t. start - rc_window cfg < t) (rg_times r2)) \<le> length (filter (\<lambda>t. start - rc_window cfg < t) (rg_times r @ [now]))"
    proof (cases b)
      case True
      then show ?thesis by (simp add: r2_def finishRegulation_def)
    next
      case False
      with b recordError_False [of cfg now r r1] have "rg_times r2 = filter (\<lambda>ts. now - rc_window cfg < ts) (rg_times r) @ [now]" by (simp add: r2_def)
      then show ?thesis using length_filter_mono [of "\<lambda>t. start - rc_window cfg < t" "\<lambda>t. start - rc_window cfg < t"] by simp
    qed
    with y show ?thesis by (intro exI [of _ "(now, f) # ys"] exI [of _ zs]) auto
  qed
qed simp

lemma regulations_spaced:
  assumes "- (2 ^ 63) < rc_cooldown cfg"
  shows "(regulator_run cfg xs r \<noteq> [] \<longrightarrow> rg_last r = 0 \<or> rc_cooldown cfg \<le> fst (hd (regulator_run cfg xs r)) - rg_last r)
     \<and> successively (\<lambda>a b. snd a = 0 \<or> rc_cooldown cfg \<le> fst b - snd a) (regulator_run cfg xs r)"
  using assms
proof (induction cfg xs r rule: regulator_run.induct)
  case (2 cfg now f xs r)
  obtain b r1 where b: "recordError cfg now r = (b, r1)" by (rule prod.exhaust)
  show ?case
  proof (cases b)
    case True
    let ?rest = "regulator_run cfg xs (finishRegulation f r1)"
    have "(?rest \<noteq> [] \<longrightarrow> f = 0 \<or> rc_cooldown cfg \<le> fst (hd ?rest) - f) \<and> successively (\<lambda>a b. snd a = 0 \<or> rc_cooldown cfg \<le> fst b - snd a) ?rest"
      using 2 b True by (simp add: finishRegulation_def)
    with True b recordError_True(2) [of cfg now r r1] 2(3) show ?thesis by (cases ?rest) (auto simp: successively_Cons)
  next
    case False
    with 2 b recordError_False [of cfg now r r1] show ?thesis by simp
  qed
qed simp

lemma forcePause_calls:
  "forcePauseTasks w ts = (ps, cs) \<Longrightarrow> (\<exists>gs. cs = map ForcePause gs \<and> set gs \<subseteq> at_gid ` set ts \<and> map at_gid ps = filter (\<lambda>g. rw_pause w g = None) gs \<and> set ps \<subseteq> set ts \<and> [] \<notin> set gs)"
proof (induction w ts arbitrary: ps cs rule: forcePauseTasks.induct)
  case (2 w t ts)
  obtain ps1 cs1 where r: "forcePauseTasks w ts = (ps1, cs1)" by (rule prod.exhaust)
  show ?case
  proof (cases "at_gid t = []")
    case True
    with 2(1) [OF True r] 2(4) r show ?thesis by auto
  next
    case ne: False
    show ?thesis
    proof (cases "\<exists>e. rw_pause w (at_gid t) = Some e \<and> errors_is e Canceled")
      case True
      with ne 2(4) show ?thesis by (intro exI [of _ "[at_gid t]"]) auto
    next
      case False
      have "\<exists>gs. cs1 = map ForcePause gs \<and> set gs \<subseteq> at_gid ` set ts \<and> map at_gid ps1 = filter (\<lambda>g. rw_pause w g = None) gs \<and> set ps1 \<subseteq> set ts \<and> [] \<notin> set gs"
        using 2(2,3) ne False r by (cases "rw_pause w (at_gid t)") auto
      then obtain gs where "cs1 = map ForcePause gs" "set gs \<subseteq> at_gid ` set ts" "map at_gid ps1 = filter (\<lambda>g. rw_pause w g = None) gs" "set ps1 \<subseteq> set ts" "[] \<notin> set gs" by blast
      with ne False 2(4) r show ?thesis
        by (intro exI [of _ "at_gid t # gs"]) (auto split: option.splits if_splits)
    qed
  qed
qed simp

lemma unpause_calls:
  "unpause_all w ts = (e, cs) \<Longrightarrow> [] \<notin> at_gid ` set ts \<Longrightarrow> (\<exists>n. cs = map (\<lambda>t. Unpause (at_gid t)) (take n ts)) \<and> (e = None \<longrightarrow> cs = map (\<lambda>t. Unpause (at_gid t)) ts)"
proof (induction w ts arbitrary: e cs rule: unpause_all.induct)
  case (2 w t ts)
  obtain e1 cs1 where r: "unpause_all w ts = (e1, cs1)" by (rule prod.exhaust)
  have ne: "at_gid t \<noteq> []" using 2(5) by auto
  show ?case
  proof (cases "\<exists>x. rw_unpause w (at_gid t) = Some x \<and> errors_is x Canceled")
    case True
    with ne 2(4) show ?thesis by (auto intro: exI [of _ 1])
  next
    case False
    have "(\<exists>n. cs1 = map (\<lambda>t. Unpause (at_gid t)) (take n ts)) \<and> (e1 = None \<longrightarrow> cs1 = map (\<lambda>t. Unpause (at_gid t)) ts)"
      using 2(2,3,5) ne False r by (cases "rw_unpause w (at_gid t)") auto
    moreover have "e = e1" "cs = Unpause (at_gid t) # cs1" using 2(4) ne False r by (auto split: option.splits if_splits)
    moreover have "\<exists>n. Unpause (at_gid t) # map (\<lambda>t. Unpause (at_gid t)) (take m ts) = map (\<lambda>t. Unpause (at_gid t)) (take n (t # ts))" for m
      by (rule exI [of _ "Suc m"]) simp
    ultimately show ?thesis by auto
  qed
qed simp

definition paused_by :: "regCall list \<Rightarrow> string list" where
  "paused_by cs = concat (map (\<lambda>c. case c of ForcePause g \<Rightarrow> [g] | Unpause g \<Rightarrow> []) cs)"

definition resumed_by :: "regCall list \<Rightarrow> string list" where
  "resumed_by cs = concat (map (\<lambda>c. case c of Unpause g \<Rightarrow> [g] | ForcePause g \<Rightarrow> []) cs)"

lemma calls_of [simp]: "paused_by (map ForcePause gs) = gs" "resumed_by (map ForcePause gs) = []" "paused_by (map Unpause gs) = []" "resumed_by (map Unpause gs) = gs"
  "paused_by (xs @ ys) = paused_by xs @ paused_by ys" "resumed_by (xs @ ys) = resumed_by xs @ resumed_by ys" "paused_by [] = []" "resumed_by [] = []"
  by (simp_all add: paused_by_def resumed_by_def comp_def)

text \<open>A pause of some tasks with the resumption that follows.\<close>

lemma pause_resume:
  assumes "forcePauseTasks w ts = (ps, cs)" "resumeAfterPause w ps = (e, cs1)"
  shows "set (paused_by (cs @ cs1)) \<subseteq> at_gid ` set ts"
    and "prefix (resumed_by (cs @ cs1)) (filter (\<lambda>g. rw_pause w g = None) (paused_by (cs @ cs1)))"
    and "e = None \<Longrightarrow> resumed_by (cs @ cs1) = filter (\<lambda>g. rw_pause w g = None) (paused_by (cs @ cs1))"
proof -
  obtain gs where gs: "cs = map ForcePause gs" "set gs \<subseteq> at_gid ` set ts" "map at_gid ps = filter (\<lambda>g. rw_pause w g = None) gs" "[] \<notin> set gs"
    using forcePause_calls [OF assms(1)] by blast
  have "set (map at_gid ps) \<subseteq> set gs" unfolding gs(3) by auto
  with gs(4) have ne: "[] \<notin> at_gid ` set ps" by auto
  have "\<exists>n. cs1 = map Unpause (take n (map at_gid ps)) \<and> (e = None \<longrightarrow> cs1 = map Unpause (map at_gid ps))"
  proof (cases "ps = [] \<or> rw_timer w \<noteq> None")
    case True
    with assms(2) show ?thesis by (intro exI [of _ 0]) (auto simp: resumeAfterPause_def split: if_splits)
  next
    case False
    with assms(2) have "unpause_all w ps = (e, cs1)" by (auto simp: resumeAfterPause_def)
    from unpause_calls [OF this ne] show ?thesis by (auto simp: take_map comp_def)
  qed
  then obtain n where n: "cs1 = map Unpause (take n (map at_gid ps))" "e = None \<longrightarrow> cs1 = map Unpause (map at_gid ps)" by blast
  from gs(1) n(1) have p: "paused_by (cs @ cs1) = gs" "resumed_by (cs @ cs1) = take n (map at_gid ps)" by simp_all
  show "set (paused_by (cs @ cs1)) \<subseteq> at_gid ` set ts" using p(1) gs(2) by simp
  show "prefix (resumed_by (cs @ cs1)) (filter (\<lambda>g. rw_pause w g = None) (paused_by (cs @ cs1)))"
    unfolding p gs(3) by (rule take_is_prefix)
  show "resumed_by (cs @ cs1) = filter (\<lambda>g. rw_pause w g = None) (paused_by (cs @ cs1))" if "e = None"
    using n(2) that gs(1) unfolding p(1) gs(3) by simp
qed


text \<open>Each regulation is earned by as many errors within the window before it as the threshold asks for, and one regulation starts no earlier than the cooldown after the
  end of the one before; this for every configuration, as the defaults stand in for what is not positive.\<close>

theorem regulations_earned_and_spaced:
  assumes "regulator_run (normalize_regulator cfg) xs \<lparr>rg_times = [], rg_last = 0, rg_regulating = False\<rparr> = runs" "0 \<notin> snd ` set xs"
  shows "(\<forall>(start, fin) \<in> set runs. \<exists>ys zs. xs = ys @ (start, fin) # zs
            \<and> rc_threshold (normalize_regulator cfg) \<le> int (length (filter (\<lambda>t. start - rc_window (normalize_regulator cfg) < t) (map fst ys @ [start]))))
     \<and> successively (\<lambda>a b. rc_cooldown (normalize_regulator cfg) \<le> fst b - snd a) runs"
proof -
  let ?c = "normalize_regulator cfg" and ?r = "\<lparr>rg_times = [], rg_last = 0, rg_regulating = False\<rparr>"
  have pos: "0 < rc_window ?c" "0 < rc_cooldown ?c" by (auto simp: normalize_regulator_def)
  have earned: "\<exists>ys zs. xs = ys @ (start, fin) # zs \<and> rc_threshold ?c \<le> int (length (filter (\<lambda>t. start - rc_window ?c < t) (map fst ys @ [start])))"
    if "(start, fin) \<in> set runs" for start fin
    using regulation_earned [of start fin ?c xs ?r] that assms(1) pos by simp
  have "successively (\<lambda>a b. snd a = 0 \<or> rc_cooldown ?c \<le> fst b - snd a) runs"
    using regulations_spaced [of ?c xs ?r] pos assms(1) by simp
  moreover have "snd p \<noteq> 0" if "p \<in> set runs" for p
  proof -
    from earned [of "fst p" "snd p"] that have "p \<in> set xs" by auto
    with assms(2) show ?thesis by (metis image_eqI)
  qed
  ultimately have "successively (\<lambda>a b. rc_cooldown ?c \<le> fst b - snd a) runs"
    by (auto intro: successively_mono)
  with earned show ?thesis by auto
qed

definition demo_errors :: "(instant \<times> instant) list" where
  "demo_errors = [(1 * second, 9 * second), (2 * second, 9 * second), (3 * second, 5 * second), (4 * second, 9 * second), (16 * second, 20 * second),
     (17 * second, 20 * second), (18 * second, 20 * second)]"

theorem regulations_earned_and_spaced_witness:
  "regulator_run (normalize_regulator \<lparr>rc_window = 0, rc_threshold = 0, rc_cooldown = 0\<rparr>) demo_errors \<lparr>rg_times = [], rg_last = 0, rg_regulating = False\<rparr>
     = [(3 * second, 5 * second), (18 * second, 20 * second)]
   \<and> successively (\<lambda>a b. rc_cooldown (normalize_regulator \<lparr>rc_window = 0, rc_threshold = 0, rc_cooldown = 0\<rparr>) \<le> fst b - snd a) [(3 * second, 5 * second), (18 * second, 20 * second)]"
proof -
  have r: "regulator_run (normalize_regulator \<lparr>rc_window = 0, rc_threshold = 0, rc_cooldown = 0\<rparr>) demo_errors \<lparr>rg_times = [], rg_last = 0, rg_regulating = False\<rparr>
     = [(3 * second, 5 * second), (18 * second, 20 * second)]"
    by code_simp
  have "0 \<notin> snd ` set demo_errors" by code_simp
  from regulations_earned_and_spaced [OF r this] r show ?thesis by simp
qed

section \<open>Only stalled tasks are cycled\<close>

definition stalled_at :: "string \<Rightarrow> aria2Task list res \<Rightarrow> bool" where
  "stalled_at g found \<longleftrightarrow> (case found of Inl e \<Rightarrow> True | Inr ts \<Rightarrow> (case owned_map ts g of None \<Rightarrow> False | Some t \<Rightarrow> parseAria2Length (at_speed t) = 0))"

lemma parsed_length_nonneg: "0 \<le> parseAria2Length v"
  by (auto simp: parseAria2Length_def split: option.splits)

lemma poll_entry:
  assumes "fst (poll threshold now found stall) g = Some since"
  shows "stalled_at g found \<and> (since = now \<and> (\<exists>ts. found = Inr ts) \<or> stall g = Some since)"
  using assms parsed_length_nonneg by (auto simp: poll_def poll_task_def stalled_at_def not_less intro: antisym split: sum.splits option.splits if_splits)

lemma monitor_entry:
  "monitor_run threshold xs stall g = Some since \<Longrightarrow>
     (\<exists>ys ts zs. xs = ys @ (since, Inr ts) # zs \<and> list_all (stalled_at g \<circ> snd) ((since, Inr ts) # zs))
   \<or> stall g = Some since \<and> list_all (stalled_at g \<circ> snd) xs"
proof (induction threshold xs stall rule: monitor_run.induct)
  case (2 threshold now found xs stall)
  from 2(2) have "monitor_run threshold xs (fst (poll threshold now found stall)) g = Some since" by simp
  from 2(1) [OF this] consider (later) "\<exists>ys ts zs. xs = ys @ (since, Inr ts) # zs \<and> list_all (stalled_at g \<circ> snd) ((since, Inr ts) # zs)"
    | (here) "fst (poll threshold now found stall) g = Some since" "list_all (stalled_at g \<circ> snd) xs" by blast
  then show ?case
  proof cases
    case later
    then obtain ys ts zs where "xs = ys @ (since, Inr ts) # zs" "list_all (stalled_at g \<circ> snd) ((since, Inr ts) # zs)" by blast
    then have "(now, found) # xs = ((now, found) # ys) @ (since, Inr ts) # zs \<and> list_all (stalled_at g \<circ> snd) ((since, Inr ts) # zs)" by simp
    then show ?thesis by blast
  next
    case here
    from poll_entry [OF here(1)] here(2) have a: "list_all (stalled_at g \<circ> snd) ((now, found) # xs)" by simp
    from poll_entry [OF here(1)] consider ts where "since = now" "found = Inr ts" | "stall g = Some since" by blast
    then show ?thesis
    proof cases
      case (1 ts)
      with a have "(now, found) # xs = [] @ (since, Inr ts) # xs \<and> list_all (stalled_at g \<circ> snd) ((since, Inr ts) # xs)" by simp
      then show ?thesis by blast
    qed (use a in blast)
  qed
qed simp

text \<open>The monitor cycles a task only if it found it active and without progress at this poll and at every successful poll since one that is at least the threshold earlier.\<close>

theorem only_stalled_tasks_are_cycled:
  assumes "snd (poll threshold now found (monitor_run threshold xs Map.empty)) g"
  shows "\<exists>ys since ts zs. xs = ys @ (since, Inr ts) # zs \<and> threshold \<le> time_sub now since
     \<and> list_all (stalled_at g \<circ> snd) ((since, Inr ts) # zs @ [(now, found)])"
proof -
  obtain since where s: "monitor_run threshold xs Map.empty g = Some since" "threshold \<le> time_sub now since" and h: "stalled_at g found"
    using assms parsed_length_nonneg by (auto simp: poll_def poll_task_def stalled_at_def not_less intro: antisym split: sum.splits option.splits if_splits)
  from monitor_entry [OF s(1)] obtain ys ts zs where "xs = ys @ (since, Inr ts) # zs" "list_all (stalled_at g \<circ> snd) ((since, Inr ts) # zs)" by auto
  with s(2) h show ?thesis by (intro exI [of _ ys] exI [of _ since] exI [of _ ts] exI [of _ zs]) simp
qed

definition demo_stalled :: aria2Task where
  "demo_stalled = \<lparr>at_gid = ''g'', at_status = ''active'', at_total = ''9'', at_completed = ''3'', at_speed = ''0'', at_files = [], at_errorCode = [], at_errorMessage = []\<rparr>"

theorem only_stalled_tasks_are_cycled_witness:
  "snd (poll (180 * second) (400 * second) (Inr [demo_stalled]) (monitor_run (180 * second) [(100 * second, Inr [demo_stalled]), (200 * second, Inl Canceled)] Map.empty)) ''g''
   \<and> (\<exists>ys since ts zs. [(100 * second, Inr [demo_stalled]), (200 * second, Inl Canceled)] = ys @ (since, Inr ts) # zs \<and> 180 * second \<le> time_sub (400 * second) since
     \<and> list_all (stalled_at ''g'' \<circ> snd) ((since, Inr ts) # zs @ [(400 * second, Inr [demo_stalled])]))"
proof -
  have "snd (poll (180 * second) (400 * second) (Inr [demo_stalled]) (monitor_run (180 * second) [(100 * second, Inr [demo_stalled]), (200 * second, Inl Canceled)] Map.empty)) ''g''"
    by code_simp
  with only_stalled_tasks_are_cycled [OF this] show ?thesis by blast
qed

end
