(* ===== verification/Aria2_Tasks.thy ===== *)
theory Aria2_Tasks
  imports Download_Control Aria2_Regulator
begin

text \<open>
  The controller of the aria2 downloader beyond single commands (\<open>application/downloader.aria2/control.go\<close>, \<open>control_operation.go\<close>, \<open>automatic_control.go\<close>,
  \<open>download_control.go\<close>, \<open>reconnect.go\<close>): the client of the guards, which may only resume its own pauses; submission of a download; the listing of tasks page by
  page; commands on all tasks; retries of stopped tasks; and the pauses around a reconnection. The answers of aria2 are parameters.
\<close>

section \<open>The client of the guards\<close>

text \<open>The repository of the controller.\<close>

record 's aria2Store =
  as_reserve :: "aria2Record \<Rightarrow> 's \<Rightarrow> (aria2Record \<times> bool) res \<times> 's"
  as_finish :: "aria2Record \<Rightarrow> string \<Rightarrow> bool \<Rightarrow> 's \<Rightarrow> bool res \<times> 's"
  as_records :: "'s \<Rightarrow> (string \<times> aria2Record) list res \<times> 's"
  as_add :: "aria2Record \<Rightarrow> 's \<Rightarrow> unit res \<times> 's"

definition errAutomaticControlSkipped :: err where
  "errAutomaticControlSkipped = ErrMsg ''automatic control skipped: task is unregistered or pause belongs to another owner''"

definition may_resume :: "string \<Rightarrow> bool \<Rightarrow> aria2Record \<Rightarrow> bool" where
  "may_resume owner resumeAny r \<longleftrightarrow> \<not> (ar_pauseOwner r = [] \<or> (\<not> resumeAny \<and> ar_pauseOwner r \<noteq> owner))"

text \<open>\<open>automaticClient.change\<close>; \<open>env\<close> is what others do to the store between the reading of the records and the reservation.\<close>

definition automatic_change :: "'s aria2Store \<Rightarrow> 's rpcWorld \<Rightarrow> string \<Rightarrow> bool \<Rightarrow> ('s \<Rightarrow> 's) \<Rightarrow> string \<Rightarrow> string \<Rightarrow> 's \<Rightarrow> err option \<times> aria2Cmd list \<times> 's" where
  "automatic_change st w owner resumeAny env gid action s =
     (case as_records st s of
        (Inl e, s1) \<Rightarrow> (Some e, [], s1)
      | (Inr rs, s1) \<Rightarrow>
          (case map_of rs gid of
             None \<Rightarrow> (Some errAutomaticControlSkipped, [], s1)
           | Some r \<Rightarrow>
               if action = ''resume'' \<and> \<not> may_resume owner resumeAny r then (Some errAutomaticControlSkipped, [], s1)
               else (case performOwnedControl (as_reserve st) (as_finish st) w r action True owner (env s1) of
                       ((changed, Some e), cmds, s2) \<Rightarrow> (Some e, cmds, s2)
                     | ((changed, None), cmds, s2) \<Rightarrow> (if changed then None else Some errAutomaticControlSkipped, cmds, s2))))"

definition automatic_pause :: "'s aria2Store \<Rightarrow> 's rpcWorld \<Rightarrow> string \<Rightarrow> bool \<Rightarrow> ('s \<Rightarrow> 's) \<Rightarrow> string \<Rightarrow> 's \<Rightarrow> err option \<times> aria2Cmd list \<times> 's" where
  "automatic_pause st w owner resumeAny env gid s = automatic_change st w owner resumeAny env gid ''pause'' s"

definition automatic_unpause :: "'s aria2Store \<Rightarrow> 's rpcWorld \<Rightarrow> string \<Rightarrow> bool \<Rightarrow> ('s \<Rightarrow> 's) \<Rightarrow> string \<Rightarrow> 's \<Rightarrow> err option \<times> aria2Cmd list \<times> 's" where
  "automatic_unpause st w owner resumeAny env gid s = automatic_change st w owner resumeAny env gid ''resume'' s"

section \<open>Submission\<close>

text \<open>
  \<open>Submit\<close>: the answers of aria2 to \<open>AddURI\<close> and, if the record cannot be stored, to \<open>Remove\<close>. The calls that reach aria2 are listed.
\<close>

datatype aria2Call = CallAdd string string string | CallRemove string | CallRemoveResult string

record addWorld =
  ad_addURI :: "string \<times> err option"
  ad_remove :: "err option"
  ad_now :: instant

definition new_record :: "string \<Rightarrow> string \<Rightarrow> string \<Rightarrow> string \<Rightarrow> string \<Rightarrow> string \<Rightarrow> instant \<Rightarrow> aria2Record" where
  "new_record gid task url dir out status now =
     aria2_zero\<lparr>ar_gid := gid, ar_taskID := task, ar_url := url, ar_dir := dir, ar_out := out, ar_status := status, ar_createdAt := now\<rparr>"

definition aria2_submit :: "'s aria2Store \<Rightarrow> addWorld \<Rightarrow> ctx \<Rightarrow> bool \<Rightarrow> string \<Rightarrow> downloadSubmission \<Rightarrow> 's \<Rightarrow> (downloadResult \<times> err option) \<times> aria2Call list \<times> 's" where
  "aria2_submit st w c initialized own sub s =
     (case c of
        Some e \<Rightarrow> ((no_result, Some e), [], s)
      | None \<Rightarrow>
          if \<not> initialized then ((no_result, Some (ErrWrap ''aria2 controller is not initialized'' ErrDownloadNotAccepted)), [], s)
          else
            let account = (if own = [] then DefaultAccount else own);
                accepted = (\<lambda>gid. \<lparr>dr_account = account, dr_target = ''aria2'', dr_id = gid, dr_skipped = False\<rparr>)
            in if sm_account sub \<noteq> [] \<and> sm_account sub \<noteq> account then ((no_result, Some (ErrMsg ''download account mismatch'')), [], s)
               else if trim_space (sm_url sub) = [] then ((no_result, Some (ErrMsg ''download url is empty'')), [], s)
               else
                 let add = CallAdd (sm_url sub) (sm_dir sub) (sm_out sub)
                 in (case ad_addURI w of
                       (gid, Some e) \<Rightarrow> ((no_result, Some (ErrWrap ''add aria2 uri'' e)), [add], s)
                     | (gid, None) \<Rightarrow>
                         if gid = [] then ((no_result, Some (ErrMsg ''aria2 returned empty gid'')), [add], s)
                         else (case as_add st (new_record gid (sm_taskID sub) (sm_url sub) (sm_dir sub) (sm_out sub) [] (ad_now w)) s of
                                 (Inl e, s1) \<Rightarrow> ((accepted gid, joined (Some (ErrWrap (''register aria2 task '' @ gid) e)) (ad_remove w)), [add, CallRemove gid], s1)
                               | (Inr _, s1) \<Rightarrow> ((accepted gid, None), [add], s1))))"

section \<open>Listing\<close>

definition aria2ControlBatchSize :: nat where
  "aria2ControlBatchSize = 1000"

text \<open>
  \<open>listTaskPages\<close>: \<open>query k offset\<close> is the answer to the \<open>k\<close>-th query, \<open>ctxs k\<close> the context before it. A daemon that always fills a page keeps the loop going; then
  there is no result.
\<close>

partial_function (option) task_pages :: "(nat \<Rightarrow> ctx) \<Rightarrow> (nat \<Rightarrow> nat \<Rightarrow> aria2Task list res) \<Rightarrow> nat \<Rightarrow> nat \<Rightarrow> aria2Task list \<Rightarrow> aria2Task list res option" where
  "task_pages ctxs query k offset acc =
     (case ctxs k of
        Some e \<Rightarrow> Some (Inl e)
      | None \<Rightarrow>
          (case query k offset of
             Inl e \<Rightarrow> Some (Inl e)
           | Inr batch \<Rightarrow>
               if length batch < aria2ControlBatchSize then Some (Inr (acc @ batch))
               else task_pages ctxs query (Suc k) (offset + length batch) (acc @ batch)))"

definition listTaskPages :: "(nat \<Rightarrow> ctx) \<Rightarrow> (nat \<Rightarrow> nat \<Rightarrow> aria2Task list res) \<Rightarrow> aria2Task list res option" where
  "listTaskPages ctxs query = task_pages ctxs query 0 0 []"

text \<open>The tasks of this account, each once and ordered by id: the registry decides, a matching link does not.\<close>

fun owned_tasks :: "string list \<Rightarrow> string list \<Rightarrow> aria2Task list \<Rightarrow> aria2Task list" where
  "owned_tasks registered seen [] = []"
| "owned_tasks registered seen (t # ts) =
     (if at_gid t = [] \<or> at_gid t \<in> set seen \<or> at_gid t \<notin> set registered then owned_tasks registered seen ts
      else t # owned_tasks registered (at_gid t # seen) ts)"

text \<open>\<open>listOwnedTasks\<close> with the answers of aria2 for active, waiting and stopped tasks; the latter two are the results of the paging.\<close>

record listWorld =
  lw_active :: "aria2Task list res"
  lw_waiting :: "aria2Task list res"
  lw_stopped :: "aria2Task list res"

definition listOwnedTasks :: "'s aria2Store \<Rightarrow> listWorld \<Rightarrow> bool \<Rightarrow> 's \<Rightarrow> (aria2Task list \<times> (string \<times> aria2Record) list) res \<times> 's" where
  "listOwnedTasks st w initialized s =
     (if \<not> initialized then (Inl (ErrMsg ''aria2 controller is not initialized''), s)
      else case as_records st s of
             (Inl e, s1) \<Rightarrow> (Inl (ErrWrap ''load tdl aria2 task registry'' e), s1)
           | (Inr rs, s1) \<Rightarrow>
               (case lw_active w of
                  Inl e \<Rightarrow> (Inl (ErrWrap ''query aria2 active tasks'' e), s1)
                | Inr active \<Rightarrow>
                    (case lw_waiting w of
                       Inl e \<Rightarrow> (Inl (ErrWrap ''query aria2 waiting tasks'' e), s1)
                     | Inr waiting \<Rightarrow>
                         (case lw_stopped w of
                            Inl e \<Rightarrow> (Inl (ErrWrap ''query aria2 stopped tasks'' e), s1)
                          | Inr stopped \<Rightarrow> (Inr (sort_key at_gid (owned_tasks (keys rs) [] (active @ waiting @ stopped)), rs), s1)))))"

section \<open>Commands on all tasks\<close>

record aria2Result =
  a2_matched :: nat
  a2_changed :: nat
  a2_skipped :: nat
  a2_errors :: "string list"

definition no_actions :: aria2Result where
  "no_actions = \<lparr>a2_matched = 0, a2_changed = 0, a2_skipped = 0, a2_errors = []\<rparr>"

definition record_of :: "(string \<times> aria2Record) list \<Rightarrow> string \<Rightarrow> aria2Record" where
  "record_of rs gid = (case map_of rs gid of None \<Rightarrow> aria2_zero | Some r \<Rightarrow> r)"

text \<open>The loop of \<open>ClearStopped\<close>, \<open>PauseAll\<close> and \<open>StartAll\<close>: tasks that the action is not for are skipped. \<open>strict\<close>: a command without effect counts as skipped.\<close>

definition count_control :: "bool \<Rightarrow> string \<Rightarrow> bool \<times> err option \<Rightarrow> aria2Result \<Rightarrow> aria2Result" where
  "count_control strict gid x res =
     (case snd x of
        Some e \<Rightarrow> res\<lparr>a2_errors := a2_errors res @ [gid @ '': '' @ err_text e]\<rparr>
      | None \<Rightarrow> if fst x \<or> \<not> strict then res\<lparr>a2_changed := Suc (a2_changed res)\<rparr> else res\<lparr>a2_skipped := Suc (a2_skipped res)\<rparr>)"

fun control_all :: "'s aria2Store \<Rightarrow> (string \<Rightarrow> 's rpcWorld) \<Rightarrow> (aria2Task \<Rightarrow> bool) \<Rightarrow> string \<Rightarrow> bool \<Rightarrow> bool \<Rightarrow> (string \<times> aria2Record) list \<Rightarrow> aria2Task list \<Rightarrow> aria2Result \<Rightarrow> 's
    \<Rightarrow> aria2Result \<times> (string \<times> aria2Cmd) list \<times> 's" where
  "control_all st ws select action force strict rs [] res s = (res, [], s)"
| "control_all st ws select action force strict rs (t # ts) res s =
     (if \<not> select t then control_all st ws select action force strict rs ts (res\<lparr>a2_skipped := Suc (a2_skipped res)\<rparr>) s
      else (case performControl (as_reserve st) (as_finish st) (ws (at_gid t)) (record_of rs (at_gid t)) action force s of
              (x, cmds, s1) \<Rightarrow>
                (case control_all st ws select action force strict rs ts (count_control strict (at_gid t) x (res\<lparr>a2_matched := Suc (a2_matched res)\<rparr>)) s1 of
                   (res1, calls, s2) \<Rightarrow> (res1, map (\<lambda>c. (at_gid t, c)) cmds @ calls, s2))))"

definition on_all :: "'s aria2Store \<Rightarrow> (string \<Rightarrow> 's rpcWorld) \<Rightarrow> (aria2Task \<Rightarrow> bool) \<Rightarrow> string \<Rightarrow> bool \<Rightarrow> bool \<Rightarrow> (aria2Task list \<times> (string \<times> aria2Record) list) res \<times> 's
    \<Rightarrow> aria2Result res \<times> (string \<times> aria2Cmd) list \<times> 's" where
  "on_all st ws select action force strict listing =
     (case listing of
        (Inl e, s) \<Rightarrow> (Inl e, [], s)
      | (Inr (ts, rs), s) \<Rightarrow> (case control_all st ws select action force strict rs ts no_actions s of (res, calls, s1) \<Rightarrow> (Inr res, calls, s1)))"

definition is_stopped :: "aria2Task \<Rightarrow> bool" where
  "is_stopped t \<longleftrightarrow> at_status t \<in> {''complete'', ''error'', ''removed''}"

definition is_running :: "aria2Task \<Rightarrow> bool" where
  "is_running t \<longleftrightarrow> normalizedAria2Status (at_status t) \<in> {''active'', ''waiting''}"

definition is_paused :: "aria2Task \<Rightarrow> bool" where
  "is_paused t \<longleftrightarrow> normalizedAria2Status (at_status t) = ''paused''"

definition clearStopped :: "'s aria2Store \<Rightarrow> (string \<Rightarrow> 's rpcWorld) \<Rightarrow> listWorld \<Rightarrow> bool \<Rightarrow> 's \<Rightarrow> aria2Result res \<times> (string \<times> aria2Cmd) list \<times> 's" where
  "clearStopped st ws lw initialized s = on_all st ws is_stopped ''delete'' False False (listOwnedTasks st lw initialized s)"

definition aria2_pauseAll :: "'s aria2Store \<Rightarrow> (string \<Rightarrow> 's rpcWorld) \<Rightarrow> listWorld \<Rightarrow> bool \<Rightarrow> 's \<Rightarrow> aria2Result res \<times> (string \<times> aria2Cmd) list \<times> 's" where
  "aria2_pauseAll st ws lw initialized s = on_all st ws is_running ''pause'' True True (listOwnedTasks st lw initialized s)"

definition aria2_startAll :: "'s aria2Store \<Rightarrow> (string \<Rightarrow> 's rpcWorld) \<Rightarrow> listWorld \<Rightarrow> bool \<Rightarrow> 's \<Rightarrow> aria2Result res \<times> (string \<times> aria2Cmd) list \<times> 's" where
  "aria2_startAll st ws lw initialized s = on_all st ws is_paused ''resume'' False True (listOwnedTasks st lw initialized s)"

text \<open>\<open>ChangeTasks\<close>; \<open>ctxs k\<close> is the context before the \<open>k\<close>-th task.\<close>

fun change_loop :: "'s aria2Store \<Rightarrow> (string \<Rightarrow> 's rpcWorld) \<Rightarrow> (nat \<Rightarrow> ctx) \<Rightarrow> nat \<Rightarrow> string \<Rightarrow> (string \<times> aria2Record) list \<Rightarrow> string list \<Rightarrow> aria2Result \<Rightarrow> 's
    \<Rightarrow> (aria2Result \<times> err option) \<times> (string \<times> aria2Cmd) list \<times> 's" where
  "change_loop st ws ctxs k action rs [] res s = ((res, None), [], s)"
| "change_loop st ws ctxs k action rs (i # is) res s =
     (case map_of rs i of
        None \<Rightarrow> change_loop st ws ctxs k action rs is (res\<lparr>a2_skipped := Suc (a2_skipped res)\<rparr>) s
      | Some r \<Rightarrow>
          (case ctxs k of
             Some e \<Rightarrow> ((res, Some e), [], s)
           | None \<Rightarrow>
               (case performControl (as_reserve st) (as_finish st) (ws i) r action False s of
                  (x, cmds, s1) \<Rightarrow>
                    (case change_loop st ws ctxs (Suc k) action rs is (count_control True i x (res\<lparr>a2_matched := Suc (a2_matched res)\<rparr>)) s1 of
                       (out, calls, s2) \<Rightarrow> (out, map (\<lambda>c. (i, c)) cmds @ calls, s2)))))"

definition aria2_changeTasks :: "'s aria2Store \<Rightarrow> (string \<Rightarrow> 's rpcWorld) \<Rightarrow> (nat \<Rightarrow> ctx) \<Rightarrow> bool \<Rightarrow> string \<Rightarrow> string list \<Rightarrow> 's
    \<Rightarrow> (aria2Result \<times> err option) \<times> (string \<times> aria2Cmd) list \<times> 's" where
  "aria2_changeTasks st ws ctxs available action ids s =
     (if action \<notin> {''pause'', ''resume'', ''delete''} then ((no_actions, Some (ErrMsg (''unsupported aria2 action '' @ action))), [], s)
      else if \<not> available then ((no_actions, Some (ErrMsg ''aria2 controller is unavailable'')), [], s)
      else case as_records st s of
             (Inl e, s1) \<Rightarrow> ((no_actions, Some e), [], s1)
           | (Inr rs, s1) \<Rightarrow> change_loop st ws ctxs 0 action rs ids no_actions s1)"

section \<open>Retries of stopped tasks\<close>

definition isRetryableStopped :: "aria2Task \<Rightarrow> bool" where
  "isRetryableStopped t \<longleftrightarrow>
     (let st = normalizedAria2Status (at_status t) in st = ''error'' \<or> st = ''removed'' \<or> st = ''complete'' \<and> 0 < snd (task_lengths t))"

text \<open>\<open>firstTDLTaskURI\<close>: the first link of this server, else the first link.\<close>

fun first_uri :: "string \<Rightarrow> string \<Rightarrow> string list \<Rightarrow> string" where
  "first_uri pfx first [] = first"
| "first_uri pfx first (u # us) =
     (if u = [] then first_uri pfx first us
      else let first1 = (if first = [] then u else first)
           in if pfx \<noteq> [] \<and> has_prefix u pfx then u else first_uri pfx first1 us)"

definition firstTDLTaskURI :: "aria2Task \<Rightarrow> string \<Rightarrow> string" where
  "firstTDLTaskURI t pfx = first_uri pfx [] (concat (map af_uris (at_files t)))"

text \<open>\<open>filepath.Base\<close> of a cleaned path.\<close>

definition fp_base :: "string \<Rightarrow> string" where
  "fp_base p = (let name = rev (takeWhile (\<lambda>c. c \<noteq> CHR ''/'') (rev p)) in if name = [] then ''/'' else name)"

definition maybeAria2PathOptions :: "aria2Task \<Rightarrow> string \<times> string" where
  "maybeAria2PathOptions t =
     (case at_files t of
        [] \<Rightarrow> ([], [])
      | f # _ \<Rightarrow> if af_path f = [] then ([], []) else let p = fp_clean (af_path f) in (fp_dir p, fp_base p))"

text \<open>\<open>retryTask\<close>: the answers of aria2, and what others do to the store while it is asked.\<close>

record 's retryWorld =
  ry_tell :: "aria2Task res"
  ry_addURI :: "string \<times> err option"
  ry_removeNew :: "err option"
  ry_removeOld :: "err option"
  ry_now :: instant
  ry_env :: "'s \<Rightarrow> 's"

definition retry_body :: "'s aria2Store \<Rightarrow> 's retryWorld \<Rightarrow> aria2Record \<Rightarrow> aria2Task \<Rightarrow> string \<Rightarrow> 's \<Rightarrow> (bool \<times> err option) \<times> aria2Call list \<times> 's" where
  "retry_body st w r t url s =
     (case ry_tell w of
        Inl e \<Rightarrow> ((False, Some e), [], s)
      | Inr current \<Rightarrow>
          if \<not> isRetryableStopped current then ((False, None), [], s)
          else
            let (dir, out) = (if ar_dir r = [] \<and> ar_out r = [] then maybeAria2PathOptions t else (ar_dir r, ar_out r));
                add = CallAdd url dir out
            in (case ry_addURI w of
                  (gid, Some e) \<Rightarrow> ((False, Some e), [add], s)
                | (gid, None) \<Rightarrow>
                    if gid = [] then ((False, Some (ErrMsg ''aria2 returned empty gid'')), [add], s)
                    else (case as_add st (new_record gid (ar_taskID r) url dir out ''waiting'' (ry_now w)) s of
                            (Inl e, s1) \<Rightarrow> ((False, joined (Some (ErrWrap (''persist new gid '' @ gid) e)) (ry_removeNew w)), [add, CallRemove gid], s1)
                          | (Inr _, s1) \<Rightarrow> ((True, ry_removeOld w), [add, CallRemoveResult (ar_gid r)], s1))))"

definition retryTask :: "'s aria2Store \<Rightarrow> 's retryWorld \<Rightarrow> aria2Record \<Rightarrow> aria2Task \<Rightarrow> string \<Rightarrow> 's \<Rightarrow> (bool \<times> err option) \<times> aria2Call list \<times> 's" where
  "retryTask st w r t url s =
     (case as_reserve st r s of
        (Inl e, s1) \<Rightarrow> ((False, Some e), [], s1)
      | (Inr (lease, False), s1) \<Rightarrow> ((False, Some (ErrMsg ''aria2 task changed or another control is in progress'')), [], s1)
      | (Inr (lease, True), s1) \<Rightarrow>
          (case retry_body st w r t url (ry_env w s1) of
             ((changed, e), calls, s2) \<Rightarrow>
               (case as_finish st lease [] changed s2 of (x, s3) \<Rightarrow> ((changed, joined e (finish_report x)), calls, s3))))"

definition count_retry :: "string \<Rightarrow> bool \<times> err option \<Rightarrow> aria2Result \<Rightarrow> aria2Result" where
  "count_retry gid x res =
     (let res1 = (case snd x of Some e \<Rightarrow> res\<lparr>a2_errors := a2_errors res @ [gid @ '': '' @ err_text e]\<rparr> | None \<Rightarrow> res)
      in if fst x then res1\<lparr>a2_changed := Suc (a2_changed res1)\<rparr>
         else if snd x = None then res1\<lparr>a2_skipped := Suc (a2_skipped res1)\<rparr> else res1)"

fun retry_all :: "'s aria2Store \<Rightarrow> (string \<Rightarrow> 's retryWorld) \<Rightarrow> string \<Rightarrow> (string \<times> aria2Record) list \<Rightarrow> aria2Task list \<Rightarrow> aria2Result \<Rightarrow> 's
    \<Rightarrow> aria2Result \<times> (string \<times> aria2Call) list \<times> 's" where
  "retry_all st ws pfx rs [] res s = (res, [], s)"
| "retry_all st ws pfx rs (t # ts) res s =
     (if \<not> isRetryableStopped t then retry_all st ws pfx rs ts (res\<lparr>a2_skipped := Suc (a2_skipped res)\<rparr>) s
      else
        let r = record_of rs (at_gid t); url = (if ar_url r = [] then firstTDLTaskURI t pfx else ar_url r);
            res1 = res\<lparr>a2_matched := Suc (a2_matched res)\<rparr>
        in if url = [] then retry_all st ws pfx rs ts (res1\<lparr>a2_errors := a2_errors res @ [at_gid t @ '': cannot find original download url'']\<rparr>) s
           else (case retryTask st (ws (at_gid t)) r t url s of
                   (x, cs, s1) \<Rightarrow>
                     (case retry_all st ws pfx rs ts (count_retry (at_gid t) x res1) s1 of
                        (res2, calls, s2) \<Rightarrow> (res2, map (\<lambda>c. (at_gid t, c)) cs @ calls, s2))))"

definition retryStopped :: "'s aria2Store \<Rightarrow> (string \<Rightarrow> 's retryWorld) \<Rightarrow> listWorld \<Rightarrow> bool \<Rightarrow> string res \<Rightarrow> 's \<Rightarrow> aria2Result res \<times> (string \<times> aria2Call) list \<times> 's" where
  "retryStopped st ws lw initialized pfx s =
     (case listOwnedTasks st lw initialized s of
        (Inl e, s1) \<Rightarrow> (Inl e, [], s1)
      | (Inr (ts, rs), s1) \<Rightarrow>
          (case retry_all st ws (case pfx of Inl e \<Rightarrow> [] | Inr p \<Rightarrow> p) rs ts no_actions s1 of (res, calls, s2) \<Rightarrow> (Inr res, calls, s2)))"

section \<open>Pauses around a reconnection\<close>

text \<open>\<open>MergeUniqueGIDs\<close>.\<close>

fun unique_gids :: "string list \<Rightarrow> string list \<Rightarrow> string list" where
  "unique_gids seen [] = []"
| "unique_gids seen (g # gs) = (if g = [] \<or> g \<in> set seen then unique_gids seen gs else g # unique_gids (g # seen) gs)"

definition mergeUniqueGIDs :: "string list \<Rightarrow> string list \<Rightarrow> string list" where
  "mergeUniqueGIDs base add = unique_gids [] (base @ add)"

text \<open>\<open>listTDLAria2ReconnectTasks\<close> on the active tasks and all pages of waiting tasks.\<close>

fun append_owned :: "string list \<Rightarrow> string \<Rightarrow> string list \<Rightarrow> aria2Task list \<Rightarrow> aria2Task list" where
  "append_owned registered pfx seen [] = []"
| "append_owned registered pfx seen (t # ts) =
     (if at_gid t = [] \<or> at_gid t \<in> set seen \<or> \<not> isTDLTask registered pfx t then append_owned registered pfx seen ts
      else t # append_owned registered pfx (at_gid t # seen) ts)"

definition reconnectTasks :: "string list \<Rightarrow> string \<Rightarrow> aria2Task list res \<Rightarrow> aria2Task list res \<Rightarrow> aria2Task list res" where
  "reconnectTasks registered pfx active waiting =
     (case active of
        Inl e \<Rightarrow> Inl (ErrWrap ''query aria2 active tasks'' e)
      | Inr as \<Rightarrow>
          (case waiting of
             Inl e \<Rightarrow> Inl (ErrWrap ''query aria2 waiting tasks'' e)
           | Inr ws \<Rightarrow> Inr (append_owned registered pfx [] (filter (\<lambda>t. at_status t \<in> {[], ''active''}) as @ filter (\<lambda>t. at_status t = ''waiting'') ws))))"

text \<open>A loop over tasks that ends at an error of the kind \<open>ends\<close> and skips the tasks with other errors; the client acts on the state.\<close>

fun each_task :: "(err \<Rightarrow> bool) \<Rightarrow> (string \<Rightarrow> 's \<Rightarrow> err option \<times> 's) \<Rightarrow> string list \<Rightarrow> 's \<Rightarrow> (string list \<times> err option) \<times> 's" where
  "each_task ends call [] s = (([], None), s)"
| "each_task ends call (g # gs) s =
     (case call g s of
        (Some e, s1) \<Rightarrow> if ends e then (([], Some e), s1) else each_task ends call gs s1
      | (None, s1) \<Rightarrow> (case each_task ends call gs s1 of ((done, e), s2) \<Rightarrow> ((g # done, e), s2)))"

definition suspendTasks :: "(err \<Rightarrow> bool) \<Rightarrow> (string \<Rightarrow> 's \<Rightarrow> err option \<times> 's) \<Rightarrow> string list res \<Rightarrow> string res \<Rightarrow> aria2Task list res \<Rightarrow> aria2Task list res \<Rightarrow> 's
    \<Rightarrow> (string list \<times> err option) \<times> 's" where
  "suspendTasks ends pause registered pfx active waiting s =
     (case registered of
        Inl e \<Rightarrow> (([], Some (ErrWrap ''load tdl aria2 task registry'' e)), s)
      | Inr gids \<Rightarrow>
          (case pfx of
             Inl e \<Rightarrow> (([], Some e), s)
           | Inr p \<Rightarrow>
               (case reconnectTasks gids p active waiting of
                  Inl e \<Rightarrow> (([], Some e), s)
                | Inr ts \<Rightarrow> each_task ends pause (map at_gid ts) s)))"

definition suspendForReconnect :: "(string \<Rightarrow> 's \<Rightarrow> err option \<times> 's) \<Rightarrow> string list res \<Rightarrow> string res \<Rightarrow> aria2Task list res \<Rightarrow> aria2Task list res \<Rightarrow> 's \<Rightarrow> (string list \<times> err option) \<times> 's" where
  "suspendForReconnect = suspendTasks (\<lambda>e. errors_is e Canceled)"

definition aria2_pauseForShutdown :: "(string \<Rightarrow> 's \<Rightarrow> err option \<times> 's) \<Rightarrow> string list res \<Rightarrow> string res \<Rightarrow> aria2Task list res \<Rightarrow> aria2Task list res \<Rightarrow> 's \<Rightarrow> (string list \<times> err option) \<times> 's" where
  "aria2_pauseForShutdown = suspendTasks (\<lambda>e. errors_is e Canceled \<or> errors_is e DeadlineExceeded)"

definition resumeTDLTasks :: "(string \<Rightarrow> 's \<Rightarrow> err option \<times> 's) \<Rightarrow> string list \<Rightarrow> 's \<Rightarrow> err option \<times> 's" where
  "resumeTDLTasks unpause gids s = (case each_task (\<lambda>e. errors_is e Canceled) unpause (unique_gids [] gids) s of ((done, e), s1) \<Rightarrow> (e, s1))"

definition resumeStartupPaused :: "(string \<Rightarrow> 's \<Rightarrow> err option \<times> 's) \<Rightarrow> string list res \<Rightarrow> string res \<Rightarrow> aria2Task list res \<Rightarrow> 's \<Rightarrow> (nat \<times> err option) \<times> 's" where
  "resumeStartupPaused unpause registered pfx waiting s =
     (case registered of
        Inl e \<Rightarrow> ((0, Some (ErrWrap ''load tdl aria2 task registry'' e)), s)
      | Inr gids \<Rightarrow>
          (case pfx of
             Inl e \<Rightarrow> ((0, Some e), s)
           | Inr p \<Rightarrow>
               (case waiting of
                  Inl e \<Rightarrow> ((0, Some (ErrWrap ''query aria2 waiting tasks'' e)), s)
                | Inr ts \<Rightarrow>
                    (case each_task (\<lambda>e. errors_is e Canceled) unpause (map at_gid (filter (\<lambda>t. is_paused t \<and> isTDLTask gids p t) ts)) s of
                       ((done, e), s1) \<Rightarrow> ((length done, e), s1)))))"

section \<open>Listings are complete\<close>

text \<open>A daemon that holds a fixed list of tasks is read completely, in order and in finitely many queries.\<close>

lemma task_pages_served:
  assumes "\<And>k. ctxs k = None" "\<And>k off. query k off = Inr (take aria2ControlBatchSize (drop off ts))" "offset \<le> length ts"
  shows "task_pages ctxs query k offset (take offset ts) = Some (Inr ts)"
  using assms(3)
proof (induction "length ts - offset" arbitrary: k offset rule: less_induct)
  case less
  let ?batch = "take aria2ControlBatchSize (drop offset ts)"
  have app: "take offset ts @ ?batch = take (offset + length ?batch) ts"
    using less.prems by (simp add: take_add min_def)
  show ?case
  proof (cases "length ?batch < aria2ControlBatchSize")
    case True
    then have "offset + length ?batch = length ts" using less.prems by auto
    with True app show ?thesis by (subst task_pages.simps) (auto simp: assms(1,2))
  next
    case False
    then have f: "length ?batch = aria2ControlBatchSize" by auto
    then have o: "offset + length ?batch \<le> length ts" "length ts - (offset + length ?batch) < length ts - offset"
      using less.prems by (auto simp: aria2ControlBatchSize_def)
    have "task_pages ctxs query k offset (take offset ts) = task_pages ctxs query (Suc k) (offset + length ?batch) (take (offset + length ?batch) ts)"
      using False app by (subst task_pages.simps) (simp add: assms(1,2))
    with less.hyps [OF o(2,1)] show ?thesis by simp
  qed
qed

lemma owned_tasks_props:
  "distinct (map at_gid (owned_tasks registered seen ts)) \<and> at_gid ` set (owned_tasks registered seen ts) \<subseteq> set registered - set seen - {[]}
    \<and> set (owned_tasks registered seen ts) \<subseteq> set ts"
  by (induction registered seen ts rule: owned_tasks.induct) auto

lemma owned_tasks_complete: "t \<in> set ts \<Longrightarrow> at_gid t \<in> set registered \<Longrightarrow> at_gid t \<noteq> [] \<Longrightarrow> at_gid t \<in> at_gid ` set (owned_tasks registered seen ts) \<union> set seen"
  by (induction registered seen ts rule: owned_tasks.induct) auto

text \<open>The listing of the controller: a daemon with fixed lists of waiting and stopped tasks is read completely, page by page, and the result holds each registered task of the
  daemon once, ordered by id, and nothing else; tasks of other accounts on the same daemon are left out whatever their links are.\<close>

theorem owned_tasks_are_listed_once:
  assumes "\<And>k. ctxs k = None" "\<And>k off. queryW k off = Inr (take aria2ControlBatchSize (drop off waiting))" "\<And>k off. queryS k off = Inr (take aria2ControlBatchSize (drop off stopped))"
    and "as_records st s = (Inr rs, s1)"
  shows "\<exists>w x ts. listTaskPages ctxs queryW = Some w \<and> listTaskPages ctxs queryS = Some x
    \<and> listOwnedTasks st \<lparr>lw_active = Inr active, lw_waiting = w, lw_stopped = x\<rparr> True s = (Inr (ts, rs), s1)
    \<and> distinct (map at_gid ts) \<and> sorted (map at_gid ts) \<and> set ts \<subseteq> set (active @ waiting @ stopped)
    \<and> at_gid ` set ts = at_gid ` set (active @ waiting @ stopped) \<inter> set (keys rs) - {[]}"
proof -
  have p: "listTaskPages ctxs queryW = Some (Inr waiting)" "listTaskPages ctxs queryS = Some (Inr stopped)"
    using task_pages_served [of ctxs queryW waiting 0] task_pages_served [of ctxs queryS stopped 0] assms(1-3) by (simp_all add: listTaskPages_def)
  define os where "os = owned_tasks (keys rs) [] (active @ waiting @ stopped)"
  have o: "distinct (map at_gid os)" "at_gid ` set os \<subseteq> set (keys rs) - {[]}" "set os \<subseteq> set (active @ waiting @ stopped)"
    using owned_tasks_props [of "keys rs" "[]" "active @ waiting @ stopped"] by (auto simp: os_def)
  have "at_gid ` set (active @ waiting @ stopped) \<inter> set (keys rs) - {[]} \<subseteq> at_gid ` set os"
    using owned_tasks_complete [of _ "active @ waiting @ stopped" "keys rs" "[]"] by (auto simp: os_def)
  with o have img: "at_gid ` set os = at_gid ` set (active @ waiting @ stopped) \<inter> set (keys rs) - {[]}" by blast
  let ?ts = "sort_key at_gid os"
  have "listOwnedTasks st \<lparr>lw_active = Inr active, lw_waiting = Inr waiting, lw_stopped = Inr stopped\<rparr> True s = (Inr (?ts, rs), s1)"
    using assms(4) by (simp add: listOwnedTasks_def os_def)
  moreover have "distinct (map at_gid ?ts)" "sorted (map at_gid ?ts)" using o(1) by (simp_all add: distinct_map)
  ultimately show ?thesis using p o(3) img
    by (intro exI [of _ "Inr waiting"] exI [of _ "Inr stopped"] exI [of _ ?ts]) simp
qed

section \<open>Commands on all tasks are confined\<close>

definition cmds_of :: "string \<Rightarrow> aria2Cmd set" where
  "cmds_of action = (if action = ''pause'' then {CmdPause, CmdForcePause} else if action = ''resume'' then {CmdUnpause} else if action = ''delete'' then {CmdRemove, CmdRemoveResult} else {})"

lemma control_body_cmds: "set (dc_cmds (control_body w r lease action force owner)) \<subseteq> cmds_of action \<and> length (dc_cmds (control_body w r lease action force owner)) \<le> 1"
  by (auto simp: control_body_def sent_def cmds_of_def Let_def split: sum.splits option.splits if_splits)

lemma performed_cmds: "performOwnedControl reserve finish w r action force owner s = (x, cmds, s') \<Longrightarrow> set cmds \<subseteq> cmds_of action \<and> length cmds \<le> 1"
  using control_body_cmds [of w r _ action force owner] by (auto simp: performOwnedControl_def Let_def split: prod.splits sum.splits bool.splits)

definition outcomes :: "aria2Result \<Rightarrow> nat" where
  "outcomes res = a2_changed res + a2_skipped res + length (a2_errors res)"

lemma count_control_props [simp]: "a2_matched (count_control strict gid x res) = a2_matched res" "outcomes (count_control strict gid x res) = Suc (outcomes res)"
  by (auto simp: count_control_def outcomes_def split: option.splits)

lemma matched_outcomes [simp]: "outcomes (res\<lparr>a2_matched := n\<rparr>) = outcomes res" "outcomes (res\<lparr>a2_skipped := Suc (a2_skipped res)\<rparr>) = Suc (outcomes res)"
  "outcomes no_actions = 0" "a2_matched no_actions = 0"
  by (simp_all add: outcomes_def no_actions_def)

lemma control_all_props:
  "control_all st ws select action force strict rs ts res s = (res', calls, s') \<Longrightarrow> distinct (map at_gid ts) \<Longrightarrow>
     distinct (map fst calls) \<and> fst ` set calls \<subseteq> at_gid ` {t \<in> set ts. select t} \<and> snd ` set calls \<subseteq> cmds_of action
     \<and> a2_matched res' = a2_matched res + length (filter select ts) \<and> outcomes res' = outcomes res + length ts"
proof (induction st ws select action force strict rs ts res s arbitrary: res' calls s' rule: control_all.induct)
  case (2 st ws select action force strict rs t ts res s)
  show ?case
  proof (cases "select t")
    case False
    with 2 show ?thesis by auto
  next
    case True
    obtain x cmds s1 where p: "performControl (as_reserve st) (as_finish st) (ws (at_gid t)) (record_of rs (at_gid t)) action force s = (x, cmds, s1)" by (rule prod_cases3)
    obtain res1 calls1 s2 where c: "control_all st ws select action force strict rs ts (count_control strict (at_gid t) x (res\<lparr>a2_matched := Suc (a2_matched res)\<rparr>)) s1 = (res1, calls1, s2)"
      by (rule prod_cases3)
    have e: "res' = res1" "calls = map (\<lambda>c. (at_gid t, c)) cmds @ calls1" using 2(3) True p c by simp_all
    have cm: "set cmds \<subseteq> cmds_of action" "length cmds \<le> 1" using performed_cmds [OF p [unfolded performControl_def]] by simp_all
    from cm(2) have "cmds = [] \<or> (\<exists>c. cmds = [c])" by (cases cmds) auto
    with 2(2) [OF _ p [symmetric] refl c] True 2(4) e cm(1) show ?thesis by auto
  qed
qed simp

lemma on_all_props:
  assumes "on_all st ws select action force strict (listOwnedTasks st lw initialized s) = (r, calls, s')"
  shows "distinct (map fst calls) \<and> snd ` set calls \<subseteq> cmds_of action
    \<and> (case listOwnedTasks st lw initialized s of
         (Inl e, s1) \<Rightarrow> r = Inl e \<and> calls = [] \<and> s' = s1
       | (Inr (ts, rs), s1) \<Rightarrow> fst ` set calls \<subseteq> at_gid ` {t \<in> set ts. select t} \<inter> set (keys rs)
           \<and> (\<exists>res. r = Inr res \<and> a2_matched res = length (filter select ts) \<and> outcomes res = length ts))"
proof (cases "listOwnedTasks st lw initialized s")
  case (Pair x s1)
  show ?thesis
  proof (cases x)
    case (Inl e)
    with Pair assms show ?thesis by (simp add: on_all_def)
  next
    case (Inr y)
    obtain ts rs where y: "y = (ts, rs)" by (rule prod.exhaust)
    obtain res c s2 where l: "control_all st ws select action force strict rs ts no_actions s1 = (res, c, s2)" by (rule prod_cases3)
    have rr: "r = Inr res" "calls = c" using assms Pair Inr y l by (simp_all add: on_all_def)
    obtain all where ts: "ts = sort_key at_gid (owned_tasks (keys rs) [] all)"
      using Pair Inr y by (auto simp: listOwnedTasks_def split: if_splits prod.splits sum.splits)
    have d: "distinct (map at_gid ts)" "at_gid ` set ts \<subseteq> set (keys rs)"
      using owned_tasks_props [of "keys rs" "[]" all] by (auto simp: ts distinct_map)
    have cp: "fst ` set c \<subseteq> at_gid ` {t \<in> set ts. select t}" "distinct (map fst c)" "snd ` set c \<subseteq> cmds_of action"
      "a2_matched res = length (filter select ts)" "outcomes res = length ts"
      using control_all_props [OF l d(1)] by simp_all
    moreover from cp(1) d(2) have "fst ` set c \<subseteq> set (keys rs)" by blast
    ultimately show ?thesis using rr Pair Inr y by simp
  qed
qed

text \<open>C40: Commands on all tasks stay with the account. On a shared daemon \<open>ClearStopped\<close>, \<open>PauseAll\<close> and \<open>StartAll\<close> send to aria2 only the calls of their action,
  at most one to a task, and only to registered tasks whose status the action is for; every task of the listing is accounted for in the result,
  the matching ones as matched.\<close>

theorem commands_on_all_tasks_are_confined:
  shows "(case clearStopped st ws lw initialized s of (r, calls, s') \<Rightarrow>
      distinct (map fst calls) \<and> snd ` set calls \<subseteq> {CmdRemove, CmdRemoveResult}
      \<and> (case listOwnedTasks st lw initialized s of (Inl e, s1) \<Rightarrow> r = Inl e \<and> calls = []
         | (Inr (ts, rs), s1) \<Rightarrow> fst ` set calls \<subseteq> at_gid ` {t \<in> set ts. is_stopped t} \<inter> set (keys rs)
             \<and> (\<exists>res. r = Inr res \<and> a2_matched res = length (filter is_stopped ts) \<and> outcomes res = length ts)))
    \<and> (case aria2_pauseAll st ws lw initialized s of (r, calls, s') \<Rightarrow>
      distinct (map fst calls) \<and> snd ` set calls \<subseteq> {CmdPause, CmdForcePause}
      \<and> (case listOwnedTasks st lw initialized s of (Inl e, s1) \<Rightarrow> r = Inl e \<and> calls = []
         | (Inr (ts, rs), s1) \<Rightarrow> fst ` set calls \<subseteq> at_gid ` {t \<in> set ts. is_running t} \<inter> set (keys rs)
             \<and> (\<exists>res. r = Inr res \<and> a2_matched res = length (filter is_running ts) \<and> outcomes res = length ts)))
    \<and> (case aria2_startAll st ws lw initialized s of (r, calls, s') \<Rightarrow>
      distinct (map fst calls) \<and> snd ` set calls \<subseteq> {CmdUnpause}
      \<and> (case listOwnedTasks st lw initialized s of (Inl e, s1) \<Rightarrow> r = Inl e \<and> calls = []
         | (Inr (ts, rs), s1) \<Rightarrow> fst ` set calls \<subseteq> at_gid ` {t \<in> set ts. is_paused t} \<inter> set (keys rs)
             \<and> (\<exists>res. r = Inr res \<and> a2_matched res = length (filter is_paused ts) \<and> outcomes res = length ts)))"
proof -
  have c: "cmds_of ''delete'' = {CmdRemove, CmdRemoveResult}" "cmds_of ''pause'' = {CmdPause, CmdForcePause}" "cmds_of ''resume'' = {CmdUnpause}"
    by (simp_all add: cmds_of_def)
  have one: "case on_all st ws select action force strict (listOwnedTasks st lw initialized s) of (r, calls, s') \<Rightarrow>
      distinct (map fst calls) \<and> snd ` set calls \<subseteq> cmds_of action
      \<and> (case listOwnedTasks st lw initialized s of (Inl e, s1) \<Rightarrow> r = Inl e \<and> calls = []
         | (Inr (ts, rs), s1) \<Rightarrow> fst ` set calls \<subseteq> at_gid ` {t \<in> set ts. select t} \<inter> set (keys rs)
             \<and> (\<exists>res. r = Inr res \<and> a2_matched res = length (filter select ts) \<and> outcomes res = length ts))" for select action force strict
  proof -
    obtain r calls s' where o: "on_all st ws select action force strict (listOwnedTasks st lw initialized s) = (r, calls, s')" by (rule prod_cases3)
    obtain x s1 where l: "listOwnedTasks st lw initialized s = (x, s1)" by (rule prod.exhaust)
    from on_all_props [OF o] o show ?thesis unfolding l by (cases x) (simp_all split: prod.splits)
  qed
  show ?thesis unfolding clearStopped_def aria2_pauseAll_def aria2_startAll_def
    by (intro conjI; rule one [where action = "''delete''", unfolded c] one [where action = "''pause''", unfolded c] one [where action = "''resume''", unfolded c])
qed

section \<open>Retries\<close>

text \<open>A retry never multiplies a download. Unless aria2 accepts a new task, nothing is changed but the lease; an accepted task whose record cannot be stored is removed from aria2
  again; and if its record was stored, the old result is removed, the retry counts as done, and with the report accepted the record of the old task is marked deleted, so that it is not
  retried again, even when aria2 fails to remove its result.\<close>

theorem retry_never_multiplies:
  assumes "retryTask \<lparr>as_reserve = hub_reserve c c' now0 now now' until, as_finish = finishControl c2 c3 now2, as_records = recs, as_add = add\<rparr> w r t url s = ((changed, e), calls, s')"
    and "ar_revision r + 2 < 2 ^ 64"
  shows "if changed
    then \<exists>gid dir out. gid \<noteq> [] \<and> ry_addURI w = (gid, None) \<and> calls = [CallAdd url dir out, CallRemoveResult (ar_gid r)]
       \<and> (if e = ry_removeOld w then \<exists>old. aria2_recs s' (ar_gid r) = Some old \<and> ar_deleted old \<and> ar_controlUntil old = 0 else True)
    else calls = [] \<or> (\<exists>dir out. calls = [CallAdd url dir out] \<and> (fst (ry_addURI w) = [] \<or> snd (ry_addURI w) \<noteq> None))
       \<or> (\<exists>gid dir out. ry_addURI w = (gid, None) \<and> calls = [CallAdd url dir out, CallRemove gid])"
proof -
  let ?st = "\<lparr>as_reserve = hub_reserve c c' now0 now now' until, as_finish = finishControl c2 c3 now2, as_records = recs, as_add = add\<rparr>"
  show ?thesis
  proof (cases "\<exists>lease s1. hub_reserve c c' now0 now now' until r s = (Inr (lease, True), s1)")
    case False
    with assms(1) show ?thesis by (auto simp: retryTask_def split: prod.splits sum.splits bool.splits)
  next
    case True
    then obtain lease s1 where rv: "hub_reserve c c' now0 now now' until r s = (Inr (lease, True), s1)" by blast
    obtain ch e0 cs s2 where b: "retry_body ?st w r t url (ry_env w s1) = ((ch, e0), cs, s2)" by (metis prod.exhaust)
    obtain x s3 where f: "finishControl c2 c3 now2 lease [] ch s2 = (x, s3)" by (rule prod.exhaust)
    have eq: "changed = ch" "e = joined e0 (finish_report x)" "calls = cs" "s' = s3" using assms(1) rv b f by (simp_all add: retryTask_def)
    show ?thesis
    proof (cases changed)
      case False
      with b eq(1,3) show ?thesis
        by (auto simp: retry_body_def Let_def split: sum.splits if_splits prod.splits option.splits)
    next
      case True
      with b eq(1,3) obtain gid dir out where g: "gid \<noteq> []" "ry_addURI w = (gid, None)" "calls = [CallAdd url dir out, CallRemoveResult (ar_gid r)]" "e0 = ry_removeOld w"
        by (auto simp: retry_body_def Let_def split: sum.splits if_splits prod.splits option.splits)
      have "\<exists>old. aria2_recs s' (ar_gid r) = Some old \<and> ar_deleted old \<and> ar_controlUntil old = 0" if "e = ry_removeOld w"
      proof -
        have "finish_report x = None" using that eq(2) g(4) by (cases "(e0, finish_report x)" rule: joined.cases) auto
        then have "x = Inr True" by (auto simp: finish_report_def split: sum.splits bool.splits)
        moreover obtain cur u where l: "lease = cur\<lparr>ar_revision := revision_succ (ar_revision cur), ar_controlUntil := u\<rparr>" "ar_revision cur = ar_revision r" "ar_gid cur = ar_gid r"
          using reserve_recs [OF rv] assms(2) by auto
        ultimately obtain cur' where "aria2_recs s3 (ar_gid r) = Some (finished cur' lease [] True)"
          using finish_recs [of c2 c3 now2 lease "[]" ch s2 s3] f assms(2) True eq(1) by (auto simp: revision_succ_def)
        with eq(4) finished_cases(1,3) show ?thesis by simp
      qed
      with True g show ?thesis by (intro if_P [THEN iffD2]) auto
    qed
  qed
qed

section \<open>A pause by the user wins\<close>

lemma manual_pause_recorded:
  assumes "performControl (hub_reserve c c' now0 now now' until) (finishControl c2 c3 now2) w r ''pause'' force s = ((changed, None), cmds, s1)" "ar_revision r + 2 < 2 ^ 64"
    and "rp_tell w = Inr told" "told \<notin> {''complete'', ''error''}"
    and "\<forall>cur. aria2_recs (rp_env w (snd (hub_reserve c c' now0 now now' until r s))) (ar_gid r) = Some cur \<longrightarrow> normalizeDownloadState (ar_status cur) \<notin> {''complete'', ''removed''}"
  shows "\<exists>fin. aria2_recs s1 (ar_gid r) = Some fin \<and> ar_status fin = ''paused'' \<and> ar_pauseOwner fin = [] \<and> ar_revision fin = ar_revision r + 2"
proof -
  obtain lease s0 cur d where a: "hub_reserve c c' now0 now now' until r s = (Inr (lease, True), s0)" "aria2_recs (rp_env w s0) (ar_gid r) = Some cur" "ar_revision cur = revision_succ (ar_revision r)"
    and d: "d = control_body w r (lease\<lparr>ar_pauseOwner := owner_of_lease r []\<rparr>) ''pause'' force []" "dc_err d = None"
    and f: "aria2_recs s1 (ar_gid r) = Some (finished cur (dc_lease d) (dc_status d) (dc_remove d))"
    using hc.control_acknowledged [OF assms(1) [unfolded performControl_def] assms(2)] by metis
  have live: "normalizeDownloadState (ar_status cur) \<notin> {''complete'', ''removed''}" using assms(5) a by simp
  have "dc_status d = ''paused''" "\<not> dc_remove d" "ar_pauseOwner (dc_lease d) = []"
    using d assms(3,4) by (auto simp: control_body_def sent_def owner_of_lease_def Let_def split: if_splits option.splits)
  with f finished_cases(2) [of cur "dc_lease d" "''paused''" False] finished_cases(4) [OF live, of "dc_lease d"] a(3) assms(2) show ?thesis
    by (simp add: revision_succ_def)
qed

text \<open>C8: A pause by the user wins over the guards. After an acknowledged pause of a task that is not finished, and while the record stays as the pause left it, an automatic resume sends nothing
  to aria2: not when it reads the records after the pause, as the pause has no owner, and not when it read them before, as its reservation then names an old revision. This holds for every
  owner, also for the recovery at startup, which may resume the pauses of all guards.\<close>

theorem manual_pause_wins:
  assumes "performControl (hub_reserve c c' now0 now now' until) (finishControl c2 c3 now2) w r ''pause'' force s = ((changed, None), cmds, s1)" "ar_revision r + 2 < 2 ^ 64"
    and "rp_tell w = Inr told" "told \<notin> {''complete'', ''error''}"
    and "\<forall>cur. aria2_recs (rp_env w (snd (hub_reserve c c' now0 now now' until r s))) (ar_gid r) = Some cur \<longrightarrow> normalizeDownloadState (ar_status cur) \<notin> {''complete'', ''removed''}"
    and "records sr = (Inr rs, sr')" "map_of rs (ar_gid r) = Some seen" "ar_gid seen = ar_gid r"
    and "ar_revision seen < ar_revision r + 2 \<or> aria2_recs s1 (ar_gid r) = Some seen" "aria2_recs (env sr') (ar_gid r) = aria2_recs s1 (ar_gid r)"
  shows "fst (snd (automatic_unpause \<lparr>as_reserve = hub_reserve a a' b0 b b' until', as_finish = finishControl a2 a3 b2, as_records = records, as_add = add\<rparr>
    w' owner resumeAny env (ar_gid r) sr)) = []"
proof -
  obtain fin where fin: "aria2_recs s1 (ar_gid r) = Some fin" "ar_pauseOwner fin = []" "ar_revision fin = ar_revision r + 2"
    using manual_pause_recorded [OF assms(1-5)] by blast
  show ?thesis
  proof (cases "seen = fin")
    case True
    then have "\<not> may_resume owner resumeAny seen" using fin(2) by (simp add: may_resume_def)
    with assms(6,7) show ?thesis by (simp add: automatic_unpause_def automatic_change_def)
  next
    case False
    with assms(9) fin(1) have old: "ar_revision seen < ar_revision r + 2" by auto
    have "fst (hub_reserve a a' b0 b b' until' seen (env sr')) \<noteq> Inr (lease, True)" for lease
    proof
      assume "fst (hub_reserve a a' b0 b b' until' seen (env sr')) = Inr (lease, True)"
      then have "hub_reserve a a' b0 b b' until' seen (env sr') = (Inr (lease, True), snd (hub_reserve a a' b0 b b' until' seen (env sr')))" by (metis prod.collapse)
      from reserve_recs [OF this] old assms(2) obtain cur where "aria2_recs (env sr') (ar_gid seen) = Some cur" "ar_revision cur = ar_revision seen" by auto
      with assms(8,10) fin(1,3) old show False by simp
    qed
    then have "fst (snd (performOwnedControl (hub_reserve a a' b0 b b' until') (finishControl a2 a3 b2) w' seen ''resume'' True owner (env sr'))) = []"
      unfolding performOwnedControl_def by (auto split: prod.splits sum.splits bool.splits) fastforce+
    with assms(6,7) show ?thesis by (auto simp: automatic_unpause_def automatic_change_def split: prod.splits option.splits)
  qed
qed

text \<open>The regulator has paused the task, reads the records, and comes late: meanwhile the user has paused it.\<close>

theorem manual_pause_wins_witness:
  "\<exists>s1. performControl (hub_reserve None None 1 1 1 100) (finishControl None None 2) sample_rpc sample_aria2 ''pause'' False sample_aria2_store = ((True, None), [CmdPause], s1)
    \<and> fst (snd (automatic_unpause \<lparr>as_reserve = hub_reserve None None 3 3 3 200, as_finish = finishControl None None 4,
          as_records = \<lambda>s. (Inr [(''g'', sample_aria2\<lparr>ar_pauseOwner := ''telegram-errors''\<rparr>)], s), as_add = \<lambda>r s. (Inr (), s)\<rparr>
        sample_rpc ''telegram-errors'' False (\<lambda>_. s1) ''g'' sample_aria2_store)) = []"
proof -
  note f = sample_aria2_facts
  obtain s0 s1 where r: "hub_reserve None None 1 1 1 100 sample_aria2 sample_aria2_store = (Inr (sample_lease, True), s0)" "aria2_recs s0 ''g'' = Some sample_lease"
    and p: "performControl (hub_reserve None None 1 1 1 100) (finishControl None None 2) sample_rpc sample_aria2 ''pause'' False sample_aria2_store = ((True, None), [CmdPause], s1)"
    using sample_paused [of "[]"] unfolding performControl_def by blast
  have "\<forall>cur. aria2_recs (rp_env sample_rpc (snd (hub_reserve None None 1 1 1 100 sample_aria2 sample_aria2_store))) (ar_gid sample_aria2) = Some cur \<longrightarrow>
      normalizeDownloadState (ar_status cur) \<notin> {''complete'', ''removed''}"
    using r by (auto simp: f sample_rpc_def sample_lease_def)
  from manual_pause_wins [OF p _ _ _ this, where told = "''active''" and records = "\<lambda>s. (Inr [(''g'', sample_aria2\<lparr>ar_pauseOwner := ''telegram-errors''\<rparr>)], s)"
      and sr = sample_aria2_store and rs = "[(''g'', sample_aria2\<lparr>ar_pauseOwner := ''telegram-errors''\<rparr>)]" and sr' = sample_aria2_store
      and seen = "sample_aria2\<lparr>ar_pauseOwner := ''telegram-errors''\<rparr>" and env = "\<lambda>_. s1"] p
  show ?thesis by (auto simp: f sample_rpc_def)
qed

section \<open>Refused submissions leave nothing behind\<close>

text \<open>
  What the router relies on, as the interface documents it: a submission that is refused and names no task has made no call to aria2, provided that the client of aria2 does not
  itself return the error of the interface. A task that aria2 accepted is always named, also when its record could not be stored.
\<close>

lemma refused_submission_leaves_nothing:
  assumes "aria2_submit st w c initialized own sub s = ((r, e), calls, s')" "\<not> not_accepted (snd (ad_addURI w))"
  shows "not_accepted e \<Longrightarrow> dr_id r = [] \<Longrightarrow> calls = [] \<and> s' = s"
    and "calls \<noteq> [] \<Longrightarrow> ad_addURI w = (gid, None) \<Longrightarrow> gid \<noteq> [] \<Longrightarrow> dr_id r = gid"
proof -
  have n: "\<not> not_accepted (Some (ErrMsg ''download account mismatch''))" "\<not> not_accepted (Some (ErrMsg ''download url is empty''))" "\<not> not_accepted (Some (ErrMsg ''aria2 returned empty gid''))"
    by (simp_all add: not_accepted_def ErrDownloadNotAccepted_def)
  have wr: "not_accepted (Some (ErrWrap m x)) \<longleftrightarrow> not_accepted (Some x)" for m x
    by (auto simp: not_accepted_def ErrDownloadNotAccepted_def)
  show "calls = [] \<and> s' = s" if "not_accepted e" "dr_id r = []"
    using assms that n by (auto simp: aria2_submit_def Let_def wr split: option.splits if_splits prod.splits sum.splits)
  show "dr_id r = gid" if "calls \<noteq> []" "ad_addURI w = (gid, None)" "gid \<noteq> []"
    using assms(1) that by (auto simp: aria2_submit_def Let_def split: option.splits if_splits prod.splits sum.splits)
qed

section \<open>Pauses around a reconnection\<close>

lemma append_owned_props:
  "distinct (map at_gid (append_owned registered pfx seen ts)) \<and> set (append_owned registered pfx seen ts) \<subseteq> {t \<in> set ts. isTDLTask registered pfx t \<and> at_gid t \<noteq> [] \<and> at_gid t \<notin> set seen}"
  by (induction registered pfx seen ts rule: append_owned.induct) auto

lemma each_task_done: "each_task ends call gs s = ((ok, e), s') \<Longrightarrow> set ok \<subseteq> set gs \<and> (distinct gs \<longrightarrow> distinct ok)"
proof (induction ends call gs s arbitrary: ok e s' rule: each_task.induct)
  case (2 ends call g gs s)
  obtain x s1 where c: "call g s = (x, s1)" by (rule prod.exhaust)
  obtain d1 e1 s2 where l: "each_task ends call gs s1 = ((d1, e1), s2)" by (metis prod.exhaust)
  show ?case using 2(1,2) [OF c [symmetric]] 2(3) c l by (cases x) (auto split: if_splits)
qed simp

text \<open>Only running tasks of this server are suspended, each once, and those that were are named for the resumption.\<close>

lemma suspended_tasks:
  assumes "suspendTasks ends pause registered pfx active waiting s = ((ok, e), s')"
  shows "distinct ok \<and> [] \<notin> set ok \<and> (ok \<noteq> [] \<longrightarrow> (\<exists>gids p as ws. registered = Inr gids \<and> pfx = Inr p \<and> active = Inr as \<and> waiting = Inr ws
     \<and> (\<forall>g \<in> set ok. \<exists>t \<in> set as \<union> set ws. at_gid t = g \<and> isTDLTask gids p t \<and> at_status t \<in> {[], ''active'', ''waiting''})))"
proof (cases "ok = []")
  case False
    then obtain gids p as ws where c: "registered = Inr gids" "pfx = Inr p" "active = Inr as" "waiting = Inr ws"
      "each_task ends pause (map at_gid (append_owned gids p [] (filter (\<lambda>t. at_status t \<in> {[], ''active''}) as @ filter (\<lambda>t. at_status t = ''waiting'') ws))) s = ((ok, e), s')"
      using assms by (auto simp: suspendTasks_def reconnectTasks_def split: sum.splits)
    let ?all = "filter (\<lambda>t. at_status t \<in> {[], ''active''}) as @ filter (\<lambda>t. at_status t = ''waiting'') ws"
    note ed = each_task_done [OF c(5)] and ao = append_owned_props [of gids p "[]" ?all]
    have "distinct ok" using ed ao by blast
    moreover have "\<exists>t \<in> set ?all. at_gid t = g \<and> isTDLTask gids p t \<and> g \<noteq> []" if "g \<in> set ok" for g
    proof -
      from that ed obtain t where "t \<in> set (append_owned gids p [] ?all)" "at_gid t = g" by auto
      with ao show ?thesis by blast
    qed
    ultimately show ?thesis using c(1-4) by fastforce
qed simp

end
