(* ===== verification/Spec2Isabelle.thy ===== *)
theory Spec2Isabelle
  imports Range_Proxy Telegram_Stream Scheduler Aria2_Hub Forward_Queue Event_Bus Delivery Target_Path Component_Lifecycle
    Forward_Rules Filter_Rules Naming_Rules Time_Sync Local_Control Local_Queue Aria2_Tasks
begin

text \<open>
  \<^bold>\<open>A verification of tdl.\<close>

  tdl watches Telegram chats, downloads their files and forwards their messages. Its components are assembled by a
  runtime (\<open>rte\<close>) that builds them from manifests, starts and stops them in dependency order and changes their configuration
  while they run. The components talk through ports (Go interfaces) and an event bus. A download is offered as an HTTP link
  by a range proxy (\<open>application/proxy.range\<close>, \<open>app/http\<close>) that fetches the bytes from Telegram under the limits of a transfer
  scheduler (\<open>bsw/ecual/comif\<close>); the links, the downloads of aria2 and of the local downloader and the forward jobs are JSON
  records in one key-value store (\<open>pkg/kv\<close>, \<open>bsw/services/nvm\<close>, \<open>bsw/cdd/taskhub\<close>); forwarding is a persistent queue
  (\<open>application/forwarder\<close>); file names, filters and routes are policies built from the configuration.

  \<^bold>\<open>How the sources are translated.\<close>
  A Go struct is a record, an enumeration a datatype, a map an association list or a HOL map, a byte string a \<^typ>\<open>string\<close>. Errors are
  values of the datatype \<open>err\<close> of \<^theory_text>\<open>Prelude\<close>, whose constructors are the sentinels the sources compare with
  \<open>errors.Is\<close>; a fallible function returns the sum type \<open>res\<close>. Integers are \<^typ>\<open>int\<close> with the wrap-around of 64 bits written out
  where an operation may overflow. A function with effects takes and returns its state. Code that goroutines run
  concurrently under a mutex is an inductive step relation with one rule per critical section, so that a reachable
  state is one that some interleaving produces; the locale \<open>invariant_proof\<close> of \<^theory_text>\<open>Prelude\<close> holds the induction
  over such steps and is interpreted for each of them. What the code does not decide (the clock, whether a context has ended when it is
  asked, the answers of Telegram, of the disk and of functions supplied by components) is a parameter, and the
  theorems hold for all of its values unless they state a hypothesis. Log output is left out.

  \<^bold>\<open>The theories.\<close>

  \<^item> \<^theory_text>\<open>Prelude\<close>: errors, strings, 64-bit integers, instants, contexts, association lists, reachability.

  \<^item> \<^theory_text>\<open>Range_Proxy\<close> (\<open>application/proxy.range/handler.go\<close>, \<open>config.go\<close>): parsing of \<open>Range\<close> headers, \<open>serve\<close> with every
    status, single and multipart responses, heads, local files, deadlines and the lease of a request. The locale
    \<open>range_transfer\<close> is the contract of a byte transport. Accepted ranges lie inside the content, headers round-trip, and
    a lease is released exactly once.

  \<^item> \<^theory_text>\<open>Telegram_Stream\<close> (\<open>app/http/telegram_source.go\<close>, \<open>session.go\<close>): chunk requests with the alignment that Telegram demands, retries
    and flood waits, the renewal of file references, sequential and parallel streams as a step relation of
    workers and collector. The streams are the requested bytes in order whatever the interleaving, with bounded memory and
    without deadlock; both transports are interpretations of \<open>range_transfer\<close>, so that a reported response is the file. The
    calls to Telegram are scripts of answers; a script that ends stands for a server that never answers.

  \<^item> \<^theory_text>\<open>Scheduler\<close> (\<open>bsw/ecual/comif/scheduler.go\<close>, \<open>file_limiter.go\<close>): \<open>Acquire\<close>, \<open>AcquireChunk\<close>, \<open>Release\<close>, \<open>Reconfigure\<close> as
    critical sections over an explicit store of tasks and waiters. Limits hold in every reachable state, no goroutine panics,
    nothing deadlocks, and no lane stays idle while a caller waits for it.

  \<^item> \<^theory_text>\<open>Kv_Store\<close> (\<open>pkg/kv\<close>, \<open>internal/core/storage\<close>, \<open>bsw/services/nvm/registry.go\<close>): JSON values, the memory store, the file engine, the
    registry of datasets and its writers. The locale \<open>transactional_store\<close> is the contract of \<open>Update\<close>; updates are atomic and writers
    are confined to their datasets.

  \<^item> \<^theory_text>\<open>Task_Hub\<close> (\<open>bsw/cdd/taskhub\<close>): indexed collections, local downloads with their state machine, links, expiry, maintenance. The locale
    \<open>hub_collection\<close> is interpreted for the four collections. Stored records are always indexed; removal, expiry and
    maintenance delete what they should and nothing else.

  \<^item> \<^theory_text>\<open>Aria2_Hub\<close> (\<open>aria2_repository.go\<close>, \<open>aria2_control.go\<close>, \<open>aria2_observation.go\<close>, \<open>download_state.go\<close>): control leases fence off
    observations that were made before them.

  \<^item> \<^theory_text>\<open>Delivery\<close> (\<open>app/http/delivery_status.go\<close>): the record of delivered byte ranges refines the set of delivered bytes.

  \<^item> \<^theory_text>\<open>Forward_Repository\<close>, \<^theory_text>\<open>Forward_Queue\<close> (\<open>forward_repository.go\<close>, \<open>application/forwarder/queue.go\<close>, \<open>config.go\<close>): the repository
    refines a map (locale \<open>forward_repository\<close>); the queue is proved against that contract in the locale \<open>forward_queue\<close>. One job runs
    at a time, failures are retried with bounded backoff and given up.

  \<^item> \<^theory_text>\<open>Local_Repository\<close>, \<^theory_text>\<open>Local_Worker\<close>, \<^theory_text>\<open>Local_Queue\<close>, \<^theory_text>\<open>Local_Control\<close> (\<open>application/downloader.local\<close>): the locale
    \<open>local_repository\<close> is the contract of the repository and is interpreted on the hub (\<open>lor\<close>, \<open>ld\<close>); one execution with its progress writer, during which others may change the
    store by arbitrary functions; the queue of the worker as a step relation; and the commands of the controller. A completed download is the file, an undisturbed one finishes,
    a settled one is left alone, each download runs once at a time, and a restart fences off the execution before it.

  \<^item> \<^theory_text>\<open>Download_Pipeline\<close>, \<^theory_text>\<open>Download_Control\<close> (\<open>application/download.control\<close>): the router over executors, the plans and the submission of a
    batch, its pool of workers as a step relation, the configured route, the gate of the service, the selection of tasks, the removal of a link, and the submission of saved links. The locale
    \<open>naming_port\<close> is the contract of the naming policy, interpreted on \<^theory_text>\<open>Naming_Rules\<close>. No file goes to a second downloader while a first one may have it,
    every file of a batch is accounted for, the targets of a batch differ, and a removed link leaves no record behind.

  \<^item> \<^theory_text>\<open>Aria2_Control\<close>, \<^theory_text>\<open>Aria2_Regulator\<close>, \<^theory_text>\<open>Aria2_Tasks\<close> (\<open>application/downloader.aria2\<close>): single commands under a lease (the locale
    \<open>control_repository\<close>, interpreted on the hub); the repetition of calls, the regulator of Telegram errors and the monitor of stalled tasks; submission, listing, commands on all tasks,
    retries, the client of the guards and the pauses around a reconnection. What aria2 was told is what the record says, commands stay with the tasks of the account, a pause by the
    user is not undone by a guard, and a retry does not multiply a download.

  \<^item> \<^theory_text>\<open>Event_Bus\<close> (\<open>rte/eventbus/bus.go\<close>): ordered delivery without loss, and draining after a close.

  \<^item> \<^theory_text>\<open>Dependency_Order\<close>, \<^theory_text>\<open>Reconciler\<close> (\<open>rte/reconciler.go\<close>): depth-first ordering and the stop and start passes over managed units. Calls
    respect the dependencies whatever the units answer, malformed graphs are rejected untouched, and without failures one
    pass reaches the desired state.

  \<^item> \<^theory_text>\<open>Config_View\<close>, \<^theory_text>\<open>Component_Runtime\<close>, \<^theory_text>\<open>Component_Lifecycle\<close> (\<open>rte/config/view.go\<close>, \<open>rte/rte.go\<close>, \<open>rte/reconfigure.go\<close>,
    \<open>rte/reconcile_components.go\<close>): typed views of a schema; registration, build, start, stop and reconfiguration. Accepted
    graphs are sound, failures stay with the component and its dependants, consumers are released before providers, and
    changes are applied to all components or to none.

  \<^item> \<^theory_text>\<open>Target_Path\<close>, \<^theory_text>\<open>Naming_Rules\<close>, \<^theory_text>\<open>Filter_Rules\<close>, \<^theory_text>\<open>Forward_Rules\<close>, \<^theory_text>\<open>Time_Sync\<close> (\<open>rte/targetpath\<close>, \<open>application/naming.rules\<close>,
    \<open>filter.rules\<close>, \<open>forward.rules\<close>, \<open>time.sync\<close>): the policies. Resolved paths stay below their base, names fit their limits and
    are distinct within a batch, filters decide without overflow, routes cannot loop, and the fastest server is chosen.

  \<^bold>\<open>Bounds and fuel.\<close>
  Loops over data are structural recursion or have a measure. The search for an unused name tries as many candidates
  as names are taken and two more, and is proved to return within them. The attempts of a chunk request are bounded by the code's own
  constant except for the waits that the server demands, which consume the script of answers. The paging of aria2's task lists is a partial function,
  as a daemon that always fills a page never ends it; for a fixed list it is proved to return.

  \<^bold>\<open>Not modelled.\<close>
  The bodies of logging and metrics; the wire protocols of Telegram, aria2, NTP and HTTP; templates and regular expressions of
  the standard library; the panels, bot commands and other adapters that only translate between a protocol and a port; the
  assembly of the ports; the operating system behind self-update and disk usage. Of the modelled components: the listing of links and tasks for the panel, the
  overview, the observer and the connection manager of aria2 (its durable effects are steps of \<^theory_text>\<open>Aria2_Hub\<close>), and the registration of components.
\<close>

end
